(* ===== verification/Prelude.thy ===== *)
theory Prelude
  imports Main "HOL-Library.Word" "HOL-Library.AList" "HOL-Library.Sublist"
begin

text \<open>
  Shared vocabulary of the development: Go's integers, maps, slices and strings, and the
  interfaces (locales) that several components have in common.

  \<^item> A Go \<open>map[K]V\<close> whose entries the code ranges over is an association list with distinct
    keys (\<open>go_map\<close>); the order of the list is the order in which the next \<open>range\<close> loop visits
    the entries, which Go leaves open. Theorems are stated for every list, hence for every order.
  \<^item> \<open>int64\<close> and \<open>uint64\<close> values on which wrap-around matters are \<open>64 word\<close>; sequence numbers that
    only count events are \<open>nat\<close>.
  \<^item> A Go \<open>string\<close> is the list of its bytes (\<open>char list\<close>).
\<close>

section \<open>Integers\<close>

type_synonym i64 = "64 word"
type_synonym u64 = "64 word"

text \<open>The value of Go's 64-bit \<open>int\<close> expression \<open>x\<close>, for \<open>x\<close> the mathematical result.\<close>

definition int64_of :: "int \<Rightarrow> int" where
  "int64_of x = (x + 2 ^ 63) mod 2 ^ 64 - 2 ^ 63"

lemma int64_of_id [simp]: "- (2 ^ 63) \<le> x \<Longrightarrow> x < 2 ^ 63 \<Longrightarrow> int64_of x = x"
  by (simp add: int64_of_def)

lemma int64_of_range: "- (2 ^ 63) \<le> int64_of x \<and> int64_of x < 2 ^ 63"
proof -
  have "0 \<le> (x + 2 ^ 63) mod 2 ^ 64" and "(x + 2 ^ 63) mod 2 ^ 64 < 2 ^ 64"
    by simp_all
  then show ?thesis by (simp add: int64_of_def)
qed

section \<open>Maps\<close>

type_synonym ('k, 'v) go_map = "('k \<times> 'v) list"

named_theorems go_map \<comment> \<open>reading, writing, deleting and filtering Go maps\<close>

abbreviation distinct_keys :: "('k, 'v) go_map \<Rightarrow> bool" where
  "distinct_keys m \<equiv> distinct (map fst m)"

text \<open>\<open>m[k]\<close> with the zero value \<open>z\<close> for an absent key.\<close>

definition get_or :: "'v \<Rightarrow> ('k, 'v) go_map \<Rightarrow> 'k \<Rightarrow> 'v" where
  "get_or z m k = (case map_of m k of None \<Rightarrow> z | Some v \<Rightarrow> v)"

definition has_key :: "('k, 'v) go_map \<Rightarrow> 'k \<Rightarrow> bool" where
  "has_key m k = (map_of m k \<noteq> None)"

definition keep_keys :: "('k \<Rightarrow> bool) \<Rightarrow> ('k, 'v) go_map \<Rightarrow> ('k, 'v) go_map" where
  "keep_keys P m = filter (\<lambda>e. P (fst e)) m"

lemma map_of_update [go_map]: "map_of (AList.update k v m) k' = (if k = k' then Some v else map_of m k')"
  by (simp add: update_conv')

lemma map_of_delete [go_map]: "map_of (AList.delete k m) k' = (if k = k' then None else map_of m k')"
  by (simp add: delete_conv')

lemma map_of_keep_keys [go_map]: "map_of (keep_keys P m) k = (if P k then map_of m k else None)"
  by (induction m) (auto simp: keep_keys_def)

lemma has_key_update [go_map]: "has_key (AList.update k v m) k' = (k = k' \<or> has_key m k')"
  by (simp add: has_key_def go_map)

lemma has_key_delete [go_map]: "has_key (AList.delete k m) k' = (k \<noteq> k' \<and> has_key m k')"
  by (simp add: has_key_def go_map)

lemma has_key_keep_keys [go_map]: "has_key (keep_keys P m) k = (P k \<and> has_key m k)"
  by (simp add: has_key_def go_map)

lemma has_key_Nil [simp]: "\<not> has_key [] k"
  by (simp add: has_key_def)

lemma has_key_iff: "has_key m k \<longleftrightarrow> k \<in> fst ` set m"
  by (simp add: has_key_def map_of_eq_None_iff)

lemma get_or_Nil [simp]: "get_or z [] k = z"
  by (simp add: get_or_def)

lemma get_or_update [go_map]: "get_or z (AList.update k v m) k' = (if k = k' then v else get_or z m k')"
  by (simp add: get_or_def go_map)

lemma get_or_delete [go_map]: "get_or z (AList.delete k m) k' = (if k = k' then z else get_or z m k')"
  by (simp add: get_or_def go_map)

lemma get_or_absent: "\<not> has_key m k \<Longrightarrow> get_or z m k = z"
  by (simp add: has_key_def get_or_def)

lemma map_of_get_or: "map_of m k = (if has_key m k then Some (get_or z m k) else None)"
  by (auto simp: has_key_def get_or_def split: option.splits)

lemma distinct_keys_update [simp]: "distinct_keys m \<Longrightarrow> distinct_keys (AList.update k v m)"
  by (rule distinct_update)

lemma distinct_keys_delete [simp]: "distinct_keys m \<Longrightarrow> distinct_keys (AList.delete k m)"
  by (rule distinct_delete)

lemma distinct_keys_keep [simp]: "distinct_keys m \<Longrightarrow> distinct_keys (keep_keys P m)"
  by (simp add: keep_keys_def distinct_map_filter)

lemma distinct_keys_filter: "distinct_keys m \<Longrightarrow> distinct_keys (filter P m)"
  by (rule distinct_map_filter)

lemma map_of_filter:
  "distinct_keys m \<Longrightarrow>
   map_of (filter (\<lambda>(k, v). P k v) m) k =
     (case map_of m k of None \<Rightarrow> None | Some v \<Rightarrow> if P k v then Some v else None)"
proof (induction m)
  case Nil
  then show ?case by simp
next
  case (Cons e m)
  show ?case
  proof (cases "fst e = k")
    case True
    with Cons.prems have "map_of m k = None" by (auto simp: map_of_eq_None_iff)
    with True Cons show ?thesis by (cases e) auto
  next
    case False
    with Cons show ?thesis by (cases e) auto
  qed
qed

lemma map_of_map_values [go_map]:
  "map_of (map (\<lambda>(k, v). (k, f k v)) m) k = map_option (f k) (map_of m k)"
  by (induction m) auto

section \<open>Slices\<close>

text \<open>\<open>sort.Slice\<close> puts equal elements in any order; \<open>sort_key\<close> is the stable choice. Where a
  result could depend on the choice, the component proves that it does not.\<close>

definition append_unique :: "'a list \<Rightarrow> 'a \<Rightarrow> 'a list" where
  "append_unique xs x = (if x \<in> set xs then xs else xs @ [x])"

lemma set_append_unique [simp]: "set (append_unique xs x) = insert x (set xs)"
  by (auto simp: append_unique_def)

lemma distinct_append_unique [simp]: "distinct (append_unique xs x) = distinct xs"
  by (auto simp: append_unique_def)

lemma foldl_append_unique: "set (foldl append_unique acc xs) = set acc \<union> set xs"
  by (induction xs arbitrary: acc) auto

lemma distinct_foldl_append_unique: "distinct (foldl append_unique acc xs) = distinct acc"
  by (induction xs arbitrary: acc) auto

section \<open>Strings\<close>

text \<open>\<open>strings.Split(s, sep)\<close> for a separator of one byte: always at least one part.\<close>

fun split_on :: "char \<Rightarrow> string \<Rightarrow> string list" where
  "split_on c [] = [[]]"
| "split_on c (x # xs) =
     (if x = c then [] # split_on c xs
      else (case split_on c xs of [] \<Rightarrow> [[x]] | p # ps \<Rightarrow> (x # p) # ps))"

lemma split_on_nonempty [simp]: "split_on c s \<noteq> []"
  by (induction s) (auto split: list.splits)

lemma split_on_no_sep: "p \<in> set (split_on c s) \<Longrightarrow> c \<notin> set p"
  by (induction s arbitrary: p) (auto split: if_splits list.splits)

lemma split_on_absent: "c \<notin> set s \<Longrightarrow> split_on c s = [s]"
  by (induction s) auto

lemma split_on_append: "c \<notin> set p \<Longrightarrow> split_on c (p @ c # s) = p # split_on c s"
  by (induction p) auto

text \<open>\<open>strings.TrimSpace\<close> drops leading and trailing code points with the Unicode property
  \<open>White_Space\<close>: six ASCII bytes and the UTF-8 sequences listed by \<open>wide_space\<close>.\<close>

definition ascii_space :: "char \<Rightarrow> bool" where
  "ascii_space c = (of_char c \<in> {9, 10, 11, 12, 13, 32 :: nat})"

definition wide_space :: "nat \<Rightarrow> nat \<Rightarrow> nat \<Rightarrow> bool" where
  "wide_space a b c =
     (a = 225 \<and> b = 154 \<and> c = 128 \<or>
      a = 226 \<and> b = 128 \<and> (128 \<le> c \<and> c \<le> 138 \<or> c = 168 \<or> c = 169 \<or> c = 175) \<or>
      a = 226 \<and> b = 129 \<and> c = 159 \<or>
      a = 227 \<and> b = 128 \<and> c = 128)"

definition narrow_space :: "nat \<Rightarrow> nat \<Rightarrow> bool" where
  "narrow_space a b = (a = 194 \<and> (b = 133 \<or> b = 160))"

fun trim_left :: "string \<Rightarrow> string" where
  "trim_left (a # b # c # s) =
     (if ascii_space a then trim_left (b # c # s)
      else if narrow_space (of_char a) (of_char b) then trim_left (c # s)
      else if wide_space (of_char a) (of_char b) (of_char c) then trim_left s
      else a # b # c # s)"
| "trim_left [a, b] =
     (if ascii_space a then trim_left [b]
      else if narrow_space (of_char a) (of_char b) then [] else [a, b])"
| "trim_left [a] = (if ascii_space a then [] else [a])"
| "trim_left [] = []"

text \<open>The same from the end: the string is reversed, so are the sequences.\<close>

fun trim_rev :: "string \<Rightarrow> string" where
  "trim_rev (c # b # a # s) =
     (if ascii_space c then trim_rev (b # a # s)
      else if narrow_space (of_char b) (of_char c) then trim_rev (a # s)
      else if wide_space (of_char a) (of_char b) (of_char c) then trim_rev s
      else c # b # a # s)"
| "trim_rev [b, a] =
     (if ascii_space b then trim_rev [a]
      else if narrow_space (of_char a) (of_char b) then [] else [b, a])"
| "trim_rev [a] = (if ascii_space a then [] else [a])"
| "trim_rev [] = []"

definition trim_space :: "string \<Rightarrow> string" where
  "trim_space s = rev (trim_rev (rev (trim_left s)))"

text \<open>Bytes that belong to no white-space sequence: strings made of them are left as they are.\<close>

definition plain :: "char \<Rightarrow> bool" where
  "plain c = (32 < (of_char c :: nat) \<and> (of_char c :: nat) < 128)"

lemma plain_not_space [simp]: "plain c \<Longrightarrow> \<not> ascii_space c"
  by (auto simp: plain_def ascii_space_def)

lemma plain_not_lead:
  "plain c \<Longrightarrow> \<not> narrow_space (of_char c) b" "plain c \<Longrightarrow> \<not> wide_space (of_char c) b d"
  "plain c \<Longrightarrow> \<not> narrow_space a (of_char c)" "plain c \<Longrightarrow> \<not> wide_space a b (of_char c)"
  by (auto simp: plain_def narrow_space_def wide_space_def)

lemma trim_left_plain: "s = [] \<or> plain (hd s) \<Longrightarrow> trim_left s = s"
  by (cases s rule: trim_left.cases) (auto simp: plain_not_lead)

lemma trim_rev_plain: "s = [] \<or> plain (hd s) \<Longrightarrow> trim_rev s = s"
  by (cases s rule: trim_rev.cases) (auto simp: plain_not_lead)

lemma trim_space_plain:
  assumes "\<forall>c \<in> set s. plain c"
  shows "trim_space s = s"
proof -
  have "trim_left s = s" using assms by (cases s) (auto intro: trim_left_plain)
  moreover have "trim_rev (rev s) = rev s"
    using assms by (intro trim_rev_plain) (cases "s = []"; simp add: hd_rev)
  ultimately show ?thesis by (simp add: trim_space_def)
qed

text \<open>\<open>strings.ToLower\<close>: ASCII letters, and the two non-ASCII letters whose lower case is ASCII
  (U+0130 and U+212A); other letters are left unchanged.\<close>

definition lower_byte :: "char \<Rightarrow> char" where
  "lower_byte c = (if 65 \<le> (of_char c :: nat) \<and> (of_char c :: nat) \<le> 90 then char_of ((of_char c :: nat) + 32) else c)"

fun to_lower :: "string \<Rightarrow> string" where
  "to_lower (a # b # c # s) =
     (if of_char a = (226 :: nat) \<and> of_char b = (132 :: nat) \<and> of_char c = (170 :: nat)
      then CHR ''k'' # to_lower s
      else if of_char a = (196 :: nat) \<and> of_char b = (176 :: nat) then CHR ''i'' # to_lower (c # s)
      else lower_byte a # to_lower (b # c # s))"
| "to_lower [a, b] =
     (if of_char a = (196 :: nat) \<and> of_char b = (176 :: nat) then [CHR ''i'']
      else [lower_byte a, lower_byte b])"
| "to_lower [a] = [lower_byte a]"
| "to_lower [] = []"

text \<open>Decimal digits: \<open>strconv.Itoa\<close> and the value of a digit string.\<close>

definition is_digit :: "char \<Rightarrow> bool" where
  "is_digit c = (48 \<le> (of_char c :: nat) \<and> (of_char c :: nat) \<le> 57)"

definition digit_value :: "char \<Rightarrow> nat" where
  "digit_value c = of_char c - 48"

definition digits_value :: "string \<Rightarrow> nat" where
  "digits_value s = foldl (\<lambda>n c. 10 * n + digit_value c) 0 s"

definition digit_char :: "nat \<Rightarrow> char" where
  "digit_char d = char_of (48 + d)"

fun itoa_nat :: "nat \<Rightarrow> string" where
  "itoa_nat n = (if n < 10 then [digit_char n] else itoa_nat (n div 10) @ [digit_char (n mod 10)])"

declare itoa_nat.simps [simp del]

definition itoa :: "int \<Rightarrow> string" where
  "itoa n = (if n < 0 then CHR ''-'' # itoa_nat (nat (- n)) else itoa_nat (nat n))"

lemma digit_char_value [simp]: "d < 10 \<Longrightarrow> digit_value (digit_char d) = d"
  by (simp add: digit_value_def digit_char_def)

lemma digit_char_is_digit [simp]: "d < 10 \<Longrightarrow> is_digit (digit_char d)"
  by (simp add: is_digit_def digit_char_def)

lemma is_digit_plain: "is_digit c \<Longrightarrow> plain c"
  by (simp add: is_digit_def plain_def)

lemma itoa_nat_digits: "\<forall>c \<in> set (itoa_nat n). is_digit c"
proof (induction n rule: itoa_nat.induct)
  case (1 n)
  then show ?case by (cases "n < 10") (auto simp: itoa_nat.simps [of n])
qed

lemma itoa_nat_nonempty [simp]: "itoa_nat n \<noteq> []"
  by (simp add: itoa_nat.simps [of n])

lemma digits_value_itoa_nat: "digits_value (itoa_nat n) = n"
proof (induction n rule: itoa_nat.induct)
  case (1 n)
  then show ?case
    by (cases "n < 10") (auto simp: itoa_nat.simps [of n] digits_value_def)
qed

lemma itoa_nat_no: "\<not> is_digit c \<Longrightarrow> c \<notin> set (itoa_nat n)"
  using itoa_nat_digits by blast

lemma itoa_nat_inj: "itoa_nat m = itoa_nat n \<longleftrightarrow> m = n"
  by (metis digits_value_itoa_nat)

lemma split_at_first: "c \<notin> set xs \<Longrightarrow> c \<notin> set ys \<Longrightarrow> xs @ c # s = ys @ c # t \<longleftrightarrow> xs = ys \<and> s = t"
  by (induction xs arbitrary: ys) (case_tac ys; auto)+

text \<open>\<open>strconv.Atoi\<close>: an optional sign and digits, within \<open>int64\<close>.\<close>

definition atoi :: "string \<Rightarrow> int option" where
  "atoi s =
     (let negative = (s \<noteq> [] \<and> hd s = CHR ''-'');
          digits = (if s \<noteq> [] \<and> (hd s = CHR ''-'' \<or> hd s = CHR ''+'') then tl s else s) in
      if digits = [] \<or> \<not> list_all is_digit digits then None
      else let n = (if negative then - int (digits_value digits) else int (digits_value digits)) in
        if - (2 ^ 63) \<le> n \<and> n < 2 ^ 63 then Some n else None)"

text \<open>\<open>net.SplitHostPort\<close> and \<open>net.JoinHostPort\<close>.\<close>

fun last_index :: "char \<Rightarrow> string \<Rightarrow> nat option" where
  "last_index c [] = None"
| "last_index c (x # xs) =
     (case last_index c xs of Some i \<Rightarrow> Some (Suc i) | None \<Rightarrow> if x = c then Some 0 else None)"

fun first_index :: "char \<Rightarrow> string \<Rightarrow> nat option" where
  "first_index c [] = None"
| "first_index c (x # xs) = (if x = c then Some 0 else map_option Suc (first_index c xs))"

definition split_host_port :: "string \<Rightarrow> (string \<times> string) option" where
  "split_host_port s =
     (case last_index (CHR '':'') s of
        None \<Rightarrow> None
      | Some i \<Rightarrow>
          if s \<noteq> [] \<and> hd s = CHR ''['' then
            (case first_index (CHR '']'') s of
               None \<Rightarrow> None
             | Some e \<Rightarrow>
                 if Suc e \<noteq> i then None
                 else if CHR ''['' \<in> set (drop 1 s) \<or> CHR '']'' \<in> set (drop (Suc e) s) then None
                 else Some (take (e - 1) (drop 1 s), drop (Suc i) s))
          else if CHR '':'' \<in> set (take i s) then None
          else if CHR ''['' \<in> set s \<or> CHR '']'' \<in> set s then None
          else Some (take i s, drop (Suc i) s))"

definition join_host_port :: "string \<Rightarrow> string \<Rightarrow> string" where
  "join_host_port host port =
     (if CHR '':'' \<in> set host then ''['' @ host @ '']:'' @ port else host @ '':'' @ port)"

text \<open>Evaluation of the string functions on literals.\<close>

lemmas string_eval = trim_space_def ascii_space_def narrow_space_def wide_space_def lower_byte_def
  is_digit_def digit_value_def digits_value_def of_char_def

section \<open>Runs of a component\<close>

text \<open>A component whose operations all keep an invariant keeps it over any sequence of calls.\<close>

locale invariant_machine =
  fixes step :: "'e \<Rightarrow> 's \<Rightarrow> 's"
    and inv :: "'s \<Rightarrow> bool"
  assumes step_inv: "inv s \<Longrightarrow> inv (step e s)"
begin

lemma run_inv: "inv s \<Longrightarrow> inv (fold step es s)"
  by (induction es arbitrary: s) (auto intro: step_inv)

end

text \<open>One that moreover never lets a number decrease (a sequence, a version, a total).\<close>

locale monotone_machine = invariant_machine step inv
  for step :: "'e \<Rightarrow> 's \<Rightarrow> 's" and inv :: "'s \<Rightarrow> bool" +
  fixes level :: "'s \<Rightarrow> 'n :: preorder"
  assumes step_level: "inv s \<Longrightarrow> level s \<le> level (step e s)"
begin

lemma run_level: "inv s \<Longrightarrow> level s \<le> level (fold step es s)"
proof (induction es arbitrary: s)
  case Nil
  then show ?case by simp
next
  case (Cons e es)
  have "level s \<le> level (step e s)" using Cons.prems by (rule step_level)
  also have "\<dots> \<le> level (fold step es (step e s))"
    using Cons.prems by (intro Cons.IH step_inv)
  finally show ?case by simp
qed

end

end
