(* ===== verification/PortSet.thy ===== *)
theory PortSet
  imports Prelude "HOL-Library.Multiset"
begin

text \<open>
  Model of \<open>internal/portset/ports.go\<close>: port ranges, the parser of comma-separated port lists,
  the merge into maximal ranges and the exclusion of one port. The meaning of a list of ranges is
  the set of ports it covers (\<open>covered\<close>); a merged list is \<open>canonical\<close>: sorted, with a gap between
  neighbours. The canonical list of a set is unique, so the unstable sort of the source cannot
  show in its result.
\<close>

section \<open>Ranges\<close>

record port_range =
  rg_from :: int
  rg_to :: int

definition range_string :: "port_range \<Rightarrow> string" where
  "range_string r =
     (if rg_from r = rg_to r then itoa (rg_from r)
      else itoa (rg_from r) @ ''-'' @ itoa (rg_to r))"

definition range_contains :: "port_range \<Rightarrow> int \<Rightarrow> bool" where
  "range_contains r port = (rg_from r \<le> port \<and> port \<le> rg_to r)"

definition range_overlaps :: "port_range \<Rightarrow> port_range \<Rightarrow> bool" where
  "range_overlaps r other = (rg_from r \<le> rg_to other \<and> rg_from other \<le> rg_to r)"

definition range_valid :: "port_range \<Rightarrow> bool" where
  "range_valid r = (0 < rg_from r \<and> rg_from r \<le> rg_to r \<and> rg_to r \<le> 65535)"

section \<open>Parsing\<close>

datatype port_error = EmptyItem | BadPort | BadRange | ReversedRange

text \<open>\<open>strconv.Atoi\<close> fails on a digit string only when its value exceeds \<open>int64\<close>.\<close>

definition parse_port :: "string \<Rightarrow> port_error + int" where
  "parse_port raw =
     (let raw = trim_space raw in
      if raw = [] then Inl EmptyItem
      else if \<not> list_all is_digit raw then Inl BadPort
      else let port = int (digits_value raw) in
        if 2 ^ 63 \<le> port \<or> port < 1 \<or> port > 65535 then Inl BadPort
        else Inr port)"

definition parse_item :: "string \<Rightarrow> port_error + port_range" where
  "parse_item item =
     (let parts = split_on (CHR ''-'') (trim_space item) in
      if length parts > 2 then Inl BadRange
      else case parse_port (parts ! 0) of
        Inl e \<Rightarrow> Inl e
      | Inr first \<Rightarrow>
          (case (if length parts = 2 then parse_port (parts ! 1) else Inr first) of
             Inl e \<Rightarrow> Inl e
           | Inr end_port \<Rightarrow>
               if first > end_port then Inl ReversedRange
               else Inr \<lparr>rg_from = first, rg_to = end_port\<rparr>))"

fun parse_items :: "string list \<Rightarrow> port_range list \<Rightarrow> port_error + port_range list" where
  "parse_items [] ranges = Inr ranges"
| "parse_items (item # items) ranges =
     (case parse_item item of
        Inl e \<Rightarrow> Inl e
      | Inr r \<Rightarrow> parse_items items (ranges @ [r]))"

section \<open>Merging and excluding\<close>

text \<open>The loop of \<open>Merge\<close>: \<open>previous\<close> is the last element of \<open>merged\<close>, the only one it changes.\<close>

fun merge_loop :: "port_range \<Rightarrow> port_range list \<Rightarrow> port_range list" where
  "merge_loop previous [] = [previous]"
| "merge_loop previous (current # rest) =
     (if rg_from current \<le> int64_of (rg_to previous + 1)
      then merge_loop (previous\<lparr>rg_to := max (rg_to previous) (rg_to current)\<rparr>) rest
      else previous # merge_loop current rest)"

fun merge_ordered :: "port_range list \<Rightarrow> port_range list" where
  "merge_ordered [] = []"
| "merge_ordered (r # rest) = merge_loop r rest"

definition merge_ranges :: "port_range list \<Rightarrow> port_range list" where
  "merge_ranges ranges = merge_ordered (sort_key rg_from ranges)"

definition parse_ranges :: "string \<Rightarrow> port_error + port_range list" where
  "parse_ranges raw =
     (case parse_items (split_on (CHR '','') raw) [] of
        Inl e \<Rightarrow> Inl e
      | Inr ranges \<Rightarrow> Inr (merge_ranges ranges))"

definition without_port :: "port_range \<Rightarrow> int \<Rightarrow> port_range list" where
  "without_port r port =
     (if \<not> range_contains r port then [r]
      else (if rg_from r < port then [\<lparr>rg_from = rg_from r, rg_to = port - 1\<rparr>] else []) @
           (if port < rg_to r then [\<lparr>rg_from = port + 1, rg_to = rg_to r\<rparr>] else []))"

fun without_ranges :: "port_range list \<Rightarrow> int \<Rightarrow> port_range list" where
  "without_ranges [] port = []"
| "without_ranges (r # ranges) port = without_port r port @ without_ranges ranges port"

section \<open>Meaning of a list of ranges\<close>

definition ports :: "port_range \<Rightarrow> int set" where
  "ports r = {rg_from r..rg_to r}"

definition covered :: "port_range list \<Rightarrow> int set" where
  "covered rs = \<Union> (ports ` set rs)"

fun canonical :: "port_range list \<Rightarrow> bool" where
  "canonical [] = True"
| "canonical (r # rs) =
     (rg_from r \<le> rg_to r \<and> (\<forall>q \<in> set rs. rg_to r + 1 < rg_from q) \<and> canonical rs)"

lemma covered_simps [simp]:
  "covered [] = {}" "covered (r # rs) = ports r \<union> covered rs"
  "covered (rs @ qs) = covered rs \<union> covered qs"
  by (auto simp: covered_def)

lemma range_contains_ports: "range_contains r p \<longleftrightarrow> p \<in> ports r"
  by (auto simp: range_contains_def ports_def)

lemma range_overlaps_ports:
  "rg_from r \<le> rg_to r \<Longrightarrow> rg_from q \<le> rg_to q \<Longrightarrow>
   range_overlaps r q \<longleftrightarrow> ports r \<inter> ports q \<noteq> {}"
  by (auto simp: range_overlaps_def ports_def)

lemma range_overlaps_sym: "range_overlaps r q = range_overlaps q r"
  by (auto simp: range_overlaps_def)

lemma canonical_tail_above:
  "canonical (r # rs) \<Longrightarrow> p \<in> covered rs \<Longrightarrow> rg_to r + 1 < p"
  by (fastforce simp: covered_def ports_def)

lemma canonical_head_least:
  "canonical (r # rs) \<Longrightarrow> p \<in> covered (r # rs) \<Longrightarrow> rg_from r \<le> p"
  using canonical_tail_above [of r rs p] by (auto simp: ports_def)

lemma canonical_head_to:
  assumes "canonical (r # rs)" and "canonical (q # qs)"
    and "covered (r # rs) = covered (q # qs)" and "rg_from r = rg_from q"
  shows "rg_to q \<le> rg_to r"
proof (rule ccontr)
  assume "\<not> rg_to q \<le> rg_to r"
  then have "rg_to r + 1 \<in> ports q" using assms by (auto simp: ports_def)
  then have "rg_to r + 1 \<in> covered (r # rs)" using assms(3) by auto
  then show False
    using canonical_tail_above [OF assms(1), of "rg_to r + 1"] by (auto simp: ports_def)
qed

lemma canonical_tail_covered:
  "canonical (r # rs) \<Longrightarrow> covered rs = covered (r # rs) - ports r"
  using canonical_tail_above [of r rs] by (force simp: ports_def)

lemma canonical_unique:
  "canonical rs \<Longrightarrow> canonical qs \<Longrightarrow> covered rs = covered qs \<Longrightarrow> rs = qs"
proof (induction rs arbitrary: qs)
  case Nil
  then show ?case by (cases qs) (auto simp: ports_def)
next
  case (Cons r rs)
  from Cons.prems obtain q qs' where qs: "qs = q # qs'"
    by (cases qs) (auto simp: ports_def)
  note can = Cons.prems(1) Cons.prems(2) [unfolded qs] and cov = Cons.prems(3) [unfolded qs]
  have "rg_from r \<in> covered (r # rs)" and "rg_from q \<in> covered (q # qs')"
    using can by (auto simp: ports_def)
  then have from_eq: "rg_from r = rg_from q"
    using canonical_head_least [OF can(1)] canonical_head_least [OF can(2)] cov
    by (metis order_antisym)
  have "rg_to r = rg_to q"
    using canonical_head_to [OF can(1) can(2) cov from_eq]
      canonical_head_to [OF can(2) can(1) cov [symmetric] from_eq [symmetric]] by simp
  with from_eq have "r = q" by simp
  moreover have "covered rs = covered qs'"
    using canonical_tail_covered [OF can(1)] canonical_tail_covered [OF can(2)] cov \<open>r = q\<close> by simp
  then have "rs = qs'" using Cons.IH can by simp
  ultimately show ?case using qs by simp
qed

section \<open>The merge is canonical and covers the same ports\<close>

definition all_valid :: "port_range list \<Rightarrow> bool" where
  "all_valid rs = (\<forall>r \<in> set rs. range_valid r)"

lemma all_valid_simps [simp]:
  "all_valid []" "all_valid (r # rs) = (range_valid r \<and> all_valid rs)"
  "all_valid (rs @ qs) = (all_valid rs \<and> all_valid qs)"
  by (auto simp: all_valid_def)

lemma valid_step [simp]: "range_valid r \<Longrightarrow> int64_of (rg_to r + 1) = rg_to r + 1"
  by (auto simp: range_valid_def)

lemma range_valid_extend:
  "range_valid r \<Longrightarrow> range_valid q \<Longrightarrow> range_valid (r\<lparr>rg_to := max (rg_to r) (rg_to q)\<rparr>)"
  by (auto simp: range_valid_def)

lemma ports_extend:
  "rg_from r \<le> rg_from q \<Longrightarrow> rg_from q \<le> rg_to r + 1 \<Longrightarrow>
   ports (r\<lparr>rg_to := max (rg_to r) (rg_to q)\<rparr>) = ports r \<union> ports q"
  by (auto simp: ports_def)

lemma merge_loop_valid:
  "range_valid r \<Longrightarrow> all_valid rs \<Longrightarrow> all_valid (merge_loop r rs)"
  by (induction r rs rule: merge_loop.induct) (auto intro: range_valid_extend)

lemma merge_loop_covered:
  "range_valid r \<Longrightarrow> all_valid rs \<Longrightarrow> sorted (map rg_from (r # rs)) \<Longrightarrow>
   covered (merge_loop r rs) = ports r \<union> covered rs"
proof (induction r rs rule: merge_loop.induct)
  case (1 r)
  then show ?case by simp
next
  case (2 r q rs)
  show ?case
  proof (cases "rg_from q \<le> rg_to r + 1")
    case True
    with 2 show ?thesis
      by (auto simp: ports_extend range_valid_extend)
  next
    case False
    with 2 show ?thesis by auto
  qed
qed

lemma merge_loop_from:
  "\<forall>q \<in> set rs. b \<le> rg_from q \<Longrightarrow> b \<le> rg_from r \<Longrightarrow> \<forall>q \<in> set (merge_loop r rs). b \<le> rg_from q"
  by (induction r rs rule: merge_loop.induct) auto

lemma merge_loop_canonical:
  "range_valid r \<Longrightarrow> all_valid rs \<Longrightarrow> sorted (map rg_from (r # rs)) \<Longrightarrow> canonical (merge_loop r rs)"
proof (induction r rs rule: merge_loop.induct)
  case (1 r)
  then show ?case by (simp add: range_valid_def)
next
  case (2 r q rs)
  show ?case
  proof (cases "rg_from q \<le> rg_to r + 1")
    case True
    with 2 show ?thesis by (auto simp: range_valid_extend)
  next
    case False
    have "\<forall>p \<in> set (merge_loop q rs). rg_from q \<le> rg_from p"
      using "2.prems" by (intro merge_loop_from) auto
    with False 2 show ?thesis by (fastforce simp: range_valid_def)
  qed
qed

lemma merge_ordered_facts:
  assumes "all_valid rs" and "sorted (map rg_from rs)"
  shows "all_valid (merge_ordered rs)" and "canonical (merge_ordered rs)"
    and "covered (merge_ordered rs) = covered rs"
  using assms by (cases rs; simp add: merge_loop_valid merge_loop_canonical merge_loop_covered)+

lemma all_valid_sort [simp]: "all_valid (sort_key f rs) = all_valid rs"
  by (simp add: all_valid_def)

lemma covered_sort [simp]: "covered (sort_key f rs) = covered rs"
  by (simp add: covered_def)

lemma all_valid_mset: "mset rs = mset qs \<Longrightarrow> all_valid rs = all_valid qs"
  by (metis all_valid_def set_mset_mset)

lemma covered_mset: "mset rs = mset qs \<Longrightarrow> covered rs = covered qs"
  by (metis covered_def set_mset_mset)

lemma merge_ranges_facts:
  assumes "all_valid rs"
  shows merge_ranges_valid: "all_valid (merge_ranges rs)"
    and merge_ranges_canonical: "canonical (merge_ranges rs)"
    and merge_ranges_covered: "covered (merge_ranges rs) = covered rs"
  using merge_ordered_facts [of "sort_key rg_from rs"] assms by (simp_all add: merge_ranges_def)

lemma merge_ranges_fixed: "all_valid rs \<Longrightarrow> canonical rs \<Longrightarrow> merge_ranges rs = rs"
  by (rule canonical_unique) (simp_all add: merge_ranges_facts)

lemma merge_ranges_cong: "all_valid rs \<Longrightarrow> all_valid qs \<Longrightarrow> covered rs = covered qs \<Longrightarrow> merge_ranges rs = merge_ranges qs"
  by (rule canonical_unique) (simp_all add: merge_ranges_facts)

lemma merge_ranges_Nil [simp]: "merge_ranges [] = []"
  by (simp add: merge_ranges_def)

lemma merge_ordered_Nil_iff: "merge_ordered rs = [] \<longleftrightarrow> rs = []"
proof (cases rs)
  case (Cons r qs)
  have "merge_loop r qs \<noteq> []" by (induction r qs rule: merge_loop.induct) auto
  with Cons show ?thesis by simp
qed simp

lemma merge_ranges_Nil_iff: "merge_ranges rs = [] \<longleftrightarrow> rs = []"
  by (metis list.size(3) length_sort length_0_conv merge_ordered_Nil_iff merge_ranges_def)

section \<open>Excluding a port\<close>

lemma without_port_covered: "covered (without_port r p) = ports r - {p}"
  by (auto simp: without_port_def range_contains_def ports_def)

lemma without_port_valid: "range_valid r \<Longrightarrow> all_valid (without_port r p)"
  by (auto simp: without_port_def range_contains_def range_valid_def)

lemma without_ranges_covered: "covered (without_ranges rs p) = covered rs - {p}"
  by (induction rs) (auto simp: without_port_covered)

lemma without_ranges_valid: "all_valid rs \<Longrightarrow> all_valid (without_ranges rs p)"
  by (induction rs) (auto simp: without_port_valid)

section \<open>What the parser accepts\<close>

lemma parse_port_range: "parse_port s = Inr p \<Longrightarrow> 1 \<le> p \<and> p \<le> 65535"
  by (auto simp: parse_port_def Let_def split: if_splits)

lemma parse_item_valid: "parse_item s = Inr r \<Longrightarrow> range_valid r"
  by (auto simp: parse_item_def Let_def range_valid_def split: if_splits sum.splits
      dest!: parse_port_range)

lemma parse_items_valid: "parse_items items acc = Inr rs \<Longrightarrow> all_valid acc \<Longrightarrow> all_valid rs"
  by (induction items acc rule: parse_items.induct)
    (auto split: sum.splits dest: parse_item_valid)

lemma parse_items_nonempty: "parse_items items acc = Inr rs \<Longrightarrow> items \<noteq> [] \<or> acc \<noteq> [] \<Longrightarrow> rs \<noteq> []"
  by (induction items acc rule: parse_items.induct) (auto split: sum.splits)

lemma parse_items_append:
  "list_all2 (\<lambda>s r. parse_item s = Inr r) items rs \<Longrightarrow> parse_items items acc = Inr (acc @ rs)"
proof (induction items arbitrary: rs acc)
  case Nil
  then show ?case by simp
next
  case (Cons s items)
  then show ?case by (cases rs) auto
qed

section \<open>Printed ranges parse back\<close>

lemma parse_port_itoa: "1 \<le> n \<Longrightarrow> n \<le> 65535 \<Longrightarrow> parse_port (itoa_nat n) = Inr (int n)"
proof -
  assume n: "1 \<le> n" "n \<le> 65535"
  have digits: "list_all is_digit (itoa_nat n)"
    by (simp add: list_all_iff itoa_nat_digits)
  then have "trim_space (itoa_nat n) = itoa_nat n"
    by (intro trim_space_plain) (auto simp: list_all_iff intro: is_digit_plain)
  with digits n show ?thesis by (simp add: parse_port_def digits_value_itoa_nat)
qed

lemma range_string_plain: "range_valid r \<Longrightarrow> \<forall>c \<in> set (range_string r). plain c"
  using itoa_nat_digits by (auto simp: range_string_def range_valid_def itoa_def plain_def is_digit_plain [unfolded plain_def])

lemma range_string_no_comma: "range_valid r \<Longrightarrow> CHR '','' \<notin> set (range_string r)"
  by (auto simp: range_string_def range_valid_def itoa_def itoa_nat_no is_digit_def)

lemma parse_item_range_string:
  assumes "range_valid r"
  shows "parse_item (range_string r) = Inr r"
proof -
  let ?a = "itoa_nat (nat (rg_from r))" and ?b = "itoa_nat (nat (rg_to r))"
  have trim: "trim_space (range_string r) = range_string r"
    using assms range_string_plain by (intro trim_space_plain)
  have dash: "CHR ''-'' \<notin> set ?a" "CHR ''-'' \<notin> set ?b"
    by (simp_all add: itoa_nat_no is_digit_def)
  have parse: "parse_port ?a = Inr (rg_from r)" "parse_port ?b = Inr (rg_to r)"
    using assms parse_port_itoa [of "nat (rg_from r)"] parse_port_itoa [of "nat (rg_to r)"]
    by (simp_all add: range_valid_def Suc_le_eq nat_le_iff)
  show ?thesis
  proof (cases "rg_from r = rg_to r")
    case True
    then have "split_on (CHR ''-'') (range_string r) = [?a]"
      using assms dash by (simp add: range_string_def itoa_def range_valid_def split_on_absent)
    with True parse show ?thesis by (simp add: parse_item_def trim)
  next
    case False
    then have "split_on (CHR ''-'') (range_string r) = [?a, ?b]"
      using assms dash by (simp add: range_string_def itoa_def range_valid_def split_on_append split_on_absent)
    with False parse assms show ?thesis by (simp add: parse_item_def trim range_valid_def)
  qed
qed

text \<open>A printed list: the ranges joined by commas.\<close>

fun join_ranges :: "port_range list \<Rightarrow> string" where
  "join_ranges [] = []"
| "join_ranges [r] = range_string r"
| "join_ranges (r # rs) = range_string r @ '','' @ join_ranges rs"

lemma split_join_ranges:
  "all_valid rs \<Longrightarrow> rs \<noteq> [] \<Longrightarrow> split_on (CHR '','') (join_ranges rs) = map range_string rs"
  by (induction rs rule: join_ranges.induct)
    (simp_all add: split_on_absent split_on_append range_string_no_comma)

lemma parse_join_ranges:
  assumes "all_valid rs" and "rs \<noteq> []"
  shows "parse_ranges (join_ranges rs) = Inr (merge_ranges rs)"
proof -
  have "list_all2 (\<lambda>s r. parse_item s = Inr r) (map range_string rs) rs"
    using assms(1) by (simp add: list_all2_map1 all_valid_def parse_item_range_string list_all2_same)
  then show ?thesis
    using assms by (simp add: parse_ranges_def split_join_ranges parse_items_append)
qed

section \<open>The interface used by the firewall\<close>

text \<open>What a client of this component relies on: merging and excluding act on the set of ports and
  stay inside the valid ranges, and a merge depends on the covered ports alone.\<close>

locale range_algebra =
  fixes valid :: "'r \<Rightarrow> bool"
    and points :: "'r \<Rightarrow> int set"
    and merge_all :: "'r list \<Rightarrow> 'r list"
    and exclude :: "'r list \<Rightarrow> int \<Rightarrow> 'r list"
  assumes merge_valid: "\<forall>r \<in> set rs. valid r \<Longrightarrow> \<forall>r \<in> set (merge_all rs). valid r"
    and merge_points: "\<forall>r \<in> set rs. valid r \<Longrightarrow> \<Union> (points ` set (merge_all rs)) = \<Union> (points ` set rs)"
    and merge_cong: "\<forall>r \<in> set rs. valid r \<Longrightarrow> \<forall>r \<in> set qs. valid r \<Longrightarrow>
      \<Union> (points ` set rs) = \<Union> (points ` set qs) \<Longrightarrow> merge_all rs = merge_all qs"
    and exclude_valid: "\<forall>r \<in> set rs. valid r \<Longrightarrow> \<forall>r \<in> set (exclude rs p). valid r"
    and exclude_points: "\<Union> (points ` set (exclude rs p)) = \<Union> (points ` set rs) - {p}"
begin

lemma merge_idem: "\<forall>r \<in> set rs. valid r \<Longrightarrow> merge_all (merge_all rs) = merge_all rs"
  by (rule merge_cong) (simp_all add: merge_valid merge_points)

lemma merge_append_merge:
  "\<forall>r \<in> set (rs @ qs). valid r \<Longrightarrow> merge_all (merge_all rs @ qs) = merge_all (rs @ qs)"
  using merge_valid [of rs] by (intro merge_cong) (auto simp: merge_points)

lemma exclude_not_in: "r \<in> set (exclude rs p) \<Longrightarrow> p \<notin> points r"
  using exclude_points [of rs p] by blast

lemma merge_exclude_points:
  "\<forall>r \<in> set rs. valid r \<Longrightarrow>
   \<Union> (points ` set (merge_all (exclude rs p))) = \<Union> (points ` set rs) - {p}"
  by (simp add: merge_points exclude_valid exclude_points)

end

interpretation portset: range_algebra range_valid ports merge_ranges without_ranges
proof unfold_locales
  fix rs qs :: "port_range list" and p :: int
  assume rs: "\<forall>r \<in> set rs. range_valid r"
  then have valid: "all_valid rs" by (simp add: all_valid_def)
  show "\<forall>r \<in> set (merge_ranges rs). range_valid r"
    using merge_ranges_valid [OF valid] by (simp add: all_valid_def)
  show "\<Union> (ports ` set (merge_ranges rs)) = \<Union> (ports ` set rs)"
    using merge_ranges_covered [OF valid] by (simp add: covered_def)
  show "\<forall>r \<in> set (without_ranges rs p). range_valid r"
    using without_ranges_valid [OF valid] by (simp add: all_valid_def)
  assume "\<forall>r \<in> set qs. range_valid r" and "\<Union> (ports ` set rs) = \<Union> (ports ` set qs)"
  with valid show "merge_ranges rs = merge_ranges qs"
    by (intro merge_ranges_cong) (simp_all add: all_valid_def covered_def)
next
  fix rs :: "port_range list" and p :: int
  show "\<Union> (ports ` set (without_ranges rs p)) = \<Union> (ports ` set rs) - {p}"
    using without_ranges_covered [of rs p] by (simp add: covered_def)
qed

section \<open>Properties\<close>

text \<open>\<open>Merge\<close> of valid ranges returns the unique canonical list of the ports they cover, and the
  order in which \<open>sort.Slice\<close> leaves ranges with the same start cannot change the result.\<close>

theorem merge_canonical_cover:
  assumes "all_valid rs" and "mset qs = mset rs" and "sorted (map rg_from qs)"
  shows "merge_ordered qs = merge_ranges rs \<and> canonical (merge_ranges rs) \<and>
    all_valid (merge_ranges rs) \<and> covered (merge_ranges rs) = covered rs"
proof -
  have "all_valid qs" using assms(1,2) all_valid_mset by blast
  note qs = merge_ordered_facts [OF this assms(3)]
  have "merge_ordered qs = merge_ranges rs"
    using qs merge_ranges_facts [OF assms(1)] covered_mset [OF assms(2)]
    by (intro canonical_unique) simp_all
  then show ?thesis using merge_ranges_facts [OF assms(1)] by simp
qed

definition sample_ranges :: "port_range list" where
  "sample_ranges = [\<lparr>rg_from = 443, rg_to = 443\<rparr>, \<lparr>rg_from = 100, rg_to = 200\<rparr>,
     \<lparr>rg_from = 100, rg_to = 150\<rparr>, \<lparr>rg_from = 201, rg_to = 210\<rparr>]"

theorem merge_canonical_cover_witness:
  "merge_ordered [\<lparr>rg_from = 100, rg_to = 150\<rparr>, \<lparr>rg_from = 100, rg_to = 200\<rparr>,
     \<lparr>rg_from = 201, rg_to = 210\<rparr>, \<lparr>rg_from = 443, rg_to = 443\<rparr>] = merge_ranges sample_ranges \<and>
   merge_ranges sample_ranges = [\<lparr>rg_from = 100, rg_to = 210\<rparr>, \<lparr>rg_from = 443, rg_to = 443\<rparr>]"
proof -
  let ?qs = "[\<lparr>rg_from = 100, rg_to = 150\<rparr>, \<lparr>rg_from = 100, rg_to = 200\<rparr>,
     \<lparr>rg_from = 201, rg_to = 210\<rparr>, \<lparr>rg_from = 443, rg_to = 443\<rparr>]"
  have "merge_ordered ?qs = merge_ranges sample_ranges"
    using merge_canonical_cover [of sample_ranges ?qs]
    by (simp add: sample_ranges_def all_valid_def range_valid_def)
  then show ?thesis by simp
qed

lemma parse_ranges_facts:
  assumes "parse_ranges raw = Inr rs"
  shows "rs \<noteq> [] \<and> all_valid rs \<and> canonical rs"
proof -
  from assms obtain items where items: "parse_items (split_on (CHR '','') raw) [] = Inr items"
    and rs: "rs = merge_ranges items"
    by (auto simp: parse_ranges_def split: sum.splits)
  have "all_valid items" and "items \<noteq> []"
    using parse_items_valid [OF items] parse_items_nonempty [OF items] by simp_all
  then show ?thesis using rs by (simp add: merge_ranges_facts merge_ranges_Nil_iff)
qed

text \<open>Whatever text \<open>Parse\<close> accepts yields a non-empty canonical list of ranges within
  1 to 65535; everything else is an error.\<close>

theorem parse_ranges_sound:
  assumes "parse_ranges raw = Inr rs"
  shows "rs \<noteq> [] \<and> all_valid rs \<and> canonical rs"
  using assms by (rule parse_ranges_facts)

theorem parse_ranges_sound_witness:
  "parse_ranges '' 443 ,20-30,25-90'' = Inr [\<lparr>rg_from = 20, rg_to = 90\<rparr>, \<lparr>rg_from = 443, rg_to = 443\<rparr>] \<and>
   all_valid [\<lparr>rg_from = 20, rg_to = 90\<rparr>, \<lparr>rg_from = 443, rg_to = 443\<rparr>]"
proof -
  have "parse_ranges '' 443 ,20-30,25-90'' =
      Inr [\<lparr>rg_from = 20, rg_to = 90\<rparr>, \<lparr>rg_from = 443, rg_to = 443\<rparr>]"
    by (simp add: parse_ranges_def parse_item_def parse_port_def string_eval merge_ranges_def)
  then show ?thesis using parse_ranges_sound by blast
qed

text \<open>C36. Printing a canonical list with \<open>Range.String\<close> and commas, then parsing it, gives the list back.\<close>

theorem parse_print_ranges:
  assumes "all_valid rs" and "canonical rs" and "rs \<noteq> []"
  shows "parse_ranges (join_ranges rs) = Inr rs"
  using assms by (simp add: parse_join_ranges merge_ranges_fixed)

theorem parse_print_ranges_witness:
  "parse_ranges (join_ranges [\<lparr>rg_from = 7, rg_to = 7\<rparr>, \<lparr>rg_from = 20, rg_to = 300\<rparr>]) =
     Inr [\<lparr>rg_from = 7, rg_to = 7\<rparr>, \<lparr>rg_from = 20, rg_to = 300\<rparr>]"
  by (rule parse_print_ranges) (simp_all add: all_valid_def range_valid_def)

end
