(* ===== verification/Traffic.thy ===== *)
theory Traffic
  imports Prelude
begin

text \<open>
  The code's \<open>[2]int64\<close> traffic values (upload, download) and the maps \<open>map[int][2]int64\<close> that
  accumulate them. A value is a pair of machine words, so sums wrap exactly as the code's do, and
  \<open>traffic\<close> is an abelian group: conservation laws hold without a bound on the amounts. The
  \<open>amount\<close> of a map at a key is what the code reads (zero when absent).
\<close>

section \<open>Values\<close>

datatype traffic = Traffic (up: i64) (down: i64)

instantiation traffic :: ab_group_add
begin

definition zero_traffic :: traffic where
  "zero_traffic = Traffic 0 0"

definition plus_traffic :: "traffic \<Rightarrow> traffic \<Rightarrow> traffic" where
  "plus_traffic a b = Traffic (up a + up b) (down a + down b)"

definition minus_traffic :: "traffic \<Rightarrow> traffic \<Rightarrow> traffic" where
  "minus_traffic a b = Traffic (up a - up b) (down a - down b)"

definition uminus_traffic :: "traffic \<Rightarrow> traffic" where
  "uminus_traffic a = Traffic (- up a) (- down a)"

instance
  by standard
    (auto simp: zero_traffic_def plus_traffic_def minus_traffic_def uminus_traffic_def traffic.expand)

end

lemma up_down_simps [simp]:
  "up (0 :: traffic) = 0" "down (0 :: traffic) = 0"
  "up (a + b) = up a + up b" "down (a + b) = down a + down b"
  "up (a - b) = up a - up b" "down (a - b) = down a - down b"
  "up (- a) = - up a" "down (- a) = - down a"
  by (simp_all add: zero_traffic_def plus_traffic_def minus_traffic_def uminus_traffic_def)

lemma Traffic_0 [simp]: "Traffic 0 0 = 0"
  by (simp add: zero_traffic_def)

section \<open>Counters of the kernel\<close>

text \<open>The increase of a cumulative counter since the last sample; a counter that went down was
  reset, and its whole value is new.\<close>

definition counter_delta :: "i64 \<Rightarrow> i64 \<Rightarrow> i64" where
  "counter_delta cum prev = (let d = cum - prev in if sint d < 0 then cum else d)"

definition traffic_delta :: "traffic \<Rightarrow> traffic \<Rightarrow> traffic" where
  "traffic_delta cum prev = Traffic (counter_delta (up cum) (up prev)) (counter_delta (down cum) (down prev))"

definition any_positive :: "traffic \<Rightarrow> bool" where
  "any_positive d = (0 < sint (up d) \<or> 0 < sint (down d))"

definition nonneg :: "traffic \<Rightarrow> bool" where
  "nonneg d = (0 \<le> sint (up d) \<and> 0 \<le> sint (down d))"

definition le_traffic :: "traffic \<Rightarrow> traffic \<Rightarrow> bool" where
  "le_traffic a b = (sint (up a) \<le> sint (up b) \<and> sint (down a) \<le> sint (down b))"

lemma sint_diff_nonneg:
  fixes a b :: i64
  assumes "0 \<le> sint b" and "0 \<le> sint a"
  shows "sint (a - b) = sint a - sint b"
proof -
  have "sint a < 2 ^ 63" and "sint b < 2 ^ 63"
    using sint_lt [of a] sint_lt [of b] by simp_all
  with assms show ?thesis
    by (subst sint_word_diff, subst signed_take_bit_int_eq_self) simp_all
qed

lemma counter_delta_nonneg: "0 \<le> sint cum \<Longrightarrow> 0 \<le> sint (counter_delta cum prev)"
  by (simp add: counter_delta_def Let_def)

lemma counter_delta_le:
  "0 \<le> sint prev \<Longrightarrow> sint prev \<le> sint cum \<Longrightarrow> counter_delta cum prev = cum - prev"
  using sint_diff_nonneg [of prev cum] by (simp add: counter_delta_def Let_def)

lemma counter_delta_reset:
  "0 \<le> sint cum \<Longrightarrow> sint cum < sint prev \<Longrightarrow> counter_delta cum prev = cum"
  using sint_diff_nonneg [of prev cum] by (simp add: counter_delta_def Let_def)

lemma traffic_delta_le:
  "nonneg prev \<Longrightarrow> le_traffic prev cum \<Longrightarrow> traffic_delta cum prev = cum - prev"
  by (simp add: traffic_delta_def nonneg_def le_traffic_def counter_delta_le traffic.expand)

lemma traffic_delta_nonneg: "nonneg cum \<Longrightarrow> nonneg (traffic_delta cum prev)"
  by (simp add: nonneg_def traffic_delta_def counter_delta_nonneg)

lemma not_positive_zero: "nonneg d \<Longrightarrow> \<not> any_positive d \<Longrightarrow> d = 0"
proof -
  assume "nonneg d" and "\<not> any_positive d"
  then have "sint (up d) = 0" and "sint (down d) = 0"
    by (auto simp: nonneg_def any_positive_def)
  then have "up d = 0" and "down d = 0" by (simp_all add: signed_eq_0_iff)
  then show "d = 0" by (intro traffic.expand) simp
qed

section \<open>Maps of traffic\<close>

type_synonym 'k traffic_map = "('k, traffic) go_map"

abbreviation amount :: "'k traffic_map \<Rightarrow> 'k \<Rightarrow> traffic" where
  "amount m k \<equiv> get_or 0 m k"

definition add_to :: "'k \<Rightarrow> traffic \<Rightarrow> 'k traffic_map \<Rightarrow> 'k traffic_map" where
  "add_to k d m = AList.update k (amount m k + d) m"

fun add_all :: "'k traffic_map \<Rightarrow> 'k traffic_map \<Rightarrow> 'k traffic_map" where
  "add_all [] m = m"
| "add_all ((k, d) # data) m = add_all data (add_to k d m)"

lemma amount_add_to [go_map]: "amount (add_to k d m) k' = (if k = k' then amount m k + d else amount m k')"
  by (simp add: add_to_def go_map)

lemma has_key_add_to [go_map]: "has_key (add_to k d m) k' = (k = k' \<or> has_key m k')"
  by (simp add: add_to_def go_map)

lemma distinct_keys_add_to [simp]: "distinct_keys m \<Longrightarrow> distinct_keys (add_to k d m)"
  by (simp add: add_to_def)

lemma distinct_keys_add_all [simp]: "distinct_keys m \<Longrightarrow> distinct_keys (add_all data m)"
  by (induction data m rule: add_all.induct) simp_all

lemma has_key_Cons: "has_key ((k, v) # m) k' = (k = k' \<or> has_key m k')"
  by (simp add: has_key_def)

lemma has_key_add_all [go_map]: "has_key (add_all data m) k = (has_key data k \<or> has_key m k)"
  by (induction data m rule: add_all.induct) (auto simp: go_map has_key_Cons)

lemma amount_Cons: "amount ((k, v) # m) k' = (if k = k' then v else amount m k')"
  by (simp add: get_or_def)

lemma amount_absent_key: "distinct_keys ((k, v) # m) \<Longrightarrow> amount m k = 0"
  by (rule get_or_absent) (simp add: has_key_iff)

lemma amount_add_all: "distinct_keys data \<Longrightarrow> amount (add_all data m) k = amount m k + amount data k"
proof (induction data m rule: add_all.induct)
  case (1 m)
  then show ?case by simp
next
  case (2 k' d data m)
  then have "amount data k' = 0" by (intro amount_absent_key) simp
  with 2 show ?case by (auto simp: go_map amount_Cons add.assoc)
qed

definition nonneg_map :: "'k traffic_map \<Rightarrow> bool" where
  "nonneg_map m = (\<forall>e \<in> set m. nonneg (snd e))"

lemma nonneg_map_Nil [simp]: "nonneg_map []"
  by (simp add: nonneg_map_def)

lemma nonneg_map_Cons [simp]: "nonneg_map ((k, v) # m) = (nonneg v \<and> nonneg_map m)"
  by (simp add: nonneg_map_def)

lemma nonneg_map_amount: "nonneg_map m \<Longrightarrow> nonneg (amount m k)"
  by (auto simp: nonneg_map_def get_or_def nonneg_def dest!: map_of_SomeD split: option.splits)

section \<open>Maps of maps\<close>

text \<open>\<open>map[int]map[int][2]int64\<close>: a missing outer entry and an empty inner map read the same.\<close>

type_synonym ('k, 'j) traffic_map2 = "('k, 'j traffic_map) go_map"

abbreviation inner :: "('k, 'j) traffic_map2 \<Rightarrow> 'k \<Rightarrow> 'j traffic_map" where
  "inner m k \<equiv> get_or [] m k"

definition amount2 :: "('k, 'j) traffic_map2 \<Rightarrow> 'k \<times> 'j \<Rightarrow> traffic" where
  "amount2 m kj = amount (inner m (fst kj)) (snd kj)"

definition distinct_keys2 :: "('k, 'j) traffic_map2 \<Rightarrow> bool" where
  "distinct_keys2 m = (distinct_keys m \<and> (\<forall>e \<in> set m. distinct_keys (snd e)))"

fun add_all2 :: "('k, 'j) traffic_map2 \<Rightarrow> ('k, 'j) traffic_map2 \<Rightarrow> ('k, 'j) traffic_map2" where
  "add_all2 [] m = m"
| "add_all2 ((k, nodes) # data) m = add_all2 data (AList.update k (add_all nodes (inner m k)) m)"

lemma inner_Cons: "inner ((k, v) # m) k' = (if k = k' then v else inner m k')"
  by (simp add: get_or_def)

lemma inner_absent: "distinct_keys ((k, v) # m) \<Longrightarrow> inner m k = []"
  by (rule get_or_absent) (simp add: has_key_iff)

lemma distinct_keys2_Cons [simp]:
  "distinct_keys2 ((k, v) # m) = (k \<notin> fst ` set m \<and> distinct_keys v \<and> distinct_keys2 m)"
  by (auto simp: distinct_keys2_def)

lemma amount2_Nil [simp]: "amount2 [] kj = 0"
  by (simp add: amount2_def)

lemma inner_distinct [simp]: "distinct_keys2 m \<Longrightarrow> distinct_keys (inner m k)"
  by (auto simp: distinct_keys2_def get_or_def dest: map_of_SomeD split: option.splits)

lemma distinct_keys2_update [simp]:
  "distinct_keys2 m \<Longrightarrow> distinct_keys v \<Longrightarrow> distinct_keys2 (AList.update k v m)"
  by (induction m) (auto simp: dom_update rev_image_eqI)

lemma distinct_keys2_delete [simp]: "distinct_keys2 m \<Longrightarrow> distinct_keys2 (AList.delete k m)"
  unfolding distinct_keys2_def by (intro conjI ballI distinct_keys_delete) (auto simp: AList.delete_eq)

lemma distinct_keys2_add_all2: "distinct_keys2 m \<Longrightarrow> distinct_keys2 (add_all2 data m)"
  by (induction data m rule: add_all2.induct) simp_all

lemma amount2_add_all2: "distinct_keys2 data \<Longrightarrow> amount2 (add_all2 data m) kj = amount2 m kj + amount2 data kj"
proof (induction data m rule: add_all2.induct)
  case (1 m)
  then show ?case by simp
next
  case (2 k nodes data m)
  then have "inner data k = []" by (intro inner_absent) (simp add: distinct_keys2_def)
  with 2 show ?case by (auto simp: amount2_def go_map inner_Cons amount_add_all add.assoc)
qed

section \<open>The contract of a report buffer\<close>

text \<open>Three buffers of the tracker (user, relay and per-user relay traffic) are drained for a report
  and refilled when the report fails. Whatever their representation, draining hands over exactly
  what is pending and refilling adds exactly what is handed back.\<close>

locale report_buffer =
  fixes good :: "'s \<Rightarrow> bool"
    and pending :: "'s \<Rightarrow> 'k \<Rightarrow> traffic"
    and drain :: "'s \<Rightarrow> 'd \<times> 's"
    and refill :: "'d \<Rightarrow> 's \<Rightarrow> 's"
    and worth :: "'d \<Rightarrow> 'k \<Rightarrow> traffic"
    and batch_ok :: "'d \<Rightarrow> bool"
  assumes drain_worth: "good s \<Longrightarrow> worth (fst (drain s)) k = pending s k"
    and drain_pending: "good s \<Longrightarrow> pending (snd (drain s)) k = 0"
    and drain_ok: "good s \<Longrightarrow> batch_ok (fst (drain s))"
    and drain_good: "good s \<Longrightarrow> good (snd (drain s))"
    and refill_pending: "good s \<Longrightarrow> batch_ok d \<Longrightarrow> pending (refill d s) k = pending s k + worth d k"
    and refill_good: "good s \<Longrightarrow> batch_ok d \<Longrightarrow> good (refill d s)"
begin

lemma failed_report_neutral:
  assumes "good s"
  shows "pending (refill (fst (drain s)) (snd (drain s))) k = pending s k"
  using assms by (simp add: refill_pending drain_worth drain_pending drain_ok drain_good)

lemma refills_commute:
  "good s \<Longrightarrow> batch_ok d \<Longrightarrow> batch_ok e \<Longrightarrow>
   pending (refill d (refill e s)) k = pending (refill e (refill d s)) k"
  by (simp add: refill_pending refill_good algebra_simps)

end

end
