(* ===== verification/Float64.thy ===== *)
theory Float64
  imports Prelude
begin

text \<open>
  The few \<open>float64\<close> computations of the program, on non-negative values: a value is a fraction
  of naturals, and every operation rounds to the nearest number with 53 significant bits, ties
  to even (IEEE 754 binary64 away from overflow and subnormals, which the program's byte counts
  and durations do not reach). \<open>truncate\<close> is the conversion to an integer.
\<close>

type_synonym frac = "nat \<times> nat"

fun bit_length :: "nat \<Rightarrow> nat" where
  "bit_length n = (if n = 0 then 0 else Suc (bit_length (n div 2)))"

declare bit_length.simps [simp del]

text \<open>Nearest integer to \<open>n / d\<close>, ties to even.\<close>

definition round_even :: "nat \<Rightarrow> nat \<Rightarrow> nat" where
  "round_even n d =
     (let q = n div d; r = n mod d in
      if 2 * r < d then q else if 2 * r > d then q + 1 else if even q then q else q + 1)"

text \<open>The exponent \<open>e\<close> with \<open>2 ^ e \<le> n / d < 2 ^ (e + 1)\<close>.\<close>

definition binary_exponent :: "nat \<Rightarrow> nat \<Rightarrow> int" where
  "binary_exponent n d =
     (let e = int (bit_length n) - int (bit_length d) in
      if (if 0 \<le> e then d * 2 ^ nat e \<le> n else d \<le> n * 2 ^ nat (- e)) then e else e - 1)"

definition f64 :: "frac \<Rightarrow> frac" where
  "f64 x =
     (let (n, d) = x in
      if n = 0 then (0, 1)
      else let s = 52 - binary_exponent n d in
        if 0 \<le> s then (round_even (n * 2 ^ nat s) d, 2 ^ nat s)
        else (round_even n (d * 2 ^ nat (- s)) * 2 ^ nat (- s), 1))"

definition f64_div :: "frac \<Rightarrow> frac \<Rightarrow> frac" where
  "f64_div x y = f64 (fst x * snd y, snd x * fst y)"

definition f64_add :: "frac \<Rightarrow> frac \<Rightarrow> frac" where
  "f64_add x y = f64 (fst x * snd y + fst y * snd x, snd x * snd y)"

definition truncate :: "frac \<Rightarrow> nat" where
  "truncate x = fst x div snd x"

text \<open>\<open>time.Duration.Seconds\<close> of a non-negative duration in nanoseconds: whole seconds plus the
  remaining nanoseconds divided by \<open>1e9\<close>, each step rounded.\<close>

definition duration_seconds :: "nat \<Rightarrow> frac" where
  "duration_seconds ns =
     f64_add (f64 (ns div 1000000000, 1)) (f64_div (f64 (ns mod 1000000000, 1)) (1000000000, 1))"

text \<open>\<open>int64\<close> of a non-negative \<open>float64\<close>; out of range, the instruction of amd64 gives the least
  \<open>int64\<close>.\<close>

definition int64_trunc :: "frac \<Rightarrow> i64" where
  "int64_trunc x = (if truncate x < 2 ^ 63 then of_nat (truncate x) else of_int (- (2 ^ 63)))"

section \<open>Rounding facts\<close>

lemma round_even_exact: "0 < d \<Longrightarrow> round_even (q * d) d = q"
  by (simp add: round_even_def)

lemma round_even_le: "0 < d \<Longrightarrow> n \<le> q * d \<Longrightarrow> round_even n d \<le> q"
proof -
  assume d: "0 < d" and n: "n \<le> q * d"
  then have le: "n div d \<le> q"
    by (metis div_le_mono nonzero_mult_div_cancel_right not_gr_zero)
  show ?thesis
  proof (cases "n div d = q")
    case True
    with n have "n mod d = 0"
      by (metis add_le_same_cancel1 div_mult_mod_eq le_zero_eq)
    with True d show ?thesis by (simp add: round_even_def)
  next
    case False
    with le show ?thesis by (simp add: round_even_def Let_def)
  qed
qed

lemma bit_length_bound: "n < 2 ^ bit_length n"
proof (induction n rule: bit_length.induct)
  case (1 n)
  show ?case
  proof (cases "n = 0")
    case False
    with 1 have "n div 2 < 2 ^ bit_length (n div 2)" by simp
    with False show ?thesis by (simp add: bit_length.simps [of n])
  qed simp
qed

lemma bit_length_lower: "n \<noteq> 0 \<Longrightarrow> 2 ^ (bit_length n - 1) \<le> n"
proof (induction n rule: bit_length.induct)
  case (1 n)
  show ?case
  proof (cases "n div 2 = 0")
    case True
    with 1 show ?thesis by (simp add: bit_length.simps [of n] bit_length.simps [of 0])
  next
    case False
    with 1 have "2 ^ (bit_length (n div 2) - 1) \<le> n div 2" by simp
    moreover have "bit_length (n div 2) \<noteq> 0" using False by (simp add: bit_length.simps [of "n div 2"])
    ultimately show ?thesis using False
      by (cases "bit_length (n div 2)") (auto simp: bit_length.simps [of n])
  qed
qed

lemma bit_length_1 [simp]: "bit_length (Suc 0) = 1" "bit_length 1 = 1"
  by (simp_all add: bit_length.simps [of 1] bit_length.simps [of 0] bit_length.simps [of "Suc 0"])

text \<open>Integers below \<open>2 ^ 53\<close> are represented exactly.\<close>

lemma f64_exact_nat:
  assumes "n < 2 ^ 53"
  shows "fst (f64 (n, 1)) = n * snd (f64 (n, 1))" and "0 < snd (f64 (n, 1))"
proof -
  have "bit_length n \<le> 53"
  proof (rule ccontr)
    assume a: "\<not> bit_length n \<le> 53"
    then have "(2::nat) ^ 53 \<le> 2 ^ (bit_length n - 1)" by (intro power_increasing) simp_all
    moreover have "n \<noteq> 0" using a by (cases n) (auto simp: bit_length.simps [of 0])
    ultimately show False using bit_length_lower [of n] assms by linarith
  qed
  then have "binary_exponent n 1 \<le> 52" by (simp add: binary_exponent_def Let_def)
  then show "fst (f64 (n, 1)) = n * snd (f64 (n, 1))" and "0 < snd (f64 (n, 1))"
    by (auto simp: f64_def Let_def round_even_exact [of 1, simplified])
qed

end
