(* ===== verification/TrafficTracker.thy ===== *)
theory TrafficTracker
  imports Traffic Float64 "HOL-Library.Multiset" "HOL-Library.Char_ord" "HOL-Library.List_Lexorder"
begin

text \<open>
  Model of \<open>internal/tracker\<close> (\<open>tracker.go\<close>, \<open>relay.go\<close>, \<open>retire.go\<close>): per-user traffic is the
  sum of the increases of the kernel's cumulative counters, kept in buffers until a report takes
  them. The state has one field per field of the Go \<open>Tracker\<close>; a \<open>nil\<close> map and an empty map are
  both \<open>[]\<close>, since the code only reads them through \<open>len\<close>, indexing and \<open>range\<close>. Every exported
  method holds \<open>mu\<close> for its whole update or swaps one atomic pointer, so each is one step.
  \<open>LogStats\<close> only logs and is not modelled.
\<close>

section \<open>State\<close>

record snapshot =
  snap_alive_ips :: "(int, string list) go_map"
  snap_online :: "(int, int) go_map"
  snap_conn_count :: int
  snap_in_speed :: i64
  snap_out_speed :: i64

record tracker =
  revision :: nat
  last_seen :: "int traffic_map"
  pending_traffic :: "int traffic_map"
  last_seen_relay :: "int traffic_map"
  pending_relay :: "int traffic_map"
  last_seen_relay_user :: "(int, int) traffic_map2"
  pending_relay_user :: "(int, int) traffic_map2"
  relay_alive :: "(int, (int, string list) go_map) go_map option"
  connections :: "((int, int) go_map \<times> (int, (int, int) go_map) go_map) option"
  live :: snapshot
  last_process :: int

definition new_tracker :: "int \<Rightarrow> tracker" where
  "new_tracker now =
     \<lparr>revision = 0, last_seen = [], pending_traffic = [], last_seen_relay = [], pending_relay = [],
      last_seen_relay_user = [], pending_relay_user = [], relay_alive = None, connections = None,
      live = \<lparr>snap_alive_ips = [], snap_online = [], snap_conn_count = 0, snap_in_speed = 0,
        snap_out_speed = 0\<rparr>,
      last_process = now\<rparr>"

section \<open>User traffic\<close>

text \<open>The loop of \<open>Process\<close> over \<open>cumTraffic\<close>; the two numbers are \<open>cycleIn\<close> and \<open>cycleOut\<close>.\<close>

fun process_users :: "int traffic_map \<Rightarrow> tracker \<Rightarrow> i64 \<Rightarrow> i64 \<Rightarrow> tracker \<times> i64 \<times> i64" where
  "process_users [] t cycle_in cycle_out = (t, cycle_in, cycle_out)"
| "process_users ((uid, cum) # rest) t cycle_in cycle_out =
     (let d = traffic_delta cum (amount (last_seen t) uid);
          t1 = t\<lparr>last_seen := AList.update uid cum (last_seen t)\<rparr> in
      if any_positive d
      then process_users rest
             (t1\<lparr>revision := Suc (revision t1), pending_traffic := add_to uid d (pending_traffic t1)\<rparr>)
             (cycle_in + down d) (cycle_out + up d)
      else process_users rest t1 cycle_in cycle_out)"

text \<open>\<open>elapsed\<close> is the time since the last sample in nanoseconds.\<close>

definition per_second :: "i64 \<Rightarrow> int \<Rightarrow> i64" where
  "per_second bytes elapsed =
     (if sint bytes \<le> 0 \<or> elapsed \<le> 0 then 0
      else int64_trunc (f64_div (f64 (nat (sint bytes), 1)) (duration_seconds (nat elapsed))))"

definition process_traffic ::
  "int traffic_map \<Rightarrow> (int, string list) go_map \<Rightarrow> int \<Rightarrow> int \<Rightarrow> tracker \<Rightarrow> tracker" where
  "process_traffic cum alive_ips conn_count now t =
     (let (t1, cycle_in, cycle_out) = process_users cum t 0 0;
          elapsed = now - last_process t1 in
      t1\<lparr>last_process := now,
         live := \<lparr>snap_alive_ips = alive_ips,
                  snap_online = map (\<lambda>(uid, ips). (uid, int (length ips))) alive_ips,
                  snap_conn_count = conn_count,
                  snap_in_speed = per_second cycle_in elapsed,
                  snap_out_speed = per_second cycle_out elapsed\<rparr>\<rparr>)"

definition flush_traffic :: "tracker \<Rightarrow> int traffic_map \<times> tracker" where
  "flush_traffic t =
     (pending_traffic t, t\<lparr>revision := Suc (revision t), pending_traffic := []\<rparr>)"

definition restore_traffic :: "int traffic_map \<Rightarrow> tracker \<Rightarrow> tracker" where
  "restore_traffic data t =
     t\<lparr>revision := Suc (revision t), pending_traffic := add_all data (pending_traffic t)\<rparr>"

definition has_traffic :: "tracker \<Rightarrow> bool" where
  "has_traffic t = (pending_traffic t \<noteq> [])"

text \<open>\<open>PendingSnapshot\<close>: copies of the three buffers; users without relay entries are dropped.\<close>

definition pending_snapshot ::
  "tracker \<Rightarrow> int traffic_map \<times> int traffic_map \<times> (int, int) traffic_map2" where
  "pending_snapshot t =
     (pending_traffic t, pending_relay t, filter (\<lambda>(uid, nodes). nodes \<noteq> []) (pending_relay_user t))"

section \<open>Relay traffic\<close>

fun process_relay_nodes :: "int traffic_map \<Rightarrow> tracker \<Rightarrow> tracker" where
  "process_relay_nodes [] t = t"
| "process_relay_nodes ((node, cum) # rest) t =
     (let d = traffic_delta cum (amount (last_seen_relay t) node);
          t1 = t\<lparr>last_seen_relay := AList.update node cum (last_seen_relay t)\<rparr> in
      process_relay_nodes rest
        (if any_positive d
         then t1\<lparr>revision := Suc (revision t1), pending_relay := add_to node d (pending_relay t1)\<rparr>
         else t1))"

definition process_relay :: "int traffic_map \<Rightarrow> tracker \<Rightarrow> tracker" where
  "process_relay cum t = (if cum = [] then t else process_relay_nodes cum t)"

definition flush_relay :: "tracker \<Rightarrow> int traffic_map \<times> tracker" where
  "flush_relay t = (pending_relay t, t\<lparr>revision := Suc (revision t), pending_relay := []\<rparr>)"

definition restore_relay :: "int traffic_map \<Rightarrow> tracker \<Rightarrow> tracker" where
  "restore_relay data t =
     (if data = [] then t
      else t\<lparr>revision := Suc (revision t), pending_relay := add_all data (pending_relay t)\<rparr>)"

section \<open>Relay traffic per user\<close>

fun process_relay_user_nodes :: "int \<Rightarrow> int traffic_map \<Rightarrow> tracker \<Rightarrow> tracker" where
  "process_relay_user_nodes uid [] t = t"
| "process_relay_user_nodes uid ((node, cum) # rest) t =
     (let d = traffic_delta cum (amount2 (last_seen_relay_user t) (uid, node));
          t1 = t\<lparr>last_seen_relay_user := AList.update uid
                (AList.update node cum (inner (last_seen_relay_user t) uid)) (last_seen_relay_user t)\<rparr> in
      process_relay_user_nodes uid rest
        (if any_positive d
         then t1\<lparr>revision := Suc (revision t1),
                 pending_relay_user := AList.update uid
                   (add_to node d (inner (pending_relay_user t1) uid)) (pending_relay_user t1)\<rparr>
         else t1))"

definition ensure_inner :: "int \<Rightarrow> (int, int) traffic_map2 \<Rightarrow> (int, int) traffic_map2" where
  "ensure_inner uid m = (if has_key m uid then m else AList.update uid [] m)"

fun process_relay_user_all :: "(int, int) traffic_map2 \<Rightarrow> tracker \<Rightarrow> tracker" where
  "process_relay_user_all [] t = t"
| "process_relay_user_all ((uid, nodes) # rest) t =
     process_relay_user_all rest (process_relay_user_nodes uid nodes
       (t\<lparr>last_seen_relay_user := ensure_inner uid (last_seen_relay_user t),
          pending_relay_user := ensure_inner uid (pending_relay_user t)\<rparr>))"

definition process_relay_user :: "(int, int) traffic_map2 \<Rightarrow> tracker \<Rightarrow> tracker" where
  "process_relay_user cum t = (if cum = [] then t else process_relay_user_all cum t)"

definition flush_relay_user :: "tracker \<Rightarrow> (int, int) traffic_map2 \<times> tracker" where
  "flush_relay_user t =
     (pending_relay_user t, t\<lparr>revision := Suc (revision t), pending_relay_user := []\<rparr>)"

definition restore_relay_user :: "(int, int) traffic_map2 \<Rightarrow> tracker \<Rightarrow> tracker" where
  "restore_relay_user data t =
     (if data = [] then t
      else t\<lparr>revision := Suc (revision t), pending_relay_user := add_all2 data (pending_relay_user t)\<rparr>)"

section \<open>Online sources and connections\<close>

text \<open>\<open>public_address\<close> is \<open>deviceip.PublicAddress\<close> (empty for a source that is not counted).\<close>

definition flush_alive_ips :: "(string \<Rightarrow> string) \<Rightarrow> tracker \<Rightarrow> (int, string list) go_map" where
  "flush_alive_ips public_address t =
     filter (\<lambda>(uid, buf). buf \<noteq> [])
       (map (\<lambda>(uid, ips). (uid, foldl append_unique [] (filter (\<lambda>a. a \<noteq> []) (map public_address ips))))
         (snap_alive_ips (live t)))"

definition current_online :: "tracker \<Rightarrow> (int, int) go_map" where
  "current_online t = snap_online (live t)"

definition process_connection_counts ::
  "(int, int) go_map \<Rightarrow> (int, (int, int) go_map) go_map \<Rightarrow> tracker \<Rightarrow> tracker" where
  "process_connection_counts users relay t = t\<lparr>connections := Some (users, relay)\<rparr>"

definition current_connection_counts ::
  "tracker \<Rightarrow> (int, int) go_map \<times> (int, (int, int) go_map) go_map" where
  "current_connection_counts t = (case connections t of None \<Rightarrow> ([], []) | Some c \<Rightarrow> c)"

definition process_relay_alive :: "(int, (int, string list) go_map) go_map \<Rightarrow> tracker \<Rightarrow> tracker" where
  "process_relay_alive alive t = t\<lparr>relay_alive := Some alive\<rparr>"

definition relay_user_alive :: "tracker \<Rightarrow> (int, (int, string list) go_map) go_map" where
  "relay_user_alive t =
     (case relay_alive t of
        None \<Rightarrow> []
      | Some m \<Rightarrow> filter (\<lambda>(uid, nodes). nodes \<noteq> [])
          (map (\<lambda>(uid, nodes). (uid, map (\<lambda>(node, ips). (node, sort ips))
             (filter (\<lambda>(node, ips). ips \<noteq> []) nodes))) m))"

section \<open>Retiring confirmed counters\<close>

record traffic_counters =
  tc_users :: "int traffic_map"
  tc_relay :: "int traffic_map"
  tc_relay_users :: "(int, int) traffic_map2"

definition retire_candidates :: "tracker \<Rightarrow> traffic_counters" where
  "retire_candidates t =
     \<lparr>tc_users = filter (\<lambda>(id, v). \<not> has_key (pending_traffic t) id) (last_seen t),
      tc_relay = filter (\<lambda>(id, v). \<not> has_key (pending_relay t) id) (last_seen_relay t),
      tc_relay_users = filter (\<lambda>(uid, nodes). nodes \<noteq> [])
        (map (\<lambda>(uid, nodes).
           (uid, filter (\<lambda>(id, v). \<not> has_key (inner (pending_relay_user t) uid) id) nodes))
         (last_seen_relay_user t))\<rparr>"

fun delete_keys :: "'k list \<Rightarrow> ('k, 'v) go_map \<Rightarrow> ('k, 'v) go_map" where
  "delete_keys [] m = m"
| "delete_keys (k # ks) m = delete_keys ks (AList.delete k m)"

fun delete_keys2 :: "(int, int) traffic_map2 \<Rightarrow> (int, int) traffic_map2 \<Rightarrow> (int, int) traffic_map2" where
  "delete_keys2 [] m = m"
| "delete_keys2 ((uid, nodes) # rest) m =
     (let left = delete_keys (map fst nodes) (inner m uid) in
      delete_keys2 rest (if left = [] then AList.delete uid m else AList.update uid left m))"

text \<open>\<open>retire\<close> is the kernel's callback: it drops the counters it may and returns what it dropped.\<close>

definition retire_confirmed :: "(traffic_counters \<Rightarrow> traffic_counters) \<Rightarrow> tracker \<Rightarrow> tracker" where
  "retire_confirmed retire t =
     (let removed = retire (retire_candidates t) in
      t\<lparr>last_seen := delete_keys (map fst (tc_users removed)) (last_seen t),
        last_seen_relay := delete_keys (map fst (tc_relay removed)) (last_seen_relay t),
        last_seen_relay_user := delete_keys2 (tc_relay_users removed) (last_seen_relay_user t)\<rparr>)"

section \<open>Sampling adds exactly the increases\<close>

text \<open>What a sample adds to a user, given the counters seen before.\<close>

definition gain :: "int traffic_map \<Rightarrow> int traffic_map \<Rightarrow> int \<Rightarrow> traffic" where
  "gain cum seen uid = (if has_key cum uid then traffic_delta (amount cum uid) (amount seen uid) else 0)"

definition counted :: "traffic \<Rightarrow> traffic" where
  "counted d = (if any_positive d then d else 0)"

lemma counted_nonneg: "nonneg d \<Longrightarrow> counted d = d"
  by (auto simp: counted_def dest: not_positive_zero)

lemma gain_Cons:
  "uid \<notin> fst ` set cum \<Longrightarrow>
   gain ((uid, c) # cum) seen k = (if k = uid then traffic_delta c (amount seen uid) else gain cum seen k)"
  by (auto simp: gain_def has_key_Cons amount_Cons)

lemma gain_update: "k \<noteq> uid \<Longrightarrow> gain cum (AList.update uid c seen) k = gain cum seen k"
  by (simp add: gain_def go_map)

lemma process_users_last_seen:
  "distinct_keys cum \<Longrightarrow>
   amount (last_seen (fst (process_users cum t i out))) uid =
     (if has_key cum uid then amount cum uid else amount (last_seen t) uid)"
  by (induction cum t i out rule: process_users.induct)
    (auto simp: Let_def go_map has_key_Cons amount_Cons has_key_iff)

lemma process_users_pending:
  "distinct_keys cum \<Longrightarrow> nonneg_map cum \<Longrightarrow>
   amount (pending_traffic (fst (process_users cum t i out))) k =
     amount (pending_traffic t) k + gain cum (last_seen t) k"
proof (induction cum t i out rule: process_users.induct)
  case (1 t i out)
  then show ?case by (simp add: gain_def)
next
  case (2 uid c rest t i out)
  define d where "d = traffic_delta c (amount (last_seen t) uid)"
  have zero: "d = 0" if "\<not> any_positive d"
    using that "2.prems" by (intro not_positive_zero) (simp_all add: d_def traffic_delta_nonneg)
  have absent: "gain rest seen uid = 0" for seen
    using "2.prems" by (simp add: gain_def has_key_iff)
  show ?case
    using 2 zero absent
    by (cases "k = uid"; cases "any_positive d")
      (auto simp: Let_def d_def [symmetric] go_map gain_Cons gain_update)
qed

lemma process_users_frame [simp]:
  "pending_relay (fst (process_users cum t i out)) = pending_relay t"
  "last_seen_relay (fst (process_users cum t i out)) = last_seen_relay t"
  "pending_relay_user (fst (process_users cum t i out)) = pending_relay_user t"
  "last_seen_relay_user (fst (process_users cum t i out)) = last_seen_relay_user t"
  "relay_alive (fst (process_users cum t i out)) = relay_alive t"
  "connections (fst (process_users cum t i out)) = connections t"
  "last_process (fst (process_users cum t i out)) = last_process t"
  by (induction cum t i out rule: process_users.induct) (simp_all add: Let_def)

text \<open>The two cycle totals and the revision are sums over the sample, whatever its order.\<close>

lemma process_users_totals:
  "distinct_keys cum \<Longrightarrow>
   snd (process_users cum t i out) =
     (i + (\<Sum>(uid, c) \<leftarrow> cum. down (counted (traffic_delta c (amount (last_seen t) uid)))),
      out + (\<Sum>(uid, c) \<leftarrow> cum. up (counted (traffic_delta c (amount (last_seen t) uid)))))"
  \<comment> \<open>the counters of the other users are not touched by a user's turn\<close>
proof (induction cum t i out rule: process_users.induct)
  case (1 t i out)
  then show ?case by simp
next
  case (2 uid c rest t i out)
  have other: "amount (AList.update uid c (last_seen t)) u = amount (last_seen t) u"
    if "u \<in> fst ` set rest" for u
    using that "2.prems" by (auto simp: go_map)
  have same: "(\<Sum>(u, x) \<leftarrow> rest. f (traffic_delta x (amount (AList.update uid c (last_seen t)) u))) =
    (\<Sum>(u, x) \<leftarrow> rest. f (traffic_delta x (amount (last_seen t) u)))" for f :: "traffic \<Rightarrow> i64"
    using other by (intro arg_cong [where f = sum_list] map_cong) force+
  show ?case
    using 2 same [of "\<lambda>d. down (counted d)"] same [of "\<lambda>d. up (counted d)"]
    by (auto simp: Let_def counted_def add.assoc)
qed

lemma process_users_revision:
  "distinct_keys cum \<Longrightarrow>
   revision (fst (process_users cum t i out)) = revision t +
     (\<Sum>(uid, c) \<leftarrow> cum. if any_positive (traffic_delta c (amount (last_seen t) uid)) then 1 else 0)"
proof (induction cum t i out rule: process_users.induct)
  case (1 t i out)
  then show ?case by simp
next
  case (2 uid c rest t i out)
  have other: "amount (AList.update uid c (last_seen t)) u = amount (last_seen t) u"
    if "u \<in> fst ` set rest" for u
    using that "2.prems" by (auto simp: go_map)
  have same: "(\<Sum>(u, x) \<leftarrow> rest. if any_positive (traffic_delta x (amount (AList.update uid c (last_seen t)) u)) then 1 else 0) =
    (\<Sum>(u, x) \<leftarrow> rest. if any_positive (traffic_delta x (amount (last_seen t) u)) then 1 else (0 :: nat))"
    using other by (intro arg_cong [where f = sum_list] map_cong) force+
  show ?case using 2 same by (auto simp: Let_def)
qed

lemma process_traffic_simps [simp]:
  "last_seen (process_traffic cum a n now t) = last_seen (fst (process_users cum t 0 0))"
  "pending_traffic (process_traffic cum a n now t) = pending_traffic (fst (process_users cum t 0 0))"
  "revision (process_traffic cum a n now t) = revision (fst (process_users cum t 0 0))"
  by (simp_all add: process_traffic_def Let_def split: prod.split)

lemma process_traffic_frame [simp]:
  "pending_relay (process_traffic cum a n now t) = pending_relay t"
  "last_seen_relay (process_traffic cum a n now t) = last_seen_relay t"
  "pending_relay_user (process_traffic cum a n now t) = pending_relay_user t"
  "last_seen_relay_user (process_traffic cum a n now t) = last_seen_relay_user t"
  "relay_alive (process_traffic cum a n now t) = relay_alive t"
  "connections (process_traffic cum a n now t) = connections t"
  using process_users_frame [of cum t 0 0]
  by (auto simp: process_traffic_def Let_def simp del: process_users_frame split: prod.split)

section \<open>All operations as steps\<close>

datatype tracker_op =
    OpProcess "int traffic_map" "(int, string list) go_map" int int
  | OpFlush
  | OpRestore "int traffic_map"
  | OpRelay "int traffic_map"
  | OpFlushRelay
  | OpRestoreRelay "int traffic_map"
  | OpRelayUser "(int, int) traffic_map2"
  | OpFlushRelayUser
  | OpRestoreRelayUser "(int, int) traffic_map2"
  | OpConnections "(int, int) go_map" "(int, (int, int) go_map) go_map"
  | OpRelayAlive "(int, (int, string list) go_map) go_map"
  | OpRetire "traffic_counters \<Rightarrow> traffic_counters"

fun tracker_step :: "tracker_op \<Rightarrow> tracker \<Rightarrow> tracker" where
  "tracker_step (OpProcess cum alive n now) t = process_traffic cum alive n now t"
| "tracker_step OpFlush t = snd (flush_traffic t)"
| "tracker_step (OpRestore d) t = restore_traffic d t"
| "tracker_step (OpRelay cum) t = process_relay cum t"
| "tracker_step OpFlushRelay t = snd (flush_relay t)"
| "tracker_step (OpRestoreRelay d) t = restore_relay d t"
| "tracker_step (OpRelayUser cum) t = process_relay_user cum t"
| "tracker_step OpFlushRelayUser t = snd (flush_relay_user t)"
| "tracker_step (OpRestoreRelayUser d) t = restore_relay_user d t"
| "tracker_step (OpConnections u r) t = process_connection_counts u r t"
| "tracker_step (OpRelayAlive a) t = process_relay_alive a t"
| "tracker_step (OpRetire f) t = retire_confirmed f t"

lemmas tracker_defs = flush_traffic_def restore_traffic_def process_relay_def flush_relay_def
  restore_relay_def process_relay_user_def flush_relay_user_def restore_relay_user_def
  process_connection_counts_def process_relay_alive_def retire_confirmed_def

subsection \<open>Keys stay distinct\<close>

definition tracker_good :: "tracker \<Rightarrow> bool" where
  "tracker_good t = (distinct_keys (last_seen t) \<and> distinct_keys (pending_traffic t) \<and>
     distinct_keys (last_seen_relay t) \<and> distinct_keys (pending_relay t) \<and>
     distinct_keys2 (last_seen_relay_user t) \<and> distinct_keys2 (pending_relay_user t))"

lemma distinct_keys_delete_keys [simp]: "distinct_keys m \<Longrightarrow> distinct_keys (delete_keys ks m)"
  by (induction ks m rule: delete_keys.induct) auto

lemma distinct_keys2_delete_keys2 [simp]: "distinct_keys2 m \<Longrightarrow> distinct_keys2 (delete_keys2 rs m)"
  by (induction rs m rule: delete_keys2.induct) (auto simp: Let_def)

lemma distinct_keys2_ensure [simp]: "distinct_keys2 m \<Longrightarrow> distinct_keys2 (ensure_inner k m)"
  by (simp add: ensure_inner_def)

lemma process_users_good: "tracker_good t \<Longrightarrow> tracker_good (fst (process_users cum t i out))"
  by (induction cum t i out rule: process_users.induct) (auto simp: Let_def tracker_good_def)

lemma process_relay_nodes_good: "tracker_good t \<Longrightarrow> tracker_good (process_relay_nodes cum t)"
  by (induction cum t rule: process_relay_nodes.induct) (auto simp: Let_def tracker_good_def)

lemma process_relay_user_nodes_good:
  "tracker_good t \<Longrightarrow> tracker_good (process_relay_user_nodes uid cum t)"
  by (induction uid cum t rule: process_relay_user_nodes.induct) (auto simp: Let_def tracker_good_def)

lemma process_relay_user_all_good: "tracker_good t \<Longrightarrow> tracker_good (process_relay_user_all cum t)"
proof (induction cum t rule: process_relay_user_all.induct)
  case (1 t)
  then show ?case by simp
next
  case (2 uid nodes rest t)
  have "tracker_good (t\<lparr>last_seen_relay_user := ensure_inner uid (last_seen_relay_user t),
      pending_relay_user := ensure_inner uid (pending_relay_user t)\<rparr>)"
    using "2.prems" by (simp add: tracker_good_def)
  then show ?case using "2.IH" by (simp add: process_relay_user_nodes_good)
qed

lemma process_traffic_good: "tracker_good t \<Longrightarrow> tracker_good (process_traffic cum a n now t)"
  using process_users_good [of t cum 0 0] by (simp add: tracker_good_def)

interpretation tracker_run: invariant_machine tracker_step tracker_good
proof unfold_locales
  fix t e assume t: "tracker_good t"
  show "tracker_good (tracker_step e t)"
  proof (cases e)
    case (OpProcess cum alive n now)
    with t show ?thesis by (simp add: process_traffic_good)
  next
    case (OpRelay cum)
    with t show ?thesis by (simp add: process_relay_def process_relay_nodes_good)
  next
    case (OpRelayUser cum)
    with t show ?thesis by (simp add: process_relay_user_def process_relay_user_all_good)
  qed (use t in \<open>auto simp: tracker_good_def tracker_defs Let_def distinct_keys2_add_all2, simp add: distinct_keys2_def\<close>)
qed

subsection \<open>The three report buffers\<close>

interpretation user_buffer: report_buffer tracker_good "\<lambda>t. amount (pending_traffic t)"
  flush_traffic restore_traffic "amount :: int traffic_map \<Rightarrow> _" distinct_keys
  by unfold_locales (auto simp: tracker_good_def tracker_defs amount_add_all)

interpretation relay_buffer: report_buffer tracker_good "\<lambda>t. amount (pending_relay t)"
  flush_relay restore_relay "amount :: int traffic_map \<Rightarrow> _" distinct_keys
  by unfold_locales (auto simp: tracker_good_def tracker_defs amount_add_all)

interpretation relay_user_buffer: report_buffer tracker_good "\<lambda>t. amount2 (pending_relay_user t)"
  flush_relay_user restore_relay_user amount2 distinct_keys2
  by unfold_locales
    (auto simp: tracker_good_def tracker_defs amount2_add_all2 distinct_keys2_add_all2,
      simp add: distinct_keys2_def)

subsection \<open>The revision tells whether anything is new\<close>

definition quiet :: "tracker \<Rightarrow> tracker \<Rightarrow> bool" where
  "quiet t t' = (revision t \<le> revision t' \<and>
     (revision t' = revision t \<longrightarrow> pending_snapshot t' = pending_snapshot t))"

lemma quiet_refl [simp]: "quiet t t"
  by (simp add: quiet_def)

lemma quiet_trans: "quiet s t \<Longrightarrow> quiet t u \<Longrightarrow> quiet s u"
  by (auto simp: quiet_def)

lemma quiet_louder: "revision t < revision t' \<Longrightarrow> quiet t t'"
  by (simp add: quiet_def)

lemma quiet_same:
  "revision t' = revision t \<Longrightarrow> pending_snapshot t' = pending_snapshot t \<Longrightarrow> quiet t t'"
  by (simp add: quiet_def)

lemma quiet_users: "quiet t (fst (process_users cum t i out))"
proof (induction cum t i out rule: process_users.induct)
  case (1 t i out)
  show ?case by simp
next
  case (2 uid c rest t i out)
  let ?d = "traffic_delta c (amount (last_seen t) uid)"
  let ?t1 = "t\<lparr>last_seen := AList.update uid c (last_seen t)\<rparr>"
  let ?t2 = "?t1\<lparr>revision := Suc (revision ?t1), pending_traffic := add_to uid ?d (pending_traffic ?t1)\<rparr>"
  have step1: "quiet t ?t1" and step2: "quiet t ?t2"
    by (simp_all add: quiet_def pending_snapshot_def)
  have rest: "process_users ((uid, c) # rest) t i out =
      (if any_positive ?d then process_users rest ?t2 (i + down ?d) (out + up ?d) else process_users rest ?t1 i out)"
    by (simp only: process_users.simps Let_def)
  show ?case
  proof (cases "any_positive ?d")
    case True
    then show ?thesis
      unfolding rest if_P [OF True] by (intro quiet_trans [OF step2] "2.IH"(1) [OF refl refl])
  next
    case False
    then show ?thesis
      unfolding rest if_not_P [OF False] by (intro quiet_trans [OF step1] "2.IH"(2) [OF refl refl])
  qed
qed

lemma quiet_relay_nodes: "quiet t (process_relay_nodes cum t)"
proof (induction cum t rule: process_relay_nodes.induct)
  case (1 t)
  show ?case by simp
next
  case (2 node c rest t)
  let ?d = "traffic_delta c (amount (last_seen_relay t) node)"
  let ?t1 = "t\<lparr>last_seen_relay := AList.update node c (last_seen_relay t)\<rparr>"
  let ?t2 = "if any_positive ?d
     then ?t1\<lparr>revision := Suc (revision ?t1), pending_relay := add_to node ?d (pending_relay ?t1)\<rparr> else ?t1"
  have step: "quiet t ?t2" by (simp add: quiet_def pending_snapshot_def)
  have rest: "process_relay_nodes ((node, c) # rest) t = process_relay_nodes rest ?t2"
    by (simp only: process_relay_nodes.simps Let_def)
  show ?case
    unfolding rest by (rule quiet_trans [OF step]) (rule "2.IH" [OF refl refl])
qed

lemma quiet_relay_user_nodes: "quiet t (process_relay_user_nodes uid cum t)"
proof (induction uid cum t rule: process_relay_user_nodes.induct)
  case (1 uid t)
  show ?case by simp
next
  case (2 uid node c rest t)
  let ?d = "traffic_delta c (amount2 (last_seen_relay_user t) (uid, node))"
  let ?t1 = "t\<lparr>last_seen_relay_user := AList.update uid
                (AList.update node c (inner (last_seen_relay_user t) uid)) (last_seen_relay_user t)\<rparr>"
  let ?t2 = "if any_positive ?d
     then ?t1\<lparr>revision := Suc (revision ?t1), pending_relay_user := AList.update uid
            (add_to node ?d (inner (pending_relay_user ?t1) uid)) (pending_relay_user ?t1)\<rparr> else ?t1"
  have step: "quiet t ?t2" by (simp add: quiet_def pending_snapshot_def)
  have rest: "process_relay_user_nodes uid ((node, c) # rest) t = process_relay_user_nodes uid rest ?t2"
    by (simp only: process_relay_user_nodes.simps Let_def)
  show ?case
    unfolding rest by (rule quiet_trans [OF step]) (rule "2.IH" [OF refl refl])
qed

lemma update_absent: "\<not> has_key m k \<Longrightarrow> AList.update k v m = m @ [(k, v)]"
  by (induction m) (auto simp: has_key_Cons)

lemma filter_ensure_inner:
  "filter (\<lambda>(uid, nodes). nodes \<noteq> []) (ensure_inner k m) = filter (\<lambda>(uid, nodes). nodes \<noteq> []) m"
  by (simp add: ensure_inner_def update_absent)

lemma quiet_ensure:
  "quiet t (t\<lparr>last_seen_relay_user := x, pending_relay_user := ensure_inner k (pending_relay_user t)\<rparr>)"
  by (simp add: quiet_def pending_snapshot_def filter_ensure_inner)

lemma quiet_relay_user_all: "quiet t (process_relay_user_all cum t)"
proof (induction cum t rule: process_relay_user_all.induct)
  case (1 t)
  show ?case by simp
next
  case (2 uid nodes rest t)
  show ?case
    unfolding process_relay_user_all.simps
    by (rule quiet_trans [OF quiet_ensure], rule quiet_trans [OF quiet_relay_user_nodes], rule "2.IH")
qed

lemma quiet_step: "quiet t (tracker_step e t)"
proof (cases e)
  case (OpProcess cum alive n now)
  then show ?thesis
    using quiet_users [of t cum 0 0] by (simp add: quiet_def pending_snapshot_def)
next
  case (OpRelay cum)
  then show ?thesis by (simp add: process_relay_def quiet_relay_nodes)
next
  case (OpRelayUser cum)
  then show ?thesis by (simp add: process_relay_user_def quiet_relay_user_all)
qed (auto simp: tracker_defs Let_def quiet_def pending_snapshot_def)

interpretation tracker_revision: monotone_machine tracker_step tracker_good revision
  using quiet_step by unfold_locales (simp add: quiet_def)

lemma quiet_run: "quiet t (fold tracker_step es t)"
  by (induction es arbitrary: t) (auto intro: quiet_trans [OF quiet_step])

subsection \<open>Retirement\<close>

lemma amount_delete_keys:
  "amount (delete_keys ks m) k = (if k \<in> set ks then 0 else amount m k)"
  by (induction ks m rule: delete_keys.induct) (auto simp: go_map)

lemma has_key_delete_keys:
  "has_key (delete_keys ks m) k = (k \<notin> set ks \<and> has_key m k)"
  by (induction ks m rule: delete_keys.induct) (auto simp: go_map)

lemma candidate_not_pending:
  "uid \<in> fst ` set (tc_users (retire_candidates t)) \<Longrightarrow> \<not> has_key (pending_traffic t) uid"
  by (auto simp: retire_candidates_def)

section \<open>Properties\<close>

text \<open>A run of samples in which no counter goes down between two samples.\<close>

fun monotone_samples :: "int traffic_map list \<Rightarrow> int traffic_map \<Rightarrow> int \<Rightarrow> bool" where
  "monotone_samples [] seen uid = True"
| "monotone_samples (cum # samples) seen uid =
     (distinct_keys cum \<and> nonneg_map cum \<and>
      (if has_key cum uid
       then le_traffic (amount seen uid) (amount cum uid) \<and> monotone_samples samples cum uid
       else monotone_samples samples seen uid))"

lemma monotone_samples_cong:
  "amount seen uid = amount seen' uid \<Longrightarrow> monotone_samples samples seen uid = monotone_samples samples seen' uid"
proof (induction samples)
  case Nil
  show ?case by simp
next
  case (Cons cum samples)
  then show ?case by simp
qed

definition sample_all :: "(int traffic_map \<times> int) list \<Rightarrow> tracker \<Rightarrow> tracker" where
  "sample_all samples t = fold (\<lambda>(cum, now). process_traffic cum [] 0 now) samples t"

text \<open>Over any number of samples without a counter reset, the traffic buffered for a user grows by
  exactly the growth of the kernel's counter: nothing is lost and nothing is counted twice.\<close>

theorem samples_account_exactly:
  assumes "monotone_samples (map fst samples) (last_seen t) uid"
    and "nonneg (amount (last_seen t) uid)"
  shows "amount (pending_traffic (sample_all samples t)) uid - amount (pending_traffic t) uid =
    amount (last_seen (sample_all samples t)) uid - amount (last_seen t) uid"
  using assms
proof (induction samples arbitrary: t)
  case Nil
  then show ?case by (simp add: sample_all_def)
next
  case (Cons x samples)
  obtain cum now where x: "x = (cum, now)" by (cases x)
  define t1 where "t1 = process_traffic cum [] 0 now t"
  from Cons.prems x have cum: "distinct_keys cum" "nonneg_map cum" by simp_all
  have seen1: "amount (last_seen t1) uid = (if has_key cum uid then amount cum uid else amount (last_seen t) uid)"
    using cum by (simp add: t1_def process_users_last_seen)
  have pend1: "amount (pending_traffic t1) uid = amount (pending_traffic t) uid + gain cum (last_seen t) uid"
    using cum by (simp add: t1_def process_users_pending)
  have gain1: "gain cum (last_seen t) uid = amount (last_seen t1) uid - amount (last_seen t) uid"
    using Cons.prems x by (simp add: gain_def seen1 traffic_delta_le split: if_splits)
  have mono1: "monotone_samples (map fst samples) (last_seen t1) uid"
    using Cons.prems x monotone_samples_cong [of "last_seen t1" uid cum "map fst samples"]
      monotone_samples_cong [of "last_seen t1" uid "last_seen t" "map fst samples"] seen1
    by (cases "has_key cum uid") simp_all
  have nonneg1: "nonneg (amount (last_seen t1) uid)"
    using Cons.prems cum by (simp add: seen1 nonneg_map_amount)
  have run: "sample_all (x # samples) t = sample_all samples t1"
    by (simp add: sample_all_def x t1_def)
  show ?case
    using Cons.IH [OF mono1 nonneg1] pend1 gain1 unfolding run by (simp add: algebra_simps)
qed

theorem samples_account_exactly_witness:
  "amount (pending_traffic (sample_all [([(7, Traffic 10 20)], 1), ([(9, Traffic 1 1), (7, Traffic 15 20)], 2)]
     (new_tracker 0))) 7 - amount (pending_traffic (new_tracker 0)) 7 =
   amount (last_seen (sample_all [([(7, Traffic 10 20)], 1), ([(9, Traffic 1 1), (7, Traffic 15 20)], 2)]
     (new_tracker 0))) 7 - amount (last_seen (new_tracker 0)) 7"
  by (rule samples_account_exactly)
    (simp_all add: new_tracker_def nonneg_map_def nonneg_def le_traffic_def has_key_def get_or_def)

text \<open>C35. The map a sample arrives in has no order: however Go ranges over it, the buffers, the
  remembered counters, the revision and the published snapshot come out the same.\<close>

theorem sample_order_irrelevant:
  assumes "distinct_keys cum" and "nonneg_map cum" and "mset cum' = mset cum"
  shows "amount (pending_traffic (process_traffic cum' a n now t)) uid = amount (pending_traffic (process_traffic cum a n now t)) uid
    \<and> amount (last_seen (process_traffic cum' a n now t)) uid = amount (last_seen (process_traffic cum a n now t)) uid
    \<and> revision (process_traffic cum' a n now t) = revision (process_traffic cum a n now t)
    \<and> live (process_traffic cum' a n now t) = live (process_traffic cum a n now t)"
proof -
  have dist: "distinct_keys cum'"
    using assms(1,3) by (metis mset_map mset_eq_imp_distinct_iff)
  have set_eq: "set cum' = set cum" using assms(3) by (metis set_mset_mset)
  have map_eq: "map_of cum' = map_of cum"
    using assms(1) dist set_eq by (simp add: map_of_inject_set)
  have nonneg': "nonneg_map cum'" using assms(2) set_eq by (simp add: nonneg_map_def)
  have look: "amount cum' = amount cum" "has_key cum' = has_key cum"
    using map_eq by (auto simp: get_or_def has_key_def fun_eq_iff)
  have sums: "(\<Sum>(u, c) \<leftarrow> cum'. f u c) = (\<Sum>(u, c) \<leftarrow> cum. f u c)" for f :: "int \<Rightarrow> traffic \<Rightarrow> 'm :: comm_monoid_add"
    using assms(3) by (metis mset_map sum_mset_sum_list)
  have totals: "snd (process_users cum' t 0 0) = snd (process_users cum t 0 0)"
    using assms(1) dist by (simp add: process_users_totals sums)
  have live': "live (process_traffic cum' a n now t) = live (process_traffic cum a n now t)"
    using totals process_users_frame(7) [of cum t 0 0] process_users_frame(7) [of cum' t 0 0]
    by (auto simp: process_traffic_def Let_def simp del: process_users_frame split: prod.split)
  show ?thesis
    using assms dist nonneg' live'
    by (simp add: process_users_last_seen process_users_pending process_users_revision gain_def look sums)
qed

theorem sample_order_irrelevant_witness:
  "amount (pending_traffic (process_traffic [(2, Traffic 5 6), (1, Traffic 3 4)] [] 2 9 (new_tracker 0))) 1 =
   amount (pending_traffic (process_traffic [(1, Traffic 3 4), (2, Traffic 5 6)] [] 2 9 (new_tracker 0))) 1"
  using sample_order_irrelevant [of "[(1, Traffic 3 4), (2, Traffic 5 6)]" "[(2, Traffic 5 6), (1, Traffic 3 4)]" "[]" 2 9 "new_tracker 0" 1]
  by (simp add: nonneg_map_def nonneg_def)

text \<open>Taking any of the three buffers for a report and putting it back after a failure leaves every
  pending amount as it was, in every state the tracker can reach.\<close>

theorem failed_report_restores:
  "amount (pending_traffic (restore_traffic (fst (flush_traffic (fold tracker_step es (new_tracker now))))
      (snd (flush_traffic (fold tracker_step es (new_tracker now)))))) uid
      = amount (pending_traffic (fold tracker_step es (new_tracker now))) uid
   \<and> amount (pending_relay (restore_relay (fst (flush_relay (fold tracker_step es (new_tracker now))))
      (snd (flush_relay (fold tracker_step es (new_tracker now)))))) node
      = amount (pending_relay (fold tracker_step es (new_tracker now))) node
   \<and> amount2 (pending_relay_user (restore_relay_user (fst (flush_relay_user (fold tracker_step es (new_tracker now))))
      (snd (flush_relay_user (fold tracker_step es (new_tracker now)))))) (uid, node)
      = amount2 (pending_relay_user (fold tracker_step es (new_tracker now))) (uid, node)"
proof -
  have "tracker_good (new_tracker now)" by (simp add: tracker_good_def new_tracker_def distinct_keys2_def)
  then have good: "tracker_good (fold tracker_step es (new_tracker now))" by (rule tracker_run.run_inv)
  show ?thesis
    using user_buffer.failed_report_neutral [OF good] relay_buffer.failed_report_neutral [OF good]
      relay_user_buffer.failed_report_neutral [OF good] by simp
qed

text \<open>\<open>PendingRevision\<close> is a sound change detector: over any run of operations it never decreases,
  and while it stands still the content that would be saved is unchanged.\<close>

theorem revision_detects_changes:
  "revision t \<le> revision (fold tracker_step es t) \<and>
   (revision (fold tracker_step es t) = revision t \<longrightarrow>
    pending_snapshot (fold tracker_step es t) = pending_snapshot t)"
  using quiet_run [of t es] by (simp add: quiet_def)

theorem revision_detects_changes_witness:
  "pending_snapshot (fold tracker_step [OpRelayUser [(3, [(4, Traffic 0 0)])], OpConnections [] []] (new_tracker 0)) =
   pending_snapshot (new_tracker 0)"
  using revision_detects_changes [of "new_tracker 0" "[OpRelayUser [(3, [(4, Traffic 0 0)])], OpConnections [] []]"]
  by (simp add: new_tracker_def process_relay_user_def ensure_inner_def any_positive_def traffic_delta_def
      counter_delta_def amount2_def process_connection_counts_def has_key_def get_or_def)

end
