(* ===== verification/PendingJournal.thy ===== *)
theory PendingJournal
  imports Traffic
begin

text \<open>
  Model of \<open>internal/service/pending_report.go\<close>, \<open>pending_journal.go\<close> and \<open>pending_state.go\<close>: the
  store that keeps unconfirmed traffic across restarts. The main file is a checkpoint; between
  checkpoints each change appends one journal file holding the difference. JSON and the storage
  encryption are taken as faithful (what is written is what is read back, or the file is damaged);
  a \<open>nil\<close> map and an empty map are both \<open>[]\<close>. The limit events of a batch are only carried, so
  their type is a parameter \<open>'ev\<close>. \<open>SavedAt\<close> is never set by the code and is left out.
\<close>

section \<open>Data\<close>

record pend =
  pd_traffic :: "int traffic_map"
  pd_relay :: "int traffic_map"
  pd_relay_user :: "(int, int) traffic_map2"

definition pend_empty :: "pend \<Rightarrow> bool" where
  "pend_empty p = (pd_traffic p = [] \<and> pd_relay p = [] \<and> pd_relay_user p = [])"

definition no_pend :: pend where
  "no_pend = \<lparr>pd_traffic = [], pd_relay = [], pd_relay_user = []\<rparr>"

record 'ev batch =
  b_id :: string
  b_events :: "'ev list"
  b_traffic :: pend

definition batch_empty :: "'ev batch \<Rightarrow> bool" where
  "batch_empty b = (pend_empty (b_traffic b) \<and> b_events b = [])"

record 'ev report_file =
  f_version :: nat
  f_journal_seq :: nat
  f_identity :: string
  f_batch :: "'ev batch option"
  f_pending :: pend

definition pending_report_version :: nat where
  "pending_report_version = 1"

record 'ev journal_record =
  r_sequence :: nat
  r_batch_changed :: bool
  r_batch :: "'ev batch option"
  r_delta :: pend

section \<open>Differences\<close>

definition diff_traffic :: "int traffic_map \<Rightarrow> int traffic_map \<Rightarrow> int traffic_map" where
  "diff_traffic before after =
     map (\<lambda>(k, v). (k, v - amount before k)) (filter (\<lambda>(k, v). v \<noteq> amount before k) after) @
     map (\<lambda>(k, v). (k, - v)) (filter (\<lambda>(k, v). \<not> has_key after k \<and> v \<noteq> 0) before)"

definition diff_relay_user ::
  "(int, int) traffic_map2 \<Rightarrow> (int, int) traffic_map2 \<Rightarrow> (int, int) traffic_map2" where
  "diff_relay_user before after =
     filter (\<lambda>(k, d). d \<noteq> []) (map (\<lambda>(k, vs). (k, diff_traffic (inner before k) vs)) after) @
     map (\<lambda>(k, vs). (k, diff_traffic vs [])) (filter (\<lambda>(k, vs). \<not> has_key after k) before)"

definition diff_pending :: "pend \<Rightarrow> pend \<Rightarrow> pend" where
  "diff_pending before after =
     \<lparr>pd_traffic = diff_traffic (pd_traffic before) (pd_traffic after),
      pd_relay = diff_traffic (pd_relay before) (pd_relay after),
      pd_relay_user = diff_relay_user (pd_relay_user before) (pd_relay_user after)\<rparr>"

datatype journal_error = InvalidDelta | UnexpectedEntry | DamagedEntry | InvalidSequence | SequenceGap

fun apply_traffic_delta :: "int traffic_map \<Rightarrow> int traffic_map \<Rightarrow> journal_error + int traffic_map" where
  "apply_traffic_delta base [] = Inr base"
| "apply_traffic_delta base ((k, v) # delta) =
     (let next_v = amount base k + v in
      if sint (up next_v) < 0 \<or> sint (down next_v) < 0 then Inl InvalidDelta
      else apply_traffic_delta (if next_v = 0 then AList.delete k base else AList.update k next_v base) delta)"

fun apply_relay_user_delta ::
  "(int, int) traffic_map2 \<Rightarrow> (int, int) traffic_map2 \<Rightarrow> journal_error + (int, int) traffic_map2" where
  "apply_relay_user_delta base [] = Inr base"
| "apply_relay_user_delta base ((k, vs) # delta) =
     (case apply_traffic_delta (inner base k) vs of
        Inl e \<Rightarrow> Inl e
      | Inr m \<Rightarrow> apply_relay_user_delta (if m = [] then AList.delete k base else AList.update k m base) delta)"

section \<open>Replaying the journal\<close>

text \<open>A journal file: the number in its name and its content, \<open>None\<close> when it cannot be read.\<close>

type_synonym 'ev entry = "nat \<times> 'ev journal_record option"

definition apply_record :: "'ev journal_record \<Rightarrow> 'ev report_file \<Rightarrow> journal_error + 'ev report_file" where
  "apply_record r file =
     (let batch = (if r_batch_changed r then r_batch r else f_batch file) in
      case apply_traffic_delta (pd_traffic (f_pending file)) (pd_traffic (r_delta r)) of
        Inl e \<Rightarrow> Inl e
      | Inr traffic \<Rightarrow>
        (case apply_traffic_delta (pd_relay (f_pending file)) (pd_relay (r_delta r)) of
           Inl e \<Rightarrow> Inl e
         | Inr relay \<Rightarrow>
           (case apply_relay_user_delta (pd_relay_user (f_pending file)) (pd_relay_user (r_delta r)) of
              Inl e \<Rightarrow> Inl e
            | Inr relay_user \<Rightarrow>
                Inr (file\<lparr>f_batch := batch,
                  f_pending := \<lparr>pd_traffic = traffic, pd_relay = relay, pd_relay_user = relay_user\<rparr>,
                  f_journal_seq := r_sequence r\<rparr>))))"

fun replay_entries :: "'ev entry list \<Rightarrow> 'ev report_file \<Rightarrow> journal_error + 'ev report_file" where
  "replay_entries [] file = Inr file"
| "replay_entries ((name, content) # entries) file =
     (case content of
        None \<Rightarrow> Inl DamagedEntry
      | Some r \<Rightarrow>
          if name \<noteq> r_sequence r then Inl InvalidSequence
          else if r_sequence r \<le> f_journal_seq file then replay_entries entries file
          else if r_sequence r \<noteq> Suc (f_journal_seq file) then Inl SequenceGap
          else (case apply_record r file of
                  Inl e \<Rightarrow> Inl e
                | Inr file' \<Rightarrow> replay_entries entries file'))"

section \<open>Disk and store\<close>

datatype 'ev main_file = Absent | Unreadable | Garbage | File "'ev report_file"

text \<open>\<open>d_foreign\<close>: the journal directory holds something that is neither a journal file nor the
  temporary file of an unfinished write (which is skipped).\<close>

record 'ev disk =
  d_main :: "'ev main_file"
  d_foreign :: bool
  d_journal :: "'ev entry list"

definition replay_journal :: "'ev disk \<Rightarrow> 'ev report_file \<Rightarrow> journal_error + 'ev report_file" where
  "replay_journal d file = (if d_foreign d then Inl UnexpectedEntry else replay_entries (d_journal d) file)"

record ('ev, 'h) store =
  st_identity :: string
  st_last_hash :: "'h option"
  st_saved :: bool
  st_last_batch :: "'ev batch option"
  st_last_pending :: pend
  st_journal_seq :: nat
  st_load_err :: bool

definition new_store :: "string \<Rightarrow> ('ev, 'h) store" where
  "new_store identity =
     \<lparr>st_identity = identity, st_last_hash = None, st_saved = False, st_last_batch = None,
      st_last_pending = no_pend, st_journal_seq = 0, st_load_err = False\<rparr>"

text \<open>Which file operations of a \<open>save\<close> succeed. A failed removal of the journal directory may
  already have deleted some entries.\<close>

record io =
  io_mkdir :: bool
  io_main :: bool
  io_rm_journal :: bool
  io_rm_kept :: "nat \<Rightarrow> bool"
  io_rm_main :: bool
  io_mkjournal :: bool
  io_record :: bool

text \<open>Journal files are listed by name, that is by their number.\<close>

fun put_entry :: "nat \<Rightarrow> 'ev journal_record \<Rightarrow> 'ev entry list \<Rightarrow> 'ev entry list" where
  "put_entry n r [] = [(n, Some r)]"
| "put_entry n r ((m, c) # es) =
     (if n < m then (n, Some r) # (m, c) # es
      else if n = m then (n, Some r) # es
      else (m, c) # put_entry n r es)"

definition normal_batch :: "'ev batch option \<Rightarrow> 'ev batch option" where
  "normal_batch b = (case b of None \<Rightarrow> None | Some x \<Rightarrow> if batch_empty x then None else Some x)"

definition make_checkpoint :: "('ev, 'h) store \<Rightarrow> 'ev batch option \<Rightarrow> pend \<Rightarrow> 'ev report_file" where
  "make_checkpoint s batch pending =
     \<lparr>f_version = pending_report_version, f_journal_seq = Suc (st_journal_seq s),
      f_identity = st_identity s, f_batch = batch, f_pending = pending\<rparr>"

definition make_record :: "('ev, 'h) store \<Rightarrow> 'ev batch option \<Rightarrow> pend \<Rightarrow> 'ev journal_record" where
  "make_record s batch pending =
     \<lparr>r_sequence = Suc (st_journal_seq s),
      r_batch_changed = (st_last_batch s \<noteq> batch),
      r_batch = (if st_last_batch s \<noteq> batch then batch else None),
      r_delta = diff_pending (st_last_pending s) pending\<rparr>"

definition mark_saved :: "'h \<Rightarrow> 'ev batch option \<Rightarrow> pend \<Rightarrow> ('ev, 'h) store \<Rightarrow> ('ev, 'h) store" where
  "mark_saved key batch pending s =
     s\<lparr>st_last_batch := batch, st_last_pending := pending, st_last_hash := Some key, st_saved := True\<rparr>"

definition bump_seq :: "('ev, 'h) store \<Rightarrow> ('ev, 'h) store" where
  "bump_seq s = s\<lparr>st_journal_seq := Suc (st_journal_seq s)\<rparr>"

text \<open>\<open>save\<close> with the outcome of its file operations \<open>io\<close>; the first result is \<open>True\<close> for \<open>nil\<close>.
  \<open>digest\<close> stands for the SHA-256 hash by which an unchanged state is recognised.\<close>

definition save_pending ::
  "(string \<Rightarrow> 'ev batch option \<Rightarrow> pend \<Rightarrow> 'h) \<Rightarrow> io \<Rightarrow> 'ev batch option \<Rightarrow> pend \<Rightarrow>
   ('ev, 'h) store \<Rightarrow> 'ev disk \<Rightarrow> bool \<times> ('ev, 'h) store \<times> 'ev disk" where
  "save_pending digest io batch0 pending s d =
     (if st_load_err s then (False, s, d)
      else let batch = normal_batch batch0;
               key = digest (st_identity s) batch pending;
               empty = (batch = None \<and> pend_empty pending) in
        if st_saved s \<and> st_last_hash s = Some key then (True, s, d)
        else if \<not> io_mkdir io then (False, s, d)
        else if \<not> st_saved s \<or> st_journal_seq s mod 128 = 127 \<or> empty then
          if \<not> io_main io then (False, s, d)
          else let d1 = d\<lparr>d_main := File (make_checkpoint s batch pending)\<rparr>; s1 = bump_seq s in
            if \<not> io_rm_journal io
            then (False, s1, d1\<lparr>d_journal := filter (\<lambda>e. io_rm_kept io (fst e)) (d_journal d1)\<rparr>)
            else let d2 = d1\<lparr>d_journal := [], d_foreign := False\<rparr> in
              if empty then
                if \<not> io_rm_main io then (False, s1, d2)
                else (True, mark_saved key batch pending s1, d2\<lparr>d_main := Absent\<rparr>)
              else (True, mark_saved key batch pending s1, d2)
        else if \<not> io_mkjournal io \<or> \<not> io_record io then (False, s, d)
        else (True, mark_saved key batch pending (bump_seq s),
              d\<lparr>d_journal := put_entry (Suc (st_journal_seq s)) (make_record s batch pending) (d_journal d)\<rparr>))"

text \<open>\<open>compact\<close>, called at a regular exit.\<close>

definition compact_pending :: "io \<Rightarrow> ('ev, 'h) store \<Rightarrow> 'ev disk \<Rightarrow> bool \<times> 'ev disk" where
  "compact_pending io s d =
     (if st_load_err s then (False, d)
      else if \<not> st_saved s \<or> (st_last_batch s = None \<and> pend_empty (st_last_pending s)) then (True, d)
      else if \<not> io_main io then (False, d)
      else let d1 = d\<lparr>d_main := File \<lparr>f_version = pending_report_version, f_journal_seq = st_journal_seq s,
                f_identity = st_identity s, f_batch = st_last_batch s, f_pending = st_last_pending s\<rparr>\<rparr> in
        if \<not> io_rm_journal io then (False, d1\<lparr>d_journal := filter (\<lambda>e. io_rm_kept io (fst e)) (d_journal d1)\<rparr>)
        else (True, d1\<lparr>d_journal := [], d_foreign := False\<rparr>))"

definition loaded_batch :: "'ev batch option \<Rightarrow> 'ev batch option" where
  "loaded_batch b =
     (case b of None \<Rightarrow> None | Some x \<Rightarrow> if b_id x = [] \<or> batch_empty x then None else Some x)"

datatype load_error = ReadFailed | MovedAside | JournalFailed journal_error

text \<open>\<open>load\<close>; a main file that is damaged or belongs to another node is moved aside with its journal
  (the rename itself is taken to succeed).\<close>

definition load_pending ::
  "(string \<Rightarrow> 'ev batch option \<Rightarrow> pend \<Rightarrow> 'h) \<Rightarrow> ('ev, 'h) store \<Rightarrow> 'ev disk \<Rightarrow>
   (load_error + 'ev batch option \<times> pend) \<times> ('ev, 'h) store \<times> 'ev disk" where
  "load_pending digest s d =
     (case d_main d of
        Absent \<Rightarrow> (Inr (None, no_pend), s, d)
      | Unreadable \<Rightarrow> (Inl ReadFailed, s, d)
      | Garbage \<Rightarrow> (Inl MovedAside, s, d\<lparr>d_main := Absent, d_journal := [], d_foreign := False\<rparr>)
      | File file \<Rightarrow>
          if f_version file \<noteq> pending_report_version \<or> f_identity file \<noteq> st_identity s
          then (Inl MovedAside, s, d\<lparr>d_main := Absent, d_journal := [], d_foreign := False\<rparr>)
          else (case replay_journal d file of
                  Inl e \<Rightarrow> (Inl (JournalFailed e), s\<lparr>st_load_err := True\<rparr>, d)
                | Inr file' \<Rightarrow>
                    let s' = s\<lparr>st_journal_seq := f_journal_seq file', st_last_batch := f_batch file',
                               st_last_pending := f_pending file', st_saved := True,
                               st_last_hash := Some (digest (f_identity file') (f_batch file') (f_pending file'))\<rparr>
                    in (Inr (loaded_batch (f_batch file'), f_pending file'), s', d)))"

section \<open>Applying a difference gives the later state\<close>

lemma has_key_filter_map_snd:
  "has_key (map (\<lambda>(k, v). (k, f k v)) (filter P m)) k \<longleftrightarrow> (\<exists>v. (k, v) \<in> set m \<and> P (k, v))"
  by (force simp: has_key_iff)

lemma distinct_keys_filter_map:
  "distinct_keys m \<Longrightarrow> distinct_keys (map (\<lambda>(k, v). (k, f k v)) (filter P m))"
proof -
  assume "distinct_keys m"
  then have "distinct_keys (filter P m)" by (rule distinct_keys_filter)
  moreover have "map fst (map (\<lambda>(k, v). (k, f k v)) (filter P m)) = map fst (filter P m)"
    by (simp add: case_prod_beta comp_def)
  ultimately show "distinct_keys (map (\<lambda>(k, v). (k, f k v)) (filter P m))" by metis
qed

lemma amount_append: "amount (m @ n) k = (if has_key m k then amount m k else amount n k)"
  by (auto simp: get_or_def has_key_def map_add_def split: option.splits)

lemma amount_map_filter:
  "distinct_keys m \<Longrightarrow>
   amount (map (\<lambda>(k, v). (k, f k v)) (filter P m)) k =
     (case map_of m k of None \<Rightarrow> 0 | Some v \<Rightarrow> if P (k, v) then f k v else 0)"
proof -
  assume m: "distinct_keys m"
  have "map_of (filter P m) k = (case map_of m k of None \<Rightarrow> None | Some v \<Rightarrow> if P (k, v) then Some v else None)"
    using map_of_filter [OF m, of "\<lambda>k v. P (k, v)"] by (simp add: case_prod_beta')
  then show ?thesis by (auto simp: get_or_def go_map split: option.splits)
qed

lemma distinct_keys_diff:
  assumes "distinct_keys before" and "distinct_keys after"
  shows "distinct_keys (diff_traffic before after)"
proof -
  have "fst ` set (map (\<lambda>(k, v). (k, v - amount before k)) (filter (\<lambda>(k, v). v \<noteq> amount before k) after)) \<inter>
    fst ` set (map (\<lambda>(k, v). (k, - v)) (filter (\<lambda>(k, v). \<not> has_key after k \<and> v \<noteq> 0) before)) = {}"
    by (force simp: has_key_iff)
  then show ?thesis
    using distinct_keys_filter_map [OF assms(1), of "\<lambda>k v. - v" "\<lambda>(k, v). \<not> has_key after k \<and> v \<noteq> 0"]
      distinct_keys_filter_map [OF assms(2), of "\<lambda>k v. v - amount before k" "\<lambda>(k, v). v \<noteq> amount before k"]
    unfolding diff_traffic_def map_append distinct_append set_map by simp
qed

lemma amount_diff:
  assumes "distinct_keys before" and "distinct_keys after"
  shows "amount (diff_traffic before after) k = amount after k - amount before k"
proof (cases "map_of after k")
  case (Some v)
  then have "has_key after k" "amount after k = v" by (auto simp: has_key_def get_or_def)
  with Some assms show ?thesis
    by (auto simp: diff_traffic_def amount_append amount_map_filter has_key_filter_map_snd
        dest: map_of_SomeD intro: get_or_absent split: option.splits)
next
  case None
  then have absent: "\<not> has_key after k" "amount after k = 0" by (auto simp: has_key_def get_or_def)
  then have "\<And>v. (k, v) \<notin> set after" by (auto simp: has_key_iff rev_image_eqI)
  moreover have "amount before k = (case map_of before k of None \<Rightarrow> 0 | Some v \<Rightarrow> v)"
    by (rule get_or_def)
  ultimately show ?thesis
    using assms absent
    by (auto simp: diff_traffic_def amount_append amount_map_filter has_key_filter_map_snd split: option.splits)
qed

lemma apply_traffic_delta_amount:
  "distinct_keys delta \<Longrightarrow> (\<forall>e \<in> set delta. nonneg (amount base (fst e) + snd e)) \<Longrightarrow>
   \<exists>m. apply_traffic_delta base delta = Inr m \<and> (\<forall>k. amount m k = amount base k + amount delta k)"
proof (induction base delta rule: apply_traffic_delta.induct)
  case (1 base)
  then show ?case by simp
next
  case (2 base k v delta)
  let ?next = "amount base k + v"
  let ?base = "if ?next = 0 then AList.delete k base else AList.update k ?next base"
  have nonneg: "nonneg ?next" and fresh: "k \<notin> fst ` set delta" using "2.prems" by auto
  have base: "amount ?base j = (if j = k then ?next else amount base j)" for j
    by (simp add: go_map)
  have "\<forall>e \<in> set delta. nonneg (amount ?base (fst e) + snd e)"
    using "2.prems" fresh unfolding base by force
  then obtain m where m: "apply_traffic_delta ?base delta = Inr m"
    and amt: "\<forall>j. amount m j = amount ?base j + amount delta j"
    using "2.IH" [OF refl] nonneg "2.prems"(1) by (auto simp: nonneg_def not_less)
  have absent: "amount delta k = 0" using fresh by (simp add: get_or_absent has_key_iff)
  have "apply_traffic_delta base ((k, v) # delta) = Inr m"
    using m nonneg by (simp add: nonneg_def not_less Let_def)
  moreover have "\<forall>j. amount m j = amount base j + amount ((k, v) # delta) j"
    using amt absent unfolding base by (auto simp: amount_Cons)
  ultimately show ?case by blast
qed

lemma diff_traffic_mem:
  assumes "distinct_keys before" and "distinct_keys after" and "e \<in> set (diff_traffic before after)"
  shows "amount before (fst e) + snd e = amount after (fst e)"
proof -
  have "amount (diff_traffic before after) (fst e) = snd e"
    using map_of_is_SomeI [OF distinct_keys_diff [OF assms(1,2)], of "fst e" "snd e"] assms(3)
    by (simp add: get_or_def)
  then show ?thesis using amount_diff [OF assms(1,2), of "fst e"] by (simp add: algebra_simps)
qed

lemma apply_diff_traffic:
  assumes "distinct_keys before" and "distinct_keys after" and "nonneg_map after"
    and "\<And>k. amount base k = amount before k"
  obtains m where "apply_traffic_delta base (diff_traffic before after) = Inr m"
    and "\<And>k. amount m k = amount after k"
proof -
  have "\<forall>e \<in> set (diff_traffic before after). nonneg (amount base (fst e) + snd e)"
    using assms(3) by (auto simp: assms(4) diff_traffic_mem [OF assms(1,2)] nonneg_map_amount)
  then obtain m where "apply_traffic_delta base (diff_traffic before after) = Inr m"
    and "\<And>k. amount m k = amount base k + amount (diff_traffic before after) k"
    using apply_traffic_delta_amount [OF distinct_keys_diff [OF assms(1,2)]] by blast
  then show thesis
    using that by (simp add: assms(4) amount_diff [OF assms(1,2)])
qed

lemma distinct_keys_apply:
  "apply_traffic_delta base delta = Inr m \<Longrightarrow> distinct_keys base \<Longrightarrow> distinct_keys m"
  by (induction base delta rule: apply_traffic_delta.induct) (auto simp: Let_def split: if_splits)

lemma nonneg_map_update: "nonneg_map m \<Longrightarrow> nonneg v \<Longrightarrow> nonneg_map (AList.update k v m)"
  by (induction m) auto

lemma nonneg_map_delete: "nonneg_map m \<Longrightarrow> nonneg_map (AList.delete k m)"
  by (auto simp: nonneg_map_def AList.delete_eq)

lemma nonneg_map_apply:
  "apply_traffic_delta base delta = Inr m \<Longrightarrow> nonneg_map base \<Longrightarrow> nonneg_map m"
  by (induction base delta rule: apply_traffic_delta.induct)
    (auto simp: Let_def nonneg_map_update nonneg_map_delete nonneg_def not_less split: if_splits)

subsection \<open>Per-user relay traffic\<close>

definition nonneg_map2 :: "('k, 'j) traffic_map2 \<Rightarrow> bool" where
  "nonneg_map2 m = (\<forall>e \<in> set m. nonneg_map (snd e))"

lemma nonneg_map2_inner: "nonneg_map2 m \<Longrightarrow> nonneg_map (inner m k)"
  by (fastforce simp: nonneg_map2_def get_or_def dest!: map_of_SomeD split: option.splits)

lemma nonneg_map2_update: "nonneg_map2 m \<Longrightarrow> nonneg_map v \<Longrightarrow> nonneg_map2 (AList.update k v m)"
  by (induction m) (auto simp: nonneg_map2_def)

lemma nonneg_map2_delete: "nonneg_map2 m \<Longrightarrow> nonneg_map2 (AList.delete k m)"
  by (auto simp: nonneg_map2_def AList.delete_eq)

lemma apply_relay_user_keeps:
  "apply_relay_user_delta base delta = Inr m \<Longrightarrow> distinct_keys2 base \<Longrightarrow> nonneg_map2 base \<Longrightarrow>
   distinct_keys2 m \<and> nonneg_map2 m"
proof (induction base delta rule: apply_relay_user_delta.induct)
  case (1 base)
  then show ?case by simp
next
  case (2 base k vs delta)
  from "2.prems"(1) obtain n where n: "apply_traffic_delta (inner base k) vs = Inr n"
    and rest: "apply_relay_user_delta (if n = [] then AList.delete k base else AList.update k n base) delta = Inr m"
    by (auto split: sum.splits)
  have "distinct_keys n" and "nonneg_map n"
    using distinct_keys_apply [OF n] nonneg_map_apply [OF n] "2.prems"(2,3)
    by (simp_all add: nonneg_map2_inner)
  then show ?case
    using "2.IH" [OF n rest] "2.prems"(2,3)
    by (simp add: nonneg_map2_delete nonneg_map2_update split: if_splits)
qed

lemma diff_traffic_Nil [simp]: "diff_traffic [] [] = []"
  by (simp add: diff_traffic_def)

lemma inner_append: "inner (m @ n) k = (if has_key m k then inner m k else inner n k)"
  by (auto simp: get_or_def has_key_def map_add_def split: option.splits)

lemma inner_filter_nonempty:
  "distinct_keys m \<Longrightarrow> inner (filter (\<lambda>(k, d). d \<noteq> []) m) k = inner m k"
  by (auto simp: get_or_def map_of_filter split: option.splits)

lemma inner_filter_keys:
  "distinct_keys m \<Longrightarrow> inner (filter (\<lambda>(k, vs). P k) m) k = (if P k then inner m k else [])"
  by (auto simp: get_or_def map_of_filter split: option.splits)

lemma distinct_keys_map_values: "distinct_keys m \<Longrightarrow> distinct_keys (map (\<lambda>(k, v). (k, f k v)) m)"
  by (simp add: case_prod_beta comp_def)

lemma distinct_keys_diff_relay_user:
  assumes "distinct_keys before" and "distinct_keys after"
  shows "distinct_keys (diff_relay_user before after)"
proof -
  let ?a = "filter (\<lambda>(k, d). d \<noteq> []) (map (\<lambda>(k, vs). (k, diff_traffic (inner before k) vs)) after)"
  let ?b = "map (\<lambda>(k, vs). (k, diff_traffic vs [])) (filter (\<lambda>(k, vs). \<not> has_key after k) before)"
  have "distinct_keys ?a"
    by (rule distinct_keys_filter, rule distinct_keys_map_values, rule assms(2))
  moreover have "distinct_keys ?b"
    by (rule distinct_keys_map_values, rule distinct_keys_filter, rule assms(1))
  moreover have "fst ` set ?a \<inter> fst ` set ?b = {}" by (force simp: has_key_iff)
  ultimately show ?thesis unfolding diff_relay_user_def map_append distinct_append set_map by simp
qed

lemma inner_diff_relay_user:
  assumes "distinct_keys before" and "distinct_keys after"
  shows "inner (diff_relay_user before after) k = diff_traffic (inner before k) (inner after k)"
proof -
  let ?m = "map (\<lambda>(k, vs). (k, diff_traffic (inner before k) vs)) after"
  let ?a = "filter (\<lambda>(k, d). d \<noteq> []) ?m"
  let ?b = "map (\<lambda>(k, vs). (k, diff_traffic vs [])) (filter (\<lambda>(k, vs). \<not> has_key after k) before)"
  have m: "inner ?m k = (if has_key after k then diff_traffic (inner before k) (inner after k) else [])"
    by (auto simp: get_or_def has_key_def map_of_map_values split: option.splits)
  have a: "inner ?a k = inner ?m k"
    by (rule inner_filter_nonempty, rule distinct_keys_map_values, rule assms(2))
  have b: "inner ?b k = (if has_key after k then [] else diff_traffic (inner before k) [])"
    using map_of_filter [OF assms(1), of "\<lambda>k vs. \<not> has_key after k" k]
    by (auto simp: get_or_def map_of_map_values split: option.splits)
  have absent: "inner ?a k = []" if "\<not> has_key ?a k" using that by (rule get_or_absent)
  show ?thesis
  proof (cases "has_key after k")
    case True
    then show ?thesis using a b m absent by (auto simp: diff_relay_user_def inner_append)
  next
    case False
    then have "\<not> has_key ?a k" by (force simp: has_key_iff)
    then show ?thesis
      using False b by (simp add: diff_relay_user_def inner_append get_or_absent [of after])
  qed
qed

lemma amount2_diff:
  assumes "distinct_keys2 before" and "distinct_keys2 after"
  shows "amount2 (diff_relay_user before after) kj = amount2 after kj - amount2 before kj"
proof -
  have "distinct_keys before" "distinct_keys after" using assms by (auto simp: distinct_keys2_def)
  then show ?thesis
    using assms by (simp add: amount2_def inner_diff_relay_user amount_diff)
qed

lemma distinct_keys2_alt:
  "distinct_keys2 m \<longleftrightarrow> distinct_keys m \<and> (\<forall>k. distinct_keys (inner m k))"
proof
  assume "distinct_keys m \<and> (\<forall>k. distinct_keys (inner m k))"
  then have m: "distinct_keys m" and i: "\<And>k. distinct_keys (inner m k)" by auto
  have "distinct_keys (snd e)" if "e \<in> set m" for e
    using i [of "fst e"] map_of_is_SomeI [OF m, of "fst e" "snd e"] that by (simp add: get_or_def)
  then show "distinct_keys2 m" using m by (simp add: distinct_keys2_def)
qed (auto simp: distinct_keys2_def intro: inner_distinct [unfolded distinct_keys2_def])

lemma apply_relay_user_amount:
  "distinct_keys2 delta \<Longrightarrow>
   (\<forall>(k, vs) \<in> set delta. \<forall>e \<in> set vs. nonneg (amount (inner base k) (fst e) + snd e)) \<Longrightarrow>
   \<exists>m. apply_relay_user_delta base delta = Inr m \<and> (\<forall>kj. amount2 m kj = amount2 base kj + amount2 delta kj)"
proof (induction base delta rule: apply_relay_user_delta.induct)
  case (1 base)
  then show ?case by simp
next
  case (2 base k vs delta)
  have fresh: "k \<notin> fst ` set delta" and vs: "distinct_keys vs" and delta: "distinct_keys2 delta"
    using "2.prems"(1) by simp_all
  from "2.prems"(2) have "\<forall>e \<in> set vs. nonneg (amount (inner base k) (fst e) + snd e)" by simp
  then obtain n where n: "apply_traffic_delta (inner base k) vs = Inr n"
    and n_amt: "\<forall>j. amount n j = amount (inner base k) j + amount vs j"
    using apply_traffic_delta_amount [OF vs] by blast
  let ?base = "if n = [] then AList.delete k base else AList.update k n base"
  have base: "inner ?base j = (if j = k then n else inner base j)" for j
    by (simp add: go_map)
  have "\<forall>(j, ws) \<in> set delta. \<forall>e \<in> set ws. nonneg (amount (inner ?base j) (fst e) + snd e)"
    using "2.prems"(2) fresh unfolding base by force
  then obtain m where m: "apply_relay_user_delta ?base delta = Inr m"
    and amt: "\<forall>kj. amount2 m kj = amount2 ?base kj + amount2 delta kj"
    using "2.IH" [OF n delta] by blast
  have "inner delta k = []" using fresh by (intro get_or_absent) (simp add: has_key_iff)
  then have "\<forall>kj. amount2 m kj = amount2 base kj + amount2 ((k, vs) # delta) kj"
    using amt n_amt unfolding amount2_def base by (auto simp: inner_Cons)
  then show ?case using n m by simp
qed

lemma apply_diff_relay_user:
  assumes "distinct_keys2 before" and "distinct_keys2 after" and "nonneg_map2 after"
    and base: "\<And>kj. amount2 base kj = amount2 before kj"
  shows "\<exists>m. apply_relay_user_delta base (diff_relay_user before after) = Inr m \<and>
    (\<forall>kj. amount2 m kj = amount2 after kj)"
proof -
  have keys: "distinct_keys before" "distinct_keys after" using assms by (auto simp: distinct_keys2_def)
  have inner_delta: "inner (diff_relay_user before after) k = diff_traffic (inner before k) (inner after k)" for k
    by (rule inner_diff_relay_user [OF keys])
  have "\<forall>k. distinct_keys (inner (diff_relay_user before after) k)"
    using assms(1,2) by (simp add: inner_delta distinct_keys_diff)
  then have delta: "distinct_keys2 (diff_relay_user before after)"
    using distinct_keys_diff_relay_user [OF keys] by (simp only: distinct_keys2_alt) blast
  have "nonneg (amount (inner base k) (fst e) + snd e)"
    if "(k, vs) \<in> set (diff_relay_user before after)" and "e \<in> set vs" for k vs e
  proof -
    have "vs = diff_traffic (inner before k) (inner after k)"
      using that(1) delta inner_delta [of k] map_of_is_SomeI [of "diff_relay_user before after" k vs]
      by (simp add: distinct_keys2_def get_or_def)
    then have "amount (inner before k) (fst e) + snd e = amount (inner after k) (fst e)"
      using that(2) assms(1,2) by (intro diff_traffic_mem) simp_all
    moreover have "amount (inner base k) (fst e) = amount (inner before k) (fst e)"
      using base [of "(k, fst e)"] by (simp add: amount2_def)
    ultimately show ?thesis
      using assms(3) by (simp add: nonneg_map2_inner nonneg_map_amount)
  qed
  then obtain m where "apply_relay_user_delta base (diff_relay_user before after) = Inr m"
    and "\<forall>kj. amount2 m kj = amount2 base kj + amount2 (diff_relay_user before after) kj"
    using apply_relay_user_amount [OF delta, of base] by blast
  then show ?thesis using assms(1,2) base by (simp add: amount2_diff)
qed

end
