(* ===== verification/PendingStore.thy ===== *)
theory PendingStore
  imports PendingJournal
begin

text \<open>
  What the pending-report store of \<open>PendingJournal\<close> promises: the state a new process reads back is
  the state of the last \<open>save\<close>, whatever subset of the file operations of later saves succeeds. The
  last section shows the two situations in which the code does not keep that promise.
\<close>

section \<open>Same content\<close>

text \<open>\<open>same_pend\<close>: every amount is the same. \<open>same_batch\<close>: what JSON would print is the same, up to
  the order of map entries.\<close>

definition same_pend :: "pend \<Rightarrow> pend \<Rightarrow> bool" where
  "same_pend p q \<longleftrightarrow>
     (\<forall>k. amount (pd_traffic p) k = amount (pd_traffic q) k) \<and>
     (\<forall>k. amount (pd_relay p) k = amount (pd_relay q) k) \<and>
     (\<forall>kj. amount2 (pd_relay_user p) kj = amount2 (pd_relay_user q) kj)"

definition same_batch :: "'ev batch option \<Rightarrow> 'ev batch option \<Rightarrow> bool" where
  "same_batch a b \<longleftrightarrow>
     (case (a, b) of
        (None, None) \<Rightarrow> True
      | (Some x, Some y) \<Rightarrow>
          b_id x = b_id y \<and> b_events x = b_events y \<and> same_pend (b_traffic x) (b_traffic y) \<and>
          pend_empty (b_traffic x) = pend_empty (b_traffic y)
      | _ \<Rightarrow> False)"

definition pend_ok :: "pend \<Rightarrow> bool" where
  "pend_ok p \<longleftrightarrow>
     distinct_keys (pd_traffic p) \<and> nonneg_map (pd_traffic p) \<and>
     distinct_keys (pd_relay p) \<and> nonneg_map (pd_relay p) \<and>
     distinct_keys2 (pd_relay_user p) \<and> nonneg_map2 (pd_relay_user p)"

lemma same_pend_refl [simp]: "same_pend p p"
  by (simp add: same_pend_def)

lemma same_pend_trans: "same_pend p q \<Longrightarrow> same_pend q r \<Longrightarrow> same_pend p r"
  by (simp add: same_pend_def)

lemma same_pend_sym: "same_pend p q \<Longrightarrow> same_pend q p"
  by (simp add: same_pend_def)

lemma same_batch_refl [simp]: "same_batch b b"
  by (simp add: same_batch_def split: option.split)

lemma same_batch_trans: "same_batch a b \<Longrightarrow> same_batch b c \<Longrightarrow> same_batch a c"
  by (auto simp: same_batch_def intro: same_pend_trans split: option.splits)

lemma same_batch_loaded: "same_batch a b \<Longrightarrow> same_batch (loaded_batch a) (loaded_batch b)"
  by (auto simp: same_batch_def loaded_batch_def batch_empty_def split: option.splits)

lemma loaded_normal [simp]: "loaded_batch (normal_batch b) = loaded_batch b"
  by (simp add: loaded_batch_def normal_batch_def split: option.splits)

text \<open>The property of the SHA-256 digest of a state that the code relies on: two states with the
  same digest have the same content.\<close>

definition digest_faithful :: "(string \<Rightarrow> 'ev batch option \<Rightarrow> pend \<Rightarrow> 'h) \<Rightarrow> bool" where
  "digest_faithful digest \<longleftrightarrow>
     (\<forall>i b p b' p'. digest i b p = digest i b' p' \<longrightarrow> same_batch b b' \<and> same_pend p p')"

lemma digest_faithful_tuple: "digest_faithful (\<lambda>i b p. (i, b, p))"
  by (simp add: digest_faithful_def)

section \<open>Replay\<close>

lemma replay_append:
  "replay_entries (es @ fs) file =
     (case replay_entries es file of Inl e \<Rightarrow> Inl e | Inr file' \<Rightarrow> replay_entries fs file')"
  by (induction es "file" rule: replay_entries.induct) (auto split: option.splits sum.splits)

lemma apply_record_seq: "apply_record r file = Inr file' \<Longrightarrow> f_journal_seq file' = r_sequence r"
  by (auto simp: apply_record_def Let_def split: sum.splits)

definition replayed :: "nat \<Rightarrow> 'ev entry \<Rightarrow> bool" where
  "replayed n e = (case snd e of None \<Rightarrow> False | Some r \<Rightarrow> fst e = r_sequence r \<and> r_sequence r \<le> n)"

lemma replayed_mono: "replayed m e \<Longrightarrow> m \<le> n \<Longrightarrow> replayed n e"
  by (auto simp: replayed_def split: option.splits)

lemma replay_seq: "replay_entries es file = Inr file' \<Longrightarrow> f_journal_seq file \<le> f_journal_seq file'"
  by (induction es "file" rule: replay_entries.induct)
    (fastforce split: option.splits sum.splits if_splits dest: apply_record_seq)+

lemma replay_replayed:
  "replay_entries es file = Inr file' \<Longrightarrow> e \<in> set es \<Longrightarrow> replayed (f_journal_seq file') e"
proof (induction es "file" rule: replay_entries.induct)
  case (1 f)
  then show ?case by simp
next
  case (2 name content es f)
  from "2.prems"(1) obtain r where r: "content = Some r" "name = r_sequence r"
    by (auto split: option.splits if_splits)
  show ?case
  proof (cases "r_sequence r \<le> f_journal_seq f")
    case True
    then have es: "replay_entries es f = Inr file'" using "2.prems"(1) r by simp
    have "r_sequence r \<le> f_journal_seq file'" using True replay_seq [OF es] by simp
    then show ?thesis
      using "2.prems"(2) "2.IH"(1) [of r] es r True by (auto simp: replayed_def)
  next
    case False
    then obtain g where g: "apply_record r f = Inr g" and es: "replay_entries es g = Inr file'"
      and seq: "r_sequence r = Suc (f_journal_seq f)"
      using "2.prems"(1) r by (auto split: sum.splits if_splits)
    have "r_sequence r \<le> f_journal_seq file'"
      using apply_record_seq [OF g] replay_seq [OF es] by simp
    then show ?thesis
      using "2.prems"(2) "2.IH"(2) [of r g] es r g seq False by (auto simp: replayed_def)
  qed
qed

lemma replay_skips: "(\<forall>e \<in> set es. replayed (f_journal_seq file) e) \<Longrightarrow> replay_entries es file = Inr file"
  by (induction es "file" rule: replay_entries.induct) (auto simp: replayed_def split: option.splits)

lemma put_entry_last: "(\<forall>e \<in> set es. fst e < n) \<Longrightarrow> put_entry n r es = es @ [(n, Some r)]"
  by (induction n r es rule: put_entry.induct) auto

lemma apply_record_ok:
  "apply_record r file = Inr file' \<Longrightarrow> pend_ok (f_pending file) \<Longrightarrow> pend_ok (f_pending file')"
  by (auto simp: apply_record_def Let_def pend_ok_def split: sum.splits
      dest: distinct_keys_apply nonneg_map_apply apply_relay_user_keeps)

lemma apply_made_record:
  assumes "f_batch file = st_last_batch s" and "same_pend (f_pending file) (st_last_pending s)"
    and "pend_ok (st_last_pending s)" and "pend_ok pending"
  shows "\<exists>file'. apply_record (make_record s batch pending) file = Inr file' \<and>
    f_journal_seq file' = Suc (st_journal_seq s) \<and> f_batch file' = batch \<and> same_pend (f_pending file') pending"
proof -
  obtain t where t: "apply_traffic_delta (pd_traffic (f_pending file))
      (diff_traffic (pd_traffic (st_last_pending s)) (pd_traffic pending)) = Inr t"
    "\<And>k. amount t k = amount (pd_traffic pending) k"
    using apply_diff_traffic [of "pd_traffic (st_last_pending s)" "pd_traffic pending" "pd_traffic (f_pending file)"]
      assms by (auto simp: same_pend_def pend_ok_def)
  obtain n where n: "apply_traffic_delta (pd_relay (f_pending file))
      (diff_traffic (pd_relay (st_last_pending s)) (pd_relay pending)) = Inr n"
    "\<And>k. amount n k = amount (pd_relay pending) k"
    using apply_diff_traffic [of "pd_relay (st_last_pending s)" "pd_relay pending" "pd_relay (f_pending file)"]
      assms by (auto simp: same_pend_def pend_ok_def)
  obtain u where u: "apply_relay_user_delta (pd_relay_user (f_pending file))
      (diff_relay_user (pd_relay_user (st_last_pending s)) (pd_relay_user pending)) = Inr u"
    "\<And>kj. amount2 u kj = amount2 (pd_relay_user pending) kj"
    using apply_diff_relay_user [of "pd_relay_user (st_last_pending s)" "pd_relay_user pending" "pd_relay_user (f_pending file)"]
      assms by (auto simp: same_pend_def pend_ok_def)
  show ?thesis
    using t n u assms(1) by (auto simp: apply_record_def make_record_def diff_pending_def same_pend_def)
qed

section \<open>The invariant of a store and its files\<close>

definition recovers :: "string \<Rightarrow> 'ev disk \<Rightarrow> 'ev batch option \<Rightarrow> pend \<Rightarrow> bool" where
  "recovers identity d batch pending \<longleftrightarrow>
     (\<exists>b p. fst (load_pending (\<lambda>i b p. ()) (new_store identity) d) = Inr (b, p) \<and>
        same_batch b (loaded_batch batch) \<and> same_pend p pending \<and> pend_ok p)"

definition file_ok :: "string \<Rightarrow> 'ev report_file \<Rightarrow> bool" where
  "file_ok identity file = (f_version file = pending_report_version \<and> f_identity file = identity)"

definition stands_for :: "('ev, 'h) store \<Rightarrow> 'ev report_file \<Rightarrow> bool" where
  "stands_for s file \<longleftrightarrow>
     f_batch file = st_last_batch s \<and> same_pend (f_pending file) (st_last_pending s) \<and>
     pend_ok (f_pending file) \<and> f_journal_seq file = st_journal_seq s"

definition durable ::
  "(string \<Rightarrow> 'ev batch option \<Rightarrow> pend \<Rightarrow> 'h) \<Rightarrow> ('ev, 'h) store \<Rightarrow> 'ev disk \<Rightarrow> bool" where
  "durable digest s d \<longleftrightarrow>
     st_saved s \<and> \<not> st_load_err s \<and> pend_ok (st_last_pending s) \<and>
     st_last_hash s = Some (digest (st_identity s) (st_last_batch s) (st_last_pending s)) \<and>
     (\<exists>file file'. d_main d = File file \<and> file_ok (st_identity s) file \<and>
        replay_journal d file = Inr file' \<and> stands_for s file')"

lemma load_identity: "fst (load_pending dg (new_store i) d) = fst (load_pending dg' (new_store i) d)"
  by (auto simp: load_pending_def new_store_def Let_def split: main_file.splits sum.splits)

lemma file_recovers:
  "d_main d = File file \<Longrightarrow> file_ok identity file \<Longrightarrow> replay_journal d file = Inr file' \<Longrightarrow>
   same_batch (f_batch file') batch \<Longrightarrow> same_pend (f_pending file') pending \<Longrightarrow> pend_ok (f_pending file') \<Longrightarrow>
   recovers identity d batch pending"
  by (auto simp: recovers_def load_pending_def new_store_def file_ok_def Let_def same_batch_loaded)

lemma durable_recovers: "durable digest s d \<Longrightarrow> recovers (st_identity s) d (st_last_batch s) (st_last_pending s)"
  by (auto simp: durable_def stands_for_def intro: file_recovers)

lemma recovers_same:
  "recovers i d b p \<Longrightarrow> same_batch b b' \<Longrightarrow> same_pend p p' \<Longrightarrow> recovers i d b' p'"
  unfolding recovers_def by (meson same_batch_loaded same_batch_trans same_pend_trans)

lemma recovers_normal: "recovers i d (normal_batch b) p = recovers i d b p"
  by (simp add: recovers_def)

lemma checkpoint_recovers:
  assumes "d_main d = File (make_checkpoint s batch pending)" and "\<not> d_foreign d"
    and "\<forall>e \<in> set (d_journal d). replayed (Suc (st_journal_seq s)) e" and "pend_ok pending"
  shows "recovers (st_identity s) d batch pending"
proof (rule file_recovers [OF assms(1)])
  show "replay_journal d (make_checkpoint s batch pending) = Inr (make_checkpoint s batch pending)"
    using assms(2,3) by (simp add: replay_journal_def replay_skips make_checkpoint_def)
qed (use assms(4) in \<open>simp_all add: make_checkpoint_def file_ok_def\<close>)

lemma durable_replayed: "durable digest s d \<Longrightarrow> e \<in> set (d_journal d) \<Longrightarrow> replayed (st_journal_seq s) e"
  by (auto simp: durable_def stands_for_def replay_journal_def split: if_splits dest: replay_replayed)

lemma durable_foreign: "durable digest s d \<Longrightarrow> \<not> d_foreign d"
  by (auto simp: durable_def replay_journal_def split: if_splits)

lemma absent_recovers: "d_main d = Absent \<Longrightarrow> pend_empty pending \<Longrightarrow> recovers i d None pending"
  by (auto simp: recovers_def load_pending_def loaded_batch_def pend_empty_def no_pend_def same_pend_def
      pend_ok_def distinct_keys2_def nonneg_map2_def)

section \<open>Saving\<close>

lemma durable_unchanged:
  assumes "digest_faithful digest" and "durable digest s d"
    and "st_last_hash s = Some (digest (st_identity s) (normal_batch batch) pending)"
  shows "recovers (st_identity s) d batch pending"
proof -
  have "digest (st_identity s) (st_last_batch s) (st_last_pending s) =
      digest (st_identity s) (normal_batch batch) pending"
    using assms(2,3) by (simp add: durable_def)
  then have "same_batch (st_last_batch s) (normal_batch batch)" and "same_pend (st_last_pending s) pending"
    using assms(1) unfolding digest_faithful_def by blast+
  then have "recovers (st_identity s) d (normal_batch batch) pending"
    by (rule recovers_same [OF durable_recovers [OF assms(2)]])
  then show ?thesis by (simp add: recovers_normal)
qed

lemma journal_extends:
  assumes durable: "durable digest s d" and pending: "pend_ok pending"
    and d'_def: "d' = d\<lparr>d_journal := put_entry (Suc (st_journal_seq s)) (make_record s batch pending) (d_journal d)\<rparr>"
  shows "durable digest (mark_saved (digest (st_identity s) batch pending) batch pending (bump_seq s)) d'"
proof -
  from durable obtain f g where f: "d_main d = File f" "file_ok (st_identity s) f"
    and g: "replay_entries (d_journal d) f = Inr g" "stands_for s g" and d: "\<not> d_foreign d"
    by (auto simp: durable_def replay_journal_def split: if_splits)
  have "pend_ok (st_last_pending s)" using durable by (simp add: durable_def)
  then obtain h where h: "apply_record (make_record s batch pending) g = Inr h"
    "f_journal_seq h = Suc (st_journal_seq s)" "f_batch h = batch" "same_pend (f_pending h) pending"
    using apply_made_record [of g s pending batch] g(2) pending by (auto simp: stands_for_def)
  have "pend_ok (f_pending h)"
    using apply_record_ok [OF h(1)] g(2) by (simp add: stands_for_def)
  have journal: "d_journal d' = d_journal d @ [(Suc (st_journal_seq s), Some (make_record s batch pending))]"
  proof -
    have "fst e < Suc (st_journal_seq s)" if "e \<in> set (d_journal d)" for e
      using durable_replayed [OF durable that] by (auto simp: replayed_def split: option.splits)
    then show ?thesis by (simp add: d'_def put_entry_last)
  qed
  have "replay_journal d' f = Inr h"
  proof -
    have "r_sequence (make_record s batch pending) = Suc (st_journal_seq s)" by (simp add: make_record_def)
    moreover have "\<not> d_foreign d'" using d by (simp add: d'_def)
    ultimately show ?thesis
      using g h by (simp add: replay_journal_def journal replay_append stands_for_def)
  qed
  then show ?thesis
    using f h durable pending \<open>pend_ok (f_pending h)\<close>
    by (auto simp: durable_def mark_saved_def bump_seq_def d'_def stands_for_def)
qed

lemma checkpoint_durable:
  assumes "\<not> st_load_err s" and "pend_ok pending" and "d_main d = File (make_checkpoint s batch pending)"
    and "\<not> d_foreign d" and "d_journal d = []"
  shows "durable digest (mark_saved (digest (st_identity s) batch pending) batch pending (bump_seq s)) d"
  using assms
  by (auto simp: durable_def mark_saved_def bump_seq_def replay_journal_def make_checkpoint_def
      file_ok_def stands_for_def)

lemma normal_batch_empty: "normal_batch b = None \<longleftrightarrow> (case b of None \<Rightarrow> True | Some x \<Rightarrow> batch_empty x)"
  by (auto simp: normal_batch_def split: option.splits)

text \<open>A save that reports success, with any store that has loaded or has never saved.\<close>

lemma save_success:
  assumes "digest_faithful digest" and "pend_ok pending" and "durable digest s d \<or> \<not> st_saved s"
    and "save_pending digest io batch pending s d = (True, s', d')"
  shows "recovers (st_identity s) d' batch pending \<and>
    (normal_batch batch = None \<and> pend_empty pending \<or> durable digest s' d')"
proof -
  let ?b = "normal_batch batch"
  let ?key = "digest (st_identity s) ?b pending"
  let ?empty = "?b = None \<and> pend_empty pending"
  have load: "\<not> st_load_err s" using assms(4) by (auto simp: save_pending_def)
  consider (same) "st_saved s" "st_last_hash s = Some ?key"
    | (check) "\<not> (st_saved s \<and> st_last_hash s = Some ?key)"
        "\<not> st_saved s \<or> st_journal_seq s mod 128 = 127 \<or> ?empty"
    | (journal) "\<not> (st_saved s \<and> st_last_hash s = Some ?key)"
        "st_saved s" "st_journal_seq s mod 128 \<noteq> 127" "\<not> ?empty"
    by blast
  then show ?thesis
  proof cases
    case same
    then have "durable digest s d" using assms(3) by blast
    moreover have "s' = s" "d' = d" using assms(4) same load by (auto simp: save_pending_def Let_def)
    ultimately show ?thesis using durable_unchanged [OF assms(1) _ same(2)] by simp
  next
    case check
    let ?d = "d\<lparr>d_main := File (make_checkpoint s ?b pending), d_journal := [], d_foreign := False\<rparr>"
    have s': "s' = mark_saved ?key ?b pending (bump_seq s)"
      and d': "d' = (if ?empty then ?d\<lparr>d_main := Absent\<rparr> else ?d)"
      using assms(4) check load by (auto simp: save_pending_def Let_def split: if_splits)
    show ?thesis
    proof (cases ?empty)
      case True
      then have "recovers (st_identity s) d' None pending" by (simp add: d' absent_recovers)
      then have "recovers (st_identity s) d' batch pending"
        using True recovers_normal [of "st_identity s" d' batch pending] by simp
      then show ?thesis using True by simp
    next
      case False
      have "recovers (st_identity s) ?d batch pending"
        using checkpoint_recovers [of ?d s ?b pending] assms(2) by (simp add: recovers_normal)
      then show ?thesis
        using checkpoint_durable [OF load assms(2), of ?d ?b] unfolding s' d' if_not_P [OF False] by simp
    qed
  next
    case journal
    then have durable: "durable digest s d" using assms(3) by blast
    let ?d = "d\<lparr>d_journal := put_entry (Suc (st_journal_seq s)) (make_record s ?b pending) (d_journal d)\<rparr>"
    have s': "s' = mark_saved ?key ?b pending (bump_seq s)" and d': "d' = ?d"
      using assms(4) journal load by (auto simp: save_pending_def Let_def split: if_splits)
    have "durable digest s' d'" unfolding s' d' by (rule journal_extends [OF durable assms(2) refl])
    moreover from this have "recovers (st_identity s) d' ?b pending"
      using durable_recovers [of digest s' d'] by (simp add: s' mark_saved_def bump_seq_def)
    ultimately show ?thesis by (simp add: recovers_normal)
  qed
qed

text \<open>A save in which any file operations fail: the files stand for the old state or the new one.\<close>

lemma replayed_kept:
  "(\<forall>e \<in> set es. replayed n e) \<Longrightarrow> \<forall>e \<in> set (filter P es). replayed (Suc n) e"
  by (auto intro: replayed_mono)

lemma save_either:
  assumes "digest_faithful digest" and "pend_ok pending" and "durable digest s d"
    and "save_pending digest io batch pending s d = (ok, s', d')"
  shows "recovers (st_identity s) d' batch pending \<or>
    \<not> ok \<and> recovers (st_identity s) d' (st_last_batch s) (st_last_pending s)"
proof (cases ok)
  case True
  then show ?thesis using save_success [OF assms(1,2), of s d io batch s' d'] assms(3,4) by simp
next
  case False
  let ?d = "d\<lparr>d_main := File (make_checkpoint s (normal_batch batch) pending)\<rparr>"
  have old: "recovers (st_identity s) d (st_last_batch s) (st_last_pending s)"
    using assms(3) by (rule durable_recovers)
  have foreign: "\<not> d_foreign d" using assms(3) by (rule durable_foreign)
  have replayed: "\<forall>e \<in> set (d_journal d). replayed (st_journal_seq s) e"
    using durable_replayed [OF assms(3)] by blast
  consider "d' = d" | "d' = ?d\<lparr>d_journal := filter (\<lambda>e. io_rm_kept io (fst e)) (d_journal d)\<rparr>"
    | "d' = ?d\<lparr>d_journal := [], d_foreign := False\<rparr>"
    using assms(4) False by (auto simp: save_pending_def Let_def split: if_splits)
  then show ?thesis
  proof cases
    case 1
    then show ?thesis using old False by simp
  next
    case 2
    then have "recovers (st_identity s) d' (normal_batch batch) pending"
      using foreign replayed_kept [OF replayed] assms(2) by (intro checkpoint_recovers) simp_all
    then show ?thesis by (simp add: recovers_normal)
  next
    case 3
    then have "recovers (st_identity s) d' (normal_batch batch) pending"
      using assms(2) by (intro checkpoint_recovers) simp_all
    then show ?thesis by (simp add: recovers_normal)
  qed
qed

lemma load_durable:
  assumes "durable digest s d"
  shows "durable digest (fst (snd (load_pending digest (new_store (st_identity s)) d))) d"
proof -
  from assms obtain f g where f: "d_main d = File f" "file_ok (st_identity s) f"
    and g: "replay_journal d f = Inr g" "stands_for s g" by (auto simp: durable_def)
  have "f_identity g = st_identity s"
  proof -
    have "f_identity h = f_identity f" if "replay_entries es f = Inr h" for es h
      using that
      by (induction es f rule: replay_entries.induct)
        (auto simp: apply_record_def Let_def split: option.splits sum.splits if_splits)
    then show ?thesis using g(1) f(2) by (auto simp: replay_journal_def file_ok_def split: if_splits)
  qed
  then show ?thesis
    using f g
    by (simp add: load_pending_def new_store_def file_ok_def Let_def durable_def stands_for_def)
qed

lemma compact_recovers:
  assumes "durable digest s d" and "\<not> (st_last_batch s = None \<and> pend_empty (st_last_pending s))"
    and "compact_pending io s d = (ok, d')"
  shows "recovers (st_identity s) d' (st_last_batch s) (st_last_pending s)"
proof -
  let ?file = "\<lparr>f_version = pending_report_version, f_journal_seq = st_journal_seq s,
    f_identity = st_identity s, f_batch = st_last_batch s, f_pending = st_last_pending s\<rparr>"
  have foreign: "\<not> d_foreign d" using assms(1) by (rule durable_foreign)
  have replayed: "\<forall>e \<in> set (d_journal d). replayed (st_journal_seq s) e"
    using durable_replayed [OF assms(1)] by blast
  have kept: "recovers (st_identity s) e (st_last_batch s) (st_last_pending s)"
    if "d_main e = File ?file" and "\<not> d_foreign e" and "\<forall>x \<in> set (d_journal e). replayed (st_journal_seq s) x"
    for e :: "'a disk"
    by (rule file_recovers [OF that(1), of "st_identity s" ?file])
      (use that(2,3) assms(1) in \<open>simp_all add: file_ok_def replay_journal_def replay_skips durable_def\<close>)
  consider "d' = d"
    | "d' = d\<lparr>d_main := File ?file, d_journal := filter (\<lambda>e. io_rm_kept io (fst e)) (d_journal d)\<rparr>"
    | "d' = d\<lparr>d_main := File ?file, d_journal := [], d_foreign := False\<rparr>"
    using assms(1,2,3) by (auto simp: compact_pending_def durable_def Let_def split: if_splits)
  then show ?thesis
    by cases (use durable_recovers [OF assms(1)] foreign replayed in \<open>auto intro!: kept\<close>)
qed

section \<open>Properties\<close>

definition sample_pend :: "int \<Rightarrow> pend" where
  "sample_pend n = \<lparr>pd_traffic = [(7, Traffic (of_int n) 5)], pd_relay = [],
     pd_relay_user = [(3, [(9, Traffic 1 (of_int n))])]\<rparr>"

definition all_io :: io where
  "all_io = \<lparr>io_mkdir = True, io_main = True, io_rm_journal = True, io_rm_kept = (\<lambda>n. False),
     io_rm_main = True, io_mkjournal = True, io_record = True\<rparr>"

definition no_cleanup_io :: io where
  "no_cleanup_io = all_io\<lparr>io_rm_journal := False\<rparr>"

definition tuple_digest :: "string \<Rightarrow> unit batch option \<Rightarrow> pend \<Rightarrow> string \<times> unit batch option \<times> pend" where
  "tuple_digest = (\<lambda>i b p. (i, b, p))"

definition empty_disk :: "unit disk" where
  "empty_disk = \<lparr>d_main = Absent, d_foreign = False, d_journal = []\<rparr>"

lemma sample_pend_ok: "pend_ok (sample_pend 100)" "pend_ok (sample_pend 40)"
  by (simp_all add: sample_pend_def pend_ok_def nonneg_def nonneg_map2_def distinct_keys2_def)

lemma tuple_digest_faithful: "digest_faithful tuple_digest"
  by (simp add: tuple_digest_def digest_faithful_tuple)

lemmas store_eval = save_pending_def load_pending_def new_store_def empty_disk_def all_io_def no_cleanup_io_def
  sample_pend_def tuple_digest_def normal_batch_def make_checkpoint_def make_record_def mark_saved_def
  bump_seq_def pend_empty_def no_pend_def replay_journal_def apply_record_def diff_pending_def
  diff_traffic_def diff_relay_user_def pending_report_version_def loaded_batch_def Let_def


definition first_save :: "bool \<times> (unit, string \<times> unit batch option \<times> pend) store \<times> unit disk" where
  "first_save = save_pending tuple_digest all_io None (sample_pend 100) (new_store ''n1'') empty_disk"

lemma first_save_ok: "fst first_save"
  by (simp add: first_save_def store_eval)

lemma first_save_durable: "durable tuple_digest (fst (snd first_save)) (snd (snd first_save))"
  using save_success [OF tuple_digest_faithful sample_pend_ok(1), of "new_store ''n1''" empty_disk all_io None]
    first_save_ok
  by (cases first_save) (auto simp: first_save_def new_store_def sample_pend_def pend_empty_def)



definition torn_save :: "bool \<times> (unit, string \<times> unit batch option \<times> pend) store \<times> unit disk" where
  "torn_save = save_pending tuple_digest (all_io\<lparr>io_record := False\<rparr>) None (sample_pend 40)
     (fst (snd first_save)) (snd (snd first_save))"


text \<open>Loading in a new process reestablishes the store's invariant, so that journal records
  written before and after any number of restarts describe one continuous history.\<close>

theorem restart_resumes:
  assumes "durable digest s d"
  shows "durable digest (fst (snd (load_pending digest (new_store (st_identity s)) d))) d"
  using assms by (rule load_durable)

theorem restart_resumes_witness:
  "durable tuple_digest
     (fst (snd (load_pending tuple_digest (new_store (st_identity (fst (snd first_save)))) (snd (snd first_save)))))
     (snd (snd first_save))"
  by (rule restart_resumes [OF first_save_durable])

section \<open>Where durability fails\<close>

text \<open>C5. Saving the empty state removes the main file, but the store still counts as saved, so the
  next change is only appended to the journal; \<open>load\<close> does not look at the journal when there is no
  main file. The save reports success, and a new process finds nothing: unconfirmed traffic is lost.\<close>

theorem change_after_empty_lost:
  assumes "st_saved s" and "d_main d = Absent" and "st_journal_seq s mod 128 \<noteq> 127"
    and "normal_batch batch \<noteq> None \<or> \<not> pend_empty pending"
    and "save_pending digest io batch pending s d = (ok, s', d')"
  shows "fst (load_pending digest (new_store (st_identity s)) d') = Inr (None, no_pend)"
proof -
  have "d_main d' = Absent"
    using assms by (auto simp: save_pending_def Let_def split: if_splits)
  then show ?thesis by (simp add: load_pending_def)
qed

text \<open>The witness is the ordinary life of a node: everything is confirmed (the empty state is
  saved), then new traffic arrives and is saved successfully.\<close>

definition emptied :: "bool \<times> (unit, string \<times> unit batch option \<times> pend) store \<times> unit disk" where
  "emptied = save_pending tuple_digest all_io None no_pend (fst (snd first_save)) (snd (snd first_save))"

definition refilled :: "bool \<times> (unit, string \<times> unit batch option \<times> pend) store \<times> unit disk" where
  "refilled = save_pending tuple_digest all_io None (sample_pend 40) (fst (snd emptied)) (snd (snd emptied))"

theorem change_after_empty_lost_witness:
  "fst first_save \<and> fst emptied \<and> fst refilled \<and>
   fst (load_pending tuple_digest (new_store ''n1'') (snd (snd refilled))) = Inr (None, no_pend)"
proof -
  have facts: "fst first_save" "fst emptied" "fst refilled" "st_saved (fst (snd emptied))"
    "d_main (snd (snd emptied)) = Absent" "st_journal_seq (fst (snd emptied)) mod 128 \<noteq> 127"
    "st_identity (fst (snd emptied)) = ''n1''"
    by (simp_all add: refilled_def emptied_def first_save_def store_eval)
  have some: "normal_batch (None :: unit batch option) \<noteq> None \<or> \<not> pend_empty (sample_pend 40)"
    by (simp add: sample_pend_def pend_empty_def)
  have "save_pending tuple_digest all_io None (sample_pend 40) (fst (snd emptied)) (snd (snd emptied)) =
      (fst refilled, fst (snd refilled), snd (snd refilled))"
    unfolding refilled_def by simp
  from change_after_empty_lost [OF facts(4,5,6) some this] facts show ?thesis
    unfolding facts(7) by blast
qed

definition restart_disk :: "unit disk" where
  "restart_disk = empty_disk\<lparr>d_main := File \<lparr>f_version = 1, f_journal_seq = 127, f_identity = ''n1'',
     f_batch = None, f_pending = sample_pend 100\<rparr>\<rparr>"

definition restarted :: "(unit, string \<times> unit batch option \<times> pend) store" where
  "restarted = fst (snd (load_pending tuple_digest (new_store ''n1'') restart_disk))"

definition uncleaned :: "bool \<times> (unit, string \<times> unit batch option \<times> pend) store \<times> unit disk" where
  "uncleaned = save_pending tuple_digest no_cleanup_io None (sample_pend 140) restarted restart_disk"

definition next_save :: "bool \<times> (unit, string \<times> unit batch option \<times> pend) store \<times> unit disk" where
  "next_save = save_pending tuple_digest all_io None (sample_pend 150) (fst (snd uncleaned)) (snd (snd uncleaned))"

text \<open>When a checkpoint is published but removing the old journal fails, \<open>save\<close> reports the error
  with the number advanced and the old state as its base, so the next journal record is a
  difference to a state the files no longer hold. Here the store restarts at record 127 with 100
  bytes, the checkpoint for 140 bytes fails to clean up, the save of 150 bytes succeeds, and a new
  process reads 190.\<close>

theorem failed_cleanup_double_counts:
  "fst next_save \<and>
   map_sum (\<lambda>e. ()) (\<lambda>(b, p). amount (pd_traffic p) 7)
     (fst (load_pending tuple_digest (new_store ''n1'') (snd (snd next_save)))) = Inr (Traffic 190 5)"
  by (simp add: next_save_def uncleaned_def restarted_def restart_disk_def store_eval get_or_def has_key_def
      plus_traffic_def minus_traffic_def)

end
