(* ===== verification/ReportPipeline.thy ===== *)
theory ReportPipeline
  imports TrafficTracker PendingStore
begin

text \<open>
  Model of the reporting path of \<open>internal/service/service.go\<close>: sampling into the tracker
  (\<open>collectTraffic\<close>), taking a batch (\<open>takeReportBatch\<close>), saving it before it is sent
  (\<open>persistBatchLocked\<close>, \<open>sendReportContext\<close>), remembering a failed batch, forgetting a confirmed one
  and restoring both parts after a restart (\<open>restorePendingReports\<close>).

  A push (\<open>pushReportAsync\<close>) runs beside the sampling loop; its three phases (take, send, finish) are
  separate events, so every interleaving with samples is a list of events. The panel is outside the
  repository: it is a parameter, of which only the deduplication by report number is assumed. The
  status and metrics of a report (\<open>'st\<close>) and its limit events (\<open>'ev\<close>) are values handed in. Batches
  are compared by pointer in the code and by number here; numbers of a process are distinct.
\<close>

section \<open>State\<close>

record ('ev, 'st) payload =
  rp_id :: string
  rp_traffic :: "int traffic_map"
  rp_relay :: "int traffic_map"
  rp_relay_user :: "(int, int) traffic_map2"
  rp_relay_user_alive :: "(int, (int, string list) go_map) go_map"
  rp_alive :: "(int, string list) go_map"
  rp_online :: "(int, int) go_map"
  rp_connections :: "(int, int) go_map"
  rp_relay_connections :: "(int, (int, int) go_map) go_map"
  rp_events :: "'ev list"
  rp_status :: "'st option"

text \<open>A batch is its payload (whose number is the batch's) and whether it was restored from disk.\<close>

record ('ev, 'st) report_batch =
  rb_payload :: "('ev, 'st) payload"
  rb_restored :: bool

text \<open>\<open>sv_result\<close>: outcome of the send of the push in flight (\<open>sv_active\<close>), until it is processed.\<close>

record ('ev, 'st, 'h) service =
  sv_tracker :: tracker
  sv_retry :: "('ev, 'st) report_batch option"
  sv_store :: "('ev, 'h) store option"
  sv_disk :: "'ev disk"
  sv_persisted :: "(string option \<times> nat) option"
  sv_seq :: nat
  sv_boot :: string
  sv_active :: bool
  sv_result :: "bool option"

section \<open>Operations\<close>

definition report_id :: "string \<Rightarrow> nat \<Rightarrow> string" where
  "report_id boot seq = boot @ ''-'' @ itoa_nat seq"

definition next_report_id :: "string \<Rightarrow> ('ev, 'st, 'h) service \<Rightarrow> string \<times> ('ev, 'st, 'h) service" where
  "next_report_id boot sv =
     (let sv1 = sv\<lparr>sv_seq := Suc (sv_seq sv), sv_boot := (if sv_boot sv = [] then boot else sv_boot sv)\<rparr> in
      (report_id (sv_boot sv1) (sv_seq sv1), sv1))"

definition tracker_pend :: "tracker \<Rightarrow> pend" where
  "tracker_pend t = (let (traffic, relay, relay_user) = pending_snapshot t in
     \<lparr>pd_traffic = traffic, pd_relay = relay, pd_relay_user = relay_user\<rparr>)"

definition payload_pend :: "('ev, 'st) payload \<Rightarrow> pend" where
  "payload_pend p = \<lparr>pd_traffic = rp_traffic p, pd_relay = rp_relay p, pd_relay_user = rp_relay_user p\<rparr>"

definition saved_batch :: "('ev, 'st) report_batch \<Rightarrow> 'ev batch" where
  "saved_batch b = \<lparr>b_id = rp_id (rb_payload b), b_events = rp_events (rb_payload b),
     b_traffic = payload_pend (rb_payload b)\<rparr>"

definition persist_batch ::
  "(string \<Rightarrow> 'ev batch option \<Rightarrow> pend \<Rightarrow> 'h) \<Rightarrow> io \<Rightarrow> ('ev, 'st) report_batch option \<Rightarrow>
   ('ev, 'st, 'h) service \<Rightarrow> bool \<times> ('ev, 'st, 'h) service" where
  "persist_batch digest io batch sv =
     (case sv_store sv of
        None \<Rightarrow> (True, sv)
      | Some st \<Rightarrow>
          let mark = Some (map_option (\<lambda>b. rp_id (rb_payload b)) batch, revision (sv_tracker sv)) in
          if sv_persisted sv = mark then (True, sv)
          else let (ok, st', d') = save_pending digest io (map_option saved_batch batch)
                                     (tracker_pend (sv_tracker sv)) st (sv_disk sv);
                   sv1 = sv\<lparr>sv_store := Some st', sv_disk := d'\<rparr> in
            (ok, if ok then sv1\<lparr>sv_persisted := mark\<rparr> else sv1))"

definition clone_relay_user :: "(int, int) traffic_map2 \<Rightarrow> (int, int) traffic_map2" where
  "clone_relay_user src = filter (\<lambda>(uid, nodes). nodes \<noteq> []) src"

definition take_report_batch ::
  "(string \<Rightarrow> 'ev batch option \<Rightarrow> pend \<Rightarrow> 'h) \<Rightarrow> (string \<Rightarrow> string) \<Rightarrow> string \<Rightarrow> io \<Rightarrow> 'ev list \<Rightarrow> 'st \<Rightarrow>
   ('ev, 'st, 'h) service \<Rightarrow> ('ev, 'st, 'h) service" where
  "take_report_batch digest public_address boot io events status sv =
     (case sv_retry sv of
        Some b \<Rightarrow>
          if rb_restored b
          then sv\<lparr>sv_retry := Some (b\<lparr>rb_payload := (rb_payload b)\<lparr>rp_status := Some status\<rparr>, rb_restored := False\<rparr>)\<rparr>
          else sv
      | None \<Rightarrow>
          let t = sv_tracker sv;
              (traffic, t1) = flush_traffic t;
              (relay, t2) = flush_relay t1;
              (relay_user, t3) = flush_relay_user t2;
              alive = flush_alive_ips public_address t3;
              (conns, relay_conns) = current_connection_counts t3;
              (rid, sv1) = next_report_id boot (sv\<lparr>sv_tracker := t3\<rparr>);
              b = \<lparr>rb_payload = \<lparr>rp_id = rid, rp_traffic = traffic, rp_relay = relay,
                     rp_relay_user = clone_relay_user relay_user, rp_relay_user_alive = relay_user_alive t3,
                     rp_alive = alive, rp_online = current_online t3, rp_connections = conns,
                     rp_relay_connections = relay_conns, rp_events = events, rp_status = Some status\<rparr>,
                   rb_restored = False\<rparr> in
          snd (persist_batch digest io (Some b) (sv1\<lparr>sv_retry := Some b\<rparr>)))"

definition restore_pending_reports ::
  "(string \<Rightarrow> 'ev batch option \<Rightarrow> pend \<Rightarrow> 'h) \<Rightarrow> ('ev, 'st, 'h) service \<Rightarrow> ('ev, 'st, 'h) service" where
  "restore_pending_reports digest sv =
     (case sv_store sv of
        None \<Rightarrow> sv
      | Some st \<Rightarrow>
          let (result, st', d') = load_pending digest st (sv_disk sv);
              sv1 = sv\<lparr>sv_store := Some st', sv_disk := d'\<rparr> in
          (case result of
             Inl e \<Rightarrow> sv1
           | Inr (batch, pending) \<Rightarrow>
               let sv2 = (case batch of
                     None \<Rightarrow> sv1
                   | Some b \<Rightarrow> sv1\<lparr>sv_retry := Some \<lparr>rb_payload =
                       \<lparr>rp_id = b_id b, rp_traffic = pd_traffic (b_traffic b), rp_relay = pd_relay (b_traffic b),
                        rp_relay_user = pd_relay_user (b_traffic b), rp_relay_user_alive = [], rp_alive = [],
                        rp_online = [], rp_connections = [], rp_relay_connections = [],
                        rp_events = b_events b, rp_status = None\<rparr>, rb_restored = True\<rparr>\<rparr>);
                   t = sv_tracker sv2;
                   t1 = (if pd_traffic pending \<noteq> [] then restore_traffic (pd_traffic pending) t else t);
                   t2 = (if pd_relay pending \<noteq> [] then restore_relay (pd_relay pending) t1 else t1);
                   t3 = (if pd_relay_user pending \<noteq> [] then restore_relay_user (pd_relay_user pending) t2 else t2) in
               sv2\<lparr>sv_tracker := t3\<rparr>))"

text \<open>The answer to a request: it never arrived, it was processed but the answer was lost, or it was
  confirmed.\<close>

datatype reply = NotSent | LostReply | Confirmed

definition send_report ::
  "(string \<Rightarrow> 'ev batch option \<Rightarrow> pend \<Rightarrow> 'h) \<Rightarrow> ('p \<Rightarrow> string \<Rightarrow> pend \<Rightarrow> 'p) \<Rightarrow> io \<Rightarrow> reply \<Rightarrow>
   ('ev, 'st) report_batch \<Rightarrow> ('ev, 'st, 'h) service \<Rightarrow> 'p \<Rightarrow> bool \<times> ('ev, 'st, 'h) service \<times> 'p" where
  "send_report digest accept io reply batch sv panel =
     (let (saved, sv1) = persist_batch digest io (sv_retry sv) sv in
      if \<not> saved then (False, sv1, panel)
      else (reply = Confirmed, sv1,
            if reply = NotSent then panel
            else accept panel (rp_id (rb_payload batch)) (payload_pend (rb_payload batch))))"

definition remember_failed_report ::
  "(string \<Rightarrow> 'ev batch option \<Rightarrow> pend \<Rightarrow> 'h) \<Rightarrow> io \<Rightarrow> ('ev, 'st) report_batch \<Rightarrow>
   ('ev, 'st, 'h) service \<Rightarrow> ('ev, 'st, 'h) service" where
  "remember_failed_report digest io batch sv =
     snd (persist_batch digest io (Some batch) (sv\<lparr>sv_retry := Some batch\<rparr>))"

definition forget_completed_report ::
  "(string \<Rightarrow> 'ev batch option \<Rightarrow> pend \<Rightarrow> 'h) \<Rightarrow> io \<Rightarrow> ('ev, 'st) report_batch \<Rightarrow>
   ('ev, 'st, 'h) service \<Rightarrow> ('ev, 'st, 'h) service" where
  "forget_completed_report digest io batch sv =
     (if map_option (\<lambda>b. rp_id (rb_payload b)) (sv_retry sv) = Some (rp_id (rb_payload batch))
      then let (ok, sv1) = persist_batch digest io None sv in
        if ok then sv1\<lparr>sv_retry := None\<rparr> else sv1
      else sv)"

text \<open>One sample. An absent relay, alive or connection snapshot is a kernel without that ability or
  whose call failed; \<open>sm_retire\<close> is the kernel's \<open>RetireTraffic\<close> where it has one.\<close>

record sample =
  sm_users :: "int traffic_map"
  sm_alive :: "(int, string list) go_map"
  sm_conns :: int
  sm_now :: int
  sm_relay :: "(int traffic_map \<times> (int, int) traffic_map2 option) option"
  sm_relay_alive :: "(int, (int, string list) go_map) go_map option"
  sm_counts :: "((int, int) go_map \<times> (int, (int, int) go_map) go_map) option"
  sm_retire :: "(traffic_counters \<Rightarrow> traffic_counters) option"

definition track_relay_traffic :: "(int traffic_map \<times> (int, int) traffic_map2 option) option \<Rightarrow> tracker \<Rightarrow> tracker" where
  "track_relay_traffic relay t =
     (case relay of
        None \<Rightarrow> t
      | Some (nodes, users) \<Rightarrow>
          let t1 = process_relay nodes t in (case users of None \<Rightarrow> t1 | Some u \<Rightarrow> process_relay_user u t1))"

definition sample_tracker :: "sample \<Rightarrow> tracker \<Rightarrow> tracker" where
  "sample_tracker sm t =
     (let t1 = process_traffic (sm_users sm) (sm_alive sm) (sm_conns sm) (sm_now sm) t;
          t2 = track_relay_traffic (sm_relay sm) t1;
          t3 = (case sm_relay_alive sm of None \<Rightarrow> t2 | Some a \<Rightarrow> process_relay_alive a t2) in
      (case sm_counts sm of None \<Rightarrow> t3 | Some (u, r) \<Rightarrow> process_connection_counts u r t3))"

definition collect_traffic ::
  "(string \<Rightarrow> 'ev batch option \<Rightarrow> pend \<Rightarrow> 'h) \<Rightarrow> io \<Rightarrow> sample \<Rightarrow>
   ('ev, 'st, 'h) service \<Rightarrow> ('ev, 'st, 'h) service" where
  "collect_traffic digest io sm sv =
     (let sv1 = sv\<lparr>sv_tracker := sample_tracker sm (sv_tracker sv)\<rparr>;
          (ok, sv2) = persist_batch digest io (sv_retry sv1) sv1 in
      if ok \<and> sv_retry sv2 = None
      then (case sm_retire sm of
              None \<Rightarrow> sv2
            | Some retire \<Rightarrow> sv2\<lparr>sv_tracker := retire_confirmed retire (sv_tracker sv2)\<rparr>)
      else sv2)"

section \<open>Runs\<close>

datatype ('ev, 'st) event =
    Sample sample io
  | PushTake io "'ev list" 'st
  | PushSend io reply
  | PushFinish io

definition pipeline_step ::
  "(string \<Rightarrow> 'ev batch option \<Rightarrow> pend \<Rightarrow> 'h) \<Rightarrow> (string \<Rightarrow> string) \<Rightarrow> string \<Rightarrow>
   ('p \<Rightarrow> string \<Rightarrow> pend \<Rightarrow> 'p) \<Rightarrow> ('ev, 'st) event \<Rightarrow>
   ('ev, 'st, 'h) service \<times> 'p \<Rightarrow> ('ev, 'st, 'h) service \<times> 'p" where
  "pipeline_step digest public_address boot accept e s =
     (let (sv, panel) = s in
      case e of
        Sample sm io \<Rightarrow> (collect_traffic digest io sm sv, panel)
      | PushTake io events status \<Rightarrow>
          if sv_active sv then (sv, panel)
          else ((take_report_batch digest public_address boot io events status sv)\<lparr>sv_active := True, sv_result := None\<rparr>, panel)
      | PushSend io reply \<Rightarrow>
          if sv_active sv \<and> sv_result sv = None
          then (case sv_retry sv of
                  None \<Rightarrow> (sv, panel)
                | Some b \<Rightarrow> let (ok, sv1, panel1) = send_report digest accept io reply b sv panel in
                    (sv1\<lparr>sv_result := Some ok\<rparr>, panel1))
          else (sv, panel)
      | PushFinish io \<Rightarrow>
          if \<not> sv_active sv then (sv, panel)
          else (case (sv_result sv, sv_retry sv) of
                  (Some ok, Some b) \<Rightarrow>
                    ((if ok then forget_completed_report digest io b sv
                      else remember_failed_report digest io b sv)\<lparr>sv_active := False, sv_result := None\<rparr>, panel)
                | _ \<Rightarrow> (sv, panel)))"

section \<open>The ledger\<close>

datatype account = User int | RelayNode int | RelayUser int int

fun worth :: "pend \<Rightarrow> account \<Rightarrow> traffic" where
  "worth p (User uid) = amount (pd_traffic p) uid"
| "worth p (RelayNode node) = amount (pd_relay p) node"
| "worth p (RelayUser uid node) = amount2 (pd_relay_user p) (uid, node)"

text \<open>What the code relies on at the panel: a report number is billed once, whoever resends it.\<close>

definition panel_dedupes ::
  "('p \<Rightarrow> string \<Rightarrow> bool) \<Rightarrow> ('p \<Rightarrow> account \<Rightarrow> traffic) \<Rightarrow> ('p \<Rightarrow> string \<Rightarrow> pend \<Rightarrow> 'p) \<Rightarrow> bool" where
  "panel_dedupes seen billed accept \<longleftrightarrow>
     (\<forall>p i v. (\<forall>j. seen (accept p i v) j \<longleftrightarrow> j = i \<or> seen p j) \<and>
        (\<forall>a. billed (accept p i v) a = (if seen p i then billed p a else billed p a + worth v a)))"

definition unbilled :: "('p \<Rightarrow> string \<Rightarrow> bool) \<Rightarrow> 'p \<Rightarrow> ('ev, 'st) report_batch option \<Rightarrow> account \<Rightarrow> traffic" where
  "unbilled seen panel retry a =
     (case retry of
        None \<Rightarrow> 0
      | Some b \<Rightarrow> if seen panel (rp_id (rb_payload b)) then 0 else worth (payload_pend (rb_payload b)) a)"

definition ledger ::
  "('p \<Rightarrow> string \<Rightarrow> bool) \<Rightarrow> ('p \<Rightarrow> account \<Rightarrow> traffic) \<Rightarrow> ('ev, 'st, 'h) service \<times> 'p \<Rightarrow> account \<Rightarrow> traffic" where
  "ledger seen billed s a =
     billed (snd s) a + unbilled seen (snd s) (sv_retry (fst s)) a + worth (tracker_pend (sv_tracker (fst s))) a"

section \<open>Frames\<close>

lemma persist_frame [simp]:
  "sv_tracker (snd (persist_batch digest io b sv)) = sv_tracker sv"
  "sv_retry (snd (persist_batch digest io b sv)) = sv_retry sv"
  "sv_seq (snd (persist_batch digest io b sv)) = sv_seq sv"
  "sv_boot (snd (persist_batch digest io b sv)) = sv_boot sv"
  "sv_active (snd (persist_batch digest io b sv)) = sv_active sv"
  "sv_result (snd (persist_batch digest io b sv)) = sv_result sv"
  by (auto simp: persist_batch_def Let_def split: option.split prod.split)

lemma persist_frame_eq:
  assumes "persist_batch digest io b sv = (ok, sv')"
  shows "sv_tracker sv' = sv_tracker sv" "sv_retry sv' = sv_retry sv" "sv_seq sv' = sv_seq sv"
    "sv_boot sv' = sv_boot sv" "sv_active sv' = sv_active sv" "sv_result sv' = sv_result sv"
  using persist_frame [of digest io b sv] assms by simp_all

lemma relay_nodes_frame [simp]: "pending_traffic (process_relay_nodes cum t) = pending_traffic t"
  by (induction cum t rule: process_relay_nodes.induct) (simp_all add: Let_def)

lemma relay_user_nodes_frame [simp]: "pending_traffic (process_relay_user_nodes uid cum t) = pending_traffic t"
  by (induction uid cum t rule: process_relay_user_nodes.induct) (simp_all add: Let_def)

lemma relay_user_all_frame [simp]: "pending_traffic (process_relay_user_all cum t) = pending_traffic t"
  by (induction cum t rule: process_relay_user_all.induct) simp_all

lemma sample_pending_traffic:
  "pending_traffic (sample_tracker sm t) =
   pending_traffic (process_traffic (sm_users sm) (sm_alive sm) (sm_conns sm) (sm_now sm) t)"
  by (auto simp: sample_tracker_def track_relay_traffic_def process_relay_def process_relay_user_def
      process_relay_alive_def process_connection_counts_def Let_def split: option.split)

lemma sample_tracker_good: "tracker_good t \<Longrightarrow> tracker_good (sample_tracker sm t)"
proof -
  assume "tracker_good t"
  then have 1: "tracker_good (process_traffic (sm_users sm) (sm_alive sm) (sm_conns sm) (sm_now sm) t)" (is "tracker_good ?t1")
    by (rule process_traffic_good)
  have step: "tracker_good (tracker_step e s)" if "tracker_good s" for e s
    using that by (rule tracker_run.step_inv)
  have 2: "tracker_good (track_relay_traffic (sm_relay sm) ?t1)" (is "tracker_good ?t2")
    using 1 step [of _ "OpRelay _"] step [of _ "OpRelayUser _"]
    by (auto simp: track_relay_traffic_def Let_def split: option.split)
  show ?thesis
    using 2 step [of _ "OpRelayAlive _"] step [of _ "OpConnections _ _"]
    by (auto simp: sample_tracker_def Let_def split: option.split)
qed

section \<open>Every operation keeps the ledger\<close>

lemma worth_tracker_pend:
  "tracker_good t \<Longrightarrow> worth (tracker_pend t) a =
     (case a of User uid \<Rightarrow> amount (pending_traffic t) uid
      | RelayNode node \<Rightarrow> amount (pending_relay t) node
      | RelayUser uid node \<Rightarrow> amount2 (pending_relay_user t) (uid, node))"
proof -
  assume "tracker_good t"
  then have "distinct_keys (pending_relay_user t)" by (simp add: tracker_good_def distinct_keys2_def)
  then show ?thesis
    by (cases a) (simp_all add: tracker_pend_def pending_snapshot_def amount2_def inner_filter_nonempty)
qed

lemma tracker_pend_retire [simp]: "tracker_pend (retire_confirmed f t) = tracker_pend t"
  by (simp add: tracker_pend_def pending_snapshot_def retire_confirmed_def Let_def)

lemma report_id_inj: "report_id boot m = report_id boot n \<longleftrightarrow> m = n"
  by (simp add: report_id_def) (metis digits_value_itoa_nat)

definition pipe_good ::
  "('p \<Rightarrow> string \<Rightarrow> bool) \<Rightarrow> string \<Rightarrow> ('ev, 'st, 'h) service \<times> 'p \<Rightarrow> bool" where
  "pipe_good seen boot s \<longleftrightarrow>
     (let (sv, panel) = s in
      boot \<noteq> [] \<and> tracker_good (sv_tracker sv) \<and> (sv_boot sv = [] \<or> sv_boot sv = boot) \<and>
      (\<forall>k > sv_seq sv. \<not> seen panel (report_id boot k)) \<and>
      (\<forall>b. sv_retry sv = Some b \<longrightarrow> (\<forall>k > sv_seq sv. rp_id (rb_payload b) \<noteq> report_id boot k)) \<and>
      (sv_active sv \<longrightarrow> sv_result sv = Some True \<longrightarrow>
         (\<forall>b. sv_retry sv = Some b \<longrightarrow> seen panel (rp_id (rb_payload b)))))"

lemma collect_frame:
  "sv_retry (collect_traffic digest io sm sv) = sv_retry sv"
  "sv_seq (collect_traffic digest io sm sv) = sv_seq sv"
  "sv_boot (collect_traffic digest io sm sv) = sv_boot sv"
  "sv_active (collect_traffic digest io sm sv) = sv_active sv"
  "sv_result (collect_traffic digest io sm sv) = sv_result sv"
  "tracker_pend (sv_tracker (collect_traffic digest io sm sv)) = tracker_pend (sample_tracker sm (sv_tracker sv))"
  by (auto simp: collect_traffic_def Let_def persist_frame_eq split: option.split prod.split)

lemma collect_good: "tracker_good (sv_tracker sv) \<Longrightarrow> tracker_good (sv_tracker (collect_traffic digest io sm sv))"
  using tracker_run.step_inv [of _ "OpRetire _"]
  by (auto simp: collect_traffic_def Let_def persist_frame_eq sample_tracker_good split: option.split prod.split)

lemma take_new:
  fixes sv :: "('ev, 'st, 'h) service"
  assumes "sv_retry sv = None" and "tracker_good (sv_tracker sv)" and "sv_boot sv = [] \<or> sv_boot sv = boot"
    and "boot \<noteq> []" and sv'_def: "sv' = take_report_batch digest public_address boot io events status sv"
  shows "\<exists>b. sv_retry sv' = Some b \<and> rp_id (rb_payload b) = report_id boot (Suc (sv_seq sv)) \<and>
      (\<forall>a. worth (payload_pend (rb_payload b)) a = worth (tracker_pend (sv_tracker sv)) a) \<and>
      (\<forall>a. worth (tracker_pend (sv_tracker sv')) a = 0) \<and> tracker_good (sv_tracker sv') \<and>
      sv_seq sv' = Suc (sv_seq sv) \<and> sv_boot sv' = boot \<and> sv_active sv' = sv_active sv \<and> sv_result sv' = sv_result sv"
proof -
  let ?t = "snd (flush_relay_user (snd (flush_relay (snd (flush_traffic (sv_tracker sv))))))"
  have keys: "distinct_keys (pending_relay_user (sv_tracker sv))"
    using assms(2) by (simp add: tracker_good_def distinct_keys2_def)
  have good: "tracker_good ?t"
    using assms(2) user_buffer.drain_good relay_buffer.drain_good relay_user_buffer.drain_good by blast
  have boot: "(if sv_boot sv = [] then boot else sv_boot sv) = boot" using assms(3) by auto
  have zero: "worth (tracker_pend ?t) a = 0" for a
    by (cases a) (simp_all add: tracker_pend_def pending_snapshot_def flush_traffic_def flush_relay_def flush_relay_user_def)
  have cloned: "worth \<lparr>pd_traffic = pending_traffic (sv_tracker sv), pd_relay = pending_relay (sv_tracker sv),
      pd_relay_user = clone_relay_user (pending_relay_user (sv_tracker sv))\<rparr> a = worth (tracker_pend (sv_tracker sv)) a" for a
    by (cases a) (simp_all add: tracker_pend_def pending_snapshot_def clone_relay_user_def)
  let ?b = "\<lparr>rb_payload = \<lparr>rp_id = report_id boot (Suc (sv_seq sv)), rp_traffic = pending_traffic (sv_tracker sv),
      rp_relay = pending_relay (sv_tracker sv), rp_relay_user = clone_relay_user (pending_relay_user (sv_tracker sv)),
      rp_relay_user_alive = relay_user_alive ?t, rp_alive = flush_alive_ips public_address ?t,
      rp_online = current_online ?t, rp_connections = fst (current_connection_counts ?t),
      rp_relay_connections = snd (current_connection_counts ?t), rp_events = events, rp_status = Some status\<rparr>,
    rb_restored = False\<rparr>"
  let ?sv = "sv\<lparr>sv_tracker := ?t, sv_seq := Suc (sv_seq sv), sv_boot := boot, sv_retry := Some ?b\<rparr>"
  have fst_simps: "fst (flush_traffic (sv_tracker sv)) = pending_traffic (sv_tracker sv)"
    "fst (flush_relay (snd (flush_traffic (sv_tracker sv)))) = pending_relay (sv_tracker sv)"
    "fst (flush_relay_user (snd (flush_relay (snd (flush_traffic (sv_tracker sv)))))) = pending_relay_user (sv_tracker sv)"
    by (simp_all add: flush_traffic_def flush_relay_def flush_relay_user_def)
  have eq: "sv' = snd (persist_batch digest io (Some ?b) ?sv)"
    by (simp only: sv'_def take_report_batch_def assms(1) option.case Let_def split_def next_report_id_def fst_simps
        fst_conv snd_conv)
      (cases "sv_boot sv = []"; use assms(3) in simp)
  have pend: "payload_pend (rb_payload ?b) = \<lparr>pd_traffic = pending_traffic (sv_tracker sv),
      pd_relay = pending_relay (sv_tracker sv), pd_relay_user = clone_relay_user (pending_relay_user (sv_tracker sv))\<rparr>"
    by (simp add: payload_pend_def)
  show ?thesis
    unfolding eq
    by (rule exI [of _ ?b]) (use good cloned [folded pend] zero in simp)
qed

lemma pipe_goodI:
  "boot \<noteq> [] \<Longrightarrow> tracker_good (sv_tracker sv) \<Longrightarrow> sv_boot sv = [] \<or> sv_boot sv = boot \<Longrightarrow>
   (\<And>k. sv_seq sv < k \<Longrightarrow> \<not> seen panel (report_id boot k)) \<Longrightarrow>
   (\<And>b k. sv_retry sv = Some b \<Longrightarrow> sv_seq sv < k \<Longrightarrow> rp_id (rb_payload b) \<noteq> report_id boot k) \<Longrightarrow>
   (\<And>b. sv_active sv \<Longrightarrow> sv_result sv = Some True \<Longrightarrow> sv_retry sv = Some b \<Longrightarrow> seen panel (rp_id (rb_payload b))) \<Longrightarrow>
   pipe_good seen boot (sv, panel)"
  by (auto simp: pipe_good_def)

lemma pipe_goodD:
  assumes "pipe_good seen boot (sv, panel)"
  shows "boot \<noteq> []" "tracker_good (sv_tracker sv)" "sv_boot sv = [] \<or> sv_boot sv = boot"
    "sv_seq sv < k \<Longrightarrow> \<not> seen panel (report_id boot k)"
    "sv_retry sv = Some b \<Longrightarrow> sv_seq sv < k \<Longrightarrow> rp_id (rb_payload b) \<noteq> report_id boot k"
    "sv_active sv \<Longrightarrow> sv_result sv = Some True \<Longrightarrow> sv_retry sv = Some b \<Longrightarrow> seen panel (rp_id (rb_payload b))"
  using assms by (auto simp: pipe_good_def)

definition event_gain :: "('ev, 'st) event \<Rightarrow> tracker \<Rightarrow> account \<Rightarrow> traffic" where
  "event_gain e t a =
     (case e of Sample sm io \<Rightarrow> worth (tracker_pend (sample_tracker sm t)) a - worth (tracker_pend t) a | _ \<Rightarrow> 0)"

lemma unbilled_restored_flag [simp]:
  "unbilled seen panel (Some (b\<lparr>rb_payload := (rb_payload b)\<lparr>rp_status := x\<rparr>, rb_restored := f\<rparr>)) a =
   unbilled seen panel (Some b) a"
  by (simp add: unbilled_def payload_pend_def)

lemma take_step:
  assumes good: "pipe_good seen boot (sv, panel)" and idle: "\<not> sv_active sv"
    and s'_def: "s' = pipeline_step digest public_address boot accept (PushTake io events status) (sv, panel)"
  shows "pipe_good seen boot s' \<and> ledger seen billed s' a = ledger seen billed (sv, panel) a"
proof (cases "sv_retry sv")
  case None
  define sv' where "sv' = take_report_batch digest public_address boot io events status sv"
  have s': "s' = (sv'\<lparr>sv_active := True, sv_result := None\<rparr>, panel)"
    using idle by (simp add: s'_def pipeline_step_def sv'_def)
  obtain b where b: "sv_retry sv' = Some b" "rp_id (rb_payload b) = report_id boot (Suc (sv_seq sv))"
      "\<And>a. worth (payload_pend (rb_payload b)) a = worth (tracker_pend (sv_tracker sv)) a"
      "\<And>a. worth (tracker_pend (sv_tracker sv')) a = 0" "tracker_good (sv_tracker sv')"
      "sv_seq sv' = Suc (sv_seq sv)" "sv_boot sv' = boot"
    using take_new [OF None pipe_goodD(2,3,1) [OF good] sv'_def] by blast
  have "pipe_good seen boot s'"
    unfolding s' using b pipe_goodD(1,4) [OF good]
    by (intro pipe_goodI) (auto simp: report_id_inj)
  moreover have "ledger seen billed s' a = ledger seen billed (sv, panel) a"
    using b None pipe_goodD(4) [OF good, of "Suc (sv_seq sv)"]
    by (simp add: s' ledger_def unbilled_def)
  ultimately show ?thesis ..
next
  case (Some b)
  then show ?thesis
    using idle good
    by (auto simp: s'_def pipeline_step_def take_report_batch_def ledger_def pipe_good_def)
qed

lemma send_step:
  assumes good: "pipe_good seen boot (sv, panel)" and panel: "panel_dedupes seen billed accept"
    and s'_def: "s' = pipeline_step digest public_address boot accept (PushSend io reply) (sv, panel)"
  shows "pipe_good seen boot s' \<and> ledger seen billed s' a = ledger seen billed (sv, panel) a"
proof (cases "sv_active sv \<and> sv_result sv = None \<and> sv_retry sv \<noteq> None")
  case True
  then obtain b where b: "sv_retry sv = Some b" by blast
  obtain saved sv1 where persist: "persist_batch digest io (Some b) sv = (saved, sv1)" by fastforce
  note frame = persist_frame_eq [OF persist]
  let ?panel = "if \<not> saved \<or> reply = NotSent then panel
    else accept panel (rp_id (rb_payload b)) (payload_pend (rb_payload b))"
  have s': "s' = (sv1\<lparr>sv_result := Some (saved \<and> reply = Confirmed)\<rparr>, ?panel)"
    using True b persist by (auto simp: s'_def pipeline_step_def send_report_def Let_def)
  have seen: "seen ?panel j \<longleftrightarrow> seen panel j \<or> (saved \<and> reply \<noteq> NotSent \<and> j = rp_id (rb_payload b))" for j
    using panel by (auto simp: panel_dedupes_def)
  have billed: "billed ?panel a + unbilled seen ?panel (Some b) a = billed panel a + unbilled seen panel (Some b) a"
    using panel by (auto simp: panel_dedupes_def unbilled_def)
  have "pipe_good seen boot s'"
    unfolding s'
  proof (intro pipe_goodI)
    show "\<not> seen ?panel (report_id boot k)" if "sv_seq (sv1\<lparr>sv_result := Some (saved \<and> reply = Confirmed)\<rparr>) < k" for k
      using that pipe_goodD(4) [OF good, of k] pipe_goodD(5) [OF good b, of k] frame unfolding seen by auto
    show "seen ?panel (rp_id (rb_payload c))"
      if "sv_result (sv1\<lparr>sv_result := Some (saved \<and> reply = Confirmed)\<rparr>) = Some True"
        and "sv_retry (sv1\<lparr>sv_result := Some (saved \<and> reply = Confirmed)\<rparr>) = Some c" for c
      using that b frame unfolding seen by auto
  qed (use pipe_goodD(1,2,3,5) [OF good] b frame in auto)
  moreover have "ledger seen billed s' a = ledger seen billed (sv, panel) a"
    using billed b frame by (simp add: s' ledger_def)
  ultimately show ?thesis ..
next
  case False
  then have "s' = (sv, panel)" by (auto simp: s'_def pipeline_step_def split: option.split)
  then show ?thesis using good by simp
qed

lemma finish_step:
  assumes good: "pipe_good seen boot (sv, panel)"
    and s'_def: "s' = pipeline_step digest public_address boot accept (PushFinish io) (sv, panel)"
  shows "pipe_good seen boot s' \<and> ledger seen billed s' a = ledger seen billed (sv, panel) a"
proof (cases "\<exists>ok b. sv_active sv \<and> sv_result sv = Some ok \<and> sv_retry sv = Some b")
  case True
  then obtain ok b where b: "sv_active sv" "sv_result sv = Some ok" "sv_retry sv = Some b" by blast
  show ?thesis
  proof (cases ok)
    case True
    then have seen: "seen panel (rp_id (rb_payload b))" using pipe_goodD(6) [OF good b(1) _ b(3)] b(2) by simp
    obtain saved sv1 where persist: "persist_batch digest io None sv = (saved, sv1)" by fastforce
    note frame = persist_frame_eq [OF persist]
    have s': "s' = ((if saved then sv1\<lparr>sv_retry := None\<rparr> else sv1)\<lparr>sv_active := False, sv_result := None\<rparr>, panel)"
      using True b persist by (auto simp: s'_def pipeline_step_def forget_completed_report_def Let_def)
    have "pipe_good seen boot s'"
      unfolding s' using pipe_goodD [OF good] frame b by (intro pipe_goodI) (auto split: if_splits)
    moreover have "ledger seen billed s' a = ledger seen billed (sv, panel) a"
      using frame b seen by (simp add: s' ledger_def unbilled_def)
    ultimately show ?thesis ..
  next
    case False
    obtain saved sv1 where persist: "persist_batch digest io (Some b) (sv\<lparr>sv_retry := Some b\<rparr>) = (saved, sv1)"
      by fastforce
    note frame = persist_frame_eq [OF persist]
    have s': "s' = (sv1\<lparr>sv_active := False, sv_result := None\<rparr>, panel)"
      using False b persist by (auto simp: s'_def pipeline_step_def remember_failed_report_def)
    have "pipe_good seen boot s'"
      unfolding s' using pipe_goodD [OF good] frame b by (intro pipe_goodI) auto
    moreover have "ledger seen billed s' a = ledger seen billed (sv, panel) a"
      using frame b by (simp add: s' ledger_def)
    ultimately show ?thesis ..
  qed
next
  case False
  then have "s' = (sv, panel)" by (auto simp: s'_def pipeline_step_def split: option.split)
  then show ?thesis using good by simp
qed

lemma sample_step:
  assumes good: "pipe_good seen boot (sv, panel)"
    and s'_def: "s' = pipeline_step digest public_address boot accept (Sample sm io) (sv, panel)"
  shows "pipe_good seen boot s' \<and>
    ledger seen billed s' a = ledger seen billed (sv, panel) a + event_gain (Sample sm io) (sv_tracker sv) a"
proof -
  have s': "s' = (collect_traffic digest io sm sv, panel)" by (simp add: s'_def pipeline_step_def)
  have "pipe_good seen boot s'"
    unfolding s' using pipe_goodD [OF good] collect_frame [of digest io sm sv] collect_good [of sv digest io sm]
    by (intro pipe_goodI) simp_all
  then show ?thesis by (simp add: s' ledger_def event_gain_def collect_frame)
qed

lemma pipeline_step_ledger:
  assumes "pipe_good seen boot s" and "panel_dedupes seen billed accept"
    and s'_def: "s' = pipeline_step digest public_address boot accept e s"
  shows "pipe_good seen boot s'"
    and "ledger seen billed s' a = ledger seen billed s a + event_gain e (sv_tracker (fst s)) a"
proof -
  obtain sv panel where s: "s = (sv, panel)" by (cases s)
  have "pipe_good seen boot s' \<and> ledger seen billed s' a = ledger seen billed s a + event_gain e (sv_tracker (fst s)) a"
  proof (cases e)
    case (Sample sm io)
    then show ?thesis using sample_step [OF assms(1) [unfolded s] refl] by (simp add: s'_def s)
  next
    case (PushTake io evs st)
    show ?thesis
    proof (cases "sv_active sv")
      case True
      then have "s' = s" by (simp add: s'_def s PushTake pipeline_step_def)
      then show ?thesis using assms(1) by (simp add: PushTake event_gain_def)
    next
      case False
      then show ?thesis
        using take_step [OF assms(1) [unfolded s] False refl] by (simp add: s'_def s PushTake event_gain_def)
    qed
  next
    case (PushSend io reply)
    then show ?thesis using send_step [OF assms(1) [unfolded s] assms(2) refl] by (simp add: s'_def s event_gain_def)
  next
    case (PushFinish io)
    then show ?thesis using finish_step [OF assms(1) [unfolded s] refl] by (simp add: s'_def s event_gain_def)
  qed
  then show "pipe_good seen boot s'"
    and "ledger seen billed s' a = ledger seen billed s a + event_gain e (sv_tracker (fst s)) a" by auto
qed

section \<open>Restart\<close>

definition new_service :: "string \<Rightarrow> int \<Rightarrow> 'ev disk \<Rightarrow> ('ev, 'st, 'h) service" where
  "new_service identity now d =
     \<lparr>sv_tracker = new_tracker now, sv_retry = None, sv_store = Some (new_store identity), sv_disk = d,
      sv_persisted = None, sv_seq = 0, sv_boot = [], sv_active = False, sv_result = None\<rparr>"

lemma new_tracker_good [simp]: "tracker_good (new_tracker now)"
  by (simp add: tracker_good_def new_tracker_def distinct_keys2_def)

lemma new_service_good:
  "boot \<noteq> [] \<Longrightarrow> (\<And>k. \<not> seen panel (report_id boot k)) \<Longrightarrow> pipe_good seen boot (new_service identity now d, panel)"
  by (intro pipe_goodI) (simp_all add: new_service_def)

lemma restore_tracker:
  assumes "pend_ok p"
    and t_def: "t = restore_relay_user (pd_relay_user p) (restore_relay (pd_relay p) (restore_traffic (pd_traffic p) (new_tracker now)))"
  shows "worth (tracker_pend t) a = worth p a"
proof -
  have ok: "distinct_keys (pd_traffic p)" "distinct_keys (pd_relay p)" "distinct_keys2 (pd_relay_user p)"
    using assms(1) by (simp_all add: pend_ok_def)
  have good: "tracker_good t"
    unfolding t_def by (intro relay_user_buffer.refill_good relay_buffer.refill_good user_buffer.refill_good new_tracker_good ok)
  show ?thesis
    unfolding worth_tracker_pend [OF good] using ok
    by (cases a) (simp_all add: t_def restore_traffic_def restore_relay_def restore_relay_user_def new_tracker_def
        amount_add_all amount2_add_all2)
qed

lemma restore_nonempty:
  "(if m \<noteq> [] then restore_relay m t else t) = restore_relay m t"
  "(if n \<noteq> [] then restore_relay_user n t else t) = restore_relay_user n t"
  by (simp_all add: restore_relay_def restore_relay_user_def)

lemma restore_traffic_empty: "worth (tracker_pend (restore_relay_user n (restore_relay m (if p \<noteq> [] then restore_traffic p t else t)))) a =
  worth (tracker_pend (restore_relay_user n (restore_relay m (restore_traffic p t)))) a"
  by (cases a) (simp_all add: tracker_pend_def pending_snapshot_def restore_traffic_def restore_relay_def restore_relay_user_def)

lemma same_pend_worth: "same_pend p q \<Longrightarrow> worth p a = worth q a"
  by (cases a) (simp_all add: same_pend_def)

lemma pend_empty_worth: "pend_empty p \<Longrightarrow> worth p a = 0"
  by (cases a) (simp_all add: pend_empty_def amount2_def)

lemma restored_ledger:
  fixes retry :: "('ev, 'st) report_batch option" and sv :: "('ev, 'st, 'h) service"
  assumes recovers: "recovers identity d (map_option saved_batch retry) pending"
    and id: "\<And>b. retry = Some b \<Longrightarrow> rp_id (rb_payload b) \<noteq> []"
    and sv: "sv = restore_pending_reports digest (new_service identity now d)"
  shows "unbilled seen panel (sv_retry sv) a = unbilled seen panel retry a \<and>
    worth (tracker_pend (sv_tracker sv)) a = worth pending a"
proof -
  obtain b p where load: "fst (load_pending digest (new_store identity) d) = Inr (b, p)"
    and b: "same_batch b (loaded_batch (map_option saved_batch retry))" and p: "same_pend p pending" "pend_ok p"
    using recovers load_identity [of digest identity d "\<lambda>i b p. ()"] by (auto simp: recovers_def)
  obtain st' d' where full: "load_pending digest (new_store identity) d = (Inr (b, p), st', d')"
    using load by (cases "load_pending digest (new_store identity) d") auto
  let ?retry = "map_option (\<lambda>b. \<lparr>rb_payload =
      \<lparr>rp_id = b_id b, rp_traffic = pd_traffic (b_traffic b), rp_relay = pd_relay (b_traffic b),
       rp_relay_user = pd_relay_user (b_traffic b), rp_relay_user_alive = [], rp_alive = [],
       rp_online = [], rp_connections = [], rp_relay_connections = [],
       rp_events = b_events b, rp_status = None\<rparr>, rb_restored = True\<rparr>) b"
  let ?t = "restore_relay_user (pd_relay_user p) (restore_relay (pd_relay p)
      (if pd_traffic p \<noteq> [] then restore_traffic (pd_traffic p) (new_tracker now) else new_tracker now))"
  have sv_eq: "sv_retry sv = ?retry" "sv_tracker sv = ?t"
    by (simp_all add: sv restore_pending_reports_def new_service_def full Let_def restore_nonempty split: option.split)
  have "worth (tracker_pend (sv_tracker sv)) a = worth pending a"
    unfolding sv_eq restore_traffic_empty restore_tracker [OF p(2) refl] by (rule same_pend_worth [OF p(1)])
  moreover have "unbilled seen panel (sv_retry sv) a = unbilled seen panel retry a"
  proof (cases retry)
    case None
    then have "b = None" using b by (simp add: loaded_batch_def same_batch_def split: option.splits)
    then show ?thesis by (simp add: sv_eq None unbilled_def)
  next
    case (Some r)
    show ?thesis
    proof (cases "batch_empty (saved_batch r)")
      case True
      then have "b = None" using b Some by (simp add: loaded_batch_def same_batch_def split: option.splits)
      moreover have "worth (payload_pend (rb_payload r)) a = 0"
        using True by (intro pend_empty_worth) (simp add: batch_empty_def saved_batch_def)
      ultimately show ?thesis by (simp add: sv_eq Some unbilled_def)
    next
      case False
      then have "loaded_batch (map_option saved_batch retry) = Some (saved_batch r)"
        using Some id [OF Some] by (simp add: loaded_batch_def saved_batch_def)
      then obtain c where c: "b = Some c" "b_id c = rp_id (rb_payload r)"
          "same_pend (b_traffic c) (payload_pend (rb_payload r))"
        using b by (auto simp: same_batch_def saved_batch_def split: option.splits)
      obtain x y z where "b_traffic c = \<lparr>pd_traffic = x, pd_relay = y, pd_relay_user = z\<rparr>"
        by (cases "b_traffic c")
      then show ?thesis
        using c(1,2) same_pend_worth [OF c(3), of a] by (simp add: sv_eq Some unbilled_def payload_pend_def)
    qed
  qed
  ultimately show ?thesis by simp
qed

section \<open>Properties\<close>

text \<open>The user bytes the kernel counted during a run.\<close>

fun counted_bytes ::
  "(('ev, 'st) event \<Rightarrow> ('ev, 'st, 'h) service \<times> 'p \<Rightarrow> ('ev, 'st, 'h) service \<times> 'p) \<Rightarrow>
   ('ev, 'st) event list \<Rightarrow> ('ev, 'st, 'h) service \<times> 'p \<Rightarrow> int \<Rightarrow> traffic" where
  "counted_bytes step [] s uid = 0"
| "counted_bytes step (e # es) s uid =
     (case e of Sample sm io \<Rightarrow> gain (sm_users sm) (last_seen (sv_tracker (fst s))) uid | _ \<Rightarrow> 0) +
     counted_bytes step es (step e s) uid"

definition sample_ok :: "('ev, 'st) event \<Rightarrow> bool" where
  "sample_ok e = (case e of Sample sm io \<Rightarrow> distinct_keys (sm_users sm) \<and> nonneg_map (sm_users sm) | _ \<Rightarrow> True)"

lemma event_gain_user:
  "sample_ok e \<Longrightarrow> event_gain e t (User uid) =
     (case e of Sample sm io \<Rightarrow> gain (sm_users sm) (last_seen t) uid | _ \<Rightarrow> 0)"
  by (auto simp: sample_ok_def event_gain_def tracker_pend_def pending_snapshot_def sample_pending_traffic
      process_users_pending split: event.splits)


type_synonym sample_panel = "(string \<times> pend) list"

definition panel_seen :: "sample_panel \<Rightarrow> string \<Rightarrow> bool" where
  "panel_seen p i = has_key p i"

definition panel_billed :: "sample_panel \<Rightarrow> account \<Rightarrow> traffic" where
  "panel_billed p a = (\<Sum>(i, v) \<leftarrow> p. worth v a)"

definition panel_accept :: "sample_panel \<Rightarrow> string \<Rightarrow> pend \<Rightarrow> sample_panel" where
  "panel_accept p i v = (if has_key p i then p else (i, v) # p)"

lemma sample_panel_dedupes: "panel_dedupes panel_seen panel_billed panel_accept"
  by (auto simp: panel_dedupes_def panel_seen_def panel_billed_def panel_accept_def has_key_Cons add.commute)

definition sample_of :: "i64 \<Rightarrow> sample" where
  "sample_of n = \<lparr>sm_users = [(7, Traffic n 5)], sm_alive = [], sm_conns = 0, sm_now = 1, sm_relay = None,
     sm_relay_alive = None, sm_counts = None, sm_retire = None\<rparr>"

definition lossy_run :: "(unit, unit) event list" where
  "lossy_run = [Sample (sample_of 100) all_io, PushTake all_io [] (), PushSend all_io LostReply,
     Sample (sample_of 150) all_io, PushFinish all_io, PushTake all_io [] (), PushSend all_io Confirmed,
     PushFinish all_io]"

definition start_state :: "(unit, unit, string \<times> unit batch option \<times> pend) service \<times> sample_panel" where
  "start_state = (new_service ''n1'' 0 empty_disk, [])"



definition busy_service :: "(unit, unit, string \<times> unit batch option \<times> pend) service" where
  "busy_service = (fst start_state)\<lparr>sv_tracker := (new_tracker 0)\<lparr>pending_traffic := [(7, Traffic 3 4)]\<rparr>\<rparr>"

definition busy_saved :: "bool \<times> (unit, unit, string \<times> unit batch option \<times> pend) service" where
  "busy_saved = persist_batch tuple_digest all_io None busy_service"


end
