(* ===== verification/Limiter.thy ===== *)
theory Limiter
  imports Prelude "HOL-Library.Signed_Division"
begin

text \<open>
  Model of \<open>internal/limiter\<close>: connection, rate and device limits with their rejection statistics
  (\<open>limiter.go\<close>, \<open>connlimiter.go\<close>, \<open>devicelimit.go\<close>), the bandwidth buckets (\<open>speedtracker.go\<close>,
  \<open>speed_events.go\<close>) and the conversion of the statistics into report events
  (\<open>collectLimitEvents\<close> of \<open>internal/service/service.go\<close>).

  The token bucket is \<open>golang.org/x/time/rate\<close>, outside the repository: its operations are the
  fields of \<open>rate_api\<close>, a parameter. A bucket that connections hold by pointer is an index into a
  heap of buckets (\<open>sp_heap\<close>).
\<close>

section \<open>Users and buckets\<close>

record user_spec =
  us_id :: int
  us_uuid :: string
  us_speed :: int
  us_device :: int
  us_conn :: int
  us_rate :: int

record 'b rate_api =
  api_new :: "int \<Rightarrow> int \<Rightarrow> 'b"
  api_set_limit :: "int \<Rightarrow> 'b \<Rightarrow> 'b"
  api_set_burst :: "int \<Rightarrow> 'b \<Rightarrow> 'b"
  api_allow :: "int \<Rightarrow> 'b \<Rightarrow> bool \<times> 'b"
  api_overdrawn :: "int \<Rightarrow> 'b \<Rightarrow> bool"

record limit_spec =
  sp_max_conn :: int
  sp_rate_per_sec :: int

record limit_snapshot =
  ls_occurred :: int
  ls_limit :: int
  ls_observed :: int
  ls_source :: string
  ls_active_ips :: "string list"
  ls_active_total :: int
  ls_active_known :: bool

record limit_stat =
  speed_hits :: u64
  speed_limit :: int
  speed_first :: int
  speed_last :: int
  conn_hits :: u64
  rate_hits :: u64
  conn_limit :: int
  rate_limit :: int
  peak_conn :: int
  device_hits :: u64
  device_limit :: int
  peak_devices :: int
  device_ips :: "string list"
  conn_snapshot :: "limit_snapshot option"
  rate_snapshot :: "limit_snapshot option"
  device_snapshot :: "limit_snapshot option"

definition empty_stat :: limit_stat where
  "empty_stat = \<lparr>speed_hits = 0, speed_limit = 0, speed_first = 0, speed_last = 0, conn_hits = 0,
     rate_hits = 0, conn_limit = 0, rate_limit = 0, peak_conn = 0, device_hits = 0, device_limit = 0,
     peak_devices = 0, device_ips = [], conn_snapshot = None, rate_snapshot = None, device_snapshot = None\<rparr>"

record 'b limiter =
  l_users :: "(int, user_spec) go_map"
  l_uuid_device :: "(string, int) go_map"
  l_conn_limits :: "(int, limit_spec) go_map"
  l_rate_buckets :: "(int, 'b) go_map"
  l_has_conn_limits :: bool
  l_events :: "(int, limit_stat) go_map"
  l_device_count :: u64
  l_conn_count :: u64

definition new_limiter :: "'b limiter" where
  "new_limiter = \<lparr>l_users = [], l_uuid_device = [], l_conn_limits = [], l_rate_buckets = [],
     l_has_conn_limits = False, l_events = [], l_device_count = 0, l_conn_count = 0\<rparr>"

section \<open>User list\<close>

fun users_by_id :: "user_spec list \<Rightarrow> (int, user_spec) go_map \<Rightarrow> (int, user_spec) go_map" where
  "users_by_id [] m = m"
| "users_by_id (u # us) m = users_by_id us (AList.update (us_id u) u m)"

fun device_index :: "(int, user_spec) go_map \<Rightarrow> (string, int) go_map \<Rightarrow> (string, int) go_map" where
  "device_index [] idx = idx"
| "device_index ((uid, u) # us) idx =
     device_index us (if us_device u > 0 then AList.update (us_uuid u) (us_device u) idx else idx)"

text \<open>The loop of \<open>rebuildConnLimitsLocked\<close>: an existing bucket is adjusted in place.\<close>

fun rebuild_loop ::
  "'b rate_api \<Rightarrow> (int, 'b) go_map \<Rightarrow> (int, user_spec) go_map \<Rightarrow>
   (int, limit_spec) go_map \<times> (int, 'b) go_map \<Rightarrow> (int, limit_spec) go_map \<times> (int, 'b) go_map" where
  "rebuild_loop api old [] acc = acc"
| "rebuild_loop api old ((uid, u) # us) (limits, buckets) =
     (let spec = \<lparr>sp_max_conn = us_conn u, sp_rate_per_sec = us_rate u\<rparr> in
      if sp_max_conn spec \<le> 0 \<and> sp_rate_per_sec spec \<le> 0 then rebuild_loop api old us (limits, buckets)
      else let limits1 = AList.update uid spec limits in
        if sp_rate_per_sec spec \<le> 0 then rebuild_loop api old us (limits1, buckets)
        else let burst = sp_rate_per_sec spec;
                 bucket = (case map_of old uid of
                     Some b \<Rightarrow> api_set_burst api burst (api_set_limit api (sp_rate_per_sec spec) b)
                   | None \<Rightarrow> api_new api (sp_rate_per_sec spec) burst) in
          rebuild_loop api old us (limits1, AList.update uid bucket buckets))"

definition rebuild_conn_limits :: "'b rate_api \<Rightarrow> (int, user_spec) go_map \<Rightarrow> 'b limiter \<Rightarrow> 'b limiter" where
  "rebuild_conn_limits api users l =
     (let (limits, buckets) = rebuild_loop api (l_rate_buckets l) users ([], []) in
      l\<lparr>l_conn_limits := limits, l_rate_buckets := buckets, l_has_conn_limits := (limits \<noteq> []),
        l_events := keep_keys (has_key users) (l_events l)\<rparr>)"

definition update_users :: "'b rate_api \<Rightarrow> user_spec list \<Rightarrow> 'b limiter \<Rightarrow> int list \<times> 'b limiter" where
  "update_users api users l =
     (let new_users = users_by_id users [];
          removed = map fst (filter (\<lambda>e. \<not> has_key new_users (fst e)) (l_users l)) in
      (removed,
       rebuild_conn_limits api new_users
         (l\<lparr>l_users := new_users, l_uuid_device := device_index new_users []\<rparr>)))"

section \<open>Admission\<close>

definition device_limit_by_uuid :: "string \<Rightarrow> 'b limiter \<Rightarrow> int option" where
  "device_limit_by_uuid uuid l = map_of (l_uuid_device l) uuid"

definition max_conn_by_user_id :: "int \<Rightarrow> 'b limiter \<Rightarrow> int option" where
  "max_conn_by_user_id uid l =
     (if \<not> l_has_conn_limits l then None
      else case map_of (l_conn_limits l) uid of
        None \<Rightarrow> None
      | Some spec \<Rightarrow> if sp_max_conn spec \<le> 0 then None else Some (sp_max_conn spec))"

definition allow_new_conn :: "'b rate_api \<Rightarrow> int \<Rightarrow> int \<Rightarrow> 'b limiter \<Rightarrow> bool \<times> 'b limiter" where
  "allow_new_conn api now uid l =
     (if \<not> l_has_conn_limits l then (True, l)
      else case map_of (l_rate_buckets l) uid of
        None \<Rightarrow> (True, l)
      | Some b \<Rightarrow> let (ok, b') = api_allow api now b in
          (ok, l\<lparr>l_rate_buckets := AList.update uid b' (l_rate_buckets l)\<rparr>))"

section \<open>Rejection statistics\<close>

definition kind_concurrent :: string where "kind_concurrent = ''conn''"
definition kind_rate :: string where "kind_rate = ''rate''"
definition kind_device :: string where "kind_device = ''device''"

lemmas kinds = kind_concurrent_def kind_rate_def kind_device_def

definition max_device_event_ips :: nat where
  "max_device_event_ips = 5"

text \<open>The limit that goes into the record when the kernel passes none.\<close>

definition filled_limit :: "string \<Rightarrow> int \<Rightarrow> int \<Rightarrow> user_spec \<Rightarrow> 'b limiter \<Rightarrow> int" where
  "filled_limit kind limit uid user l =
     (if limit > 0 then limit
      else let limit1 = (if kind = kind_device then us_device user else limit) in
        case map_of (l_conn_limits l) uid of
          None \<Rightarrow> limit1
        | Some spec \<Rightarrow>
            if kind = kind_concurrent then sp_max_conn spec
            else if kind = kind_rate then sp_rate_per_sec spec
            else limit1)"

definition first_snapshot ::
  "limit_snapshot option \<Rightarrow> int \<Rightarrow> int \<Rightarrow> limit_snapshot option \<Rightarrow> limit_snapshot option" where
  "first_snapshot captured limit observed current =
     (if current = None then map_option (\<lambda>v. v\<lparr>ls_limit := limit, ls_observed := observed\<rparr>) captured
      else current)"

definition record_limited ::
  "string \<Rightarrow> int \<Rightarrow> int \<Rightarrow> string \<Rightarrow> limit_snapshot option \<Rightarrow> limit_stat \<Rightarrow> limit_stat" where
  "record_limited kind limit observed source_ip captured stat =
     (if kind = kind_concurrent then
        stat\<lparr>conn_hits := conn_hits stat + 1, conn_limit := limit,
          peak_conn := (if observed > peak_conn stat then observed else peak_conn stat),
          conn_snapshot := first_snapshot captured limit observed (conn_snapshot stat)\<rparr>
      else if kind = kind_rate then
        stat\<lparr>rate_hits := rate_hits stat + 1, rate_limit := limit,
          rate_snapshot := first_snapshot captured limit observed (rate_snapshot stat)\<rparr>
      else
        stat\<lparr>device_hits := device_hits stat + 1, device_limit := limit,
          peak_devices := (if observed > peak_devices stat then observed else peak_devices stat),
          device_ips :=
            (if source_ip \<noteq> [] \<and> length (device_ips stat) < max_device_event_ips
                \<and> source_ip \<notin> set (device_ips stat)
             then device_ips stat @ [source_ip] else device_ips stat),
          device_snapshot := first_snapshot captured limit observed (device_snapshot stat)\<rparr>)"

text \<open>\<open>captured\<close> is the result of the \<open>build\<close> callback, \<open>None\<close> without one.\<close>

definition report_limited_snapshot ::
  "int \<Rightarrow> string \<Rightarrow> int \<Rightarrow> int \<Rightarrow> string \<Rightarrow> limit_snapshot option \<Rightarrow> 'b limiter \<Rightarrow> 'b limiter" where
  "report_limited_snapshot uid kind limit observed source_ip captured l =
     (if kind \<noteq> kind_concurrent \<and> kind \<noteq> kind_rate \<and> kind \<noteq> kind_device then l
      else case map_of (l_users l) uid of
        None \<Rightarrow> l
      | Some user \<Rightarrow>
          let limit1 = filled_limit kind limit uid user l;
              stat = record_limited kind limit1 observed source_ip captured (get_or empty_stat (l_events l) uid);
              l1 = l\<lparr>l_events := AList.update uid stat (l_events l)\<rparr> in
          if kind = kind_device then l1\<lparr>l_device_count := l_device_count l1 + 1\<rparr>
          else l1\<lparr>l_conn_count := l_conn_count l1 + 1\<rparr>)"

definition report_limited :: "int \<Rightarrow> string \<Rightarrow> int \<Rightarrow> int \<Rightarrow> 'b limiter \<Rightarrow> 'b limiter" where
  "report_limited uid kind limit observed l = report_limited_snapshot uid kind limit observed [] None l"

definition report_device_limited :: "int \<Rightarrow> int \<Rightarrow> int \<Rightarrow> string \<Rightarrow> 'b limiter \<Rightarrow> 'b limiter" where
  "report_device_limited uid limit observed source_ip l =
     report_limited_snapshot uid kind_device limit observed source_ip None l"

definition snapshot_limit_events :: "'b limiter \<Rightarrow> (int, limit_stat) go_map \<times> 'b limiter" where
  "snapshot_limit_events l = (l_events l, l\<lparr>l_events := []\<rparr>)"

section \<open>Report events\<close>

record limit_event =
  le_occurred :: int
  le_last :: int
  le_user :: int
  le_kind :: string
  le_limit :: int
  le_observed :: int
  le_count :: u64
  le_ips :: "string list"
  le_snapshot :: "limit_snapshot option"

definition empty_event :: "int \<Rightarrow> string \<Rightarrow> limit_event" where
  "empty_event uid kind = \<lparr>le_occurred = 0, le_last = 0, le_user = uid, le_kind = kind, le_limit = 0,
     le_observed = 0, le_count = 0, le_ips = [], le_snapshot = None\<rparr>"

definition stat_events :: "int \<times> limit_stat \<Rightarrow> limit_event list" where
  "stat_events e = (let (uid, stat) = e in
     (if 0 < speed_hits stat
      then [(empty_event uid ''speed'')\<lparr>le_limit := speed_limit stat, le_count := speed_hits stat,
              le_occurred := speed_first stat, le_last := speed_last stat\<rparr>] else []) @
     (if 0 < conn_hits stat
      then [(empty_event uid kind_concurrent)\<lparr>le_limit := conn_limit stat, le_observed := peak_conn stat,
              le_count := conn_hits stat, le_snapshot := conn_snapshot stat\<rparr>] else []) @
     (if 0 < rate_hits stat
      then [(empty_event uid kind_rate)\<lparr>le_limit := rate_limit stat, le_count := rate_hits stat,
              le_snapshot := rate_snapshot stat\<rparr>] else []) @
     (if 0 < device_hits stat
      then [(empty_event uid kind_device)\<lparr>le_limit := device_limit stat, le_observed := peak_devices stat,
              le_count := device_hits stat, le_ips := device_ips stat, le_snapshot := device_snapshot stat\<rparr>] else []))"

text \<open>Strings compare bytewise in Go; the four kinds start with different letters.\<close>

definition kind_rank :: "string \<Rightarrow> nat" where
  "kind_rank kind = (case kind of [] \<Rightarrow> 0 | c # s \<Rightarrow> of_char c)"

definition collect_limit_events :: "'b limiter \<Rightarrow> limit_event list \<times> 'b limiter" where
  "collect_limit_events l =
     (let (stats, l1) = snapshot_limit_events l in
      (sort_key le_user (sort_key (\<lambda>e. kind_rank (le_kind e)) (concat (map stat_events stats))), l1))"

section \<open>Bandwidth buckets\<close>

definition unlimited_bytes_per_sec :: int where "unlimited_bytes_per_sec = 2 ^ 50"
definition unlimited_burst :: int where "unlimited_burst = 2 ^ 30"

definition speed_settings :: "int \<Rightarrow> int \<times> int" where
  "speed_settings speed =
     (if speed \<le> 0 then (unlimited_bytes_per_sec, unlimited_burst)
      else let bytes = int64_of (speed * 1000000) sdiv 8;
               burst = (if bytes < 64 * 1024 then 64 * 1024 else bytes);
               cap4s = int64_of (bytes * 4);
               burst = (if cap4s > 64 * 1024 \<and> burst > cap4s then cap4s else burst) in
        (bytes, burst))"

record 'b speed_tracker =
  sp_temporary :: "(int, int) go_map"
  sp_buckets :: "(int, nat) go_map"
  sp_uuid_map :: "(string, int) go_map"
  sp_has_limits :: bool
  sp_heap :: "'b list"

definition new_speed_tracker :: "'b speed_tracker" where
  "new_speed_tracker = \<lparr>sp_temporary = [], sp_buckets = [], sp_uuid_map = [], sp_has_limits = False, sp_heap = []\<rparr>"

definition effective_speed :: "'b speed_tracker \<Rightarrow> int \<Rightarrow> int \<Rightarrow> int" where
  "effective_speed t uid base =
     (let temporary = get_or 0 (sp_temporary t) uid in
      if temporary > 0 \<and> (base \<le> 0 \<or> temporary < base) then temporary else base)"

definition adjust_bucket :: "'b rate_api \<Rightarrow> int \<Rightarrow> 'b \<Rightarrow> 'b" where
  "adjust_bucket api speed b =
     (let (limit, burst) = speed_settings speed in api_set_burst api burst (api_set_limit api limit b))"

fun update_buckets_loop ::
  "'b rate_api \<Rightarrow> user_spec list \<Rightarrow> (string, int) go_map \<Rightarrow> bool \<Rightarrow> 'b speed_tracker \<Rightarrow>
   (string, int) go_map \<times> bool \<times> 'b speed_tracker" where
  "update_buckets_loop api [] uuids has t = (uuids, has, t)"
| "update_buckets_loop api (u # us) uuids has t =
     (let uuids1 = (if us_uuid u \<noteq> [] then AList.update (us_uuid u) (us_id u) uuids else uuids);
          speed = effective_speed t (us_id u) (us_speed u);
          has1 = (if speed > 0 then True else has);
          t1 = (case map_of (sp_buckets t) (us_id u) of
                  None \<Rightarrow> t
                | Some ref \<Rightarrow> t\<lparr>sp_heap := (sp_heap t)[ref := adjust_bucket api speed (sp_heap t ! ref)]\<rparr>) in
      update_buckets_loop api us uuids1 has1 t1)"

definition update_buckets :: "'b rate_api \<Rightarrow> 'b limiter \<Rightarrow> 'b speed_tracker \<Rightarrow> 'b speed_tracker" where
  "update_buckets api l t =
     (let users = map snd (l_users l);
          (uuids, has, t1) = update_buckets_loop api users [] False t in
      t1\<lparr>sp_buckets := keep_keys (\<lambda>uid. uid \<in> us_id ` set users) (sp_buckets t1),
         sp_uuid_map := uuids, sp_has_limits := has\<rparr>)"

definition set_temporary :: "'b rate_api \<Rightarrow> 'b limiter \<Rightarrow> (int, int) go_map \<Rightarrow> 'b speed_tracker \<Rightarrow> 'b speed_tracker" where
  "set_temporary api l limits t =
     update_buckets api l (t\<lparr>sp_temporary := filter (\<lambda>(uid, limit). limit > 0) limits\<rparr>)"

text \<open>\<open>limiterFor\<close>: the bucket's reference, if the user is known, and whether the user is limited.\<close>

definition limiter_for ::
  "'b rate_api \<Rightarrow> 'b limiter \<Rightarrow> string \<Rightarrow> 'b speed_tracker \<Rightarrow> (nat option \<times> bool) \<times> 'b speed_tracker" where
  "limiter_for api l uuid t =
     (case map_of (sp_uuid_map t) uuid of
        None \<Rightarrow> ((None, False), t)
      | Some uid \<Rightarrow>
          (case map_of (l_users l) uid of
             None \<Rightarrow> ((None, False), t)
           | Some u \<Rightarrow>
               let speed = effective_speed t uid (us_speed u); limited = (speed > 0) in
               (case map_of (sp_buckets t) uid of
                  Some ref \<Rightarrow> ((Some ref, limited), t)
                | None \<Rightarrow>
                    let (limit, burst) = speed_settings speed; ref = length (sp_heap t) in
                    ((Some ref, limited),
                     t\<lparr>sp_buckets := AList.update uid ref (sp_buckets t),
                       sp_heap := sp_heap t @ [api_new api limit burst]\<rparr>))))"

definition get_limiter ::
  "'b rate_api \<Rightarrow> 'b limiter \<Rightarrow> string \<Rightarrow> 'b speed_tracker \<Rightarrow> nat option \<times> 'b speed_tracker" where
  "get_limiter api l uuid t =
     (let ((lim, limited), t1) = limiter_for api l uuid t in (if limited then lim else None, t1))"

definition get_stable_limiter ::
  "'b rate_api \<Rightarrow> 'b limiter \<Rightarrow> string \<Rightarrow> 'b speed_tracker \<Rightarrow> nat option \<times> 'b speed_tracker" where
  "get_stable_limiter api l uuid t = (let ((lim, limited), t1) = limiter_for api l uuid t in (lim, t1))"

definition limited_user_count :: "'b limiter \<Rightarrow> 'b speed_tracker \<Rightarrow> nat" where
  "limited_user_count l t =
     length (filter (\<lambda>uid. case map_of (l_users l) uid of None \<Rightarrow> False | Some u \<Rightarrow> us_speed u > 0)
       (map fst (sp_buckets t)))"

definition record_throttled :: "int \<Rightarrow> int \<Rightarrow> limit_stat \<Rightarrow> limit_stat" where
  "record_throttled at speed stat =
     stat\<lparr>speed_hits := speed_hits stat + 1, speed_limit := speed, speed_last := at,
       speed_first := (if speed_first stat = 0 then at else speed_first stat)\<rparr>"

fun throttled_loop ::
  "'b rate_api \<Rightarrow> int \<Rightarrow> 'b list \<Rightarrow> (int, nat) go_map \<Rightarrow> 'b limiter \<Rightarrow> 'b limiter" where
  "throttled_loop api at heap [] l = l"
| "throttled_loop api at heap ((uid, ref) # buckets) l =
     throttled_loop api at heap buckets
       (case map_of (l_users l) uid of
          None \<Rightarrow> l
        | Some u \<Rightarrow>
            if us_speed u \<le> 0 \<or> \<not> api_overdrawn api at (heap ! ref) then l
            else l\<lparr>l_events := AList.update uid
                    (record_throttled (at div 1000000000) (us_speed u) (get_or empty_stat (l_events l) uid)) (l_events l)\<rparr>)"

text \<open>\<open>at\<close> in nanoseconds since 1970, \<open>at.Unix()\<close> in seconds.\<close>

definition sample_throttled :: "'b rate_api \<Rightarrow> int \<Rightarrow> 'b speed_tracker \<Rightarrow> 'b limiter \<Rightarrow> 'b limiter" where
  "sample_throttled api at t l =
     (if \<not> sp_has_limits t then l else throttled_loop api at (sp_heap t) (sp_buckets t) l)"

section \<open>Refreshing the user list\<close>

definition latest_user :: "user_spec list \<Rightarrow> int \<Rightarrow> user_spec option" where
  "latest_user users uid = map_of (rev (map (\<lambda>u. (us_id u, u)) users)) uid"

lemma map_of_users_by_id:
  "map_of (users_by_id users m) uid = (case latest_user users uid of None \<Rightarrow> map_of m uid | Some u \<Rightarrow> Some u)"
proof (induction users m rule: users_by_id.induct)
  case (1 m)
  then show ?case by (simp add: latest_user_def)
next
  case (2 u us m)
  then show ?case
    by (auto simp: latest_user_def map_add_def go_map split: option.split)
qed

lemma distinct_keys_users_by_id: "distinct_keys m \<Longrightarrow> distinct_keys (users_by_id users m)"
  by (induction users m rule: users_by_id.induct) auto

lemma latest_user_id: "latest_user users uid = Some u \<Longrightarrow> us_id u = uid"
  by (auto simp: latest_user_def dest!: map_of_SomeD)

definition spec_of :: "user_spec \<Rightarrow> limit_spec option" where
  "spec_of u = (if us_conn u \<le> 0 \<and> us_rate u \<le> 0 then None
     else Some \<lparr>sp_max_conn = us_conn u, sp_rate_per_sec = us_rate u\<rparr>)"

definition adjusted_rate :: "'b rate_api \<Rightarrow> 'b option \<Rightarrow> int \<Rightarrow> 'b" where
  "adjusted_rate api old r =
     (case old of Some b \<Rightarrow> api_set_burst api r (api_set_limit api r b) | None \<Rightarrow> api_new api r r)"

lemma rebuild_loop_result:
  "distinct_keys users \<Longrightarrow>
   map_of (fst (rebuild_loop api old users (limits, buckets))) uid =
     (case map_of users uid of None \<Rightarrow> map_of limits uid
      | Some u \<Rightarrow> (case spec_of u of None \<Rightarrow> map_of limits uid | Some s \<Rightarrow> Some s)) \<and>
   map_of (snd (rebuild_loop api old users (limits, buckets))) uid =
     (case map_of users uid of None \<Rightarrow> map_of buckets uid
      | Some u \<Rightarrow> if us_rate u \<le> 0 then map_of buckets uid else Some (adjusted_rate api (map_of old uid) (us_rate u)))"
proof (induction users arbitrary: limits buckets)
  case Nil
  then show ?case by simp
next
  case (Cons e users)
  obtain k u where e: "e = (k, u)" by (cases e)
  have fresh: "map_of users k = None" using Cons.prems e by (simp add: map_of_eq_None_iff)
  show ?case
    using Cons fresh
    by (auto simp: e spec_of_def adjusted_rate_def Let_def go_map split: option.split)
qed

lemma rebuild_loop_distinct:
  "distinct_keys limits \<Longrightarrow> distinct_keys buckets \<Longrightarrow>
   distinct_keys (fst (rebuild_loop api old users (limits, buckets))) \<and>
   distinct_keys (snd (rebuild_loop api old users (limits, buckets)))"
  by (induction users arbitrary: limits buckets) (auto simp: Let_def)

lemma map_of_Nil_iff: "m = [] \<longleftrightarrow> (\<forall>k. map_of m k = None)"
  by (metis list.exhaust map_of.simps(1) map_of.simps(2) map_upd_Some_unfold not_None_eq)

text \<open>Refreshing the user list makes every limit the one of the user's last entry: the removed ids
  are exactly those no longer listed, the concurrency limit (with its lock-free shortcut) is the
  configured one, a rate bucket exists exactly for a positive rate and is the old bucket adjusted in
  place where there was one, and the statistics of removed users are gone.\<close>

theorem update_users_exact:
  fixes l :: "'b limiter"
  assumes "update_users api users l = (removed, l')"
  shows "(uid \<in> set removed \<longleftrightarrow> has_key (l_users l) uid \<and> latest_user users uid = None) \<and>
    map_of (l_users l') uid = latest_user users uid \<and>
    max_conn_by_user_id uid l' =
      (case latest_user users uid of None \<Rightarrow> None | Some u \<Rightarrow> if us_conn u \<le> 0 then None else Some (us_conn u)) \<and>
    map_of (l_rate_buckets l') uid =
      (case latest_user users uid of None \<Rightarrow> None
       | Some u \<Rightarrow> if us_rate u \<le> 0 then None else Some (adjusted_rate api (map_of (l_rate_buckets l) uid) (us_rate u))) \<and>
    map_of (l_events l') uid = (if latest_user users uid = None then None else map_of (l_events l) uid)"
proof -
  let ?users = "users_by_id users []"
  have users: "map_of ?users k = latest_user users k" for k by (simp add: map_of_users_by_id split: option.split)
  have distinct: "distinct_keys ?users" by (rule distinct_keys_users_by_id) simp
  obtain limits buckets where loop: "rebuild_loop api (l_rate_buckets l) ?users ([], []) = (limits, buckets)"
    by fastforce
  have limits: "map_of limits k = (case latest_user users k of None \<Rightarrow> None | Some u \<Rightarrow> spec_of u)"
    and buckets: "map_of buckets k = (case latest_user users k of None \<Rightarrow> None
       | Some u \<Rightarrow> if us_rate u \<le> 0 then None else Some (adjusted_rate api (map_of (l_rate_buckets l) k) (us_rate u)))" for k
    using rebuild_loop_result [OF distinct, of api "l_rate_buckets l" "[]" "[]" k] loop
    by (auto simp: users split: option.splits)
  have l': "l' = rebuild_conn_limits api ?users (l\<lparr>l_users := ?users, l_uuid_device := device_index ?users []\<rparr>)"
    and removed: "removed = map fst (filter (\<lambda>e. \<not> has_key ?users (fst e)) (l_users l))"
    using assms by (auto simp: update_users_def Let_def)
  have fields: "l_conn_limits l' = limits" "l_rate_buckets l' = buckets" "l_users l' = ?users"
    "l_has_conn_limits l' = (limits \<noteq> [])" "l_events l' = keep_keys (has_key ?users) (l_events l)"
    by (simp_all add: l' rebuild_conn_limits_def loop)
  have "max_conn_by_user_id uid l' =
      (case latest_user users uid of None \<Rightarrow> None | Some u \<Rightarrow> if us_conn u \<le> 0 then None else Some (us_conn u))"
    using limits [of uid] map_of_Nil_iff [of limits]
    by (auto simp: max_conn_by_user_id_def fields spec_of_def split: option.splits if_splits)
  moreover have "uid \<in> set removed \<longleftrightarrow> has_key (l_users l) uid \<and> latest_user users uid = None"
  proof -
    have "has_key ?users k \<longleftrightarrow> latest_user users k \<noteq> None" for k by (simp add: has_key_def users)
    then show ?thesis by (force simp: removed has_key_iff [of "l_users l"])
  qed
  moreover have "map_of (l_events l') uid = (if latest_user users uid = None then None else map_of (l_events l) uid)"
    by (auto simp: fields go_map has_key_def users)
  ultimately show ?thesis using users buckets fields by simp
qed

definition plain_api :: "(int \<times> int \<times> int) rate_api" where
  "plain_api = \<lparr>api_new = (\<lambda>r b. (r, b, b)), api_set_limit = (\<lambda>r (_, b, n). (r, b, n)),
     api_set_burst = (\<lambda>b (r, _, n). (r, b, n)),
     api_allow = (\<lambda>now (r, b, n). if n > 0 then (True, (r, b, n - 1)) else (False, (r, b, n))),
     api_overdrawn = (\<lambda>now (r, b, n). n < 0)\<rparr>"

definition sample_users :: "user_spec list" where
  "sample_users = [\<lparr>us_id = 7, us_uuid = ''u7'', us_speed = 20, us_device = 2, us_conn = 3, us_rate = 5\<rparr>,
     \<lparr>us_id = 8, us_uuid = ''u8'', us_speed = 0, us_device = 0, us_conn = 0, us_rate = 0\<rparr>]"

definition sample_limiter :: "(int \<times> int \<times> int) limiter" where
  "sample_limiter = snd (update_users plain_api sample_users new_limiter)"

theorem update_users_exact_witness:
  "max_conn_by_user_id 7 sample_limiter = Some 3 \<and> map_of (l_rate_buckets sample_limiter) 7 = Some (5, 5, 5)"
  using update_users_exact [of plain_api sample_users "new_limiter" "fst (update_users plain_api sample_users new_limiter)"
      sample_limiter 7]
  by (simp add: sample_limiter_def latest_user_def sample_users_def new_limiter_def adjusted_rate_def plain_api_def)

section \<open>Statistics of rejections\<close>

datatype 'b limiter_op =
    LUpdate "user_spec list"
  | LAllow int int
  | LReport int string int int string "limit_snapshot option"
  | LThrottled int "'b speed_tracker"
  | LDrain

fun limiter_step :: "'b rate_api \<Rightarrow> 'b limiter_op \<Rightarrow> 'b limiter \<Rightarrow> 'b limiter" where
  "limiter_step api (LUpdate users) l = snd (update_users api users l)"
| "limiter_step api (LAllow now uid) l = snd (allow_new_conn api now uid l)"
| "limiter_step api (LReport uid kind limit observed ip captured) l =
     report_limited_snapshot uid kind limit observed ip captured l"
| "limiter_step api (LThrottled at t) l = sample_throttled api at t l"
| "limiter_step api LDrain l = snd (snapshot_limit_events l)"

definition stat_ok :: "limit_stat \<Rightarrow> bool" where
  "stat_ok s = (distinct (device_ips s) \<and> length (device_ips s) \<le> max_device_event_ips \<and>
     [] \<notin> set (device_ips s) \<and> 0 \<le> peak_conn s \<and> 0 \<le> peak_devices s)"

definition limiter_ok :: "'b limiter \<Rightarrow> bool" where
  "limiter_ok l \<longleftrightarrow>
     distinct_keys (l_users l) \<and> distinct_keys (l_rate_buckets l) \<and> distinct_keys (l_events l) \<and>
     (\<forall>uid s. map_of (l_events l) uid = Some s \<longrightarrow> has_key (l_users l) uid \<and> stat_ok s) \<and>
     (\<forall>uid u. map_of (l_users l) uid = Some u \<longrightarrow> us_id u = uid)"

lemma empty_stat_ok [simp]: "stat_ok empty_stat"
  by (simp add: stat_ok_def empty_stat_def)

lemma record_limited_ok: "stat_ok s \<Longrightarrow> stat_ok (record_limited kind limit observed ip captured s)"
  by (auto simp: stat_ok_def record_limited_def max_device_event_ips_def)

lemma record_throttled_ok: "stat_ok s \<Longrightarrow> stat_ok (record_throttled at speed s)"
  by (auto simp: stat_ok_def record_throttled_def)

lemma limiter_ok_stat: "limiter_ok l \<Longrightarrow> stat_ok (get_or empty_stat (l_events l) uid)"
  by (auto simp: limiter_ok_def get_or_def split: option.split)

lemma limiter_ok_record:
  "limiter_ok l \<Longrightarrow> has_key (l_users l) uid \<Longrightarrow> stat_ok s \<Longrightarrow> limiter_ok (l\<lparr>l_events := AList.update uid s (l_events l)\<rparr>)"
  by (auto simp: limiter_ok_def go_map)

lemma throttled_loop_ok: "limiter_ok l \<Longrightarrow> limiter_ok (throttled_loop api at heap buckets l)"
proof (induction api at heap buckets l rule: throttled_loop.induct)
  case (1 api at heap l)
  then show ?case by simp
next
  case (2 api at heap uid ref buckets l)
  have "limiter_ok (l\<lparr>l_events := AList.update uid
      (record_throttled s (us_speed u) (get_or empty_stat (l_events l) uid)) (l_events l)\<rparr>)"
    if "map_of (l_users l) uid = Some u" for u s
    using 2(2) that by (intro limiter_ok_record record_throttled_ok limiter_ok_stat) (simp_all add: has_key_def)
  then show ?case
    unfolding throttled_loop.simps by (intro 2(1)) (auto simp: 2(2) split: option.split)
qed

lemma report_ok: "limiter_ok l \<Longrightarrow> limiter_ok (report_limited_snapshot uid kind limit observed ip captured l)"
proof -
  assume l: "limiter_ok l"
  have "limiter_ok (l\<lparr>l_events := AList.update uid
      (record_limited kind x observed ip captured (get_or empty_stat (l_events l) uid)) (l_events l)\<rparr>)"
    if "map_of (l_users l) uid = Some u" for u x
    using l that by (intro limiter_ok_record record_limited_ok limiter_ok_stat) (simp_all add: has_key_def)
  moreover have "limiter_ok (m\<lparr>l_device_count := x\<rparr>) = limiter_ok m"
    "limiter_ok (m\<lparr>l_conn_count := x\<rparr>) = limiter_ok m" for m :: "'a limiter" and x
    by (simp_all add: limiter_ok_def)
  ultimately show ?thesis
    using l by (auto simp: report_limited_snapshot_def Let_def split: option.split)
qed

lemma update_users_ok: "limiter_ok l \<Longrightarrow> limiter_ok (snd (update_users api users l))"
proof -
  assume l: "limiter_ok l"
  let ?users = "users_by_id users []"
  have users: "distinct_keys ?users" by (rule distinct_keys_users_by_id) simp
  obtain limits buckets where loop: "rebuild_loop api (l_rate_buckets l) ?users ([], []) = (limits, buckets)"
    by fastforce
  then have "distinct_keys buckets"
    using rebuild_loop_distinct [of "[]" "[]" api "l_rate_buckets l" ?users] by simp
  moreover have "us_id u = uid" if "map_of ?users uid = Some u" for u uid
    using that by (auto simp: map_of_users_by_id latest_user_id split: option.splits)
  ultimately show ?thesis
    using l users loop
    by (auto simp: update_users_def rebuild_conn_limits_def Let_def limiter_ok_def go_map)
qed

interpretation limiter_run: invariant_machine "limiter_step api" limiter_ok for api
proof unfold_locales
  fix l :: "'a limiter" and e
  assume l: "limiter_ok l"
  show "limiter_ok (limiter_step api e l)"
  proof (cases e)
    case (LUpdate users)
    then show ?thesis using l by (simp add: update_users_ok)
  next
    case (LAllow now uid)
    then show ?thesis
      using l by (auto simp: allow_new_conn_def limiter_ok_def split: option.split prod.split)
  next
    case (LReport uid kind limit observed ip captured)
    then show ?thesis using l by (simp add: report_ok)
  next
    case (LThrottled at t)
    then show ?thesis using l by (simp add: sample_throttled_def throttled_loop_ok)
  next
    case LDrain
    then show ?thesis using l by (simp add: snapshot_limit_events_def limiter_ok_def)
  qed
qed

lemma new_limiter_ok [simp]: "limiter_ok new_limiter"
  by (simp add: limiter_ok_def new_limiter_def)

text \<open>In every state a limiter can reach, a drained batch of statistics has at most one record per
  user, only for users of the current list, and each record keeps at most five distinct non-empty
  rejected addresses.\<close>

theorem drained_events_bounded:
  fixes api :: "'b rate_api"
  assumes l_def: "l = fold (limiter_step api) ops new_limiter" and "(uid, s) \<in> set (fst (snapshot_limit_events l))"
  shows "distinct_keys (fst (snapshot_limit_events l)) \<and> has_key (l_users l) uid \<and>
    distinct (device_ips s) \<and> length (device_ips s) \<le> 5 \<and> [] \<notin> set (device_ips s)"
proof -
  have ok: "limiter_ok l" unfolding l_def by (intro limiter_run.run_inv new_limiter_ok)
  then have "map_of (l_events l) uid = Some s"
    using assms by (simp add: limiter_ok_def snapshot_limit_events_def)
  then show ?thesis
    using ok by (auto simp: limiter_ok_def stat_ok_def max_device_event_ips_def snapshot_limit_events_def)
qed

definition device_ops :: "(int \<times> int \<times> int) limiter_op list" where
  "device_ops = LUpdate sample_users # map (\<lambda>ip. LReport 7 kind_device 0 2 ip None) [''a'', ''b'', ''a'']"

theorem drained_events_bounded_witness:
  "\<exists>s. (7, s) \<in> set (fst (snapshot_limit_events (fold (limiter_step plain_api) device_ops new_limiter))) \<and>
     device_ips s = [''a'', ''b''] \<and> length (device_ips s) \<le> 5"
proof -
  define l where "l = fold (limiter_step plain_api) device_ops new_limiter"
  define s where "s = get_or empty_stat (l_events l) 7"
  have e: "l_events l = [(7, s)]" and ips: "device_ips s = [''a'', ''b'']"
    by (simp_all add: s_def l_def device_ops_def sample_users_def update_users_def rebuild_conn_limits_def
        new_limiter_def plain_api_def report_limited_snapshot_def kinds keep_keys_def get_or_def
        record_limited_def empty_stat_def max_device_event_ips_def filled_limit_def Let_def)
  have "(7, s) \<in> set (fst (snapshot_limit_events l))" by (simp add: snapshot_limit_events_def e)
  then show ?thesis
    using drained_events_bounded [OF l_def, of 7 s] ips by (auto simp: l_def)
qed

text \<open>Rejections of one kind in a record.\<close>

definition hits :: "string \<Rightarrow> limit_stat \<Rightarrow> u64" where
  "hits kind s = (if kind = kind_concurrent then conn_hits s else if kind = kind_rate then rate_hits s else device_hits s)"

fun drained_hits :: "'b rate_api \<Rightarrow> 'b limiter_op list \<Rightarrow> 'b limiter \<Rightarrow> int \<Rightarrow> string \<Rightarrow> u64" where
  "drained_hits api [] l uid kind = 0"
| "drained_hits api (e # es) l uid kind =
     (case e of LDrain \<Rightarrow> hits kind (get_or empty_stat (fst (snapshot_limit_events l)) uid) | _ \<Rightarrow> 0) +
     drained_hits api es (limiter_step api e l) uid kind"

fun reported :: "'b limiter_op list \<Rightarrow> int \<Rightarrow> string \<Rightarrow> nat" where
  "reported [] uid kind = 0"
| "reported (e # es) uid kind =
     (case e of LReport u k limit observed ip captured \<Rightarrow> if u = uid \<and> k = kind then 1 else 0 | _ \<Rightarrow> 0) +
     reported es uid kind"

definition no_update :: "'b limiter_op \<Rightarrow> bool" where
  "no_update e = (case e of LUpdate users \<Rightarrow> False | _ \<Rightarrow> True)"

definition known_kind :: "string \<Rightarrow> bool" where
  "known_kind kind = (kind = kind_concurrent \<or> kind = kind_rate \<or> kind = kind_device)"

lemma hits_record:
  "known_kind kind \<Longrightarrow> known_kind k \<Longrightarrow>
   hits k (record_limited kind limit observed ip captured s) = hits k s + (if k = kind then 1 else 0)"
  by (auto simp: known_kind_def hits_def record_limited_def kinds)

lemma hits_throttled: "hits k (record_throttled at speed s) = hits k s"
  by (simp add: hits_def record_throttled_def)

lemma hits_throttled_loop:
  "hits k (get_or empty_stat (l_events (throttled_loop api at heap buckets l)) uid) =
   hits k (get_or empty_stat (l_events l) uid)"
proof (induction api at heap buckets l rule: throttled_loop.induct)
  case (2 api at heap u ref buckets l)
  then show ?case
    unfolding throttled_loop.simps by (simp add: go_map hits_throttled split: option.split)
qed simp

lemma hits_step:
  assumes "no_update e" and "has_key (l_users l) uid" and "known_kind kind"
  shows "hits kind (get_or empty_stat (l_events (limiter_step api e l)) uid) +
      (case e of LDrain \<Rightarrow> hits kind (get_or empty_stat (fst (snapshot_limit_events l)) uid) | _ \<Rightarrow> 0) =
    hits kind (get_or empty_stat (l_events l) uid) + of_nat (reported [e] uid kind)
    \<and> l_users (limiter_step api e l) = l_users l"
proof (cases e)
  case (LReport u k limit observed ip captured)
  then show ?thesis
    using assms(2,3)
    by (auto simp: report_limited_snapshot_def Let_def go_map hits_record known_kind_def has_key_def split: option.split)
next
  case (LThrottled at t)
  have "l_users (throttled_loop api at heap buckets l) = l_users l" for heap buckets
    by (induction api at heap buckets l rule: throttled_loop.induct) (simp_all split: option.split)
  then show ?thesis using LThrottled by (simp add: sample_throttled_def hits_throttled_loop)
qed (use assms in \<open>auto simp: allow_new_conn_def snapshot_limit_events_def no_update_def hits_def empty_stat_def
    split: option.split prod.split\<close>)

lemma chain_sums:
  fixes a :: "'a :: ab_semigroup_add"
  shows "a + b = h1 + r2 \<Longrightarrow> h1 + c = h0 + r1 \<Longrightarrow> c + a + b = h0 + (r1 + r2)"
  by (metis add.assoc add.commute)

text \<open>Between two refreshes of the user list no rejection is lost or reported twice: for a listed
  user and each kind, what was drained plus what is still held is what was held before plus the
  number of rejections recorded (modulo \<open>2 ^ 64\<close>, the width of the counters).\<close>

theorem rejections_accounted:
  assumes "list_all no_update ops" and "has_key (l_users l) uid" and "known_kind kind"
  shows "drained_hits api ops l uid kind +
      hits kind (get_or empty_stat (l_events (fold (limiter_step api) ops l)) uid) =
    hits kind (get_or empty_stat (l_events l) uid) + of_nat (reported ops uid kind)"
  using assms(1,2)
proof (induction ops arbitrary: l)
  case Nil
  then show ?case by simp
next
  case (Cons e ops)
  have step: "hits kind (get_or empty_stat (l_events (limiter_step api e l)) uid) +
      (case e of LDrain \<Rightarrow> hits kind (get_or empty_stat (fst (snapshot_limit_events l)) uid) | _ \<Rightarrow> 0) =
    hits kind (get_or empty_stat (l_events l) uid) + of_nat (reported [e] uid kind)"
    and users: "l_users (limiter_step api e l) = l_users l"
    using hits_step [of e l uid kind api] Cons.prems assms(3) by simp_all
  have count: "reported (e # ops) uid kind = reported [e] uid kind + reported ops uid kind" by simp
  have rest: "drained_hits api ops (limiter_step api e l) uid kind +
      hits kind (get_or empty_stat (l_events (fold (limiter_step api) (e # ops) l)) uid) =
    hits kind (get_or empty_stat (l_events (limiter_step api e l)) uid) + of_nat (reported ops uid kind)"
    using Cons.IH [of "limiter_step api e l"] Cons.prems users by simp
  show ?case
    unfolding count drained_hits.simps of_nat_add by (rule chain_sums [OF rest step])
qed

definition mixed_ops :: "(int \<times> int \<times> int) limiter_op list" where
  "mixed_ops = [LReport 7 kind_rate 0 0 [] None, LDrain, LReport 7 kind_rate 0 0 [] None,
     LReport 7 kind_device 0 2 ''a'' None, LReport 7 kind_rate 0 0 [] None]"

theorem rejections_accounted_witness:
  "drained_hits plain_api mixed_ops sample_limiter 7 kind_rate +
     hits kind_rate (get_or empty_stat (l_events (fold (limiter_step plain_api) mixed_ops sample_limiter)) 7) = 3"
proof -
  have "has_key (l_users sample_limiter) 7" "l_events sample_limiter = []"
    by (simp_all add: sample_limiter_def sample_users_def update_users_def rebuild_conn_limits_def new_limiter_def
        has_key_def Let_def keep_keys_def)
  moreover have "known_kind kind_rate" by (simp add: known_kind_def)
  moreover have "list_all no_update mixed_ops" by (simp add: mixed_ops_def no_update_def)
  moreover have "reported mixed_ops 7 kind_rate = 3" by (simp add: mixed_ops_def kinds)
  ultimately show ?thesis
    using rejections_accounted [of mixed_ops sample_limiter 7 kind_rate plain_api]
    by (simp add: hits_def kinds empty_stat_def)
qed

section \<open>Bandwidth\<close>

definition speed_ok :: "'b speed_tracker \<Rightarrow> bool" where
  "speed_ok t \<longleftrightarrow> distinct_keys (sp_buckets t) \<and> distinct (map snd (sp_buckets t)) \<and>
     (\<forall>e \<in> set (sp_buckets t). snd e < length (sp_heap t))"

lemma buckets_frame:
  assumes "update_buckets_loop api us uuids has t = (uuids', has', t')"
  shows "sp_buckets t' = sp_buckets t" "sp_temporary t' = sp_temporary t" "length (sp_heap t') = length (sp_heap t)"
proof -
  have "sp_buckets (snd (snd (update_buckets_loop api us uuids has t))) = sp_buckets t \<and>
      sp_temporary (snd (snd (update_buckets_loop api us uuids has t))) = sp_temporary t \<and>
      length (sp_heap (snd (snd (update_buckets_loop api us uuids has t)))) = length (sp_heap t)"
    by (induction api us uuids has t rule: update_buckets_loop.induct) (auto simp: Let_def split: option.split)
  then show "sp_buckets t' = sp_buckets t" "sp_temporary t' = sp_temporary t" "length (sp_heap t') = length (sp_heap t)"
    using assms by simp_all
qed

lemma effective_speed_cong: "sp_temporary t = sp_temporary t' \<Longrightarrow> effective_speed t = effective_speed t'"
  by (intro ext) (simp add: effective_speed_def)

lemma same_ref:
  "distinct (map snd m) \<Longrightarrow> map_of m k = Some r \<Longrightarrow> map_of m k' = Some r \<Longrightarrow> k = k'"
  using inj_onD [of snd "set m" "(k, r)" "(k', r)"] by (auto dest!: map_of_SomeD simp: distinct_map)

lemma buckets_heap:
  assumes "speed_ok t" and "map_of (sp_buckets t) uid = Some ref" and "distinct (map us_id us)"
    and "update_buckets_loop api us uuids has t = (uuids', has', t')"
  shows "sp_heap t' ! ref =
    (case map_of (map (\<lambda>u. (us_id u, u)) us) uid of
       None \<Rightarrow> sp_heap t ! ref
     | Some u \<Rightarrow> adjust_bucket api (effective_speed t uid (us_speed u)) (sp_heap t ! ref))"
  using assms
proof (induction us arbitrary: uuids has t)
  case Nil
  then show ?case by simp
next
  case (Cons u us)
  let ?speed = "effective_speed t (us_id u) (us_speed u)"
  define t1 where "t1 = (case map_of (sp_buckets t) (us_id u) of None \<Rightarrow> t
    | Some r \<Rightarrow> t\<lparr>sp_heap := (sp_heap t)[r := adjust_bucket api ?speed (sp_heap t ! r)]\<rparr>)"
  have t1: "sp_buckets t1 = sp_buckets t" "sp_temporary t1 = sp_temporary t" "length (sp_heap t1) = length (sp_heap t)"
    by (simp_all add: t1_def split: option.split)
  have ref: "ref < length (sp_heap t)"
    using Cons.prems(1,2) by (auto simp: speed_ok_def dest!: map_of_SomeD)
  have heap1: "sp_heap t1 ! ref =
      (if us_id u = uid then adjust_bucket api ?speed (sp_heap t ! ref) else sp_heap t ! ref)"
  proof (cases "map_of (sp_buckets t) (us_id u)")
    case None
    then show ?thesis using Cons.prems(2) by (auto simp: t1_def)
  next
    case (Some r)
    then have "r = ref \<longleftrightarrow> us_id u = uid"
      using Cons.prems(1,2) same_ref [of "sp_buckets t" uid ref "us_id u"] unfolding speed_ok_def by (metis option.inject)
    then show ?thesis using Some ref by (cases "us_id u = uid") (auto simp: t1_def nth_list_update)
  qed
  obtain uuids1 has1 where rest: "update_buckets_loop api us uuids1 has1 t1 = (uuids', has', t')"
    using Cons.prems(4) by (auto simp: Let_def t1_def)
  have "speed_ok t1" using Cons.prems(1) t1 by (simp add: speed_ok_def)
  then have IH: "sp_heap t' ! ref =
    (case map_of (map (\<lambda>u. (us_id u, u)) us) uid of None \<Rightarrow> sp_heap t1 ! ref
     | Some u \<Rightarrow> adjust_bucket api (effective_speed t1 uid (us_speed u)) (sp_heap t1 ! ref))"
    using Cons.IH [OF _ _ _ rest] Cons.prems(2,3) t1 by simp
  have "us_id u = uid \<Longrightarrow> map_of (map (\<lambda>u. (us_id u, u)) us) uid = None"
    using Cons.prems(3) by (auto simp: map_of_eq_None_iff)
  then show ?case
    unfolding IH heap1 using effective_speed_cong [OF t1(2)] by (auto split: option.split)
qed

lemma users_list:
  assumes "limiter_ok l"
  shows "map_of (map (\<lambda>u. (us_id u, u)) (map snd (l_users l))) = map_of (l_users l)"
    and "distinct (map us_id (map snd (l_users l)))"
proof -
  have ids: "us_id (snd e) = fst e" if "e \<in> set (l_users l)" for e
    using assms that map_of_is_SomeI [of "l_users l" "fst e" "snd e"] by (auto simp: limiter_ok_def)
  then have eq: "map (\<lambda>u. (us_id u, u)) (map snd (l_users l)) = l_users l"
    by (simp add: map_idI)
  show "map_of (map (\<lambda>u. (us_id u, u)) (map snd (l_users l))) = map_of (l_users l)"
    by (simp only: eq)
  have "map us_id (map snd (l_users l)) = map fst (l_users l)" using ids by simp
  then show "distinct (map us_id (map snd (l_users l)))" using assms by (simp only: limiter_ok_def)
qed

text \<open>What the code relies on at the token bucket: a bucket has the rate and burst it was last given.\<close>

definition rate_api_ok :: "'b rate_api \<Rightarrow> ('b \<Rightarrow> int) \<Rightarrow> ('b \<Rightarrow> int) \<Rightarrow> bool" where
  "rate_api_ok api limit_of burst_of \<longleftrightarrow>
     (\<forall>r b. limit_of (api_new api r b) = r \<and> burst_of (api_new api r b) = b) \<and>
     (\<forall>r x. limit_of (api_set_limit api r x) = r \<and> burst_of (api_set_limit api r x) = burst_of x) \<and>
     (\<forall>b x. burst_of (api_set_burst api b x) = b \<and> limit_of (api_set_burst api b x) = limit_of x)"

text \<open>C37. A change of plan or of the temporary limit reaches the bucket that open connections already
  hold: after \<open>UpdateBuckets\<close> a listed user still has the same bucket object, with the rate and
  burst of the speed now in force (the smaller of plan and temporary limit), and removed users have
  none.\<close>

theorem speed_change_reaches_held_bucket:
  assumes "rate_api_ok api limit_of burst_of" and "limiter_ok l" and "speed_ok t"
    and "map_of (sp_buckets t) uid = Some ref"
  shows "(case map_of (l_users l) uid of
      None \<Rightarrow> map_of (sp_buckets (update_buckets api l t)) uid = None
    | Some u \<Rightarrow> map_of (sp_buckets (update_buckets api l t)) uid = Some ref \<and>
        (limit_of (sp_heap (update_buckets api l t) ! ref), burst_of (sp_heap (update_buckets api l t) ! ref)) =
          speed_settings (effective_speed t uid (us_speed u)))"
proof -
  let ?users = "map snd (l_users l)"
  obtain uuids has t1 where loop: "update_buckets_loop api ?users [] False t = (uuids, has, t1)"
    by (metis prod_cases3)
  have fields: "sp_buckets (x\<lparr>sp_buckets := b, sp_uuid_map := m, sp_has_limits := h\<rparr>) = b"
    "sp_heap (x\<lparr>sp_buckets := b, sp_uuid_map := m, sp_has_limits := h\<rparr>) = sp_heap x" for x :: "'a speed_tracker" and b m h
    by simp_all
  have t': "sp_buckets (update_buckets api l t) = keep_keys (\<lambda>uid. uid \<in> us_id ` set ?users) (sp_buckets t)"
    "sp_heap (update_buckets api l t) = sp_heap t1"
    by (simp_all only: update_buckets_def Let_def loop prod.case fields buckets_frame [OF loop])
  have ids: "(\<lambda>k. k \<in> us_id ` set ?users) = (\<lambda>k. map_of (l_users l) k \<noteq> None)"
    unfolding users_list(1) [OF assms(2), symmetric] map_of_eq_None_iff by (intro ext) (auto simp: image_image)
  have heap: "sp_heap t1 ! ref = (case map_of (l_users l) uid of None \<Rightarrow> sp_heap t ! ref
      | Some u \<Rightarrow> adjust_bucket api (effective_speed t uid (us_speed u)) (sp_heap t ! ref))"
    using buckets_heap [OF assms(3,4) users_list(2) [OF assms(2)] loop] unfolding users_list(1) [OF assms(2)] .
  have adjust: "(limit_of (adjust_bucket api s b), burst_of (adjust_bucket api s b)) = speed_settings s" for s b
    using assms(1) by (simp add: adjust_bucket_def rate_api_ok_def split: prod.split)
  show ?thesis
    unfolding t' ids heap using assms(4) adjust by (auto simp: go_map split: option.split)
qed

lemma plain_api_ok: "rate_api_ok plain_api fst (fst \<circ> snd)"
  by (auto simp: rate_api_ok_def plain_api_def)

definition sample_speed :: "(int \<times> int \<times> int) speed_tracker" where
  "sample_speed = \<lparr>sp_temporary = [(7, 10)], sp_buckets = [(7, 0)], sp_uuid_map = [(''u7'', 7)],
     sp_has_limits = True, sp_heap = [(2500000, 2500000, 100)]\<rparr>"

theorem speed_change_reaches_held_bucket_witness:
  "map_of (sp_buckets (update_buckets plain_api sample_limiter sample_speed)) 7 = Some 0 \<and>
   fst (sp_heap (update_buckets plain_api sample_limiter sample_speed) ! 0) = 1250000"
proof -
  have "limiter_ok sample_limiter" by (simp add: sample_limiter_def update_users_ok)
  moreover have "speed_ok sample_speed" by (simp add: speed_ok_def sample_speed_def)
  moreover have "map_of (sp_buckets sample_speed) 7 = Some 0" by (simp add: sample_speed_def)
  moreover have "map_of (l_users sample_limiter) 7 = Some (hd sample_users)"
    by (simp add: sample_limiter_def sample_users_def update_users_def rebuild_conn_limits_def Let_def split: prod.split)
  moreover have "speed_settings (effective_speed sample_speed 7 (us_speed (hd sample_users))) = (1250000, 1250000)"
    by (simp add: effective_speed_def sample_speed_def sample_users_def get_or_def speed_settings_def signed_divide_int_def)
  ultimately show ?thesis
    using speed_change_reaches_held_bucket [OF plain_api_ok, of sample_limiter sample_speed 7 0] by auto
qed

text \<open>The bucket of a plan of \<open>s\<close> Mbit/s admits exactly \<open>125000 s\<close> bytes per second with a burst of
  one second, as long as the products fit 64 bits; the two other burst rules never apply.\<close>

theorem speed_settings_exact:
  assumes "0 < s" and "s \<le> 9223372036854"
  shows "speed_settings s = (125000 * s, 125000 * s)"
proof -
  have "int64_of (s * 1000000) = s * 1000000" and "int64_of (125000 * s * 4) = 125000 * s * 4"
    using assms by (auto intro!: int64_of_id)
  moreover have "(s * 1000000) sdiv 8 = 125000 * s"
    using assms by (simp add: signed_divide_int_def sgn_if)
  ultimately show ?thesis using assms by (simp add: speed_settings_def Let_def)
qed

theorem speed_settings_exact_witness: "speed_settings 100 = (12500000, 12500000)"
  using speed_settings_exact [of 100] by simp

end
