(* ===== verification/AutoSpeed.thy ===== *)
theory AutoSpeed
  imports Prelude Float64
begin

text \<open>
  Model of \<open>internal/autospeed/manager.go\<close>, the temporary speed limits, and of the speed sampler of
  \<open>internal/service/user_speed.go\<close>. Times are nanoseconds since 1970, \<open>None\<close> is Go's zero time.
  The SHA-256 fingerprint of a rule is a parameter. The comparison
  \<open>float64(speed)*8 > float64(Threshold)*1e6\<close> is exact: both products are below \<open>2 ^ 53\<close> or, for a
  larger speed, far above every valid threshold.
\<close>

section \<open>Rules and state\<close>

record rule =
  ru_enabled :: bool
  ru_mode :: string
  ru_direction :: string
  ru_threshold :: int
  ru_target :: int
  ru_duration :: int
  ru_window :: int
  ru_hits :: int
  ru_hold :: int

definition rule_valid :: "rule option \<Rightarrow> bool" where
  "rule_valid rule =
     (case rule of
        None \<Rightarrow> False
      | Some r \<Rightarrow>
          if \<not> ru_enabled r then False
          else if ru_threshold r < 1 \<or> ru_threshold r > 100000 \<or> ru_target r < 1 \<or>
            ru_target r \<ge> ru_threshold r \<or> ru_hold r < 1 \<or> ru_hold r > 86400 then False
          else if ru_direction r \<noteq> ''upload'' \<and> ru_direction r \<noteq> ''download'' \<and> ru_direction r \<noteq> ''max'' then False
          else ru_mode r = ''continuous'' \<and> ru_duration r \<ge> 3 \<and> ru_duration r \<le> 3600 \<or>
            ru_mode r = ''window'' \<and> ru_window r \<ge> 3 \<and> ru_window r \<le> 3600 \<and> ru_hits r \<ge> 1 \<and> ru_hits r \<le> ru_window r)"

record penalty =
  pen_limit :: int
  pen_until :: int
  pen_rule :: string

definition no_penalty :: penalty where
  "no_penalty = \<lparr>pen_limit = 0, pen_until = 0, pen_rule = []\<rparr>"

record user_state =
  ur_config :: rule
  ur_rule :: string
  ur_since :: "int option"
  ur_hits :: "int list"
  ur_penalty :: penalty

record manager =
  m_users :: "(int, user_state) go_map"
  m_last :: "int option"

definition new_manager :: manager where
  "new_manager = \<lparr>m_users = [], m_last = None\<rparr>"

definition unix :: "int \<Rightarrow> int" where
  "unix t = t div 1000000000"

section \<open>Operations\<close>

fun sync_loop ::
  "(rule \<Rightarrow> string) \<Rightarrow> (int, rule option) go_map \<Rightarrow> (int, user_state) go_map \<Rightarrow> (int, user_state) go_map" where
  "sync_loop fingerprint [] users = users"
| "sync_loop fingerprint ((uid, r) # rules) users =
     sync_loop fingerprint rules
       (if r \<noteq> None \<and> map_option ur_config (map_of users uid) = r then users
        else if \<not> rule_valid r then AList.delete uid users
        else AList.update uid \<lparr>ur_config = the r, ur_rule = fingerprint (the r), ur_since = None, ur_hits = [],
               ur_penalty = no_penalty\<rparr> users)"

definition sync_rules :: "(rule \<Rightarrow> string) \<Rightarrow> (int, rule option) go_map \<Rightarrow> manager \<Rightarrow> manager" where
  "sync_rules fingerprint rules m =
     m\<lparr>m_users := sync_loop fingerprint rules (keep_keys (\<lambda>uid. get_or None rules uid \<noteq> None) (m_users m))\<rparr>"

definition rule_speed :: "rule \<Rightarrow> int \<times> int \<Rightarrow> int" where
  "rule_speed r v =
     (if ru_direction r = ''upload'' then fst v
      else if ru_direction r = ''max'' then max (fst v) (snd v)
      else snd v)"

definition above_threshold :: "rule \<Rightarrow> int \<times> int \<Rightarrow> bool" where
  "above_threshold r v = (rule_speed r v * 8 > ru_threshold r * 1000000)"

text \<open>One user's turn in the loop of \<open>UpdateSample\<close>: \<open>sample\<close> and \<open>gap\<close> as computed before the loop,
  \<open>at\<close> the sampling time.\<close>

definition clear_progress :: "user_state \<Rightarrow> user_state" where
  "clear_progress s = s\<lparr>ur_since := None, ur_hits := []\<rparr>"

definition judge_continuous :: "rule \<Rightarrow> bool \<Rightarrow> int \<Rightarrow> user_state \<Rightarrow> bool \<times> user_state" where
  "judge_continuous r fast at s =
     (if \<not> fast then (False, s\<lparr>ur_since := None\<rparr>)
      else case ur_since s of
        None \<Rightarrow> (False, s\<lparr>ur_since := Some at\<rparr>)
      | Some t \<Rightarrow> (at - t \<ge> ru_duration r * 1000000000, s))"

definition judge_window :: "rule \<Rightarrow> bool \<Rightarrow> int \<Rightarrow> user_state \<Rightarrow> bool \<times> user_state" where
  "judge_window r fast at s =
     (let hits = dropWhile (\<lambda>h. \<not> h > at - ru_window r * 1000000000) (ur_hits s);
          hits = (if fast \<and> (hits = [] \<or> unix (last hits) \<noteq> unix at) then hits @ [at] else hits) in
      (int (length hits) \<ge> ru_hits r, s\<lparr>ur_hits := hits\<rparr>))"

definition update_user ::
  "bool \<Rightarrow> bool \<Rightarrow> (int, int \<times> int) go_map option \<Rightarrow> int \<Rightarrow> int \<Rightarrow> int \<Rightarrow> user_state \<Rightarrow> user_state" where
  "update_user sample gap rates at now uid s =
     (let r = ur_config s in
      if pen_until (ur_penalty s) > unix now then s
      else if pen_until (ur_penalty s) \<noteq> 0 then clear_progress (s\<lparr>ur_penalty := no_penalty\<rparr>)
      else if \<not> sample then s
      else let s = (if gap \<or> rates = None then clear_progress s else s) in
        case rates of
          None \<Rightarrow> s
        | Some m \<Rightarrow>
            let fast = above_threshold r (get_or (0, 0) m uid);
                (trigger, s) = (if ru_mode r = ''continuous'' then judge_continuous r fast at s
                                else judge_window r fast at s) in
            if trigger
            then clear_progress (s\<lparr>ur_penalty :=
                   \<lparr>pen_limit = ru_target r, pen_until = unix (now + ru_hold r * 1000000000), pen_rule = ur_rule s\<rparr>\<rparr>)
            else s)"

definition penalties :: "int \<Rightarrow> manager \<Rightarrow> (int, penalty) go_map" where
  "penalties now m =
     map (\<lambda>(uid, s). (uid, ur_penalty s)) (filter (\<lambda>(uid, s). pen_until (ur_penalty s) > unix now) (m_users m))"

definition sample_gap :: "int option \<Rightarrow> int \<Rightarrow> bool" where
  "sample_gap last_at at = (case last_at of None \<Rightarrow> True | Some t \<Rightarrow> at - t > 5000000000 \<or> at < t)"

definition update_sample ::
  "(rule \<Rightarrow> string) \<Rightarrow> (int, rule option) go_map \<Rightarrow> (int, int \<times> int) go_map option \<Rightarrow> int option \<Rightarrow> int \<Rightarrow>
   manager \<Rightarrow> (int, penalty) go_map \<times> manager" where
  "update_sample fingerprint rules rates sampled_at now m =
     (let m = sync_rules fingerprint rules m;
          sample = (sampled_at \<noteq> None \<and> sampled_at \<noteq> m_last m);
          at = (case sampled_at of None \<Rightarrow> 0 | Some t \<Rightarrow> t);
          gap = sample_gap (m_last m) at;
          m = (if sample then m\<lparr>m_last := sampled_at\<rparr> else m);
          m = m\<lparr>m_users := map (\<lambda>(uid, s). (uid, update_user sample gap rates at now uid s)) (m_users m)\<rparr> in
      (penalties now m, m))"

definition restore_penalties ::
  "(rule \<Rightarrow> string) \<Rightarrow> (int, penalty) go_map \<Rightarrow> (int, rule option) go_map \<Rightarrow> int \<Rightarrow> manager \<Rightarrow> manager" where
  "restore_penalties fingerprint saved rules now m =
     (let m = sync_rules fingerprint rules m in
      m\<lparr>m_users := map (\<lambda>(uid, s).
          (uid, case map_of saved uid of
             None \<Rightarrow> s
           | Some p \<Rightarrow>
               if pen_rule p = ur_rule s \<and> pen_limit p = ru_target (ur_config s) \<and> pen_until p > unix now \<and>
                 pen_until p \<le> unix now + ru_hold (ur_config s)
               then s\<lparr>ur_penalty := p\<rparr> else s)) (m_users m)\<rparr>)"

section \<open>Speeds\<close>

text \<open>\<open>int64(math.Min(9007199254740991, float64(d)/elapsed.Seconds()))\<close>, \<open>d\<close> bytes in \<open>elapsed\<close> ns.\<close>

definition capped_rate :: "nat \<Rightarrow> nat \<Rightarrow> nat" where
  "capped_rate d elapsed = min 9007199254740991 (Float64.truncate (f64_div (f64 (d, 1)) (duration_seconds elapsed)))"

definition speed_rate :: "int \<Rightarrow> int \<Rightarrow> int \<Rightarrow> int" where
  "speed_rate current previous elapsed =
     (if elapsed \<le> 0 \<or> elapsed > 5000000000 \<or> current < previous \<or> previous < 0 then 0
      else int (capped_rate (nat (current - previous)) (nat elapsed)))"

record speed_sampler =
  ss_previous :: "(int, int \<times> int) go_map"
  ss_at :: "int option"
  ss_rates :: "(int, int \<times> int) go_map option"

fun sampler_loop ::
  "nat \<Rightarrow> (int, int \<times> int) go_map \<Rightarrow> (int, int \<times> int) go_map \<Rightarrow> bool \<Rightarrow> (int, int \<times> int) go_map \<Rightarrow>
   bool \<times> (int, int \<times> int) go_map" where
  "sampler_loop elapsed previous [] ready rates = (ready, rates)"
| "sampler_loop elapsed previous ((uid, current) # samples) ready rates =
     (let before = get_or (0, 0) previous uid;
          ready = (if fst current < 0 \<or> snd current < 0 \<or> fst before < 0 \<or> snd before < 0 \<or>
                      fst current < fst before \<or> snd current < snd before then False else ready) in
      if \<not> ready then sampler_loop elapsed previous samples ready rates
      else let v0 = int (capped_rate (nat (fst current - fst before)) elapsed);
               v1 = int (capped_rate (nat (snd current - snd before)) elapsed) in
        sampler_loop elapsed previous samples ready
          (if v0 > 0 \<or> v1 > 0 then AList.update uid (v0, v1) rates else rates))"

definition sample_speeds :: "(int, int \<times> int) go_map \<Rightarrow> int \<Rightarrow> speed_sampler \<Rightarrow> speed_sampler" where
  "sample_speeds samples now s =
     (let elapsed = (case ss_at s of None \<Rightarrow> 0 | Some t \<Rightarrow> now - t);
          ready0 = (ss_at s \<noteq> None \<and> elapsed > 0 \<and> elapsed \<le> 5000000000);
          (ready, rates) = sampler_loop (nat elapsed) (ss_previous s) samples ready0 [] in
      \<lparr>ss_previous = samples, ss_at = Some now, ss_rates = (if ready then Some rates else None)\<rparr>)"

section \<open>One user over a run of samples\<close>

text \<open>A sample: its time, the time of the update and the speeds, if the sampler has any.\<close>

type_synonym speed_sample = "int \<times> int \<times> (int, int \<times> int) go_map option"

definition feed :: "(rule \<Rightarrow> string) \<Rightarrow> (int, rule option) go_map \<Rightarrow> speed_sample \<Rightarrow> manager \<Rightarrow> manager" where
  "feed fingerprint rules x m = (let (at, now, rates) = x in snd (update_sample fingerprint rules rates (Some at) now m))"

definition feed_all :: "(rule \<Rightarrow> string) \<Rightarrow> (int, rule option) go_map \<Rightarrow> speed_sample list \<Rightarrow> manager" where
  "feed_all fingerprint rules xs = fold (feed fingerprint rules) xs new_manager"

definition too_fast :: "rule \<Rightarrow> int \<Rightarrow> speed_sample \<Rightarrow> bool" where
  "too_fast r uid x = (case snd (snd x) of None \<Rightarrow> False | Some m \<Rightarrow> above_threshold r (get_or (0, 0) m uid))"

fun contiguous :: "speed_sample list \<Rightarrow> bool" where
  "contiguous (x # y # zs) = (0 < fst y - fst x \<and> fst y - fst x \<le> 5000000000 \<and> contiguous (y # zs))"
| "contiguous zs = True"

lemma contiguous_snoc:
  "zs \<noteq> [] \<Longrightarrow> contiguous (zs @ [x]) \<longleftrightarrow> contiguous zs \<and> 0 < fst x - fst (last zs) \<and> fst x - fst (last zs) \<le> 5000000000"
  by (induction zs rule: contiguous.induct) auto

subsection \<open>Rules are kept in step\<close>

definition fresh_state :: "(rule \<Rightarrow> string) \<Rightarrow> rule \<Rightarrow> user_state" where
  "fresh_state fingerprint r = \<lparr>ur_config = r, ur_rule = fingerprint r, ur_since = None, ur_hits = [], ur_penalty = no_penalty\<rparr>"

lemma sync_loop_result:
  "distinct_keys rules \<Longrightarrow>
   map_of (sync_loop fingerprint rules users) uid =
     (case map_of rules uid of
        None \<Rightarrow> map_of users uid
      | Some r \<Rightarrow>
          if r \<noteq> None \<and> map_option ur_config (map_of users uid) = r then map_of users uid
          else if \<not> rule_valid r then None else Some (fresh_state fingerprint (the r)))"
proof (induction fingerprint rules users rule: sync_loop.induct)
  case (1 fingerprint users)
  then show ?case by simp
next
  case (2 fingerprint k r rules users)
  have "map_of rules k = None" using 2(2) by (simp add: map_of_eq_None_iff)
  then show ?case
    using 2 by (cases "k = uid") (auto simp: go_map fresh_state_def split: option.split)
qed

lemma distinct_sync_loop: "distinct_keys users \<Longrightarrow> distinct_keys (sync_loop fingerprint rules users)"
  by (induction fingerprint rules users rule: sync_loop.induct) auto

lemma rule_valid_None: "\<not> rule_valid None"
  by (simp add: rule_valid_def)

lemma sync_rules_result:
  assumes "distinct_keys rules"
  shows "map_of (m_users (sync_rules fingerprint rules m)) uid =
     (case get_or None rules uid of
        None \<Rightarrow> None
      | Some r \<Rightarrow>
          if map_option ur_config (map_of (m_users m) uid) = Some r then map_of (m_users m) uid
          else if \<not> rule_valid (Some r) then None else Some (fresh_state fingerprint r))"
proof -
  have rule: "get_or None rules uid = (case map_of rules uid of None \<Rightarrow> None | Some r \<Rightarrow> r)"
    by (rule get_or_def)
  show ?thesis
    unfolding sync_rules_def
    by (cases "map_of rules uid"; cases "the (map_of rules uid)")
      (auto simp: rule sync_loop_result [OF assms] go_map rule_valid_None)
qed

lemma update_sample_result:
  assumes "distinct_keys rules" and "x = (at, now, rates)" and m'_def: "m' = feed fingerprint rules x m"
  shows "m_last m' = Some at"
    and "map_of (m_users m') uid = map_option
       (update_user (Some at \<noteq> m_last m) (sample_gap (m_last m) at) rates at now uid)
       (map_of (m_users (sync_rules fingerprint rules m)) uid)"
  by (auto simp: m'_def assms(2) feed_def update_sample_def Let_def go_map sync_rules_def)

text \<open>The state of a user with a valid rule that does not change: it is there after the first sample.\<close>

definition state_after :: "(rule \<Rightarrow> string) \<Rightarrow> (int, rule option) go_map \<Rightarrow> int \<Rightarrow> rule \<Rightarrow> speed_sample list \<Rightarrow> user_state" where
  "state_after fingerprint rules uid r xs =
     (case map_of (m_users (feed_all fingerprint rules xs)) uid of
        None \<Rightarrow> fresh_state fingerprint r | Some s \<Rightarrow> s)"

lemma update_user_config [simp]:
  "ur_config (update_user sample gap rates at now uid s) = ur_config s"
  "ur_rule (update_user sample gap rates at now uid s) = ur_rule s"
  by (auto simp: update_user_def Let_def clear_progress_def judge_continuous_def judge_window_def
      split: option.split prod.split)

lemma feed_all_snoc: "feed_all fingerprint rules (xs @ [x]) = feed fingerprint rules x (feed_all fingerprint rules xs)"
  by (simp add: feed_all_def)

lemma feed_all_last:
  assumes "distinct_keys rules"
  shows "m_last (feed_all fingerprint rules xs) = (if xs = [] then None else Some (fst (last xs)))"
proof (cases xs rule: rev_cases)
  case Nil
  then show ?thesis by (simp add: feed_all_def new_manager_def)
next
  case (snoc ys y)
  then show ?thesis
    using update_sample_result(1) [OF assms _ refl, of y "fst y" "fst (snd y)" "snd (snd y)"]
    by (simp add: feed_all_snoc)
qed

lemma state_after_step:
  assumes "distinct_keys rules" and "map_of rules uid = Some (Some r)" and "rule_valid (Some r)"
    and m_def: "m = feed_all fingerprint rules xs"
  shows "ur_config (state_after fingerprint rules uid r xs) = r \<and>
    state_after fingerprint rules uid r (xs @ [x]) =
      update_user (Some (fst x) \<noteq> m_last m) (sample_gap (m_last m) (fst x)) (snd (snd x)) (fst x) (fst (snd x)) uid
        (state_after fingerprint rules uid r xs)"
  unfolding m_def
proof (induction xs arbitrary: x rule: rev_induct)
  case Nil
  show ?case
    using update_sample_result(2) [OF assms(1) _ refl, of x "fst x" "fst (snd x)" "snd (snd x)" fingerprint new_manager uid]
      sync_rules_result [OF assms(1), of fingerprint new_manager uid] assms(2,3)
    by (simp add: state_after_def feed_all_def new_manager_def get_or_def fresh_state_def)
next
  case (snoc y ys)
  have config: "ur_config (state_after fingerprint rules uid r (ys @ [y])) = r"
    using snoc [of y] by simp
  have "map_of (m_users (feed_all fingerprint rules (ys @ [y]))) uid \<noteq> None"
    using update_sample_result(2) [OF assms(1) _ refl, of y "fst y" "fst (snd y)" "snd (snd y)" fingerprint
        "feed_all fingerprint rules ys" uid]
      sync_rules_result [OF assms(1), of fingerprint "feed_all fingerprint rules ys" uid] assms(2,3)
    by (auto simp: feed_all_snoc get_or_def)
  then obtain s where s: "map_of (m_users (feed_all fingerprint rules (ys @ [y]))) uid = Some s" by blast
  then have "state_after fingerprint rules uid r (ys @ [y]) = s" by (simp add: state_after_def)
  moreover from this have "map_of (m_users (sync_rules fingerprint rules (feed_all fingerprint rules (ys @ [y])))) uid = Some s"
    using config s sync_rules_result [OF assms(1), of fingerprint "feed_all fingerprint rules (ys @ [y])" uid] assms(2)
    by (simp add: get_or_def)
  ultimately show ?case
    using config update_sample_result(2) [OF assms(1) _ refl, of x "fst x" "fst (snd x)" "snd (snd x)" fingerprint
        "feed_all fingerprint rules (ys @ [y])" uid]
      feed_all_snoc [of fingerprint rules "ys @ [y]" x]
    by (simp add: state_after_def)
qed

subsection \<open>Continuous mode\<close>

definition streak :: "rule \<Rightarrow> int \<Rightarrow> speed_sample list \<Rightarrow> speed_sample list \<Rightarrow> bool" where
  "streak r uid xs zs \<longleftrightarrow> (\<exists>ys. xs = ys @ zs) \<and> zs \<noteq> [] \<and> list_all (too_fast r uid) zs \<and> contiguous zs"

lemma streak_start: "too_fast r uid x \<Longrightarrow> streak r uid (xs @ [x]) [x]"
  by (simp add: streak_def)

lemma streak_extend:
  assumes "streak r uid xs zs" and "too_fast r uid x" and "0 < fst x - fst (last xs)" and "fst x - fst (last xs) \<le> 5000000000"
  shows "streak r uid (xs @ [x]) (zs @ [x])"
proof -
  have "last xs = last zs" and "zs \<noteq> []" using assms(1) by (auto simp: streak_def)
  then show ?thesis using assms by (auto simp: streak_def contiguous_snoc)
qed

definition since_justified :: "rule \<Rightarrow> int \<Rightarrow> speed_sample list \<Rightarrow> user_state \<Rightarrow> bool" where
  "since_justified r uid xs s \<longleftrightarrow>
     (pen_until (ur_penalty s) \<noteq> 0 \<longrightarrow> ur_since s = None) \<and>
     (\<forall>t. ur_since s = Some t \<longrightarrow> (\<exists>zs. streak r uid xs zs \<and> fst (hd zs) = t))"

lemma sample_gap_small:
  "\<not> sample_gap (Some t) at \<Longrightarrow> at \<noteq> t \<Longrightarrow> 0 < at - t \<and> at - t \<le> 5000000000"
  by (auto simp: sample_gap_def)

text \<open>One step: what becomes of \<open>since\<close>, and when a penalty starts.\<close>

lemma continuous_step:
  assumes "ur_config s = r" and "ru_mode r = ''continuous''" and "since_justified r uid xs s"
    and "last_at = (if xs = [] then None else Some (fst (last xs)))" and "Some (fst x) \<noteq> last_at"
    and now: "0 \<le> fst (snd x)"
  defines "s' \<equiv> update_user True (sample_gap last_at (fst x)) (snd (snd x)) (fst x) (fst (snd x)) uid s"
  shows "since_justified r uid (xs @ [x]) s'"
    and "pen_until (ur_penalty s) = 0 \<Longrightarrow> pen_until (ur_penalty s') \<noteq> 0 \<Longrightarrow>
      \<exists>zs. streak r uid (xs @ [x]) zs \<and> fst x - fst (hd zs) \<ge> ru_duration r * 1000000000 \<and>
        ur_penalty s' = \<lparr>pen_limit = ru_target r, pen_until = unix (fst (snd x) + ru_hold r * 1000000000), pen_rule = ur_rule s\<rparr>"
proof -
  obtain at now rates where x: "x = (at, now, rates)" by (metis prod_cases3)
  let ?gap = "sample_gap last_at at"
  have now: "\<not> unix now < 0" using now x by (simp add: unix_def)
  have "since_justified r uid (xs @ [x]) s' \<and> (pen_until (ur_penalty s) = 0 \<longrightarrow> pen_until (ur_penalty s') \<noteq> 0 \<longrightarrow>
      (\<exists>zs. streak r uid (xs @ [x]) zs \<and> at - fst (hd zs) \<ge> ru_duration r * 1000000000 \<and>
        ur_penalty s' = \<lparr>pen_limit = ru_target r, pen_until = unix (now + ru_hold r * 1000000000), pen_rule = ur_rule s\<rparr>))"
  proof (cases "pen_until (ur_penalty s) \<noteq> 0 \<or> rates = None \<or> \<not> too_fast r uid x")
    case True
    then show ?thesis
      using assms(1-3) now
      by (auto simp: s'_def x update_user_def clear_progress_def no_penalty_def since_justified_def Let_def
          judge_continuous_def too_fast_def split: option.splits)
  next
    case False
    then obtain m where m: "rates = Some m" by (cases rates) auto
    have fast: "above_threshold r (get_or (0, 0) m uid)" using False m x by (simp add: too_fast_def)
    have zero: "pen_until (ur_penalty s) = 0" using False by simp
    let ?s = "if ?gap then clear_progress s else s"
    have s': "s' = (let (trigger, s1) = judge_continuous r True at ?s in
        if trigger then clear_progress (s1\<lparr>ur_penalty := \<lparr>pen_limit = ru_target r,
          pen_until = unix (now + ru_hold r * 1000000000), pen_rule = ur_rule s1\<rparr>\<rparr>) else s1)"
      using assms(1,2) zero fast m now by (auto simp: s'_def x update_user_def Let_def clear_progress_def)
    show ?thesis
    proof (cases "ur_since ?s")
      case None
      then show ?thesis
        using streak_start [of r uid x xs] False zero
        by (auto simp: s' judge_continuous_def since_justified_def x clear_progress_def)
    next
      case (Some t)
      then have gap: "\<not> ?gap" and since: "ur_since s = Some t" by (auto simp: clear_progress_def split: if_splits)
      obtain zs where zs: "streak r uid xs zs" "fst (hd zs) = t" using assms(3) since by (auto simp: since_justified_def)
      then have xs: "xs \<noteq> []" by (auto simp: streak_def)
      then have "0 < at - fst (last xs) \<and> at - fst (last xs) \<le> 5000000000"
        using gap assms(4,5) x by (intro sample_gap_small) auto
      then have longer: "streak r uid (xs @ [x]) (zs @ [x])"
        using zs False x by (intro streak_extend) auto
      have hd: "fst (hd (zs @ [x])) = t" using zs by (cases zs) (auto simp: streak_def)
      have s'': "s' = (if at - t \<ge> ru_duration r * 1000000000
          then clear_progress (s\<lparr>ur_penalty := \<lparr>pen_limit = ru_target r,
            pen_until = unix (now + ru_hold r * 1000000000), pen_rule = ur_rule s\<rparr>\<rparr>) else s)"
        using gap since by (simp add: s' judge_continuous_def)
      show ?thesis
        using longer hd since zero
        by (auto simp: s'' clear_progress_def since_justified_def intro!: exI [of _ "zs @ [x]"])
    qed
  qed
  then show "since_justified r uid (xs @ [x]) s'"
    and "pen_until (ur_penalty s) = 0 \<Longrightarrow> pen_until (ur_penalty s') \<noteq> 0 \<Longrightarrow>
      \<exists>zs. streak r uid (xs @ [x]) zs \<and> fst x - fst (hd zs) \<ge> ru_duration r * 1000000000 \<and>
        ur_penalty s' = \<lparr>pen_limit = ru_target r, pen_until = unix (fst (snd x) + ru_hold r * 1000000000), pen_rule = ur_rule s\<rparr>"
    by (auto simp: x)
qed

lemma distinct_adj_snoc: "distinct_adj (map fst (xs @ [x])) \<longleftrightarrow> distinct_adj (map fst xs) \<and> (xs = [] \<or> fst (last xs) \<noteq> fst x)"
  by (induction xs rule: induct_list012) auto

lemma state_after_Nil: "state_after fingerprint rules uid r [] = fresh_state fingerprint r"
  by (simp add: state_after_def feed_all_def new_manager_def)

lemma state_after_rule:
  assumes "distinct_keys rules" and "map_of rules uid = Some (Some r)" and "rule_valid (Some r)"
  shows "ur_rule (state_after fingerprint rules uid r xs) = fingerprint r"
proof (induction xs rule: rev_induct)
  case Nil
  then show ?case by (simp add: state_after_Nil fresh_state_def)
next
  case (snoc x xs)
  then show ?case using state_after_step [OF assms refl, of fingerprint xs x] by simp
qed

lemma since_justified_run:
  assumes "distinct_keys rules" and "map_of rules uid = Some (Some r)" and "rule_valid (Some r)"
    and "ru_mode r = ''continuous''" and "distinct_adj (map fst xs)" and "list_all (\<lambda>x. 0 \<le> fst (snd x)) xs"
  shows "since_justified r uid xs (state_after fingerprint rules uid r xs)"
  using assms(5,6)
proof (induction xs rule: rev_induct)
  case Nil
  then show ?case by (simp add: state_after_Nil fresh_state_def since_justified_def)
next
  case (snoc x xs)
  note last = feed_all_last [OF assms(1), of fingerprint xs]
  note step = state_after_step [OF assms(1-3) refl, of fingerprint xs x]
  have differs: "Some (fst x) \<noteq> m_last (feed_all fingerprint rules xs)"
    using snoc.prems by (auto simp: last distinct_adj_snoc simp del: map_append)
  have now: "0 \<le> fst (snd x)" using snoc.prems by simp
  have "since_justified r uid xs (state_after fingerprint rules uid r xs)"
    using snoc by (simp add: distinct_adj_snoc del: map_append)
  from continuous_step(1) [OF _ assms(4) this last differs now] step differs show ?case by simp
qed


definition steady_rule :: rule where
  "steady_rule = \<lparr>ru_enabled = True, ru_mode = ''continuous'', ru_direction = ''download'', ru_threshold = 8,
     ru_target = 2, ru_duration = 3, ru_window = 0, ru_hits = 0, ru_hold = 60\<rparr>"

definition fast_at :: "int \<Rightarrow> speed_sample" where
  "fast_at s = (s * 1000000000, s * 1000000000, Some [(7, (0, 2000000))])"

definition no_print :: "rule \<Rightarrow> string" where
  "no_print r = ''f''"

lemmas autospeed_eval = state_after_def feed_all_def feed_def update_sample_def sync_rules_def new_manager_def
  keep_keys_def sample_gap_def update_user_def penalties_def judge_continuous_def judge_window_def
  clear_progress_def no_penalty_def above_threshold_def rule_speed_def rule_valid_def unix_def get_or_def Let_def


subsection \<open>Window mode\<close>

lemma dropWhile_above:
  "sorted_wrt (<) hs \<Longrightarrow> \<forall>h \<in> set (dropWhile (\<lambda>h. \<not> h > (b :: int)) hs). h > b"
proof (induction hs)
  case Nil
  then show ?case by simp
next
  case (Cons h hs)
  show ?case
  proof (cases "h > b")
    case True
    have "\<forall>k \<in> set hs. h < k" using Cons.prems by simp
    then have "\<forall>k \<in> set hs. b < k" using True less_trans by blast
    then show ?thesis using True by simp
  next
    case False
    have "sorted_wrt (<) hs" using Cons.prems by simp
    from Cons.IH [OF this] show ?thesis using False by (simp only: dropWhile.simps if_True not_less [symmetric] simp_thms)
  qed
qed

lemma sorted_dropWhile: "sorted_wrt P hs \<Longrightarrow> sorted_wrt P (dropWhile Q hs)"
  by (induction hs) auto

lemma sorted_last:
  fixes f :: "'a \<Rightarrow> int"
  shows "sorted_wrt (<) (map f hs) \<Longrightarrow> h \<in> set hs \<Longrightarrow> f h \<le> f (last hs)"
  by (cases hs rule: rev_cases) (auto simp: sorted_wrt_append less_imp_le)

lemma unix_less: "unix a < unix b \<Longrightarrow> a < b"
  unfolding unix_def by (meson linorder_not_less zdiv_mono1 zero_less_numeral)

lemma unix_le: "a \<le> b \<Longrightarrow> unix a \<le> unix b"
  by (simp add: unix_def zdiv_mono1)

lemma sorted_unix: "sorted_wrt (<) (map unix hs) \<Longrightarrow> sorted_wrt (<) hs"
  by (induction hs) (auto dest: unix_less)

definition hits_justified :: "rule \<Rightarrow> int \<Rightarrow> speed_sample list \<Rightarrow> user_state \<Rightarrow> bool" where
  "hits_justified r uid xs s \<longleftrightarrow>
     (pen_until (ur_penalty s) \<noteq> 0 \<longrightarrow> ur_hits s = []) \<and> sorted_wrt (<) (map unix (ur_hits s)) \<and>
     (\<forall>h \<in> set (ur_hits s). xs \<noteq> [] \<and> h \<le> fst (last xs) \<and> (\<exists>y \<in> set xs. fst y = h \<and> too_fast r uid y))"

lemma window_step:
  assumes "ur_config s = r" and "ru_mode r = ''window''" and "hits_justified r uid xs s" and "0 < ru_window r"
    and "last_at = (if xs = [] then None else Some (fst (last xs)))" and "0 \<le> fst (snd x)"
    and s'_def: "s' = update_user (Some (fst x) \<noteq> last_at) (sample_gap last_at (fst x)) (snd (snd x)) (fst x) (fst (snd x)) uid s"
  shows "hits_justified r uid (xs @ [x]) s' \<and>
    (pen_until (ur_penalty s) = 0 \<longrightarrow> pen_until (ur_penalty s') \<noteq> 0 \<longrightarrow>
      (\<exists>hs. int (length hs) \<ge> ru_hits r \<and> sorted_wrt (<) (map unix hs) \<and>
        (\<forall>h \<in> set hs. fst x - ru_window r * 1000000000 < h \<and> h \<le> fst x \<and>
           (\<exists>y \<in> set (xs @ [x]). fst y = h \<and> too_fast r uid y))))"
proof -
  obtain at now rates where x: "x = (at, now, rates)" by (metis prod_cases3)
  have now: "\<not> unix now < 0" using assms(6) x by (simp add: unix_def)
  let ?gap = "sample_gap last_at at"
  let ?s = "if ?gap then clear_progress s else s"
  have order: "h \<le> at" if "h \<in> set (ur_hits ?s)" for h
    using that assms(3,5) by (auto simp: clear_progress_def sample_gap_def hits_justified_def split: if_splits)
  consider (other) "s' = s" "ur_hits s = [] \<or> at = fst (last xs)" | (reset) "ur_hits s' = []" "ur_penalty s' = no_penalty \<or> ur_penalty s' = ur_penalty s"
    | (judged) m where "rates = Some m" "pen_until (ur_penalty s) = 0" "Some at \<noteq> last_at"
        "s' = (let (trigger, s1) = judge_window r (above_threshold r (get_or (0, 0) m uid)) at ?s in
          if trigger then clear_progress (s1\<lparr>ur_penalty := \<lparr>pen_limit = ru_target r,
            pen_until = unix (now + ru_hold r * 1000000000), pen_rule = ur_rule s1\<rparr>\<rparr>) else s1)"
  proof (cases "pen_until (ur_penalty s) \<noteq> 0 \<or> Some at = last_at \<or> rates = None")
    case True
    have skip: "at = fst (last xs) \<or> ur_hits s = []" if "Some at = last_at"
      using that assms(5) by (auto split: if_splits)
    show ?thesis
    proof (cases "pen_until (ur_penalty s) \<noteq> 0")
      case True
      then have "ur_hits s = []" using assms(3) by (simp add: hits_justified_def)
      moreover have "s' = s \<or> s' = clear_progress (s\<lparr>ur_penalty := no_penalty\<rparr>)"
        using True by (auto simp: s'_def x update_user_def Let_def)
      ultimately show ?thesis using that(1,2) by (auto simp: clear_progress_def)
    next
      case False
      then have none: "Some at = last_at \<or> Some at \<noteq> last_at \<and> rates = None" using True by blast
      have "s' = (if Some at = last_at then s else clear_progress s)"
        using False none now by (auto simp: s'_def x update_user_def Let_def)
      then show ?thesis using skip that(1,2) by (auto simp: clear_progress_def split: if_splits)
    qed
  next
    case False
    then obtain m where "rates = Some m" by (cases rates) auto
    then show ?thesis
      using False assms(1,2) now
      by (intro that(3) [of m]) (auto simp: s'_def x update_user_def Let_def clear_progress_def)
  qed
  then show ?thesis
  proof cases
    case other
    then show ?thesis using assms(3) by (auto simp: hits_justified_def x)
  next
    case reset
    then show ?thesis using assms(3) by (auto simp: hits_justified_def no_penalty_def)
  next
    case judged
    let ?fast = "above_threshold r (get_or (0, 0) m uid)"
    let ?bound = "at - ru_window r * 1000000000"
    define kept where "kept = dropWhile (\<lambda>h. \<not> h > ?bound) (ur_hits ?s)"
    let ?hits = "if ?fast \<and> (kept = [] \<or> unix (last kept) \<noteq> unix at) then kept @ [at] else kept"
    have fast: "too_fast r uid x = ?fast" using judged(1) by (simp add: too_fast_def x)
    have kept_sub: "set kept \<subseteq> set (ur_hits ?s)" unfolding kept_def by (rule set_dropWhileD [THEN subsetI])
    have s_sorted: "sorted_wrt (<) (map unix (ur_hits ?s))"
      using assms(3) by (auto simp: clear_progress_def hits_justified_def)
    then have plain_sorted: "sorted_wrt (<) (ur_hits ?s)" by (rule sorted_unix)
    have kept_above: "\<forall>h \<in> set kept. h > ?bound" unfolding kept_def by (rule dropWhile_above [OF plain_sorted])
    have kept_sorted: "sorted_wrt (<) (map unix kept)"
      using s_sorted unfolding kept_def by (simp only: sorted_wrt_map) (rule sorted_dropWhile)
    have hits_sorted: "sorted_wrt (<) (map unix ?hits)"
    proof (cases "?fast \<and> (kept = [] \<or> unix (last kept) \<noteq> unix at)")
      case True
      have "unix h < unix at" if "h \<in> set kept" for h
      proof -
        have ne: "kept \<noteq> []" using that by auto
        have "last kept \<le> at" using ne kept_sub order by (meson last_in_set subsetD)
        then have "unix (last kept) < unix at" using True ne unix_le by fastforce
        moreover have "unix h \<le> unix (last kept)" by (rule sorted_last [OF kept_sorted that])
        ultimately show ?thesis by simp
      qed
      then show ?thesis using True kept_sorted by (auto simp: sorted_wrt_append)
    next
      case False
      then show ?thesis using kept_sorted by auto
    qed
    have hits_ok: "\<forall>h \<in> set ?hits. h \<le> at \<and> (\<exists>y \<in> set (xs @ [x]). fst y = h \<and> too_fast r uid y)"
    proof
      fix h assume "h \<in> set ?hits"
      then have "h \<in> set kept \<or> h = at \<and> ?fast" by (cases "?fast \<and> (kept = [] \<or> unix (last kept) \<noteq> unix at)") auto
      then show "h \<le> at \<and> (\<exists>y \<in> set (xs @ [x]). fst y = h \<and> too_fast r uid y)"
      proof
        assume "h \<in> set kept"
        then have h: "h \<in> set (ur_hits ?s)" using kept_sub by blast
        then have "h \<in> set (ur_hits s)" by (cases ?gap) (simp_all add: clear_progress_def)
        then have "\<exists>y \<in> set xs. fst y = h \<and> too_fast r uid y" using assms(3) unfolding hits_justified_def by blast
        then show ?thesis using order [OF h] by auto
      next
        assume "h = at \<and> ?fast"
        then show ?thesis using fast by (auto simp: x)
      qed
    qed
    have hits_above: "\<forall>h \<in> set ?hits. ?bound < h"
      using kept_above assms(4) by (cases "?fast \<and> (kept = [] \<or> unix (last kept) \<noteq> unix at)") auto
    define H where "H = ?hits"
    note H = hits_sorted [folded H_def] hits_ok [folded H_def] hits_above [folded H_def]
    have s': "s' = (if int (length H) \<ge> ru_hits r
        then clear_progress (?s\<lparr>ur_hits := H, ur_penalty := \<lparr>pen_limit = ru_target r,
          pen_until = unix (now + ru_hold r * 1000000000), pen_rule = ur_rule ?s\<rparr>\<rparr>)
        else ?s\<lparr>ur_hits := H\<rparr>)"
      unfolding judged(4) judge_window_def Let_def prod.case H_def kept_def by simp
    have pen: "ur_penalty ?s = ur_penalty s" by (simp add: clear_progress_def)
    show ?thesis
    proof (cases "int (length H) \<ge> ru_hits r")
      case True
      have empty: "ur_hits s' = []" unfolding s' if_P [OF True] by (simp add: clear_progress_def)
      have "hits_justified r uid (xs @ [x]) s'" by (simp add: hits_justified_def empty)
      moreover have "\<exists>hs. int (length hs) \<ge> ru_hits r \<and> sorted_wrt (<) (map unix hs) \<and>
        (\<forall>h \<in> set hs. fst x - ru_window r * 1000000000 < h \<and> h \<le> fst x \<and>
           (\<exists>y \<in> set (xs @ [x]). fst y = h \<and> too_fast r uid y))"
        using True H by (intro exI [of _ H]) (simp add: x)
      ultimately show ?thesis by blast
    next
      case False
      have keep: "ur_hits s' = H" "ur_penalty s' = ur_penalty s" unfolding s' if_not_P [OF False] using pen by simp_all
      have "hits_justified r uid (xs @ [x]) s'"
        unfolding hits_justified_def keep using H judged(2) by (simp add: x)
      then show ?thesis using judged(2) by (simp add: keep)
    qed
  qed
qed

lemma valid_window: "rule_valid (Some r) \<Longrightarrow> ru_mode r = ''window'' \<Longrightarrow> 0 < ru_window r"
  by (simp add: rule_valid_def split: if_splits)

lemma hits_justified_run:
  assumes "distinct_keys rules" and "map_of rules uid = Some (Some r)" and "rule_valid (Some r)"
    and "ru_mode r = ''window''" and "list_all (\<lambda>x. 0 \<le> fst (snd x)) xs"
  shows "hits_justified r uid xs (state_after fingerprint rules uid r xs)"
  using assms(5)
proof (induction xs rule: rev_induct)
  case Nil
  then show ?case by (simp add: state_after_Nil fresh_state_def hits_justified_def)
next
  case (snoc x xs)
  note last = feed_all_last [OF assms(1), of fingerprint xs]
  note step = state_after_step [OF assms(1-3) refl, of fingerprint xs x]
  have now: "0 \<le> fst (snd x)" and before: "list_all (\<lambda>x. 0 \<le> fst (snd x)) xs" using snoc.prems by simp_all
  from window_step [OF _ assms(4) snoc.IH [OF before] valid_window [OF assms(3,4)] last now refl] step
  show ?case by simp
qed

text \<open>A window rule limits a user only for cause: when a limit starts at a sample, at least the
  configured number of samples above the threshold, in different seconds, lie in the window that
  ends at that sample.\<close>

theorem window_penalty_justified:
  assumes "distinct_keys rules" and "map_of rules uid = Some (Some r)" and "rule_valid (Some r)"
    and "ru_mode r = ''window''" and "list_all (\<lambda>x. 0 \<le> fst (snd x)) (xs @ [x])"
    and "pen_until (ur_penalty (state_after fingerprint rules uid r xs)) = 0"
    and "pen_until (ur_penalty (state_after fingerprint rules uid r (xs @ [x]))) \<noteq> 0"
  shows "\<exists>hs. int (length hs) \<ge> ru_hits r \<and> sorted_wrt (<) (map unix hs) \<and>
    (\<forall>h \<in> set hs. fst x - ru_window r * 1000000000 < h \<and> h \<le> fst x \<and>
       (\<exists>y \<in> set (xs @ [x]). fst y = h \<and> too_fast r uid y))"
proof -
  note last = feed_all_last [OF assms(1), of fingerprint xs]
  note step = state_after_step [OF assms(1-3) refl, of fingerprint xs x]
  have now: "0 \<le> fst (snd x)" and before: "list_all (\<lambda>x. 0 \<le> fst (snd x)) xs" using assms(5) by simp_all
  show ?thesis
    using window_step [OF _ assms(4) hits_justified_run [OF assms(1-4) before, of fingerprint]
        valid_window [OF assms(3,4)] last now refl] step assms(6,7) by simp
qed

definition burst_rule :: rule where
  "burst_rule = steady_rule\<lparr>ru_mode := ''window'', ru_window := 10, ru_hits := 2\<rparr>"

theorem window_penalty_justified_witness:
  "\<exists>hs. int (length hs) \<ge> 2 \<and> sorted_wrt (<) (map unix hs) \<and>
    (\<forall>h \<in> set hs. 2 * 1000000000 - 10 * 1000000000 < h \<and> h \<le> 2 * 1000000000 \<and>
       (\<exists>y \<in> set (map fast_at [1] @ [fast_at 2]). fst y = h \<and> too_fast burst_rule 7 y))"
proof -
  let ?st = "\<lambda>xs. ur_penalty (state_after no_print [(7, Some burst_rule)] 7 burst_rule xs)"
  have "pen_until (?st (map fast_at [1])) = 0" "pen_until (?st (map fast_at [1] @ [fast_at 2])) = 62"
    by (simp_all add: autospeed_eval fast_at_def burst_rule_def steady_rule_def no_print_def)
  moreover have "rule_valid (Some burst_rule)" "ru_mode burst_rule = ''window''" "ru_hits burst_rule = 2"
    "ru_window burst_rule = 10" "fst (fast_at 2) = 2 * 1000000000"
    by (simp_all add: rule_valid_def burst_rule_def steady_rule_def fast_at_def)
  ultimately show ?thesis
    using window_penalty_justified [of "[(7, Some burst_rule)]" 7 burst_rule "map fast_at [1]" "fast_at 2" no_print]
    by (simp add: fast_at_def)
qed

subsection \<open>Limits stay within their rule\<close>

datatype autospeed_op =
    AUpdate "(int, rule option) go_map" "(int, int \<times> int) go_map option" "int option" int
  | ARestore "(int, penalty) go_map" "(int, rule option) go_map" int

fun autospeed_step :: "(rule \<Rightarrow> string) \<Rightarrow> autospeed_op \<Rightarrow> manager \<Rightarrow> manager" where
  "autospeed_step fingerprint (AUpdate rules rates at now) m = snd (update_sample fingerprint rules rates at now m)"
| "autospeed_step fingerprint (ARestore saved rules now) m = restore_penalties fingerprint saved rules now m"

definition penalty_in_rule :: "(rule \<Rightarrow> string) \<Rightarrow> user_state \<Rightarrow> bool" where
  "penalty_in_rule fingerprint s \<longleftrightarrow>
     rule_valid (Some (ur_config s)) \<and> ur_rule s = fingerprint (ur_config s) \<and>
     (ur_penalty s = no_penalty \<or>
      pen_limit (ur_penalty s) = ru_target (ur_config s) \<and> pen_rule (ur_penalty s) = fingerprint (ur_config s))"

definition manager_ok :: "(rule \<Rightarrow> string) \<Rightarrow> manager \<Rightarrow> bool" where
  "manager_ok fingerprint m = (\<forall>e \<in> set (m_users m). penalty_in_rule fingerprint (snd e))"

lemma sync_loop_ok:
  "(\<forall>e \<in> set users. penalty_in_rule fingerprint (snd e)) \<Longrightarrow>
   \<forall>e \<in> set (sync_loop fingerprint rules users). penalty_in_rule fingerprint (snd e)"
proof (induction fingerprint rules users rule: sync_loop.induct)
  case (1 fingerprint users)
  then show ?case by simp
next
  case (2 fingerprint uid r rules users)
  let ?s = "\<lparr>ur_config = the r, ur_rule = fingerprint (the r), ur_since = None, ur_hits = [], ur_penalty = no_penalty\<rparr>"
  have new: "penalty_in_rule fingerprint ?s" if "rule_valid r"
    using that by (cases r) (auto simp: penalty_in_rule_def rule_valid_None)
  have "\<forall>e \<in> set (AList.update uid ?s users). penalty_in_rule fingerprint (snd e)" if "rule_valid r"
    using 2(2) new [OF that] by (induction users) auto
  moreover have "\<forall>e \<in> set (AList.delete uid users). penalty_in_rule fingerprint (snd e)"
    using 2(2) by (auto simp: AList.delete_eq)
  ultimately show ?case unfolding sync_loop.simps using 2(2) by (intro 2(1)) auto
qed

lemma sync_rules_ok: "manager_ok fingerprint m \<Longrightarrow> manager_ok fingerprint (sync_rules fingerprint rules m)"
proof -
  assume "manager_ok fingerprint m"
  then have "\<forall>e \<in> set (keep_keys (\<lambda>uid. get_or None rules uid \<noteq> None) (m_users m)). penalty_in_rule fingerprint (snd e)"
    unfolding manager_ok_def keep_keys_def by (meson filter_is_subset subsetD)
  from sync_loop_ok [OF this, of rules] show ?thesis unfolding manager_ok_def sync_rules_def by simp
qed

lemma judge_frame:
  "ur_config (snd (judge_continuous r fast at s)) = ur_config s" "ur_config (snd (judge_window r fast at s)) = ur_config s"
  "ur_rule (snd (judge_continuous r fast at s)) = ur_rule s" "ur_rule (snd (judge_window r fast at s)) = ur_rule s"
  "ur_penalty (snd (judge_continuous r fast at s)) = ur_penalty s" "ur_penalty (snd (judge_window r fast at s)) = ur_penalty s"
  by (simp_all add: judge_continuous_def judge_window_def Let_def split: option.split)

lemma clear_frame:
  "ur_config (clear_progress s) = ur_config s" "ur_rule (clear_progress s) = ur_rule s"
  "ur_penalty (clear_progress s) = ur_penalty s"
  by (simp_all add: clear_progress_def)

lemma update_user_penalty:
  "ur_penalty (update_user sample gap rates at now uid s) \<in>
     {ur_penalty s, no_penalty, \<lparr>pen_limit = ru_target (ur_config s),
        pen_until = unix (now + ru_hold (ur_config s) * 1000000000), pen_rule = ur_rule s\<rparr>}"
  by (cases rates) (simp_all add: update_user_def Let_def clear_frame judge_frame split_def)

lemma update_user_ok:
  "penalty_in_rule fingerprint s \<Longrightarrow> penalty_in_rule fingerprint (update_user sample gap rates at now uid s)"
  using update_user_penalty [of sample gap rates at now uid s] by (auto simp: penalty_in_rule_def)

lemma restored_ok:
  "penalty_in_rule fingerprint s \<Longrightarrow> penalty_in_rule fingerprint
     (case saved of None \<Rightarrow> s | Some p \<Rightarrow>
        if pen_rule p = ur_rule s \<and> pen_limit p = ru_target (ur_config s) \<and> Q p then s\<lparr>ur_penalty := p\<rparr> else s)"
  by (simp add: penalty_in_rule_def split: option.split)

interpretation autospeed_run: invariant_machine "autospeed_step fingerprint" "manager_ok fingerprint" for fingerprint
proof unfold_locales
  fix m e
  assume m: "manager_ok fingerprint m"
  show "manager_ok fingerprint (autospeed_step fingerprint e m)"
  proof (cases e)
    case (AUpdate rules rates at now)
    have "manager_ok fingerprint (sync_rules fingerprint rules m)" using m by (rule sync_rules_ok)
    then show ?thesis
      by (auto simp: AUpdate update_sample_def manager_ok_def Let_def intro!: update_user_ok)
  next
    case (ARestore saved rules now)
    have "manager_ok fingerprint (sync_rules fingerprint rules m)" using m by (rule sync_rules_ok)
    then show ?thesis
      by (auto simp: ARestore restore_penalties_def manager_ok_def Let_def intro!: restored_ok)
  qed
qed

text \<open>Over any history of samples, rule changes and restored files, a limit in force is the target
  of the user's present, valid rule and carries its fingerprint; in particular it is positive and
  below the rule's threshold.\<close>

theorem active_limit_in_rule:
  assumes m_def: "m = fold (autospeed_step fingerprint) ops new_manager" and "(uid, p) \<in> set (penalties now m)"
    and "0 \<le> now"
  shows "\<exists>s. (uid, s) \<in> set (m_users m) \<and> pen_limit p = ru_target (ur_config s) \<and>
    pen_rule p = fingerprint (ur_config s) \<and> 0 < pen_limit p \<and> pen_limit p < ru_threshold (ur_config s)"
proof -
  have "manager_ok fingerprint m"
    unfolding m_def by (rule autospeed_run.run_inv) (simp add: manager_ok_def new_manager_def)
  moreover obtain s where s: "(uid, s) \<in> set (m_users m)" "p = ur_penalty s" "pen_until p > unix now"
    using assms(2) by (auto simp: penalties_def)
  moreover have "p \<noteq> no_penalty" using s(3) assms(3) by (auto simp: no_penalty_def unix_def)
  ultimately have "penalty_in_rule fingerprint s" "p = ur_penalty s" "p \<noteq> no_penalty" by (auto simp: manager_ok_def)
  then have "pen_limit p = ru_target (ur_config s)" "pen_rule p = fingerprint (ur_config s)" "rule_valid (Some (ur_config s))"
    by (auto simp: penalty_in_rule_def)
  then show ?thesis using s(1) by (auto simp: rule_valid_def split: if_splits)
qed

theorem active_limit_in_rule_witness:
  "\<exists>s. (7, s) \<in> set (m_users (fold (autospeed_step no_print)
       [ARestore [(7, \<lparr>pen_limit = 2, pen_until = 30, pen_rule = ''f''\<rparr>)] [(7, Some steady_rule)] 0] new_manager)) \<and>
     2 = ru_target (ur_config s)"
proof -
  let ?p = "\<lparr>pen_limit = 2, pen_until = 30, pen_rule = ''f''\<rparr>"
  define m where "m = fold (autospeed_step no_print) [ARestore [(7, ?p)] [(7, Some steady_rule)] 0] new_manager"
  have "(7, ?p) \<in> set (penalties 0 m)"
    by (simp add: m_def restore_penalties_def autospeed_eval steady_rule_def no_print_def)
  from active_limit_in_rule [OF m_def this] show ?thesis by (auto simp: m_def)
qed

end
