(* ===== verification/Balancer.thy ===== *)
theory Balancer
  imports Prelude "HOL-Library.Multiset"
begin

text \<open>
  Model of \<open>internal/balancer\<close> (\<open>selector.go\<close>, the connection loop and admission of \<open>runtime.go\<close>,
  \<open>proxy.go\<close>) and of \<open>internal/balancerkernel/kernel.go\<close>. Sockets are parameters: which addresses can
  be listened on, which targets answer, when the deadline has passed. Copying bytes between the two
  connections is not modelled.
\<close>

section \<open>Targets and selector\<close>

record target =
  tg_id :: int
  tg_address :: string
  tg_priority :: int
  tg_online :: bool

record selector =
  sel_targets :: "target list"
  sel_cursors :: "(int, u64) go_map"

datatype balancer_error = BadMember | BadAddress | BadNetwork | BadSessions | ListenFailed | MissingConfig

definition target_address_ok :: "string \<Rightarrow> bool" where
  "target_address_ok address =
     (case split_host_port address of
        None \<Rightarrow> False
      | Some (host, port) \<Rightarrow>
          host \<noteq> [] \<and> (case atoi port of None \<Rightarrow> False | Some n \<Rightarrow> 1 \<le> n \<and> n \<le> 65535))"

text \<open>The checks of \<open>Update\<close>: \<open>seen\<close> and \<open>addresses\<close> are the ids and addresses met so far.\<close>

fun check_targets :: "target list \<Rightarrow> int list \<Rightarrow> string list \<Rightarrow> balancer_error option" where
  "check_targets [] seen addresses = None"
| "check_targets (t # ts) seen addresses =
     (if tg_id t \<le> 0 \<or> tg_id t \<in> set seen \<or> tg_priority t < 1 \<or> tg_priority t > 65535 then Some BadMember
      else if \<not> target_address_ok (tg_address t) \<or> tg_address t \<in> set addresses then Some BadAddress
      else check_targets ts (tg_id t # seen) (tg_address t # addresses))"

definition order_targets :: "target list \<Rightarrow> target list" where
  "order_targets ts = sort_key tg_priority (sort_key tg_id ts)"

definition update_targets :: "target list \<Rightarrow> selector \<Rightarrow> balancer_error option \<times> selector" where
  "update_targets targets s =
     (case check_targets targets [] [] of
        Some e \<Rightarrow> (Some e, s)
      | None \<Rightarrow> (None, s\<lparr>sel_targets := order_targets targets\<rparr>))"

definition new_selector :: "target list \<Rightarrow> balancer_error + selector" where
  "new_selector targets =
     (let (e, s) = update_targets targets \<lparr>sel_targets = [], sel_cursors = []\<rparr> in
      case e of Some x \<Rightarrow> Inl x | None \<Rightarrow> Inr s)"

fun eligible_loop :: "int list \<Rightarrow> target list \<Rightarrow> target list \<Rightarrow> target list" where
  "eligible_loop excluded [] eligible = eligible"
| "eligible_loop excluded (t # ts) eligible =
     (if \<not> tg_online t \<or> tg_id t \<in> set excluded then eligible_loop excluded ts eligible
      else if eligible \<noteq> [] \<and> tg_priority (hd eligible) \<noteq> tg_priority t then eligible
      else eligible_loop excluded ts (eligible @ [t]))"

definition pick :: "int list \<Rightarrow> selector \<Rightarrow> target option \<times> selector" where
  "pick excluded s =
     (let eligible = eligible_loop excluded (sel_targets s) [] in
      if eligible = [] then (None, s)
      else let priority = tg_priority (hd eligible);
               cursor = get_or 0 (sel_cursors s) priority;
               index = unat (cursor mod of_nat (length eligible)) in
        (Some (eligible ! index), s\<lparr>sel_cursors := AList.update priority (cursor + 1) (sel_cursors s)\<rparr>))"

section \<open>Runtime\<close>

record balancer_config =
  bc_network :: string
  bc_targets :: "target list"
  bc_max_sessions :: int

record balancer_runtime =
  rt_selector :: selector
  rt_config :: balancer_config
  rt_address :: string
  rt_connections :: nat
  rt_running :: bool

definition start_runtime :: "(string \<Rightarrow> bool) \<Rightarrow> string \<Rightarrow> balancer_config \<Rightarrow> balancer_error + balancer_runtime" where
  "start_runtime listen address config =
     (if bc_network config \<noteq> ''tcp'' then Inl BadNetwork
      else case new_selector (bc_targets config) of
        Inl e \<Rightarrow> Inl e
      | Inr s \<Rightarrow>
          let config = (if bc_max_sessions config = 0 then config\<lparr>bc_max_sessions := 16384\<rparr> else config) in
          if bc_max_sessions config < 1 \<or> bc_max_sessions config > 1000000 then Inl BadSessions
          else if \<not> listen address then Inl ListenFailed
          else Inr \<lparr>rt_selector = s, rt_config = config, rt_address = address, rt_connections = 0, rt_running = True\<rparr>)"

text \<open>Admission of an accepted client: refused when the pool of connections is full.\<close>

definition admit_client :: "balancer_runtime \<Rightarrow> bool \<times> balancer_runtime" where
  "admit_client r =
     (if \<not> rt_running r \<or> int (rt_connections r) \<ge> bc_max_sessions (rt_config r) * 2 then (False, r)
      else (True, r\<lparr>rt_connections := Suc (rt_connections r)\<rparr>))"

text \<open>The selection loop of \<open>connection\<close>: \<open>expired n\<close> tells whether the deadline has passed at the
  \<open>n\<close>-th attempt, \<open>reach t\<close> whether the target can be dialled and takes the PROXY header. The number of
  targets bounds the attempts, since each is excluded after its own; \<open>fuel\<close> is one more.\<close>

fun connect_loop ::
  "nat \<Rightarrow> (nat \<Rightarrow> bool) \<Rightarrow> (target \<Rightarrow> bool) \<Rightarrow> nat \<Rightarrow> int list \<Rightarrow> selector \<Rightarrow> (target option \<times> selector) option" where
  "connect_loop 0 expired reach n excluded s = None"
| "connect_loop (Suc fuel) expired reach n excluded s =
     (let (choice, s') = pick excluded s in
      case choice of
        None \<Rightarrow> Some (None, s')
      | Some t \<Rightarrow>
          if expired n then Some (None, s')
          else if reach t then Some (Some t, s')
          else connect_loop fuel expired reach (Suc n) (tg_id t # excluded) s')"

definition connect_upstream :: "(nat \<Rightarrow> bool) \<Rightarrow> (target \<Rightarrow> bool) \<Rightarrow> selector \<Rightarrow> (target option \<times> selector) option" where
  "connect_upstream expired reach s = connect_loop (Suc (length (sel_targets s))) expired reach 0 [] s"

section \<open>PROXY header\<close>

type_synonym byte = "8 word"

record tcp_addr =
  ta_ip :: "byte list"
  ta_port :: int

definition ip_to4 :: "byte list \<Rightarrow> byte list option" where
  "ip_to4 ip =
     (if length ip = 4 then Some ip
      else if length ip = 16 \<and> take 12 ip = replicate 10 0 @ [255, 255] then Some (drop 12 ip)
      else None)"

definition ip_to16 :: "byte list \<Rightarrow> byte list option" where
  "ip_to16 ip =
     (if length ip = 4 then Some (replicate 10 0 @ [255, 255] @ ip)
      else if length ip = 16 then Some ip else None)"

definition uint16_bytes :: "int \<Rightarrow> byte list" where
  "uint16_bytes port = (let n = nat (port mod 65536) in [of_nat (n div 256), of_nat (n mod 256)])"

text \<open>The bytes written for two TCP addresses; \<open>None\<close> for an address that is not one (\<open>source\<close> and
  \<open>destination\<close> are \<open>None\<close> when they are no TCP addresses).\<close>

definition proxy_header :: "tcp_addr option \<Rightarrow> tcp_addr option \<Rightarrow> byte list option" where
  "proxy_header source destination =
     (case (source, destination) of
        (Some src, Some dst) \<Rightarrow>
          let signature = [13, 10, 13, 10, 0, 13, 10, 81, 85, 73, 84, 10, 0x21];
              ports = uint16_bytes (ta_port src) @ uint16_bytes (ta_port dst) in
          (case (ip_to4 (ta_ip src), ip_to4 (ta_ip dst)) of
             (Some a, Some b) \<Rightarrow> Some (signature @ [0x11, 0, 12] @ a @ b @ ports)
           | _ \<Rightarrow>
               (case (ip_to16 (ta_ip src), ip_to16 (ta_ip dst)) of
                  (Some a, Some b) \<Rightarrow> Some (signature @ [0x21, 0, 36] @ a @ b @ ports)
                | _ \<Rightarrow> None))
      | _ \<Rightarrow> None)"

section \<open>Gateway\<close>

text \<open>The node configuration as far as the gateway reads it; \<open>nd_rest\<close> is everything else.\<close>

record 'n gw_node =
  nd_protocol :: string
  nd_listen_ip :: string
  nd_port :: int
  nd_balancer :: "balancer_config option"
  nd_rest :: 'n

record 'n gateway =
  gw_runtime :: "balancer_runtime option"
  gw_config :: "'n gw_node option"

definition gateway_start ::
  "(string \<Rightarrow> bool) \<Rightarrow> 'n gw_node option \<Rightarrow> 'n gateway \<Rightarrow> balancer_error option \<times> 'n gateway" where
  "gateway_start listen node g =
     (case node of
        None \<Rightarrow> (Some MissingConfig, g)
      | Some n \<Rightarrow>
          (case nd_balancer n of
             None \<Rightarrow> (Some MissingConfig, g)
           | Some config \<Rightarrow>
               if nd_protocol n \<noteq> ''balancer'' then (Some MissingConfig, g)
               else let g1 = g\<lparr>gw_runtime := None\<rparr> in
                 (case start_runtime listen (join_host_port (nd_listen_ip n) (itoa (nd_port n))) config of
                    Inl e \<Rightarrow> (Some e, g1)
                  | Inr r \<Rightarrow> (None, g1\<lparr>gw_runtime := Some r, gw_config := Some n\<rparr>))))"

definition without_targets :: "'n gw_node \<Rightarrow> 'n gw_node" where
  "without_targets n = n\<lparr>nd_balancer := map_option (\<lambda>c. c\<lparr>bc_targets := []\<rparr>) (nd_balancer n)\<rparr>"

definition gateway_reload ::
  "(string \<Rightarrow> bool) \<Rightarrow> 'n gw_node option \<Rightarrow> 'n gateway \<Rightarrow> balancer_error option \<times> 'n gateway" where
  "gateway_reload listen node g =
     (case (gw_runtime g, node, gw_config g) of
        (Some r, Some n, Some previous) \<Rightarrow>
          (case nd_balancer n of
             Some config \<Rightarrow>
               if without_targets previous = without_targets n then
                 let (e, s) = update_targets (bc_targets config) (rt_selector r);
                     g1 = g\<lparr>gw_runtime := Some (r\<lparr>rt_selector := s\<rparr>)\<rparr> in
                 (e, if e = None then g1\<lparr>gw_config := Some n\<rparr> else g1)
               else gateway_start listen node g
           | None \<Rightarrow> gateway_start listen node g)
      | _ \<Rightarrow> gateway_start listen node g)"

definition gateway_stop :: "'n gateway \<Rightarrow> 'n gateway" where
  "gateway_stop g = g\<lparr>gw_runtime := None\<rparr>"

definition gateway_running :: "'n gateway \<Rightarrow> bool" where
  "gateway_running g = (case gw_runtime g of None \<Rightarrow> False | Some r \<Rightarrow> rt_running r)"

section \<open>Which targets are eligible\<close>

definition usable :: "int list \<Rightarrow> target \<Rightarrow> bool" where
  "usable excluded t = (tg_online t \<and> tg_id t \<notin> set excluded)"

definition eligible :: "int list \<Rightarrow> selector \<Rightarrow> target list" where
  "eligible excluded s = eligible_loop excluded (sel_targets s) []"

definition selector_ok :: "selector \<Rightarrow> bool" where
  "selector_ok s \<longleftrightarrow> sorted (map tg_priority (sel_targets s)) \<and> distinct (map tg_id (sel_targets s))"

lemma eligible_loop_acc:
  "acc \<noteq> [] \<Longrightarrow> eligible_loop excluded ts acc =
     acc @ takeWhile (\<lambda>t. tg_priority t = tg_priority (hd acc)) (filter (usable excluded) ts)"
  by (induction excluded ts acc rule: eligible_loop.induct) (auto simp: usable_def)

lemma eligible_loop_Nil:
  "eligible_loop excluded ts [] =
     (case filter (usable excluded) ts of
        [] \<Rightarrow> []
      | t # us \<Rightarrow> t # takeWhile (\<lambda>u. tg_priority u = tg_priority t) us)"
  by (induction ts) (auto simp: usable_def [abs_def] eligible_loop_acc)

lemma takeWhile_least:
  fixes f :: "'a \<Rightarrow> int"
  shows "sorted (map f (t # us)) \<Longrightarrow> set (takeWhile (\<lambda>u. f u = f t) us) = {u \<in> set us. f u = f t}"
proof (induction us)
  case Nil
  then show ?case by simp
next
  case (Cons v us)
  show ?case
  proof (cases "f v = f t")
    case True
    moreover have "sorted (map f (t # us))" using Cons.prems by simp
    ultimately show ?thesis using Cons.IH by auto
  next
    case False
    then have "f t < f v" and "\<forall>u \<in> set us. f v \<le> f u" using Cons.prems by auto
    then have "\<forall>u \<in> set us. f u \<noteq> f t" by force
    then show ?thesis using False by auto
  qed
qed

lemma eligible_best:
  assumes "selector_ok s"
  shows "set (eligible excluded s) =
    {t \<in> set (sel_targets s). usable excluded t \<and> (\<forall>u \<in> set (sel_targets s). usable excluded u \<longrightarrow> tg_priority t \<le> tg_priority u)}"
proof -
  let ?f = "filter (usable excluded) (sel_targets s)"
  have sorted: "sorted (map tg_priority ?f)" using assms by (simp add: selector_ok_def sorted_filter)
  show ?thesis
  proof (cases ?f)
    case Nil
    then have "\<forall>t \<in> set (sel_targets s). \<not> usable excluded t" by (simp add: filter_empty_conv)
    then show ?thesis using Nil by (auto simp: eligible_def eligible_loop_Nil)
  next
    case (Cons t us)
    have members: "u \<in> set (sel_targets s) \<and> usable excluded u \<longleftrightarrow> u = t \<or> u \<in> set us" for u
      using arg_cong [OF Cons, of set] by auto
    have least: "\<forall>u \<in> set us. tg_priority t \<le> tg_priority u" using sorted Cons by simp
    have "sorted (map tg_priority (t # us))" using sorted Cons by simp
    from takeWhile_least [OF this]
    have "set (eligible excluded s) = {u. (u = t \<or> u \<in> set us) \<and> tg_priority u = tg_priority t}"
      using Cons by (auto simp: eligible_def eligible_loop_Nil)
    also have "\<dots> = {u. (u = t \<or> u \<in> set us) \<and> (\<forall>v. v = t \<or> v \<in> set us \<longrightarrow> tg_priority u \<le> tg_priority v)}"
      using least by (auto intro: order_antisym)
    finally show ?thesis using members by blast
  qed
qed

lemma sort_key_id: "mset (order_targets ts) = mset ts"
  by (simp add: order_targets_def)

lemma check_targets_distinct:
  "check_targets ts seen addresses = None \<Longrightarrow>
   distinct (map tg_id ts) \<and> (\<forall>t \<in> set ts. tg_id t \<notin> set seen)"
proof (induction ts seen addresses rule: check_targets.induct)
  case (1 seen addresses)
  then show ?case by simp
next
  case (2 t ts seen addresses)
  then have ok: "\<not> (tg_id t \<le> 0 \<or> tg_id t \<in> set seen \<or> tg_priority t < 1 \<or> tg_priority t > 65535)"
    "\<not> (\<not> target_address_ok (tg_address t) \<or> tg_address t \<in> set addresses)"
    by (auto simp only: check_targets.simps split: if_splits)
  then have "check_targets ts (tg_id t # seen) (tg_address t # addresses) = None"
    using 2(2) by (simp only: check_targets.simps ok if_False)
  from 2(1) [OF ok this] ok(1) show ?case by auto
qed

lemma update_targets_ok:
  "update_targets ts s = (None, s') \<Longrightarrow> selector_ok s' \<and> set (sel_targets s') = set ts \<and> length (sel_targets s') = length ts"
proof -
  assume "update_targets ts s = (None, s')"
  then have ok: "check_targets ts [] [] = None" and s': "sel_targets s' = order_targets ts"
    by (auto simp: update_targets_def split: option.splits)
  have "distinct (map tg_id (order_targets ts))"
  proof -
    have "mset (map tg_id (order_targets ts)) = mset (map tg_id ts)" by (simp only: mset_map sort_key_id)
    then show ?thesis using check_targets_distinct [OF ok] mset_eq_imp_distinct_iff by blast
  qed
  then show ?thesis using s' by (simp add: selector_ok_def order_targets_def)
qed

lemma eligible_length: "length (eligible excluded s) \<le> length (sel_targets s)"
proof -
  have "length (eligible excluded s) \<le> length (filter (usable excluded) (sel_targets s))"
    by (auto simp: eligible_def eligible_loop_Nil length_takeWhile_le split: list.split)
  then show ?thesis using length_filter_le le_trans by blast
qed

lemma unat_mod_length:
  assumes "xs \<noteq> []" and "length xs < 2 ^ 64"
  shows "unat (x mod of_nat (length xs) :: u64) = unat x mod length xs"
  using assms by (simp add: unat_mod unat_of_nat)

lemma unat_mod_less:
  assumes "xs \<noteq> []" and "length xs < 2 ^ 64"
  shows "unat (x mod of_nat (length xs) :: u64) < length xs"
  using assms by (simp add: unat_mod_length)

section \<open>Properties\<close>

text \<open>\<open>Pick\<close> chooses among the targets that are online and not yet tried, of the best (numerically
  least) priority, and fails only when there is none, whatever the cursors are.\<close>

theorem pick_best_priority:
  assumes "update_targets targets s0 = (None, s)" and "pick excluded (s\<lparr>sel_cursors := cursors\<rparr>) = (choice, s')"
    and "length targets < 2 ^ 64"
  shows "case choice of
      None \<Rightarrow> \<forall>t \<in> set targets. \<not> (tg_online t \<and> tg_id t \<notin> set excluded)
    | Some t \<Rightarrow> t \<in> set targets \<and> tg_online t \<and> tg_id t \<notin> set excluded \<and>
        (\<forall>u \<in> set targets. tg_online u \<and> tg_id u \<notin> set excluded \<longrightarrow> tg_priority t \<le> tg_priority u)"
proof -
  let ?s = "s\<lparr>sel_cursors := cursors\<rparr>"
  have ok: "selector_ok ?s" and targets: "set (sel_targets ?s) = set targets"
    using update_targets_ok [OF assms(1)] by (simp_all add: selector_ok_def)
  note best = eligible_best [OF ok, of excluded, unfolded targets]
  show ?thesis
  proof (cases "eligible excluded ?s = []")
    case True
    have "\<not> (\<exists>t \<in> set targets. usable excluded t)"
    proof
      assume "\<exists>t \<in> set targets. usable excluded t"
      then have "eligible_loop excluded (sel_targets ?s) [] \<noteq> []"
        using targets by (auto simp: eligible_loop_Nil filter_empty_conv split: list.split)
      then show False using True by (simp add: eligible_def)
    qed
    then show ?thesis using True assms(2) by (auto simp: pick_def eligible_def usable_def)
  next
    case False
    then have "choice = Some (eligible excluded ?s ! unat (get_or 0 cursors (tg_priority (hd (eligible excluded ?s))) mod
        of_nat (length (eligible excluded ?s))))"
      using assms(2) by (auto simp: pick_def eligible_def Let_def)
    moreover have "length (eligible excluded ?s) < 2 ^ 64"
      using eligible_length [of excluded ?s] assms(3) update_targets_ok [OF assms(1)] by simp
    ultimately show ?thesis
      using best nth_mem [OF unat_mod_less [of "eligible excluded ?s"]] False by (auto simp: usable_def)
  qed
qed

definition sample_targets :: "target list" where
  "sample_targets = [\<lparr>tg_id = 3, tg_address = ''a:1'', tg_priority = 2, tg_online = True\<rparr>,
     \<lparr>tg_id = 1, tg_address = ''b:1'', tg_priority = 1, tg_online = True\<rparr>,
     \<lparr>tg_id = 2, tg_address = ''c:1'', tg_priority = 1, tg_online = True\<rparr>]"

definition sample_selector :: selector where
  "sample_selector = snd (update_targets sample_targets \<lparr>sel_targets = [], sel_cursors = []\<rparr>)"

lemma sample_selector_updated:
  "update_targets sample_targets \<lparr>sel_targets = [], sel_cursors = []\<rparr> = (None, sample_selector)"
  by (simp add: sample_selector_def update_targets_def sample_targets_def target_address_ok_def split_host_port_def
      atoi_def string_eval)

theorem pick_best_priority_witness:
  "\<exists>t. fst (pick [1] sample_selector) = Some t \<and>
     (\<forall>u \<in> set sample_targets. tg_online u \<and> tg_id u \<notin> set [1] \<longrightarrow> tg_priority t \<le> tg_priority u)"
proof -
  have "fst (pick [1] sample_selector) \<noteq> None"
    by (simp add: pick_def sample_selector_def update_targets_def sample_targets_def target_address_ok_def
        split_host_port_def atoi_def string_eval order_targets_def Let_def)
  then show ?thesis
    using pick_best_priority [OF sample_selector_updated, of "[1]" "sel_cursors sample_selector" "fst (pick [1] sample_selector)"
        "snd (pick [1] sample_selector)"]
    by (auto simp: sample_targets_def)
qed

text \<open>Picks in a row with the same exclusions, as new connections make them.\<close>

fun picks :: "nat \<Rightarrow> int list \<Rightarrow> selector \<Rightarrow> target option list" where
  "picks 0 excluded s = []"
| "picks (Suc n) excluded s = (let (choice, s') = pick excluded s in choice # picks n excluded s')"

lemma pick_eligible:
  "eligible excluded s \<noteq> [] \<Longrightarrow>
   pick excluded s =
     (let e = eligible excluded s; c = get_or 0 (sel_cursors s) (tg_priority (hd e)) in
      (Some (e ! unat (c mod of_nat (length e))), s\<lparr>sel_cursors := AList.update (tg_priority (hd e)) (c + 1) (sel_cursors s)\<rparr>))"
  by (simp add: pick_def eligible_def Let_def)

lemma picks_rotate:
  assumes "eligible excluded s = e" and "e \<noteq> []" and "length e < 2 ^ 64"
    and "unat (get_or 0 (sel_cursors s) (tg_priority (hd e))) + n \<le> 2 ^ 64 - 1"
  shows "picks n excluded s =
    map (\<lambda>i. Some (e ! ((unat (get_or 0 (sel_cursors s) (tg_priority (hd e))) + i) mod length e))) [0..<n]"
  using assms(1,4)
proof (induction n arbitrary: s)
  case 0
  then show ?case by simp
next
  case (Suc n)
  let ?p = "tg_priority (hd e)"
  let ?c = "get_or 0 (sel_cursors s) ?p"
  let ?s = "s\<lparr>sel_cursors := AList.update ?p (?c + 1) (sel_cursors s)\<rparr>"
  have next_c: "get_or 0 (sel_cursors ?s) ?p = ?c + 1" by (simp add: go_map)
  have plus: "unat (?c + 1) = unat ?c + 1"
    using Suc.prems(2) unat_plus_if_size [of ?c 1] by (simp add: word_size)
  have eq: "pick excluded s = (Some (e ! (unat ?c mod length e)), ?s)"
    using pick_eligible [of excluded s] Suc.prems(1) assms(2,3) by (simp add: Let_def unat_mod_length)
  have "eligible excluded ?s = e" using Suc.prems(1) by (simp add: eligible_def)
  then have "picks n excluded ?s = map (\<lambda>i. Some (e ! ((unat ?c + 1 + i) mod length e))) [0..<n]"
    using Suc.IH [of ?s] Suc.prems(2) plus by (simp only: next_c)
  then have "picks (Suc n) excluded s =
      Some (e ! (unat ?c mod length e)) # map (\<lambda>i. Some (e ! ((unat ?c + Suc i) mod length e))) [0..<n]"
    by (simp add: eq)
  also have "\<dots> = map (\<lambda>i. Some (e ! ((unat ?c + i) mod length e))) [0..<Suc n]"
    by (simp only: map_upt_Suc [of _ n] add_0_right)
  finally show ?case .
qed

text \<open>Round robin is fair: any \<open>m\<close> picks in a row, \<open>m\<close> the number of targets of the best available
  priority, use each of them exactly once, whatever the cursor's position (short of its wrap-around
  after \<open>2 ^ 64\<close> picks).\<close>

theorem round_robin_fair:
  assumes "eligible excluded s = e" and "e \<noteq> []" and "length e < 2 ^ 64"
    and "unat (get_or 0 (sel_cursors s) (tg_priority (hd e))) + length e < 2 ^ 64"
  shows "mset (picks (length e) excluded s) = mset (map Some e)"
proof -
  let ?c = "unat (get_or 0 (sel_cursors s) (tg_priority (hd e)))"
  have "picks (length e) excluded s = map (\<lambda>i. Some (e ! ((?c + i) mod length e))) [0..<length e]"
    using picks_rotate [OF assms(1-3), of "length e"] assms(4) by simp
  also have "\<dots> = map Some (rotate ?c e)"
    by (rule nth_equalityI) (simp_all add: nth_rotate)
  also have "mset \<dots> = mset (map Some e)"
  proof -
    have "mset (rotate ?c e) = mset e"
      by (metis append_take_drop_id rotate_drop_take union_code add.commute)
    then show ?thesis by (simp only: mset_map)
  qed
  finally show ?thesis .
qed

theorem round_robin_fair_witness:
  "mset (picks 2 [] sample_selector) = mset (map Some (eligible [] sample_selector))"
proof -
  have e: "eligible [] sample_selector = [sample_targets ! 1, sample_targets ! 2]" and c: "sel_cursors sample_selector = []"
    by (simp_all add: eligible_def sample_selector_def update_targets_def sample_targets_def target_address_ok_def
        split_host_port_def atoi_def string_eval order_targets_def)
  have two: "length [sample_targets ! 1, sample_targets ! 2] = 2" by simp
  show ?thesis using round_robin_fair [OF e] c unfolding two e by (simp del: picks.simps)
qed



text \<open>A reader of PROXY protocol version 2, TCP over IPv4 or IPv6, without extensions.\<close>

definition decode_proxy :: "byte list \<Rightarrow> (byte list \<times> byte list \<times> nat \<times> nat) option" where
  "decode_proxy h =
     (let n = (if h ! 13 = 0x11 then 4 else 16); body = drop 16 h;
          port = (\<lambda>i. unat (body ! i) * 256 + unat (body ! (i + 1))) in
      if take 13 h \<noteq> [13, 10, 13, 10, 0, 13, 10, 81, 85, 73, 84, 10, 0x21] \<or> length h < 16 \<or>
         h ! 13 \<notin> {0x11, 0x21} \<or> length body \<noteq> unat (h ! 14) * 256 + unat (h ! 15) \<or> length body \<noteq> 2 * n + 4
      then None
      else Some (take n body, take n (drop n body), port (2 * n), port (2 * n + 2)))"

lemma uint16_bytes: "unat (uint16_bytes p ! 0) * 256 + unat (uint16_bytes p ! 1) = nat (p mod 65536)"
  "length (uint16_bytes p) = 2"
proof -
  have "nat (p mod 65536) < 65536" by (simp add: nat_less_iff)
  then have "nat (p mod 65536) div 256 < 256" by (simp add: less_mult_imp_div_less)
  then show "unat (uint16_bytes p ! 0) * 256 + unat (uint16_bytes p ! 1) = nat (p mod 65536)"
    by (simp add: uint16_bytes_def Let_def unat_of_nat)
qed (simp add: uint16_bytes_def Let_def)

lemma length_uint16 [simp]: "length (uint16_bytes p) = 2"
  by (simp add: uint16_bytes_def Let_def)

lemma ip_lengths: "ip_to4 ip = Some a \<Longrightarrow> length a = 4" "ip_to16 ip = Some a \<Longrightarrow> length a = 16"
  by (auto simp: ip_to4_def ip_to16_def split: if_splits)

text \<open>C40. The PROXY header is well formed and faithful: reading it back gives the client's and the
  listener's addresses (both as IPv4 when both are, else as IPv6, IPv4 in mapped form) and ports,
  and it exists for every pair of TCP addresses with IPs of 4 or 16 bytes.\<close>

theorem proxy_header_roundtrip:
  assumes "length (ta_ip src) \<in> {4, 16}" and "length (ta_ip dst) \<in> {4, 16}"
    and "0 \<le> ta_port src" and "ta_port src < 65536" and "0 \<le> ta_port dst" and "ta_port dst < 65536"
  shows "\<exists>h. proxy_header (Some src) (Some dst) = Some h \<and>
    decode_proxy h = Some
      (case (ip_to4 (ta_ip src), ip_to4 (ta_ip dst)) of
         (Some a, Some b) \<Rightarrow> (a, b, nat (ta_port src), nat (ta_port dst))
       | _ \<Rightarrow> (the (ip_to16 (ta_ip src)), the (ip_to16 (ta_ip dst)), nat (ta_port src), nat (ta_port dst)))"
proof -
  have ports: "nat (ta_port src mod 65536) = nat (ta_port src)" "nat (ta_port dst mod 65536) = nat (ta_port dst)"
    using assms(3-6) by simp_all
  obtain a16 b16 where ips: "ip_to16 (ta_ip src) = Some a16" "ip_to16 (ta_ip dst) = Some b16"
    using assms(1,2) by (auto simp: ip_to16_def)
  note read = uint16_bytes [of "ta_port src"] uint16_bytes [of "ta_port dst"] ports
  show ?thesis
  proof (cases "\<exists>a b. ip_to4 (ta_ip src) = Some a \<and> ip_to4 (ta_ip dst) = Some b")
    case True
    then obtain a b where ab: "ip_to4 (ta_ip src) = Some a" "ip_to4 (ta_ip dst) = Some b" by blast
    then show ?thesis
      using ip_lengths(1) [OF ab(1)] ip_lengths(1) [OF ab(2)] read
      by (simp add: proxy_header_def decode_proxy_def Let_def nth_append)
  next
    case False
    then have "proxy_header (Some src) (Some dst) = Some ([13, 10, 13, 10, 0, 13, 10, 81, 85, 73, 84, 10, 0x21] @
        [0x21, 0, 36] @ a16 @ b16 @ uint16_bytes (ta_port src) @ uint16_bytes (ta_port dst))"
      using ips by (auto simp: proxy_header_def Let_def split: option.split)
    then show ?thesis
      using ip_lengths(2) [OF ips(1)] ip_lengths(2) [OF ips(2)] read ips False
      by (auto simp: decode_proxy_def Let_def nth_append split: option.split)
  qed
qed

theorem proxy_header_roundtrip_witness:
  "\<exists>h. proxy_header (Some \<lparr>ta_ip = [10, 0, 0, 1], ta_port = 5000\<rparr>) (Some \<lparr>ta_ip = [10, 0, 0, 2], ta_port = 443\<rparr>) = Some h \<and>
     decode_proxy h = Some ([10, 0, 0, 1], [10, 0, 0, 2], 5000, 443)"
  using proxy_header_roundtrip [of "\<lparr>ta_ip = [10, 0, 0, 1], ta_port = 5000\<rparr>" "\<lparr>ta_ip = [10, 0, 0, 2], ta_port = 443\<rparr>"]
  by (simp add: ip_to4_def)

text \<open>Reloading a configuration that differs only in its targets never interrupts the gateway: it
  keeps its runtime with listener, connections and cursors and replaces the targets, all or nothing
  (an invalid list is refused and the old targets and configuration stay).\<close>

theorem reload_targets_in_place:
  assumes "gw_runtime g = Some r" and "gw_config g = Some previous" and "nd_balancer n = Some config"
    and "without_targets previous = without_targets n" and "gateway_reload listen (Some n) g = (e, g')"
  shows "\<exists>s. gw_runtime g' = Some (r\<lparr>rt_selector := s\<rparr>) \<and> sel_cursors s = sel_cursors (rt_selector r) \<and>
    (case e of
       None \<Rightarrow> set (sel_targets s) = set (bc_targets config) \<and> selector_ok s \<and> gw_config g' = Some n
     | Some x \<Rightarrow> s = rt_selector r \<and> gw_config g' = Some previous)"
proof -
  obtain e' s where update: "update_targets (bc_targets config) (rt_selector r) = (e', s)" by fastforce
  have result: "e = e'" "gw_runtime g' = Some (r\<lparr>rt_selector := s\<rparr>)"
    "gw_config g' = (if e = None then Some n else Some previous)"
    using assms update by (auto simp: gateway_reload_def Let_def)
  have cursors: "sel_cursors s = sel_cursors (rt_selector r)" "e' = Some x \<Longrightarrow> s = rt_selector r" for x
    using update by (auto simp: update_targets_def split: option.splits)
  show ?thesis
  proof (cases e)
    case None
    then show ?thesis
      using update_targets_ok [of "bc_targets config" "rt_selector r" s] update result cursors by auto
  next
    case (Some x)
    then show ?thesis using result cursors by auto
  qed
qed

definition sample_node :: "unit gw_node" where
  "sample_node = \<lparr>nd_protocol = ''balancer'', nd_listen_ip = ''::'', nd_port = 443,
     nd_balancer = Some \<lparr>bc_network = ''tcp'', bc_targets = sample_targets, bc_max_sessions = 0\<rparr>, nd_rest = ()\<rparr>"

definition running_gateway :: "unit gateway" where
  "running_gateway = \<lparr>gw_runtime = Some \<lparr>rt_selector = sample_selector,
       rt_config = \<lparr>bc_network = ''tcp'', bc_targets = sample_targets, bc_max_sessions = 16384\<rparr>,
       rt_address = ''[::]:443'', rt_connections = 5, rt_running = True\<rparr>,
     gw_config = Some sample_node\<rparr>"

theorem reload_targets_in_place_witness:
  "\<exists>s. gw_runtime (snd (gateway_reload (\<lambda>a. False) (Some sample_node) running_gateway)) =
     Some ((the (gw_runtime running_gateway))\<lparr>rt_selector := s\<rparr>)"
proof -
  let ?result = "gateway_reload (\<lambda>a. False) (Some sample_node) running_gateway"
  have "gw_runtime running_gateway = Some (the (gw_runtime running_gateway))" "gw_config running_gateway = Some sample_node"
    "nd_balancer sample_node = Some \<lparr>bc_network = ''tcp'', bc_targets = sample_targets, bc_max_sessions = 0\<rparr>"
    by (simp_all add: running_gateway_def sample_node_def)
  from reload_targets_in_place [OF this refl, of "\<lambda>a. False" "fst ?result" "snd ?result"]
  show ?thesis by auto
qed

end
