(* ===== verification/Mailbox.thy ===== *)
theory Mailbox
  imports Limiter
begin

text \<open>
  Model of \<open>internal/panel/version.go\<close> (order of the panel's messages), of
  \<open>internal/controlplane/mailbox.go\<close> (events for a node whose service is not ready yet) and of
  \<open>drainMachineMailbox\<close> in \<open>internal/service/service.go\<close>.

  A node configuration is a value of type \<open>'c\<close>, a user a \<open>user_spec\<close> with any further fields. The
  mailbox copies what it stores and what it hands out, so it shares nothing with its callers, and
  copies are values here. A nil slice or pointer is \<open>None\<close>, an empty slice \<open>Some []\<close>.
\<close>

section \<open>Versions\<close>

record state_version =
  ver_epoch :: string
  ver_sequence :: u64

record version_gate =
  gate_current :: state_version
  gate_retired :: "string list"

definition no_version :: state_version where
  "no_version = \<lparr>ver_epoch = [], ver_sequence = 0\<rparr>"

definition new_gate :: version_gate where
  "new_gate = \<lparr>gate_current = no_version, gate_retired = []\<rparr>"

definition accept :: "state_version \<Rightarrow> version_gate \<Rightarrow> bool \<times> version_gate" where
  "accept version g =
     (if ver_epoch version = [] then (ver_epoch (gate_current g) = [], g)
      else if ver_sequence version = 0 \<or> ver_epoch version \<in> set (gate_retired g) then (False, g)
      else if ver_epoch version = ver_epoch (gate_current g) then
        (if ver_sequence version < ver_sequence (gate_current g) then (False, g)
         else (True, g\<lparr>gate_current := version\<rparr>))
      else let g1 = (if ver_epoch (gate_current g) \<noteq> []
                     then g\<lparr>gate_retired := ver_epoch (gate_current g) # gate_retired g\<rparr> else g) in
        (True, g1\<lparr>gate_current := version\<rparr>))"

section \<open>Events\<close>

datatype event_type = SyncSnapshot | SyncConfig | SyncUsers | SyncUserDelta | SyncDevices | OtherEvent string

record ('c, 'u) event =
  ev_type :: event_type
  ev_version :: state_version
  ev_config :: "'c option"
  ev_users :: "'u user_spec_scheme list option"
  ev_delta_action :: string
  ev_delta_users :: "'u user_spec_scheme list"
  ev_devices :: "(int, string list) go_map option"

section \<open>Mailbox\<close>

record ('c, 'u) node_mailbox =
  mb_ready :: bool
  mb_config :: "'c option"
  mb_users :: "'u user_spec_scheme list option"
  mb_devices :: "(int, string list) go_map option"
  mb_dirty_config :: bool
  mb_dirty_users :: bool
  mb_dirty_devices :: bool
  mb_needs_reconcile :: bool
  mb_has_full_users :: bool
  mb_full_snapshot :: bool
  mb_control_version :: version_gate
  mb_device_version :: version_gate

record ('c, 'u) mailbox_state =
  ms_config :: "'c option"
  ms_users :: "'u user_spec_scheme list option"
  ms_devices :: "(int, string list) go_map option"
  ms_has_config :: bool
  ms_has_users :: bool
  ms_has_devices :: bool
  ms_needs_reconcile :: bool
  ms_full_snapshot :: bool
  ms_control_version :: state_version
  ms_device_version :: state_version

definition new_mailbox :: "('c, 'u) node_mailbox" where
  "new_mailbox = \<lparr>mb_ready = False, mb_config = None, mb_users = None, mb_devices = None,
     mb_dirty_config = False, mb_dirty_users = False, mb_dirty_devices = False, mb_needs_reconcile = False,
     mb_has_full_users = False, mb_full_snapshot = False, mb_control_version = new_gate, mb_device_version = new_gate\<rparr>"

definition mark_ready :: "('c, 'u) node_mailbox \<Rightarrow> ('c, 'u) node_mailbox" where
  "mark_ready m = m\<lparr>mb_ready := True\<rparr>"

definition seed_baseline ::
  "'u user_spec_scheme list option \<Rightarrow> 'c option \<Rightarrow> ('c, 'u) node_mailbox \<Rightarrow> ('c, 'u) node_mailbox" where
  "seed_baseline users config m =
     (let m1 = (if users \<noteq> None \<and> \<not> mb_has_full_users m then m\<lparr>mb_users := users, mb_has_full_users := True\<rparr> else m) in
      if config \<noteq> None \<and> mb_config m1 = None then m1\<lparr>mb_config := config\<rparr> else m1)"

text \<open>\<open>applyUserDelta\<close>: \<open>index\<close> maps an id to its last position in \<open>current\<close>.\<close>

fun add_users_loop ::
  "'u user_spec_scheme list \<Rightarrow> (int, nat) go_map \<Rightarrow> 'u user_spec_scheme list \<Rightarrow> 'u user_spec_scheme list" where
  "add_users_loop [] index current = current"
| "add_users_loop (user # delta) index current =
     (case map_of index (us_id user) of
        Some i \<Rightarrow> add_users_loop delta index (current[i := user])
      | None \<Rightarrow> add_users_loop delta (AList.update (us_id user) (length current) index) (current @ [user]))"

definition user_index :: "'u user_spec_scheme list \<Rightarrow> (int, nat) go_map" where
  "user_index users = fold (\<lambda>(i, user). AList.update (us_id user) i) (enumerate 0 users) []"

definition mailbox_user_delta ::
  "string \<Rightarrow> 'u user_spec_scheme list \<Rightarrow> 'u user_spec_scheme list option \<Rightarrow> 'u user_spec_scheme list option option" where
  "mailbox_user_delta action delta users =
     (let current = (case users of None \<Rightarrow> [] | Some us \<Rightarrow> us) in
      if action = ''add'' then
        (if users = None \<and> delta = [] then Some None else Some (Some (add_users_loop delta (user_index current) current)))
      else if action = ''remove'' then
        Some (Some (filter (\<lambda>u. us_id u \<notin> set (map us_id delta)) current))
      else None)"

text \<open>\<open>Apply\<close> without the notification of the waiting service.\<close>

definition apply_event :: "('c, 'u) event \<Rightarrow> ('c, 'u) node_mailbox \<Rightarrow> ('c, 'u) node_mailbox" where
  "apply_event e m =
     (let devices = (ev_type e = SyncDevices);
          (accepted, g) = accept (ev_version e) (if devices then mb_device_version m else mb_control_version m) in
      if \<not> accepted then m
      else let m1 = (if devices then m\<lparr>mb_device_version := g\<rparr> else m\<lparr>mb_control_version := g\<rparr>) in
        (case ev_type e of
           SyncSnapshot \<Rightarrow>
             if ev_config e \<noteq> None \<and> ev_users e \<noteq> None then
               m1\<lparr>mb_config := ev_config e, mb_users := ev_users e, mb_dirty_config := True, mb_dirty_users := True,
                  mb_full_snapshot := True, mb_has_full_users := True\<rparr>
             else m1
         | SyncConfig \<Rightarrow>
             if ev_config e \<noteq> None then m1\<lparr>mb_config := ev_config e, mb_dirty_config := True\<rparr> else m1
         | SyncUsers \<Rightarrow>
             if ev_users e \<noteq> None
             then m1\<lparr>mb_users := ev_users e, mb_dirty_users := True, mb_has_full_users := True\<rparr> else m1
         | SyncDevices \<Rightarrow>
             if ev_devices e \<noteq> None then m1\<lparr>mb_devices := ev_devices e, mb_dirty_devices := True\<rparr> else m1
         | SyncUserDelta \<Rightarrow>
             if ev_delta_users e = [] then m1
             else if \<not> mb_has_full_users m1 then m1\<lparr>mb_needs_reconcile := True\<rparr>
             else (case mailbox_user_delta (ev_delta_action e) (ev_delta_users e) (mb_users m1) of
                     None \<Rightarrow> m1\<lparr>mb_needs_reconcile := True\<rparr>
                   | Some users \<Rightarrow> m1\<lparr>mb_users := users, mb_dirty_users := True\<rparr>)
         | OtherEvent _ \<Rightarrow> m1))"

definition no_state :: "('c, 'u) mailbox_state" where
  "no_state = \<lparr>ms_config = None, ms_users = None, ms_devices = None, ms_has_config = False, ms_has_users = False,
     ms_has_devices = False, ms_needs_reconcile = False, ms_full_snapshot = False,
     ms_control_version = no_version, ms_device_version = no_version\<rparr>"

definition drain_if_ready :: "('c, 'u) node_mailbox \<Rightarrow> ('c, 'u) mailbox_state \<times> ('c, 'u) node_mailbox" where
  "drain_if_ready m =
     (if \<not> mb_ready m then (no_state, m)
      else let config = mb_dirty_config m \<and> mb_config m \<noteq> None;
               devices = mb_dirty_devices m \<and> mb_devices m \<noteq> None in
        (\<lparr>ms_config = (if config then mb_config m else None),
          ms_users = (if mb_dirty_users m then mb_users m else None),
          ms_devices = (if devices then mb_devices m else None),
          ms_has_config = config, ms_has_users = mb_dirty_users m, ms_has_devices = devices,
          ms_needs_reconcile = mb_needs_reconcile m, ms_full_snapshot = mb_full_snapshot m,
          ms_control_version = gate_current (mb_control_version m),
          ms_device_version = gate_current (mb_device_version m)\<rparr>,
         m\<lparr>mb_full_snapshot := False,
           mb_dirty_config := (if config then False else mb_dirty_config m),
           mb_dirty_users := False,
           mb_dirty_devices := (if devices then False else mb_dirty_devices m),
           mb_needs_reconcile := False\<rparr>))"

text \<open>The events \<open>drainMachineMailbox\<close> hands to the service, and whether it asks for a full pull.\<close>

definition plain_event :: "event_type \<Rightarrow> state_version \<Rightarrow> ('c, 'u) event" where
  "plain_event t v = \<lparr>ev_type = t, ev_version = v, ev_config = None, ev_users = None, ev_delta_action = [],
     ev_delta_users = [], ev_devices = None\<rparr>"

definition drained_events :: "('c, 'u) mailbox_state \<Rightarrow> ('c, 'u) event list" where
  "drained_events st =
     (if ms_full_snapshot st
      then [(plain_event SyncSnapshot (ms_control_version st))\<lparr>ev_config := ms_config st, ev_users := ms_users st\<rparr>]
      else (if ms_has_config st then [(plain_event SyncConfig (ms_control_version st))\<lparr>ev_config := ms_config st\<rparr>] else []) @
           (if ms_has_users st then [(plain_event SyncUsers (ms_control_version st))\<lparr>ev_users := ms_users st\<rparr>] else [])) @
     (if ms_has_devices st then [(plain_event SyncDevices (ms_device_version st))\<lparr>ev_devices := ms_devices st\<rparr>] else [])"

section \<open>The gate never goes back\<close>

fun accepted_versions :: "state_version list \<Rightarrow> version_gate \<Rightarrow> state_version list" where
  "accepted_versions [] g = []"
| "accepted_versions (v # vs) g =
     (let (ok, g') = accept v g in if ok then v # accepted_versions vs g' else accepted_versions vs g')"

definition gate_ok :: "version_gate \<Rightarrow> bool" where
  "gate_ok g \<longleftrightarrow> ver_epoch (gate_current g) \<notin> set (gate_retired g)"

lemma gate_ok_new [simp]: "gate_ok new_gate"
  by (simp add: gate_ok_def new_gate_def)

lemma accept_ok: "gate_ok g \<Longrightarrow> accept v g = (ok, g') \<Longrightarrow> gate_ok g'"
  by (auto simp: accept_def gate_ok_def Let_def split: if_splits)

interpretation gate_run: invariant_machine "\<lambda>v g. snd (accept v g)" gate_ok
  by unfold_locales (metis accept_ok prod.collapse)

lemma accept_retired:
  "accept v g = (ok, g') \<Longrightarrow> set (gate_retired g) \<subseteq> set (gate_retired g') \<and>
   (ver_epoch (gate_current g) \<noteq> [] \<longrightarrow> ver_epoch (gate_current g') \<noteq> [] \<and>
      (ver_epoch (gate_current g') = ver_epoch (gate_current g) \<or> ver_epoch (gate_current g) \<in> set (gate_retired g')))"
  by (auto simp: accept_def Let_def split: if_splits)

text \<open>What later messages can still do: leave the current epoch for good, or raise its sequence.\<close>

lemma accepted_not_retired:
  assumes "v \<in> set (accepted_versions vs g)" and "e \<in> set (gate_retired g)" and "e \<noteq> []"
  shows "ver_epoch v \<noteq> e"
  using assms(1,2)
proof (induction vs arbitrary: g)
  case Nil
  then show ?case by simp
next
  case (Cons u vs)
  obtain ok g' where step: "accept u g = (ok, g')" by fastforce
  have "e \<in> set (gate_retired g')" using accept_retired [OF step] Cons.prems(2) by auto
  moreover have "ok \<Longrightarrow> ver_epoch u \<noteq> e" using step Cons.prems(2) assms(3) by (auto simp: accept_def split: if_splits)
  ultimately show ?case using Cons step by (auto split: if_splits)
qed

lemma accepted_versioned:
  assumes "v \<in> set (accepted_versions vs g)" and "ver_epoch (gate_current g) \<noteq> []"
  shows "ver_epoch v \<noteq> []"
  using assms
proof (induction vs arbitrary: g)
  case Nil
  then show ?case by simp
next
  case (Cons u vs)
  obtain ok g' where step: "accept u g = (ok, g')" by fastforce
  have "ver_epoch (gate_current g') \<noteq> []" using accept_retired [OF step] Cons.prems(2) by auto
  moreover have "ok \<Longrightarrow> ver_epoch u \<noteq> []" using step Cons.prems(2) by (auto simp: accept_def split: if_splits)
  ultimately show ?case using Cons step by (auto split: if_splits)
qed

lemma accept_cases:
  assumes "accept v g = (ok, g')"
  shows "(\<not> ok \<and> g' = g) \<or> (ok \<and> ver_epoch v = [] \<and> ver_epoch (gate_current g) = [] \<and> g' = g) \<or>
    (ok \<and> ver_epoch v \<noteq> [] \<and> gate_current g' = v \<and>
     (ver_epoch (gate_current g) = ver_epoch v \<and> ver_sequence (gate_current g) \<le> ver_sequence v \<or>
      ver_epoch (gate_current g) = [] \<or>
      ver_epoch (gate_current g) \<noteq> ver_epoch v \<and> ver_epoch (gate_current g) \<in> set (gate_retired g')))"
  using assms by (auto simp: accept_def Let_def not_less split: if_splits)

lemma accepted_before_return:
  assumes "ver_epoch (gate_current g) = e" and "e \<noteq> []" and "gate_ok g" and "k \<le> j" and "j < length (accepted_versions vs g)"
    and "ver_epoch (accepted_versions vs g ! j) = e"
  shows "ver_epoch (accepted_versions vs g ! k) = e \<and>
    ver_sequence (gate_current g) \<le> ver_sequence (accepted_versions vs g ! k)"
  using assms
proof (induction vs arbitrary: g k j)
  case Nil
  then show ?case by simp
next
  case (Cons u vs)
  obtain ok g' where step: "accept u g = (ok, g')" by fastforce
  have ok': "gate_ok g'" using accept_ok [OF Cons.prems(3) step] .
  show ?case
  proof (cases ok)
    case False
    then have "g' = g" using accept_cases [OF step] by simp
    then show ?thesis using Cons step False by simp
  next
    case True
    let ?as = "accepted_versions vs g'"
    have as: "accepted_versions (u # vs) g = u # ?as" using step True by simp
    have u: "ver_epoch u = e \<and> ver_sequence (gate_current g) \<le> ver_sequence u \<and> gate_current g' = u"
    proof (rule ccontr)
      assume "\<not> ?thesis"
      then have retired: "e \<in> set (gate_retired g')" and "ver_epoch u \<noteq> e"
        using accept_cases [OF step] True Cons.prems(1,2) by auto
      moreover have "ver_epoch w \<noteq> e" if "w \<in> set ?as" for w
        using accepted_not_retired [OF that retired Cons.prems(2)] .
      moreover have "ver_epoch ((u # ?as) ! j) = e" "j < length (u # ?as)" using Cons.prems(5,6) as by simp_all
      ultimately show False by (cases j) auto
    qed
    show ?thesis
    proof (cases k)
      case 0
      then show ?thesis using as u by simp
    next
      case (Suc k')
      then obtain j' where j: "j = Suc j'" using Cons.prems(4) by (cases j) auto
      have "ver_epoch (?as ! k') = e \<and> ver_sequence (gate_current g') \<le> ver_sequence (?as ! k')"
        using Cons.prems Suc j as u ok' by (intro Cons.IH [of g' k' j']) auto
      then show ?thesis using Suc as u by auto
    qed
  qed
qed

text \<open>C11. Messages of the panel take effect in order: among the accepted ones, those of one epoch form
  one contiguous stretch with sequence numbers that never decrease, so no baseline that was left is ever
  used again and no older snapshot of the present one is applied; after the first message with a version
  none without a version is accepted.\<close>

theorem accepted_in_order:
  assumes "i \<le> k" and "k \<le> j" and "j < length (accepted_versions vs new_gate)"
    and "ver_epoch (accepted_versions vs new_gate ! i) \<noteq> []"
  shows "ver_epoch (accepted_versions vs new_gate ! k) \<noteq> [] \<and>
    (ver_epoch (accepted_versions vs new_gate ! j) = ver_epoch (accepted_versions vs new_gate ! i) \<longrightarrow>
       ver_epoch (accepted_versions vs new_gate ! k) = ver_epoch (accepted_versions vs new_gate ! i) \<and>
       ver_sequence (accepted_versions vs new_gate ! i) \<le> ver_sequence (accepted_versions vs new_gate ! k))"
proof -
  have general: "ver_epoch (accepted_versions vs g ! k) \<noteq> [] \<and>
    (ver_epoch (accepted_versions vs g ! j) = ver_epoch (accepted_versions vs g ! i) \<longrightarrow>
       ver_epoch (accepted_versions vs g ! k) = ver_epoch (accepted_versions vs g ! i) \<and>
       ver_sequence (accepted_versions vs g ! i) \<le> ver_sequence (accepted_versions vs g ! k))"
    if "gate_ok g" "i \<le> k" "k \<le> j" "j < length (accepted_versions vs g)" "ver_epoch (accepted_versions vs g ! i) \<noteq> []"
    for g i k j
    using that
  proof (induction vs arbitrary: g i k j)
    case Nil
    then show ?case by simp
  next
    case (Cons u vs)
    obtain ok g' where step: "accept u g = (ok, g')" by fastforce
    have ok': "gate_ok g'" using accept_ok [OF Cons.prems(1) step] .
    let ?as = "accepted_versions vs g'"
    consider "\<not> ok" | "ok" "i \<noteq> 0" | "ok" "i = 0" by blast
    then show ?case
    proof cases
      case 1
      then show ?thesis using Cons.IH [OF ok', of i k j] Cons.prems step by simp
    next
      case 2
      then obtain i' k' j' where "i = Suc i'" "k = Suc k'" "j = Suc j'"
        using Cons.prems(2,3) by (metis not0_implies_Suc le_zero_eq)
      then show ?thesis using Cons.IH [OF ok', of i' k' j'] Cons.prems step 2 by simp
    next
      case 3
      have as: "accepted_versions (u # vs) g = u # ?as" using step 3 by simp
      have u: "ver_epoch u \<noteq> []" "gate_current g' = u" using accept_cases [OF step] 3 Cons.prems(5) as by auto
      show ?thesis
      proof (cases k)
        case 0
        then show ?thesis using as 3 u by simp
      next
        case (Suc k')
        then obtain j' where j: "j = Suc j'" using Cons.prems(3) by (cases j) auto
        have "?as ! k' \<in> set ?as" using Suc j Cons.prems(3,4) as by simp
        then have "ver_epoch (?as ! k') \<noteq> []" using accepted_versioned u by metis
        moreover have "ver_epoch (?as ! k') = ver_epoch u \<and> ver_sequence u \<le> ver_sequence (?as ! k')"
          if "ver_epoch (?as ! j') = ver_epoch u"
          using accepted_before_return [of g' "ver_epoch u" k' j' vs] u that Suc j Cons.prems as ok' by auto
        ultimately show ?thesis using Suc j 3 as by simp
      qed
    qed
  qed
  from general [OF gate_ok_new assms] show ?thesis .
qed

definition sample_versions :: "state_version list" where
  "sample_versions = map (\<lambda>(e, s). \<lparr>ver_epoch = e, ver_sequence = s\<rparr>)
     [([], 0), (''a'', 2), (''a'', 1), (''a'', 3), (''b'', 1), (''a'', 9), ([], 0), (''b'', 1)]"

lemma sample_accepted:
  "accepted_versions sample_versions new_gate = map (\<lambda>(e, s). \<lparr>ver_epoch = e, ver_sequence = s\<rparr>)
     [([], 0), (''a'', 2), (''a'', 3), (''b'', 1), (''b'', 1)]"
  by (simp add: sample_versions_def new_gate_def no_version_def accept_def)

theorem accepted_in_order_witness:
  "ver_sequence (accepted_versions sample_versions new_gate ! 3) \<le> ver_sequence (accepted_versions sample_versions new_gate ! 4)"
  using accepted_in_order [of 3 4 4 sample_versions] unfolding sample_accepted by simp

section \<open>A drained mailbox stands for the events it took\<close>

text \<open>What the service holds as the result of the messages: users by id, the last entry of an id
  counts. \<open>deliver\<close> is the effect of one accepted message, the specification of the mailbox.\<close>

record ('c, 'u) node_view =
  vw_config :: "'c option"
  vw_users :: "(int \<rightharpoonup> 'u user_spec_scheme) option"
  vw_devices :: "(int, string list) go_map option"

definition user_map :: "'u user_spec_scheme list \<Rightarrow> (int \<rightharpoonup> 'u user_spec_scheme)" where
  "user_map users = map_of (rev (map (\<lambda>u. (us_id u, u)) users))"

definition map_delta ::
  "string \<Rightarrow> 'u user_spec_scheme list \<Rightarrow> (int \<rightharpoonup> 'u user_spec_scheme) \<Rightarrow> (int \<rightharpoonup> 'u user_spec_scheme)" where
  "map_delta action delta users =
     (if action = ''add'' then users ++ user_map delta
      else if action = ''remove'' then users |` (- (us_id ` set delta))
      else users)"

definition deliver :: "('c, 'u) event \<Rightarrow> ('c, 'u) node_view \<Rightarrow> ('c, 'u) node_view" where
  "deliver e v =
     (case ev_type e of
        SyncSnapshot \<Rightarrow>
          if ev_config e \<noteq> None \<and> ev_users e \<noteq> None
          then v\<lparr>vw_config := ev_config e, vw_users := map_option user_map (ev_users e)\<rparr> else v
      | SyncConfig \<Rightarrow> if ev_config e \<noteq> None then v\<lparr>vw_config := ev_config e\<rparr> else v
      | SyncUsers \<Rightarrow> if ev_users e \<noteq> None then v\<lparr>vw_users := map_option user_map (ev_users e)\<rparr> else v
      | SyncUserDelta \<Rightarrow>
          v\<lparr>vw_users := map_option (map_delta (ev_delta_action e) (ev_delta_users e)) (vw_users v)\<rparr>
      | SyncDevices \<Rightarrow> if ev_devices e \<noteq> None then v\<lparr>vw_devices := ev_devices e\<rparr> else v
      | OtherEvent _ \<Rightarrow> v)"

definition event_accepted :: "('c, 'u) event \<Rightarrow> ('c, 'u) node_mailbox \<Rightarrow> bool" where
  "event_accepted e m \<longleftrightarrow>
     fst (accept (ev_version e) (if ev_type e = SyncDevices then mb_device_version m else mb_control_version m))"

fun accepted_events :: "('c, 'u) event list \<Rightarrow> ('c, 'u) node_mailbox \<Rightarrow> ('c, 'u) event list" where
  "accepted_events [] m = []"
| "accepted_events (e # es) m =
     (if event_accepted e m then e # accepted_events es (apply_event e m) else accepted_events es (apply_event e m))"

lemma user_map_Nil [simp]: "user_map [] = Map.empty"
  by (simp add: user_map_def)

lemma user_map_snoc: "user_map (us @ [u]) = (user_map us)(us_id u \<mapsto> u)"
  by (simp add: user_map_def)

lemma user_map_Cons: "user_map (u # us) = [us_id u \<mapsto> u] ++ user_map us"
  by (simp add: user_map_def map_add_def fun_eq_iff split: option.splits)

lemma user_map_append: "user_map (us @ vs) = user_map us ++ user_map vs"
  by (simp add: user_map_def)

lemma user_map_filter: "user_map (filter (\<lambda>u. P (us_id u)) us) = user_map us |` {i. P i}"
  by (induction us rule: rev_induct) (auto simp: user_map_snoc restrict_map_def fun_eq_iff)

text \<open>The index of \<open>applyUserDelta\<close> knows for each id its last position.\<close>

definition index_ok :: "(int, nat) go_map \<Rightarrow> 'u user_spec_scheme list \<Rightarrow> bool" where
  "index_ok index us \<longleftrightarrow> (\<forall>id. case map_of index id of
     None \<Rightarrow> id \<notin> us_id ` set us
   | Some i \<Rightarrow> i < length us \<and> us_id (us ! i) = id \<and> (\<forall>j < length us. i < j \<longrightarrow> us_id (us ! j) \<noteq> id))"

lemma index_ok_snoc:
  assumes "index_ok index us"
  shows "index_ok (AList.update (us_id u) (length us) index) (us @ [u])"
  unfolding index_ok_def
proof (intro allI)
  fix id
  show "case map_of (AList.update (us_id u) (length us) index) id of
      None \<Rightarrow> id \<notin> us_id ` set (us @ [u])
    | Some i \<Rightarrow> i < length (us @ [u]) \<and> us_id ((us @ [u]) ! i) = id \<and>
        (\<forall>j < length (us @ [u]). i < j \<longrightarrow> us_id ((us @ [u]) ! j) \<noteq> id)"
    using assms [unfolded index_ok_def, rule_format, of id]
    by (auto simp: go_map nth_append less_Suc_eq split: option.splits)
qed

lemma user_index_ok: "index_ok (user_index us) us"
proof (induction us rule: rev_induct)
  case Nil
  show ?case by (simp add: index_ok_def user_index_def)
next
  case (snoc u us)
  then show ?case using index_ok_snoc [OF snoc.IH, of u] by (simp add: user_index_def enumerate_append_eq)
qed

lemma user_map_set_last:
  assumes "i < length us" and "us_id (us ! i) = us_id u" and "\<forall>j < length us. i < j \<longrightarrow> us_id (us ! j) \<noteq> us_id u"
  shows "user_map (us[i := u]) = (user_map us)(us_id u \<mapsto> u)"
proof -
  have split: "us = take i us @ us ! i # drop (Suc i) us" using assms(1) by (simp add: id_take_nth_drop)
  have "us_id u \<notin> us_id ` set (drop (Suc i) us)"
  proof
    assume "us_id u \<in> us_id ` set (drop (Suc i) us)"
    then obtain k where "k < length us - Suc i" "us_id u = us_id (us ! (Suc i + k))"
      by (auto simp: in_set_conv_nth)
    then show False using assms(3) [rule_format, of "Suc i + k"] by (simp add: less_diff_conv)
  qed
  then have later: "user_map (drop (Suc i) us) (us_id u) = None"
    by (simp add: user_map_def map_of_eq_None_iff image_image)
  have "user_map (us[i := u]) = user_map (take i us) ++ ([us_id u \<mapsto> u] ++ user_map (drop (Suc i) us))"
    using assms(1) by (simp add: upd_conv_take_nth_drop user_map_append user_map_Cons)
  moreover have "user_map us = user_map (take i us) ++ ([us_id u \<mapsto> us ! i] ++ user_map (drop (Suc i) us))"
    using arg_cong [OF split, of user_map] assms(2) by (simp add: user_map_append user_map_Cons)
  ultimately show ?thesis using later by (auto simp: map_add_def fun_eq_iff split: option.splits)
qed

lemma index_ok_update: "index_ok index us \<Longrightarrow> map_of index (us_id u) = Some i \<Longrightarrow> index_ok index (us[i := u])"
  unfolding index_ok_def
proof (intro allI)
  fix id
  assume ok: "\<forall>id. case map_of index id of
      None \<Rightarrow> id \<notin> us_id ` set us
    | Some i \<Rightarrow> i < length us \<and> us_id (us ! i) = id \<and> (\<forall>j < length us. i < j \<longrightarrow> us_id (us ! j) \<noteq> id)"
    and i: "map_of index (us_id u) = Some i"
  have at_i: "i < length us" "us_id (us ! i) = us_id u" using ok [rule_format, of "us_id u"] i by auto
  then have ids: "map us_id (us[i := u]) = map us_id us" by (simp add: map_update list_update_same_conv)
  then have "\<And>j. j < length us \<Longrightarrow> us_id (us[i := u] ! j) = us_id (us ! j)" by (metis length_list_update nth_map)
  moreover have "us_id ` set (us[i := u]) = us_id ` set us" by (metis ids set_map)
  ultimately show "case map_of index id of
      None \<Rightarrow> id \<notin> us_id ` set (us[i := u])
    | Some k \<Rightarrow> k < length (us[i := u]) \<and> us_id (us[i := u] ! k) = id \<and>
        (\<forall>j < length (us[i := u]). k < j \<longrightarrow> us_id (us[i := u] ! j) \<noteq> id)"
    using ok [rule_format, of id] by (auto split: option.splits)
qed

lemma add_users_loop_map: "index_ok index us \<Longrightarrow> user_map (add_users_loop delta index us) = user_map us ++ user_map delta"
proof (induction delta index us rule: add_users_loop.induct)
  case (1 index us)
  then show ?case by simp
next
  case (2 user delta index us)
  show ?case
  proof (cases "map_of index (us_id user)")
    case None
    then show ?thesis using 2(1) [OF None index_ok_snoc [OF 2(3)]] None by (simp add: user_map_snoc user_map_Cons del: fun_upd_apply)
  next
    case (Some i)
    have "user_map (us[i := user]) = (user_map us)(us_id user \<mapsto> user)"
      using 2(3) [unfolded index_ok_def, rule_format, of "us_id user"] Some by (intro user_map_set_last) auto
    then show ?thesis using 2(2) [OF Some index_ok_update [OF 2(3) Some]] Some by (simp add: user_map_Cons del: fun_upd_apply)
  qed
qed

lemma mailbox_user_delta_map:
  "mailbox_user_delta action delta (Some us) =
     (if action = ''add'' \<or> action = ''remove''
      then Some (Some (if action = ''add'' then add_users_loop delta (user_index us) us
                       else filter (\<lambda>u. us_id u \<notin> set (map us_id delta)) us))
      else None)"
  "action = ''add'' \<Longrightarrow> user_map (add_users_loop delta (user_index us) us) = map_delta action delta (user_map us)"
  "action = ''remove'' \<Longrightarrow> user_map (filter (\<lambda>u. us_id u \<notin> set (map us_id delta)) us) = map_delta action delta (user_map us)"
  using add_users_loop_map [OF user_index_ok, of delta us] user_map_filter [of "\<lambda>i. i \<notin> set (map us_id delta)" us]
  by (simp_all add: mailbox_user_delta_def map_delta_def Compl_eq)

text \<open>\<open>pending base cur m\<close>: what \<open>m\<close> holds leads from \<open>base\<close>, the state of the service, to \<open>cur\<close>.\<close>

definition pending :: "('c, 'u) node_view \<Rightarrow> ('c, 'u) node_view \<Rightarrow> ('c, 'u) node_mailbox \<Rightarrow> bool" where
  "pending base cur m \<longleftrightarrow>
     (mb_full_snapshot m \<longrightarrow> mb_dirty_config m \<and> mb_dirty_users m) \<and>
     (mb_dirty_config m \<longrightarrow> mb_config m \<noteq> None) \<and> (mb_dirty_devices m \<longrightarrow> mb_devices m \<noteq> None) \<and>
     vw_config cur = (if mb_dirty_config m then mb_config m else vw_config base) \<and>
     vw_devices cur = (if mb_dirty_devices m then mb_devices m else vw_devices base) \<and>
     (mb_dirty_users m \<longrightarrow> mb_has_full_users m) \<and> (mb_has_full_users m \<longrightarrow> mb_users m \<noteq> None) \<and>
     (mb_has_full_users m \<longrightarrow> vw_users cur = map_option user_map (mb_users m)) \<and>
     (\<not> mb_dirty_users m \<and> (mb_has_full_users m \<or> \<not> mb_needs_reconcile m) \<longrightarrow> vw_users cur = vw_users base)"

definition in_sync :: "('c, 'u) node_view \<Rightarrow> ('c, 'u) node_mailbox \<Rightarrow> bool" where
  "in_sync base m \<longleftrightarrow> pending base base m \<and> \<not> mb_dirty_config m \<and> \<not> mb_dirty_users m \<and> \<not> mb_dirty_devices m \<and>
     \<not> mb_needs_reconcile m"

lemma map_delta_Nil: "map_delta action [] = (\<lambda>us. us)"
  by (simp add: map_delta_def fun_eq_iff)

lemma pending_apply:
  assumes "pending base cur m"
  shows "pending base (if event_accepted e m then deliver e cur else cur) (apply_event e m)"
proof -
  obtain ok g where gate: "accept (ev_version e) (if ev_type e = SyncDevices then mb_device_version m else mb_control_version m) = (ok, g)"
    by fastforce
  show ?thesis
  proof (cases ok)
    case False
    then show ?thesis using assms gate by (simp add: event_accepted_def apply_event_def Let_def split: if_splits)
  next
    case True
    then have accepted: "event_accepted e m" using gate by (simp add: event_accepted_def)
    show ?thesis
    proof (cases "ev_type e = SyncUserDelta")
      case False
      then show ?thesis
        using assms gate True accepted
        by (cases "ev_type e") (auto simp: apply_event_def deliver_def pending_def Let_def)
    next
      case delta: True
      note defs = apply_event_def deliver_def pending_def Let_def
      show ?thesis
      proof (cases "ev_delta_users e = [] \<or> \<not> mb_has_full_users m")
        case True
        then show ?thesis
          using assms gate \<open>ok\<close> accepted delta by (cases "ev_delta_users e = []") (auto simp: defs map_delta_Nil option.map_ident)
      next
        case False
        then obtain us where us: "mb_users m = Some us" using assms by (auto simp: pending_def)
        show ?thesis
          using assms gate \<open>ok\<close> accepted delta False us mailbox_user_delta_map [of "ev_delta_action e" "ev_delta_users e" us]
          by (cases "ev_delta_action e = ''add'' \<or> ev_delta_action e = ''remove''") (auto simp: defs map_delta_def)
      qed
    qed
  qed
qed

lemma pending_run: "pending base cur m \<Longrightarrow> pending base (fold deliver (accepted_events es m) cur) (fold apply_event es m)"
proof (induction es arbitrary: cur m)
  case Nil
  then show ?case by simp
next
  case (Cons e es)
  show ?case using Cons.IH [OF pending_apply [OF Cons.prems, of e]] by (auto split: if_splits)
qed

lemma apply_event_ready: "mb_ready (apply_event e m) = mb_ready m"
  by (auto simp: apply_event_def Let_def split: prod.split event_type.split option.split)

lemma run_ready: "mb_ready (fold apply_event es m) = mb_ready m"
  by (induction es arbitrary: m) (simp_all add: apply_event_ready)

text \<open>What the drained events do to the service's state.\<close>

lemma drained_view:
  assumes "mb_full_snapshot m \<longrightarrow> mb_dirty_config m \<and> mb_dirty_users m" and "mb_dirty_config m \<longrightarrow> mb_config m \<noteq> None"
    and "mb_dirty_devices m \<longrightarrow> mb_devices m \<noteq> None" and "mb_dirty_users m \<longrightarrow> mb_users m \<noteq> None" and "mb_ready m"
  shows "fold deliver (drained_events (fst (drain_if_ready m))) base =
    base\<lparr>vw_config := if mb_dirty_config m then mb_config m else vw_config base,
      vw_users := if mb_dirty_users m then map_option user_map (mb_users m) else vw_users base,
      vw_devices := if mb_dirty_devices m then mb_devices m else vw_devices base\<rparr>"
proof -
  have drained: "ms_full_snapshot (fst (drain_if_ready m)) = mb_full_snapshot m"
    "ms_has_config (fst (drain_if_ready m)) = mb_dirty_config m" "ms_has_users (fst (drain_if_ready m)) = mb_dirty_users m"
    "ms_has_devices (fst (drain_if_ready m)) = mb_dirty_devices m"
    "mb_dirty_config m \<longrightarrow> ms_config (fst (drain_if_ready m)) = mb_config m"
    "mb_dirty_users m \<longrightarrow> ms_users (fst (drain_if_ready m)) = mb_users m"
    "mb_dirty_devices m \<longrightarrow> ms_devices (fst (drain_if_ready m)) = mb_devices m"
    using assms by (auto simp: drain_if_ready_def Let_def)
  show ?thesis
  proof (cases "mb_full_snapshot m")
    case True
    then show ?thesis
      using drained assms by (cases "mb_dirty_devices m") (simp_all add: drained_events_def deliver_def plain_event_def)
  next
    case False
    then show ?thesis
      using drained assms
      by (cases "mb_dirty_config m"; cases "mb_dirty_users m"; cases "mb_dirty_devices m")
        (simp_all add: drained_events_def deliver_def plain_event_def)
  qed
qed

lemma drain_flags:
  assumes "mb_ready m" and "mb_dirty_config m \<longrightarrow> mb_config m \<noteq> None" and "mb_dirty_devices m \<longrightarrow> mb_devices m \<noteq> None"
  shows "snd (drain_if_ready m) = m\<lparr>mb_full_snapshot := False, mb_dirty_config := False, mb_dirty_users := False,
      mb_dirty_devices := False, mb_needs_reconcile := False\<rparr>"
    and "ms_needs_reconcile (fst (drain_if_ready m)) = mb_needs_reconcile m"
  using assms by (cases m; auto simp: drain_if_ready_def Let_def)+

lemma drain_pending:
  assumes "pending base cur m" and "mb_ready m" and "drain_if_ready m = (st, m')"
  defines "base' \<equiv> fold deliver (drained_events st) base"
  shows "in_sync base' m'" and "vw_config base' = vw_config cur" and "vw_devices base' = vw_devices cur"
    and "mb_has_full_users m \<or> \<not> mb_needs_reconcile m \<Longrightarrow> vw_users base' = vw_users cur"
    and "ms_needs_reconcile st = mb_needs_reconcile m"
proof -
  note inv = assms(1) [unfolded pending_def]
  have flags: "m' = m\<lparr>mb_full_snapshot := False, mb_dirty_config := False, mb_dirty_users := False,
      mb_dirty_devices := False, mb_needs_reconcile := False\<rparr>" "ms_needs_reconcile st = mb_needs_reconcile m"
    using drain_flags [of m] inv assms(2,3) by auto
  have view: "base' = base\<lparr>vw_config := vw_config cur,
      vw_users := if mb_dirty_users m then map_option user_map (mb_users m) else vw_users base, vw_devices := vw_devices cur\<rparr>"
    using drained_view [of m base] inv assms(2,3) by (auto simp: base'_def)
  show "vw_config base' = vw_config cur" "vw_devices base' = vw_devices cur" "ms_needs_reconcile st = mb_needs_reconcile m"
    by (simp_all add: view flags)
  show users: "vw_users base' = vw_users cur" if "mb_has_full_users m \<or> \<not> mb_needs_reconcile m"
    using inv that by (cases "mb_dirty_users m") (simp_all add: view)
  show "in_sync base' m'"
    using inv users by (auto simp: in_sync_def pending_def flags)
qed

text \<open>Coalescing loses nothing: whatever events reach the mailbox between two drains, the at most
  three events it hands over bring the service to the state that the accepted events bring about one by
  one, unless the mailbox asks for a full pull; configuration and devices agree even then, and the
  mailbox is in step with the service again. It asks for a pull only if an increment came before any full
  list of users or was of an unknown kind.\<close>

theorem coalesced_drain:
  assumes "in_sync base m" and "mb_ready m" and "drain_if_ready (fold apply_event es m) = (st, m')"
    and "base' = fold deliver (drained_events st) base" and "cur = fold deliver (accepted_events es m) base"
  shows "length (drained_events st) \<le> 3 \<and> in_sync base' m' \<and>
    vw_config base' = vw_config cur \<and> vw_devices base' = vw_devices cur \<and>
    (\<not> ms_needs_reconcile st \<longrightarrow> vw_users base' = vw_users cur) \<and>
    (ms_needs_reconcile st \<longrightarrow>
       (\<exists>e \<in> set es. ev_type e = SyncUserDelta \<and>
         (\<not> mb_has_full_users m \<or> ev_delta_action e \<noteq> ''add'' \<and> ev_delta_action e \<noteq> ''remove'')))"
proof -
  have "pending base cur (fold apply_event es m)"
    using pending_run [of base base m es] assms(1) by (simp add: in_sync_def assms(5))
  note drain = drain_pending [OF this _ assms(3)]
  have ready: "mb_ready (fold apply_event es m)" using assms(2) by (simp add: run_ready)
  have reconcile: "mb_needs_reconcile (fold apply_event es m) \<longrightarrow> mb_needs_reconcile m \<or>
      (\<exists>e \<in> set es. ev_type e = SyncUserDelta \<and>
         (\<not> mb_has_full_users m \<or> ev_delta_action e \<noteq> ''add'' \<and> ev_delta_action e \<noteq> ''remove''))"
  proof (induction es arbitrary: m)
    case Nil
    then show ?case by simp
  next
    case (Cons e es)
    have "mb_has_full_users m \<Longrightarrow> mb_has_full_users (apply_event e m)"
      by (auto simp: apply_event_def Let_def split: prod.split event_type.split option.split)
    moreover have "mb_needs_reconcile (apply_event e m) \<Longrightarrow> mb_needs_reconcile m \<or>
        ev_type e = SyncUserDelta \<and> (\<not> mb_has_full_users m \<or> ev_delta_action e \<noteq> ''add'' \<and> ev_delta_action e \<noteq> ''remove'')"
      by (auto simp: apply_event_def mailbox_user_delta_def Let_def split: prod.splits event_type.splits option.splits if_splits)
    ultimately show ?case using Cons.IH [of "apply_event e m"] by auto
  qed
  have "length (drained_events st) \<le> 3" by (simp add: drained_events_def)
  then show ?thesis
    using drain(1) [OF ready] drain(2) [OF ready] drain(3) [OF ready] drain(4) [OF ready] drain(5) [OF ready]
      reconcile assms(1,4) unfolding in_sync_def by blast
qed

definition sample_event :: "event_type \<Rightarrow> u64 \<Rightarrow> (string, unit) event" where
  "sample_event t n = plain_event t \<lparr>ver_epoch = ''a'', ver_sequence = n\<rparr>"

definition sample_user :: "int \<Rightarrow> user_spec" where
  "sample_user n = \<lparr>us_id = n, us_uuid = itoa n, us_speed = 0, us_device = 0, us_conn = 0, us_rate = 0\<rparr>"

definition sample_mailbox :: "(string, unit) node_mailbox" where
  "sample_mailbox = mark_ready (seed_baseline (Some [sample_user 1, sample_user 2]) (Some ''old'') new_mailbox)"

definition sample_base :: "(string, unit) node_view" where
  "sample_base = \<lparr>vw_config = Some ''old'', vw_users = Some (user_map [sample_user 1, sample_user 2]), vw_devices = None\<rparr>"

definition sample_events :: "(string, unit) event list" where
  "sample_events =
     [(sample_event SyncUserDelta 1)\<lparr>ev_delta_action := ''add'', ev_delta_users := [sample_user 3]\<rparr>,
      (sample_event SyncConfig 3)\<lparr>ev_config := Some ''new''\<rparr>,
      (sample_event SyncConfig 2)\<lparr>ev_config := Some ''late''\<rparr>,
      (sample_event SyncUserDelta 4)\<lparr>ev_delta_action := ''remove'', ev_delta_users := [sample_user 1]\<rparr>]"

theorem coalesced_drain_witness:
  "vw_users (fold deliver (drained_events (fst (drain_if_ready (fold apply_event sample_events sample_mailbox)))) sample_base) =
   vw_users (fold deliver (accepted_events sample_events sample_mailbox) sample_base)"
proof -
  have seed: "in_sync sample_base sample_mailbox" "mb_ready sample_mailbox" "mb_has_full_users sample_mailbox"
    by (simp_all add: in_sync_def pending_def sample_base_def sample_mailbox_def mark_ready_def seed_baseline_def
        new_mailbox_def Let_def)
  obtain st m' where drain: "drain_if_ready (fold apply_event sample_events sample_mailbox) = (st, m')" by fastforce
  note result = coalesced_drain [OF seed(1,2) drain refl refl, THEN conjunct2, THEN conjunct2, THEN conjunct2, THEN conjunct2]
  have "\<forall>e \<in> set sample_events. ev_type e = SyncUserDelta \<longrightarrow> ev_delta_action e = ''add'' \<or> ev_delta_action e = ''remove''"
    by (simp add: sample_events_def sample_event_def plain_event_def)
  then have "\<not> ms_needs_reconcile st" using result [THEN conjunct2] seed(3) by blast
  then show ?thesis using result [THEN conjunct1] drain by simp
qed

end
