(* ===== verification/Runtime.thy ===== *)
theory Runtime
  imports Mailbox Balancer
begin

text \<open>
  Model of the control loop of \<open>internal/service\<close>: which configuration and which users the kernel
  serves (\<open>service.go\<close>: handling of pushed events and pulled snapshots, application of configuration and
  users; \<open>runtime_failure.go\<close>, \<open>firewall.go\<close>, \<open>source_policy.go\<close>, \<open>realtime.go\<close>).

  The kernel is an interface of the code (\<open>kernel.Kernel\<close>), so is the firewall controller; a
  \<open>runtime_api\<close> holds their operations, the outcomes of certificate and configuration checks, the
  hashes and the clock, one value per handled event, so outcomes may differ from event to event. The main
  loop handles one event at a time, which makes every handler one state transition.
  \<open>prepare_user_state\<close> also hands the users to the limiter, the speed limits and the device gate,
  which have theories of their own.
\<close>

section \<open>Configuration\<close>

record source_policy =
  sp_mode :: string
  sp_block_cn :: bool
  sp_allow :: "string list"
  sp_block :: "string list"

definition policy_enabled :: "source_policy option \<Rightarrow> bool" where
  "policy_enabled p = (case p of None \<Rightarrow> False | Some q \<Rightarrow>
     sp_mode q = ''blacklist'' \<or> sp_mode q = ''whitelist'' \<or> sp_mode q = [] \<and> sp_block_cn q)"

definition policy_needs_cn :: "source_policy option \<Rightarrow> bool" where
  "policy_needs_cn p = (policy_enabled p \<and> (case p of None \<Rightarrow> False | Some q \<Rightarrow> sp_mode q \<noteq> ''whitelist'' \<and> sp_block_cn q))"

record 'x relay_config =
  rl_mode :: string
  rl_entry_node :: int
  rl_firewall :: "'x option"
  rl_rest :: 'x

text \<open>\<open>ns_unhashed\<close> are the fields that are not serialised (targets to probe, front addresses).\<close>

record 'x node_spec =
  ns_health :: "'x option"
  ns_cert_renew :: string
  ns_protocol :: string
  ns_auto_firewall :: "bool option"
  ns_policy :: "source_policy option"
  ns_cert_config :: "'x option"
  ns_relay :: "'x relay_config option"
  ns_rest :: 'x
  ns_unhashed :: 'x

definition manages_firewall :: "'x node_spec \<Rightarrow> bool" where
  "manages_firewall n = (case ns_auto_firewall n of None \<Rightarrow> True | Some b \<Rightarrow> b)"

definition relay_landing :: "'x node_spec \<Rightarrow> bool" where
  "relay_landing n = (case ns_relay n of None \<Rightarrow> False | Some r \<Rightarrow> rl_mode r = ''landing'')"

definition entry_node :: "'x node_spec \<Rightarrow> int" where
  "entry_node n = (case ns_relay n of None \<Rightarrow> 0 | Some r \<Rightarrow> rl_entry_node r)"

definition userless :: "'x node_spec \<Rightarrow> bool" where
  "userless n \<longleftrightarrow> relay_landing n \<or> ns_protocol n = ''balancer''"

section \<open>Interfaces\<close>

datatype 'u user_change =
  AddUsers "'u user_spec_scheme list"
| RemoveUsers "'u user_spec_scheme list"
| UpdateUsers "'u user_spec_scheme list"

text \<open>A launch is the node with its prepared list of blocked sources, the users and the certificate.\<close>

type_synonym ('x, 'u) launch = "'x node_spec \<times> string list option \<times> 'u user_spec_scheme list \<times> 'x"

record ('k, 'f, 'x, 'u) runtime_api =
  k_start :: "('x, 'u) launch \<Rightarrow> 'k \<Rightarrow> bool \<times> 'k"
  k_reload :: "('x, 'u) launch \<Rightarrow> 'k \<Rightarrow> bool \<times> 'k"
  k_change :: "'u user_change \<Rightarrow> 'k \<Rightarrow> bool \<times> 'k"
  k_stop :: "'k \<Rightarrow> 'k"
  k_running :: "'k \<Rightarrow> bool"
  fw_present :: bool
  fw_apply :: "'x node_spec \<times> string list option \<Rightarrow> 'f \<Rightarrow> bool \<times> 'f"
  fw_prepare :: "'x node_spec \<times> string list option \<Rightarrow> 'f \<Rightarrow> bool \<times> 'f"
  fw_release :: "'f \<Rightarrow> bool \<times> 'f"
  cert_local :: "'x node_spec \<Rightarrow> 'x \<Rightarrow> 'x option"
  cert_remote :: "'x node_spec \<Rightarrow> 'x \<Rightarrow> 'x option"
  node_valid :: "'x node_spec \<Rightarrow> 'x \<Rightarrow> bool"
  tls_valid :: "'x node_spec \<Rightarrow> 'x \<Rightarrow> bool"
  policy_get :: "'x option"
  policy_blocked :: "source_policy option \<Rightarrow> 'x option \<Rightarrow> string list option"
  hash_node :: "'x node_spec \<Rightarrow> string"
  hash_users :: "'u user_spec_scheme list \<Rightarrow> string"
  hash_tls :: "'x \<Rightarrow> string"
  ws_connected :: bool
  polling_supported :: bool
  realtime_on :: bool
  now_time :: int
  ctx_done :: bool

datatype runtime_status = StatusStarting | StatusRunning | StatusFailed | StatusStopped

record api_backoff =
  bk_skip :: nat
  bk_level :: nat

record ('x, 'u) pull_result =
  pr_from_poll :: bool
  pr_config :: "'x node_spec option"
  pr_users :: "'u user_spec_scheme list option"
  pr_cert_changed :: bool
  pr_generation :: u64
  pr_control_version :: state_version
  pr_device_version :: state_version
  pr_devices :: "(int, string list) go_map option"

record ('k, 'f, 'x, 'u) control =
  ct_kernel :: 'k
  ct_firewall :: 'f
  ct_tls :: 'x
  ct_config :: "'x node_spec option"
  ct_users :: "'u user_spec_scheme list"
  ct_config_hash :: string
  ct_user_hash :: string
  ct_failed :: string
  ct_error :: bool
  ct_fw_failed :: string
  ct_fw_notice :: bool
  ct_fw_retry :: int
  ct_policy_snapshot :: "'x option"
  ct_policy_data_failed :: bool
  ct_policy_failed :: string
  ct_applied_config :: "'x node_spec option"
  ct_applied_users :: "'u user_spec_scheme list"
  ct_applied_tls :: string
  ct_control_version :: version_gate
  ct_device_version :: version_gate
  ct_generation :: u64
  ct_synchronized :: bool
  ct_resync :: bool
  ct_pending_cert :: bool
  ct_devices :: "(int, string list) go_map option"
  ct_device_sync :: "int option"
  ct_full_poll :: bool
  ct_pull_active :: bool
  ct_pull_pending :: bool
  ct_pull_generation :: u64
  ct_pull_result :: "('x, 'u) pull_result option"
  ct_backoff :: api_backoff
  ct_status :: runtime_status

section \<open>Hashes\<close>

definition kernel_relevant :: "'x node_spec \<Rightarrow> 'x node_spec" where
  "kernel_relevant n = n\<lparr>ns_health := None, ns_cert_renew := [],
     ns_relay := map_option (\<lambda>r. r\<lparr>rl_firewall := None\<rparr>) (ns_relay n)\<rparr>"

definition kernel_hash :: "('k, 'f, 'x, 'u) runtime_api \<Rightarrow> 'x node_spec option \<Rightarrow> string" where
  "kernel_hash api n = (case n of None \<Rightarrow> [] | Some c \<Rightarrow> hash_node api (kernel_relevant c))"

definition attempt_hash ::
  "('k, 'f, 'x, 'u) runtime_api \<Rightarrow> 'x node_spec option \<Rightarrow> 'u user_spec_scheme list \<Rightarrow> 'x \<Rightarrow> string" where
  "attempt_hash api n users tls = kernel_hash api n @ '':'' @ hash_users api users @ '':'' @ hash_tls api tls"

section \<open>Back-off of pulls\<close>

definition should_skip :: "api_backoff \<Rightarrow> bool \<times> api_backoff" where
  "should_skip b = (if 0 < bk_skip b then (True, b\<lparr>bk_skip := bk_skip b - 1\<rparr>) else (False, b))"

definition on_success :: "api_backoff \<Rightarrow> api_backoff" where
  "on_success b = \<lparr>bk_skip = 0, bk_level = 0\<rparr>"

definition on_failure :: "nat option \<Rightarrow> api_backoff \<Rightarrow> api_backoff" where
  "on_failure jitter b =
     (let level = min (bk_level b + 1) 4; skip = 2 ^ (level - 1) in
      \<lparr>bk_skip = (if 4 \<le> skip then (case jitter of None \<Rightarrow> skip | Some j \<Rightarrow> skip + j mod (skip div 4 + 1)) else skip),
       bk_level = level\<rparr>)"

definition pull_async :: "('k, 'f, 'x, 'u) runtime_api \<Rightarrow> ('k, 'f, 'x, 'u) control \<Rightarrow> ('k, 'f, 'x, 'u) control" where
  "pull_async api s =
     (if \<not> polling_supported api then s
      else if ct_pull_pending s \<or> ct_pull_active s then s
      else let (skip, b) = should_skip (ct_backoff s); s1 = s\<lparr>ct_backoff := b\<rparr> in
        if skip then s1 else s1\<lparr>ct_pull_active := True, ct_pull_generation := ct_generation s\<rparr>)"

definition reset_polling :: "('k, 'f, 'x, 'u) control \<Rightarrow> ('k, 'f, 'x, 'u) control" where
  "reset_polling s = s\<lparr>ct_full_poll := True\<rparr>"

definition request_resync :: "('k, 'f, 'x, 'u) runtime_api \<Rightarrow> ('k, 'f, 'x, 'u) control \<Rightarrow> ('k, 'f, 'x, 'u) control" where
  "request_resync api s = pull_async api (reset_polling (s\<lparr>ct_resync := True, ct_synchronized := False\<rparr>))"

section \<open>Failure and success of the kernel\<close>

definition stop_kernel :: "('k, 'f, 'x, 'u) runtime_api \<Rightarrow> ('k, 'f, 'x, 'u) control \<Rightarrow> ('k, 'f, 'x, 'u) control" where
  "stop_kernel api s =
     (let s1 = s\<lparr>ct_kernel := k_stop api (ct_kernel s)\<rparr> in
      if \<not> fw_present api then s1 else s1\<lparr>ct_firewall := snd (fw_release api (ct_firewall s1))\<rparr>)"

definition fail_runtime ::
  "('k, 'f, 'x, 'u) runtime_api \<Rightarrow> 'x node_spec option \<Rightarrow> 'u user_spec_scheme list \<Rightarrow>
   ('k, 'f, 'x, 'u) control \<Rightarrow> ('k, 'f, 'x, 'u) control" where
  "fail_runtime api n users s =
     (stop_kernel api (s\<lparr>ct_failed := attempt_hash api n users (ct_tls s), ct_error := True\<rparr>))
       \<lparr>ct_applied_config := None, ct_applied_users := [], ct_status := StatusFailed\<rparr>"

definition runtime_applied ::
  "('k, 'f, 'x, 'u) runtime_api \<Rightarrow> 'x node_spec option \<Rightarrow> 'u user_spec_scheme list \<Rightarrow>
   ('k, 'f, 'x, 'u) control \<Rightarrow> ('k, 'f, 'x, 'u) control" where
  "runtime_applied api n users s =
     s\<lparr>ct_failed := [], ct_error := False, ct_applied_config := n, ct_applied_users := users,
       ct_applied_tls := hash_tls api (ct_tls s), ct_status := StatusRunning\<rparr>"

definition attempt_blocked ::
  "('k, 'f, 'x, 'u) runtime_api \<Rightarrow> 'x node_spec \<Rightarrow> 'u user_spec_scheme list \<Rightarrow> ('k, 'f, 'x, 'u) control \<Rightarrow> bool" where
  "attempt_blocked api n users s \<longleftrightarrow> ct_failed s \<noteq> [] \<and> ct_failed s = attempt_hash api (Some n) users (ct_tls s)"

definition prepare_runtime ::
  "('k, 'f, 'x, 'u) runtime_api \<Rightarrow> 'x node_spec \<Rightarrow> 'u user_spec_scheme list \<Rightarrow>
   ('k, 'f, 'x, 'u) control \<Rightarrow> bool \<times> ('k, 'f, 'x, 'u) control" where
  "prepare_runtime api n users s =
     (if attempt_blocked api n users s then (False, s)
      else case (if ns_cert_config n = None then cert_local api n (ct_tls s) else Some (ct_tls s)) of
        None \<Rightarrow> (False, fail_runtime api (Some n) users s)
      | Some tls \<Rightarrow>
          let s1 = s\<lparr>ct_tls := tls\<rparr> in
          if \<not> node_valid api n tls then (False, fail_runtime api (Some n) users s1)
          else case cert_remote api n tls of
            None \<Rightarrow> (False, fail_runtime api (Some n) users s1)
          | Some tls' \<Rightarrow>
              let s2 = s1\<lparr>ct_tls := tls'\<rparr> in
              if \<not> tls_valid api n tls' then (False, fail_runtime api (Some n) users s2) else (True, s2))"

definition prepare_policy ::
  "('k, 'f, 'x, 'u) runtime_api \<Rightarrow> 'x node_spec \<Rightarrow> ('k, 'f, 'x, 'u) control \<Rightarrow>
   string list option option \<times> ('k, 'f, 'x, 'u) control" where
  "prepare_policy api n s =
     (if \<not> policy_enabled (ns_policy n) then (Some None, s\<lparr>ct_policy_data_failed := False, ct_policy_failed := []\<rparr>)
      else let missing = policy_needs_cn (ns_policy n) \<and> ct_policy_snapshot s = None;
               s1 = (if missing then s\<lparr>ct_policy_snapshot := policy_get api\<rparr> else s) in
        if missing \<and> policy_get api = None then (None, s\<lparr>ct_policy_data_failed := True\<rparr>)
        else case policy_blocked api (ns_policy n) (ct_policy_snapshot s1) of
          None \<Rightarrow> (None, s1)
        | Some cidrs \<Rightarrow> (Some (Some cidrs), s1\<lparr>ct_policy_data_failed := False\<rparr>))"

section \<open>Firewall\<close>

definition fail_firewall ::
  "('k, 'f, 'x, 'u) runtime_api \<Rightarrow> 'x node_spec \<Rightarrow> 'u user_spec_scheme list \<Rightarrow>
   ('k, 'f, 'x, 'u) control \<Rightarrow> ('k, 'f, 'x, 'u) control" where
  "fail_firewall api n users s =
     (let s1 = fail_runtime api (Some n) users s in s1\<lparr>ct_fw_failed := ct_failed s1, ct_fw_retry := now_time api\<rparr>)"

definition update_firewall ::
  "('k, 'f, 'x, 'u) runtime_api \<Rightarrow> 'x node_spec \<Rightarrow> 'u user_spec_scheme list \<Rightarrow> bool \<Rightarrow>
   ('k, 'f, 'x, 'u) control \<Rightarrow> bool \<times> ('k, 'f, 'x, 'u) control" where
  "update_firewall api n users prepare s =
     (if \<not> fw_present api then
        (if manages_firewall n \<and> policy_enabled (ns_policy n) then (False, fail_firewall api n users s) else (True, s))
      else if \<not> manages_firewall n then
        (let (ok, f) = fw_release api (ct_firewall s); s1 = s\<lparr>ct_firewall := f\<rparr> in
         if \<not> ok then (False, fail_firewall api n users s1)
         else (True, s1\<lparr>ct_fw_notice := False, ct_fw_failed := []\<rparr>))
      else let (blocked, s1) = (if policy_enabled (ns_policy n) then prepare_policy api n s else (Some None, s)) in
        case blocked of
          None \<Rightarrow> (False, fail_runtime api (Some n) users s1)
        | Some cidrs \<Rightarrow>
            let (ok, f) = (if prepare then fw_prepare api else fw_apply api) (n, cidrs) (ct_firewall s1);
                s2 = s1\<lparr>ct_firewall := f\<rparr> in
            if ok then (True, s2\<lparr>ct_fw_notice := False, ct_fw_failed := []\<rparr>)
            else if \<not> policy_enabled (ns_policy n) \<and> relay_landing n \<and> 0 < entry_node n then (True, s2\<lparr>ct_fw_notice := True\<rparr>)
            else if policy_enabled (ns_policy n) then (False, fail_firewall api n users s2)
            else (False, fail_runtime api (Some n) users s2))"

text \<open>Before the kernel listens the firewall is checked (or released), after it listens it is opened.\<close>

definition open_firewall ::
  "('k, 'f, 'x, 'u) runtime_api \<Rightarrow> 'x node_spec \<Rightarrow> 'u user_spec_scheme list \<Rightarrow>
   ('k, 'f, 'x, 'u) control \<Rightarrow> bool \<times> ('k, 'f, 'x, 'u) control" where
  "open_firewall api n users s =
     (if \<not> manages_firewall n then update_firewall api n users False s
      else if policy_enabled (ns_policy n) then update_firewall api n users True s else (True, s))"

definition finish_launch ::
  "('k, 'f, 'x, 'u) runtime_api \<Rightarrow> 'x node_spec \<Rightarrow> 'u user_spec_scheme list \<Rightarrow>
   ('k, 'f, 'x, 'u) control \<Rightarrow> bool \<times> ('k, 'f, 'x, 'u) control" where
  "finish_launch api n users s =
     (let (applied, s1) = (if manages_firewall n then update_firewall api n users False s else (True, s)) in
      if \<not> applied then (False, s1) else (True, runtime_applied api (Some n) users s1))"

definition start_kernel ::
  "('k, 'f, 'x, 'u) runtime_api \<Rightarrow> 'x node_spec \<Rightarrow> 'u user_spec_scheme list \<Rightarrow>
   ('k, 'f, 'x, 'u) control \<Rightarrow> bool \<times> ('k, 'f, 'x, 'u) control" where
  "start_kernel api n users s =
     (let (ready, s1) = prepare_runtime api n users s in
      if \<not> ready then (False, s1)
      else let (blocked, s2) = prepare_policy api n s1 in
        case blocked of
          None \<Rightarrow> let s3 = fail_runtime api (Some n) users s2 in (False, s3\<lparr>ct_policy_failed := ct_failed s3\<rparr>)
        | Some cidrs \<Rightarrow>
            let (open_ok, s3) = open_firewall api n users s2 in
            if \<not> open_ok then (False, s3)
            else let (ok, k) = k_start api (n, cidrs, users, ct_tls s3) (ct_kernel s3); s4 = s3\<lparr>ct_kernel := k\<rparr> in
              if \<not> ok then (False, fail_runtime api (Some n) users s4) else finish_launch api n users s4)"

section \<open>Applying configuration\<close>

definition prepare_user_state ::
  "('k, 'f, 'x, 'u) runtime_api \<Rightarrow> 'u user_spec_scheme list \<Rightarrow> ('k, 'f, 'x, 'u) control \<Rightarrow> ('k, 'f, 'x, 'u) control" where
  "prepare_user_state api users s = s\<lparr>ct_users := users, ct_user_hash := hash_users api users\<rparr>"

definition must_restart :: "'x node_spec \<Rightarrow> 'x node_spec option \<Rightarrow> bool" where
  "must_restart n applied \<longleftrightarrow>
     manages_firewall n \<and> policy_enabled (ns_policy n) \<or>
     (case applied of None \<Rightarrow> False | Some a \<Rightarrow>
        manages_firewall a \<and> policy_enabled (ns_policy a) \<or> manages_firewall a \<noteq> manages_firewall n)"

text \<open>The state \<open>apply_changes\<close> works on: nodes without panel users drop them.\<close>

definition goal_state ::
  "('k, 'f, 'x, 'u) runtime_api \<Rightarrow> 'x node_spec \<Rightarrow> ('k, 'f, 'x, 'u) control \<Rightarrow> ('k, 'f, 'x, 'u) control" where
  "goal_state api n s = (if userless n then prepare_user_state api [] s else s)"

definition apply_changes ::
  "('k, 'f, 'x, 'u) runtime_api \<Rightarrow> ('k, 'f, 'x, 'u) control \<Rightarrow> bool \<times> ('k, 'f, 'x, 'u) control" where
  "apply_changes api s =
     (if ctx_done api then (False, s)
      else case ct_config s of
        None \<Rightarrow> (True, s)
      | Some n \<Rightarrow>
          let s1 = goal_state api n s; users = ct_users s1 in
          if \<not> k_running api (ct_kernel s1) \<and> (users \<noteq> [] \<or> userless n) then start_kernel api n users s1
          else let (ready, s2) = prepare_runtime api n users s1 in
            if \<not> ready then (False, s2)
            else if users = [] \<and> \<not> userless n then (True, runtime_applied api None [] (stop_kernel api s2))
            else if k_running api (ct_kernel s2) \<and> must_restart n (ct_applied_config s2)
              then start_kernel api n users (stop_kernel api s2)
            else let (blocked, s3) = prepare_policy api n s2 in
              case blocked of
                None \<Rightarrow> let s4 = fail_runtime api (Some n) users s3 in (False, s4\<lparr>ct_policy_failed := ct_failed s4\<rparr>)
              | Some cidrs \<Rightarrow>
                  let (ok, k) = k_reload api (n, cidrs, users, ct_tls s3) (ct_kernel s3); s4 = s3\<lparr>ct_kernel := k\<rparr> in
                  if \<not> ok then (False, fail_runtime api (Some n) users s4) else finish_launch api n users s4)"

definition policy_only ::
  "('k, 'f, 'x, 'u) runtime_api \<Rightarrow> 'x node_spec \<Rightarrow> ('k, 'f, 'x, 'u) control \<Rightarrow> bool" where
  "policy_only api config s \<longleftrightarrow>
     k_running api (ct_kernel s) \<and> kernel_hash api (ct_config s) = kernel_hash api (Some config) \<and>
     ct_applied_tls s = hash_tls api (ct_tls s)"

definition apply_config_update ::
  "('k, 'f, 'x, 'u) runtime_api \<Rightarrow> 'x node_spec \<Rightarrow> string \<Rightarrow>
   ('k, 'f, 'x, 'u) control \<Rightarrow> bool \<times> ('k, 'f, 'x, 'u) control" where
  "apply_config_update api config h s =
     (let s1 = s\<lparr>ct_config := Some config, ct_config_hash := h\<rparr> in
      if policy_only api config s then
        (let (ok, s2) = (if manages_firewall config then update_firewall api config (ct_users s1) False s1 else (True, s1)) in
         if \<not> ok then (False, s2) else (True, s2\<lparr>ct_applied_config := Some config\<rparr>))
      else apply_changes api s1)"

definition ensure_running ::
  "('k, 'f, 'x, 'u) runtime_api \<Rightarrow> ('k, 'f, 'x, 'u) control \<Rightarrow> bool \<times> ('k, 'f, 'x, 'u) control" where
  "ensure_running api s =
     (if ctx_done api then (False, s)
      else if k_running api (ct_kernel s) then (True, s)
      else if ct_config s = None then (False, s)
      else let (ok, s1) = apply_changes api s in
        if \<not> ok then (False, s1) else (k_running api (ct_kernel s1), s1))"

definition sync_landing_users ::
  "('k, 'f, 'x, 'u) runtime_api \<Rightarrow> ('k, 'f, 'x, 'u) control \<Rightarrow> bool \<times> ('k, 'f, 'x, 'u) control" where
  "sync_landing_users api s =
     (let (ok, s1) = ensure_running api (prepare_user_state api [] s) in
      if \<not> ok then (False, s1) else (True, s1\<lparr>ct_applied_users := ct_users s1\<rparr>))"

section \<open>Applying users\<close>

definition apply_user_update ::
  "('k, 'f, 'x, 'u) runtime_api \<Rightarrow> 'u user_spec_scheme list \<Rightarrow> string \<Rightarrow>
   ('k, 'f, 'x, 'u) control \<Rightarrow> bool \<times> ('k, 'f, 'x, 'u) control" where
  "apply_user_update api users h s =
     (case ct_config s of
        None \<Rightarrow> (True, request_resync api (prepare_user_state api users s))
      | Some n \<Rightarrow>
          if userless n then sync_landing_users api s
          else let was_running = k_running api (ct_kernel s);
                   (ok, s1) = ensure_running api (prepare_user_state api users s);
                   hashed = (\<lambda>t. if h \<noteq> [] then t\<lparr>ct_user_hash := h\<rparr> else t) in
            if \<not> ok then (\<not> ct_error s1, s1)
            else if \<not> was_running then (True, hashed s1)
            else let (changed, k) = k_change api (UpdateUsers users) (ct_kernel s1); s2 = s1\<lparr>ct_kernel := k\<rparr> in
              if \<not> changed then (False, fail_runtime api (ct_config s2) users s2)
              else (True, hashed (s2\<lparr>ct_applied_users := ct_users s2\<rparr>)))"

definition has_uuid_change :: "'u user_spec_scheme list \<Rightarrow> 'u user_spec_scheme list \<Rightarrow> bool" where
  "has_uuid_change base delta =
     (\<exists>u \<in> set delta. case user_map base (us_id u) of None \<Rightarrow> False | Some b \<Rightarrow> us_uuid b \<noteq> us_uuid u)"

definition merge_users :: "'u user_spec_scheme list \<Rightarrow> 'u user_spec_scheme list \<Rightarrow> 'u user_spec_scheme list" where
  "merge_users base delta =
     (if delta = [] then base else map snd (fold (\<lambda>u. AList.update (us_id u) u) (base @ delta) []))"

definition subtract_users :: "'u user_spec_scheme list \<Rightarrow> 'u user_spec_scheme list \<Rightarrow> 'u user_spec_scheme list" where
  "subtract_users base delta = filter (\<lambda>u. us_id u \<notin> set (map us_id delta)) base"

text \<open>A hot change, and when it fails the full replacement; \<open>None\<close> when both fail.\<close>

definition change_or_replace ::
  "('k, 'f, 'x, 'u) runtime_api \<Rightarrow> 'u user_change \<Rightarrow> 'u user_spec_scheme list \<Rightarrow>
   ('k, 'f, 'x, 'u) control \<Rightarrow> bool \<times> ('k, 'f, 'x, 'u) control" where
  "change_or_replace api change users s =
     (let (changed, k) = k_change api change (ct_kernel s); s1 = s\<lparr>ct_kernel := k\<rparr> in
      if changed then (True, s1\<lparr>ct_applied_users := ct_users s1\<rparr>)
      else let (replaced, k') = k_change api (UpdateUsers users) k; s2 = s\<lparr>ct_kernel := k'\<rparr> in
        if \<not> replaced then (False, fail_runtime api (ct_config s2) users s2)
        else (True, s2\<lparr>ct_applied_users := ct_users s2\<rparr>))"

definition apply_user_delta ::
  "('k, 'f, 'x, 'u) runtime_api \<Rightarrow> string \<Rightarrow> 'u user_spec_scheme list \<Rightarrow>
   ('k, 'f, 'x, 'u) control \<Rightarrow> bool \<times> ('k, 'f, 'x, 'u) control" where
  "apply_user_delta api action delta s =
     (case ct_config s of
        None \<Rightarrow>
          if action = ''add'' then (True, request_resync api (prepare_user_state api (merge_users (ct_users s) delta) s))
          else if action = ''remove'' then (True, request_resync api (prepare_user_state api (subtract_users (ct_users s) delta) s))
          else (False, s)
      | Some n \<Rightarrow>
          if relay_landing n \<and> (action = ''add'' \<or> action = ''remove'') then sync_landing_users api s
          else if action = ''add'' then
            (if delta = [] then (True, s)
             else let merged = merge_users (ct_users s) delta in
               if has_uuid_change (ct_users s) delta then apply_user_update api merged (hash_users api merged) s
               else let was_running = k_running api (ct_kernel s);
                        (ok, s1) = ensure_running api (prepare_user_state api merged s) in
                 if \<not> ok then (\<not> ct_error s1, s1)
                 else if \<not> was_running then (True, s1)
                 else change_or_replace api (AddUsers delta) merged s1)
          else if action = ''remove'' then
            (if delta = [] then (True, s)
             else let rest = subtract_users (ct_users s) delta; s1 = prepare_user_state api rest s in
               if \<not> k_running api (ct_kernel s1) then apply_changes api s1
               else change_or_replace api (RemoveUsers delta) rest s1)
          else (False, s))"

section \<open>Handling messages\<close>

definition apply_devices ::
  "('k, 'f, 'x, 'u) runtime_api \<Rightarrow> state_version \<Rightarrow> (int, string list) go_map option \<Rightarrow>
   ('k, 'f, 'x, 'u) control \<Rightarrow> ('k, 'f, 'x, 'u) control" where
  "apply_devices api version users s =
     (if users = None then s
      else let (ok, g) = accept version (ct_device_version s) in
        if \<not> ok then s
        else s\<lparr>ct_device_version := g, ct_devices := users, ct_device_sync := Some (now_time api)\<rparr>)"

definition expire_devices :: "('k, 'f, 'x, 'u) runtime_api \<Rightarrow> ('k, 'f, 'x, 'u) control \<Rightarrow> ('k, 'f, 'x, 'u) control" where
  "expire_devices api s =
     (case ct_device_sync s of
        None \<Rightarrow> s
      | Some at \<Rightarrow> if 35 < now_time api - at then s\<lparr>ct_devices := None, ct_device_sync := None\<rparr> else s)"

text \<open>The second half of \<open>applyPullResult\<close>: a snapshot that passed the order checks is applied.\<close>

definition changed_config ::
  "('k, 'f, 'x, 'u) runtime_api \<Rightarrow> ('x, 'u) pull_result \<Rightarrow> bool \<Rightarrow> ('k, 'f, 'x, 'u) control \<Rightarrow> 'x node_spec option" where
  "changed_config api r cert_changed s =
     (case pr_config r of
        None \<Rightarrow> None
      | Some c \<Rightarrow>
          if hash_node api c \<noteq> [] \<and> hash_node api c = ct_config_hash s \<and> \<not> cert_changed then None else Some c)"

definition changed_users ::
  "('k, 'f, 'x, 'u) runtime_api \<Rightarrow> ('x, 'u) pull_result \<Rightarrow> ('k, 'f, 'x, 'u) control \<Rightarrow> 'u user_spec_scheme list option" where
  "changed_users api r s =
     (case pr_users r of
        None \<Rightarrow> None
      | Some us \<Rightarrow> if hash_users api us \<noteq> ct_user_hash s then Some us else None)"

definition apply_snapshot ::
  "('k, 'f, 'x, 'u) runtime_api \<Rightarrow> 'x node_spec option \<Rightarrow> 'u user_spec_scheme list option \<Rightarrow> bool \<Rightarrow>
   ('k, 'f, 'x, 'u) control \<Rightarrow> ('k, 'f, 'x, 'u) control" where
  "apply_snapshot api config users cert_changed s =
     (if config = None \<and> \<not> cert_changed then
        (case users of
           None \<Rightarrow> s
         | Some us \<Rightarrow> let (applied, t) = apply_user_update api us (hash_users api us) s in
             if applied then t else reset_polling t)
      else let s1 = (case users of None \<Rightarrow> s | Some us \<Rightarrow> prepare_user_state api us s);
               (applied, t) = (case config of
                  Some c \<Rightarrow> apply_config_update api c (hash_node api c) s1
                | None \<Rightarrow> apply_changes api s1) in
        if \<not> applied then reset_polling t
        else case users of
          None \<Rightarrow> t
        | Some us \<Rightarrow>
            if (case ct_config t of None \<Rightarrow> False | Some n \<Rightarrow> relay_landing n) then t
            else t\<lparr>ct_user_hash := hash_users api us\<rparr>)"

definition apply_pull_result ::
  "('k, 'f, 'x, 'u) runtime_api \<Rightarrow> ('x, 'u) pull_result \<Rightarrow> ('k, 'f, 'x, 'u) control \<Rightarrow> ('k, 'f, 'x, 'u) control" where
  "apply_pull_result api r s =
     (let s1 = (if pr_from_poll r then s\<lparr>ct_pull_pending := False\<rparr> else s);
          s2 = s1\<lparr>ct_pending_cert := ct_pending_cert s1 \<or> pr_cert_changed r\<rparr> in
      if pr_generation r \<noteq> ct_generation s2 then request_resync api s2
      else let (ok, g) = accept (pr_control_version r) (ct_control_version s2) in
        if \<not> ok then reset_polling (s2\<lparr>ct_synchronized := False, ct_resync := True\<rparr>)
        else let s3 = apply_devices api (pr_device_version r) (pr_devices r)
                   (s2\<lparr>ct_control_version := g, ct_resync := False, ct_pending_cert := False\<rparr>);
                 s4 = s3\<lparr>ct_synchronized := ws_connected api\<rparr> in
          apply_snapshot api (changed_config api r (ct_pending_cert s2) s4) (changed_users api r s4) (ct_pending_cert s2) s4)"

definition handle_event ::
  "('k, 'f, 'x, 'u) runtime_api \<Rightarrow> ('x node_spec, 'u) event \<Rightarrow> ('k, 'f, 'x, 'u) control \<Rightarrow> ('k, 'f, 'x, 'u) control" where
  "handle_event api e s =
     (let (ok, g) = accept (ev_version e) (ct_control_version s);
          accepted = s\<lparr>ct_control_version := g\<rparr>;
          finish = (\<lambda>(applied, t). if applied then t else reset_polling t);
          next_generation = (\<lambda>t. t\<lparr>ct_generation := ct_generation t + 1\<rparr>) in
      case ev_type e of
        SyncSnapshot \<Rightarrow>
          if ev_config e = None \<or> ev_users e = None then s
          else apply_pull_result api
            \<lparr>pr_from_poll = False, pr_config = ev_config e, pr_users = ev_users e, pr_cert_changed = False,
             pr_generation = ct_generation s + 1, pr_control_version = ev_version e,
             pr_device_version = no_version, pr_devices = None\<rparr> (next_generation s)
      | SyncConfig \<Rightarrow>
          (case ev_config e of
             None \<Rightarrow> s
           | Some c \<Rightarrow>
               if \<not> ok then s
               else if hash_node api c = ct_config_hash s then accepted
               else finish (apply_config_update api c (hash_node api c) (next_generation accepted)))
      | SyncUsers \<Rightarrow>
          (case ev_users e of
             None \<Rightarrow> s
           | Some us \<Rightarrow>
               if \<not> ok then s
               else if hash_users api us = ct_user_hash s then accepted
               else finish (apply_user_update api us (hash_users api us) (next_generation accepted)))
      | SyncUserDelta \<Rightarrow>
          if ev_delta_users e = [] \<or> \<not> ok then s
          else if ev_delta_action e \<noteq> ''add'' \<and> ev_delta_action e \<noteq> ''remove'' then accepted
          else let goal = (if ev_delta_action e = ''add'' then merge_users (ct_users s) (ev_delta_users e)
                           else subtract_users (ct_users s) (ev_delta_users e)) in
            if hash_users api goal = ct_user_hash s then accepted
            else finish (apply_user_delta api (ev_delta_action e) (ev_delta_users e) (next_generation accepted))
      | SyncDevices \<Rightarrow> apply_devices api (ev_version e) (ev_devices e) s
      | OtherEvent _ \<Rightarrow> s)"

definition drain_mailbox ::
  "('k, 'f, 'x, 'u) runtime_api \<Rightarrow> ('x node_spec, 'u) mailbox_state \<Rightarrow>
   ('k, 'f, 'x, 'u) control \<Rightarrow> ('k, 'f, 'x, 'u) control" where
  "drain_mailbox api st s =
     (let s1 = fold (handle_event api) (drained_events st) s in
      if ms_needs_reconcile st then request_resync api s1 else s1)"

definition handle_status ::
  "('k, 'f, 'x, 'u) runtime_api \<Rightarrow> bool \<Rightarrow> bool \<Rightarrow> ('k, 'f, 'x, 'u) control \<Rightarrow> ('k, 'f, 'x, 'u) control" where
  "handle_status api connected needs_resync s =
     (let s1 = s\<lparr>ct_synchronized := False\<rparr>;
          s2 = (if needs_resync then request_resync api s1 else s1) in
      if connected then pull_async api (reset_polling s2)
      else pull_async api (if \<not> realtime_on api then s2\<lparr>ct_devices := None\<rparr> else s2))"

definition apply_discovery ::
  "('k, 'f, 'x, 'u) runtime_api \<Rightarrow> bool \<Rightarrow> bool \<Rightarrow> ('k, 'f, 'x, 'u) control \<Rightarrow> ('k, 'f, 'x, 'u) control" where
  "apply_discovery api was_realtime new_client s =
     (let s1 = (if was_realtime \<and> \<not> realtime_on api
                then s\<lparr>ct_control_version := new_gate, ct_device_version := new_gate, ct_generation := ct_generation s + 1\<rparr>
                else s);
          s2 = (if new_client
                then reset_polling (s1\<lparr>ct_synchronized := False, ct_generation := ct_generation s1 + 1\<rparr>)
                else s1) in
      pull_async api s2)"

text \<open>A pull under way ends in an error or in a snapshot that waits for the main loop.\<close>

definition pull_failed :: "nat option \<Rightarrow> ('k, 'f, 'x, 'u) control \<Rightarrow> ('k, 'f, 'x, 'u) control" where
  "pull_failed jitter s =
     (if \<not> ct_pull_active s then s else s\<lparr>ct_pull_active := False, ct_backoff := on_failure jitter (ct_backoff s)\<rparr>)"

definition pull_finished :: "('x, 'u) pull_result \<Rightarrow> ('k, 'f, 'x, 'u) control \<Rightarrow> ('k, 'f, 'x, 'u) control" where
  "pull_finished r s =
     (if \<not> ct_pull_active s then s
      else s\<lparr>ct_backoff := on_success (ct_backoff s), ct_pull_pending := True, ct_pull_active := False,
             ct_pull_result := Some (r\<lparr>pr_from_poll := True, pr_generation := ct_pull_generation s\<rparr>)\<rparr>)"

definition take_pull_result :: "('k, 'f, 'x, 'u) runtime_api \<Rightarrow> ('k, 'f, 'x, 'u) control \<Rightarrow> ('k, 'f, 'x, 'u) control" where
  "take_pull_result api s =
     (case ct_pull_result s of
        None \<Rightarrow> s
      | Some r \<Rightarrow> apply_pull_result api r (s\<lparr>ct_pull_result := None, ct_pull_active := False\<rparr>))"

section \<open>Periodic work\<close>

definition retry_source_firewall ::
  "('k, 'f, 'x, 'u) runtime_api \<Rightarrow> ('k, 'f, 'x, 'u) control \<Rightarrow> ('k, 'f, 'x, 'u) control" where
  "retry_source_firewall api s =
     (if ct_fw_failed s = [] \<or> ct_failed s \<noteq> ct_fw_failed s \<or> k_running api (ct_kernel s) \<or>
         now_time api - ct_fw_retry s < 30 then s
      else case ct_config s of
        None \<Rightarrow> s
      | Some n \<Rightarrow>
          if ct_users s = [] \<and> \<not> userless n then s
          else snd (start_kernel api n (ct_users s) (s\<lparr>ct_fw_retry := now_time api, ct_failed := []\<rparr>)))"

definition track_and_enforce :: "('k, 'f, 'x, 'u) runtime_api \<Rightarrow> ('k, 'f, 'x, 'u) control \<Rightarrow> ('k, 'f, 'x, 'u) control" where
  "track_and_enforce api s =
     (let s1 = retry_source_firewall api s in
      case ct_config s1 of
        None \<Rightarrow> s1
      | Some n \<Rightarrow>
          let check_source = manages_firewall n \<and> policy_enabled (ns_policy n);
              check_landing = manages_firewall n \<and> relay_landing n \<and> 0 < entry_node n;
              s2 = (if (check_source \<or> check_landing \<or> ct_fw_notice s1) \<and> k_running api (ct_kernel s1) \<and>
                       (if check_source then 5 else 30) \<le> now_time api - ct_fw_retry s1
                    then snd (update_firewall api n (ct_users s1) False (s1\<lparr>ct_fw_retry := now_time api\<rparr>)) else s1) in
            if ct_applied_config s2 \<noteq> None \<and> (ct_users s2 \<noteq> [] \<or> userless n) \<and> \<not> k_running api (ct_kernel s2)
            then fail_runtime api (Some n) (ct_users s2) s2 else s2)"

definition refresh_policy ::
  "('k, 'f, 'x, 'u) runtime_api \<Rightarrow> ('x option \<Rightarrow> string) \<Rightarrow> 'x option \<Rightarrow>
   ('k, 'f, 'x, 'u) control \<Rightarrow> ('k, 'f, 'x, 'u) control" where
  "refresh_policy api revision snapshot s =
     (case ct_config s of
        None \<Rightarrow> s
      | Some n \<Rightarrow>
          if \<not> policy_needs_cn (ns_policy n) \<or> snapshot = None \<or>
             revision snapshot = revision (ct_policy_snapshot s) \<and> \<not> ct_policy_data_failed s then s
          else let s1 = s\<lparr>ct_policy_snapshot := snapshot\<rparr>;
                   s2 = (if ct_policy_data_failed s1
                         then s1\<lparr>ct_failed := (if ct_failed s1 = ct_policy_failed s1 then [] else ct_failed s1),
                                 ct_policy_data_failed := False, ct_policy_failed := []\<rparr>
                         else s1) in
            snd (apply_changes api s2))"

section \<open>Steps\<close>

text \<open>What happens to a service: an event of the main loop, or something outside it: a pull that ends,
  a kernel that dies (\<open>Crash k\<close>, with \<open>k\<close> not running), a renewed certificate.\<close>

datatype ('k, 'x, 'u) service_op =
  Event "('x node_spec, 'u) event"
| Drain "('x node_spec, 'u) mailbox_state"
| Status bool bool
| Discovery bool bool
| PullFailed "nat option"
| PullFinished "('x, 'u) pull_result"
| TakePull
| StartPull
| Track
| Refresh "'x option \<Rightarrow> string" "'x option"
| Expire
| Crash 'k
| Renew 'x

definition service_step ::
  "('k, 'f, 'x, 'u) runtime_api \<times> ('k, 'x, 'u) service_op \<Rightarrow> ('k, 'f, 'x, 'u) control \<Rightarrow> ('k, 'f, 'x, 'u) control" where
  "service_step x s =
     (case x of (api, operation) \<Rightarrow>
      (case operation of
         Event e \<Rightarrow> handle_event api e s
       | Drain st \<Rightarrow> drain_mailbox api st s
       | Status connected needs_resync \<Rightarrow> handle_status api connected needs_resync s
       | Discovery was_realtime new_client \<Rightarrow> apply_discovery api was_realtime new_client s
       | PullFailed jitter \<Rightarrow> pull_failed jitter s
       | PullFinished r \<Rightarrow> pull_finished r s
       | TakePull \<Rightarrow> take_pull_result api s
       | StartPull \<Rightarrow> pull_async api s
       | Track \<Rightarrow> track_and_enforce api s
       | Refresh revision snapshot \<Rightarrow> refresh_policy api revision snapshot s
       | Expire \<Rightarrow> expire_devices api s
       | Crash k \<Rightarrow> if k_running api k then s else s\<lparr>ct_kernel := k\<rparr>
       | Renew tls \<Rightarrow> s\<lparr>ct_tls := tls\<rparr>))"

section \<open>The kernel interface\<close>

text \<open>What the service relies on of a kernel (comments of the interface in \<open>kernel.go\<close>): a start or
  reload that succeeds serves the configuration given, a change of users neither starts a kernel nor
  touches its configuration, a stopped kernel does not run. \<open>served\<close> is the hash of the
  configuration a kernel serves.\<close>

locale runtime_kernel =
  fixes api :: "('k, 'f, 'x, 'u) runtime_api"
    and served :: "'k \<Rightarrow> string"
  assumes start_serves: "k_start api (n, cidrs, users, tls) k = (True, k') \<Longrightarrow> served k' = kernel_hash api (Some n)"
    and reload_serves: "k_reload api (n, cidrs, users, tls) k = (True, k') \<Longrightarrow> served k' = kernel_hash api (Some n)"
    and change_keeps: "k_change api d k = (b, k') \<Longrightarrow> k_running api k' \<Longrightarrow> k_running api k \<and> served k' = served k"
    and stop_stops: "\<not> k_running api (k_stop api k)"

text \<open>The kernel serves the panel's latest configuration whenever it runs, and it does not run after a failure.\<close>

definition consistent :: "('k, 'f, 'x, 'u) runtime_api \<Rightarrow> ('k \<Rightarrow> string) \<Rightarrow> ('k, 'f, 'x, 'u) control \<Rightarrow> bool" where
  "consistent api served s \<longleftrightarrow>
     (k_running api (ct_kernel s) \<longrightarrow>
        ct_failed s = [] \<and> ct_config s \<noteq> None \<and> served (ct_kernel s) = kernel_hash api (ct_config s))"

definition core :: "('k, 'f, 'x, 'u) control \<Rightarrow> 'k \<times> 'x node_spec option \<times> 'u user_spec_scheme list \<times> string" where
  "core s = (ct_kernel s, ct_config s, ct_users s, ct_failed s)"

definition same_goal :: "('k, 'f, 'x, 'u) control \<Rightarrow> ('k, 'f, 'x, 'u) control \<Rightarrow> bool" where
  "same_goal s t \<longleftrightarrow> ct_config s = ct_config t \<and> ct_users s = ct_users t \<and> ct_user_hash s = ct_user_hash t"

named_theorems core_simps \<comment> \<open>handlers that touch neither kernel nor goal\<close>

lemma core_updates [core_simps]:
  "core (pull_async api s) = core s" "core (reset_polling s) = core s" "core (request_resync api s) = core s"
  "core (apply_devices api v us s) = core s" "core (expire_devices api s) = core s"
  "core (snd (prepare_policy api n s)) = core s"
  by (simp_all add: core_def pull_async_def reset_polling_def request_resync_def apply_devices_def expire_devices_def
      prepare_policy_def Let_def split: prod.split option.split)

lemma core_fields:
  "core s = core t \<Longrightarrow> ct_kernel s = ct_kernel t \<and> ct_config s = ct_config t \<and> ct_users s = ct_users t \<and> ct_failed s = ct_failed t"
  by (simp add: core_def)

lemma consistent_core: "core s = core t \<Longrightarrow> consistent api served s = consistent api served t"
  by (simp add: consistent_def core_def)

lemma consistent_updates [simp]:
  "consistent api served (s\<lparr>ct_user_hash := h\<rparr>) = consistent api served s"
  "consistent api served (s\<lparr>ct_applied_users := us\<rparr>) = consistent api served s"
  "consistent api served (s\<lparr>ct_users := us\<rparr>) = consistent api served s"
  "consistent api served (s\<lparr>ct_generation := n\<rparr>) = consistent api served s"
  "consistent api served (s\<lparr>ct_control_version := g\<rparr>) = consistent api served s"
  "consistent api served (s\<lparr>ct_synchronized := b\<rparr>) = consistent api served s"
  "consistent api served (s\<lparr>ct_resync := b\<rparr>) = consistent api served s"
  "consistent api served (s\<lparr>ct_pending_cert := b\<rparr>) = consistent api served s"
  "consistent api served (s\<lparr>ct_pull_pending := b\<rparr>) = consistent api served s"
  "consistent api served (s\<lparr>ct_pull_active := b\<rparr>) = consistent api served s"
  "consistent api served (s\<lparr>ct_pull_result := r\<rparr>) = consistent api served s"
  "consistent api served (s\<lparr>ct_backoff := k\<rparr>) = consistent api served s"
  "consistent api served (s\<lparr>ct_devices := d\<rparr>) = consistent api served s"
  "consistent api served (s\<lparr>ct_device_version := g\<rparr>) = consistent api served s"
  "consistent api served (s\<lparr>ct_fw_retry := t\<rparr>) = consistent api served s"
  "consistent api served (s\<lparr>ct_tls := tls\<rparr>) = consistent api served s"
  "consistent api served (pull_async api s) = consistent api served s"
  "consistent api served (reset_polling s) = consistent api served s"
  "consistent api served (request_resync api s) = consistent api served s"
  "consistent api served (apply_devices api v ds s) = consistent api served s"
  "consistent api served (expire_devices api s) = consistent api served s"
  by ((rule consistent_core, rule core_updates) | simp add: consistent_def)+

lemma fail_runtime_fields [simp]:
  "ct_kernel (fail_runtime api n us s) = k_stop api (ct_kernel s)" "ct_config (fail_runtime api n us s) = ct_config s"
  "ct_users (fail_runtime api n us s) = ct_users s" "ct_tls (fail_runtime api n us s) = ct_tls s"
  "ct_failed (fail_runtime api n us s) = attempt_hash api n us (ct_tls s)"
  "ct_user_hash (fail_runtime api n us s) = ct_user_hash s"
  by (simp_all add: fail_runtime_def stop_kernel_def Let_def)

lemma fail_firewall_fields [simp]:
  "ct_kernel (fail_firewall api n us s) = k_stop api (ct_kernel s)" "ct_config (fail_firewall api n us s) = ct_config s"
  "ct_users (fail_firewall api n us s) = ct_users s" "ct_tls (fail_firewall api n us s) = ct_tls s"
  "ct_failed (fail_firewall api n us s) = attempt_hash api (Some n) us (ct_tls s)"
  "ct_user_hash (fail_firewall api n us s) = ct_user_hash s"
  by (simp_all add: fail_firewall_def Let_def)

lemma stop_kernel_fields [simp]:
  "ct_kernel (stop_kernel api s) = k_stop api (ct_kernel s)" "ct_config (stop_kernel api s) = ct_config s"
  "ct_users (stop_kernel api s) = ct_users s" "ct_tls (stop_kernel api s) = ct_tls s"
  "ct_failed (stop_kernel api s) = ct_failed s" "ct_user_hash (stop_kernel api s) = ct_user_hash s"
  by (simp_all add: stop_kernel_def Let_def)

lemma runtime_applied_fields [simp]:
  "ct_kernel (runtime_applied api n us s) = ct_kernel s" "ct_config (runtime_applied api n us s) = ct_config s"
  "ct_users (runtime_applied api n us s) = ct_users s" "ct_tls (runtime_applied api n us s) = ct_tls s"
  "ct_failed (runtime_applied api n us s) = []" "ct_user_hash (runtime_applied api n us s) = ct_user_hash s"
  by (simp_all add: runtime_applied_def)

lemma prepare_policy_fields:
  assumes "prepare_policy api n s = (b, s')"
  shows "ct_kernel s' = ct_kernel s" "ct_config s' = ct_config s" "ct_users s' = ct_users s" "ct_failed s' = ct_failed s"
    "ct_tls s' = ct_tls s" "ct_user_hash s' = ct_user_hash s"
  using assms by (auto simp: prepare_policy_def Let_def split: if_splits option.splits)

text \<open>A step either fails, with the kernel stopped and the attempt recorded, or leaves the kernel alone.\<close>

definition failed_attempt ::
  "('k, 'f, 'x, 'u) runtime_api \<Rightarrow> 'x node_spec \<Rightarrow> 'u user_spec_scheme list \<Rightarrow>
   ('k, 'f, 'x, 'u) control \<Rightarrow> ('k, 'f, 'x, 'u) control \<Rightarrow> bool" where
  "failed_attempt api n us s s' \<longleftrightarrow>
     (\<exists>k. ct_kernel s' = k_stop api k) \<and> ct_failed s' = attempt_hash api (Some n) us (ct_tls s') \<and> same_goal s' s"

lemma prepare_runtime_cases:
  assumes "prepare_runtime api n us s = (b, s')"
  shows "if b then \<not> attempt_blocked api n us s \<and> (\<exists>tls. s' = s\<lparr>ct_tls := tls\<rparr>)
    else (attempt_blocked api n us s \<and> s' = s) \<or> failed_attempt api n us s s'"
  using assms
  by (auto simp: prepare_runtime_def failed_attempt_def same_goal_def Let_def split: if_splits option.splits)

lemma update_firewall_cases:
  assumes "update_firewall api n us p s = (b, s')"
  shows "if b then core s' = core s \<and> ct_tls s' = ct_tls s \<and> same_goal s' s else failed_attempt api n us s s'"
proof -
  obtain blocked t where policy: "prepare_policy api n s = (blocked, t)" by fastforce
  note fields = prepare_policy_fields [OF policy]
  show ?thesis
    using assms fields
    by (auto simp: update_firewall_def policy failed_attempt_def same_goal_def core_def Let_def
        split: if_splits option.splits prod.splits)
qed

lemma failed_attempt_goal: "same_goal s t \<Longrightarrow> failed_attempt api n us s s' \<Longrightarrow> failed_attempt api n us t s'"
  by (auto simp: failed_attempt_def same_goal_def)

lemma failed_attempt_fail:
  "failed_attempt api n us s (fail_runtime api (Some n) us s)"
  "failed_attempt api n us s ((fail_runtime api (Some n) us s)\<lparr>ct_policy_failed := h\<rparr>)"
  by (auto simp: failed_attempt_def same_goal_def)

definition launched ::
  "('k, 'f, 'x, 'u) runtime_api \<Rightarrow> 'x node_spec \<Rightarrow> 'u user_spec_scheme list \<Rightarrow> 'k \<Rightarrow> bool" where
  "launched api n us k' \<longleftrightarrow>
     (\<exists>cidrs tls k. k_start api (n, cidrs, us, tls) k = (True, k') \<or> k_reload api (n, cidrs, us, tls) k = (True, k'))"

lemma open_firewall_cases:
  assumes "open_firewall api n us s = (b, s')"
  shows "if b then core s' = core s \<and> same_goal s' s else failed_attempt api n us s s'"
  using assms update_firewall_cases [of api n us _ s b s'] by (auto simp: open_firewall_def same_goal_def split: if_splits)

lemma finish_launch_cases:
  assumes "finish_launch api n us s = (b, s')"
  shows "if b then ct_kernel s' = ct_kernel s \<and> ct_failed s' = [] \<and> same_goal s' s else failed_attempt api n us s s'"
proof -
  obtain applied s1 where step: "(if manages_firewall n then update_firewall api n us False s else (True, s)) = (applied, s1)"
    by fastforce
  have "if applied then core s1 = core s \<and> same_goal s1 s else failed_attempt api n us s s1"
    using step update_firewall_cases [of api n us False s applied s1] by (auto simp: same_goal_def split: if_splits)
  then show ?thesis using assms step by (auto simp: finish_launch_def core_def same_goal_def split: if_splits)
qed

lemma start_kernel_cases:
  assumes "start_kernel api n us s = (b, s')"
  shows "if b then launched api n us (ct_kernel s') \<and> ct_failed s' = [] \<and> same_goal s' s
    else (attempt_blocked api n us s \<and> s' = s) \<or> failed_attempt api n us s s'"
proof -
  obtain ready s1 where prepared: "prepare_runtime api n us s = (ready, s1)" by fastforce
  note first = prepare_runtime_cases [OF prepared]
  show ?thesis
  proof (cases ready)
    case False
    then show ?thesis using assms first by (auto simp: start_kernel_def prepared)
  next
    case True
    then have s1: "same_goal s1 s" using first by (auto simp: same_goal_def)
    obtain blocked s2 where policy: "prepare_policy api n s1 = (blocked, s2)" by fastforce
    then have s2: "same_goal s2 s" using s1 prepare_policy_fields [OF policy] by (simp add: same_goal_def)
    show ?thesis
    proof (cases blocked)
      case None
      then show ?thesis
        using assms True failed_attempt_goal [OF s2 failed_attempt_fail(2)]
        by (auto simp: start_kernel_def prepared policy)
    next
      case (Some cidrs)
      obtain open_ok s3 where opened: "open_firewall api n us s2 = (open_ok, s3)" by fastforce
      note second = open_firewall_cases [OF opened]
      show ?thesis
      proof (cases open_ok)
        case False
        then show ?thesis
          using assms True Some second failed_attempt_goal [OF s2] by (auto simp: start_kernel_def prepared policy opened)
      next
        case open_ok: True
        obtain ok k where start: "k_start api (n, cidrs, us, ct_tls s3) (ct_kernel s3) = (ok, k)" by fastforce
        define s4 where "s4 = s3\<lparr>ct_kernel := k\<rparr>"
        have s4: "same_goal s4 s" using second open_ok s2 by (simp add: s4_def same_goal_def)
        have result: "start_kernel api n us s =
            (if \<not> ok then (False, fail_runtime api (Some n) us s4) else finish_launch api n us s4)"
          using True Some open_ok by (simp add: start_kernel_def prepared policy opened start s4_def)
        show ?thesis
        proof (cases ok)
          case False
          then show ?thesis using assms result failed_attempt_goal [OF s4 failed_attempt_fail(1)] by auto
        next
          case ok: True
          then have "launched api n us (ct_kernel s4)" using start by (auto simp: launched_def s4_def)
          then show ?thesis
            using finish_launch_cases [of api n us s4 b s'] assms result ok s4 failed_attempt_goal [OF s4]
            by (auto simp: same_goal_def split: if_splits)
        qed
      qed
    qed
  qed
qed

lemma goal_state_fields [simp]:
  "ct_kernel (goal_state api n s) = ct_kernel s" "ct_config (goal_state api n s) = ct_config s"
  "ct_failed (goal_state api n s) = ct_failed s" "ct_tls (goal_state api n s) = ct_tls s"
  "ct_users (goal_state api n s) = (if userless n then [] else ct_users s)"
  by (simp_all add: goal_state_def prepare_user_state_def)

lemma apply_changes_cases:
  assumes "apply_changes api s = (b, s')" and "\<not> ctx_done api" and "ct_config s = Some n"
    and "s1 = goal_state api n s" and "us = ct_users s1"
  shows "if b then (launched api n us (ct_kernel s') \<or> (\<exists>k. ct_kernel s' = k_stop api k)) \<and> ct_failed s' = [] \<and> same_goal s' s1
    else (attempt_blocked api n us s1 \<and> s' = s1) \<or> failed_attempt api n us s1 s'"
proof (cases "\<not> k_running api (ct_kernel s1) \<and> (us \<noteq> [] \<or> userless n)")
  case True
  then have "start_kernel api n us s1 = (b, s')" using assms by (auto simp: apply_changes_def Let_def simp del: goal_state_fields)
  then show ?thesis using start_kernel_cases by fastforce
next
  case not_started: False
  obtain ready s2 where prepared: "prepare_runtime api n us s1 = (ready, s2)" by fastforce
  note first = prepare_runtime_cases [OF prepared]
  have unfold: "apply_changes api s =
    (if \<not> ready then (False, s2)
     else if us = [] \<and> \<not> userless n then (True, runtime_applied api None [] (stop_kernel api s2))
     else if k_running api (ct_kernel s2) \<and> must_restart n (ct_applied_config s2)
       then start_kernel api n us (stop_kernel api s2)
     else let (blocked, s3) = prepare_policy api n s2 in
       case blocked of
         None \<Rightarrow> let s4 = fail_runtime api (Some n) us s3 in (False, s4\<lparr>ct_policy_failed := ct_failed s4\<rparr>)
       | Some cidrs \<Rightarrow>
           let (ok, k) = k_reload api (n, cidrs, us, ct_tls s3) (ct_kernel s3); s4 = s3\<lparr>ct_kernel := k\<rparr> in
           if \<not> ok then (False, fail_runtime api (Some n) us s4) else finish_launch api n us s4)"
    using not_started assms(2-5) prepared
    by (auto simp: apply_changes_def Let_def simp del: goal_state_fields)
  consider "\<not> ready" | "ready" "us = [] \<and> \<not> userless n"
    | "ready" "\<not> (us = [] \<and> \<not> userless n)" "k_running api (ct_kernel s2) \<and> must_restart n (ct_applied_config s2)"
    | "ready" "\<not> (us = [] \<and> \<not> userless n)" "\<not> (k_running api (ct_kernel s2) \<and> must_restart n (ct_applied_config s2))"
    by blast
  then show ?thesis
  proof cases
    case 1
    then show ?thesis using assms(1) first unfold by auto
  next
    case 2
    then show ?thesis using assms(1) first unfold by (auto simp: same_goal_def)
  next
    case 3
    have "same_goal (stop_kernel api s2) s1" using 3(1) first by (auto simp: same_goal_def)
    moreover have "start_kernel api n us (stop_kernel api s2) = (b, s')"
      using 3(1) assms(1) unfold by (simp add: if_not_P [OF 3(2)] if_P [OF 3(3)])
    ultimately show ?thesis
      using start_kernel_cases [of api n us "stop_kernel api s2" b s'] failed_attempt_goal [of "stop_kernel api s2" s1]
      by (auto simp: failed_attempt_def attempt_blocked_def same_goal_def split: if_splits)
  next
    case 4
    have s2: "same_goal s2 s1" using 4(1) first by (auto simp: same_goal_def)
    obtain blocked s3 where policy: "prepare_policy api n s2 = (blocked, s3)" by fastforce
    then have s3: "same_goal s3 s1" using s2 prepare_policy_fields [OF policy] by (simp add: same_goal_def)
    show ?thesis
    proof (cases blocked)
      case None
      have "\<not> b \<and> failed_attempt api n us s3 s'"
        using 4(1) None assms(1) unfold failed_attempt_fail(2)
        by (auto simp: policy if_not_P [OF 4(2)] if_not_P [OF 4(3)])
      then show ?thesis using failed_attempt_goal [OF s3] by simp
    next
      case (Some cidrs)
      obtain ok k where reload: "k_reload api (n, cidrs, us, ct_tls s3) (ct_kernel s3) = (ok, k)" by fastforce
      define s4 where "s4 = s3\<lparr>ct_kernel := k\<rparr>"
      have s4: "same_goal s4 s1" using s3 by (simp add: s4_def same_goal_def)
      have result: "(b, s') = (if \<not> ok then (False, fail_runtime api (Some n) us s4) else finish_launch api n us s4)"
        using 4(1) Some assms(1) unfold
        by (auto simp: policy reload s4_def Let_def if_not_P [OF 4(2)] if_not_P [OF 4(3)])
      show ?thesis
      proof (cases ok)
        case False
        then show ?thesis using result failed_attempt_goal [OF s4 failed_attempt_fail(1)] by auto
      next
        case True
        then have "launched api n us (ct_kernel s4)" using reload by (auto simp: launched_def s4_def)
        then show ?thesis
          using finish_launch_cases [of api n us s4 b s'] result True s4 failed_attempt_goal [OF s4]
          by (auto simp: same_goal_def split: if_splits)
      qed
    qed
  qed
qed

definition same_hashes ::
  "('k, 'f, 'x, 'u) runtime_api \<Rightarrow> ('k, 'f, 'x, 'u) runtime_api \<Rightarrow> bool" where
  "same_hashes api api' \<longleftrightarrow> hash_node api = hash_node api' \<and> hash_users api = hash_users api' \<and> hash_tls api = hash_tls api' \<and>
     k_running api = k_running api'"

lemma attempt_hash_nonempty [simp]: "attempt_hash api n us tls \<noteq> []" "[] \<noteq> attempt_hash api n us tls"
  by (simp_all add: attempt_hash_def)

lemma blocked_apply_changes:
  assumes "attempt_blocked api n (ct_users s) s" and "ct_config s = Some n" and "goal_state api n s = s"
  shows "apply_changes api s = (False, s)"
proof -
  have prepared: "prepare_runtime api n (ct_users s) s = (False, s)" using assms(1) by (simp add: prepare_runtime_def)
  then have "start_kernel api n (ct_users s) s = (False, s)" by (simp add: start_kernel_def)
  then show ?thesis using assms(2,3) prepared by (simp add: apply_changes_def Let_def)
qed

text \<open>A configuration that fails is tried once: applying it again, whatever the kernel, the firewall or
  the certificate manager would answer now, does nothing at all, as long as configuration, users and
  certificate stay the same.\<close>

theorem failed_configuration_tried_once:
  assumes "apply_changes api s = (False, s')" and "\<not> ctx_done api" and "same_hashes api api'"
  shows "apply_changes api' s' = (False, s')"
proof (cases "ct_config s")
  case None
  then show ?thesis using assms by (simp add: apply_changes_def)
next
  case (Some n)
  let ?s1 = "goal_state api n s"
  have cases: "(attempt_blocked api n (ct_users ?s1) ?s1 \<and> s' = ?s1) \<or> failed_attempt api n (ct_users ?s1) ?s1 s'"
    using apply_changes_cases [OF assms(1,2) Some refl refl] by simp
  then have goal: "same_goal s' ?s1" by (auto simp: failed_attempt_def same_goal_def)
  have "attempt_blocked api n (ct_users s') s'"
    using cases goal by (auto simp: failed_attempt_def attempt_blocked_def same_goal_def)
  then have "attempt_blocked api' n (ct_users s') s'"
    using assms(3) by (simp add: attempt_blocked_def attempt_hash_def kernel_hash_def same_hashes_def)
  moreover have "ct_config s' = Some n" using goal Some by (simp add: same_goal_def)
  moreover have "goal_state api' n s' = s'"
    using goal assms(3) by (auto simp: goal_state_def prepare_user_state_def same_goal_def same_hashes_def)
  ultimately show ?thesis by (rule blocked_apply_changes)
qed

context runtime_kernel
begin

lemma stopped_consistent: "\<not> k_running api (ct_kernel s) \<Longrightarrow> consistent api served s"
  by (simp add: consistent_def)

lemma failed_consistent: "failed_attempt api n us s s' \<Longrightarrow> consistent api served s'"
  using stop_stops by (auto simp: failed_attempt_def consistent_def)

lemma fail_consistent: "consistent api served (fail_runtime api n us s)"
  using stop_stops by (simp add: consistent_def)

lemma launched_served: "launched api n us k \<Longrightarrow> served k = kernel_hash api (Some n)"
  using start_serves reload_serves by (auto simp: launched_def)

lemma update_firewall_consistent:
  "consistent api served s \<Longrightarrow> consistent api served (snd (update_firewall api n us p s))"
  using update_firewall_cases [of api n us p s] failed_consistent consistent_core
  by (metis prod.collapse)

lemma start_kernel_consistent:
  assumes "ct_config s = Some n" and "\<not> k_running api (ct_kernel s)"
  shows "consistent api served (snd (start_kernel api n us s))"
proof -
  obtain b s' where step: "start_kernel api n us s = (b, s')" by fastforce
  show ?thesis
    using start_kernel_cases [OF step] step assms stopped_consistent failed_consistent launched_served
    by (cases b) (auto simp: consistent_def same_goal_def)
qed

lemma apply_changes_consistent:
  assumes "\<not> ctx_done api" and "k_running api (ct_kernel s) \<Longrightarrow> ct_failed s = [] \<and> ct_config s \<noteq> None"
  shows "consistent api served (snd (apply_changes api s))"
proof (cases "ct_config s")
  case None
  then show ?thesis using assms by (auto simp: apply_changes_def consistent_def)
next
  case (Some n)
  obtain b s' where step: "apply_changes api s = (b, s')" by fastforce
  note cases = apply_changes_cases [OF step assms(1) Some refl refl]
  show ?thesis
  proof (cases b)
    case True
    then show ?thesis
      using cases step Some launched_served stop_stops by (auto simp: consistent_def same_goal_def)
  next
    case False
    then show ?thesis
      using cases step assms(2) failed_consistent by (auto simp: consistent_def attempt_blocked_def)
  qed
qed

lemma apply_config_update_consistent:
  assumes "\<not> ctx_done api" and "consistent api served s"
  shows "consistent api served (snd (apply_config_update api c h s))"
proof (cases "policy_only api c s")
  case False
  then show ?thesis
    using assms apply_changes_consistent [of "s\<lparr>ct_config := Some c, ct_config_hash := h\<rparr>"]
    by (simp add: apply_config_update_def consistent_def)
next
  case True
  define s1 where "s1 = s\<lparr>ct_config := Some c, ct_config_hash := h\<rparr>"
  have s1: "consistent api served s1" using True assms(2) by (simp add: s1_def policy_only_def consistent_def)
  then have "consistent api served (snd (update_firewall api c (ct_users s1) False s1))" by (rule update_firewall_consistent)
  then show ?thesis
    using True s1 by (auto simp: apply_config_update_def s1_def [symmetric] consistent_def Let_def split: prod.splits)
qed

lemma ensure_running_consistent:
  assumes "\<not> ctx_done api" and "consistent api served s"
  shows "consistent api served (snd (ensure_running api s))"
  using assms apply_changes_consistent [of s]
  by (auto simp: ensure_running_def consistent_def split: prod.splits)

lemma prepare_user_consistent [simp]: "consistent api served (prepare_user_state a us s) = consistent api served s"
  by (simp add: prepare_user_state_def consistent_def)

lemma sync_landing_consistent:
  assumes "\<not> ctx_done api" and "consistent api served s"
  shows "consistent api served (snd (sync_landing_users api s))"
  using ensure_running_consistent [OF assms(1), of "prepare_user_state api [] s"] assms(2)
  by (auto simp: sync_landing_users_def split: prod.splits)

lemma change_consistent:
  assumes "consistent api served s" and "k_change api d (ct_kernel s) = (b, k)"
  shows "consistent api served (s\<lparr>ct_kernel := k\<rparr>)"
  using assms change_keeps [OF assms(2)] by (auto simp: consistent_def)

lemma apply_user_update_consistent:
  assumes "\<not> ctx_done api" and "consistent api served s"
  shows "consistent api served (snd (apply_user_update api us h s))"
proof (cases "ct_config s")
  case None
  then show ?thesis using assms(2) by (simp add: apply_user_update_def)
next
  case (Some n)
  show ?thesis
  proof (cases "userless n")
    case True
    then show ?thesis using Some sync_landing_consistent [OF assms] by (simp add: apply_user_update_def)
  next
    case False
    obtain ok s1 where ensure: "ensure_running api (prepare_user_state api us s) = (ok, s1)" by fastforce
    have s1: "consistent api served s1"
      using ensure_running_consistent [OF assms(1), of "prepare_user_state api us s"] assms(2) ensure by simp
    obtain b k where change: "k_change api (UpdateUsers us) (ct_kernel s1) = (b, k)" by fastforce
    have "consistent api served (s1\<lparr>ct_kernel := k\<rparr>)" using change_consistent [OF s1 change] .
    then show ?thesis
      using Some False ensure change s1 fail_consistent by (simp add: apply_user_update_def Let_def)
  qed
qed

lemma change_or_replace_consistent:
  assumes "consistent api served s"
  shows "consistent api served (snd (change_or_replace api d us s))"
proof -
  obtain b k where first: "k_change api d (ct_kernel s) = (b, k)" by fastforce
  obtain b' k' where second: "k_change api (UpdateUsers us) k = (b', k')" by fastforce
  have s1: "consistent api served (s\<lparr>ct_kernel := k\<rparr>)" using change_consistent [OF assms first] .
  have "consistent api served (s\<lparr>ct_kernel := k'\<rparr>)" using change_consistent [OF s1, of "UpdateUsers us" b' k'] second by simp
  then show ?thesis
    using s1 first second fail_consistent by (simp add: change_or_replace_def Let_def)
qed

lemma apply_user_delta_consistent:
  assumes "\<not> ctx_done api" and "consistent api served s"
  shows "consistent api served (snd (apply_user_delta api action delta s))"
proof (cases "ct_config s")
  case None
  then show ?thesis using assms(2) by (simp add: apply_user_delta_def)
next
  case (Some n)
  consider "relay_landing n \<and> (action = ''add'' \<or> action = ''remove'')"
    | "\<not> relay_landing n" "action = ''add''" | "\<not> relay_landing n" "action = ''remove''"
    | "action \<noteq> ''add''" "action \<noteq> ''remove''" by blast
  then show ?thesis
  proof cases
    case 1
    then show ?thesis using Some sync_landing_consistent [OF assms] by (simp add: apply_user_delta_def)
  next
    case 2
    let ?merged = "merge_users (ct_users s) delta"
    obtain ok s1 where ensure: "ensure_running api (prepare_user_state api ?merged s) = (ok, s1)" by fastforce
    have "consistent api served s1"
      using ensure_running_consistent [OF assms(1), of "prepare_user_state api ?merged s"] assms(2) ensure by simp
    then show ?thesis
      using Some 2 assms(2) ensure apply_user_update_consistent [OF assms] change_or_replace_consistent
      by (simp add: apply_user_delta_def Let_def)
  next
    case 3
    have "consistent api served (snd (apply_changes api (prepare_user_state api us s)))" for us
      using assms by (intro apply_changes_consistent) (simp_all add: consistent_def prepare_user_state_def)
    then show ?thesis
      using Some 3 assms(2) change_or_replace_consistent by (simp add: apply_user_delta_def Let_def)
  next
    case 4
    then show ?thesis using Some assms(2) by (simp add: apply_user_delta_def)
  qed
qed

lemma apply_snapshot_consistent:
  assumes "\<not> ctx_done api" and "consistent api served s"
  shows "consistent api served (apply_snapshot api config users cert_changed s)"
proof -
  define s1 where "s1 = (case users of None \<Rightarrow> s | Some us \<Rightarrow> prepare_user_state api us s)"
  have s1: "consistent api served s1" using assms(2) by (simp add: s1_def split: option.split)
  have "consistent api served (snd (case config of Some c \<Rightarrow> apply_config_update api c (hash_node api c) s1
      | None \<Rightarrow> apply_changes api s1))"
    using apply_config_update_consistent [OF assms(1) s1] apply_changes_consistent [OF assms(1), of s1] s1
    by (auto simp: consistent_def split: option.split)
  moreover have "consistent api served t" if "apply_user_update api us h s = (b, t)" for us h b t
    using apply_user_update_consistent [OF assms, of us h] that by simp
  ultimately show ?thesis
    using assms(2) by (auto simp: apply_snapshot_def s1_def [symmetric] Let_def split: prod.split option.split)
qed

lemma apply_pull_result_consistent:
  assumes "\<not> ctx_done api" and "consistent api served s"
  shows "consistent api served (apply_pull_result api r s)"
  using assms by (auto simp: apply_pull_result_def Let_def apply_snapshot_consistent split: prod.split)

lemma finish_consistent:
  assumes "consistent api served (snd p)"
  shows "consistent api served (case p of (applied, t) \<Rightarrow> if applied then t else reset_polling t)"
  using assms by (cases p) simp

lemma handle_event_consistent:
  assumes "\<not> ctx_done api" and "consistent api served s"
  shows "consistent api served (handle_event api e s)"
proof -
  obtain ok g where gate: "accept (ev_version e) (ct_control_version s) = (ok, g)" by fastforce
  define t where "t = s\<lparr>ct_control_version := g, ct_generation := ct_generation s + 1\<rparr>"
  have t: "consistent api served t" using assms(2) by (simp add: t_def)
  note applied = finish_consistent [OF apply_config_update_consistent [OF assms(1) t]]
    finish_consistent [OF apply_user_update_consistent [OF assms(1) t]]
    finish_consistent [OF apply_user_delta_consistent [OF assms(1) t]]
  have pulled: "consistent api served (apply_pull_result api r (s\<lparr>ct_generation := ct_generation s + 1\<rparr>))" for r
    using apply_pull_result_consistent [OF assms(1), of "s\<lparr>ct_generation := ct_generation s + 1\<rparr>"] assms(2) by simp
  show ?thesis
  proof (cases "ev_type e")
    case SyncConfig
    then show ?thesis
      using assms(2) applied(1) by (simp add: handle_event_def gate t_def [symmetric] Let_def split: option.split)
  next
    case SyncUsers
    then show ?thesis
      using assms(2) applied(2) by (simp add: handle_event_def gate t_def [symmetric] Let_def split: option.split)
  next
    case SyncUserDelta
    then show ?thesis
      using assms(2) applied(3) by (simp add: handle_event_def gate t_def [symmetric] Let_def)
  qed (use assms(2) pulled in \<open>simp_all add: handle_event_def gate Let_def\<close>)
qed

lemma drain_mailbox_consistent:
  assumes "\<not> ctx_done api" and "consistent api served s"
  shows "consistent api served (drain_mailbox api st s)"
proof -
  have "consistent api served (fold (handle_event api) es t)" if "consistent api served t" for es t
    using that by (induction es arbitrary: t) (simp_all add: handle_event_consistent [OF assms(1)])
  then show ?thesis using assms(2) by (simp add: drain_mailbox_def Let_def)
qed

lemma retry_consistent:
  assumes "consistent api served s"
  shows "consistent api served (retry_source_firewall api s)"
proof (cases "ct_fw_failed s = [] \<or> ct_failed s \<noteq> ct_fw_failed s \<or> k_running api (ct_kernel s) \<or> now_time api - ct_fw_retry s < 30")
  case True
  then show ?thesis unfolding retry_source_firewall_def using assms by (simp only: if_True)
next
  case False
  have "consistent api served (snd (start_kernel api n (ct_users s) (s\<lparr>ct_fw_retry := now_time api, ct_failed := []\<rparr>)))"
    if "ct_config s = Some n" for n
    using False that by (intro start_kernel_consistent) simp_all
  then show ?thesis using assms by (auto simp: retry_source_firewall_def split: option.split)
qed

lemma track_consistent:
  assumes "consistent api served s"
  shows "consistent api served (track_and_enforce api s)"
proof -
  define s1 where "s1 = retry_source_firewall api s"
  have s1: "consistent api served s1" using retry_consistent [OF assms] by (simp add: s1_def)
  show ?thesis
  proof (cases "ct_config s1")
    case None
    then show ?thesis using s1 by (simp add: track_and_enforce_def s1_def [symmetric])
  next
    case (Some n)
    define fresh where "fresh = snd (update_firewall api n (ct_users s1) False (s1\<lparr>ct_fw_retry := now_time api\<rparr>))"
    have "consistent api served fresh"
      unfolding fresh_def using s1 by (intro update_firewall_consistent) simp
    then show ?thesis
      using Some s1 fail_consistent
      by (simp add: track_and_enforce_def s1_def [symmetric] fresh_def [symmetric] Let_def)
  qed
qed

lemma refresh_consistent:
  assumes "\<not> ctx_done api" and "consistent api served s"
  shows "consistent api served (refresh_policy api revision snapshot s)"
proof (cases "ct_config s")
  case None
  then show ?thesis using assms by (simp add: refresh_policy_def)
next
  case (Some n)
  have "consistent api served (snd (apply_changes api (s\<lparr>ct_policy_snapshot := snapshot, ct_failed := f,
      ct_policy_data_failed := False, ct_policy_failed := []\<rparr>)))" if "f = ct_failed s \<or> f = []" for f
    using assms Some that by (intro apply_changes_consistent) (auto simp: consistent_def)
  moreover have "consistent api served (snd (apply_changes api (s\<lparr>ct_policy_snapshot := snapshot\<rparr>)))"
    using assms Some by (intro apply_changes_consistent) (auto simp: consistent_def)
  ultimately show ?thesis using assms(2) Some by (auto simp: refresh_policy_def Let_def)
qed

lemma step_consistent:
  assumes "\<not> ctx_done api" and "consistent api served s"
  shows "consistent api served (service_step (api, operation) s)"
proof (cases operation)
  case (Discovery was_realtime new_client)
  then show ?thesis using assms(2) by (simp add: service_step_def apply_discovery_def Let_def)
next
  case (Crash k)
  then show ?thesis using assms(2) by (simp add: service_step_def consistent_def)
next
  case TakePull
  have "consistent api served (apply_pull_result api r (s\<lparr>ct_pull_result := None, ct_pull_active := False\<rparr>))" for r
    using assms by (intro apply_pull_result_consistent) simp_all
  then show ?thesis using TakePull assms(2) by (simp add: service_step_def take_pull_result_def split: option.split)
next
  case (Status connected needs_resync)
  then show ?thesis using assms(2) by (simp add: service_step_def handle_status_def Let_def)
qed (use assms handle_event_consistent drain_mailbox_consistent track_consistent refresh_consistent in
  \<open>simp_all add: service_step_def pull_failed_def pull_finished_def\<close>)

end


section \<open>The balancer gateway as a kernel\<close>

text \<open>\<open>Gateway\<close> of \<open>internal/balancerkernel\<close> implements the interface; the part of the configuration it
  reads is the address, the port and the balancer.\<close>

type_synonym 'r gw_rest = "string \<times> int \<times> balancer_config option \<times> 'r"

definition gw_pack :: "'r gw_rest node_spec \<Rightarrow> 'r gw_rest node_spec gw_node" where
  "gw_pack n =
     (case ns_rest n of (ip, port, balancer, r) \<Rightarrow>
        \<lparr>nd_protocol = ns_protocol n, nd_listen_ip = ip, nd_port = port, nd_balancer = balancer,
         nd_rest = n\<lparr>ns_protocol := [], ns_rest := ([], 0, None, r)\<rparr>\<rparr>)"

definition gw_unpack :: "'r gw_rest node_spec gw_node \<Rightarrow> 'r gw_rest node_spec" where
  "gw_unpack g =
     (nd_rest g)\<lparr>ns_protocol := nd_protocol g,
       ns_rest := (nd_listen_ip g, nd_port g, nd_balancer g, snd (snd (snd (ns_rest (nd_rest g)))))\<rparr>"

lemma gw_unpack_pack [simp]: "gw_unpack (gw_pack n) = n"
  by (cases n) (auto simp: gw_pack_def gw_unpack_def split: prod.split)

definition gateway_api ::
  "(string \<Rightarrow> bool) \<Rightarrow> ('r gw_rest node_spec gateway, 'f, 'r gw_rest, 'u) runtime_api \<Rightarrow>
   ('r gw_rest node_spec gateway, 'f, 'r gw_rest, 'u) runtime_api" where
  "gateway_api listen base = base\<lparr>
     k_start := (\<lambda>(n, _, _, _) g. let (e, g') = gateway_start listen (Some (gw_pack n)) g in (e = None, g')),
     k_reload := (\<lambda>(n, _, _, _) g. let (e, g') = gateway_reload listen (Some (gw_pack n)) g in (e = None, g')),
     k_change := (\<lambda>_ g. (True, g)), k_stop := gateway_stop, k_running := gateway_running\<rparr>"

definition gateway_served ::
  "('r gw_rest node_spec gateway, 'f, 'r gw_rest, 'u) runtime_api \<Rightarrow> 'r gw_rest node_spec gateway \<Rightarrow> string" where
  "gateway_served base g = kernel_hash base (map_option gw_unpack (gw_config g))"

lemma gateway_start_config: "gateway_start listen (Some n) g = (None, g') \<Longrightarrow> gw_config g' = Some n"
  by (auto simp: gateway_start_def Let_def split: option.splits if_splits sum.splits)

lemma gateway_reload_config: "gateway_reload listen (Some n) g = (None, g') \<Longrightarrow> gw_config g' = Some n"
  using gateway_start_config [of listen n g g']
  by (auto simp: gateway_reload_def Let_def split: option.splits if_splits prod.splits)

interpretation gateway_kernel: runtime_kernel "gateway_api listen base" "gateway_served base"
proof unfold_locales
  fix n cidrs users tls k k'
  assume "k_start (gateway_api listen base) (n, cidrs, users, tls) k = (True, k')"
  then show "gateway_served base k' = kernel_hash (gateway_api listen base) (Some n)"
    by (auto simp: gateway_api_def gateway_served_def kernel_hash_def Let_def split: prod.splits dest: gateway_start_config)
next
  fix n cidrs users tls k k'
  assume "k_reload (gateway_api listen base) (n, cidrs, users, tls) k = (True, k')"
  then show "gateway_served base k' = kernel_hash (gateway_api listen base) (Some n)"
    by (auto simp: gateway_api_def gateway_served_def kernel_hash_def Let_def split: prod.splits dest: gateway_reload_config)
qed (auto simp: gateway_api_def gateway_stop_def gateway_running_def)

subsection \<open>A run\<close>

definition sample_api :: "('k, unit, 'x, unit) runtime_api" where
  "sample_api = \<lparr>k_start = (\<lambda>_ k. (True, k)), k_reload = (\<lambda>_ k. (True, k)), k_change = (\<lambda>_ k. (True, k)), k_stop = (\<lambda>k. k),
     k_running = (\<lambda>_. False), fw_present = True, fw_apply = (\<lambda>_ f. (True, f)), fw_prepare = (\<lambda>_ f. (True, f)),
     fw_release = (\<lambda>f. (True, f)), cert_local = (\<lambda>_ t. Some t), cert_remote = (\<lambda>_ t. Some t), node_valid = (\<lambda>_ _. True),
     tls_valid = (\<lambda>_ _. True), policy_get = None, policy_blocked = (\<lambda>_ _. Some []), hash_node = ns_protocol,
     hash_users = (\<lambda>us. concat (map us_uuid us)), hash_tls = (\<lambda>_. []), ws_connected = True, polling_supported = True,
     realtime_on = True, now_time = 100, ctx_done = False\<rparr>"

definition sample_spec :: "unit gw_rest node_spec" where
  "sample_spec = \<lparr>ns_health = None, ns_cert_renew = [], ns_protocol = ''balancer'', ns_auto_firewall = None, ns_policy = None,
     ns_cert_config = None, ns_relay = None,
     ns_rest = (''::'', 443, Some \<lparr>bc_network = ''tcp'', bc_targets = [], bc_max_sessions = 0\<rparr>, ()),
     ns_unhashed = ([], 0, None, ())\<rparr>"

definition empty_control :: "'k \<Rightarrow> 'x \<Rightarrow> ('k, unit, 'x, unit) control" where
  "empty_control k tls = \<lparr>ct_kernel = k, ct_firewall = (), ct_tls = tls, ct_config = None, ct_users = [], ct_config_hash = [],
     ct_user_hash = [], ct_failed = [], ct_error = False, ct_fw_failed = [], ct_fw_notice = False, ct_fw_retry = 0,
     ct_policy_snapshot = None, ct_policy_data_failed = False, ct_policy_failed = [], ct_applied_config = None,
     ct_applied_users = [], ct_applied_tls = [], ct_control_version = new_gate, ct_device_version = new_gate,
     ct_generation = 0, ct_synchronized = False, ct_resync = False, ct_pending_cert = False, ct_devices = None,
     ct_device_sync = None, ct_full_poll = False, ct_pull_active = False, ct_pull_pending = False, ct_pull_generation = 0,
     ct_pull_result = None, ct_backoff = \<lparr>bk_skip = 0, bk_level = 0\<rparr>, ct_status = StatusStarting\<rparr>"

definition sample_run ::
  "((unit gw_rest node_spec gateway, unit, unit gw_rest, unit) runtime_api \<times>
    (unit gw_rest node_spec gateway, unit gw_rest, unit) service_op) list" where
  "sample_run =
     [(gateway_api (\<lambda>_. True) sample_api, Event ((plain_event SyncConfig no_version)\<lparr>ev_config := Some sample_spec\<rparr>)),
      (gateway_api (\<lambda>_. True) sample_api, Track)]"

definition sample_start :: "(unit gw_rest node_spec gateway, unit, unit gw_rest, unit) control" where
  "sample_start = empty_control \<lparr>gw_runtime = None, gw_config = None\<rparr> ([], 0, None, ())"

lemmas run_eval = service_step_def handle_event_def accept_def plain_event_def no_version_def apply_config_update_def
  policy_only_def apply_changes_def goal_state_def prepare_user_state_def userless_def relay_landing_def start_kernel_def
  prepare_runtime_def attempt_blocked_def prepare_policy_def policy_enabled_def open_firewall_def finish_launch_def
  manages_firewall_def update_firewall_def runtime_applied_def empty_control_def new_gate_def kernel_hash_def kernel_relevant_def

lemma sample_run_running: "gateway_running (ct_kernel (fold service_step sample_run sample_start))"
  by (simp add: sample_run_def sample_start_def run_eval sample_api_def gateway_api_def sample_spec_def gw_pack_def
      gateway_start_def gateway_running_def start_runtime_def new_selector_def update_targets_def string_eval
      track_and_enforce_def retry_source_firewall_def)


definition bad_api :: "(unit, unit, unit, unit) runtime_api" where
  "bad_api = sample_api\<lparr>node_valid := \<lambda>_ _. False\<rparr>"

definition failing_control :: "(unit, unit, unit, unit) control" where
  "failing_control = (empty_control () ())\<lparr>ct_users := [sample_user 1],
     ct_config := Some \<lparr>ns_health = None, ns_cert_renew = [], ns_protocol = ''vless'', ns_auto_firewall = None,
       ns_policy = None, ns_cert_config = None, ns_relay = None, ns_rest = (), ns_unhashed = ()\<rparr>\<rparr>"

theorem failed_configuration_tried_once_witness:
  "apply_changes sample_api (snd (apply_changes bad_api failing_control)) = (False, snd (apply_changes bad_api failing_control))"
proof -
  have "fst (apply_changes bad_api failing_control) = False"
    by (simp add: failing_control_def bad_api_def run_eval sample_api_def Let_def)
  then have "apply_changes bad_api failing_control = (False, snd (apply_changes bad_api failing_control))"
    by (metis prod.collapse)
  moreover have "same_hashes bad_api sample_api" "\<not> ctx_done bad_api"
    by (simp_all add: same_hashes_def bad_api_def) (simp add: sample_api_def)
  ultimately show ?thesis by (intro failed_configuration_tried_once)
qed

section \<open>Pulls that come too late\<close>

lemma resync_fields:
  "ct_devices (request_resync api s) = ct_devices s" "ct_control_version (request_resync api s) = ct_control_version s"
  "ct_pending_cert (request_resync api s) = ct_pending_cert s" "ct_resync (request_resync api s)"
  "ct_full_poll (request_resync api s)" "\<not> ct_synchronized (request_resync api s)"
  by (simp_all add: request_resync_def reset_polling_def pull_async_def Let_def split: prod.split)

text \<open>A snapshot that was overtaken by a pushed change, or that is older than what was accepted, has
  no effect: kernel, configuration, users and devices stay, a complete reconciliation is scheduled,
  the connection no longer counts as synchronised, and a renewed certificate noticed by the pull is
  kept for the next one.\<close>

theorem stale_pull_discarded:
  assumes "pr_generation r \<noteq> ct_generation s \<or> \<not> fst (accept (pr_control_version r) (ct_control_version s))"
    and "s' = apply_pull_result api r s"
  shows "core s' = core s \<and> ct_devices s' = ct_devices s \<and> ct_control_version s' = ct_control_version s \<and>
    ct_resync s' \<and> ct_full_poll s' \<and> \<not> ct_synchronized s' \<and>
    (ct_pending_cert s' \<longleftrightarrow> ct_pending_cert s \<or> pr_cert_changed r)"
proof -
  define s1 where "s1 = (if pr_from_poll r then s\<lparr>ct_pull_pending := False\<rparr> else s)"
  define s2 where "s2 = s1\<lparr>ct_pending_cert := ct_pending_cert s1 \<or> pr_cert_changed r\<rparr>"
  have s2: "core s2 = core s" "ct_devices s2 = ct_devices s" "ct_control_version s2 = ct_control_version s"
    "ct_pending_cert s2 \<longleftrightarrow> ct_pending_cert s \<or> pr_cert_changed r" "ct_generation s2 = ct_generation s"
    by (simp_all add: s2_def s1_def core_def)
  obtain ok g where gate: "accept (pr_control_version r) (ct_control_version s2) = (ok, g)" by fastforce
  have "s' = request_resync api s2 \<or> s' = reset_polling (s2\<lparr>ct_synchronized := False, ct_resync := True\<rparr>)"
  proof (cases "pr_generation r = ct_generation s2")
    case False
    then show ?thesis
      unfolding assms(2) apply_pull_result_def s1_def [symmetric] Let_def s2_def [symmetric] by simp
  next
    case True
    then have "\<not> ok" using assms(1) s2(3,5) gate by simp
    with True show ?thesis
      unfolding assms(2) apply_pull_result_def s1_def [symmetric] Let_def s2_def [symmetric] gate prod.case by simp
  qed
  moreover have "core (reset_polling (s2\<lparr>ct_synchronized := False, ct_resync := True\<rparr>)) = core s2"
    by (simp add: core_def reset_polling_def)
  ultimately show ?thesis using s2 resync_fields [of api s2] core_updates(3) [of api s2] by (auto simp: reset_polling_def)
qed

definition sample_pull :: "(unit, unit) pull_result" where
  "sample_pull = \<lparr>pr_from_poll = True, pr_config = None, pr_users = Some [sample_user 2], pr_cert_changed = True,
     pr_generation = 0, pr_control_version = no_version, pr_device_version = no_version, pr_devices = None\<rparr>"

theorem stale_pull_discarded_witness:
  "ct_users (apply_pull_result sample_api sample_pull (failing_control\<lparr>ct_generation := 1\<rparr>)) = [sample_user 1] \<and>
   ct_pending_cert (apply_pull_result sample_api sample_pull (failing_control\<lparr>ct_generation := 1\<rparr>))"
proof -
  have "pr_generation sample_pull \<noteq> ct_generation (failing_control\<lparr>ct_generation := 1\<rparr>) \<or>
      \<not> fst (accept (pr_control_version sample_pull) (ct_control_version (failing_control\<lparr>ct_generation := 1\<rparr>)))"
    by (simp add: sample_pull_def)
  from stale_pull_discarded [OF this refl, of sample_api] show ?thesis
    by (simp add: core_def failing_control_def sample_pull_def)
qed

section \<open>The users a kernel serves\<close>

definition uuids :: "'u user_spec_scheme list \<Rightarrow> int \<rightharpoonup> string" where
  "uuids us = (\<lambda>i. map_option us_uuid (user_map us i))"

text \<open>What the comments of the interface say of user operations: launches and \<open>UpdateUsers\<close> set the
  users, \<open>AddUsers\<close> skips those known already, \<open>RemoveUsers\<close> those unknown.\<close>

definition user_kernel :: "('k, 'f, 'x, 'u) runtime_api \<Rightarrow> ('k \<Rightarrow> int \<rightharpoonup> string) \<Rightarrow> bool" where
  "user_kernel api kusers \<longleftrightarrow>
     (\<forall>n us k. launched api n us k \<longrightarrow> kusers k = uuids us) \<and>
     (\<forall>us k k'. k_change api (UpdateUsers us) k = (True, k') \<longrightarrow> kusers k' = uuids us) \<and>
     (\<forall>us k k'. k_change api (AddUsers us) k = (True, k') \<longrightarrow> distinct (map us_id us) \<longrightarrow>
        kusers k' = uuids us ++ kusers k) \<and>
     (\<forall>us k k'. k_change api (RemoveUsers us) k = (True, k') \<longrightarrow> kusers k' = kusers k |` (- us_id ` set us))"

definition users_agree :: "('k, 'f, 'x, 'u) runtime_api \<Rightarrow> ('k \<Rightarrow> int \<rightharpoonup> string) \<Rightarrow> ('k, 'f, 'x, 'u) control \<Rightarrow> bool" where
  "users_agree api kusers s \<longleftrightarrow>
     (\<forall>n. k_running api (ct_kernel s) \<longrightarrow> ct_config s = Some n \<longrightarrow> \<not> userless n \<longrightarrow>
        kusers (ct_kernel s) = uuids (ct_users s))"

definition collision_free :: "('k, 'f, 'x, 'u) runtime_api \<Rightarrow> bool" where
  "collision_free api \<longleftrightarrow> (\<forall>a b. hash_node api (kernel_relevant a) = hash_node api (kernel_relevant b) \<longrightarrow> userless a = userless b)"

lemma fold_update_users: "map_of (fold (\<lambda>u. AList.update (us_id u) u) us m) = map_of m ++ user_map us"
  by (induction us arbitrary: m) (simp_all add: user_map_Cons update_conv')

lemma set_update_subset: "set (AList.update k v m) \<subseteq> insert (k, v) (set m)"
  by (induction m) auto

lemma user_map_values:
  assumes "distinct_keys m" and "\<forall>(i, u) \<in> set m. us_id u = i"
  shows "user_map (map snd m) = map_of m"
  using assms
proof (induction m)
  case Nil
  then show ?case by simp
next
  case (Cons e m)
  then have ih: "user_map (map snd m) = map_of m" by simp
  have "fst e \<notin> dom (map_of m)" using Cons.prems(1) by (simp add: dom_map_of_conv_image_fst)
  then show ?case
    using Cons.prems(2) ih by (cases e) (auto simp: user_map_Cons map_add_def fun_eq_iff split: option.split)
qed

lemma merge_users_map: "user_map (merge_users base delta) = user_map base ++ user_map delta"
proof (cases "delta = []")
  case True
  then show ?thesis by (simp add: merge_users_def)
next
  case False
  let ?m = "fold (\<lambda>u. AList.update (us_id u) u) (base @ delta) []"
  have keys: "distinct_keys (fold (\<lambda>u. AList.update (us_id u) u) us m)" if "distinct_keys m" for us m
    using that by (induction us arbitrary: m) simp_all
  have "\<forall>(i, u) \<in> set (fold (\<lambda>u. AList.update (us_id u) u) us m). us_id u = i" if "\<forall>(i, u) \<in> set m. us_id u = i" for us m
    using that
  proof (induction us arbitrary: m)
    case (Cons u us)
    have "\<forall>(i, v) \<in> set (AList.update (us_id u) u m). us_id v = i"
      using Cons.prems set_update_subset [of "us_id u" u m] by auto
    then show ?case using Cons.IH by simp
  qed simp
  from this [of "[]" "base @ delta"] keys [of "[]" "base @ delta"]
  have "user_map (map snd ?m) = map_of ?m" by (intro user_map_values) (simp_all del: fold_append)
  then show ?thesis using False by (simp add: merge_users_def fold_update_users user_map_append del: fold_append)
qed

lemma uuids_merge:
  assumes "\<not> has_uuid_change base delta"
  shows "uuids (merge_users base delta) = uuids delta ++ uuids base"
proof
  fix i
  show "uuids (merge_users base delta) i = (uuids delta ++ uuids base) i"
  proof (cases "user_map delta i")
    case None
    then show ?thesis by (simp add: uuids_def merge_users_map map_add_def split: option.split)
  next
    case (Some u)
    then have "u \<in> set delta" "us_id u = i" by (auto simp: user_map_def dest: map_of_SomeD)
    then have "\<And>b. user_map base i = Some b \<Longrightarrow> us_uuid b = us_uuid u"
      using assms by (auto simp: has_uuid_change_def)
    then show ?thesis using Some by (auto simp: uuids_def merge_users_map map_add_def split: option.split)
  qed
qed

lemma uuids_subtract: "uuids (subtract_users base delta) = uuids base |` (- us_id ` set delta)"
  using user_map_filter [of "\<lambda>i. i \<notin> set (map us_id delta)" base]
  by (auto simp: uuids_def subtract_users_def restrict_map_def fun_eq_iff)

lemma users_agree_stopped: "\<not> k_running api (ct_kernel s) \<Longrightarrow> users_agree api kusers s"
  by (simp add: users_agree_def)

lemma users_agree_cong:
  "ct_kernel s = ct_kernel t \<Longrightarrow> ct_config s = ct_config t \<Longrightarrow> ct_users s = ct_users t \<Longrightarrow>
   users_agree api kusers s = users_agree api kusers t"
  by (simp add: users_agree_def)

lemma users_agree_updates [simp]:
  "users_agree api kusers (s\<lparr>ct_user_hash := h\<rparr>) = users_agree api kusers s"
  "users_agree api kusers (s\<lparr>ct_applied_users := us\<rparr>) = users_agree api kusers s"
  "users_agree api kusers (s\<lparr>ct_control_version := g\<rparr>) = users_agree api kusers s"
  "users_agree api kusers (s\<lparr>ct_generation := n\<rparr>) = users_agree api kusers s"
  "users_agree api kusers (s\<lparr>ct_synchronized := b\<rparr>) = users_agree api kusers s"
  "users_agree api kusers (s\<lparr>ct_resync := b\<rparr>) = users_agree api kusers s"
  "users_agree api kusers (s\<lparr>ct_pending_cert := b\<rparr>) = users_agree api kusers s"
  "users_agree api kusers (s\<lparr>ct_pull_pending := b\<rparr>) = users_agree api kusers s"
  by (simp_all add: users_agree_def)

lemma users_agree_core: "core s = core t \<Longrightarrow> users_agree api kusers s = users_agree api kusers t"
  using core_fields [of s t] by (intro users_agree_cong) simp_all

lemma users_agree_requests [simp]:
  "users_agree api kusers (reset_polling s) = users_agree api kusers s"
  "users_agree api kusers (request_resync api s) = users_agree api kusers s"
  "users_agree api kusers (apply_devices api v ds s) = users_agree api kusers s"
  by (rule users_agree_core, rule core_updates)+

context runtime_kernel
begin

lemma fail_agree: "users_agree api kusers (fail_runtime api n us s)"
  using stop_stops by (intro users_agree_stopped) simp

lemma failed_agree: "failed_attempt api n us s s' \<Longrightarrow> users_agree api kusers s'"
  using stop_stops by (auto simp: failed_attempt_def intro: users_agree_stopped)

lemma apply_changes_agree:
  assumes "user_kernel api kusers" and "\<not> ctx_done api"
    and "k_running api (ct_kernel s) \<Longrightarrow> ct_failed s = [] \<and> ct_config s \<noteq> None"
  shows "users_agree api kusers (snd (apply_changes api s))"
proof (cases "ct_config s")
  case None
  then show ?thesis using assms(3) by (auto simp: apply_changes_def assms(2) intro: users_agree_stopped)
next
  case (Some n)
  obtain b s' where step: "apply_changes api s = (b, s')" by fastforce
  note cases = apply_changes_cases [OF step assms(2) Some refl refl]
  have "users_agree api kusers s'"
  proof (cases b)
    case True
    then show ?thesis
      using cases assms(1) stop_stops by (auto simp: user_kernel_def users_agree_def same_goal_def split: option.split)
  next
    case False
    then show ?thesis
      using cases assms(3) failed_agree by (auto simp: attempt_blocked_def intro: users_agree_stopped)
  qed
  then show ?thesis using step by simp
qed

lemma apply_config_update_agree:
  assumes "user_kernel api kusers" and "\<not> ctx_done api" and "collision_free api"
    and "consistent api served s" and "policy_only api c s \<Longrightarrow> users_agree api kusers s"
  shows "users_agree api kusers (snd (apply_config_update api c h s))"
proof (cases "policy_only api c s")
  case False
  have "users_agree api kusers (snd (apply_changes api (s\<lparr>ct_config := Some c, ct_config_hash := h\<rparr>)))"
    using assms(4) by (intro apply_changes_agree [OF assms(1,2)]) (simp add: consistent_def)
  then show ?thesis using False by (simp add: apply_config_update_def)
next
  case True
  define s1 where "s1 = s\<lparr>ct_config := Some c, ct_config_hash := h\<rparr>"
  obtain n where n: "ct_config s = Some n" using True assms(4) by (auto simp: policy_only_def consistent_def)
  then have "hash_node api (kernel_relevant n) = hash_node api (kernel_relevant c)"
    using True by (simp add: policy_only_def kernel_hash_def)
  then have same: "userless n = userless c" using assms(3) unfolding collision_free_def by blast
  have s1: "users_agree api kusers s1" using assms(5) [OF True] n same by (simp add: s1_def users_agree_def)
  obtain ok s2 where fw: "update_firewall api c (ct_users s1) False s1 = (ok, s2)" by fastforce
  have s2: "users_agree api kusers s2"
    using update_firewall_cases [OF fw] s1 failed_agree users_agree_core [of s2 s1] by (cases ok) auto
  then have "users_agree api kusers (s2\<lparr>ct_applied_config := Some c\<rparr>)" by (simp add: users_agree_def)
  moreover have "users_agree api kusers (s1\<lparr>ct_applied_config := Some c\<rparr>)" using s1 by (simp add: users_agree_def)
  ultimately show ?thesis
    using True s1 fw s2
    by (simp add: apply_config_update_def s1_def [symmetric] Let_def)
qed

lemma ensure_running_agree:
  assumes "user_kernel api kusers" and "\<not> ctx_done api" and "consistent api served s" and "ensure_running api s = (ok, s')"
  shows "k_running api (ct_kernel s) \<Longrightarrow> ok \<and> s' = s" and "\<not> k_running api (ct_kernel s) \<Longrightarrow> users_agree api kusers s'"
proof -
  show "ok \<and> s' = s" if "k_running api (ct_kernel s)" using assms(2,4) that by (simp add: ensure_running_def)
  show "users_agree api kusers s'" if "\<not> k_running api (ct_kernel s)"
    using assms(2,4) that apply_changes_agree [OF assms(1,2), of s]
    by (auto simp: ensure_running_def users_agree_stopped split: if_splits prod.splits)
qed

lemma change_or_replace_agree:
  assumes "user_kernel api kusers" and "ct_config s = Some n" and "us = ct_users s"
    and "\<And>k. \<not> userless n \<Longrightarrow> k_change api d (ct_kernel s) = (True, k) \<Longrightarrow> kusers k = uuids us"
  shows "users_agree api kusers (snd (change_or_replace api d us s))"
proof -
  obtain b k where first: "k_change api d (ct_kernel s) = (b, k)" by fastforce
  obtain b' k' where second: "k_change api (UpdateUsers us) k = (b', k')" by fastforce
  have "\<not> userless n \<Longrightarrow> b \<Longrightarrow> kusers k = uuids (ct_users s)" "b' \<Longrightarrow> kusers k' = uuids (ct_users s)"
    using assms first second by (auto simp: user_kernel_def)
  then show ?thesis
    using assms(2) first second fail_agree [of kusers "Some n" us "s\<lparr>ct_kernel := k'\<rparr>"]
    by (auto simp: change_or_replace_def Let_def users_agree_def)
qed

lemma sync_landing_agree:
  assumes "user_kernel api kusers" and "\<not> ctx_done api" and "consistent api served s" and "ct_config s = Some n" "userless n"
  shows "users_agree api kusers (snd (sync_landing_users api s))"
proof -
  let ?s = "prepare_user_state api [] s"
  obtain ok s1 where ensure: "ensure_running api ?s = (ok, s1)" by fastforce
  have "consistent api served ?s" using assms(3) by simp
  note running = ensure_running_agree [OF assms(1,2) this ensure]
  have "users_agree api kusers ?s" using assms(4,5) by (simp add: users_agree_def prepare_user_state_def)
  then have "users_agree api kusers s1" using running by (cases "k_running api (ct_kernel ?s)") auto
  then show ?thesis using ensure by (simp add: sync_landing_users_def)
qed

lemma apply_user_update_agree:
  assumes "user_kernel api kusers" and "\<not> ctx_done api" and "consistent api served s"
  shows "users_agree api kusers (snd (apply_user_update api us h s))"
proof (cases "ct_config s")
  case None
  then have "\<not> k_running api (ct_kernel s)" using assms(3) by (simp add: consistent_def)
  then show ?thesis using None by (simp add: apply_user_update_def) (simp add: users_agree_def prepare_user_state_def)
next
  case (Some n)
  show ?thesis
  proof (cases "userless n")
    case True
    then show ?thesis using Some sync_landing_agree [OF assms Some True] by (simp add: apply_user_update_def)
  next
    case False
    let ?s = "prepare_user_state api us s"
    obtain ok s1 where ensure: "ensure_running api ?s = (ok, s1)" by fastforce
    have "consistent api served ?s" using assms(3) by simp
    note running = ensure_running_agree [OF assms(1,2) this ensure]
    obtain b k where change: "k_change api (UpdateUsers us) (ct_kernel s1) = (b, k)" by fastforce
    have updated: "b \<Longrightarrow> kusers k = uuids us" using assms(1) change by (auto simp: user_kernel_def)
    have kernel: "ct_kernel ?s = ct_kernel s" "ct_users ?s = us" "ct_config ?s = Some n"
      using Some by (simp_all add: prepare_user_state_def)
    show ?thesis
    proof (cases "k_running api (ct_kernel s)")
      case True
      then have s1: "ok" "s1 = ?s" using running(1) kernel by auto
      show ?thesis
        using Some False True ensure change updated s1 kernel fail_agree
        by (simp add: apply_user_update_def Let_def) (simp add: users_agree_def)
    next
      case stopped: False
      then have "users_agree api kusers s1" using running(2) kernel by simp
      then show ?thesis using Some False stopped ensure by (simp add: apply_user_update_def Let_def)
    qed
  qed
qed

lemma apply_user_delta_agree:
  assumes "user_kernel api kusers" and "\<not> ctx_done api" and "consistent api served s" and "users_agree api kusers s"
    and "distinct (map us_id delta)"
  shows "users_agree api kusers (snd (apply_user_delta api action delta s))"
proof (cases "ct_config s")
  case None
  then have stopped: "\<not> k_running api (ct_kernel s)" using assms(3) by (simp add: consistent_def)
  then have "users_agree api kusers (prepare_user_state api us s)" for us
    by (simp add: users_agree_def prepare_user_state_def)
  then show ?thesis using None assms(4) by (simp add: apply_user_delta_def)
next
  case (Some n)
  have goal: "ct_kernel (prepare_user_state api us s) = ct_kernel s" "ct_users (prepare_user_state api us s) = us"
    "ct_config (prepare_user_state api us s) = Some n" for us
    using Some by (simp_all add: prepare_user_state_def)
  have prepared: "consistent api served (prepare_user_state api us s)" for us using assms(3) by simp
  consider "relay_landing n \<and> (action = ''add'' \<or> action = ''remove'')" | "delta = []"
    | "\<not> relay_landing n" "action = ''add''" "delta \<noteq> []" | "\<not> relay_landing n" "action = ''remove''" "delta \<noteq> []"
    | "action \<noteq> ''add''" "action \<noteq> ''remove''" by blast
  then show ?thesis
  proof cases
    case 1
    then have "userless n" by (simp add: userless_def)
    then show ?thesis using Some 1 sync_landing_agree [OF assms(1-3) Some] by (simp add: apply_user_delta_def)
  next
    case 2
    then show ?thesis
      using Some assms(4) sync_landing_agree [OF assms(1-3) Some] by (simp add: apply_user_delta_def userless_def)
  next
    case 3
    let ?merged = "merge_users (ct_users s) delta"
    let ?s = "prepare_user_state api ?merged s"
    show ?thesis
    proof (cases "has_uuid_change (ct_users s) delta")
      case True
      then show ?thesis
        using Some 3 apply_user_update_agree [OF assms(1-3)] by (simp add: apply_user_delta_def Let_def)
    next
      case no_change: False
      obtain ok s1 where ensure: "ensure_running api ?s = (ok, s1)" by fastforce
      note running = ensure_running_agree [OF assms(1,2) prepared ensure]
      show ?thesis
      proof (cases "k_running api (ct_kernel s)")
        case True
        then have s1: "ok" "s1 = ?s" using running(1) goal by auto
        have "users_agree api kusers (snd (change_or_replace api (AddUsers delta) ?merged ?s))"
        proof (rule change_or_replace_agree [OF assms(1) goal(3) goal(2) [symmetric]])
          fix k
          assume "\<not> userless n" "k_change api (AddUsers delta) (ct_kernel ?s) = (True, k)"
          then have "kusers k = uuids delta ++ kusers (ct_kernel s)" "kusers (ct_kernel s) = uuids (ct_users s)"
            using assms(1,4,5) Some True goal(1) by (auto simp: user_kernel_def users_agree_def)
          then show "kusers k = uuids ?merged" using uuids_merge [OF no_change] by simp
        qed
        then show ?thesis using Some 3 no_change True ensure s1 by (simp add: apply_user_delta_def Let_def)
      next
        case False
        then have "users_agree api kusers s1" using running(2) goal(1) by simp
        then show ?thesis using Some 3 no_change False ensure by (simp add: apply_user_delta_def Let_def)
      qed
    qed
  next
    case 4
    let ?rest = "subtract_users (ct_users s) delta"
    let ?s = "prepare_user_state api ?rest s"
    show ?thesis
    proof (cases "k_running api (ct_kernel s)")
      case True
      have "users_agree api kusers (snd (change_or_replace api (RemoveUsers delta) ?rest ?s))"
      proof (rule change_or_replace_agree [OF assms(1) goal(3) goal(2) [symmetric]])
        fix k
        assume "\<not> userless n" "k_change api (RemoveUsers delta) (ct_kernel ?s) = (True, k)"
        then have "kusers k = kusers (ct_kernel s) |` (- us_id ` set delta)" "kusers (ct_kernel s) = uuids (ct_users s)"
          using assms(1,4) Some True goal(1) by (auto simp: user_kernel_def users_agree_def)
        then show "kusers k = uuids ?rest" by (simp add: uuids_subtract)
      qed
      then show ?thesis using Some 4 True goal(1) by (simp add: apply_user_delta_def Let_def)
    next
      case False
      have "users_agree api kusers (snd (apply_changes api ?s))"
        using False goal(1) by (intro apply_changes_agree [OF assms(1,2)]) simp
      then show ?thesis using Some 4 False goal(1) by (simp add: apply_user_delta_def Let_def)
    qed
  next
    case 5
    then show ?thesis using Some assms(4) by (simp add: apply_user_delta_def)
  qed
qed

lemma apply_snapshot_agree:
  assumes "user_kernel api kusers" and "\<not> ctx_done api" and "collision_free api"
    and "consistent api served s" and "users_agree api kusers s"
    and "\<And>c. config = Some c \<Longrightarrow> policy_only api c s \<Longrightarrow> users = None"
  shows "users_agree api kusers (apply_snapshot api config users cert_changed s)"
proof -
  define s1 where "s1 = (case users of None \<Rightarrow> s | Some us \<Rightarrow> prepare_user_state api us s)"
  have s1: "consistent api served s1" using assms(4) by (simp add: s1_def split: option.split)
  have only: "policy_only api c s1 = policy_only api c s" for c
    by (simp add: policy_only_def s1_def prepare_user_state_def split: option.split)
  have "users_agree api kusers (snd (case config of Some c \<Rightarrow> apply_config_update api c (hash_node api c) s1
      | None \<Rightarrow> apply_changes api s1))"
  proof (cases config)
    case None
    then show ?thesis using apply_changes_agree [OF assms(1,2), of s1] s1 by (simp add: consistent_def)
  next
    case (Some c)
    have "users_agree api kusers s1" if "policy_only api c s1"
      using assms(5) assms(6) [OF Some] that only by (simp add: s1_def)
    then show ?thesis using apply_config_update_agree [OF assms(1-3) s1, of c] Some by simp
  qed
  moreover have "users_agree api kusers t" if "apply_user_update api us h s = (b, t)" for us h b t
    using apply_user_update_agree [OF assms(1,2,4), of us h] that by simp
  ultimately show ?thesis
    using assms(5) by (auto simp: apply_snapshot_def s1_def [symmetric] Let_def split: prod.split option.split)
qed

lemma apply_pull_result_agree:
  assumes "user_kernel api kusers" and "\<not> ctx_done api" and "collision_free api"
    and "consistent api served s" and "users_agree api kusers s"
    and "\<And>c. pr_config r = Some c \<Longrightarrow> policy_only api c s \<Longrightarrow> changed_users api r s = None"
  shows "users_agree api kusers (apply_pull_result api r s)"
proof -
  define s1 where "s1 = (if pr_from_poll r then s\<lparr>ct_pull_pending := False\<rparr> else s)"
  define s2 where "s2 = s1\<lparr>ct_pending_cert := ct_pending_cert s1 \<or> pr_cert_changed r\<rparr>"
  obtain ok g where gate: "accept (pr_control_version r) (ct_control_version s2) = (ok, g)" by fastforce
  define s3 where "s3 = apply_devices api (pr_device_version r) (pr_devices r)
    (s2\<lparr>ct_control_version := g, ct_resync := False, ct_pending_cert := False\<rparr>)"
  define s4 where "s4 = s3\<lparr>ct_synchronized := ws_connected api\<rparr>"
  have same: "consistent api served s4" "users_agree api kusers s4" "users_agree api kusers s2"
    using assms(4,5) by (simp_all add: s4_def s3_def s2_def s1_def)
  have fields: "ct_kernel s4 = ct_kernel s" "ct_config s4 = ct_config s" "ct_tls s4 = ct_tls s"
    "ct_applied_tls s4 = ct_applied_tls s" "ct_user_hash s4 = ct_user_hash s"
    by (simp_all add: s4_def s3_def s2_def s1_def apply_devices_def Let_def split: prod.split)
  have "policy_only api c s4 = policy_only api c s" "changed_users api r s4 = changed_users api r s" for c
    by (simp_all only: policy_only_def changed_users_def fields)
  then have "users_agree api kusers (apply_snapshot api (changed_config api r b s4) (changed_users api r s4) b s4)" for b
    using assms(6) by (intro apply_snapshot_agree [OF assms(1-3) same(1,2)])
      (auto simp: changed_config_def split: option.splits if_splits)
  then show ?thesis
    using same unfolding apply_pull_result_def s1_def [symmetric] Let_def s2_def [symmetric] gate prod.case
      s3_def [symmetric] s4_def [symmetric] by simp
qed

lemma finish_agree:
  assumes "users_agree api kusers (snd p)"
  shows "users_agree api kusers (case p of (applied, t) \<Rightarrow> if applied then t else reset_polling t)"
  using assms by (cases p) simp

end


subsection \<open>A kernel that is a table of users\<close>

record user_table =
  tb_running :: bool
  tb_served :: string
  tb_users :: "int \<rightharpoonup> string"

definition spec_hash :: "unit node_spec \<Rightarrow> string" where
  "spec_hash n = (if relay_landing n then CHR ''L'' else CHR ''N'') # ns_protocol n @ '';'' @ ns_cert_renew n"

definition table_launch :: "(unit, unit) launch \<Rightarrow> user_table \<Rightarrow> bool \<times> user_table" where
  "table_launch l k =
     (case l of (n, _, us, _) \<Rightarrow> (True, \<lparr>tb_running = True, tb_served = spec_hash (kernel_relevant n), tb_users = uuids us\<rparr>))"

definition table_change :: "unit user_change \<Rightarrow> user_table \<Rightarrow> bool \<times> user_table" where
  "table_change d k = (True, k\<lparr>tb_users := (case d of
     AddUsers us \<Rightarrow> uuids us ++ tb_users k | RemoveUsers us \<Rightarrow> tb_users k |` (- us_id ` set us) | UpdateUsers us \<Rightarrow> uuids us)\<rparr>)"

definition table_api :: "(user_table, unit, unit, unit) runtime_api" where
  "table_api = sample_api\<lparr>k_start := table_launch, k_reload := table_launch, k_change := table_change,
     k_stop := (\<lambda>k. k\<lparr>tb_running := False\<rparr>), k_running := tb_running, hash_node := spec_hash\<rparr>"

interpretation table_kernel: runtime_kernel table_api tb_served
  by unfold_locales (auto simp: table_api_def table_launch_def table_change_def kernel_hash_def)

lemma table_user_kernel: "user_kernel table_api tb_users"
  by (auto simp: user_kernel_def launched_def table_api_def table_launch_def table_change_def)

lemma table_collision_free: "collision_free table_api"
  by (auto simp: collision_free_def table_api_def spec_hash_def kernel_relevant_def userless_def relay_landing_def
      split: if_splits option.splits)

definition table_spec :: "string \<Rightarrow> unit node_spec" where
  "table_spec renew = \<lparr>ns_health = None, ns_cert_renew = renew, ns_protocol = ''vless'', ns_auto_firewall = Some False,
     ns_policy = None, ns_cert_config = None, ns_relay = None, ns_rest = (), ns_unhashed = ()\<rparr>"

definition table_control :: "(user_table, unit, unit, unit) control" where
  "table_control = (empty_control \<lparr>tb_running = True, tb_served = spec_hash (kernel_relevant (table_spec [])),
       tb_users = uuids [sample_user 1]\<rparr> ())
     \<lparr>ct_config := Some (table_spec []), ct_config_hash := spec_hash (table_spec []), ct_users := [sample_user 1],
      ct_user_hash := us_uuid (sample_user 1)\<rparr>"

definition user_event :: "(unit node_spec, unit) event" where
  "user_event = (plain_event SyncUserDelta no_version)\<lparr>ev_delta_action := ''add'', ev_delta_users := [sample_user 2]\<rparr>"

definition snapshot_event :: "(unit node_spec, unit) event" where
  "snapshot_event = (plain_event SyncSnapshot no_version)
     \<lparr>ev_config := Some (table_spec ''now''), ev_users := Some [sample_user 2]\<rparr>"


section \<open>A snapshot that loses its users\<close>

text \<open>C10. A complete snapshot that changes the users together with a field the kernel does not see (a
  requested certificate renewal, the health check) records the new users as applied, but the running
  kernel keeps serving the old ones; since the recorded hash is the new one, receiving the same
  snapshot again changes nothing.\<close>

theorem policy_only_snapshot_loses_users:
  fixes s :: "('k, 'f, 'x, 'u) control"
  assumes "policy_only api c s" and "hash_node api c \<noteq> ct_config_hash s" and "hash_users api us \<noteq> ct_user_hash s"
    and "\<not> manages_firewall c" and "\<not> relay_landing c" and "hash_node api c \<noteq> []" and "\<not> ct_pending_cert s"
    and "ev_type e = SyncSnapshot" and "ev_config e = Some c" and "ev_users e = Some us"
    and "accept (ev_version e) (ct_control_version s) = (True, g)" and "accept (ev_version e) g = (True, g)"
    and "s' = handle_event api e s"
  shows "ct_kernel s' = ct_kernel s \<and> ct_users s' = us \<and> ct_user_hash s' = hash_users api us \<and>
    ct_kernel (handle_event api e s') = ct_kernel s"
proof -
  define pulled where "pulled = (\<lambda>t :: ('k, 'f, 'x, 'u) control. t\<lparr>ct_generation := ct_generation t + 1, ct_control_version := g, ct_resync := False,
    ct_pending_cert := False, ct_synchronized := ws_connected api\<rparr>)"
  have snapshot: "handle_event api e t = apply_snapshot api
      (if hash_node api c = ct_config_hash t then None else Some c)
      (if hash_users api us = ct_user_hash t then None else Some us) False (pulled t)"
    if "\<not> ct_pending_cert t" "accept (ev_version e) (ct_control_version t) = (True, g)" for t
    using that assms(6,8-10)
    by (simp add: handle_event_def apply_pull_result_def changed_config_def changed_users_def apply_devices_def pulled_def)
  define s1 where "s1 = prepare_user_state api us (pulled s)"
  have "policy_only api c s1"
    using assms(1) by (simp add: policy_only_def s1_def prepare_user_state_def pulled_def)
  then have update: "apply_config_update api c (hash_node api c) s1 =
      (True, s1\<lparr>ct_config := Some c, ct_config_hash := hash_node api c, ct_applied_config := Some c\<rparr>)"
    using assms(4) by (simp add: apply_config_update_def)
  have first: "s' = s1\<lparr>ct_config := Some c, ct_config_hash := hash_node api c, ct_applied_config := Some c,
      ct_user_hash := hash_users api us\<rparr>"
    unfolding assms(13) snapshot [OF assms(7,11)] using assms(2,3,5)
    by (simp add: apply_snapshot_def s1_def [symmetric] update)
  have same: "ct_kernel s1 = ct_kernel s" "ct_users s1 = us" "\<not> ct_pending_cert s1" "ct_control_version s1 = g"
    by (simp_all add: s1_def pulled_def prepare_user_state_def)
  have "handle_event api e s' = pulled s'"
    using snapshot [of s'] assms(12) same by (simp add: first apply_snapshot_def)
  then show ?thesis using same by (simp add: first pulled_def)
qed

theorem policy_only_snapshot_loses_users_witness:
  "tb_users (ct_kernel (handle_event table_api snapshot_event table_control)) = uuids [sample_user 1] \<and>
   ct_users (handle_event table_api snapshot_event table_control) = [sample_user 2]"
proof -
  have "policy_only table_api (table_spec ''now'') table_control"
    by (simp add: policy_only_def table_control_def table_api_def sample_api_def kernel_hash_def kernel_relevant_def
        table_spec_def empty_control_def)
  from policy_only_snapshot_loses_users [OF this, of "[sample_user 2]" snapshot_event new_gate]
  show ?thesis
    by (simp add: table_control_def table_api_def sample_api_def spec_hash_def table_spec_def manages_firewall_def
        relay_landing_def snapshot_event_def plain_event_def accept_def no_version_def new_gate_def empty_control_def
        sample_user_def itoa_def itoa_nat.simps digit_char_def)
qed

end
