(* ===== verification/DeviceGate.thy ===== *)
theory DeviceGate
  imports Prelude "HOL-Library.List_Lexorder" "HOL-Library.Char_ord"
begin

text \<open>
  Model of \<open>internal/devicegate\<close> (\<open>manager.go\<close>, \<open>lease_cache.go\<close>, \<open>protocol.go\<close>): leases on the
  sources (user and address) from which devices connect, the permits that connections hold on a
  source, their revocation, and the exchange of snapshots with the panel.

  Objects that several holders share by pointer (sources, flights, waiters, permits) are indices into
  lists of the manager. A section of the code that holds the manager's lock is one step; a request
  to the panel is two steps, one that builds it and one that handles its reply, and other steps may come
  between. Times are integers (nanoseconds; the panel's are milliseconds), sequence numbers count
  events. \<open>public\<close> is \<open>deviceip.PublicAddress\<close>, a parameter: the public form of an address or the empty string.
\<close>

section \<open>Protocol\<close>

type_synonym source_key = "int \<times> string"

datatype gate_error = NotReady | Revoked | Denied | Invalid | Cancelled | SessionLost | RemoteError

record revocation =
  rv_run :: string
  rv_confirmed :: nat
  rv_user :: int
  rv_ip :: string
  rv_lease :: string

record lease =
  ls_confirmed :: nat
  ls_user :: int
  ls_ip :: string
  ls_lease :: string
  ls_confirmed_at :: int
  ls_expires_at :: int

record reported_source =
  rs_user :: int
  rs_ip :: string
  rs_lease :: string
  rs_connect :: nat
  rs_age :: int

record gate_snapshot =
  sn_lease_cache :: bool
  sn_run :: string
  sn_sequence :: nat
  sn_pending :: "nat list"
  sn_sources :: "reported_source list"
  sn_retired :: "revocation list"

record sync_reply =
  sy_idle :: "revocation list"
  sy_lease_cache :: bool
  sy_server_time :: int
  sy_leases :: "lease list"
  sy_run :: string
  sy_sequence :: nat
  sy_revoked :: "revocation list"

datatype admission_status = Allowed | DeniedStatus | Waiting | OtherStatus

record admission_reply =
  ar_confirmed :: nat
  ar_confirmed_at :: int
  ar_expires_at :: int
  ar_server_time :: int
  ar_status :: admission_status
  ar_lease :: string
  ar_revoked :: "revocation list"
  ar_sync :: "sync_reply option"

definition hex_digit :: "char \<Rightarrow> bool" where
  "hex_digit c = (is_digit c \<or> (let n = (of_char c :: nat) in 97 \<le> n \<and> n \<le> 102 \<or> 65 \<le> n \<and> n \<le> 70))"

definition valid_lease :: "string \<Rightarrow> bool" where
  "valid_lease l \<longleftrightarrow> length l = 32 \<and> list_all hex_digit l"

section \<open>State\<close>

record source_state =
  so_run :: string
  so_lease_seq :: nat
  so_key :: source_key
  so_lease :: string
  so_connected :: int
  so_sequence :: nat
  so_revoked :: bool
  so_permits :: "nat list"
  so_confirmed_at :: int
  so_expires_at :: int
  so_confirmed_seq :: nat
  so_omission_seq :: nat
  so_deadline :: "int option"

text \<open>A permit with the callback that closes its connection, once one is bound.\<close>

record 'c permit =
  pt_source :: nat
  pt_closing :: bool
  pt_close :: "'c option"
  pt_released :: bool

record flight =
  fl_key :: source_key
  fl_sequence :: nat
  fl_run :: string
  fl_waiters :: "nat list"
  fl_abandoned :: bool
  fl_done :: bool
  fl_err :: "gate_error option"
  fl_result :: "(gate_error + string) option"

record waiter =
  wt_flight :: nat
  wt_key :: source_key
  wt_permit :: "nat option"

record retired_source =
  rt_item :: revocation
  rt_sequence :: nat

record revoked_lease =
  rl_until :: int
  rl_barrier :: nat
  rl_sequence :: nat

record 'c gate_manager =
  gm_enabled :: bool
  gm_run :: string
  gm_ready :: bool
  gm_lease_cache :: bool
  gm_users :: "int list option"
  gm_barriers :: "(int, nat) go_map"
  gm_closing :: bool
  gm_stopped :: bool
  gm_seq :: nat
  gm_synced :: nat
  gm_confirmed :: "gate_snapshot option"
  gm_base :: nat
  gm_source_heap :: "source_state list"
  gm_sources :: "(source_key, nat) go_map"
  gm_flight_heap :: "flight list"
  gm_flights :: "(source_key, nat) go_map"
  gm_waiters :: "waiter list"
  gm_permits :: "'c permit list"
  gm_revoked :: "(string, revoked_lease) go_map"
  gm_retired :: "(string, retired_source) go_map"
  gm_closed :: "'c list"

definition new_gate_manager :: "'c gate_manager" where
  "new_gate_manager = \<lparr>gm_enabled = False, gm_run = [], gm_ready = False, gm_lease_cache = False, gm_users = None,
     gm_barriers = [], gm_closing = False, gm_stopped = False, gm_seq = 0, gm_synced = 0, gm_confirmed = None, gm_base = 0,
     gm_source_heap = [], gm_sources = [], gm_flight_heap = [], gm_flights = [], gm_waiters = [], gm_permits = [],
     gm_revoked = [], gm_retired = [], gm_closed = []\<rparr>"

definition set_source :: "nat \<Rightarrow> source_state \<Rightarrow> 'c gate_manager \<Rightarrow> 'c gate_manager" where
  "set_source i x m = m\<lparr>gm_source_heap := (gm_source_heap m)[i := x]\<rparr>"

definition source_at :: "'c gate_manager \<Rightarrow> source_key \<Rightarrow> source_state option" where
  "source_at m k = map_option (\<lambda>i. gm_source_heap m ! i) (map_of (gm_sources m) k)"

definition user_listed :: "'c gate_manager \<Rightarrow> int \<Rightarrow> bool" where
  "user_listed m u = (case gm_users m of None \<Rightarrow> True | Some us \<Rightarrow> u \<in> set us)"

definition live :: "int \<Rightarrow> source_state \<Rightarrow> bool" where
  "live now s = (case so_deadline s of None \<Rightarrow> False | Some d \<Rightarrow> now < d)"

section \<open>Leases\<close>

definition lease_grace :: int where
  "lease_grace = 3600000"

definition lease_deadline ::
  "(string \<Rightarrow> string) \<Rightarrow> lease \<Rightarrow> int \<Rightarrow> int \<Rightarrow> int \<Rightarrow> gate_error + int" where
  "lease_deadline public item server_time started now =
     (if ls_user item \<le> 0 \<or> public (ls_ip item) \<noteq> ls_ip item \<or> \<not> valid_lease (ls_lease item) \<or> ls_confirmed_at item \<le> 0 \<or>
         server_time < ls_confirmed_at item \<or> ls_expires_at item \<le> ls_confirmed_at item \<or>
         ls_expires_at item - ls_confirmed_at item > lease_grace then Inl Invalid
      else let remaining = ls_expires_at item - server_time in
        if remaining \<le> 0 then Inl Revoked
        else let deadline = started + remaining * 1000000 in
          if \<not> now < deadline then Inl Revoked else Inr deadline)"

definition retire :: "revocation \<Rightarrow> 'c gate_manager \<Rightarrow> 'c gate_manager" where
  "retire item m =
     (let item' = (if rv_run item = [] then
                     (case map_of (gm_retired m) (rv_lease item) of
                        Some previous \<Rightarrow> rt_item previous
                      | None \<Rightarrow> item\<lparr>rv_run := gm_run m\<rparr>)
                   else item) in
      m\<lparr>gm_seq := Suc (gm_seq m),
        gm_retired := AList.update (rv_lease item') \<lparr>rt_item = item', rt_sequence = Suc (gm_seq m)\<rparr> (gm_retired m)\<rparr>)"

definition source_revocation :: "source_state \<Rightarrow> revocation" where
  "source_revocation s = \<lparr>rv_run = so_run s, rv_confirmed = so_lease_seq s, rv_user = fst (so_key s),
     rv_ip = snd (so_key s), rv_lease = so_lease s\<rparr>"

definition remove_source :: "nat \<Rightarrow> 'c gate_manager \<Rightarrow> 'c gate_manager" where
  "remove_source i m =
     (let s = gm_source_heap m ! i in
      retire (source_revocation s) (m\<lparr>gm_sources := AList.delete (so_key s) (gm_sources m)\<rparr>))"

definition new_source :: "string \<Rightarrow> source_key \<Rightarrow> string \<Rightarrow> source_state" where
  "new_source run k l = \<lparr>so_run = run, so_lease_seq = 0, so_key = k, so_lease = l, so_connected = 0, so_sequence = 0,
     so_revoked = False, so_permits = [], so_confirmed_at = 0, so_expires_at = 0, so_confirmed_seq = 0,
     so_omission_seq = 0, so_deadline = None\<rparr>"

definition add_source :: "source_key \<Rightarrow> string \<Rightarrow> 'c gate_manager \<Rightarrow> nat \<times> 'c gate_manager" where
  "add_source k l m =
     (let i = length (gm_source_heap m) in
      (i, m\<lparr>gm_source_heap := gm_source_heap m @ [new_source (gm_run m) k l],
            gm_sources := AList.update k i (gm_sources m)\<rparr>))"

text \<open>Taking over a confirmed lease; a new one, or a later confirmation of the present one.\<close>

definition write_lease :: "nat \<Rightarrow> lease \<Rightarrow> int \<Rightarrow> nat \<Rightarrow> 'c gate_manager \<Rightarrow> 'c gate_manager" where
  "write_lease i item deadline sequence m =
     (set_source i ((gm_source_heap m ! i)
        \<lparr>so_confirmed_at := ls_confirmed_at item, so_expires_at := ls_expires_at item, so_confirmed_seq := sequence,
         so_lease_seq := ls_confirmed item, so_omission_seq := sequence, so_deadline := Some deadline\<rparr>) m)
       \<lparr>gm_retired := AList.delete (ls_lease item) (gm_retired m)\<rparr>"

definition install_lease :: "lease \<Rightarrow> int \<Rightarrow> nat \<Rightarrow> int \<Rightarrow> 'c gate_manager \<Rightarrow> bool \<times> 'c gate_manager" where
  "install_lease item deadline sequence now m =
     (let k = (ls_user item, ls_ip item);
          fresh = (\<lambda>m. let (i, m1) = add_source k (ls_lease item) m in (True, write_lease i item deadline sequence m1)) in
      if gm_closing m \<or> \<not> gm_ready m \<or> \<not> user_listed m (ls_user item) then (False, m)
      else if sequence \<le> get_or 0 (gm_barriers m) (ls_user item) then (False, m)
      else if (case map_of (gm_revoked m) (ls_lease item) of None \<Rightarrow> False
               | Some r \<Rightarrow> sequence \<le> rl_barrier r \<or> ls_confirmed item < sequence) then (False, m)
      else case map_of (gm_sources m) k of
        None \<Rightarrow> fresh m
      | Some i \<Rightarrow>
          let s = gm_source_heap m ! i in
          if so_confirmed_seq s > sequence \<or> so_revoked s then (False, m)
          else if so_lease s \<noteq> ls_lease item then
            (if so_permits s \<noteq> [] then (False, m) else fresh (remove_source i m))
          else if ls_confirmed_at item \<le> so_confirmed_at s then
            (live now s, set_source i (s\<lparr>so_confirmed_seq := sequence, so_lease_seq := max (so_lease_seq s) (ls_confirmed item),
               so_omission_seq := max (so_omission_seq s) sequence\<rparr>) m)
          else (True, write_lease i item deadline sequence m))"

section \<open>Revocation\<close>

text \<open>One item of \<open>revokeLocked\<close>: the permits to close, and the state.\<close>

definition revoke_item :: "revocation \<Rightarrow> nat \<Rightarrow> int \<Rightarrow> nat list \<times> 'c gate_manager \<Rightarrow> nat list \<times> 'c gate_manager" where
  "revoke_item item sequence now pm =
     (case pm of (permits, m) \<Rightarrow>
      if rv_user item \<le> 0 \<or> \<not> valid_lease (rv_lease item) then (permits, m)
      else let k = (rv_user item, rv_ip item);
               previous = map_of (gm_revoked m) (rv_lease item);
               previous_sequence = (case previous of None \<Rightarrow> 0 | Some r \<Rightarrow> rl_sequence r);
               holder = (case map_of (gm_sources m) k of
                   None \<Rightarrow> None
                 | Some i \<Rightarrow> if so_lease (gm_source_heap m ! i) = rv_lease item then Some i else None) in
        if sequence \<noteq> 0 \<and> (previous \<noteq> None \<and> sequence \<le> previous_sequence \<or>
             (case holder of None \<Rightarrow> False | Some i \<Rightarrow> sequence < so_confirmed_seq (gm_source_heap m ! i)))
        then (permits, m)
        else let m1 = m\<lparr>gm_seq := Suc (gm_seq m),
                        gm_revoked := AList.update (rv_lease item)
                          \<lparr>rl_until = now + (lease_grace + 60000) * 1000000, rl_barrier = Suc (gm_seq m),
                           rl_sequence = max sequence previous_sequence\<rparr> (gm_revoked m)\<rparr> in
          case holder of
            None \<Rightarrow> (permits, if gm_lease_cache m1 then retire item m1 else m1)
          | Some i \<Rightarrow>
              let s = gm_source_heap m1 ! i; m2 = set_source i (s\<lparr>so_revoked := True\<rparr>) m1 in
              (permits @ so_permits s, if so_permits s = [] then remove_source i m2 else m2))"

definition revoke_items :: "revocation list \<Rightarrow> nat \<Rightarrow> int \<Rightarrow> 'c gate_manager \<Rightarrow> nat list \<times> 'c gate_manager" where
  "revoke_items items sequence now m =
     fold (\<lambda>item. revoke_item item sequence now) items
       ([], m\<lparr>gm_revoked := filter (\<lambda>(l, r). \<not> rl_until r < now) (gm_revoked m)\<rparr>)"

definition revoke_permit :: "nat \<Rightarrow> 'c gate_manager \<Rightarrow> 'c gate_manager" where
  "revoke_permit p m =
     (let t = gm_permits m ! p in
      m\<lparr>gm_permits := (gm_permits m)[p := t\<lparr>pt_closing := True, pt_close := None\<rparr>],
        gm_closed := (case pt_close t of None \<Rightarrow> gm_closed m | Some c \<Rightarrow> gm_closed m @ [c])\<rparr>)"

definition revoke_permits :: "nat list \<Rightarrow> 'c gate_manager \<Rightarrow> 'c gate_manager" where
  "revoke_permits ps m = fold revoke_permit ps m"

definition apply_revocations :: "revocation list \<Rightarrow> nat \<Rightarrow> string \<Rightarrow> int \<Rightarrow> 'c gate_manager \<Rightarrow> 'c gate_manager" where
  "apply_revocations items sequence run now m =
     (if run \<noteq> [] \<and> gm_run m \<noteq> run then m
      else let (permits, m1) = revoke_items items sequence now m in revoke_permits permits m1)"

text \<open>All sources are revoked, those without connections removed.\<close>

definition close_source :: "nat \<Rightarrow> nat list \<times> 'c gate_manager \<Rightarrow> nat list \<times> 'c gate_manager" where
  "close_source i pm =
     (case pm of (permits, m) \<Rightarrow>
      let s = gm_source_heap m ! i; m1 = set_source i (s\<lparr>so_revoked := True\<rparr>) m in
      (permits @ so_permits s, if so_permits s = [] then remove_source i m1 else m1))"

definition close_all :: "'c gate_manager \<Rightarrow> 'c gate_manager" where
  "close_all m = (let (permits, m1) = fold close_source (map snd (gm_sources m)) ([], m) in revoke_permits permits m1)"

definition lose_session :: "string \<Rightarrow> 'c gate_manager \<Rightarrow> 'c gate_manager" where
  "lose_session run m =
     (if gm_run m \<noteq> run then m else close_all (m\<lparr>gm_ready := False, gm_run := [], gm_synced := 0\<rparr>))"

text \<open>A timer set for a deadline that has come: connections are closed one by one, the source stays
  until the last of them releases its permit.\<close>

definition expire_source :: "nat \<Rightarrow> int \<Rightarrow> int \<Rightarrow> 'c gate_manager \<Rightarrow> 'c gate_manager" where
  "expire_source i deadline now m =
     (let s = gm_source_heap m ! i in
      if map_of (gm_sources m) (so_key s) = Some i \<and> so_deadline s = Some deadline \<and> \<not> now < deadline then
        (if so_permits s = [] then remove_source i m else revoke_permits (so_permits s) m)
      else m)"

text \<open>\<open>SetUsers\<close>: users that left, or whose admission is under way, are barred from leases requested
  before, and their sources revoked.\<close>

definition set_users :: "int list \<Rightarrow> int \<Rightarrow> 'c gate_manager \<Rightarrow> 'c gate_manager" where
  "set_users ids now m =
     (let gone = filter (\<lambda>u. u \<notin> set ids)
            ((case gm_users m of None \<Rightarrow> [] | Some us \<Rightarrow> us) @ map (\<lambda>(k, _). fst k) (gm_flights m) @
             map (\<lambda>(k, _). fst k) (gm_sources m));
          items = map (\<lambda>(k, i). \<lparr>rv_run = [], rv_confirmed = 0, rv_user = fst k, rv_ip = snd k,
              rv_lease = so_lease (gm_source_heap m ! i)\<rparr>)
            (filter (\<lambda>(k, _). fst k \<notin> set ids) (gm_sources m));
          m1 = m\<lparr>gm_users := Some ids\<rparr>;
          m2 = (if gone = [] then m1
                else m1\<lparr>gm_seq := Suc (gm_seq m1),
                        gm_barriers := fold (\<lambda>u. AList.update u (Suc (gm_seq m1))) gone (gm_barriers m1)\<rparr>);
          (permits, m3) = revoke_items items 0 now m2 in
      revoke_permits permits m3)"

section \<open>Snapshots and synchronisation\<close>

definition report_source :: "int \<Rightarrow> source_state \<Rightarrow> reported_source" where
  "report_source now s = \<lparr>rs_user = fst (so_key s), rs_ip = snd (so_key s), rs_lease = so_lease s,
     rs_connect = so_sequence s, rs_age = max 0 ((now - so_connected s) div 1000000)\<rparr>"

definition take_snapshot :: "int \<Rightarrow> 'c gate_manager \<Rightarrow> gate_snapshot \<times> 'c gate_manager" where
  "take_snapshot now m =
     (let held = filter (\<lambda>s. so_permits s \<noteq> []) (map (\<lambda>(k, i). gm_source_heap m ! i) (gm_sources m)) in
      (\<lparr>sn_lease_cache = gm_lease_cache m, sn_run = gm_run m, sn_sequence = Suc (gm_seq m),
        sn_pending = sort (map (\<lambda>(k, i). fl_sequence (gm_flight_heap m ! i)) (gm_flights m)),
        sn_sources = sort_key rs_lease (map (report_source now) held),
        sn_retired = sort_key rv_lease (map (\<lambda>(l, r). rt_item r) (gm_retired m))\<rparr>,
       m\<lparr>gm_seq := Suc (gm_seq m)\<rparr>))"

definition same_snapshot :: "gate_snapshot option \<Rightarrow> gate_snapshot \<Rightarrow> bool" where
  "same_snapshot previous current =
     (case previous of
        None \<Rightarrow> False
      | Some p \<Rightarrow> sn_run p = sn_run current \<and> sn_pending p = sn_pending current \<and> sn_retired p = sn_retired current \<and>
          map (rs_age_update (\<lambda>_. 0)) (sn_sources p) = map (rs_age_update (\<lambda>_. 0)) (sn_sources current))"

definition confirm_snapshot :: "gate_snapshot \<Rightarrow> int \<Rightarrow> 'c gate_manager \<Rightarrow> 'c gate_manager" where
  "confirm_snapshot sn user m =
     (if \<not> gm_ready m \<or> gm_run m \<noteq> sn_run sn then m
      else m\<lparr>gm_synced := max (gm_synced m) (sn_sequence sn),
             gm_retired := filter (\<lambda>(l, r). \<not> (rt_sequence r \<le> sn_sequence sn \<and> (user = 0 \<or> rv_user (rt_item r) = user)))
               (gm_retired m)\<rparr>)"

text \<open>\<open>acceptLeases\<close>: revocations first, then the confirmed leases, then those the reply leaves out, then
  those the panel asks back because they are idle.\<close>

fun lease_deadlines ::
  "(string \<Rightarrow> string) \<Rightarrow> lease list \<Rightarrow> int \<Rightarrow> int \<Rightarrow> int \<Rightarrow> gate_error + (lease \<times> int) list" where
  "lease_deadlines public [] server_time started now = Inr []"
| "lease_deadlines public (l # ls) server_time started now =
     (case lease_deadline public l server_time started now of
        Inl e \<Rightarrow> Inl e
      | Inr d \<Rightarrow> (case lease_deadlines public ls server_time started now of Inl e \<Rightarrow> Inl e | Inr ds \<Rightarrow> Inr ((l, d) # ds)))"

definition present_lease :: "lease list \<Rightarrow> string \<Rightarrow> lease option" where
  "present_lease ls l = map_of (rev (map (\<lambda>x. (ls_lease x, x)) ls)) l"

definition idle_return :: "lease list \<Rightarrow> nat \<Rightarrow> 'c gate_manager \<Rightarrow> revocation \<Rightarrow> revocation option" where
  "idle_return leases sequence m item =
     (let k = (rv_user item, rv_ip item) in
      case present_lease leases (rv_lease item) of
        None \<Rightarrow> None
      | Some l \<Rightarrow>
          if ls_user l \<noteq> rv_user item \<or> ls_ip l \<noteq> rv_ip item \<or> has_key (gm_flights m) k then None
          else case source_at m k of
            None \<Rightarrow> Some (item\<lparr>rv_run := gm_run m, rv_confirmed := ls_confirmed l\<rparr>)
          | Some s \<Rightarrow>
              if so_lease s = rv_lease item \<and> so_permits s = [] \<and> so_confirmed_seq s \<le> sequence \<and> so_omission_seq s \<le> sequence
              then Some item else None)"

definition accept_leases ::
  "(string \<Rightarrow> string) \<Rightarrow> sync_reply \<Rightarrow> nat \<Rightarrow> int \<Rightarrow> int \<Rightarrow> 'c gate_manager \<Rightarrow> gate_error option \<times> 'c gate_manager" where
  "accept_leases public reply sequence started now m =
     (let m1 = apply_revocations (sy_revoked reply) sequence (sy_run reply) now m in
      case lease_deadlines public (sy_leases reply) (sy_server_time reply) started now of
        Inl e \<Rightarrow> (Some e, m1)
      | Inr leases \<Rightarrow>
          if gm_run m1 \<noteq> sy_run reply then (Some NotReady, m1)
          else let omitted = map (\<lambda>(k, i). \<lparr>rv_run = [], rv_confirmed = 0, rv_user = fst k, rv_ip = snd k,
                       rv_lease = so_lease (gm_source_heap m1 ! i)\<rparr>)
                     (filter (\<lambda>(k, i). so_omission_seq (gm_source_heap m1 ! i) \<le> sequence \<and>
                        present_lease (sy_leases reply) (so_lease (gm_source_heap m1 ! i)) = None) (gm_sources m1));
                   m2 = fold (\<lambda>(l, d) m. snd (install_lease l d sequence now m)) leases m1;
                   (permits, m3) = revoke_items omitted sequence now m2;
                   idle = List.map_filter (idle_return (sy_leases reply) sequence m3) (sy_idle reply);
                   (more, m4) = revoke_items idle sequence now m3 in
            (None, revoke_permits (permits @ more) m4))"

definition begin_session :: "string \<Rightarrow> 'c gate_manager \<Rightarrow> gate_error option \<times> 'c gate_manager" where
  "begin_session fresh m =
     (if gm_closing m \<or> gm_sources m \<noteq> [] \<or> gm_flights m \<noteq> [] then (Some NotReady, m)
      else let m1 = (if gm_run m = [] then m\<lparr>gm_run := fresh, gm_barriers := []\<rparr> else m) in
        (None, m1\<lparr>gm_confirmed := None, gm_base := 0\<rparr>))"

definition session_begun :: "string \<Rightarrow> int \<Rightarrow> string \<Rightarrow> bool \<Rightarrow> 'c gate_manager \<Rightarrow> gate_error option \<times> 'c gate_manager" where
  "session_begun run version reply_run cache m =
     (if version \<noteq> 1 \<or> reply_run \<noteq> run then (Some Invalid, m)
      else (None, m\<lparr>gm_ready := \<not> gm_closing m, gm_lease_cache := cache\<rparr>))"

record sync_call =
  sc_snapshot :: gate_snapshot
  sc_unchanged :: bool
  sc_started :: int

definition start_sync :: "bool \<Rightarrow> nat \<Rightarrow> int \<Rightarrow> 'c gate_manager \<Rightarrow> sync_call option \<times> 'c gate_manager" where
  "start_sync renewal required now m =
     (if \<not> gm_enabled m \<or> required \<noteq> 0 \<and> required \<le> gm_synced m then (None, m)
      else let (sn, m1) = take_snapshot now m in
        (Some \<lparr>sc_snapshot = sn, sc_unchanged = (renewal \<and> 0 < gm_base m1 \<and> same_snapshot (gm_confirmed m1) sn),
               sc_started = now\<rparr>, m1))"

definition finish_sync ::
  "(string \<Rightarrow> string) \<Rightarrow> sync_call \<Rightarrow> gate_error + sync_reply \<Rightarrow> bool \<Rightarrow> int \<Rightarrow> 'c gate_manager \<Rightarrow>
   gate_error option \<times> 'c gate_manager" where
  "finish_sync public call result cancelled now m =
     (let sn = sc_snapshot call in
      case result of
        Inl e \<Rightarrow>
          (Some e, if e = SessionLost then (lose_session (sn_run sn) m)\<lparr>gm_confirmed := None, gm_base := 0\<rparr> else m)
      | Inr reply \<Rightarrow>
          if cancelled then (Some Cancelled, apply_revocations (sy_revoked reply) (sn_sequence sn) (sn_run sn) now m)
          else if sy_run reply \<noteq> sn_run sn \<or> sy_sequence reply \<noteq> sn_sequence sn then (Some Invalid, m)
          else if sn_lease_cache sn \<and> \<not> sy_lease_cache reply then (Some Invalid, m)
          else let (e, m1) = (if sn_lease_cache sn
                              then accept_leases public reply (sn_sequence sn) (sc_started call) now m else (None, m)) in
            if e \<noteq> None then (e, m1)
            else let m2 = m1\<lparr>gm_confirmed := Some sn,
                             gm_base := (if sc_unchanged call then gm_base m1 else sn_sequence sn)\<rparr>;
                     m3 = confirm_snapshot sn 0 m2 in
              (None, if sn_lease_cache sn then m3 else apply_revocations (sy_revoked reply) 0 [] now m3))"

section \<open>Permits\<close>

definition give_permit :: "nat \<Rightarrow> int \<Rightarrow> 'c gate_manager \<Rightarrow> nat \<times> 'c gate_manager" where
  "give_permit i now m =
     (let s = gm_source_heap m ! i; p = length (gm_permits m) in
      (p, (set_source i (s\<lparr>so_sequence := Suc (gm_seq m), so_connected := now, so_permits := so_permits s @ [p]\<rparr>) m)
            \<lparr>gm_seq := Suc (gm_seq m),
             gm_permits := gm_permits m @ [\<lparr>pt_source = i, pt_closing = False, pt_close = None, pt_released = False\<rparr>]\<rparr>))"

definition release_permit :: "nat \<Rightarrow> int \<Rightarrow> 'c gate_manager \<Rightarrow> 'c gate_manager" where
  "release_permit p now m =
     (let t = gm_permits m ! p in
      if pt_released t then m
      else let i = pt_source t; s = gm_source_heap m ! i;
               s1 = s\<lparr>so_permits := filter (\<lambda>q. q \<noteq> p) (so_permits s)\<rparr>;
               m1 = (set_source i s1 m)\<lparr>gm_permits := (gm_permits m)[p := t\<lparr>pt_released := True\<rparr>]\<rparr> in
        if so_permits s1 = [] \<and> map_of (gm_sources m) (so_key s) = Some i \<and>
           (\<not> gm_lease_cache m \<or> so_revoked s \<or> gm_closing m \<or> \<not> live now s)
        then remove_source i m1 else m1)"

definition bind_permit :: "nat \<Rightarrow> 'c \<Rightarrow> 'c gate_manager \<Rightarrow> 'c gate_manager" where
  "bind_permit p c m =
     (let t = gm_permits m ! p in
      if pt_closing t \<or> pt_released t then m\<lparr>gm_closed := gm_closed m @ [c]\<rparr>
      else m\<lparr>gm_permits := (gm_permits m)[p := t\<lparr>pt_close := Some c\<rparr>]\<rparr>)"

definition permit_valid :: "nat \<Rightarrow> int \<Rightarrow> 'c gate_manager \<Rightarrow> bool" where
  "permit_valid p now m \<longleftrightarrow>
     (let t = gm_permits m ! p; s = gm_source_heap m ! pt_source t in
      \<not> pt_closing t \<and> \<not> pt_released t \<and> \<not> so_revoked s \<and> (\<not> gm_lease_cache m \<or> live now s))"

definition new_connection :: "nat \<Rightarrow> int \<Rightarrow> 'c gate_manager \<Rightarrow> bool \<times> 'c gate_manager" where
  "new_connection p now m =
     (let i = pt_source (gm_permits m ! p); s = gm_source_heap m ! i in
      if \<not> permit_valid p now m \<or> map_of (gm_sources m) (so_key s) \<noteq> Some i then (False, m)
      else (True, (set_source i (s\<lparr>so_sequence := Suc (gm_seq m), so_connected := now\<rparr>) m)\<lparr>gm_seq := Suc (gm_seq m)\<rparr>))"

section \<open>Admission\<close>

datatype acquire_outcome = NoGate | Refused gate_error | Granted nat | WaitFor nat

definition join_flight :: "source_key \<Rightarrow> 'c gate_manager \<Rightarrow> nat \<times> 'c gate_manager" where
  "join_flight k m =
     (case map_of (gm_flights m) k of
        Some f \<Rightarrow> (f, m)
      | None \<Rightarrow>
          let f = length (gm_flight_heap m) in
          (f, m\<lparr>gm_seq := Suc (gm_seq m),
                gm_flight_heap := gm_flight_heap m @ [\<lparr>fl_key = k, fl_sequence = Suc (gm_seq m), fl_run = gm_run m, fl_waiters = [],
                  fl_abandoned = False, fl_done = False, fl_err = None, fl_result = None\<rparr>],
                gm_flights := AList.update k f (gm_flights m)\<rparr>))"

definition acquire ::
  "(string \<Rightarrow> string) \<Rightarrow> int \<Rightarrow> string \<Rightarrow> bool \<Rightarrow> int \<Rightarrow> 'c gate_manager \<Rightarrow> acquire_outcome \<times> 'c gate_manager" where
  "acquire public user raw_ip cancelled now m =
     (let ip = public raw_ip; k = (user, ip) in
      if \<not> gm_enabled m \<or> user \<le> 0 \<or> ip = [] then (NoGate, m)
      else if cancelled then (Refused Cancelled, m)
      else if \<not> gm_ready m \<or> gm_closing m \<or> gm_stopped m then (Refused NotReady, m)
      else if \<not> user_listed m user then (Refused Revoked, m)
      else case (case map_of (gm_sources m) k of
                   None \<Rightarrow> None
                 | Some i \<Rightarrow>
                     let s = gm_source_heap m ! i in
                     if (gm_lease_cache m \<or> so_permits s \<noteq> []) \<and> \<not> so_revoked s \<and> (\<not> gm_lease_cache m \<or> live now s)
                     then Some i else None) of
             Some i \<Rightarrow> let (p, m1) = give_permit i now m in (Granted p, m1)
           | None \<Rightarrow>
               let (f, m1) = join_flight k m; w = length (gm_waiters m1); x = gm_flight_heap m1 ! f in
               (WaitFor w, m1\<lparr>gm_waiters := gm_waiters m1 @ [\<lparr>wt_flight = f, wt_key = k, wt_permit = None\<rparr>],
                             gm_flight_heap := (gm_flight_heap m1)[f := x\<lparr>fl_waiters := fl_waiters x @ [w]\<rparr>]\<rparr>))"

text \<open>A waiter that wakes up: its context ended, the manager stopped or its flight is done. \<open>None\<close> makes
  it ask again.\<close>

definition wake_waiter :: "nat \<Rightarrow> bool \<Rightarrow> int \<Rightarrow> 'c gate_manager \<Rightarrow> acquire_outcome option \<times> 'c gate_manager" where
  "wake_waiter w cancelled now m =
     (let x = gm_waiters m ! w; f = wt_flight x; fl = gm_flight_heap m ! f;
          rest = filter (\<lambda>v. v \<noteq> w) (fl_waiters fl);
          abandoned = fl_abandoned fl \<or> rest = [] \<and> map_of (gm_flights m) (wt_key x) = Some f;
          m1 = m\<lparr>gm_flight_heap := (gm_flight_heap m)[f := fl\<lparr>fl_waiters := rest, fl_abandoned := abandoned\<rparr>]\<rparr>;
          release = (\<lambda>m. case wt_permit x of None \<Rightarrow> m | Some p \<Rightarrow> release_permit p now m) in
      if cancelled then (Some (Refused Cancelled), release m1)
      else if gm_closing m \<or> gm_stopped m then (Some (Refused NotReady), release m1)
      else if abandoned then (None, m1)
      else (Some (case (wt_permit x, fl_err fl) of
                    (_, Some e) \<Rightarrow> Refused e
                  | (Some p, None) \<Rightarrow> Granted p
                  | (None, None) \<Rightarrow> NoGate), m1))"

definition set_result :: "nat \<Rightarrow> gate_error + string \<Rightarrow> 'c gate_manager \<Rightarrow> 'c gate_manager" where
  "set_result f r m = m\<lparr>gm_flight_heap := (gm_flight_heap m)[f := (gm_flight_heap m ! f)\<lparr>fl_result := Some r\<rparr>]\<rparr>"

text \<open>One attempt of \<open>requestCached\<close> has returned; when the panel says to wait nothing is stored and
  another attempt follows.\<close>

definition cached_attempt ::
  "(string \<Rightarrow> string) \<Rightarrow> nat \<Rightarrow> gate_snapshot \<Rightarrow> int \<Rightarrow> gate_error + admission_reply \<Rightarrow> bool \<Rightarrow> int \<Rightarrow> 'c gate_manager \<Rightarrow> 'c gate_manager" where
  "cached_attempt public f sn started result cancelled now m =
     (let fl = gm_flight_heap m ! f; (user, ip) = fl_key fl in
      case result of
        Inl e \<Rightarrow> set_result f (Inl e) (if e = SessionLost then lose_session (fl_run fl) m else m)
      | Inr reply \<Rightarrow>
          if cancelled then set_result f (Inl Cancelled) m
          else case ar_sync reply of
            None \<Rightarrow> set_result f (Inl Invalid) m
          | Some sync \<Rightarrow>
              if sy_run sync \<noteq> sn_run sn \<or> sy_sequence sync \<noteq> sn_sequence sn then set_result f (Inl Invalid) m
              else let m1 = confirm_snapshot sn user
                         (apply_revocations (sy_revoked sync @ ar_revoked reply) (sn_sequence sn) (sn_run sn) now m) in
                (case ar_status reply of
                   Allowed \<Rightarrow>
                     let item = \<lparr>ls_confirmed = ar_confirmed reply, ls_user = user, ls_ip = ip, ls_lease = ar_lease reply,
                           ls_confirmed_at = ar_confirmed_at reply, ls_expires_at = ar_expires_at reply\<rparr> in
                     (case lease_deadline public item (ar_server_time reply) started now of
                        Inl e \<Rightarrow> set_result f (Inl e) m1
                      | Inr deadline \<Rightarrow>
                          if gm_run m1 \<noteq> fl_run fl then set_result f (Inl Revoked) m1
                          else let (installed, m2) = install_lease item deadline (sn_sequence sn) now m1 in
                            if \<not> installed then set_result f (Inl Revoked) m2
                            else let m3 = m2\<lparr>gm_seq := Suc (gm_seq m2)\<rparr>;
                                     m4 = (case map_of (gm_sources m3) (user, ip) of
                                        None \<Rightarrow> m3
                                      | Some i \<Rightarrow> set_source i ((gm_source_heap m3 ! i)\<lparr>so_omission_seq := gm_seq m3\<rparr>) m3) in
                              set_result f (Inr (ar_lease reply)) m4)
                 | DeniedStatus \<Rightarrow> set_result f (Inl Denied) m1
                 | Waiting \<Rightarrow> m1
                 | OtherStatus \<Rightarrow> set_result f (Inl Invalid) m1))"

text \<open>An attempt under the protocol without leases: \<open>sn\<close> is the snapshot sent along, if any.\<close>

definition plain_attempt ::
  "nat \<Rightarrow> gate_snapshot option \<Rightarrow> gate_error + admission_reply \<Rightarrow> bool \<Rightarrow> int \<Rightarrow> 'c gate_manager \<Rightarrow> 'c gate_manager" where
  "plain_attempt f sn result cancelled now m =
     (let fl = gm_flight_heap m ! f; (user, ip) = fl_key fl in
      case result of
        Inl e \<Rightarrow> set_result f (Inl e) (if e = SessionLost then lose_session (fl_run fl) m else m)
      | Inr reply \<Rightarrow>
          if cancelled then set_result f (Inl Cancelled) m
          else let (ok, m1) = (case sn of
                      None \<Rightarrow> (True, m)
                    | Some s \<Rightarrow>
                        (case ar_sync reply of
                           None \<Rightarrow> (False, m)
                         | Some sync \<Rightarrow>
                             if sy_run sync \<noteq> sn_run s \<or> sy_sequence sync \<noteq> sn_sequence s then (False, m)
                             else (True, apply_revocations (sy_revoked sync) 0 [] now (confirm_snapshot s user m)))) in
            if \<not> ok then set_result f (Inl Invalid) m1
            else (case ar_status reply of
                    Allowed \<Rightarrow> set_result f (if valid_lease (ar_lease reply) then Inr (ar_lease reply) else Inl Invalid) m1
                  | DeniedStatus \<Rightarrow> set_result f (Inl Denied) m1
                  | Waiting \<Rightarrow> apply_revocations (ar_revoked reply) 0 [] now m1
                  | OtherStatus \<Rightarrow> set_result f (Inl Invalid) m1))"

definition grant_waiter :: "source_key \<Rightarrow> string \<Rightarrow> (nat \<Rightarrow> bool) \<Rightarrow> int \<Rightarrow> nat \<Rightarrow> 'c gate_manager \<Rightarrow> 'c gate_manager" where
  "grant_waiter k l expired now w m =
     (if expired w then m
      else let (i, m1) = (case map_of (gm_sources m) k of Some i \<Rightarrow> (i, m) | None \<Rightarrow> add_source k l m);
               (p, m2) = give_permit i now m1 in
        m2\<lparr>gm_waiters := (gm_waiters m2)[w := (gm_waiters m2 ! w)\<lparr>wt_permit := Some p\<rparr>]\<rparr>)"

definition admission_error :: "nat \<Rightarrow> bool \<Rightarrow> int \<Rightarrow> gate_error + string \<Rightarrow> 'c gate_manager \<Rightarrow> gate_error option" where
  "admission_error f cancelled now result m =
     (let fl = gm_flight_heap m ! f; k = fl_key fl in
      case result of
        Inl e \<Rightarrow> Some e
      | Inr l \<Rightarrow>
          if \<not> user_listed m (fst k) then Some Revoked
          else if \<not> gm_ready m \<or> gm_closing m \<or> gm_run m \<noteq> fl_run fl \<or> gm_stopped m then Some NotReady
          else if cancelled \<or> fl_abandoned fl then Some Cancelled
          else if \<not> gm_lease_cache m \<and> map_of (gm_revoked m) l \<noteq> None then Some Revoked
          else if (case source_at m k of None \<Rightarrow> False | Some s \<Rightarrow> so_lease s \<noteq> l \<and> so_permits s \<noteq> []) then Some Revoked
          else if gm_lease_cache m \<and>
            (case source_at m k of None \<Rightarrow> True | Some s \<Rightarrow> so_lease s \<noteq> l \<or> so_revoked s \<or> \<not> live now s) then Some Revoked
          else None)"

definition finish_admission :: "nat \<Rightarrow> bool \<Rightarrow> (nat \<Rightarrow> bool) \<Rightarrow> int \<Rightarrow> 'c gate_manager \<Rightarrow> 'c gate_manager" where
  "finish_admission f cancelled expired now m =
     (let fl = gm_flight_heap m ! f in
      case fl_result fl of
        None \<Rightarrow> m
      | Some result \<Rightarrow>
          if fl_done fl then m
          else let e = admission_error f cancelled now result m;
                   l = (case result of Inr l \<Rightarrow> l | Inl _ \<Rightarrow> []);
                   m1 = (if e = None then fold (grant_waiter (fl_key fl) l expired now) (fl_waiters fl) m else m);
                   x = gm_flight_heap m1 ! f in
            m1\<lparr>gm_flights := AList.delete (fl_key fl) (gm_flights m1),
               gm_flight_heap := (gm_flight_heap m1)[f := x\<lparr>fl_err := e, fl_done := True\<rparr>]\<rparr>)"

definition stop_manager :: "'c gate_manager \<Rightarrow> 'c gate_manager" where
  "stop_manager m = (if \<not> gm_enabled m then m else close_all (m\<lparr>gm_closing := True, gm_ready := False, gm_stopped := True\<rparr>))"

definition enable_manager :: "'c gate_manager \<Rightarrow> 'c gate_manager" where
  "enable_manager m = m\<lparr>gm_enabled := True\<rparr>"

section \<open>All events\<close>

text \<open>What can happen to the manager, in any order. Calls under way to the panel are kept in
  \<open>gw_calls\<close> from the step that builds their snapshot on; an answer names its call. Steps on objects that do not
  exist, and answers for a flight that has its result, do not happen.\<close>

record 'c gate_world =
  gw_manager :: "'c gate_manager"
  gw_calls :: "sync_call list"

datatype 'c gate_op =
    EnableOp
  | BeginOp string
  | BegunOp string int string bool
  | AcquireOp int string bool int
  | WakeOp nat bool int
  | BindOp nat 'c
  | ReleaseOp nat int
  | ConnectOp nat int
  | UsersOp "int list" int
  | RevokeOp "revocation list" int
  | ExpireOp nat int int
  | SyncOp bool nat int
  | SyncedOp nat "gate_error + sync_reply" bool int
  | SnapshotOp int
  | CachedOp nat nat "gate_error + admission_reply" bool int
  | PlainOp nat "nat option" "gate_error + admission_reply" bool int
  | AdmitOp nat bool "nat list" int
  | StopOp

definition awaiting :: "'c gate_manager \<Rightarrow> nat \<Rightarrow> bool" where
  "awaiting m f = (f < length (gm_flight_heap m) \<and> fl_result (gm_flight_heap m ! f) = None)"

fun manager_step :: "(string \<Rightarrow> string) \<Rightarrow> sync_call list \<Rightarrow> 'c gate_op \<Rightarrow> 'c gate_manager \<Rightarrow> 'c gate_manager" where
  "manager_step public calls EnableOp m = enable_manager m"
| "manager_step public calls (BeginOp fresh) m = snd (begin_session fresh m)"
| "manager_step public calls (BegunOp run version reply_run cache) m = snd (session_begun run version reply_run cache m)"
| "manager_step public calls (AcquireOp user ip cancelled now) m = snd (acquire public user ip cancelled now m)"
| "manager_step public calls (WakeOp w cancelled now) m =
     (if w < length (gm_waiters m) then snd (wake_waiter w cancelled now m) else m)"
| "manager_step public calls (BindOp p c) m = (if p < length (gm_permits m) then bind_permit p c m else m)"
| "manager_step public calls (ReleaseOp p now) m = (if p < length (gm_permits m) then release_permit p now m else m)"
| "manager_step public calls (ConnectOp p now) m = (if p < length (gm_permits m) then snd (new_connection p now m) else m)"
| "manager_step public calls (UsersOp ids now) m = set_users ids now m"
| "manager_step public calls (RevokeOp items now) m = apply_revocations items 0 [] now m"
| "manager_step public calls (ExpireOp i deadline now) m =
     (if i < length (gm_source_heap m) then expire_source i deadline now m else m)"
| "manager_step public calls (SyncedOp n result cancelled now) m =
     (if n < length calls then snd (finish_sync public (calls ! n) result cancelled now m) else m)"
| "manager_step public calls (CachedOp f n result cancelled now) m =
     (if awaiting m f \<and> n < length calls
      then cached_attempt public f (sc_snapshot (calls ! n)) (sc_started (calls ! n)) result cancelled now m else m)"
| "manager_step public calls (PlainOp f n result cancelled now) m =
     (if awaiting m f \<and> (case n of None \<Rightarrow> True | Some n' \<Rightarrow> n' < length calls)
      then plain_attempt f (map_option (\<lambda>n'. sc_snapshot (calls ! n')) n) result cancelled now m else m)"
| "manager_step public calls (AdmitOp f cancelled expired now) m =
     (if f < length (gm_flight_heap m) then finish_admission f cancelled (\<lambda>w. w \<in> set expired) now m else m)"
| "manager_step public calls StopOp m = stop_manager m"
| "manager_step public calls (SyncOp renewal required now) m = snd (start_sync renewal required now m)"
| "manager_step public calls (SnapshotOp now) m = snd (take_snapshot now m)"

fun new_calls :: "'c gate_op \<Rightarrow> 'c gate_manager \<Rightarrow> sync_call list" where
  "new_calls (SyncOp renewal required now) m =
     (case fst (start_sync renewal required now m) of None \<Rightarrow> [] | Some call \<Rightarrow> [call])"
| "new_calls (SnapshotOp now) m = [\<lparr>sc_snapshot = fst (take_snapshot now m), sc_unchanged = False, sc_started = now\<rparr>]"
| "new_calls op m = []"

definition gate_step :: "(string \<Rightarrow> string) \<Rightarrow> 'c gate_op \<Rightarrow> 'c gate_world \<Rightarrow> 'c gate_world" where
  "gate_step public op w = \<lparr>gw_manager = manager_step public (gw_calls w) op (gw_manager w),
     gw_calls = gw_calls w @ new_calls op (gw_manager w)\<rparr>"

definition gate_run :: "(string \<Rightarrow> string) \<Rightarrow> 'c gate_op list \<Rightarrow> 'c gate_world" where
  "gate_run public ops = fold (gate_step public) ops \<lparr>gw_manager = new_gate_manager, gw_calls = []\<rparr>"

section \<open>Permits belong to registered sources of listed users\<close>

definition entry_ok :: "int list option \<Rightarrow> source_key \<Rightarrow> source_state \<Rightarrow> bool" where
  "entry_ok users k s \<longleftrightarrow> so_key s = k \<and> 0 < fst k \<and> valid_lease (so_lease s) \<and>
     (so_revoked s \<or> (case users of None \<Rightarrow> True | Some us \<Rightarrow> fst k \<in> set us))"

definition registered_ok :: "int list option \<Rightarrow> (source_key, nat) go_map \<Rightarrow> source_state list \<Rightarrow> bool" where
  "registered_ok users sources heap \<longleftrightarrow> distinct_keys sources \<and>
     (\<forall>k i. map_of sources k = Some i \<longrightarrow> i < length heap \<and> entry_ok users k (heap ! i))"

definition held_ok :: "(source_key, nat) go_map \<Rightarrow> source_state list \<Rightarrow> 'c permit list \<Rightarrow> bool" where
  "held_ok sources heap permits \<longleftrightarrow> (\<forall>i < length heap.
     (\<forall>p \<in> set (so_permits (heap ! i)). p < length permits \<and> pt_source (permits ! p) = i \<and> \<not> pt_released (permits ! p)) \<and>
     (so_permits (heap ! i) \<noteq> [] \<longrightarrow> map_of sources (so_key (heap ! i)) = Some i))"

definition holders_ok :: "source_state list \<Rightarrow> 'c permit list \<Rightarrow> bool" where
  "holders_ok heap permits \<longleftrightarrow> (\<forall>p < length permits. pt_source (permits ! p) < length heap \<and>
     (\<not> pt_released (permits ! p) \<longrightarrow> p \<in> set (so_permits (heap ! pt_source (permits ! p)))))"

definition core_ok ::
  "int list option \<Rightarrow> (source_key, nat) go_map \<Rightarrow> source_state list \<Rightarrow> 'c permit list \<Rightarrow> bool" where
  "core_ok users sources heap permits \<longleftrightarrow>
     registered_ok users sources heap \<and> held_ok sources heap permits \<and> holders_ok heap permits"

definition flights_ok :: "flight list \<Rightarrow> bool" where
  "flights_ok fs = (\<forall>f \<in> set fs. 0 < fst (fl_key f) \<and> (case fl_result f of Some (Inr l) \<Rightarrow> valid_lease l | _ \<Rightarrow> True))"

definition waiters_ok :: "waiter list \<Rightarrow> nat \<Rightarrow> bool" where
  "waiters_ok ws n = (\<forall>w \<in> set ws. case wt_permit w of None \<Rightarrow> True | Some p \<Rightarrow> p < n)"

definition gate_with :: "int list option \<Rightarrow> 'c gate_manager \<Rightarrow> bool" where
  "gate_with users m \<longleftrightarrow> core_ok users (gm_sources m) (gm_source_heap m) (gm_permits m) \<and>
     flights_ok (gm_flight_heap m) \<and> waiters_ok (gm_waiters m) (length (gm_permits m))"

definition gate_inv :: "'c gate_manager \<Rightarrow> bool" where
  "gate_inv m = gate_with (gm_users m) m"

text \<open>Sources that are alike for the invariant.\<close>

definition same_source :: "source_state \<Rightarrow> source_state \<Rightarrow> bool" where
  "same_source s s' \<longleftrightarrow> so_key s' = so_key s \<and> so_lease s' = so_lease s \<and> so_permits s' = so_permits s \<and>
     (so_revoked s \<longrightarrow> so_revoked s')"

lemma nth_update: "(xs[i := x]) ! j = (if j = i \<and> i < length xs then x else xs ! j)"
  by (cases "i < length xs") (auto simp: nth_list_update list_update_beyond)

lemma core_registered:
  assumes "core_ok us srcs h ps" "map_of srcs k = Some i"
  shows "i < length h" "entry_ok us k (h ! i)" "so_key (h ! i) = k"
  using assms unfolding core_ok_def registered_ok_def entry_ok_def by blast+

lemma core_held:
  assumes "core_ok us srcs h ps" "i < length h" "p \<in> set (so_permits (h ! i))"
  shows "p < length ps" "pt_source (ps ! p) = i" "\<not> pt_released (ps ! p)" "map_of srcs (so_key (h ! i)) = Some i"
proof -
  show "p < length ps" "pt_source (ps ! p) = i" "\<not> pt_released (ps ! p)"
    using assms unfolding core_ok_def held_ok_def by blast+
  have "so_permits (h ! i) \<noteq> []" using assms(3) by auto
  then show "map_of srcs (so_key (h ! i)) = Some i" using assms unfolding core_ok_def held_ok_def by blast
qed

lemma core_permit:
  assumes "core_ok us srcs h ps" "p < length ps"
  shows "pt_source (ps ! p) < length h" "\<not> pt_released (ps ! p) \<Longrightarrow> p \<in> set (so_permits (h ! pt_source (ps ! p)))"
  using assms unfolding core_ok_def holders_ok_def by blast+

lemma registered_update:
  assumes "registered_ok us srcs h" "so_key x = so_key (h ! i)" "so_lease x = so_lease (h ! i)"
    "so_revoked (h ! i) \<Longrightarrow> so_revoked x"
  shows "registered_ok us srcs (h[i := x])"
proof -
  have e: "entry_ok us k (h ! i) \<Longrightarrow> entry_ok us k x" for k using assms(2-4) unfolding entry_ok_def by auto
  show ?thesis using assms(1) e unfolding registered_ok_def nth_update length_list_update by metis
qed

lemma registered_set_source:
  "registered_ok us srcs h \<Longrightarrow> same_source (h ! i) x \<Longrightarrow> registered_ok us srcs (h[i := x])"
  by (rule registered_update) (simp_all add: same_source_def)

lemma held_set_source:
  assumes "held_ok srcs h ps" "same_source (h ! i) x"
  shows "held_ok srcs (h[i := x]) ps"
  using assms unfolding held_ok_def same_source_def by (simp add: nth_update)

lemma holders_set_source:
  assumes "holders_ok h ps" "same_source (h ! i) x"
  shows "holders_ok (h[i := x]) ps"
  using assms unfolding holders_ok_def same_source_def by (auto simp: nth_update)

lemma core_set_source:
  "core_ok us srcs h ps \<Longrightarrow> same_source (h ! i) x \<Longrightarrow> core_ok us srcs (h[i := x]) ps"
  unfolding core_ok_def by (simp add: registered_set_source held_set_source holders_set_source)

lemma core_delete:
  assumes core: "core_ok us srcs h ps" and "map_of srcs k = Some i" "so_permits (h ! i) = []"
  shows "core_ok us (AList.delete k srcs) h ps"
proof -
  have "registered_ok us (AList.delete k srcs) h"
    using core unfolding core_ok_def registered_ok_def by (simp add: map_of_delete)
  moreover have "held_ok (AList.delete k srcs) h ps"
    unfolding held_ok_def
  proof (intro allI impI conjI)
    fix j assume j: "j < length h"
    show "\<forall>p\<in>set (so_permits (h ! j)). p < length ps \<and> pt_source (ps ! p) = j \<and> \<not> pt_released (ps ! p)"
      using core j unfolding core_ok_def held_ok_def by blast
    assume ne: "so_permits (h ! j) \<noteq> []"
    then have reg: "map_of srcs (so_key (h ! j)) = Some j"
      using core j unfolding core_ok_def held_ok_def by blast
    with assms ne have "so_key (h ! j) \<noteq> k" by auto
    then show "map_of (AList.delete k srcs) (so_key (h ! j)) = Some j" using reg by (simp add: map_of_delete)
  qed
  ultimately show ?thesis using core unfolding core_ok_def by blast
qed

lemma core_add:
  assumes core: "core_ok us srcs h ps" and new: "map_of srcs k = None" "entry_ok us k s" "so_permits s = []"
  shows "core_ok us (AList.update k (length h) srcs) (h @ [s]) ps"
proof -
  have "registered_ok us (AList.update k (length h) srcs) (h @ [s])"
    unfolding registered_ok_def
  proof (intro conjI allI impI)
    show "distinct_keys (AList.update k (length h) srcs)" using core unfolding core_ok_def registered_ok_def by simp
    fix k' i assume *: "map_of (AList.update k (length h) srcs) k' = Some i"
    show "i < length (h @ [s])" "entry_ok us k' ((h @ [s]) ! i)"
      using * new core_registered(1, 2) [OF core, of k' i] by (auto simp: map_of_update nth_append split: if_splits)
  qed
  moreover have "held_ok (AList.update k (length h) srcs) (h @ [s]) ps"
    unfolding held_ok_def
  proof (intro allI impI)
    fix j assume j: "j < length (h @ [s])"
    show "(\<forall>p\<in>set (so_permits ((h @ [s]) ! j)). p < length ps \<and> pt_source (ps ! p) = j \<and> \<not> pt_released (ps ! p)) \<and>
      (so_permits ((h @ [s]) ! j) \<noteq> [] \<longrightarrow> map_of (AList.update k (length h) srcs) (so_key ((h @ [s]) ! j)) = Some j)"
    proof (cases "j < length h")
      case True
      with core new(1) show ?thesis
        unfolding core_ok_def held_ok_def by (auto simp: nth_append map_of_update)
    next
      case False
      with j new(3) show ?thesis by (simp add: less_Suc_eq nth_append)
    qed
  qed
  moreover have "holders_ok (h @ [s]) ps"
    using core unfolding core_ok_def holders_ok_def by (simp add: nth_append less_SucI)
  ultimately show ?thesis unfolding core_ok_def by blast
qed

lemma core_users:
  assumes "core_ok us srcs h ps"
    and "\<And>k i. map_of srcs k = Some i \<Longrightarrow> so_revoked (h ! i) \<or> (case us' of None \<Rightarrow> True | Some us \<Rightarrow> fst k \<in> set us)"
  shows "core_ok us' srcs h ps"
  using assms unfolding core_ok_def registered_ok_def entry_ok_def by blast

text \<open>Changes of a permit that leave its source and its release alone.\<close>

lemma core_set_permit:
  assumes "core_ok us srcs h ps" "pt_source x = pt_source (ps ! p)" "pt_released x = pt_released (ps ! p)"
  shows "core_ok us srcs h (ps[p := x])"
  using assms unfolding core_ok_def held_ok_def holders_ok_def by (simp add: nth_update)

lemma gate_with_core: "gate_with us m \<Longrightarrow> core_ok us (gm_sources m) (gm_source_heap m) (gm_permits m)"
  by (simp add: gate_with_def)

lemma gate_inv_core: "gate_inv m \<Longrightarrow> core_ok (gm_users m) (gm_sources m) (gm_source_heap m) (gm_permits m)"
  by (simp add: gate_inv_def gate_with_def)

lemma with_set_source: "gate_with us m \<Longrightarrow> same_source (gm_source_heap m ! i) x \<Longrightarrow> gate_with us (set_source i x m)"
  by (simp add: gate_with_def set_source_def core_set_source)

lemma inv_set_source: "gate_inv m \<Longrightarrow> same_source (gm_source_heap m ! i) x \<Longrightarrow> gate_inv (set_source i x m)"
  unfolding gate_inv_def using with_set_source [of "gm_users m" m i x] by (simp add: set_source_def)

lemma retire_fields [simp]:
  "gm_users (retire r m) = gm_users m" "gm_sources (retire r m) = gm_sources m"
  "gm_source_heap (retire r m) = gm_source_heap m" "gm_permits (retire r m) = gm_permits m"
  "gm_flight_heap (retire r m) = gm_flight_heap m" "gm_waiters (retire r m) = gm_waiters m"
  by (simp_all add: retire_def Let_def)

lemma with_retire [simp]: "gate_with us (retire r m) = gate_with us m"
  by (simp add: gate_with_def)

lemma inv_retire [simp]: "gate_inv (retire r m) = gate_inv m"
  by (simp add: gate_inv_def)

lemma with_remove:
  assumes "gate_with us m" "map_of (gm_sources m) (so_key (gm_source_heap m ! i)) = Some j" "so_permits (gm_source_heap m ! j) = []"
  shows "gate_with us (remove_source i m)"
  using assms core_delete [OF gate_with_core [OF assms(1)] assms(2, 3)]
  by (simp add: remove_source_def Let_def) (simp add: gate_with_def)

lemma inv_remove:
  assumes "gate_inv m" "map_of (gm_sources m) (so_key (gm_source_heap m ! i)) = Some j" "so_permits (gm_source_heap m ! j) = []"
  shows "gate_inv (remove_source i m)"
  using with_remove [OF _ assms(2, 3)] assms(1) by (simp add: gate_inv_def) (simp add: remove_source_def Let_def)

lemma inv_add:
  assumes "gate_inv m" "map_of (gm_sources m) k = None" "0 < fst k" "valid_lease l" "user_listed m (fst k)"
  shows "gate_inv (snd (add_source k l m))"
proof -
  have "entry_ok (gm_users m) k (new_source (gm_run m) k l)"
    using assms by (simp add: entry_ok_def new_source_def user_listed_def)
  from core_add [OF gate_inv_core [OF assms(1)] assms(2) this]
  show ?thesis using assms(1) by (simp add: add_source_def Let_def gate_inv_def gate_with_def new_source_def)
qed

lemma inv_write_lease: "gate_inv m \<Longrightarrow> gate_inv (write_lease i item d n m)"
proof -
  assume "gate_inv m"
  then have "gate_inv (set_source i ((gm_source_heap m ! i)
        \<lparr>so_confirmed_at := ls_confirmed_at item, so_expires_at := ls_expires_at item, so_confirmed_seq := n,
         so_lease_seq := ls_confirmed item, so_omission_seq := n, so_deadline := Some d\<rparr>) m)"
    by (rule inv_set_source) (simp add: same_source_def)
  then show ?thesis unfolding write_lease_def by (simp add: gate_inv_def gate_with_def)
qed

text \<open>A lease accepted for installation: of a positive user and well formed.\<close>

definition lease_ok :: "lease \<Rightarrow> bool" where
  "lease_ok item \<longleftrightarrow> 0 < ls_user item \<and> valid_lease (ls_lease item)"

lemma lease_deadline_ok: "lease_deadline public item st started now = Inr d \<Longrightarrow> lease_ok item"
  unfolding lease_deadline_def lease_ok_def by (auto simp: Let_def split: if_splits)

lemma lease_deadlines_ok: "lease_deadlines public ls st started now = Inr ds \<Longrightarrow> x \<in> set ds \<Longrightarrow> lease_ok (fst x)"
proof (induction ls arbitrary: ds)
  case (Cons l ls)
  then show ?case using lease_deadline_ok [of public l st started now]
    by (auto split: sum.splits)
qed simp

lemma inv_fresh:
  assumes "gate_inv m" "map_of (gm_sources m) (ls_user item, ls_ip item) = None" "lease_ok item" "user_listed m (ls_user item)"
  shows "gate_inv (snd (let (i, m1) = add_source (ls_user item, ls_ip item) (ls_lease item) m in
     (True, write_lease i item d n m1)))"
  using inv_write_lease [OF inv_add [OF assms(1, 2)], of "ls_lease item"] assms
  by (simp add: case_prod_unfold lease_ok_def Let_def)

lemma inv_install:
  assumes inv: "gate_inv m" and item: "lease_ok item"
  shows "gate_inv (snd (install_lease item d n now m))"
proof (cases "gm_closing m \<or> \<not> gm_ready m \<or> \<not> user_listed m (ls_user item)")
  case True
  then show ?thesis using inv by (simp add: install_lease_def Let_def)
next
  case False
  then have listed: "user_listed m (ls_user item)" by simp
  let ?k = "(ls_user item, ls_ip item)"
  show ?thesis
  proof (cases "map_of (gm_sources m) ?k")
    case None
    then show ?thesis using inv inv_fresh [OF inv None item listed] by (simp add: install_lease_def Let_def)
  next
    case (Some i)
    let ?s = "gm_source_heap m ! i"
    note at = core_registered [OF gate_inv_core [OF inv] Some]
    have same: "gate_inv (set_source i (?s\<lparr>so_confirmed_seq := a, so_lease_seq := b, so_omission_seq := c\<rparr>) m)" for a b c
      by (rule inv_set_source [OF inv]) (simp add: same_source_def)
    have fresh: "gate_inv (snd (let (j, m1) = add_source ?k (ls_lease item) (remove_source i m) in
        (True, write_lease j item d n m1)))" if "so_permits ?s = []"
    proof (rule inv_fresh [OF _ _ item])
      show "gate_inv (remove_source i m)" using inv_remove [OF inv] at(3) Some that by simp
      show "map_of (gm_sources (remove_source i m)) ?k = None"
        using at(3) by (simp add: remove_source_def Let_def map_of_delete)
      show "user_listed (remove_source i m) (ls_user item)"
        using listed by (simp add: user_listed_def remove_source_def Let_def)
    qed
    show ?thesis
      using inv same fresh inv_write_lease [OF inv] Some by (simp add: install_lease_def Let_def)
  qed
qed

lemma with_revoke_item:
  assumes inv: "gate_with us (snd pm)"
  shows "gate_with us (snd (revoke_item item n now pm))"
proof -
  obtain ps m where pm: "pm = (ps, m)" by (cases pm)
  have m: "gate_with us m" using inv pm by simp
  define m1 where "m1 r = m\<lparr>gm_seq := Suc (gm_seq m), gm_revoked := r\<rparr>" for r
  have m1: "gate_with us (m1 r)" for r using m by (simp add: m1_def gate_with_def)
  have fields: "gm_sources (m1 r) = gm_sources m" "gm_source_heap (m1 r) = gm_source_heap m" for r
    by (simp_all add: m1_def)
  show ?thesis
  proof (cases "map_of (gm_sources m) (rv_user item, rv_ip item)")
    case None
    then show ?thesis using m m1
      by (simp add: pm revoke_item_def Let_def m1_def [symmetric])
  next
    case (Some i)
    let ?s = "gm_source_heap m ! i"
    note at = core_registered [OF gate_with_core [OF m] Some]
    have marked: "gate_with us (set_source i (?s\<lparr>so_revoked := True\<rparr>) (m1 r))" for r
      by (rule with_set_source [OF m1]) (simp add: same_source_def fields)
    have "gate_with us (remove_source i (set_source i (?s\<lparr>so_revoked := True\<rparr>) (m1 r)))" if "so_permits ?s = []" for r
      by (rule with_remove [OF marked, of _ _ i]) (use that at Some in \<open>simp_all add: set_source_def fields nth_update\<close>)
    then show ?thesis using Some m m1 marked
      by (simp add: pm revoke_item_def Let_def m1_def [symmetric] fields)
  qed
qed

text \<open>What revoking does: sources only disappear, and those that hold permits do not.\<close>

definition revoking :: "nat list \<times> 'c gate_manager \<Rightarrow> nat list \<times> 'c gate_manager \<Rightarrow> bool" where
  "revoking pm pm' \<longleftrightarrow>
     (\<forall>k i. map_of (gm_sources (snd pm')) k = Some i \<longrightarrow> map_of (gm_sources (snd pm)) k = Some i) \<and>
     (\<forall>k i. map_of (gm_sources (snd pm)) k = Some i \<longrightarrow> so_permits (gm_source_heap (snd pm) ! i) \<noteq> [] \<longrightarrow>
        map_of (gm_sources (snd pm')) k = Some i) \<and>
     (\<forall>i. same_source (gm_source_heap (snd pm) ! i) (gm_source_heap (snd pm') ! i)) \<and>
     set (fst pm) \<subseteq> set (fst pm') \<and> gm_users (snd pm') = gm_users (snd pm) \<and>
     gm_permits (snd pm') = gm_permits (snd pm) \<and> gm_closed (snd pm') = gm_closed (snd pm) \<and>
     gm_flight_heap (snd pm') = gm_flight_heap (snd pm) \<and> gm_waiters (snd pm') = gm_waiters (snd pm)"

lemma same_source_trans: "same_source a b \<Longrightarrow> same_source b c \<Longrightarrow> same_source a c"
  unfolding same_source_def by auto

lemma revoking_refl [simp]: "revoking pm pm"
  by (simp add: revoking_def same_source_def)

lemma revokingD:
  assumes "revoking a b"
  shows "map_of (gm_sources (snd b)) k = Some i \<Longrightarrow> map_of (gm_sources (snd a)) k = Some i"
    "map_of (gm_sources (snd a)) k = Some i \<Longrightarrow> so_permits (gm_source_heap (snd a) ! i) \<noteq> [] \<Longrightarrow>
       map_of (gm_sources (snd b)) k = Some i"
    "same_source (gm_source_heap (snd a) ! i) (gm_source_heap (snd b) ! i)"
    "set (fst a) \<subseteq> set (fst b)" "gm_users (snd b) = gm_users (snd a)" "gm_permits (snd b) = gm_permits (snd a)"
    "gm_closed (snd b) = gm_closed (snd a)" "gm_flight_heap (snd b) = gm_flight_heap (snd a)"
    "gm_waiters (snd b) = gm_waiters (snd a)"
  using assms unfolding revoking_def by blast+

lemma revoking_trans:
  assumes ab: "revoking a b" and bc: "revoking b c"
  shows "revoking a c"
  unfolding revoking_def
proof (intro conjI allI impI)
  show "same_source (gm_source_heap (snd a) ! i) (gm_source_heap (snd c) ! i)" for i
    using revokingD(3) [OF ab] revokingD(3) [OF bc] by (rule same_source_trans)
  show "map_of (gm_sources (snd a)) k = Some i" if "map_of (gm_sources (snd c)) k = Some i" for k i
    by (rule revokingD(1) [OF ab revokingD(1) [OF bc that]])
  show "map_of (gm_sources (snd c)) k = Some i"
    if "map_of (gm_sources (snd a)) k = Some i" "so_permits (gm_source_heap (snd a) ! i) \<noteq> []" for k i
    by (rule revokingD(2) [OF bc revokingD(2) [OF ab that]])
      (use revokingD(3) [OF ab, of i] that(2) in \<open>simp add: same_source_def\<close>)
  show "set (fst a) \<subseteq> set (fst c)" using revokingD(4) [OF ab] revokingD(4) [OF bc] by (rule subset_trans)
qed (simp_all only: revokingD(5-) [OF ab] revokingD(5-) [OF bc])

lemma retire_closed [simp]: "gm_closed (retire r m) = gm_closed m"
  by (simp add: retire_def Let_def)

lemma revoke_item_revoking:
  assumes "gate_with us (snd pm)"
  shows "revoking pm (revoke_item item n now pm)"
proof -
  obtain ps m where pm: "pm = (ps, m)" by (cases pm)
  have inv: "gate_with us m" using assms pm by simp
  show ?thesis
  proof (cases "map_of (gm_sources m) (rv_user item, rv_ip item)")
    case None
    then show ?thesis by (simp add: pm revoke_item_def Let_def revoking_def same_source_def)
  next
    case (Some i)
    have key: "so_key (gm_source_heap m ! i) = (rv_user item, rv_ip item)" "i < length (gm_source_heap m)"
      using core_registered(1, 3) [OF gate_with_core [OF inv] Some] by simp_all
    show ?thesis using Some key
      by (auto simp: pm revoke_item_def Let_def revoking_def same_source_def set_source_def nth_update
          remove_source_def map_of_delete)
  qed
qed

definition sweep :: "nat \<Rightarrow> int \<Rightarrow> revocation list \<Rightarrow> nat list \<times> 'c gate_manager \<Rightarrow> nat list \<times> 'c gate_manager" where
  "sweep n now items = fold (\<lambda>item. revoke_item item n now) items"

lemma sweep_keeps:
  "gate_with us (snd pm) \<Longrightarrow> gate_with us (snd (sweep n now items pm)) \<and> revoking pm (sweep n now items pm)"
  unfolding sweep_def
proof (induction items arbitrary: pm)
  case (Cons item items)
  note IH = Cons.IH [OF with_revoke_item [OF Cons.prems], of item n now]
  show ?case using IH revoking_trans [OF revoke_item_revoking [OF Cons.prems] conjunct2 [OF IH]] by simp
qed simp

lemma revoke_items_keeps:
  assumes "gate_with us m"
  shows "gate_with us (snd (revoke_items items n now m))" "revoking ([], m) (revoke_items items n now m)"
proof -
  define m1 where "m1 = m\<lparr>gm_revoked := filter (\<lambda>(l, r). \<not> rl_until r < now) (gm_revoked m)\<rparr>"
  have eq: "revoke_items items n now m = sweep n now items ([], m1)"
    by (simp add: revoke_items_def m1_def sweep_def)
  have m1: "gate_with us m1" using assms by (simp add: m1_def gate_with_def)
  have "revoking ([], m) ([], m1)" by (simp add: revoking_def m1_def same_source_def)
  then show "gate_with us (snd (revoke_items items n now m))" "revoking ([], m) (revoke_items items n now m)"
    using sweep_keeps [of us "([], m1)"] m1 by (auto simp: eq intro: revoking_trans)
qed

lemma inv_revoke_items: "gate_inv m \<Longrightarrow> gate_inv (snd (revoke_items items n now m))"
  using revoke_items_keeps [of "gm_users m" m items n now] revokingD(5) [of "([], m)" "revoke_items items n now m"]
  by (simp add: gate_inv_def)

lemma inv_revoke_permit: "gate_inv m \<Longrightarrow> gate_inv (revoke_permit p m)"
  unfolding revoke_permit_def by (simp add: gate_inv_def gate_with_def Let_def core_set_permit)

lemma inv_revoke_permits: "gate_inv m \<Longrightarrow> gate_inv (revoke_permits ps m)"
  unfolding revoke_permits_def by (induction ps arbitrary: m) (simp_all add: inv_revoke_permit)

lemma inv_revocations: "gate_inv m \<Longrightarrow> gate_inv (apply_revocations items n run now m)"
  by (simp add: apply_revocations_def case_prod_unfold Let_def inv_revoke_permits inv_revoke_items)

lemma inv_close_sources:
  assumes "gate_inv (snd pm)" "distinct is"
    and "\<And>i. i \<in> set is \<Longrightarrow> map_of (gm_sources (snd pm)) (so_key (gm_source_heap (snd pm) ! i)) = Some i"
  shows "gate_inv (snd (fold close_source is pm))"
  using assms
proof (induction "is" arbitrary: pm)
  case (Cons i rest)
  obtain ps m where pm: "pm = (ps, m)" by (cases pm)
  let ?s = "gm_source_heap m ! i" and ?m1 = "set_source i ((gm_source_heap m ! i)\<lparr>so_revoked := True\<rparr>) m"
  have inv: "gate_inv m" and reg: "\<And>j. j \<in> set (i # rest) \<Longrightarrow> map_of (gm_sources m) (so_key (gm_source_heap m ! j)) = Some j"
    using Cons.prems pm by simp_all
  have m1: "gate_inv ?m1" by (rule inv_set_source [OF inv]) (simp add: same_source_def)
  have key: "so_key (gm_source_heap ?m1 ! j) = so_key (gm_source_heap m ! j)" for j
    by (simp add: set_source_def nth_update)
  have other: "so_key (gm_source_heap m ! j) \<noteq> so_key ?s" if "j \<in> set rest" for j
    using reg [of i] reg [of j] that Cons.prems(2) by auto
  have "gate_inv (snd (close_source i pm)) \<and> (\<forall>j \<in> set rest.
      map_of (gm_sources (snd (close_source i pm))) (so_key (gm_source_heap (snd (close_source i pm)) ! j)) = Some j)"
  proof (cases "so_permits ?s = []")
    case True
    have "gate_inv (remove_source i ?m1)"
      by (rule inv_remove [OF m1, of _ i]) (use reg [of i] True in \<open>simp_all add: set_source_def nth_update\<close>)
    then show ?thesis using True reg other
      by (auto simp: pm close_source_def Let_def remove_source_def map_of_delete key) (auto simp: set_source_def nth_update)
  next
    case False
    then show ?thesis using m1 reg key by (simp add: pm close_source_def Let_def) (simp add: set_source_def)
  qed
  then show ?case using Cons.IH [of "close_source i pm"] Cons.prems(2) by simp
qed simp

lemma inv_close_all: "gate_inv m \<Longrightarrow> gate_inv (close_all m)"
proof -
  assume inv: "gate_inv m"
  note core = gate_inv_core [OF inv]
  have d: "distinct_keys (gm_sources m)" using core by (simp add: core_ok_def registered_ok_def)
  have reg: "map_of (gm_sources m) (so_key (gm_source_heap m ! i)) = Some i" if "i \<in> set (map snd (gm_sources m))" for i
  proof -
    from that obtain k where "(k, i) \<in> set (gm_sources m)" by auto
    then have "map_of (gm_sources m) k = Some i" using d by simp
    then show ?thesis using core_registered(3) [OF core] by metis
  qed
  have "distinct (map snd (gm_sources m))"
  proof -
    have "inj_on snd (set (gm_sources m))"
      using d reg core_registered(3) [OF core] by (intro inj_onI) (metis prod.collapse map_of_eq_Some_iff)
    then show ?thesis using d by (simp add: distinct_map)
  qed
  from inv_close_sources [of "([], m)", OF _ this] inv reg have "gate_inv (snd (fold close_source (map snd (gm_sources m)) ([], m)))"
    by simp
  then show ?thesis using inv_revoke_permits by (simp add: close_all_def case_prod_unfold Let_def)
qed

lemma inv_lose_session: "gate_inv m \<Longrightarrow> gate_inv (lose_session run m)"
  unfolding lose_session_def using inv_close_all [of "m\<lparr>gm_ready := False, gm_run := [], gm_synced := 0\<rparr>"]
  by (simp add: gate_inv_def gate_with_def)

lemma inv_expire: "gate_inv m \<Longrightarrow> gate_inv (expire_source i d now m)"
  unfolding expire_source_def by (simp add: Let_def inv_remove inv_revoke_permits)

lemma core_give:
  assumes core: "core_ok us srcs h ps" and reg: "map_of srcs k = Some i"
    and x: "so_key x = so_key (h ! i)" "so_lease x = so_lease (h ! i)" "so_revoked x = so_revoked (h ! i)"
      "so_permits x = so_permits (h ! i) @ [length ps]"
    and t: "pt_source t = i" "\<not> pt_released t"
  shows "core_ok us srcs (h[i := x]) (ps @ [t])"
proof -
  note at = core_registered [OF core reg]
  have "registered_ok us srcs (h[i := x])"
    using core x by (intro registered_update) (simp_all add: core_ok_def)
  moreover have "held_ok srcs (h[i := x]) (ps @ [t])"
    unfolding held_ok_def
  proof (intro allI impI)
    fix j assume j: "j < length (h[i := x])"
    have old: "p < length (ps @ [t])" "pt_source ((ps @ [t]) ! p) = j" "\<not> pt_released ((ps @ [t]) ! p)"
      if "p \<in> set (so_permits (h ! j))" for p
      using core_held(1-3) [OF core, of j p] that j by (simp_all add: nth_append)
    have ne: "so_permits (h ! j) \<noteq> [] \<Longrightarrow> map_of srcs (so_key (h ! j)) = Some j"
      using core j unfolding core_ok_def held_ok_def by simp
    have new: "pt_source ((ps @ [t]) ! length ps) = i" "\<not> pt_released ((ps @ [t]) ! length ps)" using t by simp_all
    show "(\<forall>p\<in>set (so_permits (h[i := x] ! j)). p < length (ps @ [t]) \<and> pt_source ((ps @ [t]) ! p) = j \<and>
        \<not> pt_released ((ps @ [t]) ! p)) \<and>
      (so_permits (h[i := x] ! j) \<noteq> [] \<longrightarrow> map_of srcs (so_key (h[i := x] ! j)) = Some j)"
    proof (cases "j = i")
      case True
      then have "h[i := x] ! j = x" using j by simp
      then show ?thesis using old new x(1, 4) reg at(3) True by auto
    next
      case False
      then have "h[i := x] ! j = h ! j" by simp
      then show ?thesis using old ne by simp
    qed
  qed
  moreover have "holders_ok (h[i := x]) (ps @ [t])"
    unfolding holders_ok_def
  proof (intro allI impI)
    fix p assume "p < length (ps @ [t])"
    then consider "p < length ps" | "p = length ps" by fastforce
    then show "pt_source ((ps @ [t]) ! p) < length (h[i := x]) \<and>
      (\<not> pt_released ((ps @ [t]) ! p) \<longrightarrow> p \<in> set (so_permits (h[i := x] ! pt_source ((ps @ [t]) ! p))))"
      using core_permit [OF core, of p] x(4) t at(1) by cases (auto simp: nth_append nth_update)
  qed
  ultimately show ?thesis unfolding core_ok_def by blast
qed

lemma core_release:
  assumes core: "core_ok us srcs h ps"
    and x: "so_key x = so_key (h ! i)" "so_lease x = so_lease (h ! i)" "so_revoked x = so_revoked (h ! i)"
      "so_permits x = filter (\<lambda>q. q \<noteq> p) (so_permits (h ! i))"
    and t: "p < length ps" "i = pt_source (ps ! p)" "pt_source t = i" "pt_released t"
  shows "core_ok us srcs (h[i := x]) (ps[p := t])"
proof -
  have "registered_ok us srcs (h[i := x])"
    using core x by (intro registered_update) (simp_all add: core_ok_def)
  moreover have "held_ok srcs (h[i := x]) (ps[p := t])"
    unfolding held_ok_def
  proof (intro allI impI)
    fix j assume j: "j < length (h[i := x])"
    have other: "p \<notin> set (so_permits (h ! j))" if "j \<noteq> i"
      using core_held(2) [OF core, of j p] that t j by auto
    have ne: "so_permits (h ! j) \<noteq> [] \<Longrightarrow> map_of srcs (so_key (h ! j)) = Some j"
      using core j unfolding core_ok_def held_ok_def by simp
    show "(\<forall>q\<in>set (so_permits (h[i := x] ! j)). q < length (ps[p := t]) \<and> pt_source (ps[p := t] ! q) = j \<and>
        \<not> pt_released (ps[p := t] ! q)) \<and>
      (so_permits (h[i := x] ! j) \<noteq> [] \<longrightarrow> map_of srcs (so_key (h[i := x] ! j)) = Some j)"
    proof (cases "j = i")
      case True
      then have "h[i := x] ! j = x" using j by simp
      moreover have "so_permits x \<noteq> [] \<Longrightarrow> so_permits (h ! i) \<noteq> []" using x(4) by auto
      ultimately show ?thesis using core_held(1-3) [OF core, of j] j x(1, 4) ne True by auto
    next
      case False
      then have "h[i := x] ! j = h ! j" by simp
      moreover have "ps[p := t] ! q = ps ! q" if "q \<in> set (so_permits (h ! j))" for q
        using other [OF False] that by (metis nth_list_update_neq)
      ultimately show ?thesis using core_held(1-3) [OF core, of j] j ne by simp
    qed
  qed
  moreover have "holders_ok (h[i := x]) (ps[p := t])"
    unfolding holders_ok_def
  proof (intro allI impI)
    fix q assume "q < length (ps[p := t])"
    then show "pt_source (ps[p := t] ! q) < length (h[i := x]) \<and>
      (\<not> pt_released (ps[p := t] ! q) \<longrightarrow> q \<in> set (so_permits (h[i := x] ! pt_source (ps[p := t] ! q))))"
      using core_permit [OF core, of q] x(4) t by (cases "q = p") (auto simp: nth_update)
  qed
  ultimately show ?thesis unfolding core_ok_def by blast
qed

lemma inv_give:
  assumes inv: "gate_inv m" and reg: "map_of (gm_sources m) k = Some i"
  shows "gate_inv (snd (give_permit i now m))"
proof -
  have "waiters_ok ws n \<Longrightarrow> waiters_ok ws (Suc n)" for ws n
    unfolding waiters_ok_def by (auto split: option.splits)
  then show ?thesis
    using inv core_give [OF gate_inv_core [OF inv] reg,
        of "(gm_source_heap m ! i)\<lparr>so_sequence := Suc (gm_seq m), so_connected := now,
              so_permits := so_permits (gm_source_heap m ! i) @ [length (gm_permits m)]\<rparr>"
           "\<lparr>pt_source = i, pt_closing = False, pt_close = None, pt_released = False\<rparr>"]
    by (simp add: give_permit_def Let_def set_source_def gate_inv_def gate_with_def)
qed

lemma inv_release:
  assumes inv: "gate_inv m" and p: "p < length (gm_permits m)"
  shows "gate_inv (release_permit p now m)"
proof (cases "pt_released (gm_permits m ! p)")
  case False
  define t where "t = gm_permits m ! p"
  define i where "i = pt_source t"
  define s where "s = gm_source_heap m ! i"
  define s1 where "s1 = s\<lparr>so_permits := filter (\<lambda>q. q \<noteq> p) (so_permits s)\<rparr>"
  define m1 where "m1 = (set_source i s1 m)\<lparr>gm_permits := (gm_permits m)[p := t\<lparr>pt_released := True\<rparr>]\<rparr>"
  have i: "i < length (gm_source_heap m)" unfolding i_def t_def by (rule core_permit [OF gate_inv_core [OF inv] p])
  have "core_ok (gm_users m) (gm_sources m) ((gm_source_heap m)[i := s1]) ((gm_permits m)[p := t\<lparr>pt_released := True\<rparr>])"
    by (rule core_release [OF gate_inv_core [OF inv] _ _ _ _ p]) (simp_all add: s1_def s_def i_def t_def)
  then have m1: "gate_inv m1" using inv by (simp add: m1_def set_source_def gate_inv_def gate_with_def)
  have "gate_inv (remove_source i m1)" if "so_permits s1 = []" "map_of (gm_sources m) (so_key s) = Some i"
    by (rule inv_remove [OF m1, of _ i]) (use that i in \<open>simp_all add: m1_def set_source_def s1_def\<close>)
  moreover have "release_permit p now m = (if so_permits s1 = [] \<and> map_of (gm_sources m) (so_key s) = Some i \<and>
      (\<not> gm_lease_cache m \<or> so_revoked s \<or> gm_closing m \<or> \<not> live now s) then remove_source i m1 else m1)"
    using False unfolding release_permit_def Let_def m1_def s1_def s_def i_def t_def by simp
  ultimately show ?thesis using m1 by simp
qed (use inv in \<open>simp add: release_permit_def Let_def\<close>)

lemma inv_bind: "gate_inv m \<Longrightarrow> gate_inv (bind_permit p c m)"
  unfolding bind_permit_def by (simp add: Let_def gate_inv_def gate_with_def core_set_permit)

lemma inv_connect:
  assumes "gate_inv m"
  shows "gate_inv (snd (new_connection p now m))"
proof -
  have "gate_inv (set_source i ((gm_source_heap m ! i)\<lparr>so_sequence := n, so_connected := now\<rparr>) m)" for i n
    by (rule inv_set_source [OF assms]) (simp add: same_source_def)
  then have "gate_inv ((set_source i ((gm_source_heap m ! i)\<lparr>so_sequence := n, so_connected := now\<rparr>) m)\<lparr>gm_seq := n\<rparr>)" for i n
    by (simp add: gate_inv_def gate_with_def)
  then show ?thesis using assms by (simp add: new_connection_def Let_def)
qed

lemma flights_update:
  "flights_ok fs \<Longrightarrow> fl_key x = fl_key (fs ! f) \<Longrightarrow> fl_result x = fl_result (fs ! f) \<Longrightarrow> flights_ok (fs[f := x])"
proof (cases "f < length fs")
  case True
  assume "flights_ok fs" "fl_key x = fl_key (fs ! f)" "fl_result x = fl_result (fs ! f)"
  with nth_mem [OF True] set_update_subset_insert [of fs f x] show "flights_ok (fs[f := x])"
    unfolding flights_ok_def by auto
qed (simp add: list_update_beyond)

lemma inv_join: "gate_inv m \<Longrightarrow> 0 < fst k \<Longrightarrow> gate_inv (snd (join_flight k m))"
  unfolding join_flight_def by (auto simp: gate_inv_def gate_with_def flights_ok_def Let_def split: option.split)

lemma inv_acquire:
  assumes inv: "gate_inv m"
  shows "gate_inv (snd (acquire public user ip cancelled now m))"
proof -
  let ?k = "(user, public ip)"
  have wait: "gate_inv (snd (let (f, m1) = join_flight ?k m; w = length (gm_waiters m1); x = gm_flight_heap m1 ! f in
      (WaitFor w, m1\<lparr>gm_waiters := gm_waiters m1 @ [\<lparr>wt_flight = f, wt_key = ?k, wt_permit = None\<rparr>],
         gm_flight_heap := (gm_flight_heap m1)[f := x\<lparr>fl_waiters := fl_waiters x @ [w]\<rparr>]\<rparr>)))" if "0 < user"
    using inv_join [OF inv, of ?k] that
    by (simp add: case_prod_unfold Let_def gate_inv_def gate_with_def waiters_ok_def flights_update)
  have grant: "gate_inv (snd (let (p, m1) = give_permit i now m in (Granted p, m1)))" if "map_of (gm_sources m) ?k = Some i" for i
    using inv_give [OF inv that] by (simp add: case_prod_unfold Let_def)
  define reuse where "reuse = (case map_of (gm_sources m) ?k of None \<Rightarrow> None
    | Some i \<Rightarrow> let s = gm_source_heap m ! i in
        if (gm_lease_cache m \<or> so_permits s \<noteq> []) \<and> \<not> so_revoked s \<and> (\<not> gm_lease_cache m \<or> live now s) then Some i else None)"
  have "reuse = Some i \<Longrightarrow> map_of (gm_sources m) ?k = Some i" for i
    unfolding reuse_def by (auto simp: Let_def split: option.splits if_splits)
  then have "gate_inv (snd (case reuse of Some i \<Rightarrow> let (p, m1) = give_permit i now m in (Granted p, m1)
      | None \<Rightarrow> let (f, m1) = join_flight ?k m; w = length (gm_waiters m1); x = gm_flight_heap m1 ! f in
      (WaitFor w, m1\<lparr>gm_waiters := gm_waiters m1 @ [\<lparr>wt_flight = f, wt_key = ?k, wt_permit = None\<rparr>],
         gm_flight_heap := (gm_flight_heap m1)[f := x\<lparr>fl_waiters := fl_waiters x @ [w]\<rparr>]\<rparr>)))" if "0 < user"
    using wait [OF that] grant by (cases reuse) simp_all
  then show ?thesis
    unfolding acquire_def Let_def [of "public ip"] Let_def [of ?k] reuse_def [symmetric]
    using inv by (simp only: if_distrib [of snd] snd_conv) (simp add: not_le)
qed

lemma inv_wake:
  assumes inv: "gate_inv m" and w: "w < length (gm_waiters m)"
  shows "gate_inv (snd (wake_waiter w cancelled now m))"
proof -
  define x where "x = gm_waiters m ! w"
  define fl where "fl = gm_flight_heap m ! wt_flight x"
  define m1 where "m1 g a = m\<lparr>gm_flight_heap := (gm_flight_heap m)[wt_flight x := fl\<lparr>fl_waiters := g, fl_abandoned := a\<rparr>]\<rparr>" for g a
  have m1: "gate_inv (m1 g a)" for g a
    using inv unfolding m1_def fl_def by (simp add: gate_inv_def gate_with_def flights_update)
  have "x \<in> set (gm_waiters m)" unfolding x_def using w by simp
  then have p: "p < length (gm_permits m)" if "wt_permit x = Some p" for p
    using inv that unfolding gate_inv_def gate_with_def waiters_ok_def by (auto split: option.splits)
  have "gate_inv (case wt_permit x of None \<Rightarrow> m1 g a | Some p \<Rightarrow> release_permit p now (m1 g a))" for g a
    using m1 inv_release [OF m1, of _ g a now] p by (auto simp: m1_def split: option.split)
  moreover have "\<exists>g a. snd (wake_waiter w cancelled now m) = m1 g a \<or>
      snd (wake_waiter w cancelled now m) = (case wt_permit x of None \<Rightarrow> m1 g a | Some p \<Rightarrow> release_permit p now (m1 g a))"
    unfolding wake_waiter_def Let_def unfolding x_def [symmetric] unfolding fl_def [symmetric]
    unfolding m1_def [symmetric] by (cases "cancelled \<or> gm_closing m \<or> gm_stopped m") auto
  ultimately show ?thesis using m1 by metis
qed

lemma inv_set_result:
  assumes inv: "gate_inv m" and r: "case r of Inl _ \<Rightarrow> True | Inr l \<Rightarrow> valid_lease l"
  shows "gate_inv (set_result f r m)"
proof (cases "f < length (gm_flight_heap m)")
  case True
  have "flights_ok (gm_flight_heap m)" "gm_flight_heap m ! f \<in> set (gm_flight_heap m)"
    using inv True by (simp_all add: gate_inv_def gate_with_def)
  then have "flights_ok ((gm_flight_heap m)[f := (gm_flight_heap m ! f)\<lparr>fl_result := Some r\<rparr>])"
    using set_update_subset_insert [of "gm_flight_heap m" f "(gm_flight_heap m ! f)\<lparr>fl_result := Some r\<rparr>"] r
    unfolding flights_ok_def by (auto split: sum.splits)
  then show ?thesis using inv by (simp add: set_result_def gate_inv_def gate_with_def)
qed (use inv in \<open>simp add: set_result_def list_update_beyond\<close>)

lemma inv_set_error: "gate_inv m \<Longrightarrow> gate_inv (set_result f (Inl e) m)"
  by (rule inv_set_result) simp_all

lemma inv_failed_call: "gate_inv m \<Longrightarrow> gate_inv (if e = SessionLost then lose_session run m else m)"
  by (simp add: inv_lose_session)

lemma inv_confirm: "gate_inv m \<Longrightarrow> gate_inv (confirm_snapshot sn u m)"
  by (simp add: confirm_snapshot_def gate_inv_def gate_with_def)

lemma revoke_item_target:
  assumes "gate_with us (snd pm)" "map_of (gm_sources (snd pm)) (rv_user item, rv_ip item) = Some i"
    "so_lease (gm_source_heap (snd pm) ! i) = rv_lease item" "0 < rv_user item" "valid_lease (rv_lease item)"
  shows "so_revoked (gm_source_heap (snd (revoke_item item 0 now pm)) ! i)"
    "set (so_permits (gm_source_heap (snd pm) ! i)) \<subseteq> set (fst (revoke_item item 0 now pm))"
proof -
  obtain ps m where pm: "pm = (ps, m)" by (cases pm)
  have "i < length (gm_source_heap m)" using core_registered(1) [OF gate_with_core [OF assms(1)] assms(2)] pm by simp
  then show "so_revoked (gm_source_heap (snd (revoke_item item 0 now pm)) ! i)"
    "set (so_permits (gm_source_heap (snd pm) ! i)) \<subseteq> set (fst (revoke_item item 0 now pm))"
    using assms(2-) by (simp_all add: pm revoke_item_def Let_def set_source_def remove_source_def)
qed

text \<open>A source named by one of the items ends up revoked and its permits are on the list to close.\<close>

lemma sweep_target:
  assumes "gate_with us (snd pm)" "item \<in> set items" "so_lease (gm_source_heap (snd pm) ! i) = rv_lease item"
    "0 < rv_user item" "valid_lease (rv_lease item)"
    "map_of (gm_sources (snd (sweep 0 now items pm))) (rv_user item, rv_ip item) = Some i \<or>
     map_of (gm_sources (snd pm)) (rv_user item, rv_ip item) = Some i \<and> so_permits (gm_source_heap (snd pm) ! i) \<noteq> []"
  shows "so_revoked (gm_source_heap (snd (sweep 0 now items pm)) ! i) \<and>
    set (so_permits (gm_source_heap (snd pm) ! i)) \<subseteq> set (fst (sweep 0 now items pm))"
  using assms
proof (induction items arbitrary: pm)
  case (Cons x items)
  let ?pm = "revoke_item x 0 now pm"
  have cons: "sweep 0 now (x # items) pm = sweep 0 now items ?pm" by (simp add: sweep_def)
  note with1 = with_revoke_item [OF Cons.prems(1), of x 0 now]
  note step = revokingD [OF revoke_item_revoking [OF Cons.prems(1), of x 0 now]]
  note rest = revokingD [OF conjunct2 [OF sweep_keeps [OF with1, of 0 now items]]]
  have same: "so_lease (gm_source_heap (snd ?pm) ! i) = so_lease (gm_source_heap (snd pm) ! i)"
    "so_permits (gm_source_heap (snd ?pm) ! i) = so_permits (gm_source_heap (snd pm) ! i)"
    using step(3) [of i] by (simp_all add: same_source_def)
  show ?case
  proof (cases "x = item")
    case True
    have "map_of (gm_sources (snd pm)) (rv_user item, rv_ip item) = Some i"
      using Cons.prems(6) step(1) rest(1) unfolding cons by blast
    note target = revoke_item_target [OF Cons.prems(1) this Cons.prems(3-5), of now]
    have "so_revoked (gm_source_heap (snd (sweep 0 now items ?pm)) ! i)"
      using target(1) rest(3) [of i] True by (simp add: same_source_def)
    then show ?thesis using target(2) rest(4) True unfolding cons by blast
  next
    case False
    have "so_revoked (gm_source_heap (snd (sweep 0 now items ?pm)) ! i) \<and>
      set (so_permits (gm_source_heap (snd ?pm) ! i)) \<subseteq> set (fst (sweep 0 now items ?pm))"
    proof (rule Cons.IH [OF with1])
      show "map_of (gm_sources (snd (sweep 0 now items ?pm))) (rv_user item, rv_ip item) = Some i \<or>
        map_of (gm_sources (snd ?pm)) (rv_user item, rv_ip item) = Some i \<and> so_permits (gm_source_heap (snd ?pm) ! i) \<noteq> []"
        using Cons.prems(6) step(2) same(2) unfolding cons by metis
    qed (use Cons.prems False same in simp_all)
    then show ?thesis unfolding cons same .
  qed
qed simp

text \<open>Closing permits.\<close>

lemma revoke_permit_fields [simp]:
  "length (gm_permits (revoke_permit p m)) = length (gm_permits m)"
  "gm_source_heap (revoke_permit p m) = gm_source_heap m" "gm_users (revoke_permit p m) = gm_users m"
  "gm_sources (revoke_permit p m) = gm_sources m" "gm_revoked (revoke_permit p m) = gm_revoked m"
  by (simp_all add: revoke_permit_def Let_def)

lemma revoke_permits_fields [simp]:
  "length (gm_permits (revoke_permits ps m)) = length (gm_permits m)"
  "gm_source_heap (revoke_permits ps m) = gm_source_heap m" "gm_users (revoke_permits ps m) = gm_users m"
  "gm_sources (revoke_permits ps m) = gm_sources m" "gm_revoked (revoke_permits ps m) = gm_revoked m"
  unfolding revoke_permits_def by (induction ps arbitrary: m) simp_all

definition shut :: "'c permit \<Rightarrow> bool" where
  "shut t \<longleftrightarrow> pt_closing t \<and> pt_close t = None"

lemma revoke_permit_at:
  "gm_permits (revoke_permit p m) ! q =
     (if q = p \<and> p < length (gm_permits m) then (gm_permits m ! p)\<lparr>pt_closing := True, pt_close := None\<rparr> else gm_permits m ! q)"
  by (simp add: revoke_permit_def Let_def nth_update)

lemma revoke_permits_other: "q \<notin> set ps \<Longrightarrow> gm_permits (revoke_permits ps m) ! q = gm_permits m ! q"
  unfolding revoke_permits_def by (induction ps arbitrary: m) (simp_all add: revoke_permit_at)

lemma revoke_permits_kept:
  "pt_source (gm_permits (revoke_permits ps m) ! q) = pt_source (gm_permits m ! q)"
  "pt_released (gm_permits (revoke_permits ps m) ! q) = pt_released (gm_permits m ! q)"
  unfolding revoke_permits_def by (induction ps arbitrary: m) (simp_all add: revoke_permit_at)

lemma revoke_permits_shut:
  "q < length (gm_permits m) \<Longrightarrow> shut (gm_permits m ! q) \<or> q \<in> set ps \<Longrightarrow> shut (gm_permits (revoke_permits ps m) ! q)"
  unfolding revoke_permits_def
proof (induction ps arbitrary: m)
  case (Cons p ps)
  have "shut (gm_permits (revoke_permit p m) ! q) \<or> q \<in> set ps"
    using Cons.prems by (auto simp: revoke_permit_at shut_def)
  then show ?case using Cons.IH [of "revoke_permit p m"] Cons.prems(1) by simp
qed simp

lemma revoke_permits_closed: "set (gm_closed m) \<subseteq> set (gm_closed (revoke_permits ps m))"
  unfolding revoke_permits_def
proof (induction ps arbitrary: m)
  case (Cons p ps)
  have "set (gm_closed m) \<subseteq> set (gm_closed (revoke_permit p m))"
    by (auto simp: revoke_permit_def Let_def split: option.split)
  then show ?case using Cons.IH [of "revoke_permit p m"] by simp
qed simp

lemma revoke_permits_called:
  "q \<in> set ps \<Longrightarrow> q < length (gm_permits m) \<Longrightarrow> pt_close (gm_permits m ! q) = Some c \<Longrightarrow>
   c \<in> set (gm_closed (revoke_permits ps m))"
proof (induction ps arbitrary: m)
  case (Cons p ps)
  have cons: "revoke_permits (p # ps) m = revoke_permits ps (revoke_permit p m)" by (simp add: revoke_permits_def)
  show ?case
  proof (cases "p = q")
    case True
    then have "c \<in> set (gm_closed (revoke_permit p m))" using Cons.prems by (simp add: revoke_permit_def Let_def)
    then show ?thesis unfolding cons by (rule subsetD [OF revoke_permits_closed])
  next
    case False
    then show ?thesis unfolding cons using Cons.prems by (intro Cons.IH) (auto simp: revoke_permit_at)
  qed
qed simp

text \<open>Only permits of sources that an item names are put on the list to close.\<close>

lemma sweep_only:
  "gate_with us (snd pm) \<Longrightarrow> p \<in> set (fst (sweep n now items pm)) \<Longrightarrow> p \<notin> set (fst pm) \<Longrightarrow>
   \<exists>item \<in> set items. \<exists>i. map_of (gm_sources (snd pm)) (rv_user item, rv_ip item) = Some i \<and>
     p \<in> set (so_permits (gm_source_heap (snd pm) ! i))"
proof (induction items arbitrary: pm)
  case (Cons x items)
  let ?pm = "revoke_item x n now pm"
  have cons: "sweep n now (x # items) pm = sweep n now items ?pm" by (simp add: sweep_def)
  note with1 = with_revoke_item [OF Cons.prems(1), of x n now]
  note step = revokingD [OF revoke_item_revoking [OF Cons.prems(1), of x n now]]
  show ?case
  proof (cases "p \<in> set (fst ?pm)")
    case True
    then have "\<exists>i. map_of (gm_sources (snd pm)) (rv_user x, rv_ip x) = Some i \<and> p \<in> set (so_permits (gm_source_heap (snd pm) ! i))"
      using Cons.prems(3) by (cases pm) (auto simp: revoke_item_def Let_def split: option.splits if_splits)
    then show ?thesis by auto
  next
    case False
    from Cons.IH [OF with1 _ this] Cons.prems(2) cons obtain item i where
      "item \<in> set items" "map_of (gm_sources (snd ?pm)) (rv_user item, rv_ip item) = Some i"
      "p \<in> set (so_permits (gm_source_heap (snd ?pm) ! i))" by auto
    then show ?thesis using step(1) step(3) [of i] unfolding same_source_def by auto
  qed
qed (simp add: sweep_def)

lemma set_users_items:
  "(k, i) \<in> set (gm_sources m) \<Longrightarrow> fst k \<notin> set ids \<Longrightarrow>
   \<lparr>rv_run = [], rv_confirmed = 0, rv_user = fst k, rv_ip = snd k, rv_lease = so_lease (gm_source_heap m ! i)\<rparr> \<in>
   set (map (\<lambda>(k, i). \<lparr>rv_run = [], rv_confirmed = 0, rv_user = fst k, rv_ip = snd k,
              rv_lease = so_lease (gm_source_heap m ! i)\<rparr>)
            (filter (\<lambda>(k, i). fst k \<notin> set ids) (gm_sources m)))"
  by force

text \<open>The state between marking the sources and closing the permits.\<close>

lemma set_users_marks:
  assumes inv: "gate_inv m"
  obtains ps m' where "set_users ids now m = revoke_permits ps m'" "gate_inv m'" "gm_permits m' = gm_permits m"
    "gm_closed m' = gm_closed m" "gm_users m' = Some ids"
    "\<And>i. same_source (gm_source_heap m ! i) (gm_source_heap m' ! i)"
    "\<And>k i. map_of (gm_sources m) k = Some i \<Longrightarrow> fst k \<notin> set ids \<Longrightarrow> so_permits (gm_source_heap m ! i) \<noteq> [] \<Longrightarrow>
       so_revoked (gm_source_heap m' ! i) \<and> set (so_permits (gm_source_heap m ! i)) \<subseteq> set ps"
    "\<And>p. p \<in> set ps \<Longrightarrow> \<exists>k i. map_of (gm_sources m) k = Some i \<and> fst k \<notin> set ids \<and> p \<in> set (so_permits (gm_source_heap m ! i))"
proof -
  define items where "items = map (\<lambda>(k, i). \<lparr>rv_run = [], rv_confirmed = 0, rv_user = fst k, rv_ip = snd k,
              rv_lease = so_lease (gm_source_heap m ! i)\<rparr>) (filter (\<lambda>(k, i). fst k \<notin> set ids) (gm_sources m))"
  obtain q b where q: "set_users ids now m = (let (ps, m') = revoke_items items 0 now (m\<lparr>gm_users := Some ids, gm_seq := q, gm_barriers := b\<rparr>)
      in revoke_permits ps m')"
  proof -
    define gone where "gone = filter (\<lambda>u. u \<notin> set ids)
            ((case gm_users m of None \<Rightarrow> [] | Some us \<Rightarrow> us) @ map (\<lambda>(k, _). fst k) (gm_flights m) @
             map (\<lambda>(k, _). fst k) (gm_sources m))"
    have "set_users ids now m = (let (ps, m') = revoke_items items 0 now (m\<lparr>gm_users := Some ids,
        gm_seq := (if gone = [] then gm_seq m else Suc (gm_seq m)),
        gm_barriers := (if gone = [] then gm_barriers m
          else fold (\<lambda>u. AList.update u (Suc (gm_seq m))) gone (gm_barriers m))\<rparr>) in revoke_permits ps m')"
      unfolding set_users_def Let_def items_def [symmetric] gone_def [symmetric] by simp
    then show ?thesis by (rule that)
  qed
  define m0 where "m0 = m\<lparr>gm_users := Some ids, gm_seq := q, gm_barriers := b,
    gm_revoked := filter (\<lambda>(l, r). \<not> rl_until r < now) (gm_revoked m)\<rparr>"
  define pm where "pm = sweep 0 now items ([], m0)"
  have eq: "set_users ids now m = revoke_permits (fst pm) (snd pm)"
    unfolding q pm_def m0_def revoke_items_def sweep_def by (simp add: case_prod_unfold Let_def)
  have m0: "gm_sources m0 = gm_sources m" "gm_source_heap m0 = gm_source_heap m" "gm_permits m0 = gm_permits m"
    "gm_closed m0 = gm_closed m" "gm_users m0 = Some ids" "gm_flight_heap m0 = gm_flight_heap m" "gm_waiters m0 = gm_waiters m"
    by (simp_all add: m0_def)
  have "gate_with None m0" using inv m0 by (auto simp: gate_inv_def gate_with_def intro: core_users)
  then have with0: "gate_with None (snd ([] :: nat list, m0))" by simp
  note keep = sweep_keeps [OF with0, of 0 now items, folded pm_def]
  note run = revokingD [OF conjunct2 [OF keep], simplified]
  have mark: "so_revoked (gm_source_heap (snd pm) ! i) \<and> set (so_permits (gm_source_heap m ! i)) \<subseteq> set (fst pm)"
    if reg: "map_of (gm_sources m) k = Some i" and "fst k \<notin> set ids"
      "map_of (gm_sources (snd pm)) k = Some i \<or> so_permits (gm_source_heap m ! i) \<noteq> []" for k i
  proof -
    have e: "entry_ok (gm_users m) k (gm_source_heap m ! i)" by (rule core_registered [OF gate_inv_core [OF inv] reg])
    have "\<lparr>rv_run = [], rv_confirmed = 0, rv_user = fst k, rv_ip = snd k, rv_lease = so_lease (gm_source_heap m ! i)\<rparr> \<in> set items"
      unfolding items_def by (rule set_users_items [OF map_of_SomeD [OF reg] that(2)])
    from sweep_target [OF with0 this, of i now, folded pm_def] e that m0 show ?thesis by (auto simp: entry_ok_def)
  qed
  have "gate_inv (snd pm)"
  proof -
    have "core_ok (Some ids) (gm_sources (snd pm)) (gm_source_heap (snd pm)) (gm_permits (snd pm))"
      using gate_with_core [OF conjunct1 [OF keep]]
    proof (rule core_users)
      fix k i assume *: "map_of (gm_sources (snd pm)) k = Some i"
      then show "so_revoked (gm_source_heap (snd pm) ! i) \<or> (case Some ids of None \<Rightarrow> True | Some us \<Rightarrow> fst k \<in> set us)"
        using mark [of k i] run(1) [OF *] m0 by auto
    qed
    moreover have "gm_users (snd pm) = Some ids" using run(5) m0 by simp
    ultimately show ?thesis using conjunct1 [OF keep] by (simp add: gate_inv_def gate_with_def)
  qed
  then show thesis
  proof (rule that [OF eq])
    show "gm_permits (snd pm) = gm_permits m" "gm_closed (snd pm) = gm_closed m" "gm_users (snd pm) = Some ids"
      using run(5-7) m0 by simp_all
    show "same_source (gm_source_heap m ! i) (gm_source_heap (snd pm) ! i)" for i
      using run(3) [of i] m0 by simp
    show "\<exists>k i. map_of (gm_sources m) k = Some i \<and> fst k \<notin> set ids \<and> p \<in> set (so_permits (gm_source_heap m ! i))"
      if p: "p \<in> set (fst pm)" for p
    proof -
      from sweep_only [OF with0, of p 0 now items, folded pm_def] p m0 obtain item i where item: "item \<in> set items"
        "map_of (gm_sources m) (rv_user item, rv_ip item) = Some i" "p \<in> set (so_permits (gm_source_heap m ! i))" by auto
      from item(1) have "rv_user item \<notin> set ids" by (auto simp: items_def)
      with item(2-) show ?thesis by force
    qed
  qed (use mark in blast)
qed

lemma inv_revoke_permit_list:
  "gate_inv (snd pm) \<Longrightarrow> gate_inv (let (ps, m) = pm in revoke_permits ps m)"
  by (simp add: case_prod_unfold inv_revoke_permits)

lemma inv_set_users: "gate_inv m \<Longrightarrow> gate_inv (set_users ids now m)"
  by (erule set_users_marks [of m ids now]) (simp add: inv_revoke_permits)

lemma inv_install_all:
  "gate_inv m \<Longrightarrow> (\<And>x. x \<in> set ds \<Longrightarrow> lease_ok (fst x)) \<Longrightarrow>
   gate_inv (fold (\<lambda>(l, d) m. snd (install_lease l d n now m)) ds m)"
proof (induction ds arbitrary: m)
  case (Cons x ds)
  show ?case using Cons.IH [OF inv_install [OF Cons.prems(1), of "fst x"]] Cons.prems(2)
    by (simp add: case_prod_unfold)
qed simp

lemma inv_accept:
  assumes inv: "gate_inv m"
  shows "gate_inv (snd (accept_leases public reply n started now m))"
proof -
  define m1 where "m1 = apply_revocations (sy_revoked reply) n (sy_run reply) now m"
  have m1: "gate_inv m1" unfolding m1_def by (rule inv_revocations [OF inv])
  show ?thesis
  proof (cases "lease_deadlines public (sy_leases reply) (sy_server_time reply) started now")
    case (Inl e)
    then show ?thesis using m1 by (simp add: accept_leases_def m1_def [symmetric])
  next
    case (Inr ds)
    have "gate_inv (fold (\<lambda>(l, d) m. snd (install_lease l d n now m)) ds m1)"
      using inv_install_all [OF m1] lease_deadlines_ok [OF Inr] by blast
    then show ?thesis using m1 Inr unfolding accept_leases_def m1_def [symmetric]
      by (simp add: Let_def case_prod_unfold inv_revoke_items inv_revoke_permits)
  qed
qed

lemma inv_take [simp]: "gate_inv (snd (take_snapshot now m)) = gate_inv m"
  by (simp add: take_snapshot_def Let_def gate_inv_def gate_with_def)

lemma inv_finish_sync:
  assumes inv: "gate_inv m"
  shows "gate_inv (snd (finish_sync public call result cancelled now m))"
proof (cases result)
  case (Inl e)
  have "gate_inv m' \<Longrightarrow> gate_inv (m'\<lparr>gm_confirmed := c, gm_base := b\<rparr>)" for m' :: "'a gate_manager" and c b
    by (simp add: gate_inv_def gate_with_def)
  then show ?thesis using Inl inv inv_lose_session [OF inv] by (simp add: finish_sync_def Let_def)
next
  case (Inr reply)
  define r where "r = (if sn_lease_cache (sc_snapshot call)
     then accept_leases public reply (sn_sequence (sc_snapshot call)) (sc_started call) now m else (None, m))"
  have r: "gate_inv (snd r)" unfolding r_def using inv inv_accept [OF inv] by simp
  have conf: "gate_inv (m'\<lparr>gm_confirmed := c, gm_base := b\<rparr>)" if "gate_inv m'" for m' :: "'a gate_manager" and c b
    using that by (simp add: gate_inv_def gate_with_def)
  show ?thesis
    unfolding finish_sync_def Let_def Inr sum.case r_def [symmetric] case_prod_unfold
    using inv inv_revocations [OF inv] r by (simp add: conf inv_confirm inv_revocations)
qed

lemma inv_grant:
  assumes "gate_inv m \<and> user_listed m (fst k)" "0 < fst k" "valid_lease l"
  shows "gate_inv (grant_waiter k l expired now w m) \<and> user_listed (grant_waiter k l expired now w m) (fst k)"
proof (cases "expired w")
  case False
  define im where "im = (case map_of (gm_sources m) k of Some i \<Rightarrow> (i, m) | None \<Rightarrow> add_source k l m)"
  have im: "gate_inv (snd im)" "map_of (gm_sources (snd im)) k = Some (fst im)" "gm_users (snd im) = gm_users m"
    using assms inv_add [of m k l]
    by (auto simp: im_def add_source_def Let_def map_of_update split: option.split)
  define pm where "pm = give_permit (fst im) now (snd im)"
  have pm: "gate_inv (snd pm)" unfolding pm_def by (rule inv_give [OF im(1, 2)])
  have p: "fst pm < length (gm_permits (snd pm))" "gm_users (snd pm) = gm_users m"
    using im(3) by (simp_all add: pm_def give_permit_def Let_def set_source_def)
  have eq: "grant_waiter k l expired now w m = (snd pm)\<lparr>gm_waiters := (gm_waiters (snd pm))[w := (gm_waiters (snd pm) ! w)\<lparr>wt_permit := Some (fst pm)\<rparr>]\<rparr>"
    using False by (simp add: grant_waiter_def im_def [symmetric] case_prod_unfold Let_def pm_def)
  have "waiters_ok ((gm_waiters (snd pm))[w := (gm_waiters (snd pm) ! w)\<lparr>wt_permit := Some (fst pm)\<rparr>]) (length (gm_permits (snd pm)))"
    using pm p set_update_subset_insert [of "gm_waiters (snd pm)" w "(gm_waiters (snd pm) ! w)\<lparr>wt_permit := Some (fst pm)\<rparr>"]
    by (auto simp: gate_inv_def gate_with_def waiters_ok_def)
  then show ?thesis using pm p assms(1) by (simp add: eq gate_inv_def gate_with_def user_listed_def)
qed (use assms in \<open>simp add: grant_waiter_def\<close>)

lemma inv_finish_admission:
  assumes inv: "gate_inv m" and f: "f < length (gm_flight_heap m)"
  shows "gate_inv (finish_admission f cancelled expired now m)"
proof -
  define fl where "fl = gm_flight_heap m ! f"
  have fl: "0 < fst (fl_key fl)" "fl_result fl = Some (Inr l) \<Longrightarrow> valid_lease l" for l
  proof -
    have "fl \<in> set (gm_flight_heap m)" unfolding fl_def using f by simp
    then show "0 < fst (fl_key fl)" "fl_result fl = Some (Inr l) \<Longrightarrow> valid_lease l"
      using inv unfolding gate_inv_def gate_with_def flights_ok_def by force+
  qed
  have ends: "gate_inv (m1\<lparr>gm_flights := a, gm_flight_heap := (gm_flight_heap m1)[f := (gm_flight_heap m1 ! f)\<lparr>fl_err := e, fl_done := True\<rparr>]\<rparr>)"
    if "gate_inv m1" for m1 :: "'a gate_manager" and a e
    using that by (simp add: gate_inv_def gate_with_def flights_update)
  have grants: "gate_inv (fold (grant_waiter (fl_key fl) l expired now) ws m) " if "valid_lease l" "user_listed m (fst (fl_key fl))" for l ws
  proof -
    have "gate_inv m' \<and> user_listed m' (fst (fl_key fl)) \<Longrightarrow>
      gate_inv (fold (grant_waiter (fl_key fl) l expired now) ws m') \<and> user_listed (fold (grant_waiter (fl_key fl) l expired now) ws m') (fst (fl_key fl))" for m' :: "'a gate_manager"
      by (induction ws arbitrary: m') (simp_all add: inv_grant fl(1) that(1))
    then show ?thesis using inv that(2) by blast
  qed
  show ?thesis
  proof (cases "fl_result fl")
    case None
    then show ?thesis using inv by (simp add: finish_admission_def Let_def fl_def)
  next
    case (Some result)
    have "admission_error f cancelled now result m = None \<Longrightarrow> \<exists>l. result = Inr l \<and> user_listed m (fst (fl_key fl))"
      unfolding admission_error_def Let_def fl_def [symmetric] by (auto split: sum.splits if_splits)
    then show ?thesis using inv Some fl(2) grants
      unfolding finish_admission_def Let_def fl_def [symmetric] Some option.case
      by (auto intro!: ends)
  qed
qed

text \<open>What all steps of an answered admission keep, the whole attempt keeps.\<close>

lemma cached_closed:
  assumes Q: "Q m"
    and res: "\<And>m r. Q m \<Longrightarrow> (case r of Inl _ \<Rightarrow> True | Inr l \<Rightarrow> valid_lease l) \<Longrightarrow> Q (set_result f r m)"
    and lose: "\<And>m run. Q m \<Longrightarrow> Q (lose_session run m)"
    and rev: "\<And>m items n run. Q m \<Longrightarrow> Q (apply_revocations items n run now m)"
    and conf: "\<And>m u. Q m \<Longrightarrow> Q (confirm_snapshot sn u m)"
    and inst: "\<And>m item d. Q m \<Longrightarrow> lease_ok item \<Longrightarrow> Q (snd (install_lease item d (sn_sequence sn) now m))"
    and count: "\<And>m. Q m \<Longrightarrow> Q (m\<lparr>gm_seq := Suc (gm_seq m)\<rparr>)"
    and omit: "\<And>m i n. Q m \<Longrightarrow> Q (set_source i ((gm_source_heap m ! i)\<lparr>so_omission_seq := n\<rparr>) m)"
  shows "Q (cached_attempt public f sn started result cancelled now m)"
proof (cases result)
  case (Inl e)
  then show ?thesis using Q by (simp add: cached_attempt_def case_prod_unfold res lose)
next
  case result: (Inr reply)
  obtain user ip where k: "fl_key (gm_flight_heap m ! f) = (user, ip)" by fastforce
  define item where "item = \<lparr>ls_confirmed = ar_confirmed reply, ls_user = user, ls_ip = ip, ls_lease = ar_lease reply,
    ls_confirmed_at = ar_confirmed_at reply, ls_expires_at = ar_expires_at reply\<rparr>"
  show ?thesis
  proof (cases "cancelled \<or> ar_sync reply = None \<or> ar_status reply \<noteq> Allowed")
    case True
    then show ?thesis using Q result
      by (auto simp: cached_attempt_def k Let_def res conf rev split: option.split admission_status.split)
  next
    case False
    then obtain sync where sync: "ar_sync reply = Some sync" and status: "ar_status reply = Allowed" by auto
    show ?thesis
    proof (cases "lease_deadline public item (ar_server_time reply) started now")
      case (Inl e)
      then show ?thesis using Q False sync result
        by (simp add: cached_attempt_def k item_def [symmetric] Let_def res conf rev)
    next
      case (Inr d)
      have ok: "lease_ok item" by (rule lease_deadline_ok [OF Inr])
      define im where "im = install_lease item d (sn_sequence sn) now (confirm_snapshot sn user
        (apply_revocations (sy_revoked sync @ ar_revoked reply) (sn_sequence sn) (sn_run sn) now m))"
      have im: "Q (snd im)" unfolding im_def by (rule inst [OF _ ok]) (simp add: Q conf rev)
      have l: "valid_lease (ar_lease reply)" using ok by (simp add: lease_ok_def item_def)
      have "Q (set_result f (Inr (ar_lease reply)) (set_source i ((gm_source_heap (snd im) ! i)\<lparr>so_omission_seq := n\<rparr>)
          ((snd im)\<lparr>gm_seq := Suc (gm_seq (snd im))\<rparr>)))" for i n
        using omit [OF count [OF im], of i n] by (intro res) (simp_all add: l)
      moreover have "Q (set_result f (Inr (ar_lease reply)) ((snd im)\<lparr>gm_seq := Suc (gm_seq (snd im))\<rparr>))"
        by (rule res) (simp_all add: count im l)
      ultimately show ?thesis using Q im False
        unfolding cached_attempt_def Let_def k prod.case result sum.case sync option.case status admission_status.case
        unfolding item_def [symmetric] unfolding Inr sum.case im_def [symmetric] case_prod_unfold
        by (cases "map_of (gm_sources (snd im)) (user, ip)") (simp_all add: res conf rev)
    qed
  qed
qed

lemma plain_closed:
  assumes Q: "Q m"
    and res: "\<And>m r. Q m \<Longrightarrow> (case r of Inl _ \<Rightarrow> True | Inr l \<Rightarrow> valid_lease l) \<Longrightarrow> Q (set_result f r m)"
    and lose: "\<And>m run. Q m \<Longrightarrow> Q (lose_session run m)"
    and rev: "\<And>m items n run. Q m \<Longrightarrow> Q (apply_revocations items n run now m)"
    and conf: "\<And>m u s. Q m \<Longrightarrow> sn = Some s \<Longrightarrow> Q (confirm_snapshot s u m)"
  shows "Q (plain_attempt f sn result cancelled now m)"
proof (cases result)
  case (Inl e)
  then show ?thesis using Q by (simp add: plain_attempt_def case_prod_unfold res lose)
next
  case (Inr reply)
  obtain user ip where k: "fl_key (gm_flight_heap m ! f) = (user, ip)" by fastforce
  define r where "r = (case sn of
                      None \<Rightarrow> (True, m)
                    | Some s \<Rightarrow>
                        (case ar_sync reply of
                           None \<Rightarrow> (False, m)
                         | Some sync \<Rightarrow>
                             if sy_run sync \<noteq> sn_run s \<or> sy_sequence sync \<noteq> sn_sequence s then (False, m)
                             else (True, apply_revocations (sy_revoked sync) 0 [] now (confirm_snapshot s user m))))"
  have r: "Q (snd r)" unfolding r_def using Q by (auto simp: conf rev split: option.split)
  have eq: "plain_attempt f sn result cancelled now m =
     (if cancelled then set_result f (Inl Cancelled) m
      else if \<not> fst r then set_result f (Inl Invalid) (snd r)
      else (case ar_status reply of
              Allowed \<Rightarrow> set_result f (if valid_lease (ar_lease reply) then Inr (ar_lease reply) else Inl Invalid) (snd r)
            | DeniedStatus \<Rightarrow> set_result f (Inl Denied) (snd r)
            | Waiting \<Rightarrow> apply_revocations (ar_revoked reply) 0 [] now (snd r)
            | OtherStatus \<Rightarrow> set_result f (Inl Invalid) (snd r)))"
    unfolding plain_attempt_def Inr Let_def k prod.case sum.case r_def case_prod_unfold fst_conv snd_conv ..
  show ?thesis
    unfolding eq using Q r by (auto simp: rev intro!: res split: admission_status.split)
qed

lemma inv_seq [simp]: "gate_inv (m\<lparr>gm_seq := n\<rparr>) = gate_inv m"
  by (simp add: gate_inv_def gate_with_def)

lemma inv_cached: "gate_inv m \<Longrightarrow> gate_inv (cached_attempt public f sn started result cancelled now m)"
  by (rule cached_closed [where Q = gate_inv])
    (simp_all add: inv_set_result inv_lose_session inv_revocations inv_confirm inv_install inv_set_source same_source_def)

lemma inv_plain: "gate_inv m \<Longrightarrow> gate_inv (plain_attempt f sn result cancelled now m)"
  by (rule plain_closed [where Q = gate_inv])
    (simp_all add: inv_set_result inv_lose_session inv_revocations inv_confirm)

lemma inv_begin: "gate_inv m \<Longrightarrow> gate_inv (snd (begin_session fresh m))"
  by (auto simp: begin_session_def Let_def gate_inv_def gate_with_def)

lemma inv_begun: "gate_inv m \<Longrightarrow> gate_inv (snd (session_begun run v r c m))"
  by (simp add: session_begun_def gate_inv_def gate_with_def)

lemma inv_start_sync: "gate_inv m \<Longrightarrow> gate_inv (snd (start_sync renewal required now m))"
  by (simp add: start_sync_def case_prod_unfold Let_def)

lemma inv_stop: "gate_inv m \<Longrightarrow> gate_inv (stop_manager m)"
  unfolding stop_manager_def using inv_close_all [of "m\<lparr>gm_closing := True, gm_ready := False, gm_stopped := True\<rparr>"]
  by (simp add: gate_inv_def gate_with_def)

lemmas gate_steps = inv_begin inv_begun inv_acquire inv_wake inv_bind inv_release inv_connect inv_set_users inv_revocations
  inv_expire inv_start_sync inv_finish_sync inv_cached inv_plain inv_finish_admission inv_stop

lemma inv_enable: "gate_inv m \<Longrightarrow> gate_inv (enable_manager m)"
  by (simp add: enable_manager_def gate_inv_def gate_with_def)

lemma inv_manager_step: "gate_inv m \<Longrightarrow> gate_inv (manager_step public calls op m)"
  by (cases op) (simp_all only: manager_step.simps inv_enable gate_steps inv_take split: if_split, simp_all add: gate_steps)

lemma inv_gate_step: "gate_inv (gw_manager w) \<Longrightarrow> gate_inv (gw_manager (gate_step public op w))"
  by (simp add: gate_step_def inv_manager_step)

lemma inv_new_gate: "gate_inv new_gate_manager"
  by (simp add: new_gate_manager_def gate_inv_def gate_with_def core_ok_def registered_ok_def held_ok_def holders_ok_def
      flights_ok_def waiters_ok_def)

interpretation gate_runs: invariant_machine "gate_step public" "\<lambda>w. gate_inv (gw_manager w)" for public
  by unfold_locales (rule inv_gate_step)

lemma inv_gate_run: "gate_inv (gw_manager (gate_run public ops))"
  unfolding gate_run_def by (rule gate_runs.run_inv) (simp add: inv_new_gate)

section \<open>Properties\<close>

definition holder_of :: "nat \<Rightarrow> 'c gate_manager \<Rightarrow> source_state" where
  "holder_of p m = gm_source_heap m ! pt_source (gm_permits m ! p)"

text \<open>C32. Whatever happened so far, a permit that is valid belongs to a source that is registered, neither revoked
  nor, under leases, past its deadline, holds the permit and has a well-formed lease, and its user is one of
  those set last.\<close>

theorem valid_permits_are_covered:
  assumes "m = gw_manager (gate_run public ops)" "p < length (gm_permits m)" "permit_valid p now m"
  shows "source_at m (so_key (holder_of p m)) = Some (holder_of p m) \<and> p \<in> set (so_permits (holder_of p m)) \<and>
    \<not> so_revoked (holder_of p m) \<and> (gm_lease_cache m \<longrightarrow> live now (holder_of p m)) \<and>
    valid_lease (so_lease (holder_of p m)) \<and> 0 < fst (so_key (holder_of p m)) \<and>
    user_listed m (fst (so_key (holder_of p m)))"
proof -
  have core: "core_ok (gm_users m) (gm_sources m) (gm_source_heap m) (gm_permits m)"
    unfolding assms(1) by (rule gate_inv_core [OF inv_gate_run])
  have v: "\<not> pt_released (gm_permits m ! p)" "\<not> so_revoked (holder_of p m)" "gm_lease_cache m \<Longrightarrow> live now (holder_of p m)"
    using assms(3) by (auto simp: permit_valid_def holder_of_def Let_def)
  have p: "pt_source (gm_permits m ! p) < length (gm_source_heap m)" "p \<in> set (so_permits (holder_of p m))"
    using core_permit [OF core assms(2)] v(1) by (simp_all add: holder_of_def)
  have reg: "map_of (gm_sources m) (so_key (holder_of p m)) = Some (pt_source (gm_permits m ! p))"
    using core_held(4) [OF core p(1), of p] p(2) by (simp add: holder_of_def)
  have e: "entry_ok (gm_users m) (so_key (holder_of p m)) (holder_of p m)"
    using core_registered(2) [OF core reg] by (simp add: holder_of_def)
  have "source_at m (so_key (holder_of p m)) = Some (holder_of p m)"
    using reg by (simp only: source_at_def option.map) (simp add: holder_of_def)
  then show ?thesis using p v e by (auto simp: entry_ok_def user_listed_def)
qed

text \<open>Setting the users disconnects exactly those that left: the permit of a user not listed is closing and invalid
  for good, the callback bound to it has run and one bound later runs at once; a permit of a user that is
  listed is left as it was.\<close>

theorem set_users_disconnects:
  assumes "m = gw_manager (gate_run public ops)" "p < length (gm_permits m)" "\<not> pt_released (gm_permits m ! p)"
  shows "if fst (so_key (holder_of p m)) \<in> set ids
    then gm_permits (set_users ids now m) ! p = gm_permits m ! p
    else \<not> permit_valid p t (set_users ids now m) \<and>
      (\<forall>c. pt_close (gm_permits m ! p) = Some c \<longrightarrow> c \<in> set (gm_closed (set_users ids now m))) \<and>
      gm_closed (bind_permit p c (set_users ids now m)) = gm_closed (set_users ids now m) @ [c]"
proof -
  have inv: "gate_inv m" unfolding assms(1) by (rule inv_gate_run)
  note core = gate_inv_core [OF inv]
  note held = core_permit [OF core assms(2)]
  have reg: "map_of (gm_sources m) (so_key (holder_of p m)) = Some (pt_source (gm_permits m ! p))"
    using core_held(4) [OF core held(1) held(2) [OF assms(3)]] by (simp add: holder_of_def)
  obtain ps m' where eq: "set_users ids now m = revoke_permits ps m'" and "gate_inv m'"
    and m': "gm_permits m' = gm_permits m" and "gm_closed m' = gm_closed m" "gm_users m' = Some ids"
    "\<And>i. same_source (gm_source_heap m ! i) (gm_source_heap m' ! i)"
    and mark: "\<And>k i. map_of (gm_sources m) k = Some i \<Longrightarrow> fst k \<notin> set ids \<Longrightarrow> so_permits (gm_source_heap m ! i) \<noteq> [] \<Longrightarrow>
       so_revoked (gm_source_heap m' ! i) \<and> set (so_permits (gm_source_heap m ! i)) \<subseteq> set ps"
    and only: "\<And>p. p \<in> set ps \<Longrightarrow> \<exists>k i. map_of (gm_sources m) k = Some i \<and> fst k \<notin> set ids \<and>
       p \<in> set (so_permits (gm_source_heap m ! i))"
    by (rule set_users_marks [OF inv, of ids now]) (rule that)
  show ?thesis
  proof (cases "fst (so_key (holder_of p m)) \<in> set ids")
    case True
    have "p \<notin> set ps"
    proof
      assume "p \<in> set ps"
      from only [OF this] obtain k i where ki: "map_of (gm_sources m) k = Some i" "fst k \<notin> set ids"
        "p \<in> set (so_permits (gm_source_heap m ! i))" by blast
      then have "pt_source (gm_permits m ! p) = i" "so_key (gm_source_heap m ! i) = k"
        using core_held(2) [OF core core_registered(1) [OF core ki(1)]] core_registered(3) [OF core ki(1)] by simp_all
      with ki(2) True show False by (simp add: holder_of_def)
    qed
    then show ?thesis using True by (simp add: eq revoke_permits_other m')
  next
    case False
    have "so_permits (gm_source_heap m ! pt_source (gm_permits m ! p)) \<noteq> []" using held(2) [OF assms(3)] by auto
    from mark [OF reg False this] held(2) [OF assms(3)] have "p \<in> set ps" by auto
    then have "shut (gm_permits (set_users ids now m) ! p)" "\<forall>c. pt_close (gm_permits m ! p) = Some c \<longrightarrow> c \<in> set (gm_closed (set_users ids now m))"
      using assms(2) m' by (auto simp: eq intro: revoke_permits_shut revoke_permits_called)
    then show ?thesis using False by (simp add: permit_valid_def Let_def bind_permit_def shut_def)
  qed
qed

section \<open>Late replies and confirmed retirements\<close>

text \<open>Events only go forward: the counter grows, an entry waiting to be confirmed is an old one or is numbered
  after everything before.\<close>

definition onward :: "'c gate_manager \<Rightarrow> 'c gate_manager \<Rightarrow> bool" where
  "onward m m' \<longleftrightarrow> gm_seq m \<le> gm_seq m' \<and>
     (\<forall>e \<in> set (gm_retired m'). e \<in> set (gm_retired m) \<or> gm_seq m < rt_sequence (snd e) \<and> rt_sequence (snd e) \<le> gm_seq m')"

lemma onward_refl [simp]: "onward m m"
  by (simp add: onward_def)

lemma onward_trans: "onward a b \<Longrightarrow> onward b c \<Longrightarrow> onward a c"
  unfolding onward_def by fastforce

lemma onward_same: "gm_seq m \<le> gm_seq m' \<Longrightarrow> set (gm_retired m') \<subseteq> set (gm_retired m) \<Longrightarrow> onward m m'"
  unfolding onward_def by blast

lemma set_al_update: "e \<in> set (AList.update k v xs) \<Longrightarrow> e = (k, v) \<or> e \<in> set xs"
  by (induction xs) (auto split: if_splits)

lemma set_al_delete: "set (AList.delete k xs) \<subseteq> set xs"
  by (auto simp: AList.delete_eq)

lemma onward_retire: "onward m (retire r m)"
  unfolding onward_def retire_def by (auto simp: Let_def dest!: set_al_update)

lemma onward_set_source: "onward m (set_source i x m)"
  by (simp add: onward_same set_source_def)

lemma onward_remove: "onward m (remove_source i m)"
  unfolding remove_source_def Let_def by (rule onward_trans [OF _ onward_retire]) (simp add: onward_same)

lemma onward_write: "onward m (write_lease i item d n m)"
  unfolding write_lease_def by (rule onward_same) (simp_all add: set_source_def set_al_delete)

lemma onward_install: "onward m (snd (install_lease item d n now m))"
proof -
  have fresh: "onward m (snd (let (i, m1) = add_source k l m in (True, write_lease i item d n m1)))" for k l and m :: "'a gate_manager"
  proof -
    have "onward m (snd (add_source k l m))" by (simp add: add_source_def onward_same Let_def)
    then show ?thesis by (simp add: case_prod_unfold Let_def onward_trans [OF _ onward_write])
  qed
  show ?thesis
    unfolding install_lease_def Let_def [of "(ls_user item, ls_ip item)"] Let_def [of "\<lambda>m. let _ = _ in _"]
    using fresh onward_trans [OF onward_remove fresh]
    by (auto simp: Let_def onward_set_source onward_write split: option.split)
qed

lemma onward_revoke_item: "onward (snd pm) (snd (revoke_item item n now pm))"
proof -
  obtain ps m where pm: "pm = (ps, m)" by (cases pm)
  define m1 where "m1 = m\<lparr>gm_seq := Suc (gm_seq m), gm_revoked := AList.update (rv_lease item)
     \<lparr>rl_until = now + (lease_grace + 60000) * 1000000, rl_barrier = Suc (gm_seq m),
      rl_sequence = max n (case map_of (gm_revoked m) (rv_lease item) of None \<Rightarrow> 0 | Some r \<Rightarrow> rl_sequence r)\<rparr> (gm_revoked m)\<rparr>"
  have m1: "onward m m1" "gm_sources m1 = gm_sources m" by (simp_all add: m1_def onward_same)
  have "onward m (retire item m1)" "onward m (set_source i x m1)" "onward m (remove_source i (set_source i x m1))" for i x
    by (blast intro: onward_trans [OF m1(1)] onward_trans [OF onward_set_source] onward_retire onward_set_source onward_remove)+
  then show ?thesis using m1(1)
    unfolding pm revoke_item_def prod.case Let_def m1_def [symmetric]
    by (simp split: option.split)
qed

lemma onward_sweep: "onward (snd pm) (snd (fold (\<lambda>item. revoke_item item n now) items pm))"
proof (induction items arbitrary: pm)
  case (Cons x items)
  show ?case using onward_trans [OF onward_revoke_item Cons.IH, of pm x n now] by simp
qed simp

lemma onward_revoke_items: "onward m (snd (revoke_items items n now m))"
  unfolding revoke_items_def
  by (rule onward_trans [OF _ onward_sweep]) (simp add: onward_same)

lemma onward_revoke_permits: "onward m (revoke_permits ps m)"
  unfolding revoke_permits_def
proof (induction ps arbitrary: m)
  case (Cons p ps)
  have "onward m (revoke_permit p m)" by (simp add: onward_same revoke_permit_def Let_def)
  then show ?case using onward_trans [OF _ Cons.IH [of "revoke_permit p m"]] by simp
qed simp

lemma onward_sweep_close: "onward m (let (ps, m') = revoke_items items n now m in revoke_permits ps m')"
  by (simp add: case_prod_unfold Let_def onward_trans [OF onward_revoke_items onward_revoke_permits])

lemma onward_revocations: "onward m (apply_revocations items n run now m)"
  using onward_sweep_close [of m items n now] by (simp add: apply_revocations_def)

lemma onward_close_all: "onward m (close_all m)"
proof -
  have one: "onward (snd pm) (snd (close_source i pm))" for i and pm :: "nat list \<times> 'a gate_manager"
    by (cases pm) (simp add: close_source_def Let_def onward_set_source onward_trans [OF onward_set_source onward_remove])
  have "onward (snd pm) (snd (fold close_source is pm))" for "is" and pm :: "nat list \<times> 'a gate_manager"
  proof (induction "is" arbitrary: pm)
    case (Cons i rest)
    show ?case using onward_trans [OF one Cons.IH, of pm i] by simp
  qed simp
  from this [of "([], m)"] show ?thesis
    by (simp add: close_all_def case_prod_unfold Let_def onward_trans [OF _ onward_revoke_permits])
qed

lemma onward_lose: "onward m (lose_session run m)"
  using onward_trans [OF _ onward_close_all, of m "m\<lparr>gm_ready := False, gm_run := [], gm_synced := 0\<rparr>"]
  by (simp add: lose_session_def onward_same)

lemma onward_expire: "onward m (expire_source i d now m)"
  by (simp add: expire_source_def Let_def onward_remove onward_revoke_permits)

lemma onward_set_users: "onward m (set_users ids now m)"
  unfolding set_users_def Let_def
  by (rule onward_trans [OF _ onward_sweep_close [unfolded Let_def]]) (simp add: onward_same)

lemma onward_take: "onward m (snd (take_snapshot now m))"
  by (simp add: take_snapshot_def Let_def onward_same)

lemma onward_confirm: "onward m (confirm_snapshot sn u m)"
  by (auto simp: confirm_snapshot_def intro: onward_same)

lemma onward_accept: "onward m (snd (accept_leases public reply n started now m))"
proof -
  have installs: "onward m (fold (\<lambda>(l, d) m. snd (install_lease l d n now m)) ds m)" for ds and m :: "'a gate_manager"
  proof (induction ds arbitrary: m)
    case (Cons x ds)
    show ?case using onward_trans [OF onward_install Cons.IH] by (simp add: case_prod_unfold)
  qed simp
  define m1 where "m1 = apply_revocations (sy_revoked reply) n (sy_run reply) now m"
  have m1: "onward m m1" unfolding m1_def by (rule onward_revocations)
  have "onward m1 (fold (\<lambda>(l, d) m. snd (install_lease l d n now m)) ds m1)" for ds by (rule installs)
  then have "onward m (revoke_permits ps (snd (revoke_items idle n now (snd (revoke_items omitted n now
      (fold (\<lambda>(l, d) m. snd (install_lease l d n now m)) ds m1))))))" for ds omitted idle ps
    by (intro onward_trans [OF m1] onward_trans [OF _ onward_revoke_permits] onward_trans [OF _ onward_revoke_items])
  then show ?thesis using m1
    unfolding accept_leases_def m1_def [symmetric] by (simp add: Let_def case_prod_unfold split: sum.split)
qed

lemma onward_give: "onward m (snd (give_permit i now m))"
  by (simp add: give_permit_def Let_def onward_same set_source_def)

lemma onward_release: "onward m (release_permit p now m)"
proof -
  have "onward m ((set_source i x m)\<lparr>gm_permits := q\<rparr>)" for i x q by (simp add: onward_same set_source_def)
  then show ?thesis unfolding release_permit_def Let_def by (simp add: onward_trans [OF _ onward_remove])
qed

lemma onward_bind: "onward m (bind_permit p c m)"
  by (simp add: bind_permit_def Let_def onward_same)

lemma onward_connect: "onward m (snd (new_connection p now m))"
  by (simp add: new_connection_def Let_def onward_same set_source_def)

lemma onward_join: "onward m (snd (join_flight k m))"
  by (auto simp: join_flight_def Let_def onward_same split: option.split)

lemma onward_acquire: "onward m (snd (acquire public user ip cancelled now m))"
proof -
  have "onward m (snd (let (p, m1) = give_permit i now m in (Granted p, m1)))" for i
    by (simp add: case_prod_unfold Let_def onward_give)
  moreover have "onward m (snd (let (f, m1) = join_flight k m; w = length (gm_waiters m1); x = gm_flight_heap m1 ! f in
               (WaitFor w, m1\<lparr>gm_waiters := gm_waiters m1 @ [\<lparr>wt_flight = f, wt_key = k, wt_permit = None\<rparr>],
                             gm_flight_heap := (gm_flight_heap m1)[f := x\<lparr>fl_waiters := fl_waiters x @ [w]\<rparr>]\<rparr>)))" for k
    using onward_join [of m k] by (simp add: case_prod_unfold Let_def onward_def)
  ultimately show ?thesis
    unfolding acquire_def Let_def [of "public ip"] Let_def [of "(user, _)"]
    by (simp only: if_distrib [of snd] snd_conv option.case_distrib [of snd]) (simp split: option.split)
qed

lemma onward_wake: "onward m (snd (wake_waiter w cancelled now m))"
proof -
  have h: "onward m (m\<lparr>gm_flight_heap := h\<rparr>)" for h by (simp add: onward_same)
  have "onward m (case c of None \<Rightarrow> m\<lparr>gm_flight_heap := h\<rparr> | Some p \<Rightarrow> release_permit p now (m\<lparr>gm_flight_heap := h\<rparr>))" for c h
    by (cases c) (simp_all add: h onward_trans [OF h onward_release])
  then show ?thesis unfolding wake_waiter_def Let_def using h by simp
qed

lemma onward_count: "onward m (m\<lparr>gm_seq := Suc (gm_seq m)\<rparr>)"
  by (simp add: onward_same)

lemma onward_set_result: "onward m (set_result f r m)"
  by (simp add: set_result_def onward_same)

lemma onward_cached: "onward m (cached_attempt public f sn started result cancelled now m)"
  by (rule cached_closed [where Q = "onward m"])
    (blast intro: onward_refl onward_trans onward_set_result onward_lose onward_revocations onward_confirm onward_install
      onward_set_source onward_count)+

lemma onward_plain: "onward m (plain_attempt f sn result cancelled now m)"
  by (rule plain_closed [where Q = "onward m"])
    (blast intro: onward_refl onward_trans onward_set_result onward_lose onward_revocations onward_confirm)+

lemma onward_fields:
  "gm_seq m' = gm_seq m \<Longrightarrow> gm_retired m' = gm_retired m \<Longrightarrow> onward m m'"
  by (simp add: onward_same)

lemma onward_finish_sync: "onward m (snd (finish_sync public call result cancelled now m))"
proof (cases result)
  case (Inl e)
  have "onward m ((lose_session run m)\<lparr>gm_confirmed := c, gm_base := b\<rparr>)" for run c b
    by (rule onward_trans [OF onward_lose [of m run]]) (simp add: onward_fields)
  then show ?thesis by (simp add: finish_sync_def Inl Let_def)
next
  case (Inr reply)
  define r where "r = (if sn_lease_cache (sc_snapshot call)
     then accept_leases public reply (sn_sequence (sc_snapshot call)) (sc_started call) now m else (None, m))"
  have r: "onward m (snd r)" unfolding r_def by (simp add: onward_accept)
  have conf: "onward m (confirm_snapshot s u ((snd r)\<lparr>gm_confirmed := c, gm_base := b\<rparr>))" for s u c b
    by (rule onward_trans [OF onward_trans [OF r] onward_confirm]) (simp add: onward_fields)
  show ?thesis
    unfolding finish_sync_def Let_def Inr sum.case r_def [symmetric] case_prod_unfold
    by (simp add: r onward_revocations conf onward_trans [OF conf onward_revocations])
qed

lemma onward_grant: "onward m (grant_waiter k l expired now w m)"
proof -
  have a: "onward m (snd (case c of Some i \<Rightarrow> (i, m) | None \<Rightarrow> add_source k l m))" for c
    by (cases c) (simp_all add: add_source_def Let_def onward_fields)
  have "onward m' (m'\<lparr>gm_waiters := ws\<rparr>)" for m' :: "'a gate_manager" and ws by (simp add: onward_fields)
  note all = onward_trans [OF onward_trans [OF a onward_give] this]
  show ?thesis unfolding grant_waiter_def Let_def case_prod_unfold by (simp add: all)
qed

lemma onward_grants: "onward m (fold (grant_waiter k l expired now) ws m)"
proof (induction ws arbitrary: m)
  case (Cons w ws)
  show ?case using onward_trans [OF onward_grant Cons.IH] by simp
qed simp

lemma onward_finish_admission: "onward m (finish_admission f cancelled expired now m)"
proof -
  have "onward m' (m'\<lparr>gm_flights := a, gm_flight_heap := b\<rparr>)" for m' :: "'a gate_manager" and a b by (simp add: onward_fields)
  note all = this [of m] onward_trans [OF onward_grants this]
  show ?thesis unfolding finish_admission_def Let_def by (simp add: all split: option.split)
qed

lemma onward_stop: "onward m (stop_manager m)"
  unfolding stop_manager_def by (simp add: onward_trans [OF _ onward_close_all] onward_fields)

lemma onward_begin: "onward m (snd (begin_session fresh m))"
  by (simp add: begin_session_def Let_def onward_fields)

lemma onward_begun: "onward m (snd (session_begun run v r c m))"
  by (simp add: session_begun_def onward_fields)

lemma onward_start_sync: "onward m (snd (start_sync renewal required now m))"
  by (simp add: start_sync_def case_prod_unfold Let_def onward_take)

lemma onward_enable: "onward m (enable_manager m)"
  by (simp add: enable_manager_def onward_fields)

lemma onward_manager_step: "onward m (manager_step public calls op m)"
  by (cases op) (simp_all only: manager_step.simps onward_enable onward_begin onward_begun onward_acquire onward_wake onward_bind
      onward_release onward_connect onward_set_users onward_revocations onward_expire onward_start_sync onward_finish_sync
      onward_cached onward_plain onward_finish_admission onward_stop onward_take onward_refl if_split simp_thms)

text \<open>Calls under way list every retirement that is not numbered after them.\<close>

definition calls_ok :: "'c gate_world \<Rightarrow> bool" where
  "calls_ok w \<longleftrightarrow> (\<forall>e \<in> set (gm_retired (gw_manager w)). rt_sequence (snd e) \<le> gm_seq (gw_manager w)) \<and>
     (\<forall>call \<in> set (gw_calls w). sn_sequence (sc_snapshot call) \<le> gm_seq (gw_manager w) \<and>
        (\<forall>e \<in> set (gm_retired (gw_manager w)). rt_sequence (snd e) \<le> sn_sequence (sc_snapshot call) \<longrightarrow>
           rt_item (snd e) \<in> set (sn_retired (sc_snapshot call))))"

lemma calls_onward:
  assumes "calls_ok w" "onward (gw_manager w) m"
  shows "calls_ok \<lparr>gw_manager = m, gw_calls = gw_calls w\<rparr>"
  unfolding calls_ok_def gate_world.simps
proof (intro conjI ballI impI)
  have seq: "gm_seq (gw_manager w) \<le> gm_seq m" using assms(2) by (simp add: onward_def)
  fix e assume "e \<in> set (gm_retired m)"
  then have e: "e \<in> set (gm_retired (gw_manager w)) \<or> gm_seq (gw_manager w) < rt_sequence (snd e) \<and> rt_sequence (snd e) \<le> gm_seq m"
    using assms(2) unfolding onward_def by blast
  then show "rt_sequence (snd e) \<le> gm_seq m" using assms(1) seq unfolding calls_ok_def by (meson le_trans)
  fix call assume c: "call \<in> set (gw_calls w)" and le: "rt_sequence (snd e) \<le> sn_sequence (sc_snapshot call)"
  have "sn_sequence (sc_snapshot call) \<le> gm_seq (gw_manager w)" using assms(1) c unfolding calls_ok_def by blast
  with e le have "e \<in> set (gm_retired (gw_manager w))" by auto
  then show "rt_item (snd e) \<in> set (sn_retired (sc_snapshot call))" using assms(1) c le unfolding calls_ok_def by blast
next
  fix call assume "call \<in> set (gw_calls w)"
  then show "sn_sequence (sc_snapshot call) \<le> gm_seq m"
    using assms unfolding calls_ok_def onward_def by (meson le_trans)
qed

lemma calls_new:
  assumes "calls_ok \<lparr>gw_manager = m, gw_calls = cs\<rparr>"
    and "\<And>call. call \<in> set new \<Longrightarrow> sn_sequence (sc_snapshot call) \<le> gm_seq m \<and>
      (\<lambda>e. rt_item (snd e)) ` set (gm_retired m) \<subseteq> set (sn_retired (sc_snapshot call))"
  shows "calls_ok \<lparr>gw_manager = m, gw_calls = cs @ new\<rparr>"
  using assms unfolding calls_ok_def by fastforce

lemma new_call_fits:
  assumes "call \<in> set (new_calls op m)"
  shows "sn_sequence (sc_snapshot call) \<le> gm_seq (manager_step public calls op m) \<and>
    (\<lambda>e. rt_item (snd e)) ` set (gm_retired (manager_step public calls op m)) \<subseteq> set (sn_retired (sc_snapshot call))"
proof -
  have "sn_sequence (fst (take_snapshot now m)) = gm_seq (snd (take_snapshot now m)) \<and>
    (\<lambda>e. rt_item (snd e)) ` set (gm_retired (snd (take_snapshot now m))) \<subseteq> set (sn_retired (fst (take_snapshot now m)))" for now
    by (auto simp: take_snapshot_def Let_def)
  then show ?thesis using assms
    by (cases op) (auto simp: start_sync_def case_prod_unfold Let_def split: if_splits)
qed

interpretation call_runs: invariant_machine "gate_step public" calls_ok for public
  by unfold_locales
    (unfold gate_step_def, intro calls_new calls_onward onward_manager_step new_call_fits)

lemma calls_ok_run: "calls_ok (gate_run public ops)"
  unfolding gate_run_def by (rule call_runs.run_inv) (simp add: calls_ok_def new_gate_manager_def)

text \<open>C33. An entry leaves the list of retirements still to be reported because a snapshot was confirmed only if that
  snapshot, whichever of those taken so far it is and whenever its reply arrives, named it.\<close>

theorem confirmed_retirements_were_reported:
  assumes "w = gate_run public ops" "call \<in> set (gw_calls w)" "e \<in> set (gm_retired (gw_manager w))"
    "e \<notin> set (gm_retired (confirm_snapshot (sc_snapshot call) user (gw_manager w)))"
  shows "rt_item (snd e) \<in> set (sn_retired (sc_snapshot call))"
proof -
  have "rt_sequence (snd e) \<le> sn_sequence (sc_snapshot call)"
    using assms(3, 4) unfolding confirm_snapshot_def by (cases e) (auto split: if_splits)
  then show ?thesis using calls_ok_run [of public ops] assms(1-3) unfolding calls_ok_def by blast
qed

definition barred :: "string \<Rightarrow> nat \<Rightarrow> 'c gate_manager \<Rightarrow> bool" where
  "barred l n m = (case map_of (gm_revoked m) l of None \<Rightarrow> False | Some r \<Rightarrow> n < rl_barrier r)"

lemma remove_revoked [simp]: "gm_revoked (remove_source i m) = gm_revoked m" "gm_revoked (retire r m) = gm_revoked m"
  "gm_revoked (set_source i x m) = gm_revoked m"
  by (simp_all add: remove_source_def retire_def set_source_def Let_def)

lemma revoke_item_barred:
  assumes "n \<le> gm_seq (snd pm)" "barred l n (snd pm) \<or> rv_lease item = l \<and> 0 < rv_user item \<and> valid_lease l"
  shows "barred l n (snd (revoke_item item 0 now pm))"
proof -
  obtain ps m where pm: "pm = (ps, m)" by (cases pm)
  show ?thesis
  proof (cases "rv_user item \<le> 0 \<or> \<not> valid_lease (rv_lease item)")
    case True
    then show ?thesis using assms by (auto simp: pm revoke_item_def)
  next
    case False
    define r where "r = \<lparr>rl_until = now + (lease_grace + 60000) * 1000000, rl_barrier = Suc (gm_seq m),
      rl_sequence = (case map_of (gm_revoked m) (rv_lease item) of None \<Rightarrow> 0 | Some r \<Rightarrow> rl_sequence r)\<rparr>"
    have "gm_revoked (snd (revoke_item item 0 now pm)) = AList.update (rv_lease item) r (gm_revoked m)"
      using False by (simp add: pm revoke_item_def Let_def r_def split: option.split)
    then show ?thesis using assms pm False by (auto simp: barred_def r_def map_of_update)
  qed
qed

lemma sweep_barred:
  "n \<le> gm_seq (snd pm) \<Longrightarrow> barred l n (snd pm) \<or> (\<exists>item \<in> set items. rv_lease item = l \<and> 0 < rv_user item) \<Longrightarrow> valid_lease l \<Longrightarrow>
   barred l n (snd (fold (\<lambda>item. revoke_item item 0 now) items pm))"
proof (induction items arbitrary: pm)
  case (Cons x items)
  let ?pm = "revoke_item x 0 now pm"
  have "gm_seq (snd pm) \<le> gm_seq (snd ?pm)" using onward_revoke_item unfolding onward_def by blast
  then have "n \<le> gm_seq (snd ?pm)" using Cons.prems(1) by simp
  moreover have "barred l n (snd ?pm) \<or> (\<exists>item \<in> set items. rv_lease item = l \<and> 0 < rv_user item)"
    using Cons.prems revoke_item_barred [of n pm l x now] by auto
  ultimately show ?case using Cons.IH [of ?pm] Cons.prems(3) by simp
qed simp

lemma barred_refused: "barred (ls_lease item) n m \<Longrightarrow> install_lease item d n t m = (False, m)"
  unfolding install_lease_def barred_def Let_def by (auto split: option.splits)

text \<open>A revoked lease is not brought back by an answer to a question asked before: whatever snapshot the manager had
  numbered until the revocation, the lease is refused under it and nothing changes.\<close>

theorem late_grant_refused:
  assumes "item \<in> set items" "0 < rv_user item" "valid_lease (rv_lease item)" "ls_lease l = rv_lease item"
    "n \<le> gm_seq m" "m' = apply_revocations items 0 [] now m"
  shows "install_lease l d n t m' = (False, m')"
proof (rule barred_refused)
  define m0 where "m0 = m\<lparr>gm_revoked := filter (\<lambda>(l, r). \<not> rl_until r < now) (gm_revoked m)\<rparr>"
  have "barred (rv_lease item) n (snd (fold (\<lambda>item. revoke_item item 0 now) items ([], m0)))"
    by (rule sweep_barred) (use assms in \<open>auto simp: m0_def\<close>)
  then show "barred (ls_lease l) n m'"
    unfolding assms(4, 6) apply_revocations_def revoke_items_def m0_def barred_def by (simp add: case_prod_unfold Let_def)
qed

section \<open>Concrete runs\<close>

text \<open>A session in which user 7 connects from 9.9.9.9, binds its connection and is then taken off the list; a
  snapshot is taken before and after.\<close>

definition demo_lease :: string where
  "demo_lease = replicate 32 (CHR ''a'')"

definition demo_reply :: admission_reply where
  "demo_reply = \<lparr>ar_confirmed = 0, ar_confirmed_at = 0, ar_expires_at = 0, ar_server_time = 0, ar_status = Allowed,
     ar_lease = demo_lease, ar_revoked = [], ar_sync = None\<rparr>"

definition demo_ops :: "nat gate_op list" where
  "demo_ops = [EnableOp, BeginOp ''r'', BegunOp ''r'' 1 ''r'' False, UsersOp [7, 8] 0, AcquireOp 7 ''9.9.9.9'' False 0,
     PlainOp 0 None (Inr demo_reply) False 0, AdmitOp 0 False [] 0, WakeOp 0 False 0, BindOp 0 5, SnapshotOp 0]"

definition demo_end :: "nat gate_op list" where
  "demo_end = demo_ops @ [UsersOp [8] 1, ReleaseOp 0 2, SnapshotOp 3]"

lemma valid_permits_are_covered_witness:
  "user_listed (gw_manager (gate_run (\<lambda>x. x) demo_ops)) (fst (so_key (holder_of 0 (gw_manager (gate_run (\<lambda>x. x) demo_ops)))))"
proof -
  have "0 < length (gm_permits (gw_manager (gate_run (\<lambda>x. x) demo_ops)))" by code_simp
  moreover have "permit_valid 0 0 (gw_manager (gate_run (\<lambda>x. x) demo_ops))" by code_simp
  ultimately show ?thesis using valid_permits_are_covered [OF refl, of 0 "\<lambda>x. x" demo_ops 0] by blast
qed

lemma set_users_disconnects_witness:
  "\<not> permit_valid 0 9 (set_users [8] 1 (gw_manager (gate_run (\<lambda>x. x) demo_ops))) \<and>
   5 \<in> set (gm_closed (set_users [8] 1 (gw_manager (gate_run (\<lambda>x. x) demo_ops))))"
proof -
  have "0 < length (gm_permits (gw_manager (gate_run (\<lambda>x. x) demo_ops)))"
    "\<not> pt_released (gm_permits (gw_manager (gate_run (\<lambda>x. x) demo_ops)) ! 0)"
    "pt_close (gm_permits (gw_manager (gate_run (\<lambda>x. x) demo_ops)) ! 0) = Some 5"
    "fst (so_key (holder_of 0 (gw_manager (gate_run (\<lambda>x. x) demo_ops)))) \<notin> set [8]"
    by code_simp+
  then show ?thesis
    using set_users_disconnects [OF refl, of 0 "\<lambda>x. x" demo_ops "[8]" 1 9 5] by (simp only: if_False) blast
qed

lemma confirmed_retirements_were_reported_witness:
  "\<exists>item. item \<in> set (sn_retired (sc_snapshot (gw_calls (gate_run (\<lambda>x. x) demo_end) ! 1))) \<and> rv_lease item = demo_lease"
proof -
  let ?w = "gate_run (\<lambda>x. x) demo_end" and ?e = "hd (gm_retired (gw_manager (gate_run (\<lambda>x. x) demo_end)))"
  have "sc_snapshot (gw_calls ?w ! 1) = sc_snapshot (gw_calls ?w ! 1)" "gw_calls ?w ! 1 \<in> set (gw_calls ?w)"
    by (rule refl) code_simp
  moreover have "?e \<in> set (gm_retired (gw_manager ?w))" by code_simp
  moreover have "?e \<notin> set (gm_retired (confirm_snapshot (sc_snapshot (gw_calls ?w ! 1)) 0 (gw_manager ?w)))" by code_simp
  ultimately have "rt_item (snd ?e) \<in> set (sn_retired (sc_snapshot (gw_calls ?w ! 1)))"
    using confirmed_retirements_were_reported [OF refl] by blast
  moreover have "rv_lease (rt_item (snd ?e)) = demo_lease" by code_simp
  ultimately show ?thesis by blast
qed

lemma late_grant_refused_witness:
  "fst (install_lease \<lparr>ls_confirmed = 9, ls_user = 7, ls_ip = ''9.9.9.9'', ls_lease = demo_lease, ls_confirmed_at = 1,
      ls_expires_at = 2\<rparr> 100 1 1 (apply_revocations [\<lparr>rv_run = [], rv_confirmed = 0, rv_user = 7, rv_ip = ''9.9.9.9'',
      rv_lease = demo_lease\<rparr>] 0 [] 0 (gw_manager (gate_run (\<lambda>x. x) demo_ops)))) = False"
proof -
  have "valid_lease demo_lease" "1 \<le> gm_seq (gw_manager (gate_run (\<lambda>x. x) demo_ops))" by code_simp+
  then show ?thesis
    by (subst late_grant_refused [OF list.set_intros(1) _ _ _ _ refl]) simp_all
qed

end
