(* ===== verification/MachineTraffic.thy ===== *)
theory MachineTraffic
  imports Prelude "HOL-Library.List_Lexorder" "HOL-Library.Char_ord"
begin

text \<open>
  Model of \<open>internal/machinetraffic\<close> (\<open>meter.go\<close>, \<open>interfaces.go\<close>): the traffic quota of a machine, its calendar of
  periods, and the choice of the interfaces that are metered.

  Times are Unix seconds. A time zone is the function that gives the offset in force at an instant (the
  data of the operating system, a parameter); \<open>time.Date\<close> and \<open>Time.In\<close> are written out over it. A
  reading of the interfaces and the outcome of writing the state file are arguments of a step. Byte
  counters are \<open>uint64\<close> words; sequence, revision and epoch numbers only count.
\<close>

section \<open>Calendar\<close>

text \<open>Months are numbered \<open>12 * year + (month - 1)\<close>, days from 1 January 1970.\<close>

definition leap_year :: "int \<Rightarrow> bool" where
  "leap_year y \<longleftrightarrow> y mod 4 = 0 \<and> (y mod 100 \<noteq> 0 \<or> y mod 400 = 0)"

definition month_length :: "int \<Rightarrow> int" where
  "month_length i = (let m = i mod 12 in
     if m = 1 then (if leap_year (i div 12) then 29 else 28) else if m \<in> {3, 5, 8, 10} then 30 else 31)"

definition year_day :: "int \<Rightarrow> int" where
  "year_day y = 365 * (y - 1) + (y - 1) div 4 - (y - 1) div 100 + (y - 1) div 400 - 719162"

definition month_day :: "int \<Rightarrow> int" where
  "month_day i = year_day (i div 12) + [0, 31, 59, 90, 120, 151, 181, 212, 243, 273, 304, 334] ! nat (i mod 12) +
     (if leap_year (i div 12) \<and> 2 \<le> i mod 12 then 1 else 0)"

lemma div_step:
  fixes k y :: int
  assumes "0 < k"
  shows "y div k = (y - 1) div k + (if y mod k = 0 then 1 else 0)"
proof (cases "y mod k = 0")
  case True
  have "(y - 1) div k = y div k - 1"
    by (rule int_div_pos_eq [of _ _ _ "k - 1"]) (use True assms in \<open>auto simp: algebra_simps\<close>)
  then show ?thesis using True by simp
next
  case False
  have r: "0 \<le> y mod k" "y mod k < k" using assms by simp_all
  have "(y - 1) div k = y div k"
    by (rule int_div_pos_eq [of _ _ _ "y mod k - 1"]) (use r False in \<open>auto simp: algebra_simps\<close>)
  then show ?thesis using False by simp
qed

lemma year_day_step: "year_day (y + 1) = year_day y + (if leap_year y then 366 else 365)"
proof -
  define p q r where "p \<longleftrightarrow> y mod 4 = 0" and "q \<longleftrightarrow> y mod 100 = 0" and "r \<longleftrightarrow> y mod 400 = 0"
  have d: "y div 4 = (y - 1) div 4 + (if p then 1 else 0)" "y div 100 = (y - 1) div 100 + (if q then 1 else 0)"
    "y div 400 = (y - 1) div 400 + (if r then 1 else 0)"
    unfolding p_def q_def r_def by (rule div_step, simp)+
  have m: "q \<Longrightarrow> p" "r \<Longrightarrow> q"
    unfolding p_def q_def r_def mod_eq_0_iff_dvd by (erule dvd_trans [rotated], simp)+
  have l: "leap_year y \<longleftrightarrow> p \<and> (\<not> q \<or> r)" by (simp add: leap_year_def p_def q_def r_def)
  define a b c where "a = (y - 1) div 4" and "b = (y - 1) div 100" and "c = (y - 1) div 400"
  have here: "year_day y = 365 * (y - 1) + a - b + c - 719162" unfolding year_day_def a_def b_def c_def ..
  have there: "year_day (y + 1) = 365 * y + (a + (if p then 1 else 0)) - (b + (if q then 1 else 0)) +
      (c + (if r then 1 else 0)) - 719162"
    unfolding year_day_def add_diff_cancel_right' d a_def b_def c_def ..
  have "\<not> p \<and> \<not> q \<and> \<not> r \<or> p \<and> \<not> q \<and> \<not> r \<or> p \<and> q \<and> \<not> r \<or> p \<and> q \<and> r" using m by blast
  then show ?thesis unfolding l here there by (elim disjE) simp_all
qed

lemma month_cases:
  fixes m :: int
  assumes "0 \<le> m" "m < 11"
  obtains "m = 0" | "m = 1" | "m = 2" | "m = 3" | "m = 4" | "m = 5" | "m = 6" | "m = 7" | "m = 8" | "m = 9" | "m = 10"
proof -
  have "m = 0 \<or> m = 1 \<or> m = 2 \<or> m = 3 \<or> m = 4 \<or> m = 5 \<or> m = 6 \<or> m = 7 \<or> m = 8 \<or> m = 9 \<or> m = 10"
    using assms by presburger
  then show thesis using that by blast
qed

lemma month_day_step: "month_day (i + 1) = month_day i + month_length i"
proof -
  define y where "y = i div 12"
  define m where "m = i mod 12"
  have i: "i div 12 = y" "i mod 12 = m" "0 \<le> m" "m < 12" by (simp_all add: y_def m_def)
  have e0: "i = 12 * y + m" by (simp add: y_def m_def)
  show ?thesis
  proof (cases "m = 11")
    case True
    then have "i + 1 = 12 * (y + 1)" unfolding e0 by simp
    then have "(i + 1) mod 12 = 0" "(i + 1) div 12 = y + 1" by simp_all
    then show ?thesis using True year_day_step [of y]
      by (simp add: month_day_def month_length_def i)
  next
    case False
    then have m: "m < 11" using i(4) by simp
    have e: "i + 1 = 12 * y + (m + 1)" unfolding e0 by simp
    have d: "(i + 1) mod 12 = m + 1" "(i + 1) div 12 = y" unfolding e using m i(3) by simp_all
    from i(3) m show ?thesis unfolding month_day_def month_length_def d i(1, 2) Let_def
      by (cases rule: month_cases) simp_all
  qed
qed

lemma month_length_bounds: "28 \<le> month_length i" "month_length i \<le> 31"
  by (simp_all add: month_length_def Let_def)

lemma month_day_epoch: "month_day (12 * 1970) = 0"
  by (simp add: month_day_def year_day_def leap_year_def)

lemma month_day_up: "28 * int n \<le> month_day (i + int n) - month_day i" "month_day (i + int n) - month_day i \<le> 31 * int n"
proof (induction n)
  case (Suc n)
  case 1
  show ?case using Suc(1) month_day_step [of "i + int n"] month_length_bounds [of "i + int n"] by (simp add: algebra_simps)
  case 2
  show ?case using Suc(2) month_day_step [of "i + int n"] month_length_bounds [of "i + int n"] by (simp add: algebra_simps)
qed simp_all

lemma month_day_mono: "i \<le> j \<Longrightarrow> month_day i \<le> month_day j"
  using month_day_up(1) [of "nat (j - i)" i] by simp

function month_search :: "int \<Rightarrow> int \<Rightarrow> int" where
  "month_search i d = (if d < month_day (i + 1) then i else month_search (i + 1) d)"
  by auto

termination
proof (relation "measure (\<lambda>(i, d). nat (d + 1 - month_day i))")
  fix i d assume "\<not> d < month_day (i + 1)"
  then show "((i + 1, d), i, d) \<in> measure (\<lambda>(i, d). nat (d + 1 - month_day i))"
    using month_day_step [of i] month_length_bounds [of i] by simp
qed simp

declare month_search.simps [simp del]

text \<open>The month of a day; the search starts at a month that is not later.\<close>

definition month_of :: "int \<Rightarrow> int" where
  "month_of d = month_search (12 * 1970 + (if d < 0 then d div 28 else d div 31)) d"

lemma month_search_finds: "month_day i \<le> d \<Longrightarrow> month_day (month_search i d) \<le> d \<and> d < month_day (month_search i d + 1)"
proof (induction i d rule: month_search.induct)
  case (1 i d)
  then show ?case by (cases "d < month_day (i + 1)") (simp_all add: month_search.simps [of i d])
qed

lemma month_of: "month_day (month_of d) \<le> d" "d < month_day (month_of d + 1)"
proof -
  have "month_day (12 * 1970 + (if d < 0 then d div 28 else d div 31)) \<le> d"
  proof (cases "d < 0")
    case True
    define n where "n = nat (- (d div 28))"
    have n: "int n = - (d div 28)" using True by (simp add: n_def div_nonpos_pos_le0)
    have "28 * int n \<le> month_day (12 * 1970) - month_day (12 * 1970 + d div 28)"
      using month_day_up(1) [of n "12 * 1970 + d div 28"] n by simp
    moreover have "28 * (d div 28) \<le> d" using mult_div_mod_eq [of 28 d] pos_mod_sign [of 28 d] by linarith
    ultimately show ?thesis using True n month_day_epoch by simp
  next
    case False
    define n where "n = nat (d div 31)"
    have n: "int n = d div 31" using False by (simp add: n_def pos_imp_zdiv_nonneg_iff)
    have "month_day (12 * 1970 + d div 31) - month_day (12 * 1970) \<le> 31 * (d div 31)"
      using month_day_up(2) [of "12 * 1970" n] n by simp
    moreover have "31 * (d div 31) \<le> d" using mult_div_mod_eq [of 31 d] pos_mod_sign [of 31 d] by linarith
    ultimately show ?thesis using False month_day_epoch by simp
  qed
  from month_search_finds [OF this] show "month_day (month_of d) \<le> d" "d < month_day (month_of d + 1)"
    by (simp_all add: month_of_def)
qed

lemma month_of_unique: "month_day i \<le> d \<Longrightarrow> d < month_day (i + 1) \<Longrightarrow> month_of d = i"
  using month_of [of d] month_day_mono [of "i + 1" "month_of d"] month_day_mono [of "month_of d + 1" i] by linarith

text \<open>\<open>Time.In\<close> and \<open>time.Date\<close> at midnight, in the zone with offsets \<open>off\<close>.\<close>

definition local_day :: "(int \<Rightarrow> int) \<Rightarrow> int \<Rightarrow> int" where
  "local_day off t = (t + off t) div 86400"

definition date_unix :: "(int \<Rightarrow> int) \<Rightarrow> int \<Rightarrow> int" where
  "date_unix off d = (let u = 86400 * d in if off u = 0 then u else u - off (u - off u))"

definition boundary_day :: "int \<Rightarrow> int \<Rightarrow> int" where
  "boundary_day i day = month_day i + min day (month_length i) - 1"

definition boundary :: "(int \<Rightarrow> int) \<Rightarrow> int \<Rightarrow> int \<Rightarrow> int" where
  "boundary off i day = date_unix off (boundary_day i day)"

definition period :: "(int \<Rightarrow> int) \<Rightarrow> int \<Rightarrow> int \<Rightarrow> int \<times> int" where
  "period off now day =
     (let i = month_of (local_day off now);
          here = boundary off i day;
          start = (if now < here then boundary off (i - 1) day else here) in
      (start, boundary off (month_of (local_day off start) + 1) day))"

text \<open>A zone in which a day begins at the instant \<open>time.Date\<close> gives for its midnight.\<close>

definition regular_zone :: "(int \<Rightarrow> int) \<Rightarrow> bool" where
  "regular_zone off \<longleftrightarrow> (\<forall>d. local_day off (date_unix off d) = d) \<and> (\<forall>d t. date_unix off d \<le> t \<longleftrightarrow> d \<le> local_day off t)"

lemma boundary_day_in_month:
  "1 \<le> day \<Longrightarrow> month_day i \<le> boundary_day i day \<and> boundary_day i day < month_day (i + 1)"
  using month_length_bounds [of i] month_day_step [of i] by (simp add: boundary_day_def)

lemma boundary_day_mono: "1 \<le> day \<Longrightarrow> i < j \<Longrightarrow> boundary_day i day < boundary_day j day"
  using boundary_day_in_month [of day i] boundary_day_in_month [of day j] month_day_mono [of "i + 1" j] by linarith

lemma period_regular:
  assumes reg: "regular_zone off" and day: "1 \<le> day"
  obtains j where "period off now day = (boundary off j day, boundary off (j + 1) day)"
    "boundary_day j day \<le> local_day off now" "local_day off now < boundary_day (j + 1) day"
proof -
  define d where "d = local_day off now"
  define i where "i = month_of d"
  define j where "j = (if d < boundary_day i day then i - 1 else i)"
  have le: "boundary off k day \<le> t \<longleftrightarrow> boundary_day k day \<le> local_day off t" for k t
    using reg by (simp add: regular_zone_def boundary_def)
  have start: "local_day off (boundary off k day) = boundary_day k day" for k
    using reg by (simp add: regular_zone_def boundary_def)
  have month: "month_of (boundary_day k day) = k" for k
    using boundary_day_in_month [OF day, of k] by (intro month_of_unique) simp_all
  have "(if now < boundary off i day then boundary off (i - 1) day else boundary off i day) = boundary off j day"
    using le [of i now] by (auto simp: j_def d_def)
  then have "period off now day = (boundary off j day, boundary off (j + 1) day)"
    by (simp add: period_def Let_def d_def [symmetric] i_def [symmetric] start month)
  moreover have "boundary_day j day \<le> d" "d < boundary_day (j + 1) day"
    using month_of [of d] boundary_day_in_month [OF day, of i] boundary_day_in_month [OF day, of "i - 1"]
      boundary_day_in_month [OF day, of "i + 1"] unfolding j_def i_def [symmetric]
    by (auto split: if_splits)
  ultimately show thesis using that by (simp add: d_def)
qed

text \<open>In such a zone the period computed at an instant contains it, and every instant in it, and only those,
  has the same period: the periods follow each other without gap or overlap.\<close>

theorem periods_partition_time:
  assumes "regular_zone off" "1 \<le> day" "period off now day = (s, e)"
  shows "s \<le> now \<and> now < e \<and> (\<forall>t. period off t day = (s, e) \<longleftrightarrow> s \<le> t \<and> t < e)"
proof -
  have le: "boundary off k day \<le> t \<longleftrightarrow> boundary_day k day \<le> local_day off t" for k t
    using assms(1) by (simp add: regular_zone_def boundary_def)
  obtain j where j: "(s, e) = (boundary off j day, boundary off (j + 1) day)"
    "boundary_day j day \<le> local_day off now" "local_day off now < boundary_day (j + 1) day"
    by (rule period_regular [OF assms(1, 2), of now]) (use assms(3) in simp)
  have within: "s \<le> t \<and> t < e \<longleftrightarrow> boundary_day j day \<le> local_day off t \<and> local_day off t < boundary_day (j + 1) day" for t
    using j(1) le [of j t] le [of "j + 1" t] by auto
  have "period off t day = (s, e) \<longleftrightarrow> s \<le> t \<and> t < e" for t
  proof -
    obtain k where k: "period off t day = (boundary off k day, boundary off (k + 1) day)"
      "boundary_day k day \<le> local_day off t" "local_day off t < boundary_day (k + 1) day"
      by (rule period_regular [OF assms(1, 2), of t])
    have "boundary off k day = boundary off j day \<longleftrightarrow> boundary_day k day = boundary_day j day"
      using assms(1) by (metis boundary_def regular_zone_def)
    moreover have "boundary_day k day = boundary_day j day \<longleftrightarrow> k = j"
      using boundary_day_mono [OF assms(2)] by (metis linorder_neq_iff)
    moreover have "k = j \<longleftrightarrow> s \<le> t \<and> t < e"
    proof
      assume *: "s \<le> t \<and> t < e"
      have "\<not> k < j" using k(3) within [of t] * boundary_day_mono [OF assms(2), of "k + 1" j] by (cases "k + 1 = j") auto
      moreover have "\<not> j < k" using k(2) within [of t] * boundary_day_mono [OF assms(2), of "j + 1" k] by (cases "j + 1 = k") auto
      ultimately show "k = j" by simp
    qed (use k within [of t] in auto)
    ultimately show ?thesis using k(1) j(1) by auto
  qed
  moreover have "s \<le> now \<and> now < e" using within j(2, 3) by blast
  ultimately show ?thesis by blast
qed

lemma regular_constant: "regular_zone (\<lambda>t. c)"
proof -
  have div: "d \<le> n div 86400 \<longleftrightarrow> 86400 * d \<le> n" for d n :: int
  proof -
    define q r where "q = n div 86400" and "r = n mod 86400"
    have "n = 86400 * q + r" "0 \<le> r" "r < 86400" by (simp_all add: q_def r_def)
    then show ?thesis unfolding q_def [symmetric] by linarith
  qed
  have unix: "date_unix (\<lambda>t. c) d = 86400 * d - c" for d by (simp add: date_unix_def Let_def)
  show ?thesis unfolding regular_zone_def unix local_day_def div by auto
qed

lemma periods_partition_time_witness:
  "fst (period (\<lambda>t. 28800) 1709222400 31) \<le> 1709222400 \<and> 1709222400 < snd (period (\<lambda>t. 28800) 1709222400 31)"
  using periods_partition_time [OF regular_constant, of 31 28800 1709222400 "fst (period (\<lambda>t. 28800) 1709222400 31)"
    "snd (period (\<lambda>t. 28800) 1709222400 31)"] by simp

text \<open>Paraguay put its clocks forward at midnight of 1 October 2023.\<close>

definition gap_zone :: "int \<Rightarrow> int" where
  "gap_zone t = (if t < 1696132800 then - 14400 else - 10800)"

lemma gap_october:
  assumes "1696132800 \<le> now" "now < 1698807600"
  shows "period gap_zone now 1 = (1696129200, 1696129200)"
proof -
  have day: "19631 \<le> local_day gap_zone now" "local_day gap_zone now < 19662"
  proof -
    define q r where "q = (now - 10800) div 86400" and "r = (now - 10800) mod 86400"
    have qr: "now - 10800 = 86400 * q + r" "0 \<le> r" "r < 86400" by (simp_all add: q_def r_def)
    have "local_day gap_zone now = q" using assms by (simp add: local_day_def gap_zone_def q_def)
    then show "19631 \<le> local_day gap_zone now" "local_day gap_zone now < 19662" using qr assms by linarith+
  qed
  have months: "month_day 24285 = 19631" "month_day (24285 + 1) = 19662" "month_day 24284 = 19601" by code_simp+
  have oct: "month_of (local_day gap_zone now) = 24285" by (rule month_of_unique) (use day months in simp_all)
  have start: "boundary gap_zone 24285 1 = 1696129200" by code_simp
  have "local_day gap_zone 1696129200 = 19630" by code_simp
  then have sep: "month_of (local_day gap_zone 1696129200) = 24284" by (intro month_of_unique) (use months in simp_all)
  show ?thesis using assms by (simp add: period_def Let_def oct start sep)
qed

section \<open>The meter\<close>

datatype meter_mode = Outbound | BothWays | ProxyMode | OtherMode

datatype sample_error = NoError | StateLost | InterfacesUnavailable | StateWriteFailed

record policy =
  mp_limit :: u64
  mp_mode :: meter_mode
  mp_reset_day :: int
  mp_zone :: string
  mp_interfaces :: "string list"
  mp_revision :: nat
  mp_epoch :: nat
  mp_start :: int
  mp_end :: int
  mp_rx :: u64
  mp_tx :: u64
  mp_proxy_rx :: u64
  mp_proxy_tx :: u64
  mp_baseline :: u64
  mp_sequence :: nat
  mp_initialized :: bool
  mp_active :: bool

record meter_sample =
  ms_epoch :: nat
  ms_start :: int
  ms_sequence :: nat
  ms_rx :: u64
  ms_tx :: u64
  ms_initialized :: bool
  ms_error :: sample_error
  ms_interfaces :: "string list"

record counter =
  ct_identity :: string
  ct_rx :: u64
  ct_tx :: u64

record reading =
  rd_boot :: string
  rd_counters :: "(string, counter) go_map"

record meter_state =
  md_version :: nat
  md_policy :: policy
  md_sample :: meter_sample
  md_previous :: reading

datatype state_file = NoFile | Unreadable | Stored meter_state

record meter =
  mt_state :: meter_state
  mt_loaded :: bool
  mt_lost :: bool
  mt_write_failed :: bool
  mt_confirmed :: "int option"
  mt_file :: state_file

definition no_policy :: policy where
  "no_policy = \<lparr>mp_limit = 0, mp_mode = OtherMode, mp_reset_day = 0, mp_zone = [], mp_interfaces = [], mp_revision = 0,
     mp_epoch = 0, mp_start = 0, mp_end = 0, mp_rx = 0, mp_tx = 0, mp_proxy_rx = 0, mp_proxy_tx = 0, mp_baseline = 0,
     mp_sequence = 0, mp_initialized = False, mp_active = False\<rparr>"

definition new_sample :: "nat \<Rightarrow> int \<Rightarrow> meter_sample" where
  "new_sample epoch start = \<lparr>ms_epoch = epoch, ms_start = start, ms_sequence = 0, ms_rx = 0, ms_tx = 0, ms_initialized = False,
     ms_error = NoError, ms_interfaces = []\<rparr>"

definition no_reading :: reading where
  "no_reading = \<lparr>rd_boot = [], rd_counters = []\<rparr>"

definition new_meter :: "state_file \<Rightarrow> meter" where
  "new_meter file =
     (let m = \<lparr>mt_state = \<lparr>md_version = 0, md_policy = no_policy, md_sample = new_sample 0 0, md_previous = no_reading\<rparr>,
              mt_loaded = False, mt_lost = False, mt_write_failed = False, mt_confirmed = None, mt_file = file\<rparr> in
      case file of
        NoFile \<Rightarrow> m
      | Unreadable \<Rightarrow> m\<lparr>mt_lost := True\<rparr>
      | Stored s \<Rightarrow>
          if md_version s = 1 \<and> 0 < mp_epoch (md_policy s)
          then m\<lparr>mt_state := s, mt_loaded := True, mt_lost := (ms_error (md_sample s) = StateLost)\<rparr>
          else m\<lparr>mt_state := s, mt_lost := True\<rparr>)"

definition save_meter :: "bool \<Rightarrow> meter \<Rightarrow> meter" where
  "save_meter ok m = (if ok then m\<lparr>mt_write_failed := False, mt_file := Stored (mt_state m)\<rparr> else m\<lparr>mt_write_failed := True\<rparr>)"

definition max_bytes :: u64 where
  "max_bytes = 9007199254740991"

definition add_bytes :: "u64 \<Rightarrow> u64 \<Rightarrow> u64" where
  "add_bytes a b = (if max_bytes \<le> a \<or> max_bytes - a \<le> b then max_bytes else a + b)"

definition delta_bytes :: "u64 \<Rightarrow> u64 \<Rightarrow> bool \<Rightarrow> u64" where
  "delta_bytes current previous reset = (if reset \<or> current < previous then current else current - previous)"

text \<open>\<open>Apply\<close>: \<open>None\<close> for a policy that is refused.\<close>

definition policy_refused :: "(string \<Rightarrow> (int \<Rightarrow> int) option) \<Rightarrow> policy \<Rightarrow> bool" where
  "policy_refused zones p \<longleftrightarrow> mp_epoch p = 0 \<or> mp_revision p = 0 \<or> mp_reset_day p < 1 \<or> 31 < mp_reset_day p \<or>
     mp_end p \<le> mp_start p \<or> mp_mode p = OtherMode \<or> zones (mp_zone p) = None"

definition fresh_meter_state :: "policy \<Rightarrow> meter_state" where
  "fresh_meter_state p = \<lparr>md_version = 1, md_policy = p, md_sample = (new_sample (mp_epoch p) (mp_start p))
     \<lparr>ms_rx := mp_rx p, ms_tx := mp_tx p, ms_sequence := mp_sequence p\<rparr>, md_previous = no_reading\<rparr>"

definition merge_policy :: "policy \<Rightarrow> meter \<Rightarrow> meter" where
  "merge_policy p m =
     (let s = mt_state m; old = md_policy s;
          p1 = (if mp_start p < mp_start old
                then p\<lparr>mp_start := mp_start old, mp_end := mp_end old, mp_baseline := mp_baseline old, mp_rx := 0, mp_tx := 0,
                       mp_sequence := 0, mp_proxy_rx := mp_proxy_rx old, mp_proxy_tx := mp_proxy_tx old\<rparr>
                else p);
          later = mp_start old < mp_start p;
          sample1 = (if later then new_sample (mp_epoch p) (mp_start p) else md_sample s);
          previous1 = (if later \<and> mt_lost m then no_reading else md_previous s);
          previous2 = (if mp_interfaces p1 \<noteq> mp_interfaces old then no_reading else previous1);
          sample2 = (if (mp_mode p1 = ProxyMode) \<noteq> (mp_mode old = ProxyMode)
                     then sample1\<lparr>ms_initialized := False, ms_error := NoError, ms_interfaces := []\<rparr> else sample1);
          p2 = (if mp_start p1 = mp_start old
                then p1\<lparr>mp_proxy_rx := max (mp_proxy_rx p1) (mp_proxy_rx old), mp_proxy_tx := max (mp_proxy_tx p1) (mp_proxy_tx old)\<rparr>
                else p1);
          sample3 = (if ms_start sample2 = mp_start p2
                     then sample2\<lparr>ms_rx := max (ms_rx sample2) (mp_rx p2), ms_tx := max (ms_tx sample2) (mp_tx p2),
                                  ms_sequence := max (ms_sequence sample2) (mp_sequence p2)\<rparr>
                     else sample2) in
      m\<lparr>mt_lost := (mt_lost m \<and> \<not> later),
        mt_state := s\<lparr>md_policy := p2, md_sample := sample3, md_previous := previous2\<rparr>\<rparr>)"

definition apply_policy :: "(string \<Rightarrow> (int \<Rightarrow> int) option) \<Rightarrow> policy \<Rightarrow> int \<Rightarrow> bool \<Rightarrow> meter \<Rightarrow> bool \<times> meter" where
  "apply_policy zones p now ok m =
     (if policy_refused zones p then (False, m)
      else if mt_loaded m \<and> mp_revision p < mp_revision (md_policy (mt_state m)) then (True, m)
      else let m1 = (if \<not> mt_loaded m \<or> mp_epoch p \<noteq> mp_epoch (md_policy (mt_state m))
                     then m\<lparr>mt_lost := mp_initialized p, mt_state := fresh_meter_state p, mt_loaded := True\<rparr>
                     else merge_policy p m) in
        (ok, save_meter ok (m1\<lparr>mt_confirmed := Some now\<rparr>)))"

definition period_of :: "(string \<Rightarrow> (int \<Rightarrow> int) option) \<Rightarrow> int \<Rightarrow> int \<Rightarrow> string \<Rightarrow> int \<times> int" where
  "period_of zones now day zone =
     (case zones zone of None \<Rightarrow> (0, 0) | Some off \<Rightarrow> if day < 1 \<or> 31 < day then (0, 0) else period off now day)"

definition start_period :: "(string \<Rightarrow> (int \<Rightarrow> int) option) \<Rightarrow> int \<Rightarrow> meter \<Rightarrow> meter" where
  "start_period zones now m =
     (let s = mt_state m; p = md_policy s in
      if now < mp_end p then m
      else let (b, e) = period_of zones now (mp_reset_day p) (mp_zone p) in
        m\<lparr>mt_lost := False,
          mt_state := s\<lparr>md_policy := p\<lparr>mp_start := b, mp_end := e, mp_baseline := 0, mp_proxy_rx := 0, mp_proxy_tx := 0\<rparr>,
                        md_sample := new_sample (mp_epoch p) b,
                        md_previous := (if mt_lost m then no_reading else md_previous s)\<rparr>\<rparr>)"

definition count_interface :: "reading \<Rightarrow> string \<Rightarrow> string \<times> counter \<Rightarrow> meter_sample \<Rightarrow> meter_sample" where
  "count_interface previous boot e s =
     (case e of (name, c) \<Rightarrow>
      if rd_boot previous = [] then s
      else let old = map_of (rd_counters previous) name;
               prev = (case old of None \<Rightarrow> \<lparr>ct_identity = [], ct_rx = 0, ct_tx = 0\<rparr> | Some x \<Rightarrow> x);
               reset = (old = None \<or> boot \<noteq> rd_boot previous \<or> ct_identity c \<noteq> ct_identity prev) in
        s\<lparr>ms_rx := add_bytes (ms_rx s) (delta_bytes (ct_rx c) (ct_rx prev) reset),
          ms_tx := add_bytes (ms_tx s) (delta_bytes (ct_tx c) (ct_tx prev) reset)\<rparr>)"

definition measure_traffic :: "reading option \<Rightarrow> meter \<Rightarrow> meter" where
  "measure_traffic result m =
     (let s = mt_state m; x = (md_sample s)\<lparr>ms_sequence := Suc (ms_sequence (md_sample s))\<rparr> in
      if mp_mode (md_policy s) = ProxyMode
      then m\<lparr>mt_state := s\<lparr>md_sample := x\<lparr>ms_error := NoError, ms_initialized := True, ms_interfaces := []\<rparr>\<rparr>\<rparr>
      else if mt_lost m then m\<lparr>mt_state := s\<lparr>md_sample := x\<lparr>ms_error := StateLost, ms_initialized := False\<rparr>\<rparr>\<rparr>
      else case result of
        None \<Rightarrow> m\<lparr>mt_state := s\<lparr>md_sample := x\<lparr>ms_error := InterfacesUnavailable\<rparr>\<rparr>\<rparr>
      | Some r \<Rightarrow>
          if rd_counters r = [] \<or> rd_boot r = []
          then m\<lparr>mt_state := s\<lparr>md_sample := x\<lparr>ms_error := InterfacesUnavailable\<rparr>\<rparr>\<rparr>
          else m\<lparr>mt_state := s\<lparr>md_sample := (fold (count_interface (md_previous s) (rd_boot r)) (rd_counters r) (x\<lparr>ms_error := NoError\<rparr>))
                   \<lparr>ms_interfaces := sort (map fst (rd_counters r)), ms_initialized := True\<rparr>, md_previous := r\<rparr>\<rparr>)"

definition proxy_timeout :: int where
  "proxy_timeout = 180"

definition blocked :: "int \<Rightarrow> meter \<Rightarrow> bool" where
  "blocked now m =
     (let p = md_policy (mt_state m); s = md_sample (mt_state m) in
      if \<not> mt_loaded m \<or> \<not> mp_active p then True
      else if mp_limit p = 0 then False
      else if mp_mode p = ProxyMode then
        mt_write_failed m \<or> \<not> ms_initialized s \<or> ms_error s \<noteq> NoError \<or>
        (case mt_confirmed m of None \<Rightarrow> True | Some c \<Rightarrow> proxy_timeout \<le> now - c) \<or>
        mp_limit p \<le> add_bytes (mp_proxy_rx p) (mp_proxy_tx p)
      else let used = add_bytes (mp_baseline p) (ms_tx s);
               used' = (if mp_mode p = BothWays then add_bytes used (ms_rx s) else used) in
        mt_lost m \<or> mt_write_failed m \<or> \<not> ms_initialized s \<or> ms_error s \<noteq> NoError \<or> mp_limit p \<le> used')"

text \<open>\<open>Tick\<close>, with the sample it returns left in the state; a sample that could not be written is marked.\<close>

definition tick :: "(string \<Rightarrow> (int \<Rightarrow> int) option) \<Rightarrow> int \<Rightarrow> reading option \<Rightarrow> bool \<Rightarrow> meter \<Rightarrow> bool \<times> meter" where
  "tick zones now result ok m =
     (if \<not> mt_loaded m then (True, m)
      else let m1 = save_meter ok (measure_traffic result (start_period zones now m));
               s = mt_state m1;
               m2 = (if ok then m1 else m1\<lparr>mt_state := s\<lparr>md_sample := (md_sample s)\<lparr>ms_error := StateWriteFailed\<rparr>\<rparr>\<rparr>) in
        (blocked now m2, m2))"

section \<open>Counting\<close>

abbreviation max_nat :: nat where
  "max_nat \<equiv> 9007199254740991"

lemma unat_max_bytes: "unat max_bytes = max_nat"
  by (simp add: max_bytes_def)

lemma unat_add_bytes: "unat (add_bytes a b) = min max_nat (unat a + unat b)"
proof (cases "max_bytes \<le> a")
  case True
  then have "max_nat \<le> unat a" using unat_max_bytes by (simp add: word_le_nat_alt)
  then show ?thesis using True by (simp add: add_bytes_def unat_max_bytes)
next
  case False
  then have a: "unat a < max_nat" using unat_max_bytes by (simp add: word_le_nat_alt not_le)
  have d: "unat (max_bytes - a) = max_nat - unat a" using False unat_max_bytes by (simp add: unat_sub word_le_nat_alt)
  show ?thesis
  proof (cases "max_bytes - a \<le> b")
    case True
    then have "max_nat - unat a \<le> unat b" using d by (simp add: word_le_nat_alt)
    then show ?thesis using True by (simp add: add_bytes_def unat_max_bytes)
  next
    case b: False
    then have "unat b < max_nat - unat a" using d by (simp add: word_le_nat_alt not_le)
    then have s: "unat a + unat b < max_nat" by simp
    then have "unat (a + b) = unat a + unat b" by (subst unat_add_lem [THEN iffD1]) simp_all
    then show ?thesis using False b s by (simp add: add_bytes_def)
  qed
qed

lemma unat_delta_bytes: "p \<le> c \<Longrightarrow> unat (delta_bytes c p False) = unat c - unat p"
  by (simp add: delta_bytes_def unat_sub not_less [symmetric])

section \<open>Quota\<close>

definition used_bytes :: "meter \<Rightarrow> nat" where
  "used_bytes m = (let p = md_policy (mt_state m); s = md_sample (mt_state m) in
     if mp_mode p = ProxyMode then unat (mp_proxy_rx p) + unat (mp_proxy_tx p)
     else unat (mp_baseline p) + unat (ms_tx s) + (if mp_mode p = BothWays then unat (ms_rx s) else 0))"


section \<open>Measuring\<close>

definition total :: "(counter \<Rightarrow> u64) \<Rightarrow> reading \<Rightarrow> nat" where
  "total f r = (\<Sum>e \<leftarrow> rd_counters r. unat (f (snd e)))"

text \<open>A reading that continues another: same boot, same interfaces, no counter goes back.\<close>

definition continues :: "reading \<Rightarrow> reading \<Rightarrow> bool" where
  "continues r r' \<longleftrightarrow> rd_boot r' = rd_boot r \<and> rd_boot r \<noteq> [] \<and> rd_counters r' \<noteq> [] \<and>
     distinct_keys (rd_counters r') \<and> distinct_keys (rd_counters r) \<and>
     fst ` set (rd_counters r') = fst ` set (rd_counters r) \<and>
     (\<forall>(k, c) \<in> set (rd_counters r'). case map_of (rd_counters r) k of None \<Rightarrow> False
        | Some c' \<Rightarrow> ct_identity c = ct_identity c' \<and> ct_rx c' \<le> ct_rx c \<and> ct_tx c' \<le> ct_tx c)"

definition growth :: "(counter \<Rightarrow> u64) \<Rightarrow> reading \<Rightarrow> string \<times> counter \<Rightarrow> nat" where
  "growth f r e = unat (f (snd e)) - (case map_of (rd_counters r) (fst e) of None \<Rightarrow> 0 | Some c \<Rightarrow> unat (f c))"

lemma total_keys: "distinct_keys (rd_counters r) \<Longrightarrow>
  total f r = (\<Sum>k \<in> fst ` set (rd_counters r). case map_of (rd_counters r) k of None \<Rightarrow> 0 | Some c \<Rightarrow> unat (f c))"
proof -
  assume d: "distinct_keys (rd_counters r)"
  have inj: "inj_on fst (set (rd_counters r))" using d by (simp add: distinct_map)
  have "total f r = (\<Sum>e \<in> set (rd_counters r). unat (f (snd e)))"
    unfolding total_def using d by (intro sum_list_distinct_conv_sum_set) (simp add: distinct_map)
  also have "\<dots> = (\<Sum>e \<in> set (rd_counters r). case map_of (rd_counters r) (fst e) of None \<Rightarrow> 0 | Some c \<Rightarrow> unat (f c))"
    using d by (intro sum.cong) auto
  also have "\<dots> = (\<Sum>k \<in> fst ` set (rd_counters r). case map_of (rd_counters r) k of None \<Rightarrow> 0 | Some c \<Rightarrow> unat (f c))"
    by (simp add: sum.reindex [OF inj])
  finally show ?thesis .
qed

lemma growth_total:
  assumes "continues r r'" and f: "\<And>k c c'. (k, c) \<in> set (rd_counters r') \<Longrightarrow> map_of (rd_counters r) k = Some c' \<Longrightarrow> f c' \<le> f c"
  shows "(\<Sum>e \<leftarrow> rd_counters r'. growth f r e) + total f r = total f r'"
proof -
  let ?old = "\<lambda>k. case map_of (rd_counters r) k of None \<Rightarrow> 0 | Some c \<Rightarrow> unat (f c)"
  have d: "distinct_keys (rd_counters r')" "distinct_keys (rd_counters r)" "fst ` set (rd_counters r') = fst ` set (rd_counters r)"
    using assms(1) by (simp_all add: continues_def)
  have inj: "inj_on fst (set (rd_counters r'))" using d by (simp add: distinct_map)
  have le: "?old (fst e) \<le> unat (f (snd e))" if "e \<in> set (rd_counters r')" for e
    using that f [of "fst e" "snd e"] by (auto simp: word_le_nat_alt split: option.split)
  have "total f r = (\<Sum>e \<in> set (rd_counters r'). ?old (fst e))"
    unfolding total_keys [OF d(2)] d(3) [symmetric] by (simp add: sum.reindex [OF inj])
  also have "\<dots> = (\<Sum>e \<leftarrow> rd_counters r'. ?old (fst e))"
    using d(1) by (intro sum_list_distinct_conv_sum_set [symmetric]) (simp add: distinct_map)
  finally have "(\<Sum>e \<leftarrow> rd_counters r'. growth f r e) + total f r = (\<Sum>e \<leftarrow> rd_counters r'. growth f r e + ?old (fst e))"
    by (simp add: sum_list_addf)
  also have "\<dots> = (\<Sum>e \<leftarrow> rd_counters r'. unat (f (snd e)))"
    using le by (intro arg_cong [where f = sum_list] map_cong) (simp_all add: growth_def)
  finally show ?thesis by (simp add: total_def)
qed

lemma count_fold:
  assumes "\<And>e. e \<in> set es \<Longrightarrow> \<exists>c'. map_of (rd_counters r) (fst e) = Some c' \<and> ct_identity (snd e) = ct_identity c' \<and>
      ct_rx c' \<le> ct_rx (snd e) \<and> ct_tx c' \<le> ct_tx (snd e)"
    and "rd_boot r \<noteq> []" "unat (ms_rx s) \<le> max_nat" "unat (ms_tx s) \<le> max_nat"
  shows "unat (ms_rx (fold (count_interface r (rd_boot r)) es s)) = min max_nat (unat (ms_rx s) + (\<Sum>e \<leftarrow> es. growth ct_rx r e)) \<and>
    unat (ms_tx (fold (count_interface r (rd_boot r)) es s)) = min max_nat (unat (ms_tx s) + (\<Sum>e \<leftarrow> es. growth ct_tx r e))"
  using assms
proof (induction es arbitrary: s)
  case (Cons e es)
  obtain c' where c': "map_of (rd_counters r) (fst e) = Some c'" "ct_identity (snd e) = ct_identity c'"
    "ct_rx c' \<le> ct_rx (snd e)" "ct_tx c' \<le> ct_tx (snd e)" using Cons.prems(1) [of e] by auto
  define s1 where "s1 = count_interface r (rd_boot r) e s"
  have s1: "unat (ms_rx s1) = min max_nat (unat (ms_rx s) + growth ct_rx r e)"
    "unat (ms_tx s1) = min max_nat (unat (ms_tx s) + growth ct_tx r e)"
    using c' Cons.prems(2) by (simp_all add: s1_def count_interface_def case_prod_unfold Let_def unat_add_bytes unat_delta_bytes growth_def)
  have "unat (ms_rx (fold (count_interface r (rd_boot r)) es s1)) = min max_nat (unat (ms_rx s1) + (\<Sum>e \<leftarrow> es. growth ct_rx r e)) \<and>
    unat (ms_tx (fold (count_interface r (rd_boot r)) es s1)) = min max_nat (unat (ms_tx s1) + (\<Sum>e \<leftarrow> es. growth ct_tx r e))"
    by (rule Cons.IH) (use Cons.prems s1 in auto)
  then show ?case using s1 by (simp add: s1_def [symmetric] min_def)
qed (simp add: min_def)

type_synonym tick_input = "int \<times> reading option \<times> bool"

definition ticks :: "(string \<Rightarrow> (int \<Rightarrow> int) option) \<Rightarrow> tick_input list \<Rightarrow> meter \<Rightarrow> meter" where
  "ticks zones is m = fold (\<lambda>(now, r, ok) m. snd (tick zones now r ok m)) is m"

text \<open>Samples of one period, in which reading the interfaces may fail but never shows another machine state.\<close>

fun steady :: "int \<Rightarrow> reading \<Rightarrow> tick_input list \<Rightarrow> bool" where
  "steady period_end r [] = True"
| "steady period_end r ((now, None, ok) # is) = (now < period_end \<and> steady period_end r is)"
| "steady period_end r ((now, Some r', ok) # is) = (now < period_end \<and> continues r r' \<and> steady period_end r' is)"

definition measuring :: "meter \<Rightarrow> bool" where
  "measuring m \<longleftrightarrow> mt_loaded m \<and> \<not> mt_lost m \<and> mp_mode (md_policy (mt_state m)) \<noteq> ProxyMode \<and>
     ms_rx (md_sample (mt_state m)) \<le> max_bytes \<and> ms_tx (md_sample (mt_state m)) \<le> max_bytes"

lemma in_max: "w \<le> max_bytes \<longleftrightarrow> unat w \<le> max_nat"
  by (simp add: word_le_nat_alt unat_max_bytes)

lemma tick_unread:
  assumes "measuring m" "now < mp_end (md_policy (mt_state m))" "m' = snd (tick zones now None ok m)"
  shows "measuring m' \<and> md_policy (mt_state m') = md_policy (mt_state m) \<and> md_previous (mt_state m') = md_previous (mt_state m) \<and>
    ms_rx (md_sample (mt_state m')) = ms_rx (md_sample (mt_state m)) \<and> ms_tx (md_sample (mt_state m')) = ms_tx (md_sample (mt_state m))"
  using assms by (simp add: tick_def start_period_def measure_traffic_def save_meter_def measuring_def in_max Let_def)

lemma tick_read:
  assumes "measuring m" "now < mp_end (md_policy (mt_state m))" "continues (md_previous (mt_state m)) r"
    "m' = snd (tick zones now (Some r) ok m)"
  shows "measuring m' \<and> md_policy (mt_state m') = md_policy (mt_state m) \<and> md_previous (mt_state m') = r \<and>
    unat (ms_rx (md_sample (mt_state m'))) =
      min max_nat (unat (ms_rx (md_sample (mt_state m))) + (\<Sum>e \<leftarrow> rd_counters r. growth ct_rx (md_previous (mt_state m)) e)) \<and>
    unat (ms_tx (md_sample (mt_state m'))) =
      min max_nat (unat (ms_tx (md_sample (mt_state m))) + (\<Sum>e \<leftarrow> rd_counters r. growth ct_tx (md_previous (mt_state m)) e))"
proof -
  let ?p = "md_previous (mt_state m)"
  define x where "x = (md_sample (mt_state m))\<lparr>ms_sequence := Suc (ms_sequence (md_sample (mt_state m))), ms_error := NoError\<rparr>"
  define y where "y = fold (count_interface ?p (rd_boot ?p)) (rd_counters r) x"
  have boot: "rd_boot r = rd_boot ?p" "rd_boot ?p \<noteq> []" "rd_counters r \<noteq> []" using assms(3) by (simp_all add: continues_def)
  have y: "unat (ms_rx y) = min max_nat (unat (ms_rx x) + (\<Sum>e \<leftarrow> rd_counters r. growth ct_rx ?p e)) \<and>
    unat (ms_tx y) = min max_nat (unat (ms_tx x) + (\<Sum>e \<leftarrow> rd_counters r. growth ct_tx ?p e))"
    unfolding y_def
  proof (rule count_fold [OF _ boot(2)])
    fix e assume "e \<in> set (rd_counters r)"
    then show "\<exists>c'. map_of (rd_counters ?p) (fst e) = Some c' \<and> ct_identity (snd e) = ct_identity c' \<and>
        ct_rx c' \<le> ct_rx (snd e) \<and> ct_tx c' \<le> ct_tx (snd e)"
      using assms(3) unfolding continues_def by (force split: option.splits)
  qed (use assms(1) in \<open>simp_all add: x_def measuring_def in_max\<close>)
  have "mt_state m' = (mt_state m)\<lparr>md_sample := y\<lparr>ms_interfaces := sort (map fst (rd_counters r)), ms_initialized := True,
        ms_error := (if ok then ms_error y else StateWriteFailed)\<rparr>, md_previous := r\<rparr>" "mt_loaded m'" "\<not> mt_lost m'"
    using assms boot by (simp_all add: tick_def start_period_def measure_traffic_def save_meter_def measuring_def in_max Let_def x_def y_def)
  then show ?thesis using y assms(1) by (simp add: measuring_def in_max x_def)
qed

lemma growth_sum:
  "continues r r' \<Longrightarrow> (\<Sum>e \<leftarrow> rd_counters r'. growth ct_rx r e) + total ct_rx r = total ct_rx r'"
  "continues r r' \<Longrightarrow> (\<Sum>e \<leftarrow> rd_counters r'. growth ct_tx r e) + total ct_tx r = total ct_tx r'"
  by (rule growth_total; force simp: continues_def split: option.splits)+

lemma min_grow: "a = min M (b + g) \<Longrightarrow> c \<le> d \<Longrightarrow> g + p = c \<Longrightarrow> (x :: nat) = min M (a + (d - c)) \<Longrightarrow> x = min M (b + (d - p))"
  by (auto simp: min_def)

text \<open>Over any number of samples of one period, failed readings and failed writes among them, each direction of
  the sample grows by exactly the growth of the summed counters of the interfaces, up to the largest value that is
  ever reported.\<close>

theorem ticks_measure_growth:
  assumes "measuring m" "steady (mp_end (md_policy (mt_state m))) (md_previous (mt_state m)) is"
  shows "unat (ms_rx (md_sample (mt_state (ticks zones is m)))) =
      min max_nat (unat (ms_rx (md_sample (mt_state m))) +
        (total ct_rx (md_previous (mt_state (ticks zones is m))) - total ct_rx (md_previous (mt_state m)))) \<and>
    unat (ms_tx (md_sample (mt_state (ticks zones is m)))) =
      min max_nat (unat (ms_tx (md_sample (mt_state m))) +
        (total ct_tx (md_previous (mt_state (ticks zones is m))) - total ct_tx (md_previous (mt_state m)))) \<and>
    total ct_rx (md_previous (mt_state m)) \<le> total ct_rx (md_previous (mt_state (ticks zones is m))) \<and>
    total ct_tx (md_previous (mt_state m)) \<le> total ct_tx (md_previous (mt_state (ticks zones is m)))"
  using assms
proof (induction "is" arbitrary: m)
  case Nil
  then show ?case by (simp add: ticks_def measuring_def in_max)
next
  case (Cons i rest)
  obtain now r ok where i: "i = (now, r, ok)" by (cases i)
  let ?m = "snd (tick zones now r ok m)"
  have ticks: "ticks zones (i # rest) m = ticks zones rest ?m" by (simp add: ticks_def i)
  show ?case
  proof (cases r)
    case None
    then have "now < mp_end (md_policy (mt_state m))" "steady (mp_end (md_policy (mt_state m))) (md_previous (mt_state m)) rest"
      using Cons.prems(2) by (simp_all add: i)
    moreover note step = tick_unread [OF Cons.prems(1) this(1), of ?m zones ok]
    ultimately show ?thesis using Cons.IH [of ?m] None unfolding ticks by simp
  next
    case (Some r')
    then have c: "now < mp_end (md_policy (mt_state m))" "continues (md_previous (mt_state m)) r'"
      "steady (mp_end (md_policy (mt_state m))) r' rest"
      using Cons.prems(2) by (simp_all add: i)
    note step = tick_read [OF Cons.prems(1) c(1, 2), of ?m zones ok]
    have IH: "unat (ms_rx (md_sample (mt_state (ticks zones rest ?m)))) = min max_nat (unat (ms_rx (md_sample (mt_state ?m))) +
        (total ct_rx (md_previous (mt_state (ticks zones rest ?m))) - total ct_rx r')) \<and>
      unat (ms_tx (md_sample (mt_state (ticks zones rest ?m)))) = min max_nat (unat (ms_tx (md_sample (mt_state ?m))) +
        (total ct_tx (md_previous (mt_state (ticks zones rest ?m))) - total ct_tx r')) \<and>
      total ct_rx r' \<le> total ct_rx (md_previous (mt_state (ticks zones rest ?m))) \<and>
      total ct_tx r' \<le> total ct_tx (md_previous (mt_state (ticks zones rest ?m)))"
      using Cons.IH [of ?m] step c(3) Some by simp
    note g = growth_sum [OF c(2)]
    have "total ct_rx (md_previous (mt_state m)) \<le> total ct_rx r'" "total ct_tx (md_previous (mt_state m)) \<le> total ct_tx r'"
      using g by linarith+
    then show ?thesis unfolding ticks using IH step Some
      by (intro conjI min_grow [OF _ _ g(1)] min_grow [OF _ _ g(2)]) (auto intro: order_trans)
  qed
qed

section \<open>Usage within a period\<close>

datatype meter_op = ApplyOp policy int bool | TickOp int "reading option" bool

definition meter_step :: "(string \<Rightarrow> (int \<Rightarrow> int) option) \<Rightarrow> meter_op \<Rightarrow> meter \<Rightarrow> meter" where
  "meter_step zones op m = (case op of
      ApplyOp p now ok \<Rightarrow> snd (apply_policy zones p now ok m)
    | TickOp now r ok \<Rightarrow> snd (tick zones now r ok m))"

text \<open>Steps that open no new period: samples before its end and policies of the epoch, current or outdated, with
  counters in the range that is reported.\<close>

definition same_period :: "meter_op \<Rightarrow> meter \<Rightarrow> bool" where
  "same_period op m = (case op of
      ApplyOp p now ok \<Rightarrow> mp_epoch p = mp_epoch (md_policy (mt_state m)) \<and> mp_start p \<le> mp_start (md_policy (mt_state m)) \<and>
        mp_rx p \<le> max_bytes \<and> mp_tx p \<le> max_bytes
    | TickOp now r ok \<Rightarrow> now < mp_end (md_policy (mt_state m)))"

fun period_run :: "(string \<Rightarrow> (int \<Rightarrow> int) option) \<Rightarrow> meter_op list \<Rightarrow> meter \<Rightarrow> bool" where
  "period_run zones [] m = True"
| "period_run zones (op # ops) m = (same_period op m \<and> period_run zones ops (meter_step zones op m))"

definition in_range :: "meter \<Rightarrow> bool" where
  "in_range m \<longleftrightarrow> mt_loaded m \<and> ms_rx (md_sample (mt_state m)) \<le> max_bytes \<and> ms_tx (md_sample (mt_state m)) \<le> max_bytes"

definition no_less :: "meter_sample \<Rightarrow> meter_sample \<Rightarrow> bool" where
  "no_less s s' \<longleftrightarrow> ms_rx s \<le> ms_rx s' \<and> ms_tx s \<le> ms_tx s' \<and> ms_sequence s \<le> ms_sequence s'"

lemma add_bytes_grows: "a \<le> max_bytes \<Longrightarrow> a \<le> add_bytes a b \<and> add_bytes a b \<le> max_bytes"
  by (simp add: word_le_nat_alt unat_add_bytes unat_max_bytes)

lemma count_grows:
  assumes "ms_rx s \<le> max_bytes" "ms_tx s \<le> max_bytes"
  shows "no_less s (fold (count_interface r b) es s) \<and> ms_rx (fold (count_interface r b) es s) \<le> max_bytes \<and>
    ms_tx (fold (count_interface r b) es s) \<le> max_bytes"
  using assms
proof (induction es arbitrary: s)
  case (Cons e es)
  let ?s = "count_interface r b e s"
  have "no_less s ?s \<and> ms_rx ?s \<le> max_bytes \<and> ms_tx ?s \<le> max_bytes"
    using Cons.prems add_bytes_grows by (simp add: count_interface_def case_prod_unfold Let_def no_less_def)
  then show ?case using Cons.IH [of ?s] by (auto simp: no_less_def)
qed (simp add: no_less_def)

lemma tick_keeps:
  assumes "in_range m" "now < mp_end (md_policy (mt_state m))" "m' = snd (tick zones now r ok m)"
  shows "in_range m' \<and> no_less (md_sample (mt_state m)) (md_sample (mt_state m')) \<and> mt_lost m' = mt_lost m \<and>
    md_policy (mt_state m') = md_policy (mt_state m)"
proof -
  define s where "s = mt_state m"
  define x where "x = (md_sample s)\<lparr>ms_sequence := Suc (ms_sequence (md_sample s))\<rparr>"
  define m1 where "m1 = measure_traffic r m"
  have x: "ms_rx x \<le> max_bytes" "ms_tx x \<le> max_bytes" using assms(1) by (simp_all add: x_def s_def in_range_def)
  have counted: "no_less (md_sample s) (fold (count_interface p b) es (x\<lparr>ms_error := NoError\<rparr>)) \<and>
      ms_rx (fold (count_interface p b) es (x\<lparr>ms_error := NoError\<rparr>)) \<le> max_bytes \<and>
      ms_tx (fold (count_interface p b) es (x\<lparr>ms_error := NoError\<rparr>)) \<le> max_bytes" for p b es
    using count_grows [of "x\<lparr>ms_error := NoError\<rparr>" p b es] x by (auto simp: no_less_def x_def)
  have "no_less (md_sample s) (md_sample (mt_state m1)) \<and> in_range m1 \<and> mt_lost m1 = mt_lost m \<and> md_policy (mt_state m1) = md_policy s"
    using assms(1) counted x unfolding m1_def measure_traffic_def Let_def s_def [symmetric] x_def [symmetric]
    by (auto simp: in_range_def no_less_def x_def s_def split: option.split)
  moreover have "start_period zones now m = m" using assms(2) by (simp add: start_period_def Let_def)
  ultimately show ?thesis using assms(1, 3)
    by (simp add: tick_def m1_def Let_def save_meter_def in_range_def no_less_def s_def)
qed

lemma merge_keeps:
  assumes "in_range m" "mp_start p \<le> mp_start (md_policy (mt_state m))" "mp_rx p \<le> max_bytes" "mp_tx p \<le> max_bytes"
  shows "in_range (merge_policy p m) \<and> no_less (md_sample (mt_state m)) (md_sample (mt_state (merge_policy p m))) \<and>
    mt_lost (merge_policy p m) = mt_lost m"
  using assms by (auto simp: merge_policy_def Let_def in_range_def no_less_def max_def)

lemma save_fields [simp]:
  "mt_state (save_meter ok m) = mt_state m" "mt_lost (save_meter ok m) = mt_lost m" "mt_loaded (save_meter ok m) = mt_loaded m"
  by (simp_all add: save_meter_def)

lemma apply_keeps:
  assumes "in_range m" "same_period (ApplyOp p now ok) m" "m' = snd (apply_policy zones p now ok m)"
  shows "in_range m' \<and> no_less (md_sample (mt_state m)) (md_sample (mt_state m')) \<and> mt_lost m' = mt_lost m"
proof -
  have "snd (apply_policy zones p now ok m) = m \<or>
    snd (apply_policy zones p now ok m) = save_meter ok ((merge_policy p m)\<lparr>mt_confirmed := Some now\<rparr>)"
    using assms(1, 2) by (auto simp: apply_policy_def in_range_def same_period_def Let_def)
  then show ?thesis
    using assms(1, 3) merge_keeps [OF assms(1), of p] assms(2)
    by (auto simp: same_period_def in_range_def no_less_def)
qed

lemma step_keeps:
  "in_range m \<Longrightarrow> same_period op m \<Longrightarrow>
   in_range (meter_step zones op m) \<and> no_less (md_sample (mt_state m)) (md_sample (mt_state (meter_step zones op m))) \<and>
   mt_lost (meter_step zones op m) = mt_lost m"
proof (cases op)
  case (ApplyOp p now ok)
  assume "in_range m" "same_period op m"
  then show ?thesis using apply_keeps [of m p now ok _ zones, OF _ _ refl] by (simp add: meter_step_def ApplyOp)
next
  case (TickOp now r ok)
  assume "in_range m" "same_period op m"
  then show ?thesis using tick_keeps [of m now _ zones r ok, OF _ _ refl] by (simp add: meter_step_def TickOp same_period_def)
qed

lemma run_keeps:
  assumes "in_range m" "period_run zones ops m"
  shows "no_less (md_sample (mt_state m)) (md_sample (mt_state (fold (meter_step zones) ops m))) \<and>
    mt_lost (fold (meter_step zones) ops m) = mt_lost m \<and> in_range (fold (meter_step zones) ops m)"
  using assms
proof (induction ops arbitrary: m)
  case (Cons op ops)
  have one: "in_range (meter_step zones op m)" "no_less (md_sample (mt_state m)) (md_sample (mt_state (meter_step zones op m)))"
    "mt_lost (meter_step zones op m) = mt_lost m" and run: "period_run zones ops (meter_step zones op m)"
    using step_keeps [of m op zones] Cons.prems by simp_all
  show ?case using Cons.IH [OF one(1) run] one(2, 3) by (auto simp: no_less_def)
qed (simp add: no_less_def)

text \<open>Within a period nothing takes usage back: over samples with any readings and policies of the panel in any order,
  whatever counters they carry and whether writing succeeds, received, sent and sequence never decrease, and a lost
  state stays lost.\<close>

theorem usage_never_decreases:
  assumes "in_range m" "period_run zones ops m"
  shows "no_less (md_sample (mt_state m)) (md_sample (mt_state (fold (meter_step zones) ops m))) \<and>
    mt_lost (fold (meter_step zones) ops m) = mt_lost m \<and> in_range (fold (meter_step zones) ops m)"
  by (rule run_keeps [OF assms])


text \<open>Once the local counts are lost although the panel had received some, a metered quota stays closed: every sample
  of the period is blocked, whatever readings come and whatever the panel sends for the period.\<close>

theorem lost_counts_stay_blocked:
  assumes "\<not> mt_loaded (new_meter disk)" "\<not> policy_refused zones p" "mp_initialized p" "mp_rx p \<le> max_bytes" "mp_tx p \<le> max_bytes"
    "m0 = snd (apply_policy zones p t ok0 (new_meter disk))" "period_run zones ops m0" "m = fold (meter_step zones) ops m0"
    "same_period (TickOp now r ok) m" "mp_mode (md_policy (mt_state m)) \<noteq> ProxyMode" "mp_limit (md_policy (mt_state m)) \<noteq> 0"
  shows "fst (tick zones now r ok m)"
proof -
  have m0: "mt_lost m0" "in_range m0"
    using assms(1-6) by (simp_all add: apply_policy_def Let_def fresh_meter_state_def in_range_def new_sample_def)
  have m: "mt_lost m" "in_range m" using run_keeps [OF m0(2) assms(7)] m0(1) assms(8) by simp_all
  have "start_period zones now m = m" using assms(9) by (simp add: same_period_def start_period_def Let_def)
  then show ?thesis using m assms(10, 11)
    by (simp add: tick_def Let_def blocked_def measure_traffic_def in_range_def)
qed

section \<open>Interfaces\<close>

record interface_info =
  if_billable :: bool
  if_bridge :: bool
  if_lower :: "string list"

definition bad_name :: "string \<Rightarrow> bool" where
  "bad_name n \<longleftrightarrow> n = [] \<or> n = ''.'' \<or> n = ''..'' \<or> CHR ''/'' \<in> set n \<or> CHR 0x5C \<in> set n"

definition unvisited :: "(string, interface_info) go_map \<Rightarrow> string list \<Rightarrow> nat" where
  "unvisited tbl path = card (fst ` set tbl - set path)"

lemma unvisited_less: "map_of tbl n = Some info \<Longrightarrow> n \<notin> set path \<Longrightarrow> unvisited tbl (n # path) < unvisited tbl path"
proof -
  assume "map_of tbl n = Some info" "n \<notin> set path"
  then have "n \<in> fst ` set tbl - set path" by (force dest: map_of_SomeD)
  then have "card (fst ` set tbl - set path - {n}) < card (fst ` set tbl - set path)" by (intro psubset_card_mono) auto
  moreover have "fst ` set tbl - set (n # path) = fst ` set tbl - set path - {n}" by auto
  ultimately show ?thesis by (simp add: unvisited_def)
qed

text \<open>\<open>visit\<close> over the interfaces the system can inspect; \<open>None\<close> is an error. Names being visited may not recur, so the
  search ends.\<close>

function visit :: "(string, interface_info) go_map \<Rightarrow> string \<Rightarrow> string list \<Rightarrow> string list \<Rightarrow> string list option"
  and visit_all :: "(string, interface_info) go_map \<Rightarrow> string list \<Rightarrow> string list \<Rightarrow> string list \<Rightarrow> string list option" where
  "visit tbl n path sel =
     (if bad_name n \<or> n \<in> set path then None
      else if n \<in> set sel then Some sel
      else case map_of tbl n of
        None \<Rightarrow> None
      | Some info \<Rightarrow>
          if if_lower info \<noteq> [] then
            (if if_bridge info \<and> 1 < length (if_lower info) then None else visit_all tbl (if_lower info) (n # path) sel)
          else if \<not> if_billable info then None
          else Some (sel @ [n]))"
| "visit_all tbl [] path sel = Some sel"
| "visit_all tbl (n # ns) path sel =
     (case visit tbl n path sel of None \<Rightarrow> None | Some sel' \<Rightarrow> visit_all tbl ns path sel')"
  by pat_completeness auto

termination
  by (relation "measures [\<lambda>x. case x of Inl (tbl, n, path, sel) \<Rightarrow> unvisited tbl path | Inr (tbl, ns, path, sel) \<Rightarrow> unvisited tbl path,
      \<lambda>x. case x of Inl (tbl, n, path, sel) \<Rightarrow> 0 | Inr (tbl, ns, path, sel) \<Rightarrow> Suc (length ns)]")
    (auto simp: unvisited_less)

declare visit.simps [simp del]

definition select_interfaces :: "(string, interface_info) go_map \<Rightarrow> string list \<Rightarrow> string list option" where
  "select_interfaces tbl names =
     (case visit_all tbl names [] [] of None \<Rightarrow> None | Some [] \<Rightarrow> None | Some (n # ns) \<Rightarrow> Some (sort (n # ns)))"

definition below :: "(string, interface_info) go_map \<Rightarrow> (string \<times> string) set" where
  "below tbl = {(n, l). \<exists>info. map_of tbl n = Some info \<and> l \<in> set (if_lower info)}"

definition billing_leaf :: "(string, interface_info) go_map \<Rightarrow> string \<Rightarrow> bool" where
  "billing_leaf tbl n \<longleftrightarrow> (\<exists>info. map_of tbl n = Some info \<and> if_lower info = [] \<and> if_billable info)"

definition leaves_under :: "(string, interface_info) go_map \<Rightarrow> string \<Rightarrow> string set" where
  "leaves_under tbl n = {l. (n, l) \<in> (below tbl)\<^sup>* \<and> (\<forall>info. map_of tbl l = Some info \<longrightarrow> if_lower info = [])}"

lemma leaf_under_itself: "billing_leaf tbl n \<Longrightarrow> leaves_under tbl n = {n}"
  by (auto simp: leaves_under_def billing_leaf_def below_def elim: converse_rtranclE)

lemma leaves_under_step:
  assumes info: "map_of tbl n = Some info" "if_lower info \<noteq> []"
  shows "leaves_under tbl n = (\<Union>l \<in> set (if_lower info). leaves_under tbl l)"
proof (intro equalityI subsetI)
  have step: "(n, l) \<in> below tbl \<longleftrightarrow> l \<in> set (if_lower info)" for l using info(1) by (simp add: below_def)
  fix x
  show "x \<in> (\<Union>l \<in> set (if_lower info). leaves_under tbl l)" if "x \<in> leaves_under tbl n"
  proof -
    have x: "(n, x) \<in> (below tbl)\<^sup>*" "\<forall>info. map_of tbl x = Some info \<longrightarrow> if_lower info = []"
      using that by (simp_all add: leaves_under_def)
    then have "n \<noteq> x" using info by auto
    with x(1) obtain l where "(n, l) \<in> below tbl" "(l, x) \<in> (below tbl)\<^sup>*" by (metis converse_rtranclE)
    then show ?thesis using x(2) step by (auto simp: leaves_under_def)
  qed
  show "x \<in> leaves_under tbl n" if "x \<in> (\<Union>l \<in> set (if_lower info). leaves_under tbl l)"
    using that step by (auto simp: leaves_under_def intro: converse_rtrancl_into_rtrancl)
qed

lemma visit_selects:
  "visit tbl n path sel = Some sel' \<Longrightarrow> distinct sel \<Longrightarrow> (\<forall>x \<in> set sel. billing_leaf tbl x) \<Longrightarrow>
     distinct sel' \<and> (\<forall>x \<in> set sel'. billing_leaf tbl x) \<and> set sel' = set sel \<union> leaves_under tbl n"
  "visit_all tbl ns path sel = Some sel' \<Longrightarrow> distinct sel \<Longrightarrow> (\<forall>x \<in> set sel. billing_leaf tbl x) \<Longrightarrow>
     distinct sel' \<and> (\<forall>x \<in> set sel'. billing_leaf tbl x) \<and> set sel' = set sel \<union> (\<Union>n \<in> set ns. leaves_under tbl n)"
proof (induction tbl n path sel and tbl ns path sel arbitrary: sel' and sel' rule: visit_visit_all.induct)
  case (1 tbl n path sel)
  show ?case
  proof (cases "n \<in> set sel")
    case True
    then show ?thesis using "1.prems" leaf_under_itself [of tbl n] by (auto simp: visit.simps split: if_splits)
  next
    case False
    from "1.prems"(1) False obtain info where info: "map_of tbl n = Some info" "\<not> (bad_name n \<or> n \<in> set path)"
      by (auto simp: visit.simps split: if_splits option.splits)
    show ?thesis
    proof (cases "if_lower info = []")
      case True
      with "1.prems" False info have "sel' = sel @ [n]" "billing_leaf tbl n"
        by (auto simp: visit.simps billing_leaf_def split: if_splits)
      then show ?thesis using "1.prems" False leaf_under_itself [of tbl n] by auto
    next
      case lower: False
      with "1.prems"(1) False info have v: "visit_all tbl (if_lower info) (n # path) sel = Some sel'"
        "\<not> (if_bridge info \<and> 1 < length (if_lower info))"
        by (auto simp: visit.simps split: if_splits)
      show ?thesis
        using "1.IH" [OF info(2) False info(1) lower v(2) v(1) "1.prems"(2, 3)] leaves_under_step [OF info(1) lower] by simp
    qed
  qed
next
  case (3 tbl n ns path sel)
  from "3.prems"(1) obtain mid where mid: "visit tbl n path sel = Some mid" "visit_all tbl ns path mid = Some sel'"
    by (auto split: option.splits)
  note a = "3.IH"(1) [OF mid(1) "3.prems"(2, 3)]
  have "distinct mid" "\<forall>x \<in> set mid. billing_leaf tbl x" using a by blast+
  from "3.IH"(2) [OF mid(1) mid(2) this] a show ?case by auto
qed auto

text \<open>The interfaces chosen for metering are, each once and in order, the billable ones at the bottom of the stacks of
  bonds, VLANs and bridges under the named ones; no traffic is counted twice through an interface and its parent.\<close>

theorem interfaces_counted_once:
  assumes "select_interfaces tbl names = Some r"
  shows "sorted r \<and> distinct r \<and> r \<noteq> [] \<and> set r = (\<Union>n \<in> set names. leaves_under tbl n) \<and>
    (\<forall>n \<in> set r. billing_leaf tbl n \<and> leaves_under tbl n = {n})"
proof -
  obtain sel where sel: "visit_all tbl names [] [] = Some sel" "sel \<noteq> []" "r = sort sel"
    using assms unfolding select_interfaces_def by (auto split: option.splits list.splits)
  have all: "distinct sel" "\<forall>x \<in> set sel. billing_leaf tbl x" "set sel = (\<Union>n \<in> set names. leaves_under tbl n)"
    using visit_selects(2) [OF sel(1)] by simp_all
  have r: "sorted r" "distinct r" "set r = set sel" using all(1) by (simp_all add: sel(3))
  have "r \<noteq> []" using sel(2) r(3) by auto
  moreover have "\<forall>n \<in> set r. billing_leaf tbl n \<and> leaves_under tbl n = {n}"
    unfolding r(3) using all(2) leaf_under_itself by blast
  moreover have "set r = (\<Union>n \<in> set names. leaves_under tbl n)" unfolding r(3) by (rule all(3))
  ultimately show ?thesis using r(1, 2) by blast
qed

section \<open>Concrete runs and deviations\<close>

definition demo_zones :: "string \<Rightarrow> (int \<Rightarrow> int) option" where
  "demo_zones z = Some (\<lambda>t. 28800)"

definition demo_policy :: policy where
  "demo_policy = no_policy\<lparr>mp_limit := 1000, mp_mode := BothWays, mp_reset_day := 1, mp_zone := ''x'', mp_interfaces := [''e''],
     mp_revision := 1, mp_epoch := 1, mp_start := 0, mp_end := 1000, mp_rx := 5, mp_initialized := True, mp_active := True\<rparr>"

definition demo_reading :: "u64 \<Rightarrow> reading" where
  "demo_reading n = \<lparr>rd_boot = ''b'', rd_counters = [(''e'', \<lparr>ct_identity = ''i'', ct_rx = n, ct_tx = 2 * n\<rparr>)]\<rparr>"

text \<open>A meter after a first policy of a panel that has no counts yet, and one reading.\<close>

definition demo_meter :: meter where
  "demo_meter = snd (tick demo_zones 10 (Some (demo_reading 7)) True
     (snd (apply_policy demo_zones (demo_policy\<lparr>mp_initialized := False\<rparr>) 9 True (new_meter NoFile))))"


lemma ticks_measure_growth_witness:
  "unat (ms_rx (md_sample (mt_state (ticks demo_zones [(20, Some (demo_reading 9), True), (30, None, False), (40, Some (demo_reading 17), True)] demo_meter)))) = 15"
proof -
  let ?is = "[(20, Some (demo_reading 9), True), (30, None, False), (40, Some (demo_reading 17), True)]"
  have "measuring demo_meter" "steady (mp_end (md_policy (mt_state demo_meter))) (md_previous (mt_state demo_meter)) ?is"
    by code_simp+
  from ticks_measure_growth [OF this, of demo_zones] have
    "unat (ms_rx (md_sample (mt_state (ticks demo_zones ?is demo_meter)))) = min max_nat (unat (ms_rx (md_sample (mt_state demo_meter))) +
      (total ct_rx (md_previous (mt_state (ticks demo_zones ?is demo_meter))) - total ct_rx (md_previous (mt_state demo_meter))))"
    by (rule conjunct1)
  moreover have "unat (ms_rx (md_sample (mt_state demo_meter))) = 5" "total ct_rx (md_previous (mt_state demo_meter)) = 7"
    "total ct_rx (md_previous (mt_state (ticks demo_zones ?is demo_meter))) = 17" by code_simp+
  ultimately show ?thesis by simp
qed

lemma usage_never_decreases_witness:
  "no_less (md_sample (mt_state demo_meter))
     (md_sample (mt_state (fold (meter_step demo_zones) [ApplyOp (demo_policy\<lparr>mp_start := - 5\<rparr>) 11 False, TickOp 12 None True] demo_meter)))"
proof -
  have "in_range demo_meter"
    "period_run demo_zones [ApplyOp (demo_policy\<lparr>mp_start := - 5\<rparr>) 11 False, TickOp 12 None True] demo_meter" by code_simp+
  from usage_never_decreases [OF this] show ?thesis by blast
qed

lemma lost_counts_stay_blocked_witness:
  "fst (tick demo_zones 20 (Some (demo_reading 3)) True
     (fold (meter_step demo_zones) [TickOp 12 None True] (snd (apply_policy demo_zones demo_policy 9 True (new_meter Unreadable)))))"
  by (rule lost_counts_stay_blocked [OF _ _ _ _ _ refl _ refl]) code_simp+

lemma interfaces_counted_once_witness:
  "leaves_under [(''bond0'', \<lparr>if_billable = False, if_bridge = False, if_lower = [''e0'', ''e1'']\<rparr>),
     (''e0'', \<lparr>if_billable = True, if_bridge = False, if_lower = []\<rparr>), (''e1'', \<lparr>if_billable = True, if_bridge = False, if_lower = []\<rparr>)]
     ''e0'' = {''e0''}"
proof -
  let ?t = "[(''bond0'', \<lparr>if_billable = False, if_bridge = False, if_lower = [''e0'', ''e1'']\<rparr>),
     (''e0'', \<lparr>if_billable = True, if_bridge = False, if_lower = []\<rparr>), (''e1'', \<lparr>if_billable = True, if_bridge = False, if_lower = []\<rparr>)]"
  have "select_interfaces ?t [''e0'', ''bond0''] = Some [''e0'', ''e1'']"
    by (simp add: select_interfaces_def visit.simps bad_name_def)
  from interfaces_counted_once [OF this] show ?thesis by simp
qed

text \<open>A day that begins late. In a zone whose clocks go forward at midnight of the first of a month, \<open>time.Date\<close> gives an
  instant of the day before. A period that resets on the first is then computed empty during the whole month, so
  every sample starts anew and the quota is never reached.\<close>

lemma midnight_gap_resets_each_sample:
  assumes "zones (mp_zone (md_policy (mt_state m))) = Some gap_zone" "mp_reset_day (md_policy (mt_state m)) = 1"
    "1696132800 \<le> now" "now < 1698807600" "mp_end (md_policy (mt_state m)) \<le> now"
  shows "md_sample (mt_state (start_period zones now m)) = new_sample (mp_epoch (md_policy (mt_state m))) 1696129200 \<and>
    mp_end (md_policy (mt_state (start_period zones now m))) \<le> now"
  using assms gap_october [OF assms(3, 4)] by (simp add: start_period_def Let_def period_of_def)

text \<open>A loss that is forgotten. The first policy after a loss is written without the mark \<open>StateLost\<close>, which only a
  sample of a metered mode sets; a restart in between takes the state for complete.\<close>

lemma restart_forgets_loss:
  "mt_lost (snd (apply_policy demo_zones demo_policy 9 True (new_meter Unreadable))) \<and>
   \<not> mt_lost (new_meter (mt_file (snd (apply_policy demo_zones demo_policy 9 True (new_meter Unreadable))))) \<and>
   \<not> fst (tick demo_zones 20 (Some (demo_reading 3)) True
      (new_meter (mt_file (snd (apply_policy demo_zones demo_policy 9 True (new_meter Unreadable))))))"
  by code_simp

end
