(* ===== verification/Orchestrator.thy ===== *)
theory Orchestrator
  imports Prelude
begin

text \<open>
  Model of the node lifecycle of \<open>internal/machine/machine.go\<close> and \<open>traffic.go\<close>: starting, replacing and stopping the
  services of the nodes a machine runs, routing pushed events to them, their states, and traffic protection.

  Every goroutine is cut where it takes or leaves a lock, starts another one or waits. The thread that starts a
  node and then runs its service is the handle of the node with its \<open>stage\<close>; calls of \<open>stopNode\<close> are \<open>stopper\<close>s. Steps
  of handles, stoppers, discovery, the meter and the push connection come in any order, so every interleaving
  of any number of callers is covered. Handles are indices into a list.
\<close>

section \<open>Kernels\<close>

definition normalize_kernel :: "string \<Rightarrow> string option" where
  "normalize_kernel value = (let v = to_lower (trim_space value) in
     if v = ''singbox'' \<or> v = ''sing-box'' then Some ''singbox'' else if v = ''xray'' then Some ''xray'' else None)"

definition resolve_kernel :: "string list \<Rightarrow> string \<Rightarrow> string \<Rightarrow> string" where
  "resolve_kernel unsupported network configured =
     (if configured = ''singbox'' \<and> to_lower (trim_space network) \<in> set unsupported then ''xray'' else configured)"

section \<open>State\<close>

datatype node_status = NodeStarting | NodeRunning | NodeFailed | NodeStopped

datatype cancel_cause = Canceled | TrafficProtection

record machine_node =
  mn_id :: int
  mn_kernel :: string

text \<open>Where the thread of a node is: in \<open>startNode\<close> up to \<open>Launching\<close>, then in its service, then in the steps after
  \<open>svc.Run\<close> has returned, which carry whether it failed.\<close>

datatype stage = Routing | Announcing | Fetching | Launching | Serving | Unrouting bool | Finishing bool | Failing bool | Closing | Closed

record 'e handle =
  hd_id :: int
  hd_stage :: stage
  hd_cancelled :: "cancel_cause option"
  hd_configured :: string
  hd_kernel :: string
  hd_events :: "'e list"
  hd_changes :: "bool list"

datatype stop_stage = Lookup | Unroute | Cancel | Await | Forget | Unstatus | Restart | Over

record stopper =
  sp_id :: int
  sp_handle :: nat
  sp_stage :: stop_stage
  sp_then :: "machine_node option"

record 'e orchestrator =
  or_kernel :: string
  or_unsupported :: "string list"
  or_metered :: bool
  or_blocked :: bool
  or_ended :: bool
  or_handles :: "'e handle list"
  or_nodes :: "(int, nat) go_map"
  or_mailboxes :: "(int, nat) go_map"
  or_channels :: "(int, nat) go_map"
  or_statuses :: "(int, node_status) go_map"
  or_aggregate :: node_status
  or_rediscover :: bool
  or_stoppers :: "stopper list"

definition new_orchestrator :: "string \<Rightarrow> string list \<Rightarrow> bool \<Rightarrow> 'e orchestrator" where
  "new_orchestrator kind unsupported metered = \<lparr>or_kernel = kind, or_unsupported = unsupported, or_metered = metered,
     or_blocked = metered, or_ended = False, or_handles = [], or_nodes = [], or_mailboxes = [], or_channels = [], or_statuses = [],
     or_aggregate = NodeStarting, or_rediscover = False, or_stoppers = []\<rparr>"

definition set_handle :: "nat \<Rightarrow> 'e handle \<Rightarrow> 'e orchestrator \<Rightarrow> 'e orchestrator" where
  "set_handle h x w = w\<lparr>or_handles := (or_handles w)[h := x]\<rparr>"

section \<open>States of the nodes\<close>

definition aggregate_status :: "(int, node_status) go_map \<Rightarrow> node_status" where
  "aggregate_status m =
     (if NodeFailed \<in> snd ` set m then NodeFailed
      else if NodeStarting \<in> snd ` set m \<or> NodeStopped \<in> snd ` set m then NodeStarting else NodeRunning)"

definition put_statuses :: "(int, node_status) go_map \<Rightarrow> 'e orchestrator \<Rightarrow> 'e orchestrator" where
  "put_statuses m w = w\<lparr>or_statuses := m, or_aggregate := aggregate_status m\<rparr>"

definition set_node_status :: "int \<Rightarrow> node_status \<Rightarrow> 'e orchestrator \<Rightarrow> 'e orchestrator" where
  "set_node_status n st w = put_statuses (AList.update n st (or_statuses w)) w"

definition remove_node_status :: "int \<Rightarrow> 'e orchestrator \<Rightarrow> 'e orchestrator" where
  "remove_node_status n w = put_statuses (AList.delete n (or_statuses w)) w"

definition reconcile_statuses :: "int list \<Rightarrow> 'e orchestrator \<Rightarrow> 'e orchestrator" where
  "reconcile_statuses wanted w =
     put_statuses (fold (\<lambda>n m. if has_key m n then m else AList.update n NodeStarting m) wanted
       (keep_keys (\<lambda>n. n \<in> set wanted) (or_statuses w))) w"

section \<open>Starting\<close>

definition machine_node_kernel :: "machine_node \<Rightarrow> 'e orchestrator \<Rightarrow> string" where
  "machine_node_kernel mn w =
     (case normalize_kernel (mn_kernel mn) of Some k \<Rightarrow> k
      | None \<Rightarrow> (case normalize_kernel (or_kernel w) of Some k \<Rightarrow> k | None \<Rightarrow> ''xray''))"

definition create_node :: "machine_node \<Rightarrow> 'e orchestrator \<Rightarrow> 'e orchestrator" where
  "create_node mn w =
     (if or_blocked w \<or> or_ended w then w
      else let k = machine_node_kernel mn w in
        w\<lparr>or_handles := or_handles w @ [\<lparr>hd_id = mn_id mn, hd_stage = Routing, hd_cancelled = None, hd_configured = k,
             hd_kernel = k, hd_events = [], hd_changes = []\<rparr>],
          or_nodes := AList.update (mn_id mn) (length (or_handles w)) (or_nodes w)\<rparr>)"

definition start_node :: "machine_node \<Rightarrow> 'e orchestrator \<Rightarrow> 'e orchestrator" where
  "start_node mn w =
     (case map_of (or_nodes w) (mn_id mn) of
        None \<Rightarrow> create_node mn w
      | Some h \<Rightarrow>
          if hd_configured (or_handles w ! h) = machine_node_kernel mn w then w
          else w\<lparr>or_stoppers := or_stoppers w @ [\<lparr>sp_id = mn_id mn, sp_handle = h, sp_stage = Lookup, sp_then = Some mn\<rparr>]\<rparr>)"

text \<open>The node's configuration as it was fetched ahead, with its kernel and network.\<close>

definition fetched_kernel :: "(string \<times> string) option \<Rightarrow> string \<Rightarrow> 'e orchestrator \<Rightarrow> string" where
  "fetched_kernel fetched wanted w =
     (case fetched of
        None \<Rightarrow> wanted
      | Some (kind, network) \<Rightarrow>
          let k = (if trim_space kind = [] then wanted
                   else case normalize_kernel (trim_space kind) of None \<Rightarrow> wanted | Some k \<Rightarrow> k) in
          resolve_kernel (or_unsupported w) network k)"

text \<open>The next step of a node's thread: \<open>fetched\<close> and \<open>failed\<close> are the outcomes of the request and of the service.\<close>

definition advance :: "nat \<Rightarrow> (string \<times> string) option \<Rightarrow> bool \<Rightarrow> 'e orchestrator \<Rightarrow> 'e orchestrator" where
  "advance h fetched failed w =
     (let x = or_handles w ! h; n = hd_id x; next = (\<lambda>st. set_handle h (x\<lparr>hd_stage := st\<rparr>) w) in
      case hd_stage x of
        Routing \<Rightarrow> (next Announcing)\<lparr>or_mailboxes := AList.update n h (or_mailboxes w)\<rparr>
      | Announcing \<Rightarrow> set_node_status n NodeStarting (next Fetching)
      | Fetching \<Rightarrow>
          let k = fetched_kernel fetched (hd_configured x) w; o1 = next Launching in
          (case map_of (or_nodes w) n of
             None \<Rightarrow> o1
           | Some j \<Rightarrow> set_handle j ((or_handles o1 ! j)\<lparr>hd_kernel := k\<rparr>) o1)
      | Launching \<Rightarrow> next Serving
      | Serving \<Rightarrow> next (Unrouting failed)
      | Unrouting e \<Rightarrow> (next (Finishing e))\<lparr>or_mailboxes := AList.delete n (or_mailboxes w), or_channels := AList.delete n (or_channels w)\<rparr>
      | Finishing e \<Rightarrow>
          let o1 = next (Failing e) in
          if map_of (or_nodes w) n = Some h then o1\<lparr>or_nodes := AList.delete n (or_nodes w)\<rparr> else o1
      | Failing e \<Rightarrow>
          let o1 = next Closing in
          if e then set_node_status n NodeFailed o1
          else if or_metered w \<and> \<not> or_blocked w \<and> \<not> or_ended w then o1\<lparr>or_rediscover := True\<rparr> else o1
      | Closing \<Rightarrow> next Closed
      | Closed \<Rightarrow> w)"

text \<open>What a running service calls back.\<close>

definition register_node :: "nat \<Rightarrow> 'e orchestrator \<Rightarrow> 'e orchestrator" where
  "register_node h w =
     (if hd_stage (or_handles w ! h) = Serving then w\<lparr>or_channels := AList.update (hd_id (or_handles w ! h)) h (or_channels w)\<rparr> else w)"

definition report_status :: "nat \<Rightarrow> node_status \<Rightarrow> 'e orchestrator \<Rightarrow> 'e orchestrator" where
  "report_status h st w =
     (if hd_stage (or_handles w ! h) = Serving then set_node_status (hd_id (or_handles w ! h)) st w else w)"

section \<open>Stopping\<close>

definition cancel_handle :: "cancel_cause \<Rightarrow> 'e handle \<Rightarrow> 'e handle" where
  "cancel_handle c x = (case hd_cancelled x of None \<Rightarrow> x\<lparr>hd_cancelled := Some c\<rparr> | Some _ \<Rightarrow> x)"

definition stop_node :: "int \<Rightarrow> 'e orchestrator \<Rightarrow> 'e orchestrator" where
  "stop_node n w = w\<lparr>or_stoppers := or_stoppers w @ [\<lparr>sp_id = n, sp_handle = 0, sp_stage = Lookup, sp_then = None\<rparr>]\<rparr>"

definition set_stopper :: "nat \<Rightarrow> stopper \<Rightarrow> 'e orchestrator \<Rightarrow> 'e orchestrator" where
  "set_stopper i s w = w\<lparr>or_stoppers := (or_stoppers w)[i := s]\<rparr>"

definition stop_step :: "nat \<Rightarrow> 'e orchestrator \<Rightarrow> 'e orchestrator" where
  "stop_step i w =
     (let s = or_stoppers w ! i; h = sp_handle s; next = (\<lambda>st. set_stopper i (s\<lparr>sp_stage := st\<rparr>) w);
          after = (if sp_then s = None then Over else Restart) in
      case sp_stage s of
        Lookup \<Rightarrow>
          (case map_of (or_nodes w) (sp_id s) of
             None \<Rightarrow> next after
           | Some j \<Rightarrow> set_stopper i (s\<lparr>sp_handle := j, sp_stage := Unroute\<rparr>) w)
      | Unroute \<Rightarrow> (next Cancel)\<lparr>or_mailboxes := AList.delete (sp_id s) (or_mailboxes w)\<rparr>
      | Cancel \<Rightarrow> set_handle h (cancel_handle Canceled (or_handles w ! h)) (next Await)
      | Await \<Rightarrow> if hd_stage (or_handles w ! h) = Closed then next Forget else w
      | Forget \<Rightarrow>
          if map_of (or_nodes w) (sp_id s) = Some h
          then (next Unstatus)\<lparr>or_nodes := AList.delete (sp_id s) (or_nodes w)\<rparr> else next Unstatus
      | Unstatus \<Rightarrow> remove_node_status (sp_id s) (next after)
      | Restart \<Rightarrow>
          (case sp_then s of
             None \<Rightarrow> next Over
           | Some mn \<Rightarrow> if has_key (or_nodes w) (mn_id mn) then next Over else create_node mn (next Over))
      | Over \<Rightarrow> w)"

text \<open>\<open>setTrafficBlocked\<close>: all nodes are cancelled under the lock that guards starting.\<close>

definition protect_nodes :: "'e orchestrator \<Rightarrow> 'e orchestrator" where
  "protect_nodes w = fold (\<lambda>(n, h) w. set_handle h (cancel_handle TrafficProtection (or_handles w ! h)) w) (or_nodes w) w"

definition set_blocked :: "bool \<Rightarrow> 'e orchestrator \<Rightarrow> 'e orchestrator" where
  "set_blocked b w =
     (let o1 = w\<lparr>or_blocked := b\<rparr>; o2 = (if b then protect_nodes o1 else o1) in
      if or_blocked w \<and> \<not> b \<and> \<not> or_ended w then o2\<lparr>or_rediscover := True\<rparr> else o2)"

text \<open>The end of the context of \<open>Run\<close> ends the contexts of all nodes, which are made from it.\<close>

definition end_run :: "'e orchestrator \<Rightarrow> 'e orchestrator" where
  "end_run w = w\<lparr>or_ended := True, or_handles := map (cancel_handle Canceled) (or_handles w)\<rparr>"

section \<open>Pushed events\<close>

definition route_event :: "int \<Rightarrow> 'e \<Rightarrow> 'e orchestrator \<Rightarrow> 'e orchestrator" where
  "route_event n e w =
     (if n = 0 then w
      else case map_of (or_mailboxes w) n of
        None \<Rightarrow> w
      | Some h \<Rightarrow> set_handle h ((or_handles w ! h)\<lparr>hd_events := hd_events (or_handles w ! h) @ [e]\<rparr>) w)"

text \<open>A change of the connection goes to every registered channel that is not full.\<close>

definition spread_change :: "bool \<Rightarrow> nat list \<Rightarrow> 'e orchestrator \<Rightarrow> 'e orchestrator" where
  "spread_change connected full w =
     fold (\<lambda>(n, h) w. if h \<in> set full then w
        else set_handle h ((or_handles w ! h)\<lparr>hd_changes := hd_changes (or_handles w ! h) @ [connected]\<rparr>) w)
       (or_channels w) (w\<lparr>or_rediscover := True\<rparr>)"

section \<open>All steps\<close>

datatype 'e orch_op =
    Start machine_node
  | Stop int
  | Advance nat "(string \<times> string) option" bool
  | StopStep nat
  | Register nat
  | Report nat node_status
  | Reconcile "int list"
  | Block bool
  | Event int 'e
  | Change bool "nat list"
  | EndRun

fun orch_step :: "'e orch_op \<Rightarrow> 'e orchestrator \<Rightarrow> 'e orchestrator" where
  "orch_step (Start mn) w = start_node mn w"
| "orch_step (Stop n) w = stop_node n w"
| "orch_step (Advance h fetched failed) w = (if h < length (or_handles w) then advance h fetched failed w else w)"
| "orch_step (StopStep i) w = (if i < length (or_stoppers w) then stop_step i w else w)"
| "orch_step (Register h) w = (if h < length (or_handles w) then register_node h w else w)"
| "orch_step (Report h st) w = (if h < length (or_handles w) then report_status h st w else w)"
| "orch_step (Reconcile wanted) w = reconcile_statuses wanted w"
| "orch_step (Block b) w = set_blocked b w"
| "orch_step (Event n e) w = route_event n e w"
| "orch_step (Change connected full) w = spread_change connected full w"
| "orch_step EndRun w = end_run w"

section \<open>One live service per node\<close>

text \<open>A handle is live from its creation until its removal from the nodes after its service has returned.\<close>

definition live_stage :: "stage \<Rightarrow> bool" where
  "live_stage st = (case st of Failing _ \<Rightarrow> False | Closing \<Rightarrow> False | Closed \<Rightarrow> False | _ \<Rightarrow> True)"

definition routed_stage :: "stage \<Rightarrow> bool" where
  "routed_stage st = (st = Announcing \<or> st = Fetching \<or> st = Launching \<or> st = Serving \<or> (\<exists>e. st = Unrouting e))"

definition nodes_ok :: "(int, nat) go_map \<Rightarrow> (int \<times> stage) list \<Rightarrow> bool" where
  "nodes_ok nodes hs \<longleftrightarrow> distinct_keys nodes \<and>
     (\<forall>n h. map_of nodes n = Some h \<longleftrightarrow> h < length hs \<and> fst (hs ! h) = n \<and> live_stage (snd (hs ! h)))"

definition routes_ok :: "(int, nat) go_map \<Rightarrow> (int \<times> stage) list \<Rightarrow> bool" where
  "routes_ok routes hs \<longleftrightarrow>
     (\<forall>n h. map_of routes n = Some h \<longrightarrow> h < length hs \<and> fst (hs ! h) = n \<and> routed_stage (snd (hs ! h)))"

definition lives :: "'e orchestrator \<Rightarrow> (int \<times> stage) list" where
  "lives w = map (\<lambda>x. (hd_id x, hd_stage x)) (or_handles w)"

definition protected :: "'e orchestrator \<Rightarrow> bool" where
  "protected w \<longleftrightarrow> (\<forall>h < length (or_handles w).
     or_blocked w \<longrightarrow> live_stage (hd_stage (or_handles w ! h)) \<longrightarrow> hd_cancelled (or_handles w ! h) \<noteq> None)"

definition waiting_stage :: "stop_stage \<Rightarrow> bool" where
  "waiting_stage st \<longleftrightarrow> st = Unroute \<or> st = Cancel \<or> st = Await"

definition stop_ok :: "(int \<times> stage) list \<Rightarrow> stopper \<Rightarrow> bool" where
  "stop_ok hs s \<longleftrightarrow> (waiting_stage (sp_stage s) \<longrightarrow> sp_handle s < length hs) \<and>
     (sp_stage s = Forget \<longrightarrow> sp_handle s < length hs \<and> snd (hs ! sp_handle s) = Closed)"

definition stops_ok :: "stopper list \<Rightarrow> (int \<times> stage) list \<Rightarrow> bool" where
  "stops_ok ss hs \<longleftrightarrow> list_all (stop_ok hs) ss"

definition orch_inv :: "'e orchestrator \<Rightarrow> bool" where
  "orch_inv w \<longleftrightarrow> nodes_ok (or_nodes w) (lives w) \<and> routes_ok (or_mailboxes w) (lives w) \<and>
     routes_ok (or_channels w) (lives w) \<and> protected w \<and> stops_ok (or_stoppers w) (lives w)"

lemma stops_ok_keep:
  assumes "stops_ok ss hs" "h < length hs \<Longrightarrow> snd (hs ! h) = Closed \<Longrightarrow> st = Closed"
  shows "stops_ok ss (hs[h := (n, st)])"
  unfolding stops_ok_def
proof (rule list.pred_mono_strong [OF assms(1) [unfolded stops_ok_def]])
  fix s assume "stop_ok hs s"
  then show "stop_ok (hs[h := (n, st)]) s"
    using assms(2) by (cases "sp_handle s = h") (auto simp: stop_ok_def)
qed

lemma stops_ok_create: "stops_ok ss hs \<Longrightarrow> stops_ok ss (hs @ [x])"
  unfolding stops_ok_def by (erule list.pred_mono_strong) (auto simp: stop_ok_def nth_append)

lemma stops_ok_update: "stops_ok ss hs \<Longrightarrow> stop_ok hs t \<Longrightarrow> stops_ok (ss[i := t]) hs"
  unfolding stops_ok_def list_all_iff using set_update_subset_insert by fast

lemma stops_ok_add: "stops_ok ss hs \<Longrightarrow> stop_ok hs t \<Longrightarrow> stops_ok (ss @ [t]) hs"
  by (simp add: stops_ok_def)

lemma nodes_ok_at: "nodes_ok nodes hs \<Longrightarrow> map_of nodes n = Some h \<longleftrightarrow> h < length hs \<and> fst (hs ! h) = n \<and> live_stage (snd (hs ! h))"
  by (simp add: nodes_ok_def)

lemma nodes_ok_keep:
  assumes "nodes_ok nodes hs" "h < length hs \<Longrightarrow> n = fst (hs ! h) \<and> live_stage st = live_stage (snd (hs ! h))"
  shows "nodes_ok nodes (hs[h := (n, st)])"
proof (cases "h < length hs")
  case True
  then have "fst ((hs[h := (n, st)]) ! j) = fst (hs ! j) \<and> live_stage (snd ((hs[h := (n, st)]) ! j)) = live_stage (snd (hs ! j))" for j
    using assms(2) by (cases "j = h") simp_all
  then show ?thesis using assms(1) unfolding nodes_ok_def by simp
qed (use assms in \<open>simp add: list_update_beyond\<close>)

lemma nodes_ok_leave:
  assumes ok: "nodes_ok nodes hs" and h: "map_of nodes n = Some h" and st: "\<not> live_stage st"
  shows "nodes_ok (AList.delete n nodes) (hs[h := (n, st)])"
  unfolding nodes_ok_def
proof (intro conjI allI)
  show "distinct_keys (AList.delete n nodes)" using ok by (simp add: nodes_ok_def)
  fix k j
  have hh: "h < length hs" "fst (hs ! h) = n" using nodes_ok_at [OF ok] h by blast+
  show "map_of (AList.delete n nodes) k = Some j \<longleftrightarrow>
    j < length (hs[h := (n, st)]) \<and> fst (hs[h := (n, st)] ! j) = k \<and> live_stage (snd (hs[h := (n, st)] ! j))"
  proof (cases "k = n")
    case True
    have "j < length hs \<and> fst (hs ! j) = n \<and> live_stage (snd (hs ! j)) \<Longrightarrow> j = h" using nodes_ok_at [OF ok, of n j] h by auto
    then show ?thesis using True st hh by (cases "j = h") (auto simp: map_of_delete)
  next
    case False
    then have "j \<noteq> h \<or> k \<noteq> fst (hs ! j)" using hh by auto
    then show ?thesis using False hh st nodes_ok_at [OF ok, of k j] by (cases "j = h") (auto simp: map_of_delete)
  qed
qed

lemma nodes_ok_create:
  assumes ok: "nodes_ok nodes hs" and none: "map_of nodes n = None" and st: "live_stage st"
  shows "nodes_ok (AList.update n (length hs) nodes) (hs @ [(n, st)])"
  unfolding nodes_ok_def
proof (intro conjI allI)
  show "distinct_keys (AList.update n (length hs) nodes)" using ok by (simp add: nodes_ok_def)
  fix k j
  have no: "\<not> (j < length hs \<and> fst (hs ! j) = n \<and> live_stage (snd (hs ! j)))" using nodes_ok_at [OF ok, of n j] none by auto
  show "map_of (AList.update n (length hs) nodes) k = Some j \<longleftrightarrow>
    j < length (hs @ [(n, st)]) \<and> fst ((hs @ [(n, st)]) ! j) = k \<and> live_stage (snd ((hs @ [(n, st)]) ! j))"
  proof (cases "j = length hs")
    case True
    then show ?thesis using st nodes_ok_at [OF ok, of k "length hs"] by (auto simp: map_of_update)
  next
    case False
    then show ?thesis using no nodes_ok_at [OF ok, of k j] by (auto simp: map_of_update nth_append)
  qed
qed

lemma routes_ok_keep:
  assumes "routes_ok routes hs" "h < length hs \<Longrightarrow> n = fst (hs ! h) \<and> (routed_stage (snd (hs ! h)) \<longrightarrow> routed_stage st)"
  shows "routes_ok routes (hs[h := (n, st)])"
proof (cases "h < length hs")
  case True
  then have "fst ((hs[h := (n, st)]) ! j) = fst (hs ! j) \<and> (routed_stage (snd (hs ! j)) \<longrightarrow> routed_stage (snd ((hs[h := (n, st)]) ! j)))" for j
    using assms(2) by (cases "j = h") simp_all
  then show ?thesis using assms(1) unfolding routes_ok_def by simp
qed (use assms in \<open>simp add: list_update_beyond\<close>)

lemma routes_ok_add: "routes_ok routes hs \<Longrightarrow> h < length hs \<Longrightarrow> fst (hs ! h) = n \<Longrightarrow> routed_stage (snd (hs ! h)) \<Longrightarrow>
  routes_ok (AList.update n h routes) hs"
  by (auto simp: routes_ok_def map_of_update)

lemma routes_ok_delete: "routes_ok routes hs \<Longrightarrow> routes_ok (AList.delete n routes) hs"
  by (auto simp: routes_ok_def map_of_delete)

lemma routes_ok_leave:
  assumes "routes_ok routes hs" "h < length hs" "fst (hs ! h) = n"
  shows "routes_ok (AList.delete n routes) (hs[h := (n, st)])"
  unfolding routes_ok_def
proof (intro allI impI)
  fix k j assume "map_of (AList.delete n routes) k = Some j"
  then have kj: "k \<noteq> n" "map_of routes k = Some j" by (auto simp: map_of_delete split: if_splits)
  then have r: "j < length hs" "fst (hs ! j) = k" "routed_stage (snd (hs ! j))" using assms(1) unfolding routes_ok_def by blast+
  with kj assms(3) have "j \<noteq> h" by auto
  then show "j < length (hs[h := (n, st)]) \<and> fst (hs[h := (n, st)] ! j) = k \<and> routed_stage (snd (hs[h := (n, st)] ! j))"
    using r by simp
qed

lemma routes_ok_create: "routes_ok routes hs \<Longrightarrow> routes_ok routes (hs @ [x])"
  unfolding routes_ok_def by (simp add: nth_append less_SucI)

lemma lives_set_handle [simp]: "lives (set_handle h x w) = (lives w)[h := (hd_id x, hd_stage x)]"
  by (simp add: lives_def set_handle_def map_update)

lemma length_lives [simp]: "length (lives w) = length (or_handles w)"
  by (simp add: lives_def)

lemma lives_nth: "h < length (or_handles w) \<Longrightarrow> lives w ! h = (hd_id (or_handles w ! h), hd_stage (or_handles w ! h))"
  by (simp add: lives_def)

lemma set_handle_fields [simp]:
  "or_nodes (set_handle h x w) = or_nodes w" "or_mailboxes (set_handle h x w) = or_mailboxes w"
  "or_channels (set_handle h x w) = or_channels w" "or_blocked (set_handle h x w) = or_blocked w"
  "or_stoppers (set_handle h x w) = or_stoppers w" "length (or_handles (set_handle h x w)) = length (or_handles w)"
  by (simp_all add: set_handle_def)

lemma protected_set_handle:
  "protected w \<Longrightarrow> (h < length (or_handles w) \<Longrightarrow> live_stage (hd_stage x) \<Longrightarrow> live_stage (hd_stage (or_handles w ! h))) \<Longrightarrow>
   (h < length (or_handles w) \<Longrightarrow> hd_cancelled (or_handles w ! h) \<noteq> None \<Longrightarrow> hd_cancelled x \<noteq> None) \<Longrightarrow> protected (set_handle h x w)"
proof (cases "h < length (or_handles w)")
  case True
  assume "protected w" "h < length (or_handles w) \<Longrightarrow> live_stage (hd_stage x) \<Longrightarrow> live_stage (hd_stage (or_handles w ! h))"
    "h < length (or_handles w) \<Longrightarrow> hd_cancelled (or_handles w ! h) \<noteq> None \<Longrightarrow> hd_cancelled x \<noteq> None"
  with True show ?thesis unfolding protected_def set_handle_def by (simp add: nth_list_update)
qed (simp add: set_handle_def list_update_beyond)

text \<open>Changes of a handle that leave its node and stage alone.\<close>

lemma inv_touch:
  assumes "orch_inv w" "h < length (or_handles w)" "hd_id x = hd_id (or_handles w ! h)" "hd_stage x = hd_stage (or_handles w ! h)"
    "hd_cancelled (or_handles w ! h) \<noteq> None \<Longrightarrow> hd_cancelled x \<noteq> None"
  shows "orch_inv (set_handle h x w)"
proof -
  have "(lives w)[h := (hd_id x, hd_stage x)] = lives w" using assms(2-4) by (simp add: lives_nth [symmetric])
  moreover have "protected (set_handle h x w)"
    by (rule protected_set_handle) (use assms in \<open>simp_all add: orch_inv_def\<close>)
  ultimately show ?thesis using assms(1) by (simp add: orch_inv_def)
qed

lemma orch_inv_fields:
  "or_nodes w' = or_nodes w \<Longrightarrow> or_handles w' = or_handles w \<Longrightarrow> or_mailboxes w' = or_mailboxes w \<Longrightarrow>
   or_channels w' = or_channels w \<Longrightarrow> or_blocked w' = or_blocked w \<Longrightarrow> or_stoppers w' = or_stoppers w \<Longrightarrow> orch_inv w' = orch_inv w"
  by (simp add: orch_inv_def lives_def protected_def)

lemma inv_status [simp]: "orch_inv (put_statuses m w) = orch_inv w" "orch_inv (set_node_status n st w) = orch_inv w"
  "orch_inv (remove_node_status n w) = orch_inv w"
  "orch_inv (w\<lparr>or_rediscover := b\<rparr>) = orch_inv w" "orch_inv (reconcile_statuses ids w) = orch_inv w"
  by (rule orch_inv_fields; simp add: put_statuses_def set_node_status_def remove_node_status_def reconcile_statuses_def)+

lemma inv_stoppers:
  "orch_inv w \<Longrightarrow> stops_ok ss (lives w) \<Longrightarrow> orch_inv (w\<lparr>or_stoppers := ss\<rparr>)"
  by (simp add: orch_inv_def lives_def protected_def)

lemma inv_set_stopper: "orch_inv w \<Longrightarrow> stop_ok (lives w) t \<Longrightarrow> orch_inv (set_stopper i t w)"
  unfolding set_stopper_def by (rule inv_stoppers) (simp_all add: stops_ok_update orch_inv_def)

lemma inv_create:
  assumes "orch_inv w" "map_of (or_nodes w) (mn_id mn) = None"
  shows "orch_inv (create_node mn w)"
proof (cases "or_blocked w \<or> or_ended w")
  case False
  define x where "x = \<lparr>hd_id = mn_id mn, hd_stage = Routing, hd_cancelled = None, hd_configured = machine_node_kernel mn w,
    hd_kernel = machine_node_kernel mn w, hd_events = [] :: 'a list, hd_changes = []\<rparr>"
  have "lives (w\<lparr>or_handles := or_handles w @ [x], or_nodes := n\<rparr>) = lives w @ [(mn_id mn, Routing)]" for n
    by (simp add: lives_def x_def)
  then show ?thesis using assms False nodes_ok_create [of "or_nodes w" "lives w" "mn_id mn" Routing]
    by (simp add: create_node_def Let_def x_def [symmetric] orch_inv_def routes_ok_create stops_ok_create protected_def) (simp add: live_stage_def)
qed (use assms in \<open>simp add: create_node_def\<close>)

text \<open>A step of a thread that keeps the handle live or routed as it was.\<close>

lemma inv_next:
  assumes inv: "orch_inv w" and h: "h < length (or_handles w)" and x: "x = or_handles w ! h"
    and st: "live_stage st = live_stage (hd_stage x)" "routed_stage (hd_stage x) \<longrightarrow> routed_stage st" "hd_stage x \<noteq> Closed"
  shows "orch_inv (set_handle h (x\<lparr>hd_stage := st\<rparr>) w)"
proof -
  have "protected (set_handle h (x\<lparr>hd_stage := st\<rparr>) w)"
    by (rule protected_set_handle) (use inv st x in \<open>simp_all add: orch_inv_def\<close>)
  then show ?thesis using inv h x st
    by (auto simp: orch_inv_def lives_nth intro!: nodes_ok_keep routes_ok_keep stops_ok_keep)
qed

lemma inv_routes:
  assumes "orch_inv w" "\<And>m. routes_ok m (lives w) \<Longrightarrow> routes_ok (f m) (lives w)"
  shows "orch_inv (w\<lparr>or_mailboxes := f (or_mailboxes w)\<rparr>)" "orch_inv (w\<lparr>or_channels := f (or_channels w)\<rparr>)"
  using assms by (simp_all add: orch_inv_def lives_def protected_def)

lemmas stage_simps = live_stage_def routed_stage_def

lemma inv_leave_routes:
  assumes inv: "orch_inv w" and h: "h < length (or_handles w)" and x: "x = or_handles w ! h" "hd_stage x = Unrouting e"
  shows "orch_inv ((set_handle h (x\<lparr>hd_stage := Finishing e\<rparr>) w)\<lparr>or_mailboxes := AList.delete (hd_id x) (or_mailboxes w),
    or_channels := AList.delete (hd_id x) (or_channels w)\<rparr>)"
proof -
  let ?w = "set_handle h (x\<lparr>hd_stage := Finishing e\<rparr>) w"
  have "protected ?w" by (rule protected_set_handle) (use inv x in \<open>simp_all add: orch_inv_def stage_simps\<close>)
  moreover have "nodes_ok (or_nodes w) (lives ?w)"
    using inv h x by (auto simp: orch_inv_def lives_nth stage_simps intro!: nodes_ok_keep)
  moreover have "routes_ok (AList.delete (hd_id x) m) (lives ?w)" if "routes_ok m (lives w)" for m
    using routes_ok_leave [OF that, of h "hd_id x" "Finishing e"] h x by (simp add: lives_nth)
  moreover have "stops_ok (or_stoppers w) (lives ?w)"
    using inv h x by (auto simp: orch_inv_def lives_nth intro!: stops_ok_keep)
  ultimately show ?thesis using inv by (simp add: orch_inv_def lives_def protected_def)
qed

lemma inv_leave_nodes:
  assumes inv: "orch_inv w" and h: "h < length (or_handles w)" and x: "x = or_handles w ! h" "hd_stage x = Finishing e"
  shows "orch_inv ((set_handle h (x\<lparr>hd_stage := Failing e\<rparr>) w)\<lparr>or_nodes := AList.delete (hd_id x) (or_nodes w)\<rparr>)"
    "map_of (or_nodes w) (hd_id x) = Some h"
proof -
  let ?w = "set_handle h (x\<lparr>hd_stage := Failing e\<rparr>) w"
  have ok: "nodes_ok (or_nodes w) (lives w)" using inv by (simp add: orch_inv_def)
  show here: "map_of (or_nodes w) (hd_id x) = Some h"
    using h x by (simp add: nodes_ok_at [OF ok] lives_nth stage_simps)
  have "protected ?w" by (rule protected_set_handle) (use inv x in \<open>simp_all add: orch_inv_def stage_simps\<close>)
  moreover have "nodes_ok (AList.delete (hd_id x) (or_nodes w)) (lives ?w)"
    using nodes_ok_leave [OF ok here, of "Failing e"] by (simp add: stage_simps)
  moreover have "routes_ok m (lives ?w)" if "routes_ok m (lives w)" for m
    using that h x by (auto simp: lives_nth stage_simps intro!: routes_ok_keep)
  moreover have "stops_ok (or_stoppers w) (lives ?w)"
    using inv h x by (auto simp: orch_inv_def lives_nth intro!: stops_ok_keep)
  ultimately show "orch_inv (?w\<lparr>or_nodes := AList.delete (hd_id x) (or_nodes w)\<rparr>)"
    using inv by (simp add: orch_inv_def lives_def protected_def)
qed

lemma inv_advance:
  assumes inv: "orch_inv w" and h: "h < length (or_handles w)"
  shows "orch_inv (advance h fetched failed w)"
proof -
  define x where "x = or_handles w ! h"
  have to: "hd_stage x = a \<Longrightarrow> live_stage b = live_stage a \<Longrightarrow> (routed_stage a \<longrightarrow> routed_stage b) \<Longrightarrow>
    a \<noteq> Closed \<Longrightarrow> orch_inv (set_handle h (x\<lparr>hd_stage := b\<rparr>) w)" for a b
    using inv_next [OF inv h x_def] by simp
  show ?thesis
  proof (cases "hd_stage x")
    case Routing
    have "orch_inv (set_handle h (x\<lparr>hd_stage := Announcing\<rparr>) w)" by (rule to [OF Routing]) (simp_all add: stage_simps)
    moreover have "lives (set_handle h (x\<lparr>hd_stage := Announcing\<rparr>) w) ! h = (hd_id x, Announcing)" using h by simp
    ultimately have "orch_inv ((set_handle h (x\<lparr>hd_stage := Announcing\<rparr>) w)\<lparr>or_mailboxes := AList.update (hd_id x) h (or_mailboxes w)\<rparr>)"
      using inv_routes(1) [of "set_handle h (x\<lparr>hd_stage := Announcing\<rparr>) w" "AList.update (hd_id x) h"] h
      by (simp add: routes_ok_add stage_simps)
    then show ?thesis by (simp add: advance_def Let_def x_def [symmetric] Routing)
  next
    case Announcing
    then show ?thesis using to [OF Announcing, of Fetching] by (simp add: advance_def Let_def x_def [symmetric] stage_simps)
  next
    case Fetching
    define w1 where "w1 = set_handle h (x\<lparr>hd_stage := Launching\<rparr>) w"
    have w1: "orch_inv w1" unfolding w1_def by (rule to [OF Fetching]) (simp_all add: stage_simps)
    have "orch_inv (set_handle j ((or_handles w1 ! j)\<lparr>hd_kernel := k\<rparr>) w1)" for j k
    proof (cases "j < length (or_handles w1)")
      case True
      then show ?thesis by (rule inv_touch [OF w1]) simp_all
    next
      case False
      then have "set_handle j y w1 = w1" for y by (simp add: set_handle_def list_update_beyond)
      then show ?thesis using w1 by simp
    qed
    then show ?thesis using w1
      by (simp add: advance_def Let_def x_def [symmetric] Fetching w1_def [symmetric] split: option.split)
  next
    case Launching
    then show ?thesis using to [OF Launching, of Serving] by (simp add: advance_def Let_def x_def [symmetric] stage_simps)
  next
    case Serving
    then show ?thesis using to [OF Serving, of "Unrouting failed"] by (simp add: advance_def Let_def x_def [symmetric] stage_simps)
  next
    case (Unrouting e)
    then show ?thesis using inv_leave_routes [OF inv h x_def Unrouting] by (simp add: advance_def Let_def x_def [symmetric])
  next
    case (Finishing e)
    then show ?thesis using inv_leave_nodes [OF inv h x_def Finishing] by (simp add: advance_def Let_def x_def [symmetric])
  next
    case (Failing e)
    then show ?thesis using to [OF Failing, of Closing] by (simp add: advance_def Let_def x_def [symmetric] stage_simps)
  next
    case Closing
    then show ?thesis using to [OF Closing, of Closed] by (simp add: advance_def Let_def x_def [symmetric] stage_simps)
  next
    case Closed
    then show ?thesis using inv by (simp add: advance_def Let_def x_def [symmetric])
  qed
qed

lemma inv_cancel: "orch_inv w \<Longrightarrow> h < length (or_handles w) \<Longrightarrow> orch_inv (set_handle h (cancel_handle c (or_handles w ! h)) w)"
  by (rule inv_touch) (auto simp: cancel_handle_def split: option.split)

lemma touch_or_not: "(h < length (or_handles w) \<Longrightarrow> orch_inv (set_handle h x w)) \<Longrightarrow> orch_inv w \<Longrightarrow> orch_inv (set_handle h x w)"
  by (cases "h < length (or_handles w)") (simp_all add: set_handle_def list_update_beyond)

lemma inv_unroute: "orch_inv w \<Longrightarrow> orch_inv (w\<lparr>or_mailboxes := AList.delete n (or_mailboxes w)\<rparr>)"
  by (rule inv_routes(1)) (simp_all add: routes_ok_delete)

lemma set_stopper_fields [simp]:
  "or_nodes (set_stopper i t w) = or_nodes w" "or_handles (set_stopper i t w) = or_handles w"
  "or_mailboxes (set_stopper i t w) = or_mailboxes w" "lives (set_stopper i t w) = lives w"
  by (simp_all add: set_stopper_def lives_def)

lemma inv_stop_step:
  assumes inv: "orch_inv w" and i: "i < length (or_stoppers w)"
  shows "orch_inv (stop_step i w)"
proof -
  define s where "s = or_stoppers w ! i"
  have s: "stop_ok (lives w) s"
    using inv i by (simp add: orch_inv_def stops_ok_def list_all_length s_def)
  have ok: "nodes_ok (or_nodes w) (lives w)" using inv by (simp add: orch_inv_def)
  have same: "orch_inv (set_stopper i (s\<lparr>sp_stage := st\<rparr>) w)" if "st \<noteq> Forget" "waiting_stage st \<longrightarrow> waiting_stage (sp_stage s)" for st
    by (rule inv_set_stopper [OF inv]) (use s that in \<open>simp add: stop_ok_def\<close>)
  note unfolded = stop_step_def Let_def s_def [symmetric]
  show ?thesis
  proof (cases "sp_stage s")
    case Lookup
    have "orch_inv (set_stopper i (s\<lparr>sp_handle := j, sp_stage := Unroute\<rparr>) w)" if "map_of (or_nodes w) (sp_id s) = Some j" for j
      by (rule inv_set_stopper [OF inv]) (use that nodes_ok_at [OF ok] in \<open>simp add: stop_ok_def\<close>)
    then show ?thesis using same by (simp add: unfolded Lookup waiting_stage_def split: option.split)
  next
    case Unroute
    have "orch_inv ((set_stopper i (s\<lparr>sp_stage := Cancel\<rparr>) w)\<lparr>or_mailboxes := AList.delete (sp_id s) (or_mailboxes w)\<rparr>)"
      using inv_unroute [OF same [of Cancel]] by (simp add: Unroute waiting_stage_def)
    then show ?thesis by (simp add: unfolded Unroute)
  next
    case Cancel
    have w: "orch_inv (set_stopper i (s\<lparr>sp_stage := Await\<rparr>) w)" by (rule same) (simp_all add: Cancel waiting_stage_def)
    have "sp_handle s < length (or_handles w)" using s by (simp add: stop_ok_def Cancel waiting_stage_def)
    then show ?thesis using inv_cancel [OF w, of "sp_handle s" Canceled] by (simp add: unfolded Cancel)
  next
    case Await
    have "orch_inv (set_stopper i (s\<lparr>sp_stage := Forget\<rparr>) w)" if "hd_stage (or_handles w ! sp_handle s) = Closed"
      by (rule inv_set_stopper [OF inv]) (use s that in \<open>simp add: stop_ok_def waiting_stage_def Await lives_nth\<close>)
    then show ?thesis using inv by (simp add: unfolded Await)
  next
    case Forget
    have "sp_handle s < length (lives w) \<and> snd (lives w ! sp_handle s) = Closed" using s by (simp add: stop_ok_def Forget)
    then have "map_of (or_nodes w) (sp_id s) \<noteq> Some (sp_handle s)"
      using nodes_ok_at [OF ok] by (auto simp: live_stage_def)
    then show ?thesis using same [of Unstatus] by (simp add: unfolded Forget waiting_stage_def)
  next
    case Unstatus
    then show ?thesis using same by (simp add: unfolded waiting_stage_def)
  next
    case Restart
    have w: "orch_inv (set_stopper i (s\<lparr>sp_stage := Over\<rparr>) w)" by (rule same) (simp_all add: waiting_stage_def)
    have "orch_inv (create_node mn (set_stopper i (s\<lparr>sp_stage := Over\<rparr>) w))" if "map_of (or_nodes w) (mn_id mn) = None" for mn
      by (rule inv_create [OF w]) (use that in simp)
    then show ?thesis using w
      by (simp add: unfolded Restart has_key_def split: option.split)
  next
    case Over
    then show ?thesis using inv by (simp add: unfolded)
  qed
qed

lemma inv_add_stopper: "orch_inv w \<Longrightarrow> sp_stage t = Lookup \<Longrightarrow> orch_inv (w\<lparr>or_stoppers := or_stoppers w @ [t]\<rparr>)"
  by (rule inv_stoppers) (simp_all add: orch_inv_def stops_ok_add stop_ok_def waiting_stage_def)

lemma inv_start_node: "orch_inv w \<Longrightarrow> orch_inv (start_node mn w)"
  by (cases "map_of (or_nodes w) (mn_id mn)") (simp_all add: start_node_def inv_create inv_add_stopper)

lemma inv_stop_node: "orch_inv w \<Longrightarrow> orch_inv (stop_node n w)"
  by (simp add: stop_node_def inv_add_stopper)

lemma inv_register: "orch_inv w \<Longrightarrow> h < length (or_handles w) \<Longrightarrow> orch_inv (register_node h w)"
  unfolding register_node_def
  by (auto intro!: inv_routes(2) routes_ok_add simp: lives_nth routed_stage_def)

lemma inv_report: "orch_inv w \<Longrightarrow> orch_inv (report_status h st w)"
  by (simp add: report_status_def)

lemma inv_fold: "(\<And>x w. orch_inv w \<Longrightarrow> orch_inv (f x w)) \<Longrightarrow> orch_inv w \<Longrightarrow> orch_inv (fold f xs w)"
  by (induction xs arbitrary: w) auto

lemma inv_touch_safe:
  assumes "orch_inv w" "\<And>x. hd_id (f x) = hd_id x" "\<And>x. hd_stage (f x) = hd_stage x"
    "\<And>x. hd_cancelled x \<noteq> None \<Longrightarrow> hd_cancelled (f x) \<noteq> None"
  shows "orch_inv (set_handle h (f (or_handles w ! h)) w)"
  by (rule touch_or_not [OF _ assms(1)], rule inv_touch) (use assms in simp_all)

lemma inv_event: "orch_inv w \<Longrightarrow> orch_inv (route_event n e w)"
  using inv_touch_safe [of w "\<lambda>x. x\<lparr>hd_events := hd_events x @ [e]\<rparr>"] by (simp add: route_event_def split: option.split)

lemma inv_change: "orch_inv w \<Longrightarrow> orch_inv (spread_change c full w)"
  unfolding spread_change_def
  by (rule inv_fold) (auto intro!: inv_touch_safe [of _ "\<lambda>x. x\<lparr>hd_changes := hd_changes x @ [c]\<rparr>"])

lemma cancel_fold:
  fixes w :: "'e orchestrator"
  defines "f \<equiv> \<lambda>(n, h) w. set_handle h (cancel_handle TrafficProtection (or_handles w ! h)) (w :: 'e orchestrator)"
  shows "or_nodes (fold f ns w) = or_nodes w \<and> or_blocked (fold f ns w) = or_blocked w \<and>
    or_mailboxes (fold f ns w) = or_mailboxes w \<and> or_channels (fold f ns w) = or_channels w \<and>
    or_stoppers (fold f ns w) = or_stoppers w \<and> lives (fold f ns w) = lives w \<and>
    (\<forall>h < length (or_handles w). (hd_cancelled (or_handles (fold f ns w) ! h) \<noteq> None) =
       (hd_cancelled (or_handles w ! h) \<noteq> None \<or> h \<in> snd ` set ns))"
proof (induction ns arbitrary: w)
  case (Cons e ns)
  obtain n h where e: "e = (n, h)" by (cases e)
  have "lives (f e w) = lives w"
    using list_update_id [of "lives w" h]
    by (cases "h < length (or_handles w)") (simp_all add: f_def e cancel_handle_def lives_nth list_update_beyond split: option.split)
  moreover have "(hd_cancelled (or_handles (f e w) ! j) \<noteq> None) = (hd_cancelled (or_handles w ! j) \<noteq> None \<or> j = h)"
    if "j < length (or_handles w)" for j
    using that by (cases "j = h") (auto simp: f_def e set_handle_def cancel_handle_def split: option.split)
  ultimately show ?case using Cons.IH [of "f e w"] by (auto simp: e f_def)
qed simp

lemma inv_protect:
  assumes "orch_inv w"
  shows "orch_inv ((protect_nodes w)\<lparr>or_blocked := True\<rparr>)"
proof -
  have ok: "nodes_ok (or_nodes w) (lives w)" using assms by (simp add: orch_inv_def)
  have "hd_cancelled (or_handles (protect_nodes w) ! h) \<noteq> None"
    if "h < length (or_handles w)" "live_stage (hd_stage (or_handles (protect_nodes w) ! h))" for h
  proof -
    have same: "lives (protect_nodes w) = lives w"
      using cancel_fold [of "or_nodes w" w] by (simp add: protect_nodes_def)
    moreover have "length (or_handles (protect_nodes w)) = length (or_handles w)" using same by (metis length_lives)
    ultimately have "live_stage (hd_stage (or_handles w ! h))"
      using that lives_nth [of h w] lives_nth [of h "protect_nodes w"] by simp
    then have "map_of (or_nodes w) (hd_id (or_handles w ! h)) = Some h"
      using that by (simp add: nodes_ok_at [OF ok] lives_nth)
    then have "h \<in> snd ` set (or_nodes w)" by (force dest: map_of_SomeD)
    then show ?thesis using cancel_fold [of "or_nodes w" w] that by (simp add: protect_nodes_def)
  qed
  moreover have "length (or_handles (protect_nodes w)) = length (or_handles w)"
    using cancel_fold [of "or_nodes w" w] by (metis length_lives protect_nodes_def)
  ultimately show ?thesis using assms cancel_fold [of "or_nodes w" w]
    by (simp add: orch_inv_def protected_def protect_nodes_def [symmetric]) (simp add: lives_def)
qed

lemma protect_nodes_blocked: "protect_nodes (w\<lparr>or_blocked := b\<rparr>) = (protect_nodes w)\<lparr>or_blocked := b\<rparr>"
proof -
  have "fold (\<lambda>(n, h) w. set_handle h (cancel_handle TrafficProtection (or_handles w ! h)) w) ns (w\<lparr>or_blocked := b\<rparr>) =
    (fold (\<lambda>(n, h) w. set_handle h (cancel_handle TrafficProtection (or_handles w ! h)) w) ns w)\<lparr>or_blocked := b\<rparr>" for ns
  proof (induction ns arbitrary: w)
    case (Cons e ns)
    obtain n h where e: "e = (n, h)" by (cases e)
    have "set_handle h (cancel_handle TrafficProtection (or_handles w ! h)) (w\<lparr>or_blocked := b\<rparr>) =
      (set_handle h (cancel_handle TrafficProtection (or_handles w ! h)) w)\<lparr>or_blocked := b\<rparr>" for w :: "'a orchestrator"
      by (simp add: set_handle_def)
    then show ?case using Cons.IH by (simp add: e)
  qed simp
  then show ?thesis by (simp add: protect_nodes_def)
qed

lemma inv_unblock: "orch_inv w \<Longrightarrow> orch_inv (w\<lparr>or_blocked := False\<rparr>)"
  by (simp add: orch_inv_def protected_def lives_def)

lemma inv_set_blocked: "orch_inv w \<Longrightarrow> orch_inv (set_blocked b w)"
  by (cases b) (simp_all add: set_blocked_def inv_protect inv_unblock protect_nodes_blocked Let_def)

lemma cancel_keeps [simp]: "hd_id (cancel_handle c x) = hd_id x" "hd_stage (cancel_handle c x) = hd_stage x"
  "hd_cancelled (cancel_handle c x) \<noteq> None" "hd_configured (cancel_handle c x) = hd_configured x"
  "hd_kernel (cancel_handle c x) = hd_kernel x"
  by (simp_all add: cancel_handle_def split: option.split)

lemma lives_end_run [simp]: "lives (end_run w) = lives w"
  by (simp add: end_run_def lives_def)

lemma inv_end_run: "orch_inv w \<Longrightarrow> orch_inv (end_run w)"
  unfolding orch_inv_def lives_end_run by (simp add: end_run_def protected_def)

lemma inv_step: "orch_inv w \<Longrightarrow> orch_inv (orch_step p w)"
  by (cases p) (simp_all add: inv_start_node inv_stop_node inv_advance inv_stop_step inv_register inv_report inv_set_blocked
      inv_event inv_change inv_end_run)

lemma inv_new: "orch_inv (new_orchestrator k u m)"
  by (simp add: new_orchestrator_def orch_inv_def nodes_ok_def routes_ok_def stops_ok_def protected_def lives_def)

section \<open>Runs\<close>

definition orch_run :: "string \<Rightarrow> string list \<Rightarrow> bool \<Rightarrow> 'e orch_op list \<Rightarrow> 'e orchestrator" where
  "orch_run kind unsupported metered ops = fold orch_step ops (new_orchestrator kind unsupported metered)"

interpretation orch_runs: invariant_machine orch_step orch_inv
  by unfold_locales (rule inv_step)

lemma inv_run: "orch_inv (orch_run k u m ops)"
  unfolding orch_run_def by (rule orch_runs.run_inv [OF inv_new])

section \<open>Progress of threads and of stops\<close>

text \<open>How many steps a thread and a stop have left.\<close>

primrec thread_left :: "stage \<Rightarrow> nat" where
  "thread_left Routing = 9"
| "thread_left Announcing = 8"
| "thread_left Fetching = 7"
| "thread_left Launching = 6"
| "thread_left Serving = 5"
| "thread_left (Unrouting e) = 4"
| "thread_left (Finishing e) = 3"
| "thread_left (Failing e) = 2"
| "thread_left Closing = 1"
| "thread_left Closed = 0"

primrec stop_left :: "stop_stage \<Rightarrow> nat" where
  "stop_left Lookup = 7"
| "stop_left Unroute = 6"
| "stop_left Cancel = 5"
| "stop_left Await = 4"
| "stop_left Forget = 3"
| "stop_left Unstatus = 2"
| "stop_left Restart = 1"
| "stop_left Over = 0"

lemma thread_left_0 [simp]: "thread_left st = 0 \<longleftrightarrow> st = Closed"
  by (cases st) simp_all

lemma stop_left_0 [simp]: "stop_left st = 0 \<longleftrightarrow> st = Over"
  by (cases st) simp_all

definition advances :: "nat \<Rightarrow> 'e orch_op \<Rightarrow> bool" where
  "advances h p = (case p of Advance h' _ _ \<Rightarrow> h' = h | _ \<Rightarrow> False)"

definition stops :: "nat \<Rightarrow> 'e orch_op \<Rightarrow> bool" where
  "stops i p = (case p of StopStep i' \<Rightarrow> i' = i | _ \<Rightarrow> False)"

lemma advances_simps [simp]: "advances h (Advance h' c f) = (h' = h)" "\<not> advances h (StopStep i)" "\<not> advances h (Start mn)"
  by (simp_all add: advances_def)

lemma stops_simps [simp]: "stops i (StopStep i') = (i' = i)" "\<not> stops i (Advance h c f)" "\<not> stops i (Start mn)"
  by (simp_all add: stops_def)

lemma lives_same_stage:
  "hd_id x = hd_id (or_handles w ! h) \<Longrightarrow> hd_stage x = hd_stage (or_handles w ! h) \<Longrightarrow> lives (set_handle h x w) = lives w"
  by (cases "h < length (or_handles w)") (simp_all add: lives_nth [symmetric] list_update_beyond)

lemma lives_noop [simp]: "(lives w)[h := (hd_id (or_handles w ! h), hd_stage (or_handles w ! h))] = lives w"
  by (cases "h < length (or_handles w)") (simp_all add: lives_nth [symmetric] list_update_beyond)

lemma lives_fields:
  "or_handles w' = or_handles w \<Longrightarrow> lives w' = lives w"
  by (simp add: lives_def)

lemma lives_create: "\<exists>more. lives (create_node mn w) = lives w @ more"
  by (simp add: create_node_def lives_def Let_def)

lemma lives_unchanged [simp]:
  "lives (w\<lparr>or_nodes := a\<rparr>) = lives w" "lives (w\<lparr>or_mailboxes := a\<rparr>) = lives w" "lives (w\<lparr>or_channels := a\<rparr>) = lives w"
  "lives (w\<lparr>or_rediscover := b\<rparr>) = lives w" "lives (w\<lparr>or_blocked := b\<rparr>) = lives w" "lives (w\<lparr>or_ended := b\<rparr>) = lives w"
  "lives (w\<lparr>or_stoppers := ss\<rparr>) = lives w" "lives (set_node_status n st w) = lives w" "lives (remove_node_status n w) = lives w"
  "lives (reconcile_statuses ids w) = lives w"
  by (simp_all add: lives_def set_node_status_def remove_node_status_def reconcile_statuses_def put_statuses_def)

lemma lives_advance:
  assumes "h < length (or_handles w)"
  shows "\<exists>st. lives (advance h c f w) = (lives w)[h := (hd_id (or_handles w ! h), st)] \<and>
    thread_left st = thread_left (hd_stage (or_handles w ! h)) - 1"
proof -
  define x where "x = or_handles w ! h"
  have touch: "lives (set_handle j ((or_handles v ! j)\<lparr>hd_kernel := k\<rparr>) v) = lives v" for j k and v :: "'a orchestrator"
    by (rule lives_same_stage) simp_all
  consider "hd_stage x = Fetching" | "hd_stage x = Closed" | "hd_stage x \<noteq> Fetching" "hd_stage x \<noteq> Closed" by blast
  then show ?thesis
  proof cases
    case 1
    then have "lives (advance h c f w) = lives (set_handle h (x\<lparr>hd_stage := Launching\<rparr>) w)"
      by (simp add: advance_def Let_def x_def [symmetric] touch del: lives_set_handle split: option.split)
    then show ?thesis using 1 by (auto simp: x_def)
  next
    case 2
    then show ?thesis using lives_noop [of w h] by (simp add: advance_def Let_def x_def exI [of _ Closed])
  next
    case 3
    then show ?thesis
      by (cases "hd_stage x") (auto simp: advance_def Let_def x_def [symmetric])
  qed
qed

lemma lives_stop_step: "\<exists>more. lives (stop_step i w) = lives w @ more"
proof -
  define s where "s = or_stoppers w ! i"
  obtain more where more: "lives (create_node mn (set_stopper i t w)) = lives w @ more mn t" for mn t
    using lives_create [of _ "set_stopper i _ w"] by simp metis
  have cancel: "lives (set_handle h (cancel_handle c (or_handles v ! h)) v) = lives v" for h c and v :: "'a orchestrator"
    by (rule lives_same_stage) simp_all
  show ?thesis
    using cancel [of "sp_handle s" Canceled "set_stopper i (s\<lparr>sp_stage := Await\<rparr>) w"]
    by (cases "sp_stage s") (auto simp: stop_step_def Let_def s_def [symmetric] more split: option.split)
qed

lemma lives_fold: "(\<And>x w. lives (f x w) = lives w) \<Longrightarrow> lives (fold f xs w) = lives w"
  by (induction xs arbitrary: w) auto

lemma lives_grow:
  assumes "\<forall>h c f. p \<noteq> Advance h c f"
  shows "\<exists>more. lives (orch_step p w) = lives w @ more"
proof (cases p)
  case (Start mn)
  then show ?thesis using lives_create [of mn w] by (auto simp: start_node_def split: option.split)
next
  case (StopStep i)
  then show ?thesis using lives_stop_step [of i w] by simp
next
  case (Block b)
  have "lives (protect_nodes v) = lives v" for v :: "'a orchestrator"
    using cancel_fold [of "or_nodes v" v] by (simp add: protect_nodes_def)
  then show ?thesis by (simp add: Block set_blocked_def Let_def)
next
  case (Change c full)
  have "lives (spread_change c full w) = lives (w\<lparr>or_rediscover := True\<rparr>)"
    unfolding spread_change_def by (rule lives_fold) auto
  then show ?thesis by (simp add: Change)
next
  case (Event n e)
  then show ?thesis by (auto simp: route_event_def lives_same_stage split: option.split)
qed (use assms in \<open>simp_all add: stop_node_def register_node_def report_status_def\<close>)

text \<open>A handle keeps its node, and its thread moves by its own steps only.\<close>

lemma thread_step:
  fixes p :: "'e orch_op" and w :: "'e orchestrator"
  assumes h: "h < length (or_handles w)"
  defines "w' \<equiv> orch_step p w"
  shows "h < length (or_handles w')" "hd_id (or_handles w' ! h) = hd_id (or_handles w ! h)"
    "thread_left (hd_stage (or_handles w' ! h)) = thread_left (hd_stage (or_handles w ! h)) - (if advances h p then 1 else 0)"
proof -
  have "h < length (lives w') \<and> fst (lives w' ! h) = fst (lives w ! h) \<and>
    thread_left (snd (lives w' ! h)) = thread_left (snd (lives w ! h)) - (if advances h p then 1 else 0)"
  proof (cases "\<exists>j c f. p = Advance j c f")
    case True
    then obtain j c f where p: "p = Advance j c f" by blast
    show ?thesis
    proof (cases "j < length (or_handles w)")
      case True
      then obtain st where "lives w' = (lives w)[j := (hd_id (or_handles w ! j), st)]"
        "thread_left st = thread_left (hd_stage (or_handles w ! j)) - 1"
        using lives_advance [OF True, of c f] by (auto simp: w'_def p)
      then show ?thesis using h True by (cases "j = h") (simp_all add: p lives_nth)
    next
      case False
      then show ?thesis using h by (simp add: w'_def p)
    qed
  next
    case False
    then obtain more where "lives w' = lives w @ more" using lives_grow [of p w] by (auto simp: w'_def)
    moreover have "\<not> advances h p" using False by (simp add: advances_def split: orch_op.split)
    ultimately show ?thesis using h by (simp add: nth_append)
  qed
  then show "h < length (or_handles w')" "hd_id (or_handles w' ! h) = hd_id (or_handles w ! h)"
    "thread_left (hd_stage (or_handles w' ! h)) = thread_left (hd_stage (or_handles w ! h)) - (if advances h p then 1 else 0)"
    using h by (auto simp: lives_nth)
qed

definition step_count :: "('e orch_op \<Rightarrow> bool) \<Rightarrow> 'e orch_op list \<Rightarrow> nat" where
  "step_count q ops = length (filter q ops)"

lemma step_count_simps [simp]: "step_count q [] = 0" "step_count q (p # ops) = (if q p then 1 else 0) + step_count q ops"
  by (simp_all add: step_count_def)

lemma thread_run:
  "h < length (or_handles w) \<Longrightarrow> h < length (or_handles (fold orch_step ops w)) \<and>
    hd_id (or_handles (fold orch_step ops w) ! h) = hd_id (or_handles w ! h) \<and>
    thread_left (hd_stage (or_handles (fold orch_step ops w) ! h)) = thread_left (hd_stage (or_handles w ! h)) - step_count (advances h) ops"
proof (induction ops arbitrary: w)
  case (Cons p ops)
  show ?case using Cons.IH [OF thread_step(1) [OF Cons.prems, of p]] thread_step [OF Cons.prems, of p] by simp
qed simp

lemma thread_left_9: "thread_left st \<le> 9"
  by (cases st) simp_all

lemma thread_closes:
  assumes "h < length (or_handles w)" "9 \<le> step_count (advances h) ops"
  shows "hd_stage (or_handles (fold orch_step ops w) ! h) = Closed"
  using thread_run [OF assms(1), of ops] assms(2) thread_left_9 [of "hd_stage (or_handles w ! h)"]
  by (metis diff_is_0_eq le_trans thread_left_0)

text \<open>A stop keeps its node and, once found, its handle; its own step brings it closer to its end unless it waits.\<close>

definition stop_moves :: "'e orchestrator \<Rightarrow> stopper \<Rightarrow> stopper \<Rightarrow> bool" where
  "stop_moves w s t \<longleftrightarrow> sp_id t = sp_id s \<and> (sp_stage s \<noteq> Lookup \<longrightarrow> sp_handle t = sp_handle s) \<and>
     (if sp_stage s = Over \<or> sp_stage s = Await \<and> hd_stage (or_handles w ! sp_handle s) \<noteq> Closed then t = s
      else stop_left (sp_stage t) < stop_left (sp_stage s))"

lemma stoppers_create [simp]: "or_stoppers (create_node mn w) = or_stoppers w"
  by (simp add: create_node_def Let_def)

lemma stoppers_status [simp]: "or_stoppers (set_node_status n st w) = or_stoppers w" "or_stoppers (remove_node_status n w) = or_stoppers w"
  "or_stoppers (reconcile_statuses ids w) = or_stoppers w"
  by (simp_all add: set_node_status_def remove_node_status_def reconcile_statuses_def put_statuses_def)

lemma stoppers_set [simp]: "or_stoppers (set_stopper i t w) = (or_stoppers w)[i := t]"
  by (simp add: set_stopper_def)

lemma stoppers_stop_step:
  assumes "i < length (or_stoppers w)"
  shows "\<exists>t. or_stoppers (stop_step i w) = (or_stoppers w)[i := t] \<and> stop_moves w (or_stoppers w ! i) t"
proof -
  define s where "s = or_stoppers w ! i"
  have s: "(or_stoppers w)[i := s] = or_stoppers w" by (simp add: s_def)
  have moved: "\<exists>t. ss[i := u] = ss[i := t] \<and> P t" if "P u" for ss :: "stopper list" and u P using that by blast
  show ?thesis
    unfolding s_def [symmetric]
  proof (cases "sp_stage s")
    case Await
    show "\<exists>t. or_stoppers (stop_step i w) = (or_stoppers w)[i := t] \<and> stop_moves w s t"
    proof (cases "hd_stage (or_handles w ! sp_handle s) = Closed")
      case True
      then show ?thesis using Await by (auto simp: stop_step_def Let_def s_def [symmetric] stop_moves_def intro!: moved)
    next
      case False
      then show ?thesis using Await s
        by (intro exI [of _ s]) (simp add: stop_step_def Let_def s_def [symmetric] stop_moves_def)
    qed
  next
    case Over
    then show "\<exists>t. or_stoppers (stop_step i w) = (or_stoppers w)[i := t] \<and> stop_moves w s t" using s
      by (intro exI [of _ s]) (simp add: stop_step_def Let_def s_def [symmetric] stop_moves_def)
  qed (auto simp: stop_step_def Let_def s_def [symmetric] stop_moves_def intro!: moved split: option.split)
qed

lemma stoppers_fold: "(\<And>x w. or_stoppers (f x w) = or_stoppers w) \<Longrightarrow> or_stoppers (fold f xs w) = or_stoppers w"
  by (induction xs arbitrary: w) auto

lemma stoppers_advance: "or_stoppers (advance h c f w) = or_stoppers w"
  by (cases "hd_stage (or_handles w ! h)") (simp_all add: advance_def Let_def split: option.split)

lemma stoppers_step:
  fixes p :: "'e orch_op" and w :: "'e orchestrator"
  assumes i: "i < length (or_stoppers w)"
  defines "ss \<equiv> or_stoppers (orch_step p w)"
  shows "i < length ss" "if stops i p then stop_moves w (or_stoppers w ! i) (ss ! i) else ss ! i = or_stoppers w ! i"
proof -
  have keep: "or_stoppers (protect_nodes v) = or_stoppers v" "or_stoppers (spread_change c full v) = or_stoppers v"
    for v :: "'e orchestrator" and c full
    unfolding protect_nodes_def spread_change_def by (subst stoppers_fold; auto)+
  have "i < length ss \<and> (if stops i p then stop_moves w (or_stoppers w ! i) (ss ! i) else ss ! i = or_stoppers w ! i)"
  proof (cases p)
    case (StopStep j)
    then show ?thesis using i stoppers_stop_step [of j w] by (cases "j = i") (auto simp: ss_def)
  qed (use i in \<open>simp_all add: ss_def stops_def start_node_def stop_node_def stoppers_advance register_node_def report_status_def
      end_run_def set_blocked_def Let_def route_event_def keep nth_append split: option.split\<close>)
  then show "i < length ss" "if stops i p then stop_moves w (or_stoppers w ! i) (ss ! i) else ss ! i = or_stoppers w ! i"
    by simp_all
qed

abbreviation stop_at :: "'e orchestrator \<Rightarrow> nat \<Rightarrow> stopper" where
  "stop_at w i \<equiv> or_stoppers w ! i"

lemma stop_left_simps: "4 < stop_left st \<longleftrightarrow> st = Lookup \<or> st = Unroute \<or> st = Cancel" "stop_left st = 4 \<longleftrightarrow> st = Await"
  by (cases st; simp)+

lemma stop_moves_left: "stop_moves w s t \<Longrightarrow> stop_left (sp_stage t) \<le> stop_left (sp_stage s)"
  by (auto simp: stop_moves_def split: if_splits)

lemma stop_reaches_wait:
  "i < length (or_stoppers w) \<Longrightarrow> i < length (or_stoppers (fold orch_step ops w)) \<and>
    stop_left (sp_stage (stop_at (fold orch_step ops w) i)) \<le> max 4 (stop_left (sp_stage (stop_at w i)) - step_count (stops i) ops)"
proof (induction ops arbitrary: w)
  case (Cons p ops)
  let ?w = "orch_step p w"
  have "stop_left (sp_stage (stop_at ?w i)) \<le> max 4 (stop_left (sp_stage (stop_at w i)) - (if stops i p then 1 else 0))"
  proof (cases "stops i p")
    case True
    then have m: "stop_moves w (stop_at w i) (stop_at ?w i)" using stoppers_step(2) [OF Cons.prems, of p] by simp
    show ?thesis
    proof (cases "4 < stop_left (sp_stage (stop_at w i))")
      case True
      then have "stop_left (sp_stage (stop_at ?w i)) < stop_left (sp_stage (stop_at w i))"
        using m by (auto simp: stop_moves_def stop_left_simps)
      then show ?thesis using \<open>stops i p\<close> by simp
    next
      case False
      then show ?thesis using stop_moves_left [OF m] by simp
    qed
  next
    case False
    then show ?thesis using stoppers_step(2) [OF Cons.prems, of p] by simp
  qed
  then show ?case using Cons.IH [OF stoppers_step(1) [OF Cons.prems, of p]] by auto
qed simp

definition released :: "'e orchestrator \<Rightarrow> nat \<Rightarrow> bool" where
  "released w i \<longleftrightarrow> i < length (or_stoppers w) \<and> stop_left (sp_stage (stop_at w i)) \<le> 4 \<and>
     (sp_stage (stop_at w i) = Await \<longrightarrow>
       sp_handle (stop_at w i) < length (or_handles w) \<and> hd_stage (or_handles w ! sp_handle (stop_at w i)) = Closed)"

lemma closed_stays: "h < length (or_handles w) \<Longrightarrow> hd_stage (or_handles w ! h) = Closed \<Longrightarrow>
    h < length (or_handles (orch_step p w)) \<and> hd_stage (or_handles (orch_step p w) ! h) = Closed"
  using thread_step [of h w p] by simp

lemma released_step:
  assumes "released w i"
  shows "released (orch_step p w) i"
    "stop_left (sp_stage (stop_at (orch_step p w) i)) \<le> stop_left (sp_stage (stop_at w i)) - (if stops i p then 1 else 0)"
proof -
  let ?w = "orch_step p w" and ?s = "stop_at w i" and ?t = "stop_at (orch_step p w) i"
  have i: "i < length (or_stoppers w)" using assms by (simp add: released_def)
  note s = stoppers_step [OF i, of p]
  have less: "stop_left (sp_stage ?t) < stop_left (sp_stage ?s) \<or> ?t = ?s \<and> sp_stage ?s = Over" if "stops i p"
    using s(2) that assms by (auto simp: stop_moves_def released_def split: if_splits)
  show "released ?w i"
  proof (cases "?t = ?s")
    case True
    then show ?thesis using assms s(1) closed_stays [of "sp_handle ?s" w p] by (auto simp: released_def)
  next
    case False
    then have "stop_left (sp_stage ?t) < stop_left (sp_stage ?s)" using less s(2) by (cases "stops i p") auto
    then have "stop_left (sp_stage ?t) < 4" using assms by (simp add: released_def)
    then show ?thesis using s(1) by (auto simp: released_def)
  qed
  show "stop_left (sp_stage ?t) \<le> stop_left (sp_stage ?s) - (if stops i p then 1 else 0)"
    using less s(2) by (cases "stops i p") auto
qed

lemma released_run:
  "released w i \<Longrightarrow> released (fold orch_step ops w) i \<and>
    stop_left (sp_stage (stop_at (fold orch_step ops w) i)) \<le> stop_left (sp_stage (stop_at w i)) - step_count (stops i) ops"
proof (induction ops arbitrary: w)
  case (Cons p ops)
  show ?case using Cons.IH [OF released_step(1) [OF Cons.prems, of p]] released_step(2) [OF Cons.prems, of p] by auto
qed simp

lemma wait_keeps_handle:
  "i < length (or_stoppers w) \<Longrightarrow> sp_stage (stop_at w i) = Await \<Longrightarrow>
    i < length (or_stoppers (fold orch_step ops w)) \<and> stop_left (sp_stage (stop_at (fold orch_step ops w) i)) \<le> 4 \<and>
    (sp_stage (stop_at (fold orch_step ops w) i) = Await \<longrightarrow> sp_handle (stop_at (fold orch_step ops w) i) = sp_handle (stop_at w i))"
proof (induction ops rule: rev_induct)
  case (snoc p ops)
  let ?v = "fold orch_step ops w"
  have v: "i < length (or_stoppers ?v)" "stop_left (sp_stage (stop_at ?v i)) \<le> 4"
    "sp_stage (stop_at ?v i) = Await \<Longrightarrow> sp_handle (stop_at ?v i) = sp_handle (stop_at w i)"
    using snoc by auto
  have moved: "stop_moves ?v (stop_at ?v i) (stop_at (orch_step p ?v) i) \<or> stop_at (orch_step p ?v) i = stop_at ?v i"
    using stoppers_step(2) [OF v(1), of p] by (cases "stops i p") auto
  then have less: "stop_left (sp_stage (stop_at (orch_step p ?v) i)) < stop_left (sp_stage (stop_at ?v i)) \<or>
      stop_at (orch_step p ?v) i = stop_at ?v i"
    by (auto simp: stop_moves_def split: if_splits)
  then have "sp_stage (stop_at (orch_step p ?v) i) = Await \<Longrightarrow> stop_at (orch_step p ?v) i = stop_at ?v i"
    using v(2) by auto
  then show ?case using stoppers_step(1) [OF v(1), of p] v less by auto
qed simp

section \<open>Kernels of the handles\<close>

definition known_kernel :: "string \<Rightarrow> bool" where
  "known_kernel k \<longleftrightarrow> k = ''singbox'' \<or> k = ''xray''"

definition kernels_ok :: "'e handle list \<Rightarrow> bool" where
  "kernels_ok hs \<longleftrightarrow> list_all (\<lambda>x. known_kernel (hd_configured x) \<and> known_kernel (hd_kernel x)) hs"

lemma known_normalized: "normalize_kernel v = Some k \<Longrightarrow> known_kernel k"
  by (auto simp: normalize_kernel_def known_kernel_def Let_def split: if_splits)

lemma known_machine_kernel: "known_kernel (machine_node_kernel mn w)"
  by (auto simp: machine_node_kernel_def known_normalized split: option.split) (simp add: known_kernel_def)

lemma known_resolved: "known_kernel k \<Longrightarrow> known_kernel (resolve_kernel unsupported network k)"
  by (simp add: resolve_kernel_def known_kernel_def)

lemma known_fetched: "known_kernel wanted \<Longrightarrow> known_kernel (fetched_kernel fetched wanted w)"
  by (auto simp: fetched_kernel_def Let_def known_resolved known_normalized split: option.split)

lemma kernels_update: "kernels_ok hs \<Longrightarrow>
    (h < length hs \<Longrightarrow> known_kernel (hd_configured x) \<and> known_kernel (hd_kernel x)) \<Longrightarrow> kernels_ok (hs[h := x])"
  by (cases "h < length hs") (auto simp: kernels_ok_def list_all_length nth_list_update list_update_beyond)

lemma kernels_at: "kernels_ok hs \<Longrightarrow> h < length hs \<Longrightarrow> known_kernel (hd_configured (hs ! h)) \<and> known_kernel (hd_kernel (hs ! h))"
  by (simp add: kernels_ok_def list_all_length)

lemma kernels_set: "kernels_ok (or_handles w) \<Longrightarrow>
    (h < length (or_handles w) \<Longrightarrow> known_kernel (hd_configured x) \<and> known_kernel (hd_kernel x)) \<Longrightarrow>
    kernels_ok (or_handles (set_handle h x w))"
  by (simp add: set_handle_def kernels_update)

lemma kernels_create: "kernels_ok (or_handles w) \<Longrightarrow> kernels_ok (or_handles (create_node mn w))"
  by (simp add: create_node_def Let_def kernels_ok_def known_machine_kernel)

lemma handles_status [simp]: "or_handles (set_node_status n st w) = or_handles w" "or_handles (remove_node_status n w) = or_handles w"
  "or_handles (reconcile_statuses ids w) = or_handles w"
  by (simp_all add: set_node_status_def remove_node_status_def reconcile_statuses_def put_statuses_def)

lemma kernels_fold: "(\<And>x w. kernels_ok (or_handles w) \<Longrightarrow> kernels_ok (or_handles (f x w))) \<Longrightarrow>
    kernels_ok (or_handles w) \<Longrightarrow> kernels_ok (or_handles (fold f xs w))"
  by (induction xs arbitrary: w) auto

lemma kernels_cancel: "kernels_ok (or_handles w) \<Longrightarrow> kernels_ok (or_handles (set_handle h (cancel_handle c (or_handles w ! h)) w))"
  by (rule kernels_set) (simp_all add: kernels_at)

lemma kernels_advance:
  assumes ok: "kernels_ok (or_handles w)" and h: "h < length (or_handles w)"
  shows "kernels_ok (or_handles (advance h c f w))"
proof -
  define x where "x = or_handles w ! h"
  have x: "known_kernel (hd_configured x)" "known_kernel (hd_kernel x)" using kernels_at [OF ok h] by (simp_all add: x_def)
  have next_ok: "kernels_ok (or_handles (set_handle h (x\<lparr>hd_stage := st\<rparr>) w))" for st
    by (rule kernels_set [OF ok]) (simp add: x)
  have kernel_ok: "kernels_ok (or_handles (set_handle j ((or_handles v ! j)\<lparr>hd_kernel := fetched_kernel c (hd_configured x) w\<rparr>) v))"
    if "kernels_ok (or_handles v)" for j and v :: "'a orchestrator"
    by (rule kernels_set [OF that]) (use kernels_at [OF that] in \<open>simp add: known_fetched x\<close>)
  show ?thesis using ok next_ok kernel_ok [OF next_ok]
    by (cases "hd_stage x") (simp_all add: advance_def Let_def x_def [symmetric] split: option.split)
qed

lemma kernels_stop_step:
  assumes ok: "kernels_ok (or_handles w)"
  shows "kernels_ok (or_handles (stop_step i w))"
proof -
  define s where "s = or_stoppers w ! i"
  have cancel: "kernels_ok (or_handles (set_handle (sp_handle s) (cancel_handle Canceled (or_handles w ! sp_handle s)) (set_stopper i t w)))" for t
    using kernels_cancel [of "set_stopper i t w"] ok by simp
  have create: "kernels_ok (or_handles (create_node mn (set_stopper i t w)))" for mn t
    by (rule kernels_create) (simp add: ok)
  show ?thesis using ok cancel create
    by (cases "sp_stage s") (simp_all add: stop_step_def Let_def s_def [symmetric] split: option.split)
qed

lemma kernels_end: "kernels_ok (or_handles w) \<Longrightarrow> kernels_ok (or_handles (end_run w))"
  by (simp add: end_run_def kernels_ok_def list_all_length)

lemma kernels_step:
  assumes ok: "kernels_ok (or_handles w)"
  shows "kernels_ok (or_handles (orch_step p w))"
proof (cases p)
  case (Block b)
  have "kernels_ok (or_handles (protect_nodes v))" if "kernels_ok (or_handles v)" for v :: "'a orchestrator"
    unfolding protect_nodes_def by (rule kernels_fold) (auto simp: that intro: kernels_cancel)
  then show ?thesis using ok by (simp add: Block set_blocked_def Let_def)
next
  case (Change c full)
  show ?thesis unfolding Change orch_step.simps spread_change_def
    by (rule kernels_fold) (auto simp: ok kernels_at intro!: kernels_set)
next
  case (Event n e)
  then show ?thesis using ok by (auto simp: route_event_def kernels_at intro!: kernels_set split: option.split)
qed (use ok in \<open>simp_all add: start_node_def stop_node_def register_node_def report_status_def kernels_create kernels_advance
    kernels_stop_step kernels_end split: option.split\<close>)

interpretation kernel_runs: invariant_machine orch_step "\<lambda>w. kernels_ok (or_handles w)"
  by unfold_locales (rule kernels_step)

section \<open>Properties\<close>

lemma blocked_step:
  assumes "or_blocked w" "p \<noteq> Block False"
  shows "or_blocked (orch_step p w) \<and> length (or_handles (orch_step p w)) = length (or_handles w)"
proof -
  have fold_same: "or_blocked (fold f xs v) = or_blocked v \<and> length (or_handles (fold f xs v)) = length (or_handles v)"
    if "\<And>x v. or_blocked (f x v) = or_blocked v \<and> length (or_handles (f x v)) = length (or_handles v)"
    for f xs and v :: "'a orchestrator"
    using that by (induction xs arbitrary: v) auto
  have keep: "or_blocked (protect_nodes v) = or_blocked v \<and> length (or_handles (protect_nodes v)) = length (or_handles v)"
    "or_blocked (spread_change c full v) = or_blocked v \<and> length (or_handles (spread_change c full v)) = length (or_handles v)"
    for v :: "'a orchestrator" and c full
    using fold_same [of "\<lambda>(n, h) w. set_handle h (cancel_handle TrafficProtection (or_handles w ! h)) w" "or_nodes v" v]
      fold_same [of "\<lambda>(n, h) w. if h \<in> set full then w
        else set_handle h ((or_handles w ! h)\<lparr>hd_changes := hd_changes (or_handles w ! h) @ [c]\<rparr>) w" "or_channels v" "v\<lparr>or_rediscover := True\<rparr>"]
    by (auto simp: protect_nodes_def spread_change_def)
  have status: "or_blocked (set_node_status n st v) = or_blocked v" "or_handles (set_node_status n st v) = or_handles v"
    "or_blocked (remove_node_status n v) = or_blocked v" "or_handles (remove_node_status n v) = or_handles v"
    "or_blocked (reconcile_statuses ids v) = or_blocked v" "or_handles (reconcile_statuses ids v) = or_handles v"
    "or_blocked (set_stopper i t v) = or_blocked v"
    for n st ids i t and v :: "'a orchestrator"
    by (simp_all add: set_node_status_def remove_node_status_def reconcile_statuses_def put_statuses_def set_stopper_def)
  show ?thesis
  proof (cases p)
    case (Advance h c f)
    then show ?thesis using assms
      by (cases "hd_stage (or_handles w ! h)") (simp_all add: advance_def Let_def status split: option.split)
  next
    case (StopStep i)
    then show ?thesis using assms
      by (cases "sp_stage (or_stoppers w ! i)") (simp_all add: stop_step_def Let_def status create_node_def split: option.split)
  qed (use assms in \<open>simp_all add: start_node_def create_node_def stop_node_def register_node_def report_status_def set_blocked_def
      Let_def route_event_def keep status end_run_def split: option.split\<close>)
qed

lemma blocked_run:
  "or_blocked w \<Longrightarrow> Block False \<notin> set ops \<Longrightarrow>
    or_blocked (fold orch_step ops w) \<and> length (or_handles (fold orch_step ops w)) = length (or_handles w)"
  by (induction ops arbitrary: w) (auto simp: blocked_step)

text \<open>C12. Whatever discovery, the push connection, the meter and the nodes' own threads do and in whatever order, a node
  has at most one thread between its start and the return of its service, and the mailbox and the channel under
  a node's number belong to a thread of that node whose service has not been unregistered.\<close>

theorem one_live_service_per_node:
  fixes kind :: string and unsupported :: "string list" and metered :: bool and ops :: "'e orch_op list"
  defines "w \<equiv> orch_run kind unsupported metered ops"
  shows "(\<forall>h < length (or_handles w). live_stage (hd_stage (or_handles w ! h)) \<longrightarrow>
      map_of (or_nodes w) (hd_id (or_handles w ! h)) = Some h \<and>
      (\<forall>h' < length (or_handles w). live_stage (hd_stage (or_handles w ! h')) \<longrightarrow>
        hd_id (or_handles w ! h') = hd_id (or_handles w ! h) \<longrightarrow> h' = h)) \<and>
    (\<forall>n h. map_of (or_mailboxes w) n = Some h \<or> map_of (or_channels w) n = Some h \<longrightarrow>
      h < length (or_handles w) \<and> hd_id (or_handles w ! h) = n \<and> routed_stage (hd_stage (or_handles w ! h)))"
proof -
  have inv: "nodes_ok (or_nodes w) (lives w)" "routes_ok (or_mailboxes w) (lives w)" "routes_ok (or_channels w) (lives w)"
    using inv_run [of kind unsupported metered ops] by (simp_all add: orch_inv_def w_def)
  have node: "map_of (or_nodes w) (hd_id (or_handles w ! h)) = Some h"
    if "h < length (or_handles w)" "live_stage (hd_stage (or_handles w ! h))" for h
    using that by (simp add: nodes_ok_at [OF inv(1)] lives_nth)
  have route: "h < length (or_handles w) \<and> hd_id (or_handles w ! h) = n \<and> routed_stage (hd_stage (or_handles w ! h))"
    if "map_of m n = Some h" "routes_ok m (lives w)" for m n h
    using that lives_nth [of h w] unfolding routes_ok_def by fastforce
  have unique: "h' = h" if "h < length (or_handles w)" "live_stage (hd_stage (or_handles w ! h))"
    "h' < length (or_handles w)" "live_stage (hd_stage (or_handles w ! h'))" "hd_id (or_handles w ! h') = hd_id (or_handles w ! h)" for h h'
    using node [OF that(1,2)] node [OF that(3,4)] that(5) by simp
  show ?thesis
    by (intro conjI allI impI; (elim disjE)?; (rule node unique route [OF _ inv(2)] route [OF _ inv(3)]; assumption)?)
      (use route [OF _ inv(2)] route [OF _ inv(3)] in blast)+
qed

text \<open>C13. Once traffic protection is on, every thread whose service may be running has been told to stop, and no new one is
  created until protection is lifted, whatever discovery and restarts that were already under way do.\<close>

theorem blocked_machine_is_protected:
  fixes kind :: string and unsupported :: "string list" and metered :: bool and ops more :: "'e orch_op list"
  defines "w \<equiv> orch_run kind unsupported metered ops"
  defines "v \<equiv> fold orch_step more w"
  assumes "or_blocked w" "Block False \<notin> set more"
  shows "length (or_handles v) = length (or_handles w) \<and>
    (\<forall>h < length (or_handles v). live_stage (hd_stage (or_handles v ! h)) \<longrightarrow> hd_cancelled (or_handles v ! h) \<noteq> None)"
proof -
  have v: "or_blocked v \<and> length (or_handles v) = length (or_handles w)"
    unfolding v_def by (rule blocked_run [OF assms(3,4)])
  moreover have "orch_inv v" unfolding v_def w_def by (rule orch_runs.run_inv [OF inv_run])
  ultimately show ?thesis by (simp add: orch_inv_def protected_def)
qed



section \<open>Witnesses\<close>

text \<open>Two nodes run, one pushes, one is stopped while protection is switched on and a restart is under way.\<close>

definition example_ops :: "nat orch_op list" where
  "example_ops = [Start \<lparr>mn_id = 1, mn_kernel = ''Sing-Box''\<rparr>, Advance 0 None False, Start \<lparr>mn_id = 2, mn_kernel = ''x''\<rparr>,
     Advance 0 None False, Advance 0 (Some ('''', ''XHTTP'')) False, Advance 0 None False, Register 0, Event 1 7,
     Start \<lparr>mn_id = 1, mn_kernel = ''xray''\<rparr>, StopStep 0, Stop 2]"

definition example_state :: "nat orchestrator" where
  "example_state = orch_run ''xray'' [''xhttp''] True (Block False # example_ops)"

lemma one_live_service_per_node_witness: "map_of (or_nodes example_state) 1 = Some 0"
proof -
  have "0 < length (or_handles example_state) \<and> live_stage (hd_stage (or_handles example_state ! 0)) \<and>
      hd_id (or_handles example_state ! 0) = 1" by code_simp
  then show ?thesis
    using one_live_service_per_node [of "''xray''" "[''xhttp'']" True "Block False # example_ops", folded example_state_def] by auto
qed

lemma blocked_machine_is_protected_witness:
  "hd_cancelled (or_handles (fold orch_step (StopStep 0 # StopStep 0 # example_ops) (orch_step (Block True) example_state)) ! 1) \<noteq> None"
proof -
  have run: "orch_run ''xray'' [''xhttp''] True (Block False # example_ops @ [Block True]) = orch_step (Block True) example_state"
    by (simp add: orch_run_def example_state_def)
  have "or_blocked (orch_step (Block True) example_state)" by code_simp
  moreover have "Block False \<notin> set (StopStep 0 # StopStep 0 # example_ops)" by (simp add: example_ops_def)
  moreover have "1 < length (or_handles (fold orch_step (StopStep 0 # StopStep 0 # example_ops) (orch_step (Block True) example_state)))"
    "live_stage (hd_stage (or_handles (fold orch_step (StopStep 0 # StopStep 0 # example_ops) (orch_step (Block True) example_state)) ! 1))"
    by code_simp+
  ultimately show ?thesis
    using blocked_machine_is_protected [of "''xray''" "[''xhttp'']" True "Block False # example_ops @ [Block True]"
        "StopStep 0 # StopStep 0 # example_ops", unfolded run] by blast
qed


end
