(* ===== verification/KernelTraffic.thy ===== *)
theory KernelTraffic
  imports TrafficTracker
begin

text \<open>
  Model of the traffic counters of the sing-box kernel (\<open>internal/kernel/singbox/traffic.go\<close> and
  \<open>traffic_retire.go\<close>). Connections add to counters without a lock while counters of users and
  nodes that have gone are retired under one, and an addition that meets a retired counter moves
  what it finds there to the current counter of the same key.

  Counters are indices into a heap, so a connection that holds a retired counter keeps it. Every
  atomic operation is one step, and steps of any number of additions and of the section under
  \<open>mu\<close> come in any order. The three Go maps of current counters are one map whose keys tell them
  apart; an inner map of relay users without entries is the same as none. \<open>kt_log\<close> and \<open>kt_settled\<close>
  record what was added and what was retired.
\<close>

section \<open>State\<close>

datatype ledger_key = UserKey int | RelayKey int | RelayUserKey int int

record user_traffic =
  ut_key :: ledger_key
  ut_value :: traffic
  ut_retired :: bool

text \<open>A call of \<open>trafficCounter.Add\<close>: before the addition, before the check of \<open>retired\<close>, before the lock of
  \<open>reactivate\<close>, in it, and over.\<close>

datatype add_stage = Adding | Checking | Waiting | Locked | Finished

record add_call =
  ac_counter :: nat
  ac_amount :: traffic
  ac_stage :: add_stage

text \<open>The section under \<open>mu\<close>. What was swapped out and not yet put back is carried along.\<close>

datatype reactivate_stage =
    ReCheck
  | ReUp
  | ReDown traffic
  | RePut traffic
  | ReAddUp nat traffic
  | ReAddDown nat traffic

datatype retire_stage =
    RtNext
  | RtUp nat
  | RtDown nat traffic
  | RtCompare nat traffic
  | RtBackUp nat traffic
  | RtBackDown nat traffic
  | RtUnmark nat

datatype totals_lock =
    Idle
  | Reactivate nat reactivate_stage
  | Retire "(ledger_key \<times> traffic) list" retire_stage

record kernel_traffic =
  kt_heap :: "user_traffic list"
  kt_current :: "(ledger_key, nat) go_map"
  kt_calls :: "add_call list"
  kt_lock :: totals_lock
  kt_log :: "(ledger_key \<times> traffic) list"
  kt_settled :: "(ledger_key \<times> traffic) list"

definition new_traffic_totals :: kernel_traffic where
  "new_traffic_totals = \<lparr>kt_heap = [], kt_current = [], kt_calls = [], kt_lock = Idle, kt_log = [], kt_settled = []\<rparr>"

definition set_value :: "nat \<Rightarrow> traffic \<Rightarrow> kernel_traffic \<Rightarrow> kernel_traffic" where
  "set_value i v w = w\<lparr>kt_heap := (kt_heap w)[i := (kt_heap w ! i)\<lparr>ut_value := v\<rparr>]\<rparr>"

definition set_retired :: "nat \<Rightarrow> bool \<Rightarrow> kernel_traffic \<Rightarrow> kernel_traffic" where
  "set_retired i b w = w\<lparr>kt_heap := (kt_heap w)[i := (kt_heap w ! i)\<lparr>ut_retired := b\<rparr>]\<rparr>"

definition set_add_stage :: "nat \<Rightarrow> add_stage \<Rightarrow> kernel_traffic \<Rightarrow> kernel_traffic" where
  "set_add_stage c st w = w\<lparr>kt_calls := (kt_calls w)[c := (kt_calls w ! c)\<lparr>ac_stage := st\<rparr>]\<rparr>"

abbreviation value_of :: "kernel_traffic \<Rightarrow> nat \<Rightarrow> traffic" where
  "value_of w i \<equiv> ut_value (kt_heap w ! i)"

section \<open>Counters\<close>

definition new_counter :: "ledger_key \<Rightarrow> kernel_traffic \<Rightarrow> kernel_traffic" where
  "new_counter k w =
     w\<lparr>kt_heap := kt_heap w @ [\<lparr>ut_key = k, ut_value = 0, ut_retired = False\<rparr>],
       kt_current := AList.update k (length (kt_heap w)) (kt_current w)\<rparr>"

text \<open>\<open>user\<close> and \<open>relayCounters\<close>: the current counter of a key is made when it is missing.\<close>

definition open_counter :: "ledger_key \<Rightarrow> kernel_traffic \<Rightarrow> kernel_traffic" where
  "open_counter k w = (if has_key (kt_current w) k then w else new_counter k w)"

definition relay_counters :: "int \<Rightarrow> int \<Rightarrow> kernel_traffic \<Rightarrow> kernel_traffic" where
  "relay_counters uid node w =
     (if uid \<le> 0 \<or> node \<le> 0 then w else open_counter (RelayUserKey uid node) (open_counter (RelayKey node) w))"

definition snapshot_traffic :: "kernel_traffic \<Rightarrow> (ledger_key, traffic) go_map" where
  "snapshot_traffic w =
     filter (\<lambda>(k, v). any_positive v) (map (\<lambda>(k, i). (k, value_of w i)) (kt_current w))"

section \<open>Adding\<close>

definition start_add :: "nat \<Rightarrow> traffic \<Rightarrow> kernel_traffic \<Rightarrow> kernel_traffic" where
  "start_add i amt w = w\<lparr>kt_calls := kt_calls w @ [\<lparr>ac_counter = i, ac_amount = amt, ac_stage = Adding\<rparr>]\<rparr>"

definition add_step :: "nat \<Rightarrow> kernel_traffic \<Rightarrow> kernel_traffic" where
  "add_step c w =
     (let call = kt_calls w ! c; i = ac_counter call in
      case ac_stage call of
        Adding \<Rightarrow>
          set_add_stage c Checking
            ((set_value i (value_of w i + ac_amount call) w)\<lparr>kt_log := kt_log w @ [(ut_key (kt_heap w ! i), ac_amount call)]\<rparr>)
      | Checking \<Rightarrow> set_add_stage c (if ut_retired (kt_heap w ! i) then Waiting else Finished) w
      | Waiting \<Rightarrow> if kt_lock w = Idle then (set_add_stage c Locked w)\<lparr>kt_lock := Reactivate c ReCheck\<rparr> else w
      | Locked \<Rightarrow> w
      | Finished \<Rightarrow> w)"

section \<open>The section under the lock\<close>

definition leave_reactivate :: "nat \<Rightarrow> kernel_traffic \<Rightarrow> kernel_traffic" where
  "leave_reactivate c w = (set_add_stage c Finished w)\<lparr>kt_lock := Idle\<rparr>"

definition reactivate_step :: "nat \<Rightarrow> reactivate_stage \<Rightarrow> kernel_traffic \<Rightarrow> kernel_traffic" where
  "reactivate_step c st w =
     (let i = ac_counter (kt_calls w ! c); old = kt_heap w ! i; next = (\<lambda>st w. w\<lparr>kt_lock := Reactivate c st\<rparr>) in
      case st of
        ReCheck \<Rightarrow> if ut_retired old then next ReUp w else leave_reactivate c w
      | ReUp \<Rightarrow> next (ReDown (Traffic (up (ut_value old)) 0)) (set_value i (Traffic 0 (down (ut_value old))) w)
      | ReDown h \<Rightarrow>
          let h' = Traffic (up h) (down (ut_value old)); w' = set_value i (Traffic (up (ut_value old)) 0) w in
          if h' = 0 then leave_reactivate c w' else next (RePut h') w'
      | RePut h \<Rightarrow>
          let w' = open_counter (ut_key old) w in
          next (ReAddUp (the (map_of (kt_current w') (ut_key old))) h) w'
      | ReAddUp j h \<Rightarrow> next (ReAddDown j (Traffic 0 (down h))) (set_value j (value_of w j + Traffic (up h) 0) w)
      | ReAddDown j h \<Rightarrow> leave_reactivate c (set_value j (value_of w j + h) w))"

text \<open>What \<open>RetireTraffic\<close> tries to retire: \<open>keep_user\<close> and \<open>keep_node\<close> are the users and nodes of the configuration,
  \<open>busy\<close> the users with connections.\<close>

definition retire_todo ::
  "(int \<Rightarrow> bool) \<Rightarrow> (int \<Rightarrow> bool) \<Rightarrow> (int, bool) go_map \<Rightarrow> traffic_counters \<Rightarrow> (ledger_key \<times> traffic) list" where
  "retire_todo keep_user keep_node busy candidates =
     (let any_busy = (True \<in> snd ` set busy) in
      map (\<lambda>(id, v). (UserKey id, v)) (filter (\<lambda>(id, v). \<not> keep_user id \<and> \<not> get_or False busy id) (tc_users candidates)) @
      map (\<lambda>(id, v). (RelayKey id, v)) (filter (\<lambda>(id, v). \<not> keep_node id \<and> \<not> any_busy) (tc_relay candidates)) @
      concat (map (\<lambda>(uid, nodes).
        map (\<lambda>(id, v). (RelayUserKey uid id, v))
          (filter (\<lambda>(id, v). (\<not> keep_user uid \<or> \<not> keep_node id) \<and> \<not> get_or False busy uid) nodes)) (tc_relay_users candidates)))"

definition retire_step :: "(ledger_key \<times> traffic) list \<Rightarrow> retire_stage \<Rightarrow> kernel_traffic \<Rightarrow> kernel_traffic" where
  "retire_step todo st w =
     (case todo of
        [] \<Rightarrow> w\<lparr>kt_lock := Idle\<rparr>
      | (k, expected) # rest \<Rightarrow>
          let next = (\<lambda>st w. w\<lparr>kt_lock := Retire todo st\<rparr>) in
          (case st of
             RtNext \<Rightarrow>
               (case map_of (kt_current w) k of
                  None \<Rightarrow> w\<lparr>kt_lock := Retire rest RtNext\<rparr>
                | Some i \<Rightarrow> next (RtUp i) (set_retired i True w))
           | RtUp i \<Rightarrow> next (RtDown i (Traffic (up (value_of w i)) 0)) (set_value i (Traffic 0 (down (value_of w i))) w)
           | RtDown i h \<Rightarrow>
               next (RtCompare i (Traffic (up h) (down (value_of w i)))) (set_value i (Traffic (up (value_of w i)) 0) w)
           | RtCompare i h \<Rightarrow>
               if h \<noteq> expected then next (RtBackUp i h) w
               else w\<lparr>kt_lock := Retire rest RtNext, kt_current := AList.delete k (kt_current w), kt_settled := kt_settled w @ [(k, h)]\<rparr>
           | RtBackUp i h \<Rightarrow> next (RtBackDown i (Traffic 0 (down h))) (set_value i (value_of w i + Traffic (up h) 0) w)
           | RtBackDown i h \<Rightarrow> next (RtUnmark i) (set_value i (value_of w i + h) w)
           | RtUnmark i \<Rightarrow> (set_retired i False w)\<lparr>kt_lock := Retire rest RtNext\<rparr>))"

definition lock_step :: "kernel_traffic \<Rightarrow> kernel_traffic" where
  "lock_step w =
     (case kt_lock w of
        Idle \<Rightarrow> w
      | Reactivate c st \<Rightarrow> reactivate_step c st w
      | Retire todo st \<Rightarrow> retire_step todo st w)"

section \<open>All steps\<close>

datatype traffic_op =
    Upload nat i64
  | Download nat i64
  | AddStep nat
  | OpenUser int
  | OpenRelay int int
  | StartRetire "int list" "int list" "(int, bool) go_map" traffic_counters
  | LockStep

text \<open>Amounts are lengths of buffers, hence not negative. Counters are opened under the same lock.\<close>

fun traffic_op_step :: "traffic_op \<Rightarrow> kernel_traffic \<Rightarrow> kernel_traffic" where
  "traffic_op_step (Upload i n) w = (if i < length (kt_heap w) \<and> 0 \<le> sint n then start_add i (Traffic n 0) w else w)"
| "traffic_op_step (Download i n) w = (if i < length (kt_heap w) \<and> 0 \<le> sint n then start_add i (Traffic 0 n) w else w)"
| "traffic_op_step (AddStep c) w = (if c < length (kt_calls w) then add_step c w else w)"
| "traffic_op_step (OpenUser uid) w = (if kt_lock w = Idle then open_counter (UserKey uid) w else w)"
| "traffic_op_step (OpenRelay uid node) w = (if kt_lock w = Idle then relay_counters uid node w else w)"
| "traffic_op_step (StartRetire users nodes busy candidates) w =
     (if kt_lock w = Idle
      then w\<lparr>kt_lock := Retire (retire_todo (\<lambda>u. u \<in> set users) (\<lambda>n. n \<in> set nodes) busy candidates) RtNext\<rparr> else w)"
| "traffic_op_step LockStep w = lock_step w"

section \<open>Structure\<close>

text \<open>The counter that is being retired.\<close>

fun retire_target :: "retire_stage \<Rightarrow> nat option" where
  "retire_target RtNext = None"
| "retire_target (RtUp i) = Some i"
| "retire_target (RtDown i h) = Some i"
| "retire_target (RtCompare i h) = Some i"
| "retire_target (RtBackUp i h) = Some i"
| "retire_target (RtBackDown i h) = Some i"
| "retire_target (RtUnmark i) = Some i"

fun retiring :: "totals_lock \<Rightarrow> nat \<Rightarrow> bool" where
  "retiring (Retire todo st) i = (retire_target st = Some i)"
| "retiring _ i = False"

definition counters_ok :: "(ledger_key, nat) go_map \<Rightarrow> user_traffic list \<Rightarrow> totals_lock \<Rightarrow> bool" where
  "counters_ok current hp lock \<longleftrightarrow>
     (\<forall>k i. map_of current k = Some i \<longrightarrow> i < length hp \<and> ut_key (hp ! i) = k \<and> ut_retired (hp ! i) = retiring lock i) \<and>
     (\<forall>i < length hp. \<not> ut_retired (hp ! i) \<longrightarrow> map_of current (ut_key (hp ! i)) = Some i)"

definition calls_in_range :: "add_call list \<Rightarrow> nat \<Rightarrow> bool" where
  "calls_in_range calls n \<longleftrightarrow> (\<forall>c < length calls. ac_counter (calls ! c) < n)"

definition locked_calls :: "add_call list \<Rightarrow> totals_lock \<Rightarrow> bool" where
  "locked_calls calls lock \<longleftrightarrow> (\<forall>c < length calls. ac_stage (calls ! c) = Locked \<longrightarrow> (\<exists>st. lock = Reactivate c st))"

text \<open>One side of a half-moved value is gone.\<close>

fun half_moved :: "retire_stage \<Rightarrow> bool" where
  "half_moved (RtDown i h) = (down h = 0)"
| "half_moved (RtBackDown i h) = (up h = 0)"
| "half_moved _ = True"

fun lock_ok :: "totals_lock \<Rightarrow> (ledger_key, nat) go_map \<Rightarrow> user_traffic list \<Rightarrow> add_call list \<Rightarrow> bool" where
  "lock_ok Idle current hp calls = True"
| "lock_ok (Reactivate c st) current hp calls =
     (c < length calls \<and> ac_stage (calls ! c) = Locked \<and> (st \<noteq> ReCheck \<longrightarrow> ut_retired (hp ! ac_counter (calls ! c))) \<and>
      (case st of
         ReDown h \<Rightarrow> down h = 0
       | ReAddUp j h \<Rightarrow> map_of current (ut_key (hp ! ac_counter (calls ! c))) = Some j
       | ReAddDown j h \<Rightarrow> map_of current (ut_key (hp ! ac_counter (calls ! c))) = Some j \<and> up h = 0
       | _ \<Rightarrow> True))"
| "lock_ok (Retire todo st) current hp calls =
     (half_moved st \<and> (case retire_target st of None \<Rightarrow> True | Some i \<Rightarrow> todo \<noteq> [] \<and> map_of current (fst (hd todo)) = Some i))"

definition totals_ok :: "kernel_traffic \<Rightarrow> bool" where
  "totals_ok w \<longleftrightarrow> counters_ok (kt_current w) (kt_heap w) (kt_lock w) \<and> calls_in_range (kt_calls w) (length (kt_heap w)) \<and>
     locked_calls (kt_calls w) (kt_lock w) \<and> lock_ok (kt_lock w) (kt_current w) (kt_heap w) (kt_calls w)"

lemma set_fields [simp]:
  "kt_heap (set_add_stage c st w) = kt_heap w" "kt_current (set_add_stage c st w) = kt_current w"
  "kt_lock (set_add_stage c st w) = kt_lock w" "length (kt_calls (set_add_stage c st w)) = length (kt_calls w)"
  "kt_log (set_add_stage c st w) = kt_log w" "kt_settled (set_add_stage c st w) = kt_settled w"
  "kt_current (set_value i v w) = kt_current w" "kt_lock (set_value i v w) = kt_lock w"
  "kt_calls (set_value i v w) = kt_calls w" "length (kt_heap (set_value i v w)) = length (kt_heap w)"
  "kt_log (set_value i v w) = kt_log w" "kt_settled (set_value i v w) = kt_settled w"
  "kt_current (set_retired i b w) = kt_current w" "kt_lock (set_retired i b w) = kt_lock w"
  "kt_calls (set_retired i b w) = kt_calls w" "length (kt_heap (set_retired i b w)) = length (kt_heap w)"
  "kt_log (set_retired i b w) = kt_log w" "kt_settled (set_retired i b w) = kt_settled w"
  by (simp_all add: set_value_def set_retired_def set_add_stage_def)

lemma heap_set_value: "i < length (kt_heap w) \<Longrightarrow> kt_heap (set_value i v w) ! j = (if j = i then (kt_heap w ! i)\<lparr>ut_value := v\<rparr> else kt_heap w ! j)"
  by (simp add: set_value_def)

lemma heap_set_value_flags [simp]:
  "ut_key (kt_heap (set_value i v w) ! j) = ut_key (kt_heap w ! j)" "ut_retired (kt_heap (set_value i v w) ! j) = ut_retired (kt_heap w ! j)"
  by (cases "i < length (kt_heap w)"; cases "j = i"; simp add: set_value_def list_update_beyond)+

lemma heap_set_retired: "i < length (kt_heap w) \<Longrightarrow> kt_heap (set_retired i b w) ! j = (if j = i then (kt_heap w ! i)\<lparr>ut_retired := b\<rparr> else kt_heap w ! j)"
  by (simp add: set_retired_def)

lemma calls_set_stage: "c < length (kt_calls w) \<Longrightarrow> kt_calls (set_add_stage c st w) ! d = (if d = c then (kt_calls w ! c)\<lparr>ac_stage := st\<rparr> else kt_calls w ! d)"
  by (simp add: set_add_stage_def)

lemma counters_ok_flags:
  "length hp' = length hp \<Longrightarrow> (\<And>i. ut_key (hp' ! i) = ut_key (hp ! i)) \<Longrightarrow> (\<And>i. ut_retired (hp' ! i) = ut_retired (hp ! i)) \<Longrightarrow>
   counters_ok current hp' lock = counters_ok current hp lock"
  by (simp add: counters_ok_def)

lemma counters_ok_value [simp]: "counters_ok current (kt_heap (set_value i v w)) lock = counters_ok current (kt_heap w) lock"
  by (rule counters_ok_flags) simp_all

lemma lock_ok_value [simp]: "lock_ok lock current (kt_heap (set_value i v w)) calls = lock_ok lock current (kt_heap w) calls"
  by (cases lock) (simp_all split: reactivate_stage.split)

lemma counters_ok_new:
  assumes "counters_ok current hp lock" "map_of current k = None" "\<And>i. \<not> retiring lock i"
  shows "counters_ok (AList.update k (length hp) current) (hp @ [\<lparr>ut_key = k, ut_value = 0, ut_retired = False\<rparr>]) lock"
proof -
  let ?hp = "hp @ [\<lparr>ut_key = k, ut_value = 0, ut_retired = False\<rparr>]"
  have old: "i < length hp \<and> ut_key (hp ! i) = k' \<and> ut_retired (hp ! i) = retiring lock i" if "map_of current k' = Some i" for k' i
    using assms(1) that by (simp add: counters_ok_def)
  have live: "map_of current (ut_key (hp ! i)) = Some i" if "i < length hp" "\<not> ut_retired (hp ! i)" for i
    using assms(1) that by (simp add: counters_ok_def)
  have "i < length ?hp \<and> ut_key (?hp ! i) = k' \<and> ut_retired (?hp ! i) = retiring lock i"
    if "map_of (AList.update k (length hp) current) k' = Some i" for k' i
  proof (cases "k' = k")
    case True
    then show ?thesis using that assms(3) by (auto simp: go_map nth_append)
  next
    case False
    then show ?thesis using that old [of k' i] by (simp add: go_map nth_append)
  qed
  moreover have "map_of (AList.update k (length hp) current) (ut_key (?hp ! i)) = Some i"
    if "i < length ?hp" "\<not> ut_retired (?hp ! i)" for i
  proof (cases "i = length hp")
    case False
    then have "map_of current (ut_key (hp ! i)) = Some i" using that live [of i] by (simp add: nth_append)
    then show ?thesis using False that assms(2) by (auto simp: go_map nth_append)
  qed (simp add: go_map)
  ultimately show ?thesis unfolding counters_ok_def by blast
qed

lemma calls_in_range_mono: "calls_in_range calls n \<Longrightarrow> n \<le> m \<Longrightarrow> calls_in_range calls m"
  unfolding calls_in_range_def by (meson less_le_trans)

lemma totals_ok_open:
  assumes "totals_ok w" "\<And>i. \<not> retiring (kt_lock w) i"
  shows "totals_ok (open_counter k w)"
proof (cases "has_key (kt_current w) k")
  case False
  then have none: "map_of (kt_current w) k = None" by (simp add: has_key_def)
  have "lock_ok (kt_lock w) (AList.update k (length (kt_heap w)) (kt_current w))
      (kt_heap w @ [\<lparr>ut_key = k, ut_value = 0, ut_retired = False\<rparr>]) (kt_calls w)"
  proof (cases "kt_lock w")
    case (Reactivate c st)
    then show ?thesis using assms(1) none
      by (cases st) (auto simp: totals_ok_def calls_in_range_def nth_append go_map)
  next
    case (Retire todo st)
    then show ?thesis using assms(2) by (cases st) auto
  qed simp
  then show ?thesis using assms False counters_ok_new [OF _ none, of "kt_heap w" "kt_lock w"]
    by (auto simp: totals_ok_def open_counter_def new_counter_def intro: calls_in_range_mono)
qed (use assms in \<open>simp add: open_counter_def\<close>)

lemma stage_list [simp]:
  "ac_counter (calls[c := (calls ! c)\<lparr>ac_stage := st\<rparr>] ! d) = ac_counter (calls ! d)"
  "ac_amount (calls[c := (calls ! c)\<lparr>ac_stage := st\<rparr>] ! d) = ac_amount (calls ! d)"
  "d \<noteq> c \<Longrightarrow> ac_stage (calls[c := (calls ! c)\<lparr>ac_stage := st\<rparr>] ! d) = ac_stage (calls ! d)"
  "c < length calls \<Longrightarrow> ac_stage (calls[c := (calls ! c)\<lparr>ac_stage := st\<rparr>] ! c) = st"
  by (cases "c < length calls"; cases "d = c"; simp add: list_update_beyond)+

lemma locked_calls_stage:
  assumes "locked_calls calls lock" "st \<noteq> Locked" "\<And>d s. d \<noteq> c \<Longrightarrow> lock = Reactivate d s \<Longrightarrow> \<exists>s. lock' = Reactivate d s"
  shows "locked_calls (calls[c := (calls ! c)\<lparr>ac_stage := st\<rparr>]) lock'"
  unfolding locked_calls_def
proof (intro allI impI)
  fix d assume d: "d < length (calls[c := (calls ! c)\<lparr>ac_stage := st\<rparr>])" "ac_stage (calls[c := (calls ! c)\<lparr>ac_stage := st\<rparr>] ! d) = Locked"
  have "d \<noteq> c" using d assms(2) by auto
  then show "\<exists>s. lock' = Reactivate d s" using assms(1,3) d unfolding locked_calls_def by auto
qed

lemma calls_in_range_stage [simp]: "calls_in_range (calls[c := (calls ! c)\<lparr>ac_stage := st\<rparr>]) n = calls_in_range calls n"
  unfolding calls_in_range_def by simp

lemma lock_ok_stage:
  "lock_ok lock current hp calls \<Longrightarrow> ac_stage (calls ! c) \<noteq> Locked \<Longrightarrow> lock_ok lock current hp (calls[c := (calls ! c)\<lparr>ac_stage := st\<rparr>])"
proof (cases lock)
  case (Reactivate d s)
  assume "lock_ok lock current hp calls" "ac_stage (calls ! c) \<noteq> Locked"
  then have "d \<noteq> c" using Reactivate by auto
  then show ?thesis using \<open>lock_ok lock current hp calls\<close> Reactivate by (cases s) simp_all
qed simp_all

lemma totals_ok_add_step:
  assumes ok: "totals_ok w" and c: "c < length (kt_calls w)"
  shows "totals_ok (add_step c w)"
proof -
  have stage: "totals_ok (set_add_stage c st w')"
    if "st \<noteq> Locked" "ac_stage (kt_calls w ! c) \<noteq> Locked" "kt_current w' = kt_current w" "kt_calls w' = kt_calls w" "kt_lock w' = kt_lock w"
      "\<And>cur lock. counters_ok cur (kt_heap w') lock = counters_ok cur (kt_heap w) lock" "length (kt_heap w') = length (kt_heap w)"
      "\<And>l cur calls. lock_ok l cur (kt_heap w') calls = lock_ok l cur (kt_heap w) calls" for st w'
    using ok that lock_ok_stage [of "kt_lock w" "kt_current w" "kt_heap w" "kt_calls w" c st]
      locked_calls_stage [of "kt_calls w" "kt_lock w" st c "kt_lock w"]
    by (auto simp: totals_ok_def set_add_stage_def)
  show ?thesis
  proof (cases "ac_stage (kt_calls w ! c)")
    case Adding
    then show ?thesis using stage by (simp add: add_step_def Let_def)
  next
    case Checking
    then show ?thesis using stage [of _ w] by (simp add: add_step_def Let_def)
  next
    case Waiting
    have "locked_calls ((kt_calls w)[c := (kt_calls w ! c)\<lparr>ac_stage := Locked\<rparr>]) (Reactivate c ReCheck)" if "kt_lock w = Idle"
      using ok that unfolding totals_ok_def locked_calls_def by (metis length_list_update stage_list(3) totals_lock.distinct(1))
    moreover have "counters_ok (kt_current w) (kt_heap w) (Reactivate c ReCheck)" if "kt_lock w = Idle"
      using ok that by (simp add: totals_ok_def counters_ok_def)
    ultimately show ?thesis using ok c
      by (simp add: add_step_def Let_def Waiting totals_ok_def set_add_stage_def)
  qed (use ok in \<open>simp_all add: add_step_def Let_def\<close>)
qed

lemma retiring_cases: "retiring lock i \<longleftrightarrow> (\<exists>todo st. lock = Retire todo st \<and> retire_target st = Some i)"
  by (cases lock) auto

lemma counters_ok_lock:
  "counters_ok current hp lock \<Longrightarrow> (\<And>i. retiring lock' i = retiring lock i) \<Longrightarrow> counters_ok current hp lock'"
  by (simp add: counters_ok_def)

lemma totals_ok_leave:
  assumes "totals_ok w" "kt_lock w = Reactivate c st" "kt_current w' = kt_current w" "kt_calls w' = kt_calls w"
    "\<And>cur lock. counters_ok cur (kt_heap w') lock = counters_ok cur (kt_heap w) lock" "length (kt_heap w') = length (kt_heap w)"
  shows "totals_ok (leave_reactivate c w')"
proof -
  have "locked_calls ((kt_calls w)[c := (kt_calls w ! c)\<lparr>ac_stage := Finished\<rparr>]) Idle"
    by (rule locked_calls_stage [where lock = "kt_lock w"]) (use assms(1,2) in \<open>simp_all add: totals_ok_def\<close>)
  moreover have "counters_ok (kt_current w) (kt_heap w) Idle"
    by (rule counters_ok_lock [where lock = "kt_lock w"]) (use assms(1,2) in \<open>simp_all add: totals_ok_def\<close>)
  ultimately show ?thesis using assms by (simp add: leave_reactivate_def totals_ok_def set_add_stage_def)
qed

lemma totals_ok_relock:
  assumes "totals_ok w" "kt_lock w = Reactivate c st" "kt_current w' = kt_current w" "kt_calls w' = kt_calls w"
    "\<And>cur lock. counters_ok cur (kt_heap w') lock = counters_ok cur (kt_heap w) lock" "length (kt_heap w') = length (kt_heap w)"
    "lock_ok (Reactivate c st') (kt_current w) (kt_heap w') (kt_calls w)"
  shows "totals_ok (w'\<lparr>kt_lock := Reactivate c st'\<rparr>)"
proof -
  have "counters_ok (kt_current w) (kt_heap w) (Reactivate c st')"
    by (rule counters_ok_lock [where lock = "kt_lock w"]) (use assms(1,2) in \<open>simp_all add: totals_ok_def\<close>)
  moreover have "locked_calls (kt_calls w) (Reactivate c st')"
    using assms(1,2) unfolding totals_ok_def locked_calls_def by auto
  ultimately show ?thesis using assms by (simp add: totals_ok_def)
qed

lemma open_counter_fields [simp]:
  "kt_calls (open_counter k w) = kt_calls w" "kt_lock (open_counter k w) = kt_lock w" "kt_log (open_counter k w) = kt_log w"
  "kt_settled (open_counter k w) = kt_settled w"
  by (simp_all add: open_counter_def new_counter_def)

lemma open_counter_heap: "\<exists>more. kt_heap (open_counter k w) = kt_heap w @ more"
  by (simp add: open_counter_def new_counter_def)

lemma open_counter_current: "\<exists>j. map_of (kt_current (open_counter k w)) k = Some j"
  by (auto simp: open_counter_def new_counter_def go_map has_key_def)

lemma totals_ok_reactivate:
  assumes ok: "totals_ok w" and lock: "kt_lock w = Reactivate c st"
  shows "totals_ok (reactivate_step c st w)"
proof -
  have l: "lock_ok (Reactivate c st) (kt_current w) (kt_heap w) (kt_calls w)" using ok lock by (simp add: totals_ok_def)
  have i: "ac_counter (kt_calls w ! c) < length (kt_heap w)" using ok l by (auto simp: totals_ok_def calls_in_range_def)
  note relock = totals_ok_relock [OF ok lock] and leave = totals_ok_leave [OF ok lock]
  show ?thesis
  proof (cases st)
    case (RePut h)
    define k where "k = ut_key (kt_heap w ! ac_counter (kt_calls w ! c))"
    have open_ok: "totals_ok (open_counter k w)" by (rule totals_ok_open [OF ok]) (simp add: lock)
    obtain j where j: "map_of (kt_current (open_counter k w)) k = Some j" using open_counter_current by blast
    obtain more where heap: "kt_heap (open_counter k w) = kt_heap w @ more" using open_counter_heap by blast
    have "totals_ok ((open_counter k w)\<lparr>kt_lock := Reactivate c (ReAddUp j h)\<rparr>)"
      by (rule totals_ok_relock [OF open_ok, of c st]) (use l i j heap lock in \<open>simp_all add: RePut nth_append k_def\<close>)
    then show ?thesis by (simp add: reactivate_step_def Let_def RePut k_def [symmetric] j)
  qed (use l in \<open>auto simp: reactivate_step_def Let_def intro!: relock leave\<close>)
qed

lemma locked_calls_other:
  "locked_calls calls lock \<Longrightarrow> (\<And>c st. lock \<noteq> Reactivate c st) \<Longrightarrow> locked_calls calls lock'"
  unfolding locked_calls_def by blast

lemma counters_ok_mark:
  assumes ok: "counters_ok (kt_current w) (kt_heap w) lock" and i: "map_of (kt_current w) k = Some i"
    and lock: "\<And>j. retiring lock' j = (if j = i then b else retiring lock j)"
  shows "counters_ok (kt_current w) (kt_heap (set_retired i b w)) lock'"
proof -
  have len: "i < length (kt_heap w)" and key: "ut_key (kt_heap w ! i) = k" using ok i by (simp_all add: counters_ok_def)
  show ?thesis using ok len key i lock by (auto simp: counters_ok_def heap_set_retired)
qed

lemma counters_ok_drop:
  assumes ok: "counters_ok current hp lock" and i: "map_of current k = Some i" "retiring lock i" and lock: "\<And>j. \<not> retiring lock' j"
    and only: "\<And>j. retiring lock j \<Longrightarrow> j = i"
  shows "counters_ok (AList.delete k current) hp lock'"
proof -
  have here: "ut_retired (hp ! i)" using ok i by (simp add: counters_ok_def)
  have old: "j < length hp \<and> ut_key (hp ! j) = k' \<and> ut_retired (hp ! j) = retiring lock j" if "map_of current k' = Some j" for k' j
    using ok that by (simp add: counters_ok_def)
  have live: "map_of current (ut_key (hp ! j)) = Some j" if "j < length hp" "\<not> ut_retired (hp ! j)" for j
    using ok that by (simp add: counters_ok_def)
  have "j < length hp \<and> ut_key (hp ! j) = k' \<and> \<not> ut_retired (hp ! j)" if "map_of (AList.delete k current) k' = Some j" for k' j
  proof -
    have k': "k' \<noteq> k" "map_of current k' = Some j" using that by (auto simp: go_map split: if_splits)
    then have "j \<noteq> i" using old [of k' j] old [OF i(1)] by auto
    then show ?thesis using old [OF k'(2)] only by auto
  qed
  moreover have "map_of (AList.delete k current) (ut_key (hp ! j)) = Some j" if "j < length hp" "\<not> ut_retired (hp ! j)" for j
  proof -
    have "ut_key (hp ! j) \<noteq> k" using live [OF that] i(1) here that by auto
    then show ?thesis using live [OF that] by (simp add: go_map)
  qed
  ultimately show ?thesis using lock unfolding counters_ok_def by blast
qed

lemma totals_ok_retire:
  assumes ok: "totals_ok w" and lock: "kt_lock w = Retire todo st"
  shows "totals_ok (retire_step todo st w)"
proof -
  have l: "lock_ok (Retire todo st) (kt_current w) (kt_heap w) (kt_calls w)" using ok lock by (simp add: totals_ok_def)
  have cok: "counters_ok (kt_current w) (kt_heap w) (Retire todo st)" using ok lock by (simp add: totals_ok_def)
  have calls: "locked_calls (kt_calls w) lock'" for lock'
    by (rule locked_calls_other [where lock = "kt_lock w"]) (use ok lock in \<open>auto simp: totals_ok_def\<close>)
  have range: "calls_in_range (kt_calls w) (length (kt_heap w))" using ok by (simp add: totals_ok_def)
  show ?thesis
  proof (cases todo)
    case Nil
    then have "counters_ok (kt_current w) (kt_heap w) Idle"
      using l by (cases "retire_target st") (auto intro: counters_ok_lock [OF cok])
    then show ?thesis using Nil calls range by (simp add: retire_step_def totals_ok_def)
  next
    case (Cons e rest)
    obtain k expected where e: "e = (k, expected)" by (cases e)
    have target: "retire_target st = Some i \<Longrightarrow> map_of (kt_current w) k = Some i" for i using l Cons e by simp
    have same: "counters_ok (kt_current w) (kt_heap w) (Retire todo st')" if "retire_target st' = retire_target st" for st'
      by (rule counters_ok_lock [OF cok]) (simp add: that)
    have move: "totals_ok (w'\<lparr>kt_lock := Retire todo st'\<rparr>)"
      if "retire_target st' = retire_target st" "half_moved st'" "kt_current w' = kt_current w" "kt_calls w' = kt_calls w"
        "\<And>cur lock. counters_ok cur (kt_heap w') lock = counters_ok cur (kt_heap w) lock" "length (kt_heap w') = length (kt_heap w)" for st' w'
      using that same [OF that(1)] calls range l by (simp add: totals_ok_def)
    show ?thesis
    proof (cases st)
      case RtNext
      have "totals_ok (w\<lparr>kt_lock := Retire rest RtNext\<rparr>)"
        using calls range counters_ok_lock [OF cok, of "Retire rest RtNext"] by (simp add: totals_ok_def RtNext)
      moreover have "totals_ok ((set_retired i True w)\<lparr>kt_lock := Retire todo (RtUp i)\<rparr>)" if "map_of (kt_current w) k = Some i" for i
        using that calls range counters_ok_mark [OF cok that, of "Retire todo (RtUp i)" True] Cons e
        by (simp add: totals_ok_def RtNext)
      ultimately show ?thesis by (simp add: retire_step_def Cons e RtNext Let_def split: option.split)
    next
      case (RtCompare i h)
      have "totals_ok (w\<lparr>kt_lock := Retire rest RtNext, kt_current := AList.delete k (kt_current w), kt_settled := kt_settled w @ [(k, h)]\<rparr>)"
      proof -
        have "counters_ok (AList.delete k (kt_current w)) (kt_heap w) (Retire rest RtNext)"
          by (rule counters_ok_drop [OF cok target [of i]]) (simp_all add: RtCompare)
        then show ?thesis using calls range by (simp add: totals_ok_def)
      qed
      then show ?thesis using move [of "RtBackUp i h" w] by (auto simp: retire_step_def Cons e RtCompare Let_def)
    next
      case (RtUnmark i)
      have "totals_ok ((set_retired i False w)\<lparr>kt_lock := Retire rest RtNext\<rparr>)"
        using calls range counters_ok_mark [OF cok target [of i], of "Retire rest RtNext" False] by (simp add: totals_ok_def RtUnmark)
      then show ?thesis by (simp add: retire_step_def Cons e RtUnmark Let_def)
    next
      case (RtUp i)
      show ?thesis unfolding retire_step_def Cons e RtUp Let_def list.case prod.case retire_stage.case
        by (rule move [unfolded Cons e]) (simp_all add: RtUp)
    next
      case (RtDown i h)
      show ?thesis unfolding retire_step_def Cons e RtDown Let_def list.case prod.case retire_stage.case
        by (rule move [unfolded Cons e]) (simp_all add: RtDown)
    next
      case (RtBackUp i h)
      show ?thesis unfolding retire_step_def Cons e RtBackUp Let_def list.case prod.case retire_stage.case
        by (rule move [unfolded Cons e]) (simp_all add: RtBackUp)
    next
      case (RtBackDown i h)
      show ?thesis unfolding retire_step_def Cons e RtBackDown Let_def list.case prod.case retire_stage.case
        by (rule move [unfolded Cons e]) (simp_all add: RtBackDown)
    qed
  qed
qed

lemma totals_ok_start: "totals_ok w \<Longrightarrow> i < length (kt_heap w) \<Longrightarrow> totals_ok (start_add i amt w)"
proof -
  assume ok: "totals_ok w" and i: "i < length (kt_heap w)"
  have "lock_ok (kt_lock w) (kt_current w) (kt_heap w) (kt_calls w @ [\<lparr>ac_counter = i, ac_amount = amt, ac_stage = Adding\<rparr>])"
  proof (cases "kt_lock w")
    case (Reactivate c s)
    then show ?thesis using ok by (cases s) (simp_all add: totals_ok_def nth_append)
  qed (use ok in \<open>simp_all add: totals_ok_def\<close>)
  then show ?thesis using ok i
    by (auto simp: totals_ok_def start_add_def calls_in_range_def locked_calls_def nth_append)
qed

lemma totals_ok_step: "totals_ok w \<Longrightarrow> totals_ok (traffic_op_step p w)"
proof (cases p)
  case LockStep
  assume "totals_ok w"
  then show ?thesis
    by (cases "kt_lock w") (simp_all add: LockStep lock_step_def totals_ok_reactivate totals_ok_retire)
next
  case (OpenRelay uid node)
  assume ok: "totals_ok w"
  show ?thesis
  proof (cases "kt_lock w = Idle")
    case True
    have "totals_ok (open_counter (RelayKey node) w)" by (rule totals_ok_open [OF ok]) (simp add: True)
    then have "totals_ok (open_counter (RelayUserKey uid node) (open_counter (RelayKey node) w))"
      by (rule totals_ok_open) (simp add: True)
    then show ?thesis using ok True by (simp add: OpenRelay relay_counters_def)
  qed (use ok in \<open>simp add: OpenRelay\<close>)
next
  case (StartRetire us ns busy cand)
  assume ok: "totals_ok w"
  show ?thesis using ok counters_ok_lock [of "kt_current w" "kt_heap w" Idle]
    by (auto simp: StartRetire totals_ok_def locked_calls_def)
qed (simp_all add: totals_ok_start totals_ok_add_step totals_ok_open)

lemma totals_ok_new: "totals_ok new_traffic_totals"
  by (simp add: new_traffic_totals_def totals_ok_def counters_ok_def calls_in_range_def locked_calls_def)

section \<open>No byte is lost or counted twice\<close>

text \<open>The bytes of one direction that a list of amounts, the heap and the section under the lock hold for a key.\<close>

definition side_total :: "(traffic \<Rightarrow> i64) \<Rightarrow> 'k \<Rightarrow> ('k \<times> traffic) list \<Rightarrow> int" where
  "side_total side k xs = (\<Sum>(k', v) \<leftarrow> xs. if k' = k then sint (side v) else 0)"

definition heap_total :: "(traffic \<Rightarrow> i64) \<Rightarrow> ledger_key \<Rightarrow> user_traffic list \<Rightarrow> int" where
  "heap_total side k hp = (\<Sum>u \<leftarrow> hp. if ut_key u = k then sint (side (ut_value u)) else 0)"

fun in_hand :: "totals_lock \<Rightarrow> user_traffic list \<Rightarrow> add_call list \<Rightarrow> (ledger_key \<times> traffic) list" where
  "in_hand (Retire (e # rest) (RtDown i h)) hp calls = [(fst e, h)]"
| "in_hand (Retire (e # rest) (RtCompare i h)) hp calls = [(fst e, h)]"
| "in_hand (Retire (e # rest) (RtBackUp i h)) hp calls = [(fst e, h)]"
| "in_hand (Retire (e # rest) (RtBackDown i h)) hp calls = [(fst e, h)]"
| "in_hand (Reactivate c (ReDown h)) hp calls = [(ut_key (hp ! ac_counter (calls ! c)), h)]"
| "in_hand (Reactivate c (RePut h)) hp calls = [(ut_key (hp ! ac_counter (calls ! c)), h)]"
| "in_hand (Reactivate c (ReAddUp j h)) hp calls = [(ut_key (hp ! ac_counter (calls ! c)), h)]"
| "in_hand (Reactivate c (ReAddDown j h)) hp calls = [(ut_key (hp ! ac_counter (calls ! c)), h)]"
| "in_hand _ hp calls = []"

abbreviation hand :: "kernel_traffic \<Rightarrow> (ledger_key \<times> traffic) list" where
  "hand w \<equiv> in_hand (kt_lock w) (kt_heap w) (kt_calls w)"

definition amounts_ok :: "(traffic \<Rightarrow> i64) \<Rightarrow> ('k \<times> traffic) list \<Rightarrow> bool" where
  "amounts_ok side xs \<longleftrightarrow> (\<forall>e \<in> set xs. 0 \<le> sint (side (snd e)))"

definition values_ok :: "(traffic \<Rightarrow> i64) \<Rightarrow> user_traffic list \<Rightarrow> bool" where
  "values_ok side hp \<longleftrightarrow> (\<forall>u \<in> set hp. 0 \<le> sint (side (ut_value u)))"

definition calls_ok :: "(traffic \<Rightarrow> i64) \<Rightarrow> add_call list \<Rightarrow> bool" where
  "calls_ok side calls \<longleftrightarrow> (\<forall>c \<in> set calls. 0 \<le> sint (side (ac_amount c)))"

definition ledger_ok :: "(traffic \<Rightarrow> i64) \<Rightarrow> kernel_traffic \<Rightarrow> bool" where
  "ledger_ok side w \<longleftrightarrow> values_ok side (kt_heap w) \<and> amounts_ok side (hand w) \<and> amounts_ok side (kt_settled w) \<and>
     (\<forall>k. side_total side k (kt_log w) = side_total side k (kt_settled w) + heap_total side k (kt_heap w) + side_total side k (hand w))"

lemma total_simps [simp]: "side_total side k [] = 0" "side_total side k ((k', v) # xs) = (if k' = k then sint (side v) else 0) + side_total side k xs"
  "side_total side k (xs @ ys) = side_total side k xs + side_total side k ys"
  by (simp_all add: side_total_def)

lemma amounts_ok_simps [simp]: "amounts_ok side []" "amounts_ok side (e # xs) \<longleftrightarrow> 0 \<le> sint (side (snd e)) \<and> amounts_ok side xs"
  "amounts_ok side (xs @ ys) \<longleftrightarrow> amounts_ok side xs \<and> amounts_ok side ys"
  by (auto simp: amounts_ok_def)

lemma total_nonneg: "amounts_ok side xs \<Longrightarrow> 0 \<le> side_total side k xs"
  by (induction xs) (auto simp: side_total_def)

lemma heap_total_nonneg: "values_ok side hp \<Longrightarrow> 0 \<le> heap_total side k hp"
  by (induction hp) (auto simp: heap_total_def values_ok_def)

lemma heap_total_at: "values_ok side hp \<Longrightarrow> i < length hp \<Longrightarrow> sint (side (ut_value (hp ! i))) \<le> heap_total side (ut_key (hp ! i)) hp"
proof (induction hp arbitrary: i)
  case (Cons u hp)
  have "values_ok side hp" using Cons.prems by (simp add: values_ok_def)
  then show ?case using Cons heap_total_nonneg [of side hp]
    by (cases i) (auto simp: heap_total_def values_ok_def add_increasing)
qed simp

lemma heap_total_update:
  "i < length hp \<Longrightarrow> heap_total side k (hp[i := (hp ! i)\<lparr>ut_value := v\<rparr>]) =
     heap_total side k hp + (if ut_key (hp ! i) = k then sint (side v) - sint (side (ut_value (hp ! i))) else 0)"
  by (induction hp arbitrary: i) (auto simp: heap_total_def split: nat.split)

lemma heap_total_flags: "i < length hp \<Longrightarrow> heap_total side k (hp[i := (hp ! i)\<lparr>ut_retired := b\<rparr>]) = heap_total side k hp"
  by (induction hp arbitrary: i) (auto simp: heap_total_def split: nat.split)

lemma values_ok_update: "values_ok side hp \<Longrightarrow> 0 \<le> sint (side v) \<Longrightarrow> values_ok side (hp[i := (hp ! i)\<lparr>ut_value := v\<rparr>])"
  unfolding values_ok_def using set_update_subset_insert by fastforce

lemma values_ok_at: "values_ok side hp \<Longrightarrow> i < length hp \<Longrightarrow> 0 \<le> sint (side (ut_value (hp ! i)))"
  by (simp add: values_ok_def)

lemma in_hand_cong:
  "(\<And>i. ut_key (hp' ! i) = ut_key (hp ! i)) \<Longrightarrow> (\<And>c. ac_counter (calls' ! c) = ac_counter (calls ! c)) \<Longrightarrow>
   in_hand lock hp' calls' = in_hand lock hp calls"
  by (cases "(lock, hp, calls)" rule: in_hand.cases) auto

lemma in_hand_value [simp]: "in_hand lock (kt_heap (set_value i v w)) calls = in_hand lock (kt_heap w) calls"
  by (rule in_hand_cong) simp_all

lemma heap_retired_key [simp]: "ut_key (kt_heap (set_retired i b w) ! j) = ut_key (kt_heap w ! j)"
  by (cases "i < length (kt_heap w)"; cases "j = i"; simp add: set_retired_def list_update_beyond)

lemma in_hand_retired [simp]: "in_hand lock (kt_heap (set_retired i b w)) calls = in_hand lock (kt_heap w) calls"
  by (rule in_hand_cong) simp_all

lemma in_hand_stage [simp]: "in_hand lock hp (kt_calls (set_add_stage c st w)) = in_hand lock hp (kt_calls w)"
  by (rule in_hand_cong) (simp_all add: set_add_stage_def)

lemma in_hand_idle [simp]: "in_hand (Retire todo RtNext) hp calls = []"
  by (cases todo) simp_all

lemma heap_total_value: "i < length (kt_heap w) \<Longrightarrow> heap_total side k (kt_heap (set_value i v w)) =
    heap_total side k (kt_heap w) + (if ut_key (kt_heap w ! i) = k then sint (side v) - sint (side (value_of w i)) else 0)"
  by (simp add: set_value_def heap_total_update)

lemma heap_total_retired: "i < length (kt_heap w) \<Longrightarrow> heap_total side k (kt_heap (set_retired i b w)) = heap_total side k (kt_heap w)"
  by (simp add: set_retired_def heap_total_flags)

lemma values_ok_value: "values_ok side (kt_heap w) \<Longrightarrow> 0 \<le> sint (side v) \<Longrightarrow> values_ok side (kt_heap (set_value i v w))"
  by (simp add: set_value_def values_ok_update)

lemma values_ok_retired: "values_ok side (kt_heap w) \<Longrightarrow> i < length (kt_heap w) \<Longrightarrow> values_ok side (kt_heap (set_retired i b w))"
  by (simp add: values_ok_def all_set_conv_all_nth set_retired_def nth_list_update)

lemma sint_add_bounded:
  fixes a b :: i64
  assumes "0 \<le> sint a" "0 \<le> sint b" "sint a + sint b < 2 ^ 63"
  shows "sint (a + b) = sint a + sint b"
  using assms by (subst sint_word_add, subst signed_take_bit_int_eq_self) simp_all

text \<open>One direction of a traffic value.\<close>

locale traffic_side =
  fixes side :: "traffic \<Rightarrow> i64"
  assumes side_add: "side (a + b) = side a + side b"
    and side_split: "sint (side (Traffic u d)) = sint (side (Traffic u 0)) + sint (side (Traffic 0 d))"
    and side_parts: "0 \<le> sint (side (Traffic u d)) \<Longrightarrow> 0 \<le> sint (side (Traffic u 0)) \<and> 0 \<le> sint (side (Traffic 0 d))"
    and side_input: "0 \<le> sint u \<Longrightarrow> 0 \<le> sint d \<Longrightarrow> 0 \<le> sint (side (Traffic u d))"
begin

lemma side_0 [simp]: "sint (side 0) = 0"
  using side_split [of 0 0] by simp

lemma side_whole: "sint (side v) = sint (side (Traffic (up v) 0)) + sint (side (Traffic 0 (down v)))"
  using side_split [of "up v" "down v"] by simp

lemma side_nonneg: "0 \<le> sint (side v) \<Longrightarrow> 0 \<le> sint (side (Traffic (up v) 0)) \<and> 0 \<le> sint (side (Traffic 0 (down v)))"
  using side_parts [of "up v" "down v"] by simp

lemma side_up: "down h = 0 \<Longrightarrow> sint (side (Traffic (up h) d)) = sint (side h) + sint (side (Traffic 0 d))"
  using side_split [of "up h" d] by (cases h) simp

lemma side_down: "up h = 0 \<Longrightarrow> side (Traffic 0 (down h)) = side h"
  by (cases h) simp

text \<open>Moving an amount between a counter and the section under the lock keeps the ledger.\<close>

lemma ledger_move:
  assumes ok: "ledger_ok side w" and i: "i < length (kt_heap w)" and k: "ut_key (kt_heap w ! i) = k"
    and w': "kt_heap w' = kt_heap (set_value i v w)" "kt_log w' = kt_log w" "kt_settled w' = kt_settled w"
    and v: "0 \<le> sint (side v)" and hand': "amounts_ok side (hand w')"
    and moved: "\<And>j. side_total side j (hand w') - side_total side j (hand w) = (if j = k then sint (side (value_of w i)) - sint (side v) else 0)"
  shows "ledger_ok side w'"
proof -
  have "side_total side j (kt_log w') = side_total side j (kt_settled w') + heap_total side j (kt_heap w') + side_total side j (hand w')" for j
    using ok moved [of j] i k by (auto simp: ledger_ok_def w' heap_total_value)
  then show ?thesis using ok v hand' by (simp add: ledger_ok_def w' values_ok_value)
qed

lemma ledger_still:
  assumes "ledger_ok side w" "kt_log w' = kt_log w" "kt_settled w' = kt_settled w" "values_ok side (kt_heap w')"
    "\<And>k. heap_total side k (kt_heap w') = heap_total side k (kt_heap w)" "hand w' = hand w"
  shows "ledger_ok side w'"
  using assms by (simp add: ledger_ok_def)

text \<open>A part of what the section holds fits into a counter: together they do not exceed what was added.\<close>

lemma room:
  assumes ok: "ledger_ok side w" and i: "i < length (kt_heap w)" and bound: "side_total side (ut_key (kt_heap w ! i)) (kt_log w) < 2 ^ 63"
    and h: "hand w = [(ut_key (kt_heap w ! i), h)]" and part: "0 \<le> sint (side p)" "sint (side p) \<le> sint (side h)"
  shows "sint (side (value_of w i + p)) = sint (side (value_of w i)) + sint (side p)"
proof -
  have "0 \<le> side_total side (ut_key (kt_heap w ! i)) (kt_settled w)" using ok by (simp add: ledger_ok_def total_nonneg)
  moreover have "sint (side (value_of w i)) \<le> heap_total side (ut_key (kt_heap w ! i)) (kt_heap w)"
    using ok i by (simp add: ledger_ok_def heap_total_at)
  ultimately have "sint (side (value_of w i)) + sint (side p) < 2 ^ 63"
    using ok bound part h by (auto simp: ledger_ok_def)
  moreover have "0 \<le> sint (side (value_of w i))" using ok i by (simp add: ledger_ok_def values_ok_at)
  ultimately show ?thesis using part by (simp add: side_add sint_add_bounded)
qed

end

text \<open>The current counter of a key that is being retired, and the one an addition goes to.\<close>

lemma retire_target_at:
  assumes "totals_ok w" "kt_lock w = Retire (e # rest) st" "retire_target st = Some i"
  shows "i < length (kt_heap w)" "ut_key (kt_heap w ! i) = fst e"
  using assms by (auto simp: totals_ok_def counters_ok_def)

lemma reactivated_at:
  assumes "totals_ok w" "kt_lock w = Reactivate c st"
  shows "ac_counter (kt_calls w ! c) < length (kt_heap w)"
  using assms by (auto simp: totals_ok_def calls_in_range_def)

lemma reactivate_target_at:
  assumes "totals_ok w" "kt_lock w = Reactivate c (ReAddUp j h) \<or> kt_lock w = Reactivate c (ReAddDown j h)"
  shows "j < length (kt_heap w)" "ut_key (kt_heap w ! j) = ut_key (kt_heap w ! ac_counter (kt_calls w ! c))"
proof -
  have "map_of (kt_current w) (ut_key (kt_heap w ! ac_counter (kt_calls w ! c))) = Some j"
    using assms by (auto simp: totals_ok_def)
  then show "j < length (kt_heap w)" "ut_key (kt_heap w ! j) = ut_key (kt_heap w ! ac_counter (kt_calls w ! c))"
    using assms(1) by (simp_all add: totals_ok_def counters_ok_def)
qed

context traffic_side
begin

lemma ledger_open:
  assumes "ledger_ok side w" "totals_ok w"
  shows "ledger_ok side (open_counter k w)"
proof (cases "has_key (kt_current w) k")
  case False
  have hand: "in_hand (kt_lock w) (kt_heap w @ [u]) (kt_calls w) = hand w" for u
    using assms(2) by (cases "(kt_lock w, kt_heap w, kt_calls w)" rule: in_hand.cases)
      (auto simp: totals_ok_def calls_in_range_def nth_append)
  show ?thesis
    by (rule ledger_still [OF assms(1)])
      (use False assms(1) hand in \<open>auto simp: open_counter_def new_counter_def heap_total_def ledger_ok_def values_ok_def\<close>)
qed (use assms in \<open>simp add: open_counter_def\<close>)

lemma ledger_retire:
  assumes ok: "ledger_ok side w" and tok: "totals_ok w" and lock: "kt_lock w = Retire todo st"
    and bound: "\<And>k. side_total side k (kt_log w) < 2 ^ 63"
  shows "ledger_ok side (retire_step todo st w)"
proof (cases todo)
  case Nil
  show ?thesis
    by (rule ledger_still [OF ok]) (use ok Nil lock in \<open>auto simp: retire_step_def ledger_ok_def split: retire_stage.split\<close>)
next
  case (Cons e rest)
  obtain k expected where e: "e = (k, expected)" by (cases e)
  have lock': "kt_lock w = Retire (e # rest) st" using lock Cons by simp
  have at: "i < length (kt_heap w)" "ut_key (kt_heap w ! i) = k" if "retire_target st = Some i" for i
    using retire_target_at [OF tok lock' that] e by simp_all
  have vals: "values_ok side (kt_heap w)" using ok by (simp add: ledger_ok_def)
  have hnd: "amounts_ok side (hand w)" using ok by (simp add: ledger_ok_def)
  have half: "half_moved st" using tok lock by (simp add: totals_ok_def)
  show ?thesis
  proof (cases st)
    case RtNext
    have "ledger_ok side ((set_retired i True w)\<lparr>kt_lock := Retire todo (RtUp i)\<rparr>)" if "map_of (kt_current w) k = Some i" for i
    proof -
      have "i < length (kt_heap w)" using tok that by (simp add: totals_ok_def counters_ok_def)
      then show ?thesis
        by (intro ledger_still [OF ok]) (use vals lock Cons RtNext in \<open>simp_all add: values_ok_retired heap_total_retired\<close>)
    qed
    moreover have "ledger_ok side (w\<lparr>kt_lock := Retire rest RtNext\<rparr>)"
      by (rule ledger_still [OF ok]) (use vals lock RtNext in simp_all)
    ultimately show ?thesis by (simp add: retire_step_def Cons e RtNext Let_def split: option.split)
  next
    case (RtUp i)
    show ?thesis unfolding retire_step_def Cons e RtUp Let_def list.case prod.case retire_stage.case
      by (rule ledger_move [OF ok, where i = i and k = k and v = "Traffic 0 (down (value_of w i))"])
        (use at RtUp lock Cons e side_nonneg [OF values_ok_at [OF vals]] side_whole [of "value_of w i"] in auto)
  next
    case (RtDown i h)
    have h: "hand w = [(k, h)]" by (simp add: lock Cons e RtDown)
    show ?thesis unfolding retire_step_def Cons e RtDown Let_def list.case prod.case retire_stage.case
      by (rule ledger_move [OF ok, where i = i and k = k and v = "Traffic (up (value_of w i)) 0"])
        (use at RtDown lock Cons e side_nonneg [OF values_ok_at [OF vals]] side_whole [of "value_of w i"] h hnd half
          in \<open>auto simp: side_up\<close>)
  next
    case (RtCompare i h)
    have "hand w = [(k, h)]" by (simp add: lock Cons e RtCompare)
    then have "ledger_ok side (w\<lparr>kt_lock := Retire rest RtNext, kt_current := AList.delete k (kt_current w), kt_settled := kt_settled w @ [(k, h)]\<rparr>)"
      using ok hnd by (simp add: ledger_ok_def)
    moreover have "ledger_ok side (w\<lparr>kt_lock := Retire ((k, expected) # rest) (RtBackUp i h)\<rparr>)"
      by (rule ledger_still [OF ok]) (use vals lock Cons e RtCompare in simp_all)
    ultimately show ?thesis by (auto simp: retire_step_def Cons e RtCompare Let_def)
  next
    case (RtBackUp i h)
    have h: "hand w = [(k, h)]" by (simp add: lock Cons e RtBackUp)
    have i: "i < length (kt_heap w)" "ut_key (kt_heap w ! i) = k" using at [of i] RtBackUp by simp_all
    have part: "0 \<le> sint (side (Traffic (up h) 0))" "sint (side (Traffic (up h) 0)) \<le> sint (side h)"
      using side_nonneg [of h] side_whole [of h] hnd h by simp_all
    have sum: "sint (side (value_of w i + Traffic (up h) 0)) = sint (side (value_of w i)) + sint (side (Traffic (up h) 0))"
      by (rule room [OF ok i(1) bound _ part]) (simp add: h i)
    show ?thesis unfolding retire_step_def Cons e RtBackUp Let_def list.case prod.case retire_stage.case
      by (rule ledger_move [OF ok i, where v = "value_of w i + Traffic (up h) 0"])
        (use sum part values_ok_at [OF vals i(1)] side_nonneg [of h] side_whole [of h] hnd h in auto)
  next
    case (RtBackDown i h)
    have h: "hand w = [(k, h)]" by (simp add: lock Cons e RtBackDown)
    have i: "i < length (kt_heap w)" "ut_key (kt_heap w ! i) = k" using at [of i] RtBackDown by simp_all
    have sum: "sint (side (value_of w i + h)) = sint (side (value_of w i)) + sint (side h)"
      by (rule room [OF ok i(1) bound, where h = h]) (use h i hnd in simp_all)
    show ?thesis unfolding retire_step_def Cons e RtBackDown Let_def list.case prod.case retire_stage.case
      by (rule ledger_move [OF ok i, where v = "value_of w i + h"])
        (use sum values_ok_at [OF vals i(1)] hnd h in auto)
  next
    case (RtUnmark i)
    have i: "i < length (kt_heap w)" using at [of i] RtUnmark by simp
    show ?thesis unfolding retire_step_def Cons e RtUnmark Let_def list.case prod.case retire_stage.case
      by (rule ledger_still [OF ok]) (use vals lock Cons e RtUnmark i in \<open>simp_all add: values_ok_retired heap_total_retired\<close>)
  qed
qed

lemma ledger_leave: "ledger_ok side w \<Longrightarrow> hand w = [] \<Longrightarrow> ledger_ok side (leave_reactivate c w)"
  by (simp add: leave_reactivate_def ledger_ok_def)

lemma ledger_reactivate:
  assumes ok: "ledger_ok side w" and tok: "totals_ok w" and lock: "kt_lock w = Reactivate c st"
    and bound: "\<And>k. side_total side k (kt_log w) < 2 ^ 63"
  shows "ledger_ok side (reactivate_step c st w)"
proof -
  define i where "i = ac_counter (kt_calls w ! c)"
  define k where "k = ut_key (kt_heap w ! i)"
  have i: "i < length (kt_heap w)" using reactivated_at [OF tok lock] by (simp add: i_def)
  have vals: "values_ok side (kt_heap w)" "amounts_ok side (hand w)" using ok by (simp_all add: ledger_ok_def)
  have val: "0 \<le> sint (side (value_of w i))" using values_ok_at [OF vals(1) i] .
  have half: "case st of ReDown h \<Rightarrow> down h = 0 | ReAddDown j h \<Rightarrow> up h = 0 | _ \<Rightarrow> True"
    using tok lock by (auto simp: totals_ok_def split: reactivate_stage.splits)
  note unfolded = reactivate_step_def Let_def i_def [symmetric]
  show ?thesis
  proof (cases st)
    case ReCheck
    have "ledger_ok side (w\<lparr>kt_lock := Reactivate c ReUp\<rparr>)"
      by (rule ledger_still [OF ok]) (use vals lock ReCheck in simp_all)
    then show ?thesis using ledger_leave [OF ok] lock ReCheck by (simp add: unfolded)
  next
    case ReUp
    show ?thesis unfolding ReUp unfolded reactivate_stage.case
      by (rule ledger_move [OF ok i k_def [symmetric], where v = "Traffic 0 (down (value_of w i))"])
        (use side_nonneg [OF val] side_whole [of "value_of w i"] lock ReUp in \<open>simp_all add: i_def [symmetric] k_def [symmetric]\<close>)
  next
    case (ReDown h)
    have h: "hand w = [(k, h)]" by (simp add: lock ReDown i_def k_def)
    define h' where "h' = Traffic (up h) (down (value_of w i))"
    have sum: "sint (side h') = sint (side h) + sint (side (Traffic 0 (down (value_of w i))))"
      using half by (simp add: h'_def side_up ReDown)
    have "ledger_ok side (set_value i (Traffic (up (value_of w i)) 0) w\<lparr>kt_lock := Reactivate c (RePut h')\<rparr>)"
      by (rule ledger_move [OF ok i k_def [symmetric], where v = "Traffic (up (value_of w i)) 0"])
        (use side_nonneg [OF val] side_whole [of "value_of w i"] sum h vals(2) lock ReDown in \<open>simp_all add: i_def [symmetric] k_def [symmetric]\<close>)
    moreover have "ledger_ok side (leave_reactivate c (set_value i (Traffic (up (value_of w i)) 0) w))" if "h' = 0"
      by (rule ledger_move [OF ok i k_def [symmetric], where v = "Traffic (up (value_of w i)) 0"])
        (use side_nonneg [OF val] side_whole [of "value_of w i"] sum that h in \<open>auto simp: leave_reactivate_def\<close>)
    ultimately show ?thesis unfolding ReDown unfolded reactivate_stage.case by (simp add: h'_def [symmetric])
  next
    case (RePut h)
    define j where "j = the (map_of (kt_current (open_counter k w)) k)"
    have "hand ((open_counter k w)\<lparr>kt_lock := Reactivate c (ReAddUp j h)\<rparr>) = hand (open_counter k w)"
      using lock RePut by simp
    then have "ledger_ok side ((open_counter k w)\<lparr>kt_lock := Reactivate c (ReAddUp j h)\<rparr>)"
      using ledger_open [OF ok tok, of k] by (simp add: ledger_ok_def)
    then show ?thesis unfolding RePut unfolded reactivate_stage.case by (simp add: k_def j_def)
  next
    case (ReAddUp j h)
    have h: "hand w = [(k, h)]" by (simp add: lock ReAddUp i_def k_def)
    have j: "j < length (kt_heap w)" "ut_key (kt_heap w ! j) = k"
      using reactivate_target_at [OF tok, of c j h] lock ReAddUp by (simp_all add: i_def k_def)
    have part: "0 \<le> sint (side (Traffic (up h) 0))" "sint (side (Traffic (up h) 0)) \<le> sint (side h)"
      using side_nonneg [of h] side_whole [of h] vals(2) h by simp_all
    have sum: "sint (side (value_of w j + Traffic (up h) 0)) = sint (side (value_of w j)) + sint (side (Traffic (up h) 0))"
      by (rule room [OF ok j(1) bound _ part]) (simp add: h j)
    show ?thesis unfolding ReAddUp unfolded reactivate_stage.case
      by (rule ledger_move [OF ok j, where v = "value_of w j + Traffic (up h) 0"])
        (use sum part values_ok_at [OF vals(1) j(1)] side_nonneg [of h] side_whole [of h] vals(2) h
          in \<open>auto simp: i_def [symmetric] k_def [symmetric]\<close>)
  next
    case (ReAddDown j h)
    have h: "hand w = [(k, h)]" by (simp add: lock ReAddDown i_def k_def)
    have j: "j < length (kt_heap w)" "ut_key (kt_heap w ! j) = k"
      using reactivate_target_at [OF tok, of c j h] lock ReAddDown by (simp_all add: i_def k_def)
    have sum: "sint (side (value_of w j + h)) = sint (side (value_of w j)) + sint (side h)"
      by (rule room [OF ok j(1) bound, where h = h]) (use h j vals(2) in simp_all)
    show ?thesis unfolding ReAddDown unfolded reactivate_stage.case
      by (rule ledger_move [OF ok j, where v = "value_of w j + h"])
        (use sum values_ok_at [OF vals(1) j(1)] vals(2) h in \<open>auto simp: leave_reactivate_def\<close>)
  qed
qed

end

lemma reactivate_log [simp]: "kt_log (reactivate_step c st w) = kt_log w" "kt_log (leave_reactivate c w) = kt_log w"
  by (cases st) (simp_all add: reactivate_step_def Let_def leave_reactivate_def)

lemma retire_log [simp]: "kt_log (retire_step todo st w) = kt_log w"
  by (cases st) (auto simp: retire_step_def Let_def split: list.split option.split)

lemma relay_counters_fields [simp]:
  "kt_log (relay_counters u n w) = kt_log w" "kt_calls (relay_counters u n w) = kt_calls w"
  by (simp_all add: relay_counters_def)

lemma lock_step_log [simp]: "kt_log (lock_step w) = kt_log w"
  by (cases "kt_lock w") (simp_all add: lock_step_def)

definition grown_log :: "traffic_op \<Rightarrow> kernel_traffic \<Rightarrow> (ledger_key \<times> traffic) list" where
  "grown_log p w =
     (case p of
        AddStep c \<Rightarrow>
          if c < length (kt_calls w) \<and> ac_stage (kt_calls w ! c) = Adding
          then [(ut_key (kt_heap w ! ac_counter (kt_calls w ! c)), ac_amount (kt_calls w ! c))] else []
      | _ \<Rightarrow> [])"

lemma add_step_log: "kt_log (add_step c w) =
    kt_log w @ (if ac_stage (kt_calls w ! c) = Adding then [(ut_key (kt_heap w ! ac_counter (kt_calls w ! c)), ac_amount (kt_calls w ! c))] else [])"
  by (cases "ac_stage (kt_calls w ! c)") (simp_all add: add_step_def Let_def)

lemma log_step: "kt_log (traffic_op_step p w) = kt_log w @ grown_log p w"
  by (cases p) (auto simp: grown_log_def start_add_def add_step_log)

definition amounts_of :: "add_call list \<Rightarrow> traffic list" where
  "amounts_of calls = map ac_amount calls"

lemma amounts_set_stage [simp]: "amounts_of (calls[c := (calls ! c)\<lparr>ac_stage := st\<rparr>]) = amounts_of calls"
  by (cases "c < length calls") (simp_all add: amounts_of_def map_update list_update_beyond, metis list_update_id nth_map)

lemma calls_ok_amounts: "calls_ok side calls = (\<forall>a \<in> set (amounts_of calls). 0 \<le> sint (side a))"
  by (simp add: calls_ok_def amounts_of_def)

lemma amounts_reactivate [simp]: "amounts_of (kt_calls (reactivate_step c st w)) = amounts_of (kt_calls w)"
  by (cases st) (simp_all add: reactivate_step_def Let_def leave_reactivate_def set_add_stage_def)

lemma amounts_retire [simp]: "kt_calls (retire_step todo st w) = kt_calls w"
  by (cases st) (auto simp: retire_step_def Let_def split: list.split option.split)

lemma amounts_lock_step [simp]: "amounts_of (kt_calls (lock_step w)) = amounts_of (kt_calls w)"
  by (cases "kt_lock w") (simp_all add: lock_step_def)

lemma amounts_add_step [simp]: "amounts_of (kt_calls (add_step c w)) = amounts_of (kt_calls w)"
  by (cases "ac_stage (kt_calls w ! c)") (simp_all add: add_step_def Let_def set_add_stage_def)

definition bounded :: "(traffic \<Rightarrow> i64) \<Rightarrow> kernel_traffic \<Rightarrow> bool" where
  "bounded side w \<longleftrightarrow> (\<forall>k. side_total side k (kt_log w) < 2 ^ 63)"

definition traffic_inv :: "(traffic \<Rightarrow> i64) \<Rightarrow> kernel_traffic \<Rightarrow> bool" where
  "traffic_inv side w \<longleftrightarrow> totals_ok w \<and> calls_ok side (kt_calls w) \<and> (bounded side w \<longrightarrow> ledger_ok side w)"

context traffic_side
begin

lemma ledger_add:
  assumes ok: "ledger_ok side w" and tok: "totals_ok w" and calls: "calls_ok side (kt_calls w)" and c: "c < length (kt_calls w)"
    and bound: "\<And>k. side_total side k (kt_log (add_step c w)) < 2 ^ 63"
  shows "ledger_ok side (add_step c w)"
proof -
  define i where "i = ac_counter (kt_calls w ! c)"
  define amt where "amt = ac_amount (kt_calls w ! c)"
  have i: "i < length (kt_heap w)" using tok c by (simp add: totals_ok_def calls_in_range_def i_def)
  have amt: "0 \<le> sint (side amt)" using calls c by (simp add: calls_ok_def amt_def)
  have vals: "values_ok side (kt_heap w)" "amounts_ok side (hand w)" "amounts_ok side (kt_settled w)" using ok by (simp_all add: ledger_ok_def)
  show ?thesis
  proof (cases "ac_stage (kt_calls w ! c)")
    case Adding
    define k where "k = ut_key (kt_heap w ! i)"
    have "sint (side (value_of w i)) \<le> heap_total side k (kt_heap w)"
      using heap_total_at [OF vals(1) i] by (simp add: k_def)
    moreover have "0 \<le> side_total side k (kt_settled w)" "0 \<le> side_total side k (hand w)" using vals by (simp_all add: total_nonneg)
    moreover have "side_total side k (kt_log w) = side_total side k (kt_settled w) + heap_total side k (kt_heap w) + side_total side k (hand w)"
      using ok by (simp add: ledger_ok_def)
    moreover have "side_total side k (kt_log w) + sint (side amt) < 2 ^ 63"
      using bound [of k] by (simp add: add_step_log Adding i_def [symmetric] amt_def [symmetric] k_def [symmetric])
    ultimately have "sint (side (value_of w i + amt)) = sint (side (value_of w i)) + sint (side amt)"
      using values_ok_at [OF vals(1) i] amt by (simp add: side_add sint_add_bounded)
    then show ?thesis using ok i amt values_ok_at [OF vals(1) i]
      by (simp add: add_step_def Let_def Adding i_def [symmetric] amt_def [symmetric] ledger_ok_def heap_total_value values_ok_value)
  next
    case Checking
    show ?thesis by (rule ledger_still [OF ok]) (use vals in \<open>simp_all add: add_step_def Let_def Checking\<close>)
  next
    case Waiting
    show ?thesis by (rule ledger_still [OF ok]) (use vals in \<open>simp_all add: add_step_def Let_def Waiting\<close>)
  qed (use ok in \<open>simp_all add: add_step_def Let_def\<close>)
qed

lemma calls_ok_step: "calls_ok side (kt_calls w) \<Longrightarrow> calls_ok side (kt_calls (traffic_op_step p w))"
proof (cases p)
  case (Upload i n)
  assume "calls_ok side (kt_calls w)"
  then show ?thesis using side_input [of n 0]
    by (auto simp: Upload start_add_def calls_ok_def)
next
  case (Download i n)
  assume "calls_ok side (kt_calls w)"
  then show ?thesis using side_input [of 0 n]
    by (auto simp: Download start_add_def calls_ok_def)
qed (simp_all add: calls_ok_amounts)

end

context traffic_side
begin

lemma bounded_before:
  assumes "bounded side (traffic_op_step p w)" "totals_ok w" "calls_ok side (kt_calls w)"
  shows "bounded side w"
proof -
  have "amounts_ok side (grown_log p w)"
    using assms(3) by (auto simp: grown_log_def calls_ok_def split: traffic_op.split)
  then have "0 \<le> side_total side k (grown_log p w)" for k by (rule total_nonneg)
  then show ?thesis using assms(1) unfolding bounded_def log_step total_simps by (smt (verit))
qed

lemma ledger_step:
  assumes "totals_ok w" "calls_ok side (kt_calls w)" "ledger_ok side w" "bounded side (traffic_op_step p w)"
  shows "ledger_ok side (traffic_op_step p w)"
proof -
  have bound: "side_total side k (kt_log w) < 2 ^ 63" for k using bounded_before [OF assms(4,1,2)] by (simp add: bounded_def)
  have start: "ledger_ok side (start_add i amt w)" if "i < length (kt_heap w)" for i amt
  proof (rule ledger_still [OF assms(3)])
    show "hand (start_add i amt w) = hand w"
      using assms(1) by (cases "(kt_lock w, kt_heap w, kt_calls w)" rule: in_hand.cases)
        (auto simp: start_add_def totals_ok_def nth_append)
  qed (use assms(3) in \<open>simp_all add: start_add_def ledger_ok_def\<close>)
  show ?thesis
  proof (cases p)
    case (AddStep c)
    then show ?thesis using assms by (auto simp: bounded_def intro: ledger_add)
  next
    case (OpenRelay uid node)
    have "totals_ok (open_counter (RelayKey node) w)" if "kt_lock w = Idle" by (rule totals_ok_open [OF assms(1)]) (simp add: that)
    then show ?thesis using assms by (simp add: OpenRelay relay_counters_def ledger_open)
  next
    case (StartRetire us ns busy cand)
    have "ledger_ok side (w\<lparr>kt_lock := Retire todo RtNext\<rparr>)" if "kt_lock w = Idle" for todo
      by (rule ledger_still [OF assms(3)]) (use assms(3) that in \<open>simp_all add: ledger_ok_def\<close>)
    then show ?thesis using assms(3) by (simp add: StartRetire)
  next
    case LockStep
    then show ?thesis using assms bound
      by (cases "kt_lock w") (simp_all add: lock_step_def ledger_retire ledger_reactivate)
  qed (use assms start ledger_open in simp_all)
qed

lemma traffic_inv_step: "traffic_inv side w \<Longrightarrow> traffic_inv side (traffic_op_step p w)"
  unfolding traffic_inv_def using totals_ok_step calls_ok_step bounded_before ledger_step by blast

lemma traffic_inv_new: "traffic_inv side new_traffic_totals"
  using totals_ok_new by (simp add: traffic_inv_def calls_ok_def ledger_ok_def values_ok_def new_traffic_totals_def heap_total_def)

end

interpretation upload: traffic_side up
  by unfold_locales simp_all

interpretation download: traffic_side down
  by unfold_locales simp_all

interpretation upload_runs: invariant_machine traffic_op_step "traffic_inv up"
  by unfold_locales (rule upload.traffic_inv_step)

interpretation download_runs: invariant_machine traffic_op_step "traffic_inv down"
  by unfold_locales (rule download.traffic_inv_step)

section \<open>Retired counters are emptied\<close>

definition pending :: "add_call list \<Rightarrow> nat \<Rightarrow> bool" where
  "pending calls i \<longleftrightarrow> (\<exists>c < length calls. ac_counter (calls ! c) = i \<and> (ac_stage (calls ! c) = Checking \<or> ac_stage (calls ! c) = Waiting))"

definition part :: "bool \<Rightarrow> traffic \<Rightarrow> i64" where
  "part upward v = (if upward then up v else down v)"

text \<open>What the section under the lock will still take out of a retired counter, or has just put back.\<close>

fun excused :: "bool \<Rightarrow> totals_lock \<Rightarrow> add_call list \<Rightarrow> nat \<Rightarrow> bool" where
  "excused upward (Retire todo (RtUp j)) calls i = (i = j)"
| "excused upward (Retire todo (RtDown j h)) calls i = (i = j \<and> \<not> upward)"
| "excused upward (Retire todo (RtBackDown j h)) calls i = (i = j \<and> upward)"
| "excused upward (Retire todo (RtUnmark j)) calls i = (i = j)"
| "excused upward (Reactivate c ReCheck) calls i = (i = ac_counter (calls ! c))"
| "excused upward (Reactivate c ReUp) calls i = (i = ac_counter (calls ! c))"
| "excused upward (Reactivate c (ReDown h)) calls i = (i = ac_counter (calls ! c) \<and> \<not> upward)"
| "excused _ _ _ _ = False"

definition drained :: "kernel_traffic \<Rightarrow> bool" where
  "drained w \<longleftrightarrow> (\<forall>d i. i < length (kt_heap w) \<longrightarrow> ut_retired (kt_heap w ! i) \<longrightarrow> part d (value_of w i) \<noteq> 0 \<longrightarrow>
     pending (kt_calls w) i \<or> excused d (kt_lock w) (kt_calls w) i)"

lemma part_simps [simp]: "part True v = up v" "part False v = down v" "part d 0 = 0" "part d (a + b) = part d a + part d b"
  by (simp_all add: part_def)

lemma pending_stage:
  assumes "pending calls i" "st = Checking \<or> st = Waiting \<or> ac_counter (calls ! c) \<noteq> i \<or> (ac_stage (calls ! c) \<noteq> Checking \<and> ac_stage (calls ! c) \<noteq> Waiting)"
  shows "pending (calls[c := (calls ! c)\<lparr>ac_stage := st\<rparr>]) i"
proof -
  obtain d where d: "d < length calls" "ac_counter (calls ! d) = i" "ac_stage (calls ! d) = Checking \<or> ac_stage (calls ! d) = Waiting"
    using assms(1) unfolding pending_def by blast
  then show ?thesis using assms(2) unfolding pending_def by (intro exI [of _ d]; cases "d = c"; auto)
qed

lemma pending_new: "c < length calls \<Longrightarrow> st = Checking \<or> st = Waiting \<Longrightarrow> ac_counter (calls ! c) = i \<Longrightarrow>
    pending (calls[c := (calls ! c)\<lparr>ac_stage := st\<rparr>]) i"
  unfolding pending_def by (intro exI [of _ c]) auto

lemma excused_stage [simp]: "excused d lock (calls[c := (calls ! c)\<lparr>ac_stage := st\<rparr>]) i = excused d lock calls i"
  by (cases "(d, lock, calls, i)" rule: excused.cases) auto

lemma drainedD:
  "drained w \<Longrightarrow> i < length (kt_heap w) \<Longrightarrow> ut_retired (kt_heap w ! i) \<Longrightarrow> part d (value_of w i) \<noteq> 0 \<Longrightarrow>
     pending (kt_calls w) i \<or> excused d (kt_lock w) (kt_calls w) i"
  unfolding drained_def by blast

lemma drained_open:
  assumes "drained w"
  shows "drained (open_counter k w)"
  using assms unfolding drained_def by (auto simp: open_counter_def new_counter_def nth_append)

lemma value_of_set_value: "i < length (kt_heap w) \<Longrightarrow> value_of (set_value i v w) j = (if j = i then v else value_of w j)"
  by (simp add: heap_set_value)

lemma drained_add:
  assumes dr: "drained w" and ok: "totals_ok w" and c: "c < length (kt_calls w)"
  shows "drained (add_step c w)"
proof -
  define i where "i = ac_counter (kt_calls w ! c)"
  have i: "i < length (kt_heap w)" using ok c by (simp add: totals_ok_def calls_in_range_def i_def)
  show ?thesis
  proof (cases "ac_stage (kt_calls w ! c)")
    case Adding
    show ?thesis
      unfolding drained_def
    proof (intro allI impI)
      fix d j assume j: "j < length (kt_heap (add_step c w))" "ut_retired (kt_heap (add_step c w) ! j)" "part d (value_of (add_step c w) j) \<noteq> 0"
      show "pending (kt_calls (add_step c w)) j \<or> excused d (kt_lock (add_step c w)) (kt_calls (add_step c w)) j"
      proof (cases "j = i")
        case True
        then show ?thesis using c pending_new [of c "kt_calls w" Checking j]
          by (simp add: add_step_def Let_def Adding set_add_stage_def i_def)
      next
        case False
        then show ?thesis using drainedD [OF dr, of j d] j i pending_stage [of "kt_calls w" j Checking c]
          by (auto simp: add_step_def Let_def Adding set_add_stage_def i_def [symmetric] value_of_set_value)
      qed
    qed
  next
    case Checking
    have "drained (set_add_stage c (if ut_retired (kt_heap w ! i) then Waiting else Finished) w)"
      unfolding drained_def
    proof (intro allI impI)
      fix d j
      let ?w = "set_add_stage c (if ut_retired (kt_heap w ! i) then Waiting else Finished) w"
      assume j: "j < length (kt_heap ?w)" "ut_retired (kt_heap ?w ! j)" "part d (value_of ?w j) \<noteq> 0"
      then have "pending (kt_calls w) j \<or> excused d (kt_lock w) (kt_calls w) j" using drainedD [OF dr] by simp
      moreover have "pending (kt_calls ?w) j" if "pending (kt_calls w) j"
      proof -
        have "pending ((kt_calls w)[c := (kt_calls w ! c)\<lparr>ac_stage := if ut_retired (kt_heap w ! i) then Waiting else Finished\<rparr>]) j"
          by (rule pending_stage [OF that]) (use j i_def in auto)
        then show ?thesis by (simp add: set_add_stage_def)
      qed
      ultimately show "pending (kt_calls ?w) j \<or> excused d (kt_lock ?w) (kt_calls ?w) j"
        by (auto simp: set_add_stage_def)
    qed
    then show ?thesis by (simp add: add_step_def Let_def Checking i_def)
  next
    case Waiting
    have "drained ((set_add_stage c Locked w)\<lparr>kt_lock := Reactivate c ReCheck\<rparr>)" if "kt_lock w = Idle"
      unfolding drained_def
    proof (intro allI impI)
      fix d j
      let ?w = "(set_add_stage c Locked w)\<lparr>kt_lock := Reactivate c ReCheck\<rparr>"
      assume j: "j < length (kt_heap ?w)" "ut_retired (kt_heap ?w ! j)" "part d (value_of ?w j) \<noteq> 0"
      then have p: "pending (kt_calls w) j" using drainedD [OF dr, of j d] that by simp
      show "pending (kt_calls ?w) j \<or> excused d (kt_lock ?w) (kt_calls ?w) j"
      proof (cases "j = i")
        case False
        then show ?thesis using pending_stage [OF p, of Locked c] by (simp add: set_add_stage_def i_def)
      qed (simp add: set_add_stage_def i_def)
    qed
    then show ?thesis using dr by (simp add: add_step_def Let_def Waiting)
  qed (use dr in \<open>simp_all add: add_step_def Let_def\<close>)
qed

text \<open>A step of the section that changes one counter \<open>i\<close>: others are judged as before.\<close>

lemma drained_section:
  assumes dr: "drained w" and calls: "kt_calls w' = kt_calls w" and len: "length (kt_heap w') = length (kt_heap w)"
    and others: "\<And>j. j \<noteq> i \<Longrightarrow> kt_heap w' ! j = kt_heap w ! j"
    and excuses: "\<And>d j. j \<noteq> i \<Longrightarrow> excused d (kt_lock w) (kt_calls w) j \<Longrightarrow> excused d (kt_lock w') (kt_calls w) j"
    and here: "\<And>d. i < length (kt_heap w) \<Longrightarrow> ut_retired (kt_heap w' ! i) \<Longrightarrow> part d (value_of w' i) \<noteq> 0 \<Longrightarrow>
      pending (kt_calls w) i \<or> excused d (kt_lock w') (kt_calls w) i"
  shows "drained w'"
  unfolding drained_def
proof (intro allI impI)
  fix d j assume j: "j < length (kt_heap w')" "ut_retired (kt_heap w' ! j)" "part d (value_of w' j) \<noteq> 0"
  show "pending (kt_calls w') j \<or> excused d (kt_lock w') (kt_calls w') j"
  proof (cases "j = i")
    case True
    then show ?thesis using here [of d] j by (simp add: calls len)
  next
    case False
    then show ?thesis using drainedD [OF dr, of j d] others excuses [of j d] j by (auto simp: calls len)
  qed
qed

lemma drained_relock:
  assumes dr: "drained w" and "\<And>d j. excused d (kt_lock w) (kt_calls w) j \<Longrightarrow> excused d l (kt_calls w) j"
  shows "drained (w\<lparr>kt_lock := l\<rparr>)"
  unfolding drained_def using drainedD [OF dr] assms(2) by auto

lemma drained_leave:
  assumes dr: "drained w" and c: "c < length (kt_calls w)" "ac_stage (kt_calls w ! c) = Locked"
    and none: "\<And>d j. j < length (kt_heap w) \<Longrightarrow> ut_retired (kt_heap w ! j) \<Longrightarrow> part d (value_of w j) \<noteq> 0 \<Longrightarrow>
      excused d (kt_lock w) (kt_calls w) j \<Longrightarrow> pending (kt_calls w) j"
  shows "drained (leave_reactivate c w)"
  unfolding drained_def
proof (intro allI impI)
  fix d j
  let ?w = "leave_reactivate c w"
  assume j: "j < length (kt_heap ?w)" "ut_retired (kt_heap ?w ! j)" "part d (value_of ?w j) \<noteq> 0"
  then have "pending (kt_calls w) j" using drainedD [OF dr, of j d] none [of j d] by (auto simp: leave_reactivate_def)
  then have "pending ((kt_calls w)[c := (kt_calls w ! c)\<lparr>ac_stage := Finished\<rparr>]) j" by (rule pending_stage) (use c in simp)
  then show "pending (kt_calls ?w) j \<or> excused d (kt_lock ?w) (kt_calls ?w) j"
    by (simp add: leave_reactivate_def set_add_stage_def)
qed

lemma drained_reactivate:
  assumes dr: "drained w" and ok: "totals_ok w" and lock: "kt_lock w = Reactivate c st"
  shows "drained (reactivate_step c st w)"
proof -
  define i where "i = ac_counter (kt_calls w ! c)"
  have i: "i < length (kt_heap w)" using reactivated_at [OF ok lock] by (simp add: i_def)
  have c: "c < length (kt_calls w)" "ac_stage (kt_calls w ! c) = Locked" using ok lock by (auto simp: totals_ok_def)
  have live: "\<not> ut_retired (kt_heap w ! j)" if "map_of (kt_current w) k = Some j" for k j
    using ok lock that by (simp add: totals_ok_def counters_ok_def)
  have was: "pending (kt_calls w) i \<or> excused d (kt_lock w) (kt_calls w) i" if "ut_retired (kt_heap w ! i)" "part d (value_of w i) \<noteq> 0" for d
    using drainedD [OF dr i that] .
  note unfolded = reactivate_step_def Let_def i_def [symmetric]
  show ?thesis
  proof (cases st)
    case ReCheck
    have "drained (w\<lparr>kt_lock := Reactivate c ReUp\<rparr>)"
      by (rule drained_section [OF dr, where i = i]) (use lock ReCheck in \<open>simp_all add: i_def\<close>)
    moreover have "drained (leave_reactivate c w)" if "\<not> ut_retired (kt_heap w ! i)"
      by (rule drained_leave [OF dr c]) (use that lock ReCheck in \<open>auto simp: i_def\<close>)
    ultimately show ?thesis by (simp add: ReCheck unfolded)
  next
    case ReUp
    show ?thesis unfolding ReUp unfolded reactivate_stage.case
    proof (rule drained_section [OF dr, where i = i])
      fix d assume "ut_retired (kt_heap ((set_value i (Traffic 0 (down (value_of w i))) w)\<lparr>kt_lock := Reactivate c (ReDown (Traffic (up (value_of w i)) 0))\<rparr>) ! i)"
        "part d (value_of ((set_value i (Traffic 0 (down (value_of w i))) w)\<lparr>kt_lock := Reactivate c (ReDown (Traffic (up (value_of w i)) 0))\<rparr>) i) \<noteq> 0"
      then show "pending (kt_calls w) i \<or> excused d (kt_lock ((set_value i (Traffic 0 (down (value_of w i))) w)\<lparr>kt_lock := Reactivate c (ReDown (Traffic (up (value_of w i)) 0))\<rparr>)) (kt_calls w) i"
        using i by (cases d) (simp_all add: value_of_set_value i_def)
    qed (use i lock ReUp in \<open>simp_all add: heap_set_value i_def\<close>)
  next
    case (ReDown h)
    define w1 where "w1 = (set_value i (Traffic (up (value_of w i)) 0) w)\<lparr>kt_lock := Reactivate c (RePut (Traffic (up h) (down (value_of w i))))\<rparr>"
    have "drained w1"
    proof (rule drained_section [OF dr, where i = i])
      fix d assume "ut_retired (kt_heap w1 ! i)" "part d (value_of w1 i) \<noteq> 0"
      then show "pending (kt_calls w) i \<or> excused d (kt_lock w1) (kt_calls w) i"
        using i was [of True] lock ReDown by (cases d) (simp_all add: w1_def value_of_set_value i_def)
    qed (use i lock ReDown in \<open>simp_all add: w1_def heap_set_value i_def\<close>)
    moreover from this have "drained (leave_reactivate c w1)"
      by (rule drained_leave) (use c in \<open>simp_all add: w1_def\<close>)
    moreover have "leave_reactivate c w1 = leave_reactivate c (set_value i (Traffic (up (value_of w i)) 0) w)"
      by (simp add: w1_def leave_reactivate_def set_add_stage_def)
    ultimately show ?thesis unfolding ReDown unfolded reactivate_stage.case by (simp add: w1_def)
  next
    case (RePut h)
    define k where "k = ut_key (kt_heap w ! i)"
    have "drained (open_counter k w)" using dr by (rule drained_open)
    then have "drained ((open_counter k w)\<lparr>kt_lock := Reactivate c (ReAddUp j h)\<rparr>)" for j
      by (rule drained_relock) (simp add: lock RePut)
    then show ?thesis unfolding RePut unfolded reactivate_stage.case by (simp add: k_def)
  next
    case (ReAddUp j h)
    have j: "j < length (kt_heap w)" "\<not> ut_retired (kt_heap w ! j)"
      using reactivate_target_at(1) [OF ok, of c j h] live ok lock ReAddUp by (auto simp: totals_ok_def)
    show ?thesis unfolding ReAddUp unfolded reactivate_stage.case
      by (rule drained_section [OF dr, where i = j]) (use j lock ReAddUp in \<open>simp_all add: heap_set_value\<close>)
  next
    case (ReAddDown j h)
    have j: "j < length (kt_heap w)" "\<not> ut_retired (kt_heap w ! j)"
      using reactivate_target_at(1) [OF ok, of c j h] live ok lock ReAddDown by (auto simp: totals_ok_def)
    have "drained (set_value j (value_of w j + h) w)"
      by (rule drained_section [OF dr, where i = j]) (use j lock ReAddDown in \<open>simp_all add: heap_set_value\<close>)
    then show ?thesis unfolding ReAddDown unfolded reactivate_stage.case
      by (rule drained_leave) (use c lock ReAddDown in simp_all)
  qed
qed

lemma drained_retire:
  assumes dr: "drained w" and ok: "totals_ok w" and lock: "kt_lock w = Retire todo st"
  shows "drained (retire_step todo st w)"
proof (cases todo)
  case Nil
  have "st = RtNext" using ok lock Nil by (cases st) (auto simp: totals_ok_def)
  have "drained (w\<lparr>kt_lock := Idle\<rparr>)"
    by (rule drained_relock [OF dr]) (simp add: lock \<open>st = RtNext\<close>)
  then show ?thesis by (simp add: retire_step_def Nil)
next
  case (Cons e rest)
  obtain k expected where e: "e = (k, expected)" by (cases e)
  have lock': "kt_lock w = Retire (e # rest) st" using lock Cons by simp
  have at: "i < length (kt_heap w)" if "retire_target st = Some i" for i
    using retire_target_at [OF ok lock' that] by simp
  have was: "pending (kt_calls w) i \<or> excused d (kt_lock w) (kt_calls w) i"
    if "retire_target st = Some i" "ut_retired (kt_heap w ! i)" "part d (value_of w i) \<noteq> 0" for d i
    using drainedD [OF dr at [OF that(1)] that(2,3)] .
  show ?thesis
  proof (cases st)
    case RtNext
    have "drained ((set_retired i True w)\<lparr>kt_lock := Retire todo (RtUp i)\<rparr>)" if "map_of (kt_current w) k = Some i" for i
    proof (rule drained_section [OF dr, where i = i])
      have "i < length (kt_heap w)" using ok that by (simp add: totals_ok_def counters_ok_def)
      then show "kt_heap ((set_retired i True w)\<lparr>kt_lock := Retire todo (RtUp i)\<rparr>) ! j = kt_heap w ! j" if "j \<noteq> i" for j
        using that by (simp add: heap_set_retired)
    qed (use lock RtNext in simp_all)
    moreover have "drained (w\<lparr>kt_lock := Retire rest RtNext\<rparr>)" by (rule drained_relock [OF dr]) (simp add: lock RtNext)
    ultimately show ?thesis by (simp add: retire_step_def Cons e RtNext Let_def split: option.split)
  next
    case (RtUp i)
    show ?thesis unfolding retire_step_def Cons e RtUp Let_def list.case prod.case retire_stage.case
    proof (rule drained_section [OF dr, where i = i])
      fix d
      let ?w = "(set_value i (Traffic 0 (down (value_of w i))) w)\<lparr>kt_lock := Retire ((k, expected) # rest) (RtDown i (Traffic (up (value_of w i)) 0))\<rparr>"
      assume "ut_retired (kt_heap ?w ! i)" "part d (value_of ?w i) \<noteq> 0"
      then show "pending (kt_calls w) i \<or> excused d (kt_lock ?w) (kt_calls w) i"
        using at [of i] RtUp by (cases d) (simp_all add: value_of_set_value)
    qed (use at [of i] lock RtUp in \<open>simp_all add: heap_set_value\<close>)
  next
    case (RtDown i h)
    show ?thesis unfolding retire_step_def Cons e RtDown Let_def list.case prod.case retire_stage.case
    proof (rule drained_section [OF dr, where i = i])
      fix d
      let ?w = "(set_value i (Traffic (up (value_of w i)) 0) w)\<lparr>kt_lock := Retire ((k, expected) # rest) (RtCompare i (Traffic (up h) (down (value_of w i))))\<rparr>"
      assume "ut_retired (kt_heap ?w ! i)" "part d (value_of ?w i) \<noteq> 0"
      then show "pending (kt_calls w) i \<or> excused d (kt_lock ?w) (kt_calls w) i"
        using at [of i] was [of i True] lock RtDown by (cases d) (simp_all add: value_of_set_value)
    qed (use at [of i] lock RtDown in \<open>simp_all add: heap_set_value\<close>)
  next
    case (RtCompare i h)
    have "drained (w\<lparr>kt_lock := Retire ((k, expected) # rest) (RtBackUp i h)\<rparr>)" by (rule drained_relock [OF dr]) (simp add: lock RtCompare)
    moreover have "drained (w\<lparr>kt_lock := Retire rest RtNext\<rparr>)" by (rule drained_relock [OF dr]) (simp add: lock RtCompare)
    ultimately show ?thesis by (simp add: retire_step_def Cons e RtCompare Let_def drained_def)
  next
    case (RtBackUp i h)
    show ?thesis unfolding retire_step_def Cons e RtBackUp Let_def list.case prod.case retire_stage.case
    proof (rule drained_section [OF dr, where i = i])
      fix d
      let ?w = "(set_value i (value_of w i + Traffic (up h) 0) w)\<lparr>kt_lock := Retire ((k, expected) # rest) (RtBackDown i (Traffic 0 (down h)))\<rparr>"
      assume "ut_retired (kt_heap ?w ! i)" "part d (value_of ?w i) \<noteq> 0"
      then show "pending (kt_calls w) i \<or> excused d (kt_lock ?w) (kt_calls w) i"
        using at [of i] was [of i False] lock RtBackUp by (cases d) (simp_all add: value_of_set_value)
    qed (use at [of i] lock RtBackUp in \<open>simp_all add: heap_set_value\<close>)
  next
    case (RtBackDown i h)
    show ?thesis unfolding retire_step_def Cons e RtBackDown Let_def list.case prod.case retire_stage.case
      by (rule drained_section [OF dr, where i = i]) (use at [of i] lock RtBackDown in \<open>simp_all add: heap_set_value\<close>)
  next
    case (RtUnmark i)
    show ?thesis unfolding retire_step_def Cons e RtUnmark Let_def list.case prod.case retire_stage.case
      by (rule drained_section [OF dr, where i = i]) (use at [of i] lock RtUnmark in \<open>simp_all add: heap_set_retired\<close>)
  qed
qed

lemma drained_start: "drained w \<Longrightarrow> totals_ok w \<Longrightarrow> drained (start_add i amt w)"
proof -
  assume dr: "drained w" and ok: "totals_ok w"
  have "pending (kt_calls w @ [x]) j" if "pending (kt_calls w) j" for x j
    using that unfolding pending_def by (auto simp: nth_append intro: less_SucI)
  moreover have "excused d (kt_lock w) (kt_calls w @ [x]) j = excused d (kt_lock w) (kt_calls w) j" for d x j
    using ok by (cases "(d, kt_lock w, kt_calls w, j)" rule: excused.cases) (auto simp: totals_ok_def nth_append)
  ultimately show ?thesis using dr unfolding drained_def start_add_def by simp blast
qed

lemma drained_step: "drained w \<Longrightarrow> totals_ok w \<Longrightarrow> drained (traffic_op_step p w)"
proof (cases p)
  case LockStep
  assume "drained w" "totals_ok w"
  then show ?thesis
    by (cases "kt_lock w") (simp_all add: LockStep lock_step_def drained_reactivate drained_retire)
next
  case (StartRetire us ns busy cand)
  assume "drained w"
  then have "drained (w\<lparr>kt_lock := Retire todo RtNext\<rparr>)" if "kt_lock w = Idle" for todo
    by (rule drained_relock) (simp add: that)
  then show ?thesis using \<open>drained w\<close> by (simp add: StartRetire)
qed (simp_all add: drained_start drained_add drained_open relay_counters_def)

interpretation drained_runs: invariant_machine traffic_op_step "\<lambda>w. totals_ok w \<and> drained w"
  by unfold_locales (simp add: totals_ok_step drained_step)

section \<open>Runs\<close>

definition traffic_run :: "traffic_op list \<Rightarrow> kernel_traffic" where
  "traffic_run ops = fold traffic_op_step ops new_traffic_totals"

definition current_value :: "ledger_key \<Rightarrow> kernel_traffic \<Rightarrow> traffic" where
  "current_value k w = (case map_of (kt_current w) k of None \<Rightarrow> 0 | Some i \<Rightarrow> value_of w i)"

definition at_rest :: "kernel_traffic \<Rightarrow> bool" where
  "at_rest w \<longleftrightarrow> kt_lock w = Idle \<and> list_all (\<lambda>c. ac_stage c = Finished) (kt_calls w)"

lemma run_traffic_inv: "traffic_inv up (traffic_run ops)" "traffic_inv down (traffic_run ops)"
  unfolding traffic_run_def
  by (rule upload_runs.run_inv [OF upload.traffic_inv_new], rule download_runs.run_inv [OF download.traffic_inv_new])

lemma run_drained: "totals_ok (traffic_run ops)" "drained (traffic_run ops)"
proof -
  have "drained new_traffic_totals" by (simp add: drained_def new_traffic_totals_def)
  then have "totals_ok (traffic_run ops) \<and> drained (traffic_run ops)"
    unfolding traffic_run_def using totals_ok_new by (intro drained_runs.run_inv) simp
  then show "totals_ok (traffic_run ops)" "drained (traffic_run ops)" by simp_all
qed

lemma sum_single:
  fixes f :: "nat \<Rightarrow> int"
  assumes "i < n" "\<And>j. j < n \<Longrightarrow> j \<noteq> i \<Longrightarrow> f j = 0"
  shows "(\<Sum>j<n. f j) = f i"
proof -
  have "(\<Sum>j<n. f j) = f i + (\<Sum>j \<in> {..<n} - {i}. f j)" using assms(1) by (simp add: sum.remove)
  also have "(\<Sum>j \<in> {..<n} - {i}. f j) = 0" by (rule sum.neutral) (use assms(2) in auto)
  finally show ?thesis by simp
qed

lemma heap_total_sum: "heap_total side k hp = (\<Sum>j<length hp. if ut_key (hp ! j) = k then sint (side (ut_value (hp ! j))) else 0)"
  unfolding heap_total_def by (simp add: sum_list_sum_nth atLeast0LessThan)

lemma rest_retired:
  assumes "drained w" "at_rest w" "j < length (kt_heap w)" "ut_retired (kt_heap w ! j)"
  shows "value_of w j = 0"
proof -
  have "\<not> pending (kt_calls w) j" "kt_lock w = Idle"
    using assms(2) by (auto simp: at_rest_def pending_def list_all_length)
  then have "part d (value_of w j) = 0" for d
    using drainedD [OF assms(1,3,4), of d] by auto
  from this [of True] this [of False] show ?thesis by (intro traffic.expand) simp
qed


context traffic_side
begin

lemma rest_heap_total:
  assumes ok: "totals_ok w" "drained w" and rest: "at_rest w"
  shows "heap_total side k (kt_heap w) = sint (side (current_value k w))"
proof -
  have cok: "counters_ok (kt_current w) (kt_heap w) Idle" using ok(1) rest by (simp add: totals_ok_def at_rest_def)
  have zero: "(if ut_key (kt_heap w ! j) = k then sint (side (value_of w j)) else 0) = 0"
    if "j < length (kt_heap w)" "map_of (kt_current w) k \<noteq> Some j" for j
    using rest_retired [OF ok(2) rest that(1)] that cok by (auto simp: counters_ok_def)
  show ?thesis
  proof (cases "map_of (kt_current w) k")
    case None
    then show ?thesis using zero unfolding heap_total_sum by (simp add: current_value_def)
  next
    case (Some i)
    then have i: "i < length (kt_heap w)" "ut_key (kt_heap w ! i) = k" using cok by (auto simp: counters_ok_def)
    have "heap_total side k (kt_heap w) = (if ut_key (kt_heap w ! i) = k then sint (side (value_of w i)) else 0)"
      unfolding heap_total_sum by (rule sum_single [OF i(1)]) (use zero Some in auto)
    then show ?thesis using Some i by (simp add: current_value_def)
  qed
qed

lemma rest_ledger:
  assumes "traffic_inv side w" "drained w" "at_rest w" "bounded side w"
  shows "side_total side k (kt_log w) = side_total side k (kt_settled w) + sint (side (current_value k w))"
  using assms rest_heap_total [of w k] by (simp add: traffic_inv_def ledger_ok_def at_rest_def)

lemma never_more:
  assumes "traffic_inv side w" "bounded side w"
  shows "side_total side k (kt_settled w) + sint (side (current_value k w)) \<le> side_total side k (kt_log w)"
proof -
  have ok: "ledger_ok side w" "totals_ok w" using assms by (simp_all add: traffic_inv_def)
  have "sint (side (current_value k w)) \<le> heap_total side k (kt_heap w)"
  proof (cases "map_of (kt_current w) k")
    case None
    then show ?thesis using ok heap_total_nonneg [of side "kt_heap w" k] by (simp add: current_value_def ledger_ok_def)
  next
    case (Some i)
    then have "i < length (kt_heap w)" "ut_key (kt_heap w ! i) = k" using ok(2) by (auto simp: totals_ok_def counters_ok_def)
    then show ?thesis using Some ok(1) heap_total_at [of side "kt_heap w" i] by (simp add: current_value_def ledger_ok_def)
  qed
  moreover have "0 \<le> side_total side k (hand w)" using ok by (simp add: ledger_ok_def total_nonneg)
  ultimately show ?thesis using ok(1) by (simp add: ledger_ok_def)
qed

end

section \<open>Properties\<close>

text \<open>C7. Over any interleaving of the atomic steps of connections that count bytes, of users and nodes coming and going, and
  of retiring counters, what was retired and what the current counter shows never exceed what connections counted
  for the key; and whenever no addition and no section is under way they are exactly that, in both directions. Only a
  total of 2 to the power 63 bytes for one key is excluded.\<close>

theorem counted_bytes_conserved:
  fixes ops :: "traffic_op list"
  defines "w \<equiv> traffic_run ops"
  assumes "bounded up w" "bounded down w"
  shows "side_total up k (kt_settled w) + sint (up (current_value k w)) \<le> side_total up k (kt_log w) \<and>
    side_total down k (kt_settled w) + sint (down (current_value k w)) \<le> side_total down k (kt_log w) \<and>
    (at_rest w \<longrightarrow>
      side_total up k (kt_settled w) + sint (up (current_value k w)) = side_total up k (kt_log w) \<and>
      side_total down k (kt_settled w) + sint (down (current_value k w)) = side_total down k (kt_log w))"
proof -
  note inv = run_traffic_inv [of ops, folded w_def] and drained = run_drained [of ops, folded w_def]
  show ?thesis
    using upload.never_more [OF inv(1) assms(2), of k] download.never_more [OF inv(2) assms(3), of k]
      upload.rest_ledger [OF inv(1) drained(2) _ assms(2), of k] download.rest_ledger [OF inv(2) drained(2) _ assms(3), of k]
    by simp
qed

text \<open>A user's counter is retired while a connection that still holds it adds to it.\<close>

definition late_addition :: "traffic_op list" where
  "late_addition =
     [OpenUser 7, Upload 0 100, AddStep 0, AddStep 0,
      StartRetire [] [] [] \<lparr>tc_users = [(7, Traffic 100 0)], tc_relay = [], tc_relay_users = []\<rparr>,
      LockStep, LockStep, LockStep, Upload 0 5, AddStep 1, LockStep, LockStep, AddStep 1, AddStep 1] @ replicate 6 LockStep"

lemma late_addition_state:
  "traffic_run late_addition =
     \<lparr>kt_heap = [\<lparr>ut_key = UserKey 7, ut_value = 0, ut_retired = True\<rparr>, \<lparr>ut_key = UserKey 7, ut_value = Traffic 5 0, ut_retired = False\<rparr>],
      kt_current = [(UserKey 7, 1)],
      kt_calls = [\<lparr>ac_counter = 0, ac_amount = Traffic 100 0, ac_stage = Finished\<rparr>, \<lparr>ac_counter = 0, ac_amount = Traffic 5 0, ac_stage = Finished\<rparr>],
      kt_lock = Idle, kt_log = [(UserKey 7, Traffic 100 0), (UserKey 7, Traffic 5 0)], kt_settled = [(UserKey 7, Traffic 100 0)]\<rparr>"
  by code_simp

lemma counted_bytes_conserved_witness:
  "side_total up (UserKey 7) (kt_settled (traffic_run late_addition)) + sint (up (current_value (UserKey 7) (traffic_run late_addition))) =
     side_total up (UserKey 7) (kt_log (traffic_run late_addition))"
proof -
  have "bounded up (traffic_run late_addition)" "bounded down (traffic_run late_addition)" "at_rest (traffic_run late_addition)"
    by (simp_all add: late_addition_state bounded_def at_rest_def)
  then show ?thesis using counted_bytes_conserved [of late_addition "UserKey 7"] by simp
qed

end
