(* ===== verification/KernelBilling.thy ===== *)
theory KernelBilling
  imports KernelTraffic
begin

text \<open>
  The sing-box counters and the tracker together: \<open>collectTraffic\<close> of \<open>internal/service/service.go\<close> reads the counters,
  hands them to the tracker and retires those of users that have gone, while connections add to counters and
  reports take the tracker's buffer and put it back. The sampling goroutine is one; its calls are cut where it holds
  neither \<open>totals.mu\<close> nor the tracker's lock.
\<close>

section \<open>State and steps\<close>

datatype sampler =
    Ready
  | Reading "int traffic_map"
  | Processed
  | Retiring nat

record billing =
  bl_tracker :: tracker
  bl_kernel :: kernel_traffic
  bl_sampler :: sampler
  bl_taken :: "(int \<times> traffic) list"

text \<open>What \<open>RetireTraffic\<close> reports as removed.\<close>

definition removed_counters :: "(ledger_key \<times> traffic) list \<Rightarrow> traffic_counters" where
  "removed_counters settled =
     \<lparr>tc_users = concat (map (\<lambda>(k, v). case k of UserKey u \<Rightarrow> [(u, v)] | _ \<Rightarrow> []) settled),
      tc_relay = concat (map (\<lambda>(k, v). case k of RelayKey n \<Rightarrow> [(n, v)] | _ \<Rightarrow> []) settled),
      tc_relay_users = foldl (\<lambda>m (k, v). case k of
          RelayUserKey u n \<Rightarrow> AList.update u (AList.update n v (inner m u)) m | _ \<Rightarrow> m) [] settled\<rparr>"

fun holds_retire :: "totals_lock \<Rightarrow> bool" where
  "holds_retire (Retire todo st) = True"
| "holds_retire _ = False"

fun is_retire_start :: "traffic_op \<Rightarrow> bool" where
  "is_retire_start (StartRetire us ns busy cand) = True"
| "is_retire_start _ = False"

definition load_user :: "int \<Rightarrow> kernel_traffic \<Rightarrow> int traffic_map \<Rightarrow> int traffic_map" where
  "load_user uid w snap =
     (let v = current_value (UserKey uid) w in
      if kt_lock w = Idle \<and> \<not> has_key snap uid \<and> any_positive v then snap @ [(uid, v)] else snap)"

definition begin_retire :: "int list \<Rightarrow> int list \<Rightarrow> (int, bool) go_map \<Rightarrow> billing \<Rightarrow> billing" where
  "begin_retire users nodes busy b =
     (if bl_sampler b = Processed \<and> kt_lock (bl_kernel b) = Idle
      then b\<lparr>bl_kernel := traffic_op_step (StartRetire users nodes busy (retire_candidates (bl_tracker b))) (bl_kernel b),
             bl_sampler := Retiring (length (kt_settled (bl_kernel b)))\<rparr>
      else b)"

definition end_retire :: "billing \<Rightarrow> billing" where
  "end_retire b =
     (case bl_sampler b of
        Retiring n \<Rightarrow>
          if holds_retire (kt_lock (bl_kernel b)) then b
          else b\<lparr>bl_tracker := retire_confirmed (\<lambda>_. removed_counters (drop n (kt_settled (bl_kernel b)))) (bl_tracker b),
                 bl_sampler := Ready\<rparr>
      | _ \<Rightarrow> b)"

definition tracker_free :: "billing \<Rightarrow> bool" where
  "tracker_free b = (case bl_sampler b of Retiring n \<Rightarrow> False | _ \<Rightarrow> True)"

datatype billing_op =
    Kernel traffic_op
  | BeginSample
  | Load int
  | Process int
  | SkipRetire
  | BeginRetire "int list" "int list" "(int, bool) go_map"
  | EndRetire
  | TakeReport
  | ReturnReport "int traffic_map"

fun billing_step :: "billing_op \<Rightarrow> billing \<Rightarrow> billing" where
  "billing_step (Kernel p) b = (if is_retire_start p then b else b\<lparr>bl_kernel := traffic_op_step p (bl_kernel b)\<rparr>)"
| "billing_step BeginSample b = (if bl_sampler b = Ready then b\<lparr>bl_sampler := Reading []\<rparr> else b)"
| "billing_step (Load uid) b =
     (case bl_sampler b of Reading snap \<Rightarrow> b\<lparr>bl_sampler := Reading (load_user uid (bl_kernel b) snap)\<rparr> | _ \<Rightarrow> b)"
| "billing_step (Process now) b =
     (case bl_sampler b of
        Reading snap \<Rightarrow> b\<lparr>bl_tracker := process_traffic snap [] 0 now (bl_tracker b), bl_sampler := Processed\<rparr>
      | _ \<Rightarrow> b)"
| "billing_step SkipRetire b = (if bl_sampler b = Processed then b\<lparr>bl_sampler := Ready\<rparr> else b)"
| "billing_step (BeginRetire users nodes busy) b = begin_retire users nodes busy b"
| "billing_step EndRetire b = end_retire b"
| "billing_step TakeReport b =
     (if tracker_free b
      then b\<lparr>bl_tracker := snd (flush_traffic (bl_tracker b)), bl_taken := bl_taken b @ fst (flush_traffic (bl_tracker b))\<rparr> else b)"
| "billing_step (ReturnReport data) b =
     (if tracker_free b
      then b\<lparr>bl_tracker := restore_traffic data (bl_tracker b), bl_taken := bl_taken b @ map (\<lambda>(uid, v). (uid, - v)) data\<rparr> else b)"

definition new_billing :: "int \<Rightarrow> billing" where
  "new_billing now = \<lparr>bl_tracker = new_tracker now, bl_kernel = new_traffic_totals, bl_sampler = Ready, bl_taken = []\<rparr>"

section \<open>A counter shows no less than before\<close>

text \<open>What a retiring section holds of a counter, and what it retires with its next step.\<close>

fun held_back :: "totals_lock \<Rightarrow> (ledger_key \<times> traffic) list" where
  "held_back (Retire (e # rest) (RtDown i h)) = [(fst e, h)]"
| "held_back (Retire (e # rest) (RtCompare i h)) = [(fst e, h)]"
| "held_back (Retire (e # rest) (RtBackUp i h)) = [(fst e, h)]"
| "held_back (Retire (e # rest) (RtBackDown i h)) = [(fst e, h)]"
| "held_back _ = []"

fun settling :: "totals_lock \<Rightarrow> (ledger_key \<times> traffic) list" where
  "settling (Retire (e # rest) (RtCompare i h)) = (if h = snd e then [e] else [])"
| "settling _ = []"

definition settled_now :: "traffic_op \<Rightarrow> kernel_traffic \<Rightarrow> (ledger_key \<times> traffic) list" where
  "settled_now p w = (if p = LockStep then settling (kt_lock w) else [])"

definition shown :: "(traffic \<Rightarrow> i64) \<Rightarrow> ledger_key \<Rightarrow> kernel_traffic \<Rightarrow> int" where
  "shown side k w = sint (side (current_value k w)) + side_total side k (held_back (kt_lock w))"

lemma held_back_next [simp]: "held_back (Retire todo RtNext) = []"
  by (cases todo) simp_all

lemma reactivate_settled [simp]: "kt_settled (reactivate_step c st w) = kt_settled w"
  by (cases st) (simp_all add: reactivate_step_def Let_def leave_reactivate_def)

lemma retire_settled: "kt_settled (retire_step todo st w) = kt_settled w @ settling (Retire todo st)"
  by (cases todo; cases st) (auto simp: retire_step_def Let_def split: option.split)

lemma settled_step: "kt_settled (traffic_op_step p w) = kt_settled w @ settled_now p w"
proof (cases p)
  case (AddStep c)
  then show ?thesis by (auto simp: settled_now_def add_step_def Let_def split: add_stage.split)
next
  case LockStep
  then show ?thesis by (cases "kt_lock w") (simp_all add: settled_now_def lock_step_def retire_settled)
qed (simp_all add: settled_now_def start_add_def relay_counters_def)

lemma current_value_frame [simp]:
  "current_value k (w\<lparr>kt_lock := l\<rparr>) = current_value k w" "current_value k (w\<lparr>kt_log := xs\<rparr>) = current_value k w"
  "current_value k (w\<lparr>kt_settled := xs\<rparr>) = current_value k w" "current_value k (set_add_stage c st w) = current_value k w"
  "current_value k (start_add i amt w) = current_value k w" "kt_lock (start_add i amt w) = kt_lock w"
  by (simp_all add: current_value_def start_add_def split: option.split)

lemma current_value_set:
  "i < length (kt_heap w) \<Longrightarrow> current_value k (set_value i v w) = (if map_of (kt_current w) k = Some i then v else current_value k w)"
  by (auto simp: current_value_def value_of_set_value split: option.split)

lemma current_value_retired [simp]: "current_value k (set_retired i b w) = current_value k w"
  by (cases "i < length (kt_heap w)") (auto simp: current_value_def set_retired_def list_update_beyond nth_list_update split: option.split)

lemma current_value_open: "totals_ok w \<Longrightarrow> current_value k (open_counter k' w) = current_value k w"
  by (auto simp: current_value_def open_counter_def new_counter_def has_key_def go_map totals_ok_def counters_ok_def nth_append split: option.split)

lemma target_current:
  "totals_ok w \<Longrightarrow> kt_lock w = Retire (e # rest) st \<Longrightarrow> retire_target st = Some i \<Longrightarrow> map_of (kt_current w) (fst e) = Some i"
  by (auto simp: totals_ok_def)

lemma current_inj: "totals_ok w \<Longrightarrow> map_of (kt_current w) k = Some i \<Longrightarrow> map_of (kt_current w) k' = Some i \<Longrightarrow> k' = k"
  unfolding totals_ok_def counters_ok_def by metis

lemma reactivated_not_current:
  "totals_ok w \<Longrightarrow> kt_lock w = Reactivate c st \<Longrightarrow> st \<noteq> ReCheck \<Longrightarrow> map_of (kt_current w) k \<noteq> Some (ac_counter (kt_calls w ! c))"
  by (auto simp: totals_ok_def counters_ok_def)

context traffic_side
begin

lemma grows:
  assumes "0 \<le> sint (side p)" "0 \<le> sint (side (v + p))"
  shows "sint (side v) \<le> sint (side (v + p))"
  using sint_diff_nonneg [OF assms] assms by (simp add: side_add)

lemma shown_add:
  assumes tok: "totals_ok w" and calls: "calls_ok side (kt_calls w)" and c: "c < length (kt_calls w)"
    and ok: "ledger_ok side w" and ok': "ledger_ok side (add_step c w)"
  shows "shown side k w \<le> shown side k (add_step c w)"
proof (cases "ac_stage (kt_calls w ! c)")
  case Adding
  define i where "i = ac_counter (kt_calls w ! c)"
  define amt where "amt = ac_amount (kt_calls w ! c)"
  have i: "i < length (kt_heap w)" using tok c by (simp add: totals_ok_def calls_in_range_def i_def)
  have step: "add_step c w = set_add_stage c Checking ((set_value i (value_of w i + amt) w)\<lparr>kt_log := kt_log w @ [(ut_key (kt_heap w ! i), amt)]\<rparr>)"
    by (simp add: add_step_def Let_def Adding i_def amt_def)
  have new: "0 \<le> sint (side (value_of w i + amt))"
    using values_ok_at [of side "kt_heap (add_step c w)" i] ok' i by (simp add: ledger_ok_def step heap_set_value)
  have old: "0 \<le> sint (side (value_of w i))" "0 \<le> sint (side amt)"
    using values_ok_at [of side "kt_heap w" i] ok i calls c by (simp_all add: ledger_ok_def calls_ok_def amt_def)
  have "sint (side (value_of w i)) \<le> sint (side (value_of w i + amt))" by (rule grows [OF old(2) new])
  then show ?thesis unfolding step shown_def using i
    by (simp add: current_value_set) (simp add: current_value_def)
qed (simp_all add: add_step_def Let_def shown_def)

lemma shown_open: "totals_ok w \<Longrightarrow> shown side k (open_counter k' w) = shown side k w"
  by (simp add: shown_def current_value_open)

lemma shown_reactivate:
  assumes tok: "totals_ok w" and ok: "ledger_ok side w" and lock: "kt_lock w = Reactivate c st"
    and bound: "\<And>k. side_total side k (kt_log w) < 2 ^ 63"
  shows "shown side k w \<le> shown side k (reactivate_step c st w)"
proof -
  have ok': "ledger_ok side (reactivate_step c st w)" by (rule ledger_reactivate [OF ok tok lock bound])
  define i where "i = ac_counter (kt_calls w ! c)"
  have i: "i < length (kt_heap w)" using reactivated_at [OF tok lock] by (simp add: i_def)
  have away: "map_of (kt_current w) k \<noteq> Some i" if "st \<noteq> ReCheck"
    using reactivated_not_current [OF tok lock that] by (simp add: i_def)
  have vals: "0 \<le> sint (side (value_of (reactivate_step c st w) j))" if "j < length (kt_heap w)" "length (kt_heap (reactivate_step c st w)) = length (kt_heap w)" for j
    using values_ok_at [of side "kt_heap (reactivate_step c st w)" j] ok' that by (simp add: ledger_ok_def)
  have hand: "amounts_ok side (hand w)" using ok by (simp add: ledger_ok_def)
  note unfolded = reactivate_step_def Let_def i_def [symmetric] shown_def
  show ?thesis
  proof (cases st)
    case (ReAddUp j h)
    have j: "j < length (kt_heap w)" using reactivate_target_at(1) [OF tok, of c j h] lock ReAddUp by simp
    have "sint (side (value_of w j)) \<le> sint (side (value_of w j + Traffic (up h) 0))"
      by (rule grows) (use vals [OF j] j side_nonneg [of h] hand lock in \<open>simp_all add: ReAddUp reactivate_step_def heap_set_value\<close>)
    then show ?thesis using j by (simp add: unfolded ReAddUp lock current_value_set) (simp add: current_value_def)
  next
    case (ReAddDown j h)
    have j: "j < length (kt_heap w)" using reactivate_target_at(1) [OF tok, of c j h] lock ReAddDown by simp
    have "sint (side (value_of w j)) \<le> sint (side (value_of w j + h))"
      by (rule grows) (use vals [OF j] j hand lock in \<open>simp_all add: ReAddDown reactivate_step_def leave_reactivate_def heap_set_value\<close>)
    then show ?thesis using j
      by (simp add: unfolded ReAddDown lock current_value_set leave_reactivate_def) (simp add: current_value_def)
  qed (use i away lock tok in \<open>simp_all add: unfolded current_value_set current_value_open leave_reactivate_def\<close>)
qed

lemma shown_retire:
  assumes tok: "totals_ok w" and ok: "ledger_ok side w" and lock: "kt_lock w = Retire todo st"
    and bound: "\<And>k. side_total side k (kt_log w) < 2 ^ 63" and k: "k \<notin> fst ` set (settling (kt_lock w))"
  shows "shown side k w \<le> shown side k (retire_step todo st w)"
proof (cases todo)
  case Nil
  then show ?thesis using lock by (simp add: retire_step_def shown_def)
next
  case (Cons e rest)
  have lock': "kt_lock w = Retire (e # rest) st" using lock Cons by simp
  have at: "i < length (kt_heap w)" "map_of (kt_current w) (fst e) = Some i" if "retire_target st = Some i" for i
    using retire_target_at(1) [OF tok lock' that] target_current [OF tok lock' that] by simp_all
  have only: "(map_of (kt_current w) k = Some i) = (k = fst e)" if "retire_target st = Some i" for i
    using at [OF that] current_inj [OF tok, of "fst e" i k] by auto
  have vals: "values_ok side (kt_heap w)" "amounts_ok side (hand w)" using ok by (simp_all add: ledger_ok_def)
  have half: "half_moved st" using tok lock by (simp add: totals_ok_def)
  have here: "current_value (fst e) w = value_of w i" if "retire_target st = Some i" for i
    using at(2) [OF that] by (simp add: current_value_def)
  note unfolded = retire_step_def Cons Let_def shown_def
  show ?thesis
  proof (cases st)
    case RtNext
    then show ?thesis using lock by (cases e) (simp add: unfolded split: option.split)
  next
    case (RtUp i)
    then show ?thesis using at [of i] only [of i] here [of i] lock side_whole [of "value_of w i"]
      by (cases e) (auto simp: unfolded current_value_set)
  next
    case (RtDown i h)
    then show ?thesis using at [of i] only [of i] here [of i] lock side_whole [of "value_of w i"] half
      by (cases e) (auto simp: unfolded current_value_set side_up)
  next
    case (RtCompare i h)
    have "current_value k (w\<lparr>kt_lock := Retire rest RtNext, kt_current := AList.delete (fst e) (kt_current w), kt_settled := xs\<rparr>) =
      current_value k w" if "k \<noteq> fst e" for xs using that by (simp add: current_value_def go_map split: option.split)
    then show ?thesis using k lock RtCompare Cons
      by (cases e) (auto simp: unfolded)
  next
    case (RtBackUp i h)
    have part: "0 \<le> sint (side (Traffic (up h) 0))" "sint (side (Traffic (up h) 0)) \<le> sint (side h)"
      using side_nonneg [of h] side_whole [of h] vals(2) lock' RtBackUp by simp_all
    have "sint (side (value_of w i + Traffic (up h) 0)) = sint (side (value_of w i)) + sint (side (Traffic (up h) 0))"
      by (rule room [OF ok _ bound _ part]) (use at [of i] lock' RtBackUp retire_target_at [OF tok lock'] in simp_all)
    then show ?thesis using RtBackUp at [of i] only [of i] here [of i] lock side_whole [of h]
      by (cases e) (auto simp: unfolded current_value_set)
  next
    case (RtBackDown i h)
    have "sint (side (value_of w i + h)) = sint (side (value_of w i)) + sint (side h)"
      by (rule room [OF ok _ bound, where h = h]) (use at [of i] lock' RtBackDown retire_target_at [OF tok lock'] vals(2) in simp_all)
    then show ?thesis using RtBackDown at [of i] only [of i] here [of i] lock
      by (cases e) (auto simp: unfolded current_value_set)
  next
    case (RtUnmark i)
    then show ?thesis using lock by (cases e) (simp add: unfolded)
  qed
qed

text \<open>No step makes a counter show less, except the one that retires it.\<close>

lemma shown_step:
  assumes "totals_ok w" "calls_ok side (kt_calls w)" "ledger_ok side w" "bounded side (traffic_op_step p w)"
    "k \<notin> fst ` set (settled_now p w)"
  shows "shown side k w \<le> shown side k (traffic_op_step p w)"
proof -
  have bound: "side_total side k (kt_log w) < 2 ^ 63" for k using bounded_before [OF assms(4,1,2)] by (simp add: bounded_def)
  show ?thesis
  proof (cases p)
    case (AddStep c)
    then show ?thesis using ledger_step [OF assms(1-4)] shown_add [OF assms(1,2) _ assms(3)] by auto
  next
    case (OpenRelay uid node)
    have "totals_ok (open_counter (RelayKey node) w)" if "kt_lock w = Idle" by (rule totals_ok_open [OF assms(1)]) (simp add: that)
    then show ?thesis using assms(1) by (simp add: OpenRelay relay_counters_def shown_open)
  next
    case LockStep
    have "k \<notin> fst ` set (settling (kt_lock w))" using assms(5) by (simp add: LockStep settled_now_def)
    then show ?thesis using assms bound
      by (cases "kt_lock w") (simp_all add: LockStep lock_step_def shown_retire shown_reactivate)
  qed (use assms(1) in \<open>simp_all add: shown_open\<close>, simp_all add: shown_def)
qed

text \<open>What was retired and what is shown are never more than what was counted.\<close>

lemma shown_le:
  assumes "totals_ok w" "ledger_ok side w"
  shows "side_total side k (kt_settled w) + shown side k w \<le> side_total side k (kt_log w)"
proof -
  have "sint (side (current_value k w)) \<le> heap_total side k (kt_heap w)"
  proof (cases "map_of (kt_current w) k")
    case None
    then show ?thesis using assms heap_total_nonneg [of side "kt_heap w" k] by (simp add: current_value_def ledger_ok_def)
  next
    case (Some i)
    then have "i < length (kt_heap w)" "ut_key (kt_heap w ! i) = k" using assms(1) by (auto simp: totals_ok_def counters_ok_def)
    then show ?thesis using Some assms(2) heap_total_at [of side "kt_heap w" i] by (simp add: current_value_def ledger_ok_def)
  qed
  moreover have "side_total side k (held_back (kt_lock w)) \<le> side_total side k (hand w)"
  proof (cases "held_back (kt_lock w) = []")
    case True
    then show ?thesis using assms(2) total_nonneg [of side "hand w" k] by (simp add: ledger_ok_def)
  next
    case False
    then have "held_back (kt_lock w) = hand w" by (cases "kt_lock w" rule: held_back.cases) simp_all
    then show ?thesis by simp
  qed
  ultimately show ?thesis using assms(2) by (simp add: shown_def ledger_ok_def)
qed

end

section \<open>The books of the tracker and of the counters\<close>

abbreviation users_of :: "(ledger_key \<times> traffic) list \<Rightarrow> (int \<times> traffic) list" where
  "users_of xs \<equiv> tc_users (removed_counters xs)"

definition key_sum :: "'k \<Rightarrow> ('k \<times> traffic) list \<Rightarrow> traffic" where
  "key_sum k xs = (\<Sum>(k', v) \<leftarrow> xs. if k' = k then v else 0)"

definition billed :: "int \<Rightarrow> billing \<Rightarrow> traffic" where
  "billed u b = amount (pending_traffic (bl_tracker b)) u + key_sum u (bl_taken b)"

text \<open>How many retired counters the tracker has forgotten, and those it has not.\<close>

definition forgotten :: "billing \<Rightarrow> nat" where
  "forgotten b = (case bl_sampler b of Retiring n \<Rightarrow> n | _ \<Rightarrow> length (kt_settled (bl_kernel b)))"

definition in_progress :: "billing \<Rightarrow> (ledger_key \<times> traffic) list" where
  "in_progress b = drop (forgotten b) (kt_settled (bl_kernel b))"

fun lock_todo :: "totals_lock \<Rightarrow> (ledger_key \<times> traffic) list" where
  "lock_todo (Retire todo st) = todo"
| "lock_todo _ = []"

definition books_ok :: "billing \<Rightarrow> bool" where
  "books_ok b \<longleftrightarrow> tracker_good (bl_tracker b) \<and> forgotten b \<le> length (kt_settled (bl_kernel b)) \<and>
     (holds_retire (kt_lock (bl_kernel b)) \<longrightarrow> \<not> tracker_free b) \<and>
     distinct (map fst (users_of (in_progress b @ lock_todo (kt_lock (bl_kernel b))))) \<and>
     (\<forall>(u, v) \<in> set (users_of (in_progress b @ lock_todo (kt_lock (bl_kernel b)))). amount (last_seen (bl_tracker b)) u = v)"

definition seen_ok :: "(traffic \<Rightarrow> i64) \<Rightarrow> billing \<Rightarrow> bool" where
  "seen_ok side b \<longleftrightarrow> (\<forall>u. u \<notin> fst ` set (users_of (in_progress b)) \<longrightarrow>
     0 \<le> sint (side (amount (last_seen (bl_tracker b)) u)) \<and>
     sint (side (amount (last_seen (bl_tracker b)) u)) \<le> shown side (UserKey u) (bl_kernel b))"

definition sample_ok :: "(traffic \<Rightarrow> i64) \<Rightarrow> billing \<Rightarrow> bool" where
  "sample_ok side b \<longleftrightarrow> (\<forall>snap. bl_sampler b = Reading snap \<longrightarrow> distinct_keys snap \<and> (\<forall>u. has_key snap u \<longrightarrow>
     sint (side (amount (last_seen (bl_tracker b)) u)) \<le> sint (side (amount snap u)) \<and>
     sint (side (amount snap u)) \<le> shown side (UserKey u) (bl_kernel b)))"

definition settled_ok :: "billing \<Rightarrow> bool" where
  "settled_ok b \<longleftrightarrow> (\<forall>u. billed u b =
     key_sum (UserKey u) (take (forgotten b) (kt_settled (bl_kernel b))) + amount (last_seen (bl_tracker b)) u)"

definition sides_ok :: "billing \<Rightarrow> bool" where
  "sides_ok b \<longleftrightarrow> seen_ok up b \<and> seen_ok down b \<and> sample_ok up b \<and> sample_ok down b \<and> settled_ok b"

definition kernel_inv :: "kernel_traffic \<Rightarrow> bool" where
  "kernel_inv w \<longleftrightarrow> traffic_inv up w \<and> traffic_inv down w \<and> drained w"

definition both_bounded :: "kernel_traffic \<Rightarrow> bool" where
  "both_bounded w \<longleftrightarrow> bounded up w \<and> bounded down w"

definition billing_inv :: "billing \<Rightarrow> bool" where
  "billing_inv b \<longleftrightarrow> kernel_inv (bl_kernel b) \<and> books_ok b \<and> (both_bounded (bl_kernel b) \<longrightarrow> sides_ok b)"

lemma users_of_simps [simp]:
  "users_of [] = []" "users_of ((k, v) # xs) = (case k of UserKey u \<Rightarrow> [(u, v)] | _ \<Rightarrow> []) @ users_of xs"
  "users_of (xs @ ys) = users_of xs @ users_of ys"
  by (simp_all add: removed_counters_def)

lemma users_of_iff: "(u, v) \<in> set (users_of xs) \<longleftrightarrow> (UserKey u, v) \<in> set xs"
  by (induction xs) (auto split: ledger_key.splits)

lemma users_keys: "u \<in> fst ` set (users_of xs) \<longleftrightarrow> UserKey u \<in> fst ` set xs"
  by (induction xs) (auto split: ledger_key.splits)

lemma users_of_drop: "distinct (map fst (users_of (xs @ e # ys))) \<Longrightarrow> distinct (map fst (users_of (xs @ ys)))"
  "set (users_of (xs @ ys)) \<subseteq> set (users_of (xs @ e # ys))"
  by (cases e; auto split: ledger_key.splits)+

lemma key_sum_simps [simp]: "key_sum k [] = 0" "key_sum k ((k', v) # xs) = (if k' = k then v else 0) + key_sum k xs"
  "key_sum k (xs @ ys) = key_sum k xs + key_sum k ys"
  by (simp_all add: key_sum_def)

lemma key_sum_users: "key_sum (UserKey u) xs = key_sum u (users_of xs)"
  by (induction xs) (auto split: ledger_key.splits)

lemma key_sum_absent: "k \<notin> fst ` set xs \<Longrightarrow> key_sum k xs = 0"
  by (induction xs) auto

lemma key_sum_distinct: "distinct (map fst xs) \<Longrightarrow> (k, v) \<in> set xs \<Longrightarrow> key_sum k xs = v"
  by (induction xs) (auto simp: key_sum_absent rev_image_eqI)

lemma key_sum_amount: "distinct_keys m \<Longrightarrow> key_sum k m = amount m k"
  by (induction m) (auto simp: amount_Cons key_sum_absent get_or_absent has_key_iff)

lemma key_sum_minus: "key_sum k (map (\<lambda>(u, v). (u, - v)) xs) = - key_sum k xs"
  by (induction xs) auto

lemma amount_add_all_sum: "amount (add_all data m) k = amount m k + key_sum k data"
  by (induction data m rule: add_all.induct) (auto simp: go_map add.assoc)

lemma holds_retire_step: "holds_retire (kt_lock (traffic_op_step p w)) \<Longrightarrow> is_retire_start p \<or> holds_retire (kt_lock w)"
proof (cases p)
  case (AddStep c)
  assume "holds_retire (kt_lock (traffic_op_step p w))"
  then show ?thesis by (auto simp: AddStep add_step_def Let_def split: add_stage.splits if_splits)
next
  case LockStep
  assume "holds_retire (kt_lock (traffic_op_step p w))"
  then show ?thesis
    by (cases "kt_lock w") (auto simp: LockStep lock_step_def reactivate_step_def leave_reactivate_def Let_def split: reactivate_stage.splits if_splits)
qed (auto simp: relay_counters_def split: if_splits)

lemma not_holding: "\<not> holds_retire lock \<Longrightarrow> settling lock = []" "\<not> holds_retire lock \<Longrightarrow> lock_todo lock = []"
  by (cases lock; simp)+

lemma retire_todo_step:
  "settling (Retire todo st) @ lock_todo (kt_lock (retire_step todo st w)) = todo \<or>
   settling (Retire todo st) = [] \<and> (\<exists>e. todo = e # lock_todo (kt_lock (retire_step todo st w)))"
  by (cases todo; cases st; cases "map_of (kt_current w) (fst (hd todo))") (auto simp: retire_step_def Let_def)

lemma todo_step:
  assumes "\<not> is_retire_start p"
  shows "settled_now p w @ lock_todo (kt_lock (traffic_op_step p w)) = lock_todo (kt_lock w) \<or>
    settled_now p w = [] \<and> (\<exists>e. lock_todo (kt_lock w) = e # lock_todo (kt_lock (traffic_op_step p w)))"
proof (cases "holds_retire (kt_lock w)")
  case False
  then have "\<not> holds_retire (kt_lock (traffic_op_step p w))" using holds_retire_step assms by blast
  then show ?thesis using False not_holding by (simp add: settled_now_def)
next
  case True
  then obtain todo st where lock: "kt_lock w = Retire todo st" by (cases "kt_lock w") auto
  show ?thesis
  proof (cases p)
    case (AddStep c)
    then show ?thesis using lock by (auto simp: settled_now_def add_step_def Let_def split: add_stage.split)
  next
    case LockStep
    then show ?thesis using retire_todo_step [of todo st w] lock by (simp add: settled_now_def lock_step_def)
  qed (use assms lock in \<open>simp_all add: settled_now_def start_add_def\<close>)
qed

section \<open>Every step keeps the books\<close>

subsection \<open>Steps of the counters\<close>

lemma kernel_inv_parts:
  assumes "kernel_inv w"
  shows "totals_ok w" "calls_ok up (kt_calls w)" "calls_ok down (kt_calls w)"
    "both_bounded w \<Longrightarrow> ledger_ok up w" "both_bounded w \<Longrightarrow> ledger_ok down w"
  using assms by (simp_all add: kernel_inv_def traffic_inv_def both_bounded_def)

lemma kernel_inv_step: "kernel_inv w \<Longrightarrow> kernel_inv (traffic_op_step p w)"
  using upload.traffic_inv_step download.traffic_inv_step drained_step
  by (simp add: kernel_inv_def traffic_inv_def)

lemma both_bounded_before: "both_bounded (traffic_op_step p w) \<Longrightarrow> kernel_inv w \<Longrightarrow> both_bounded w"
  unfolding both_bounded_def using upload.bounded_before download.bounded_before kernel_inv_parts by blast

lemma free_settles_nothing: "books_ok b \<Longrightarrow> tracker_free b \<Longrightarrow> settled_now p (bl_kernel b) = []"
  using not_holding(1) by (auto simp: books_ok_def settled_now_def)

lemma free_nothing_in_progress: "tracker_free b \<Longrightarrow> in_progress b = []"
  by (auto simp: in_progress_def forgotten_def tracker_free_def split: sampler.splits)

lemma forgotten_kernel: "books_ok b \<Longrightarrow> forgotten (b\<lparr>bl_kernel := traffic_op_step p (bl_kernel b)\<rparr>) = forgotten b"
  using free_settles_nothing [of b p] by (auto simp: forgotten_def settled_step tracker_free_def split: sampler.splits)

lemma in_progress_kernel:
  "books_ok b \<Longrightarrow> in_progress (b\<lparr>bl_kernel := traffic_op_step p (bl_kernel b)\<rparr>) = in_progress b @ settled_now p (bl_kernel b)"
  using forgotten_kernel [of b p] by (simp add: in_progress_def settled_step books_ok_def)

lemma books_kernel:
  assumes ok: "books_ok b" and p: "\<not> is_retire_start p"
  shows "books_ok (b\<lparr>bl_kernel := traffic_op_step p (bl_kernel b)\<rparr>)"
proof -
  let ?b = "b\<lparr>bl_kernel := traffic_op_step p (bl_kernel b)\<rparr>"
  define old where "old = in_progress b @ lock_todo (kt_lock (bl_kernel b))"
  define new where "new = in_progress ?b @ lock_todo (kt_lock (bl_kernel ?b))"
  have "new = in_progress b @ settled_now p (bl_kernel b) @ lock_todo (kt_lock (bl_kernel ?b))"
    using in_progress_kernel [OF ok] by (simp add: new_def)
  then consider "new = old" | e zs where "old = in_progress b @ e # zs" "new = in_progress b @ zs"
    using todo_step [OF p, of "bl_kernel b"] by (auto simp: old_def)
  then have keys: "distinct (map fst (users_of new)) \<and> set (users_of new) \<subseteq> set (users_of old)"
  proof cases
    case 1
    then show ?thesis using ok by (simp only: books_ok_def old_def [symmetric]) simp
  next
    case (2 e zs)
    show ?thesis using ok users_of_drop [where xs = "in_progress b" and e = e and ys = zs]
      unfolding books_ok_def old_def [symmetric] 2 by blast
  qed
  have held: "holds_retire (kt_lock (bl_kernel ?b)) \<longrightarrow> \<not> tracker_free ?b"
    using ok holds_retire_step [of p "bl_kernel b"] p by (auto simp: books_ok_def tracker_free_def)
  have rest: "tracker_good (bl_tracker ?b)" "forgotten ?b \<le> length (kt_settled (bl_kernel ?b))"
    using ok forgotten_kernel [OF ok, of p] by (simp_all add: books_ok_def settled_step)
  have "\<forall>e \<in> set (users_of old). case e of (u, v) \<Rightarrow> amount (last_seen (bl_tracker ?b)) u = v"
    using ok by (simp add: books_ok_def old_def)
  then have "\<forall>e \<in> set (users_of new). case e of (u, v) \<Rightarrow> amount (last_seen (bl_tracker ?b)) u = v"
    using keys by (meson subsetD)
  then show ?thesis unfolding books_ok_def new_def [symmetric] using keys held rest by (intro conjI) simp_all
qed

context traffic_side
begin

lemma shown_kernel:
  assumes "kernel_inv w" "side = up \<or> side = down" "both_bounded (traffic_op_step p w)" "k \<notin> fst ` set (settled_now p w)"
  shows "shown side k w \<le> shown side k (traffic_op_step p w)"
  using shown_step [of w p k] kernel_inv_parts [OF assms(1)] assms both_bounded_before [OF assms(3,1)]
  by (auto simp: both_bounded_def)

lemma seen_kernel:
  assumes inv: "kernel_inv (bl_kernel b)" and books: "books_ok b" and side: "side = up \<or> side = down"
    and bound: "both_bounded (traffic_op_step p (bl_kernel b))" and ok: "seen_ok side b" "sample_ok side b"
  shows "seen_ok side (b\<lparr>bl_kernel := traffic_op_step p (bl_kernel b)\<rparr>)"
    "sample_ok side (b\<lparr>bl_kernel := traffic_op_step p (bl_kernel b)\<rparr>)"
proof -
  note mono = shown_kernel [OF inv side bound]
  show "seen_ok side (b\<lparr>bl_kernel := traffic_op_step p (bl_kernel b)\<rparr>)"
    unfolding seen_ok_def in_progress_kernel [OF books]
  proof (intro allI impI)
    fix u assume "u \<notin> fst ` set (users_of (in_progress b @ settled_now p (bl_kernel b)))"
    then have u: "u \<notin> fst ` set (users_of (in_progress b))" "UserKey u \<notin> fst ` set (settled_now p (bl_kernel b))"
      unfolding users_keys by auto
    then show "0 \<le> sint (side (amount (last_seen (bl_tracker (b\<lparr>bl_kernel := traffic_op_step p (bl_kernel b)\<rparr>))) u)) \<and>
        sint (side (amount (last_seen (bl_tracker (b\<lparr>bl_kernel := traffic_op_step p (bl_kernel b)\<rparr>))) u))
        \<le> shown side (UserKey u) (bl_kernel (b\<lparr>bl_kernel := traffic_op_step p (bl_kernel b)\<rparr>))"
      using ok(1) mono [OF u(2)] by (auto simp: seen_ok_def intro: order_trans)
  qed
  show "sample_ok side (b\<lparr>bl_kernel := traffic_op_step p (bl_kernel b)\<rparr>)"
    using ok(2) order_trans [OF _ mono] free_settles_nothing [OF books, of p]
    by (auto simp: sample_ok_def tracker_free_def)
qed

end

lemma sides_kernel:
  assumes inv: "kernel_inv (bl_kernel b)" and books: "books_ok b"
    and bound: "both_bounded (traffic_op_step p (bl_kernel b))" and ok: "sides_ok b"
  shows "sides_ok (b\<lparr>bl_kernel := traffic_op_step p (bl_kernel b)\<rparr>)"
proof -
  have "settled_ok (b\<lparr>bl_kernel := traffic_op_step p (bl_kernel b)\<rparr>)"
    using ok books forgotten_kernel [OF books, of p] by (simp add: sides_ok_def settled_ok_def books_ok_def settled_step billed_def)
  then show ?thesis using ok upload.seen_kernel [OF inv books _ bound] download.seen_kernel [OF inv books _ bound]
    by (simp add: sides_ok_def)
qed

subsection \<open>Steps of the sampling goroutine and of reports\<close>

text \<open>Changes of the tracker and of what reports took.\<close>

lemma billing_inv_tracker:
  assumes inv: "billing_inv b" and free: "tracker_free b"
    and good: "tracker_good t" and seen: "last_seen t = last_seen (bl_tracker b)"
    and sum: "\<And>u. amount (pending_traffic t) u + key_sum u xs = billed u b"
  shows "billing_inv (b\<lparr>bl_tracker := t, bl_taken := xs\<rparr>)"
proof -
  have [simp]: "in_progress (b\<lparr>bl_tracker := t, bl_taken := xs\<rparr>) = in_progress b" "forgotten (b\<lparr>bl_tracker := t, bl_taken := xs\<rparr>) = forgotten b"
    "tracker_free (b\<lparr>bl_tracker := t, bl_taken := xs\<rparr>) = tracker_free b"
    by (simp_all add: in_progress_def forgotten_def tracker_free_def split: sampler.split)
  have "billed u (b\<lparr>bl_tracker := t, bl_taken := xs\<rparr>) = billed u b" for u
    using sum [of u] by (simp add: billed_def [of u "b\<lparr>bl_tracker := t, bl_taken := xs\<rparr>"])
  then show ?thesis using inv good
    by (simp add: billing_inv_def books_ok_def sides_ok_def seen_ok_def sample_ok_def settled_ok_def seen)
qed

lemma take_report_inv: "billing_inv b \<Longrightarrow> billing_inv (billing_step TakeReport b)"
proof (cases "tracker_free b")
  case True
  assume inv: "billing_inv b"
  then have good: "tracker_good (bl_tracker b)" by (simp add: billing_inv_def books_ok_def)
  have "billing_inv (b\<lparr>bl_tracker := snd (flush_traffic (bl_tracker b)), bl_taken := bl_taken b @ fst (flush_traffic (bl_tracker b))\<rparr>)"
    by (rule billing_inv_tracker [OF inv True])
      (use good in \<open>simp_all add: flush_traffic_def tracker_good_def billed_def key_sum_amount add.commute\<close>)
  then show ?thesis using True by simp
qed simp

lemma return_report_inv: "billing_inv b \<Longrightarrow> billing_inv (billing_step (ReturnReport data) b)"
proof (cases "tracker_free b")
  case True
  assume inv: "billing_inv b"
  then have good: "tracker_good (bl_tracker b)" by (simp add: billing_inv_def books_ok_def)
  have "billing_inv (b\<lparr>bl_tracker := restore_traffic data (bl_tracker b), bl_taken := bl_taken b @ map (\<lambda>(uid, v). (uid, - v)) data\<rparr>)"
    by (rule billing_inv_tracker [OF inv True])
      (use good in \<open>simp_all add: restore_traffic_def tracker_good_def billed_def amount_add_all_sum key_sum_minus\<close>)
  then show ?thesis using True by simp
qed simp

text \<open>Changes of the sampler that leave the counters alone.\<close>

lemma billing_inv_sampler:
  assumes inv: "billing_inv b" and free: "tracker_free b" and s: "\<And>n. s \<noteq> Retiring n"
    and sample: "both_bounded (bl_kernel b) \<Longrightarrow> sample_ok up (b\<lparr>bl_sampler := s\<rparr>) \<and> sample_ok down (b\<lparr>bl_sampler := s\<rparr>)"
  shows "billing_inv (b\<lparr>bl_sampler := s\<rparr>)"
proof -
  have [simp]: "forgotten (b\<lparr>bl_sampler := s\<rparr>) = forgotten b" "tracker_free (b\<lparr>bl_sampler := s\<rparr>)"
    using s free by (auto simp: forgotten_def tracker_free_def split: sampler.splits)
  have [simp]: "in_progress (b\<lparr>bl_sampler := s\<rparr>) = in_progress b" by (simp add: in_progress_def)
  show ?thesis using inv sample free
    by (simp add: billing_inv_def books_ok_def sides_ok_def seen_ok_def settled_ok_def billed_def)
qed

lemma idle_sample_ok [simp]: "(\<And>snap. s \<noteq> Reading snap) \<Longrightarrow> sample_ok side (b\<lparr>bl_sampler := s\<rparr>)"
  by (simp add: sample_ok_def)

lemma begin_sample_inv: "billing_inv b \<Longrightarrow> billing_inv (billing_step BeginSample b)"
  using billing_inv_sampler [of b "Reading []"] by (simp add: tracker_free_def sample_ok_def has_key_def)

lemma skip_retire_inv: "billing_inv b \<Longrightarrow> billing_inv (billing_step SkipRetire b)"
  using billing_inv_sampler [of b Ready] by (simp add: tracker_free_def)

lemma load_inv: "billing_inv b \<Longrightarrow> billing_inv (billing_step (Load u) b)"
proof (cases "bl_sampler b")
  case (Reading snap)
  assume inv: "billing_inv b"
  let ?s = "Reading (load_user u (bl_kernel b) snap)"
  have free: "tracker_free b" by (simp add: tracker_free_def Reading)
  have sides: "sample_ok side (b\<lparr>bl_sampler := ?s\<rparr>)"
    if "seen_ok side b" "sample_ok side b" for side
  proof -
    have old: "distinct_keys snap" "\<And>v. has_key snap v \<Longrightarrow> sint (side (amount (last_seen (bl_tracker b)) v)) \<le> sint (side (amount snap v)) \<and>
        sint (side (amount snap v)) \<le> shown side (UserKey v) (bl_kernel b)"
      using that(2) by (simp_all add: sample_ok_def Reading)
    have here: "sint (side (amount (last_seen (bl_tracker b)) u)) \<le> sint (side (current_value (UserKey u) (bl_kernel b)))"
      "sint (side (current_value (UserKey u) (bl_kernel b))) = shown side (UserKey u) (bl_kernel b)" if "kt_lock (bl_kernel b) = Idle"
      using \<open>seen_ok side b\<close> that free_nothing_in_progress [OF free] by (simp_all add: seen_ok_def shown_def)
    show ?thesis
    proof (cases "kt_lock (bl_kernel b) = Idle \<and> \<not> has_key snap u \<and> any_positive (current_value (UserKey u) (bl_kernel b))")
      case True
      define v where "v = current_value (UserKey u) (bl_kernel b)"
      have "load_user u (bl_kernel b) snap = snap @ [(u, v)]" using True by (simp add: load_user_def Let_def v_def)
      moreover have "distinct_keys (snap @ [(u, v)])" using old(1) True by (simp add: has_key_iff)
      moreover have "has_key (snap @ [(u, v)]) k = (has_key snap k \<or> k = u)" for k by (auto simp: has_key_iff)
      moreover have "amount (snap @ [(u, v)]) k = (if has_key snap k then amount snap k else if k = u then v else 0)" for k
        by (auto simp: get_or_def has_key_def map_add_def split: option.split)
      ultimately show ?thesis using old(2) here True by (auto simp: sample_ok_def v_def)
    next
      case False
      then have "load_user u (bl_kernel b) snap = snap" by (auto simp: load_user_def Let_def)
      then show ?thesis using that(2) Reading by (simp add: sample_ok_def)
    qed
  qed
  have "billing_inv (b\<lparr>bl_sampler := ?s\<rparr>)"
    by (rule billing_inv_sampler [OF inv free]) (use inv sides in \<open>auto simp: billing_inv_def sides_ok_def\<close>)
  then show ?thesis by (simp add: Reading)
qed simp_all

lemma kernel_idle_todo: "books_ok b \<Longrightarrow> tracker_free b \<Longrightarrow> lock_todo (kt_lock (bl_kernel b)) = []"
  using not_holding(2) by (auto simp: books_ok_def)

lemma nonneg_sides: "nonneg_map m \<longleftrightarrow> (\<forall>v \<in> snd ` set m. 0 \<le> sint (up v) \<and> 0 \<le> sint (down v))"
  by (auto simp: nonneg_map_def nonneg_def)

lemma sample_entry: "distinct_keys snap \<Longrightarrow> (u, v) \<in> set snap \<Longrightarrow> has_key snap u \<and> amount snap u = v"
  by (auto simp: has_key_iff get_or_def rev_image_eqI)

lemma process_inv: "billing_inv b \<Longrightarrow> billing_inv (billing_step (Process now) b)"
proof (cases "bl_sampler b")
  case (Reading snap)
  assume inv: "billing_inv b"
  define t where "t = bl_tracker b"
  define t' where "t' = process_traffic snap [] 0 now t"
  let ?b = "b\<lparr>bl_tracker := t', bl_sampler := Processed\<rparr>"
  have free: "tracker_free b" by (simp add: tracker_free_def Reading)
  have books: "books_ok b" using inv by (simp add: billing_inv_def)
  have progress: "in_progress ?b = []" "forgotten ?b = length (kt_settled (bl_kernel b))" "forgotten b = length (kt_settled (bl_kernel b))"
    by (simp_all add: in_progress_def forgotten_def Reading)
  have books': "books_ok ?b"
    using books kernel_idle_todo [OF books free] progress process_traffic_good [of t snap "[]" 0 now]
    by (simp add: books_ok_def t'_def t_def tracker_free_def Reading)
  have "sides_ok ?b" if "both_bounded (bl_kernel b)"
  proof -
    have sides: "seen_ok up b" "seen_ok down b" "sample_ok up b" "sample_ok down b" "settled_ok b"
      using inv that by (simp_all add: billing_inv_def sides_ok_def)
    have keys: "distinct_keys snap" using sides(3) by (simp add: sample_ok_def Reading)
    have seen: "nonneg (amount (last_seen t) u)" for u
      using sides(1,2) free_nothing_in_progress [OF free] by (simp add: seen_ok_def nonneg_def t_def)
    have grown: "le_traffic (amount (last_seen t) u) (amount snap u)" if "has_key snap u" for u
      using sides(3,4) that by (simp add: sample_ok_def Reading le_traffic_def t_def)
    have above: "nonneg (amount snap u)" if "has_key snap u" for u
      using grown [OF that] seen [of u] by (auto simp: nonneg_def le_traffic_def)
    have nonneg: "nonneg_map snap" unfolding nonneg_map_def
    proof
      fix e assume "e \<in> set snap"
      then show "nonneg (snd e)" using sample_entry [OF keys, of "fst e" "snd e"] above [of "fst e"] by simp
    qed
    have last: "amount (last_seen t') u = (if has_key snap u then amount snap u else amount (last_seen t) u)" for u
      unfolding t'_def by (simp add: process_users_last_seen [OF keys])
    have pending: "amount (pending_traffic t') u = amount (pending_traffic t) u + (amount (last_seen t') u - amount (last_seen t) u)" for u
      unfolding last unfolding t'_def by (simp add: process_users_pending [OF keys nonneg] gain_def traffic_delta_le [OF seen grown])
    have seen': "seen_ok side ?b" if "seen_ok side b" "sample_ok side b" for side
      unfolding seen_ok_def progress
    proof (intro allI impI)
      fix u
      have old: "0 \<le> sint (side (amount (last_seen t) u))" "sint (side (amount (last_seen t) u)) \<le> shown side (UserKey u) (bl_kernel b)"
        using that(1) free_nothing_in_progress [OF free] by (simp_all add: seen_ok_def t_def)
      have new: "sint (side (amount (last_seen t) u)) \<le> sint (side (amount snap u))" "sint (side (amount snap u)) \<le> shown side (UserKey u) (bl_kernel b)"
        if "has_key snap u" using \<open>sample_ok side b\<close> that by (simp_all add: sample_ok_def Reading t_def)
      show "0 \<le> sint (side (amount (last_seen (bl_tracker ?b)) u)) \<and>
          sint (side (amount (last_seen (bl_tracker ?b)) u)) \<le> shown side (UserKey u) (bl_kernel ?b)"
        using old new by (cases "has_key snap u") (auto simp: last intro: order_trans)
    qed
    have "settled_ok ?b"
      using sides(5) by (simp add: settled_ok_def billed_def progress pending t_def algebra_simps)
    then show ?thesis using sides seen' by (simp add: sides_ok_def)
  qed
  then show ?thesis using inv books' by (simp add: billing_inv_def Reading t'_def t_def)
qed simp_all

lemma users_of_todo: "users_of (retire_todo keep_user keep_node busy cand) =
    filter (\<lambda>(u, v). \<not> keep_user u \<and> \<not> get_or False busy u) (tc_users cand)"
proof -
  have users: "users_of (map (\<lambda>(u, v). (UserKey u, v)) xs) = xs" for xs by (induction xs) auto
  have relay: "users_of (map (\<lambda>(n, v). (RelayKey n, v)) xs) = []" for xs by (induction xs) auto
  have inner: "users_of (map (\<lambda>(n, v). (RelayUserKey u n, v)) xs) = []" for u xs by (induction xs) auto
  have both: "users_of (concat (map (\<lambda>(u, nodes). map (\<lambda>(n, v). (RelayUserKey u n, v)) (f u nodes)) xs)) = []" for f xs
    by (induction xs) (auto simp: inner)
  show ?thesis by (simp add: retire_todo_def Let_def users relay both)
qed

lemma begin_retire_inv: "billing_inv b \<Longrightarrow> billing_inv (begin_retire users nodes busy b)"
proof (cases "bl_sampler b = Processed \<and> kt_lock (bl_kernel b) = Idle")
  case True
  assume inv: "billing_inv b"
  define p where "p = StartRetire users nodes busy (retire_candidates (bl_tracker b))"
  let ?w = "traffic_op_step p (bl_kernel b)"
  let ?b = "b\<lparr>bl_kernel := ?w, bl_sampler := Retiring (length (kt_settled (bl_kernel b)))\<rparr>"
  have books: "books_ok b" using inv by (simp add: billing_inv_def)
  have settled: "kt_settled ?w = kt_settled (bl_kernel b)" by (simp add: settled_step p_def settled_now_def)
  have progress: "in_progress ?b = []" "forgotten ?b = length (kt_settled (bl_kernel b))"
    "in_progress (b\<lparr>bl_kernel := ?w\<rparr>) = []" "forgotten (b\<lparr>bl_kernel := ?w\<rparr>) = length (kt_settled (bl_kernel b))"
    using True by (simp_all add: in_progress_def forgotten_def settled)
  have good: "tracker_good (bl_tracker b)" using books by (simp add: books_ok_def)
  then have keys: "distinct_keys (last_seen (bl_tracker b))" by (simp add: tracker_good_def)
  define todo where "todo = lock_todo (kt_lock ?w)"
  have todo: "users_of todo = filter (\<lambda>(u, v). u \<notin> set users \<and> \<not> get_or False busy u \<and> \<not> has_key (pending_traffic (bl_tracker b)) u) (last_seen (bl_tracker b))"
    using True by (auto simp: todo_def p_def users_of_todo retire_candidates_def intro!: filter_cong)
  have "distinct (map fst (users_of todo))" unfolding todo using keys by (rule distinct_map_filter)
  moreover have "\<forall>(u, v) \<in> set (users_of todo). amount (last_seen (bl_tracker b)) u = v"
    unfolding todo using keys by (auto simp: get_or_def)
  ultimately have "books_ok ?b" using good by (simp add: books_ok_def progress settled tracker_free_def todo_def)
  moreover have "sides_ok ?b" if "both_bounded ?w"
  proof -
    have "sides_ok b" using inv both_bounded_before [OF that] by (simp add: billing_inv_def)
    then have "sides_ok (b\<lparr>bl_kernel := ?w\<rparr>)" using sides_kernel [OF _ books that] inv by (simp add: billing_inv_def)
    then show ?thesis by (simp add: sides_ok_def seen_ok_def sample_ok_def settled_ok_def billed_def progress)
  qed
  ultimately have "billing_inv ?b" using inv kernel_inv_step by (simp add: billing_inv_def)
  then show ?thesis using True by (simp add: begin_retire_def p_def)
qed (auto simp: begin_retire_def)

context traffic_side
begin

lemma shown_nonneg: "totals_ok w \<Longrightarrow> ledger_ok side w \<Longrightarrow> 0 \<le> shown side k w"
proof -
  assume tok: "totals_ok w" and ok: "ledger_ok side w"
  have "0 \<le> sint (side (current_value k w))"
  proof (cases "map_of (kt_current w) k")
    case (Some i)
    then have "i < length (kt_heap w)" using tok by (simp add: totals_ok_def counters_ok_def)
    then show ?thesis using Some ok values_ok_at [of side "kt_heap w" i] by (simp add: current_value_def ledger_ok_def)
  qed (simp add: current_value_def)
  moreover have "0 \<le> side_total side k (held_back (kt_lock w))"
    using ok by (cases "kt_lock w" rule: held_back.cases) (simp_all add: ledger_ok_def)
  ultimately show ?thesis by (simp add: shown_def)
qed

end

lemma end_retire_inv: "billing_inv b \<Longrightarrow> billing_inv (end_retire b)"
proof (cases "bl_sampler b")
  case (Retiring n)
  assume inv: "billing_inv b"
  define gone where "gone = drop n (kt_settled (bl_kernel b))"
  define t' where "t' = retire_confirmed (\<lambda>_. removed_counters gone) (bl_tracker b)"
  let ?b = "b\<lparr>bl_tracker := t', bl_sampler := Ready\<rparr>"
  have books: "books_ok b" using inv by (simp add: billing_inv_def)
  have progress: "in_progress ?b = []" "forgotten ?b = length (kt_settled (bl_kernel b))" "in_progress b = gone" "forgotten b = n"
    by (simp_all add: in_progress_def forgotten_def Retiring gone_def)
  show ?thesis
  proof (cases "holds_retire (kt_lock (bl_kernel b))")
    case False
    have "\<forall>e \<in> set (users_of gone). case e of (u, v) \<Rightarrow> amount (last_seen (bl_tracker b)) u = v"
      using books by (simp add: books_ok_def progress ball_Un)
    then have same: "(u, v) \<in> set (users_of gone) \<Longrightarrow> amount (last_seen (bl_tracker b)) u = v" for u v by fastforce
    have keys: "distinct (map fst (users_of gone))" using books by (simp add: books_ok_def progress)
    have frame: "pending_traffic t' = pending_traffic (bl_tracker b)"
      and last: "amount (last_seen t') u = (if u \<in> fst ` set (users_of gone) then 0 else amount (last_seen (bl_tracker b)) u)" for u
      by (simp_all add: t'_def retire_confirmed_def Let_def amount_delete_keys)
    have good: "tracker_good t'"
      using tracker_run.step_inv [of "bl_tracker b" "OpRetire (\<lambda>_. removed_counters gone)"] books by (simp add: t'_def books_ok_def)
    have "books_ok ?b" using books good not_holding(2) [OF False] False by (simp add: books_ok_def progress tracker_free_def)
    moreover have "sides_ok ?b" if bound: "both_bounded (bl_kernel b)"
    proof -
      have sides: "seen_ok up b" "seen_ok down b" "settled_ok b" using inv bound by (simp_all add: billing_inv_def sides_ok_def)
      have "0 \<le> shown up k (bl_kernel b)" "0 \<le> shown down k (bl_kernel b)" for k
        using inv bound kernel_inv_parts [of "bl_kernel b"] upload.shown_nonneg download.shown_nonneg
        by (simp_all add: billing_inv_def)
      then have "seen_ok up ?b" "seen_ok down ?b" using sides(1,2) by (simp_all add: seen_ok_def progress last)
      moreover have "settled_ok ?b"
        unfolding settled_ok_def
      proof
        fix u
        have "key_sum (UserKey u) gone = (if u \<in> fst ` set (users_of gone) then amount (last_seen (bl_tracker b)) u else 0)"
          unfolding key_sum_users using key_sum_distinct [OF keys] same by (auto simp: key_sum_absent)
        moreover have "key_sum (UserKey u) (kt_settled (bl_kernel b)) =
            key_sum (UserKey u) (take n (kt_settled (bl_kernel b))) + key_sum (UserKey u) gone"
          unfolding gone_def by (metis append_take_drop_id key_sum_simps(3))
        ultimately show "billed u ?b = key_sum (UserKey u) (take (forgotten ?b) (kt_settled (bl_kernel ?b))) + amount (last_seen (bl_tracker ?b)) u"
          using sides(3) by (simp add: settled_ok_def billed_def progress last frame)
      qed
      ultimately show ?thesis by (simp add: sides_ok_def)
    qed
    ultimately have "billing_inv ?b" using inv by (simp add: billing_inv_def)
    then show ?thesis using False by (simp add: end_retire_def Retiring t'_def gone_def)
  qed (use inv in \<open>simp add: end_retire_def Retiring\<close>)
qed (simp_all add: end_retire_def)

lemma billing_step_inv: "billing_inv b \<Longrightarrow> billing_inv (billing_step e b)"
proof (cases e)
  case (Kernel p)
  assume inv: "billing_inv b"
  then have "billing_inv (b\<lparr>bl_kernel := traffic_op_step p (bl_kernel b)\<rparr>)" if "\<not> is_retire_start p"
    using that kernel_inv_step books_kernel sides_kernel both_bounded_before by (simp add: billing_inv_def)
  then show ?thesis using inv by (simp add: Kernel)
qed (auto intro: begin_sample_inv load_inv process_inv skip_retire_inv begin_retire_inv end_retire_inv take_report_inv return_report_inv
    simp del: billing_step.simps(2-5,8,9))

interpretation billing_runs: invariant_machine billing_step billing_inv
  by unfold_locales (rule billing_step_inv)

lemma new_billing_inv: "billing_inv (new_billing now)"
proof -
  have "kernel_inv new_traffic_totals"
    using upload.traffic_inv_new download.traffic_inv_new by (simp add: kernel_inv_def drained_def new_traffic_totals_def)
  moreover have "tracker_good (new_tracker now)" by (simp add: tracker_good_def new_tracker_def distinct_keys2_def)
  ultimately show ?thesis
    by (simp add: billing_inv_def new_billing_def books_ok_def forgotten_def in_progress_def new_traffic_totals_def sides_ok_def seen_ok_def
        sample_ok_def settled_ok_def billed_def new_tracker_def shown_def current_value_def)
qed

section \<open>What is billed is what was counted\<close>

context traffic_side
begin

lemma side_key_sum:
  "amounts_ok side xs \<Longrightarrow> side_total side k xs < 2 ^ 63 \<Longrightarrow> sint (side (key_sum k xs)) = side_total side k xs"
proof (induction xs)
  case (Cons e xs)
  have "0 \<le> side_total side k xs" using Cons.prems by (simp add: total_nonneg)
  then show ?case using Cons by (cases e) (auto simp: side_add sint_add_bounded)
qed simp

lemma billed_side:
  assumes inv: "billing_inv b" and bound: "both_bounded (bl_kernel b)" and side: "side = up \<or> side = down"
  shows "sint (side (billed u b)) =
      side_total side (UserKey u) (take (forgotten b) (kt_settled (bl_kernel b))) + sint (side (amount (last_seen (bl_tracker b)) u))"
    "sint (side (billed u b)) \<le> side_total side (UserKey u) (kt_log (bl_kernel b))"
proof -
  define w where "w = bl_kernel b"
  define n where "n = forgotten b"
  have ok: "totals_ok w" "ledger_ok side w" "side_total side (UserKey u) (kt_log w) < 2 ^ 63"
    using inv bound side kernel_inv_parts [of w] by (auto simp: billing_inv_def both_bounded_def bounded_def w_def)
  have sides: "seen_ok side b" "settled_ok b" using inv bound side by (auto simp: billing_inv_def sides_ok_def)
  have books: "books_ok b" using inv by (simp add: billing_inv_def)
  have split: "side_total side (UserKey u) (kt_settled w) = side_total side (UserKey u) (take n (kt_settled w)) + side_total side (UserKey u) (in_progress b)"
    unfolding in_progress_def n_def w_def by (metis append_take_drop_id total_simps(3))
  have "amounts_ok side (kt_settled w)" using ok(2) by (simp add: ledger_ok_def)
  then have vals: "amounts_ok side (take n (kt_settled w))" "amounts_ok side (in_progress b)"
    by (auto simp: amounts_ok_def in_progress_def w_def dest: in_set_takeD in_set_dropD)
  have log: "side_total side (UserKey u) (kt_settled w) + shown side (UserKey u) w \<le> side_total side (UserKey u) (kt_log w)"
    by (rule shown_le [OF ok(1,2)])
  have shown: "0 \<le> shown side (UserKey u) w" by (rule shown_nonneg [OF ok(1,2)])
  note nonneg = total_nonneg [OF vals(1), of "UserKey u"] total_nonneg [OF vals(2), of "UserKey u"]
  have last: "0 \<le> sint (side (amount (last_seen (bl_tracker b)) u))"
    "sint (side (amount (last_seen (bl_tracker b)) u)) \<le> side_total side (UserKey u) (in_progress b) + shown side (UserKey u) w"
  proof -
    have "0 \<le> sint (side (amount (last_seen (bl_tracker b)) u)) \<and>
        sint (side (amount (last_seen (bl_tracker b)) u)) \<le> side_total side (UserKey u) (in_progress b) + shown side (UserKey u) w"
    proof (cases "u \<in> fst ` set (users_of (in_progress b))")
      case True
      then obtain v where v: "(u, v) \<in> set (users_of (in_progress b))" by auto
      have "\<forall>e \<in> set (users_of (in_progress b)). case e of (u, v) \<Rightarrow> amount (last_seen (bl_tracker b)) u = v"
        "distinct (map fst (users_of (in_progress b)))"
        using books by (simp_all add: books_ok_def ball_Un)
      then have "amount (last_seen (bl_tracker b)) u = key_sum (UserKey u) (in_progress b)"
        unfolding key_sum_users using key_sum_distinct [OF _ v] v by auto
      then show ?thesis using side_key_sum [OF vals(2), of "UserKey u"] split nonneg log shown ok(3) by simp
    next
      case False
      then show ?thesis using sides(1) nonneg by (auto simp: seen_ok_def w_def intro: add_increasing)
    qed
    then show "0 \<le> sint (side (amount (last_seen (bl_tracker b)) u))"
      "sint (side (amount (last_seen (bl_tracker b)) u)) \<le> side_total side (UserKey u) (in_progress b) + shown side (UserKey u) w" by simp_all
  qed
  have start: "sint (side (key_sum (UserKey u) (take n (kt_settled w)))) = side_total side (UserKey u) (take n (kt_settled w))"
    by (rule side_key_sum [OF vals(1)]) (use split nonneg log shown ok(3) in simp)
  have "billed u b = key_sum (UserKey u) (take n (kt_settled w)) + amount (last_seen (bl_tracker b)) u"
    using sides(2) by (simp add: settled_ok_def n_def w_def)
  then have eq: "sint (side (billed u b)) = side_total side (UserKey u) (take n (kt_settled w)) + sint (side (amount (last_seen (bl_tracker b)) u))"
    using start last nonneg split log ok(3) by (simp add: side_add sint_add_bounded)
  then show "sint (side (billed u b)) =
      side_total side (UserKey u) (take (forgotten b) (kt_settled (bl_kernel b))) + sint (side (amount (last_seen (bl_tracker b)) u))"
    by (simp add: n_def w_def)
  show "sint (side (billed u b)) \<le> side_total side (UserKey u) (kt_log (bl_kernel b))"
    using eq last split log by (simp add: w_def)
qed

end

text \<open>One more sample of a user, by the steps of \<open>collectTraffic\<close>.\<close>

definition sample_once :: "int \<Rightarrow> int \<Rightarrow> billing \<Rightarrow> billing" where
  "sample_once u now b = fold billing_step [BeginSample, Load u, Process now] b"

lemma sample_once_value:
  fixes u :: int and b :: billing
  assumes "bl_sampler b = Ready" "kt_lock (bl_kernel b) = Idle"
  defines "v \<equiv> current_value (UserKey u) (bl_kernel b)"
  shows "bl_kernel (sample_once u now b) = bl_kernel b" "bl_sampler (sample_once u now b) = Processed"
    "amount (last_seen (bl_tracker (sample_once u now b))) u = (if any_positive v then v else amount (last_seen (bl_tracker b)) u)"
  using assms by (auto simp: sample_once_def load_user_def has_key_def v_def Let_def go_map)

context traffic_side
begin

lemma sampled_exactly:
  assumes inv: "billing_inv b" and bound: "both_bounded (bl_kernel b)" and side: "side = up \<or> side = down"
    and ready: "bl_sampler b = Ready" and rest: "at_rest (bl_kernel b)"
  shows "sint (side (billed u (sample_once u now b))) = side_total side (UserKey u) (kt_log (bl_kernel b))"
proof -
  let ?b = "sample_once u now b"
  let ?v = "current_value (UserKey u) (bl_kernel b)"
  have idle: "kt_lock (bl_kernel b) = Idle" using rest by (simp add: at_rest_def)
  note sampled = sample_once_value [OF ready idle, of u now]
  have inv': "billing_inv ?b" unfolding sample_once_def by (rule billing_runs.run_inv [OF inv])
  have "forgotten ?b = length (kt_settled (bl_kernel b))" by (simp add: forgotten_def sampled)
  moreover have "sint (side (amount (last_seen (bl_tracker ?b)) u)) = sint (side ?v)"
  proof (cases "any_positive ?v")
    case False
    have shown: "0 \<le> shown up (UserKey u) (bl_kernel b)" "0 \<le> shown down (UserKey u) (bl_kernel b)"
      using inv bound kernel_inv_parts [of "bl_kernel b"] upload.shown_nonneg download.shown_nonneg
      by (simp_all add: billing_inv_def)
    then have "?v = 0" using False by (intro not_positive_zero) (simp_all add: nonneg_def shown_def idle)
    have "seen_ok side b" using inv bound side by (auto simp: billing_inv_def sides_ok_def)
    moreover have "in_progress b = []" by (simp add: in_progress_def forgotten_def ready)
    ultimately have "0 \<le> sint (side (amount (last_seen (bl_tracker b)) u)) \<and> sint (side (amount (last_seen (bl_tracker b)) u)) \<le> sint (side ?v)"
      by (simp add: seen_ok_def shown_def idle)
    then show ?thesis using False \<open>?v = 0\<close> by (simp add: sampled)
  qed (simp add: sampled)
  moreover have "side_total side (UserKey u) (kt_log (bl_kernel b)) = side_total side (UserKey u) (kt_settled (bl_kernel b)) + sint (side ?v)"
    by (rule rest_ledger) (use inv bound side rest in \<open>auto simp: billing_inv_def kernel_inv_def both_bounded_def\<close>)
  ultimately show ?thesis using billed_side(1) [OF inv' _ side, of u] bound by (simp add: sampled)
qed

end

section \<open>Properties\<close>

text \<open>C6. Whatever the interleaving of connections, of the sampling goroutine with the retiring of
  counters, and of reports that are taken and put back, what has been handed to reports for a user plus what waits for one never
  exceeds the bytes its connections counted; and when nothing is under way in the kernel, the next sample makes
  it exactly these bytes, in both directions.\<close>

theorem connections_billed_exactly:
  fixes ops :: "billing_op list" and start :: int
  defines "b \<equiv> fold billing_step ops (new_billing start)"
  assumes "both_bounded (bl_kernel b)"
  shows "sint (up (billed u b)) \<le> side_total up (UserKey u) (kt_log (bl_kernel b)) \<and>
    sint (down (billed u b)) \<le> side_total down (UserKey u) (kt_log (bl_kernel b)) \<and>
    (bl_sampler b = Ready \<and> at_rest (bl_kernel b) \<longrightarrow>
      sint (up (billed u (sample_once u now b))) = side_total up (UserKey u) (kt_log (bl_kernel b)) \<and>
      sint (down (billed u (sample_once u now b))) = side_total down (UserKey u) (kt_log (bl_kernel b)))"
proof -
  have inv: "billing_inv b" unfolding b_def by (rule billing_runs.run_inv [OF new_billing_inv])
  show ?thesis
    using upload.billed_side(2) [OF inv assms(2)] download.billed_side(2) [OF inv assms(2)]
      upload.sampled_exactly [OF inv assms(2)] download.sampled_exactly [OF inv assms(2)] by simp
qed

text \<open>A user is sampled and reported, goes, and is retired; a connection that still holds the retired counter then adds to it.\<close>

definition late_user :: "billing_op list" where
  "late_user =
     map Kernel [OpenUser 7, Upload 0 100, AddStep 0, AddStep 0] @ [BeginSample, Load 7, Process 0, TakeReport, BeginRetire [] [] []] @
     replicate 4 (Kernel LockStep) @ map Kernel [Upload 0 5, AddStep 1] @ [Kernel LockStep, EndRetire] @ map Kernel [AddStep 1, AddStep 1] @
     replicate 6 (Kernel LockStep)"

lemma late_user_state:
  "fold billing_step late_user (new_billing 0) =
     \<lparr>bl_tracker = \<lparr>revision = 2, last_seen = [], pending_traffic = [], last_seen_relay = [], pending_relay = [], last_seen_relay_user = [],
        pending_relay_user = [], relay_alive = None, connections = None,
        live = \<lparr>snap_alive_ips = [], snap_online = [], snap_conn_count = 0, snap_in_speed = 0, snap_out_speed = 0\<rparr>, last_process = 0\<rparr>,
      bl_kernel =
        \<lparr>kt_heap = [\<lparr>ut_key = UserKey 7, ut_value = 0, ut_retired = True\<rparr>, \<lparr>ut_key = UserKey 7, ut_value = Traffic 5 0, ut_retired = False\<rparr>],
         kt_current = [(UserKey 7, 1)],
         kt_calls = [\<lparr>ac_counter = 0, ac_amount = Traffic 100 0, ac_stage = Finished\<rparr>, \<lparr>ac_counter = 0, ac_amount = Traffic 5 0, ac_stage = Finished\<rparr>],
         kt_lock = Idle, kt_log = [(UserKey 7, Traffic 100 0), (UserKey 7, Traffic 5 0)], kt_settled = [(UserKey 7, Traffic 100 0)]\<rparr>,
      bl_sampler = Ready, bl_taken = [(7, Traffic 100 0)]\<rparr>"
  by code_simp

lemma connections_billed_exactly_witness:
  "sint (up (billed 7 (sample_once 7 0 (fold billing_step late_user (new_billing 0))))) = 105"
proof -
  let ?b = "fold billing_step late_user (new_billing 0)"
  have "both_bounded (bl_kernel ?b)" "bl_sampler ?b = Ready" "at_rest (bl_kernel ?b)"
    by (simp_all add: late_user_state both_bounded_def bounded_def at_rest_def)
  then have "sint (up (billed 7 (sample_once 7 0 ?b))) = side_total up (UserKey 7) (kt_log (bl_kernel ?b))"
    using connections_billed_exactly [of late_user 0 7 0] by simp
  then show ?thesis by (simp add: late_user_state)
qed

end
