(* ===== verification/ConnTracker.thy ===== *)
theory ConnTracker
  imports Prelude
begin

text \<open>
  Model of the connection tracker of the sing-box kernel: \<open>internal/kernel/singbox/conntracker.go\<close>, the tracker part of
  \<open>relay.go\<close> beside it, and \<open>internal/kernel/relay_access.go\<close>. A connection is routed by a goroutine of its own, which is
  cut wherever it takes a lock; closing, replacing the users and forgetting a user come in between. Records of users are
  indices into a list, since a connection keeps the record it was resolved to when the map forgets it. Whether the device
  gate is enabled is settled before the kernel starts; its answers, the limits and the class of an address are arguments
  of the steps that ask for them. Bytes are the subject of the theory of the traffic counters; log lines, the report of a
  rejection and the pooled copies of address sets are left out.
\<close>

section \<open>Names of connections\<close>

definition digits36 :: string where
  "digits36 = ''0123456789abcdefghijklmnopqrstuvwxyz''"

fun digits_of :: "nat \<Rightarrow> string \<Rightarrow> string" where
  "digits_of n buf = (if n = 0 then buf else digits_of (n div 36) (digits36 ! (n mod 36) # buf))"

declare digits_of.simps [simp del]

definition format_int36 :: "nat \<Rightarrow> string" where
  "format_int36 n = (if n = 0 then ''0'' else digits_of n [])"

definition conn_name :: "nat \<Rightarrow> string" where
  "conn_name n = ''sb-'' @ format_int36 n"

section \<open>State\<close>

text \<open>\<open>userStats\<close>; \<open>ul_admitting\<close> is the connection that holds \<open>admissionMu\<close>.\<close>

record user_load =
  ul_conns :: int
  ul_pending :: int
  ul_ips :: "(string, int) go_map"
  ul_admitting :: "nat option"

datatype conn_stage =
    Resolving
  | CheckingDevice
  | CheckingConn
  | Acquiring
  | Settling bool
  | Tracking
  | Mapping
  | Registering
  | Running
  | Refused

text \<open>The sections of \<open>Close\<close> after the flag \<open>closed\<close> was set.\<close>

datatype close_stage = Opened | Uncount | Unsource | Unregister | Unmap | Closed

record tracked_conn =
  cn_user :: string
  cn_source :: string
  cn_outbound :: "string option"
  cn_packet :: bool
  cn_uuid :: string
  cn_uid :: int
  cn_load :: "nat option"
  cn_id :: string
  cn_key :: "(int \<times> int) option"
  cn_stage :: conn_stage
  cn_closing :: close_stage

text \<open>\<open>replaceNodeUsers\<close> between its sections: what \<open>relayAccess\<close> is to allow, and the connections it still has to close.\<close>

datatype replace_stage = NoReplace | SwapAccess "string list option" | CloseRevoked "nat list"

record conn_tracker =
  ct_loads :: "user_load list"
  ct_users :: "(int, nat) go_map"
  ct_uuid_map :: "(string, int) go_map"
  ct_identities :: "(string, string) go_map"
  ct_nodes :: "(string, int) go_map"
  ct_entry :: bool
  ct_conns :: "tracked_conn list"
  ct_counter :: nat
  ct_conn_map :: "(string, nat) go_map"
  ct_allowed :: "string list option"
  ct_access :: "(string, string \<times> nat) go_map"
  ct_sources :: "(int \<times> int, (string, int) go_map) go_map"
  ct_global :: "(int, string list) go_map"
  ct_gate :: bool
  ct_replacing :: replace_stage

definition new_conn_tracker :: "bool \<Rightarrow> conn_tracker" where
  "new_conn_tracker gate =
     \<lparr>ct_loads = [], ct_users = [], ct_uuid_map = [], ct_identities = [], ct_nodes = [], ct_entry = False, ct_conns = [], ct_counter = 0,
      ct_conn_map = [], ct_allowed = None, ct_access = [], ct_sources = [], ct_global = [], ct_gate = gate, ct_replacing = NoReplace\<rparr>"

definition set_conn :: "nat \<Rightarrow> (tracked_conn \<Rightarrow> tracked_conn) \<Rightarrow> conn_tracker \<Rightarrow> conn_tracker" where
  "set_conn c f w = w\<lparr>ct_conns := (ct_conns w)[c := f (ct_conns w ! c)]\<rparr>"

definition set_load :: "nat \<Rightarrow> (user_load \<Rightarrow> user_load) \<Rightarrow> conn_tracker \<Rightarrow> conn_tracker" where
  "set_load l f w = w\<lparr>ct_loads := (ct_loads w)[l := f (ct_loads w ! l)]\<rparr>"

abbreviation go_to :: "conn_stage \<Rightarrow> nat \<Rightarrow> conn_tracker \<Rightarrow> conn_tracker" where
  "go_to st c \<equiv> set_conn c (\<lambda>cn. cn\<lparr>cn_stage := st\<rparr>)"

section \<open>Records of users\<close>

definition add_conn :: "string \<Rightarrow> user_load \<Rightarrow> user_load" where
  "add_conn ip u = u\<lparr>ul_conns := ul_conns u + 1, ul_ips := AList.update ip (get_or 0 (ul_ips u) ip + 1) (ul_ips u)\<rparr>"

definition drop_ip :: "string \<Rightarrow> (string, int) go_map \<Rightarrow> (string, int) go_map" where
  "drop_ip ip ips = (let n = get_or 0 ips ip - 1 in if n \<le> 0 then AList.delete ip ips else AList.update ip n ips)"

definition remove_conn :: "string \<Rightarrow> user_load \<Rightarrow> user_load" where
  "remove_conn ip u = u\<lparr>ul_conns := ul_conns u - 1, ul_ips := drop_ip ip (ul_ips u)\<rparr>"

definition alive_ips :: "conn_tracker \<Rightarrow> (int, string list) go_map" where
  "alive_ips w = filter (\<lambda>(uid, ips). ips \<noteq> []) (map (\<lambda>(uid, l). (uid, map fst (ul_ips (ct_loads w ! l)))) (ct_users w))"

definition active_count :: "conn_tracker \<Rightarrow> int" where
  "active_count w = (\<Sum>(uid, l) \<leftarrow> ct_users w. ul_conns (ct_loads w ! l))"

section \<open>Users of the node\<close>

text \<open>What of a node's configuration matters here; a child of an entry is its route, tag and node.\<close>

datatype relay_mode = NoRelay | Landing | Entry int "(int \<times> string \<times> int) list"

record relay_user =
  ru_id :: int
  ru_uuid :: string
  ru_routes :: "int list option"

definition allows_relay_route :: "relay_user \<Rightarrow> int \<Rightarrow> bool" where
  "allows_relay_route u route = (case ru_routes u of None \<Rightarrow> True | Some routes \<Rightarrow> route \<in> set routes)"

fun relay_route_ids :: "relay_mode \<Rightarrow> int list" where
  "relay_route_ids (Entry route children) = route # map fst children"
| "relay_route_ids _ = []"

definition is_entry :: "relay_mode \<Rightarrow> bool" where
  "is_entry mode = (case mode of Entry r ch \<Rightarrow> True | _ \<Rightarrow> False)"

text \<open>\<open>name_of\<close> is \<open>relayUserName\<close>, with its digest a parameter.\<close>

definition entry_names :: "(relay_user \<Rightarrow> int \<Rightarrow> string) \<Rightarrow> relay_mode \<Rightarrow> relay_user list \<Rightarrow> (string \<times> relay_user) list" where
  "entry_names name_of mode users =
     concat (map (\<lambda>u. map (\<lambda>r. (name_of u r, u)) (filter (allows_relay_route u) (relay_route_ids mode))) users)"

definition put_all :: "('k \<times> 'v) list \<Rightarrow> ('k, 'v) go_map" where
  "put_all xs = foldl (\<lambda>m (k, v). AList.update k v m) [] xs"

definition node_user_map :: "(relay_user \<Rightarrow> int \<Rightarrow> string) \<Rightarrow> relay_mode \<Rightarrow> relay_user list \<Rightarrow> (string, int) go_map" where
  "node_user_map name_of mode users =
     (case mode of
        NoRelay \<Rightarrow> put_all (map (\<lambda>u. (ru_uuid u, ru_id u)) users)
      | Landing \<Rightarrow> []
      | Entry r ch \<Rightarrow> put_all (map (\<lambda>(n, u). (n, ru_id u)) (entry_names name_of mode users)))"

definition node_identities :: "(relay_user \<Rightarrow> int \<Rightarrow> string) \<Rightarrow> relay_mode \<Rightarrow> relay_user list \<Rightarrow> (string, string) go_map" where
  "node_identities name_of mode users = put_all (map (\<lambda>(n, u). (n, ru_uuid u)) (entry_names name_of mode users))"

definition node_tags :: "relay_mode \<Rightarrow> (string, int) go_map" where
  "node_tags mode = (case mode of Entry r ch \<Rightarrow> put_all (map snd ch) | _ \<Rightarrow> [])"

definition ensure_user :: "int \<Rightarrow> conn_tracker \<Rightarrow> conn_tracker" where
  "ensure_user uid w =
     (if has_key (ct_users w) uid then w
      else w\<lparr>ct_users := AList.update uid (length (ct_loads w)) (ct_users w),
             ct_loads := ct_loads w @ [\<lparr>ul_conns = 0, ul_pending = 0, ul_ips = [], ul_admitting = None\<rparr>]\<rparr>)"

definition replace_users :: "(relay_user \<Rightarrow> int \<Rightarrow> string) \<Rightarrow> relay_mode \<Rightarrow> relay_user list \<Rightarrow> conn_tracker \<Rightarrow> conn_tracker" where
  "replace_users name_of mode users w =
     (let user_map = node_user_map name_of mode users in
      (fold ensure_user (map snd user_map)
         (w\<lparr>ct_uuid_map := user_map, ct_identities := node_identities name_of mode users, ct_nodes := node_tags mode, ct_entry := is_entry mode\<rparr>))
      \<lparr>ct_replacing := SwapAccess (if is_entry mode then Some (map fst user_map) else None)\<rparr>)"

text \<open>\<open>RelayAccess.Replace\<close>: what it closes is taken out under its lock and closed after it.\<close>

definition revoked_access :: "string list option \<Rightarrow> (string, string \<times> nat) go_map \<Rightarrow> (string \<times> string \<times> nat) list" where
  "revoked_access allowed access = (case allowed of None \<Rightarrow> [] | Some names \<Rightarrow> filter (\<lambda>(n, name, c). name \<notin> set names) access)"

definition replace_access :: "conn_tracker \<Rightarrow> conn_tracker" where
  "replace_access w =
     (case ct_replacing w of
        SwapAccess allowed \<Rightarrow>
          let gone = revoked_access allowed (ct_access w) in
          w\<lparr>ct_allowed := allowed, ct_access := filter (\<lambda>e. e \<notin> set gone) (ct_access w), ct_replacing := CloseRevoked (map (snd \<circ> snd) gone)\<rparr>
      | _ \<Rightarrow> w)"

text \<open>\<open>RetireTraffic\<close> forgets the record of a user without connections.\<close>

definition forget_user :: "int \<Rightarrow> conn_tracker \<Rightarrow> conn_tracker" where
  "forget_user uid w =
     (case map_of (ct_users w) uid of
        None \<Rightarrow> w
      | Some l \<Rightarrow>
          if ul_conns (ct_loads w ! l) > 0 \<or> ul_pending (ct_loads w ! l) > 0 then w
          else w\<lparr>ct_users := AList.delete uid (ct_users w)\<rparr>)"

section \<open>Routing a connection\<close>

definition resolve_user :: "nat \<Rightarrow> conn_tracker \<Rightarrow> conn_tracker" where
  "resolve_user c w =
     (let name = cn_user (ct_conns w ! c);
          uid = get_or 0 (ct_uuid_map w) name;
          w' = set_conn c (\<lambda>cn. cn\<lparr>cn_uuid := get_or name (ct_identities w) name, cn_uid := uid, cn_load := map_of (ct_users w) uid\<rparr>) w in
      if \<not> ct_entry w \<or> uid > 0 then go_to CheckingDevice c w' else go_to Refused c w')"

text \<open>\<open>checkDeviceGate\<close>: true when the connection is to be rejected. \<open>count_key\<close> is the class of an address that the
  filter counts, \<open>panel_key\<close> that of the panel's addresses, \<open>fresh\<close> whether the panel's snapshot is recent.\<close>

definition local_keys :: "(string \<Rightarrow> string) \<Rightarrow> (string, int) go_map \<Rightarrow> string set" where
  "local_keys count_key ips = {k. k \<in> set (map (count_key \<circ> fst) ips) \<and> k \<noteq> ''''}"

definition device_rejected ::
  "(string \<Rightarrow> string) \<Rightarrow> (string \<Rightarrow> string) \<Rightarrow> bool \<Rightarrow> int \<Rightarrow> string \<Rightarrow> (string, int) go_map \<Rightarrow> string list option \<Rightarrow> bool" where
  "device_rejected count_key panel_key fresh limit source ips global =
     (let key = count_key source; here = local_keys count_key ips in
      if limit \<le> 0 \<or> key = '''' then False
      else if key \<in> here then False
      else case (if fresh then global else None) of
        None \<Rightarrow> \<not> int (card here) < limit
      | Some known \<Rightarrow>
          if key \<in> set known then False
          else \<not> int (card (here \<union> {k. k \<in> set (map panel_key known) \<and> k \<noteq> ''''})) < limit)"

definition check_device ::
  "(string \<Rightarrow> int option) \<Rightarrow> (string \<Rightarrow> string) \<Rightarrow> (string \<Rightarrow> string) \<Rightarrow> bool \<Rightarrow> nat \<Rightarrow> conn_tracker \<Rightarrow> conn_tracker" where
  "check_device device_limit count_key panel_key fresh c w =
     (let cn = ct_conns w ! c in
      case cn_load cn of
        None \<Rightarrow> go_to CheckingConn c w
      | Some l \<Rightarrow>
          if ul_admitting (ct_loads w ! l) \<noteq> None then w
          else case (if ct_gate w then None else device_limit (cn_uuid cn)) of
            None \<Rightarrow> go_to CheckingConn c (set_load l (\<lambda>u. u\<lparr>ul_admitting := Some c\<rparr>) w)
          | Some limit \<Rightarrow>
              if device_rejected count_key panel_key fresh limit (cn_source cn) (ul_ips (ct_loads w ! l)) (map_of (ct_global w) (cn_uid cn))
              then go_to Refused c w
              else go_to CheckingConn c (set_load l (\<lambda>u. u\<lparr>ul_admitting := Some c\<rparr>) w))"

text \<open>\<open>checkConnGate\<close>: none of the limiter's answers when there is no limiter, else the limit of concurrent connections
  and whether a token for a new one was to be had.\<close>

definition conn_rejected :: "((int \<Rightarrow> int option) \<times> (int \<Rightarrow> bool)) option \<Rightarrow> int \<Rightarrow> user_load option \<Rightarrow> bool" where
  "conn_rejected limiter uid load =
     (case limiter of
        None \<Rightarrow> False
      | Some (max_conn, allow_new) \<Rightarrow>
          uid > 0 \<and>
          ((case (max_conn uid, load) of (Some limit, Some u) \<Rightarrow> ul_conns u + ul_pending u \<ge> limit | _ \<Rightarrow> False) \<or> \<not> allow_new uid))"

definition check_conn :: "((int \<Rightarrow> int option) \<times> (int \<Rightarrow> bool)) option \<Rightarrow> nat \<Rightarrow> conn_tracker \<Rightarrow> conn_tracker" where
  "check_conn limiter c w =
     (let cn = ct_conns w ! c; admitted = (if ct_gate w then Acquiring else Tracking) in
      case cn_load cn of
        None \<Rightarrow> go_to (if conn_rejected limiter (cn_uid cn) None then Refused else admitted) c w
      | Some l \<Rightarrow>
          if conn_rejected limiter (cn_uid cn) (Some (ct_loads w ! l))
          then go_to Refused c (set_load l (\<lambda>u. u\<lparr>ul_admitting := None\<rparr>) w)
          else go_to admitted c (set_load l (\<lambda>u.
            (if ct_gate w then u\<lparr>ul_pending := ul_pending u + 1\<rparr> else add_conn (cn_source cn) u)\<lparr>ul_admitting := None\<rparr>) w))"

text \<open>\<open>acquireDevice\<close>, after the gate has answered and once the map still has the record.\<close>

definition acquire_result :: "bool \<Rightarrow> nat \<Rightarrow> conn_tracker \<Rightarrow> conn_tracker" where
  "acquire_result granted c w =
     (let cn = ct_conns w ! c in
      go_to (Settling (granted \<and> (case cn_load cn of None \<Rightarrow> True | Some l \<Rightarrow> map_of (ct_users w) (cn_uid cn) = Some l))) c w)"

definition settle_device :: "bool \<Rightarrow> nat \<Rightarrow> conn_tracker \<Rightarrow> conn_tracker" where
  "settle_device ok c w =
     (let cn = ct_conns w ! c;
          w' = (case cn_load cn of
                  None \<Rightarrow> w
                | Some l \<Rightarrow> set_load l (\<lambda>u. let u' = u\<lparr>ul_pending := ul_pending u - 1\<rparr> in if ok then add_conn (cn_source cn) u' else u') w) in
      go_to (if ok then Tracking else Refused) c w')"

text \<open>The number of the connection and \<open>trackRelaySource\<close>.\<close>

definition count_source :: "int \<times> int \<Rightarrow> string \<Rightarrow> conn_tracker \<Rightarrow> conn_tracker" where
  "count_source key ip w =
     (let ips = get_or [] (ct_sources w) key in
      w\<lparr>ct_sources := AList.update key (AList.update ip (get_or 0 ips ip + 1) ips) (ct_sources w)\<rparr>)"

definition uncount_source :: "int \<times> int \<Rightarrow> string \<Rightarrow> conn_tracker \<Rightarrow> conn_tracker" where
  "uncount_source key ip w =
     (case map_of (ct_sources w) key of
        None \<Rightarrow> w
      | Some ips \<Rightarrow>
          let left = drop_ip ip ips in
          w\<lparr>ct_sources := (if left = [] then AList.delete key (ct_sources w) else AList.update key left (ct_sources w))\<rparr>)"

definition outbound_node :: "conn_tracker \<Rightarrow> string option \<Rightarrow> int" where
  "outbound_node w outbound = (case outbound of None \<Rightarrow> 0 | Some tag \<Rightarrow> get_or 0 (ct_nodes w) tag)"

definition track_source :: "nat \<Rightarrow> conn_tracker \<Rightarrow> conn_tracker" where
  "track_source c w =
     (let cn = ct_conns w ! c;
          n = Suc (ct_counter w);
          key = (cn_uid cn, outbound_node w (cn_outbound cn));
          next = (if cn_packet cn then Registering else Mapping) in
      if cn_uid cn > 0 \<and> ct_entry w
      then count_source key (cn_source cn) (set_conn c (\<lambda>cn. cn\<lparr>cn_id := conn_name n, cn_key := Some key, cn_stage := next\<rparr>) (w\<lparr>ct_counter := n\<rparr>))
      else set_conn c (\<lambda>cn. cn\<lparr>cn_id := conn_name n, cn_stage := next\<rparr>) (w\<lparr>ct_counter := n\<rparr>))"

definition map_conn :: "nat \<Rightarrow> conn_tracker \<Rightarrow> conn_tracker" where
  "map_conn c w = go_to Registering c (w\<lparr>ct_conn_map := AList.update (cn_id (ct_conns w ! c)) c (ct_conn_map w)\<rparr>)"

section \<open>Closing\<close>

definition close_conn :: "nat \<Rightarrow> conn_tracker \<Rightarrow> conn_tracker" where
  "close_conn c w = (if cn_closing (ct_conns w ! c) = Opened then set_conn c (\<lambda>cn. cn\<lparr>cn_closing := Uncount\<rparr>) w else w)"

definition close_step :: "nat \<Rightarrow> conn_tracker \<Rightarrow> conn_tracker" where
  "close_step c w =
     (let cn = ct_conns w ! c; next = (\<lambda>st. set_conn c (\<lambda>cn. cn\<lparr>cn_closing := st\<rparr>)) in
      case cn_closing cn of
        Opened \<Rightarrow> w
      | Uncount \<Rightarrow> next Unsource (case cn_load cn of None \<Rightarrow> w | Some l \<Rightarrow> set_load l (remove_conn (cn_source cn)) w)
      | Unsource \<Rightarrow> next Unregister (case cn_key cn of None \<Rightarrow> w | Some key \<Rightarrow> uncount_source key (cn_source cn) w)
      | Unregister \<Rightarrow> next Unmap (w\<lparr>ct_access := AList.delete (cn_id cn) (ct_access w)\<rparr>)
      | Unmap \<Rightarrow> next Closed (w\<lparr>ct_conn_map := AList.delete (cn_id cn) (ct_conn_map w)\<rparr>)
      | Closed \<Rightarrow> w)"

text \<open>\<open>RelayAccess.Register\<close> and what follows a refusal.\<close>

definition register_conn :: "nat \<Rightarrow> conn_tracker \<Rightarrow> conn_tracker" where
  "register_conn c w =
     (let cn = ct_conns w ! c in
      go_to Running c
        (case ct_allowed w of
           None \<Rightarrow> w
         | Some names \<Rightarrow>
             if cn_user cn \<in> set names then w\<lparr>ct_access := AList.update (cn_id cn) (cn_user cn, c) (ct_access w)\<rparr>
             else close_conn c w))"

section \<open>All steps\<close>

datatype conn_op =
    Arrive string string "string option" bool
  | Resolve nat
  | CheckDevice nat "string \<Rightarrow> int option" "string \<Rightarrow> string" "string \<Rightarrow> string" bool
  | CheckConn nat "((int \<Rightarrow> int option) \<times> (int \<Rightarrow> bool)) option"
  | AcquireResult nat bool
  | Proceed nat
  | CloseConn nat
  | CloseStep nat
  | CloseById string
  | ReplaceUsers "relay_user \<Rightarrow> int \<Rightarrow> string" relay_mode "relay_user list"
  | ReplaceAccess
  | CloseNext
  | ForgetUser int
  | GlobalDevices "(int, string list) go_map"

definition arrive :: "string \<Rightarrow> string \<Rightarrow> string option \<Rightarrow> bool \<Rightarrow> conn_tracker \<Rightarrow> conn_tracker" where
  "arrive name source outbound packet w =
     w\<lparr>ct_conns := ct_conns w @ [\<lparr>cn_user = name, cn_source = source, cn_outbound = outbound, cn_packet = packet, cn_uuid = name, cn_uid = 0,
        cn_load = None, cn_id = '''', cn_key = None, cn_stage = Resolving, cn_closing = Opened\<rparr>]\<rparr>"

definition proceed :: "nat \<Rightarrow> conn_tracker \<Rightarrow> conn_tracker" where
  "proceed c w =
     (case cn_stage (ct_conns w ! c) of
        Settling ok \<Rightarrow> settle_device ok c w
      | Tracking \<Rightarrow> track_source c w
      | Mapping \<Rightarrow> map_conn c w
      | Registering \<Rightarrow> register_conn c w
      | _ \<Rightarrow> w)"

text \<open>A connection can be closed once it was handed out: to its router and its permit, or by its name in \<open>connMap\<close>.\<close>

fun conn_step :: "conn_op \<Rightarrow> conn_tracker \<Rightarrow> conn_tracker" where
  "conn_step (Arrive name source outbound packet) w = arrive name source outbound packet w"
| "conn_step (Resolve c) w = (if c < length (ct_conns w) \<and> cn_stage (ct_conns w ! c) = Resolving then resolve_user c w else w)"
| "conn_step (CheckDevice c device_limit count_key panel_key fresh) w =
     (if c < length (ct_conns w) \<and> cn_stage (ct_conns w ! c) = CheckingDevice then check_device device_limit count_key panel_key fresh c w else w)"
| "conn_step (CheckConn c limiter) w =
     (if c < length (ct_conns w) \<and> cn_stage (ct_conns w ! c) = CheckingConn then check_conn limiter c w else w)"
| "conn_step (AcquireResult c granted) w =
     (if c < length (ct_conns w) \<and> cn_stage (ct_conns w ! c) = Acquiring then acquire_result granted c w else w)"
| "conn_step (Proceed c) w = (if c < length (ct_conns w) then proceed c w else w)"
| "conn_step (CloseConn c) w = (if c < length (ct_conns w) \<and> cn_stage (ct_conns w ! c) = Running then close_conn c w else w)"
| "conn_step (CloseStep c) w = (if c < length (ct_conns w) then close_step c w else w)"
| "conn_step (CloseById name) w = (case map_of (ct_conn_map w) name of None \<Rightarrow> w | Some c \<Rightarrow> close_conn c w)"
| "conn_step (ReplaceUsers name_of mode users) w = (if ct_replacing w = NoReplace then replace_users name_of mode users w else w)"
| "conn_step ReplaceAccess w = replace_access w"
| "conn_step CloseNext w =
     (case ct_replacing w of
        CloseRevoked [] \<Rightarrow> w\<lparr>ct_replacing := NoReplace\<rparr>
      | CloseRevoked (c # rest) \<Rightarrow> (close_conn c w)\<lparr>ct_replacing := CloseRevoked rest\<rparr>
      | _ \<Rightarrow> w)"
| "conn_step (ForgetUser uid) w = forget_user uid w"
| "conn_step (GlobalDevices global) w = w\<lparr>ct_global := global\<rparr>"

definition conn_run :: "bool \<Rightarrow> conn_op list \<Rightarrow> conn_tracker" where
  "conn_run gate ops = fold conn_step ops (new_conn_tracker gate)"

section \<open>Names are distinct\<close>

definition digit_value :: "char \<Rightarrow> nat" where
  "digit_value d = length (takeWhile (\<lambda>x. x \<noteq> d) digits36)"

definition value36 :: "string \<Rightarrow> nat" where
  "value36 s = foldl (\<lambda>v d. v * 36 + digit_value d) 0 s"

lemma digit_values: "list_all (\<lambda>k. digit_value (digits36 ! k) = k) [0..<36]"
  by code_simp

lemma digit_value_nth: "k < 36 \<Longrightarrow> digit_value (digits36 ! k) = k"
  using digit_values by (simp add: list_all_iff)

lemma digits_of_buf: "digits_of n buf = digits_of n [] @ buf"
proof (induction n arbitrary: buf rule: less_induct)
  case (less n)
  show ?case
  proof (cases "n = 0")
    case False
    then have "digits_of (n div 36) b = digits_of (n div 36) [] @ b" for b by (intro less.IH) simp
    from this [of "digits36 ! (n mod 36) # buf"] this [of "[digits36 ! (n mod 36)]"] False
    show ?thesis by (simp add: digits_of.simps [of n])
  qed (simp add: digits_of.simps)
qed

lemma value_digits: "value36 (digits_of n []) = n"
proof (induction n rule: less_induct)
  case (less n)
  show ?case
  proof (cases "n = 0")
    case False
    have "value36 (digits_of n []) = value36 (digits_of (n div 36) []) * 36 + digit_value (digits36 ! (n mod 36))"
      using False digits_of_buf [of "n div 36" "[digits36 ! (n mod 36)]"] by (simp add: digits_of.simps [of n] value36_def)
    then show ?thesis using less [of "n div 36"] False by (simp add: digit_value_nth)
  qed (simp add: digits_of.simps value36_def)
qed

lemma value_format: "value36 (format_int36 n) = n"
proof (cases "n = 0")
  case True
  have "value36 ''0'' = 0" by code_simp
  then show ?thesis using True by (simp add: format_int36_def)
qed (simp add: format_int36_def value_digits)

lemma conn_name_inj: "conn_name m = conn_name n \<longleftrightarrow> m = n"
  by (metis conn_name_def append_same_eq same_append_eq value_format)

section \<open>Counting\<close>

definition tally :: "('a \<Rightarrow> bool) \<Rightarrow> 'a list \<Rightarrow> int" where
  "tally P xs = (\<Sum>x \<leftarrow> xs. of_bool (P x))"

lemma tally_simps [simp]: "tally P [] = 0" "tally P (x # xs) = of_bool (P x) + tally P xs" "tally P (xs @ ys) = tally P xs + tally P ys"
  by (simp_all add: tally_def)

lemma tally_update: "c < length xs \<Longrightarrow> tally P (xs[c := x]) = tally P xs - of_bool (P (xs ! c)) + of_bool (P x)"
  by (induction xs arbitrary: c) (auto split: nat.split)

lemma tally_nonneg [simp]: "0 \<le> tally P xs"
  by (induction xs) simp_all

lemma tally_pos: "c < length xs \<Longrightarrow> P (xs ! c) \<Longrightarrow> 1 \<le> tally P xs"
  by (induction xs arbitrary: c) (auto split: nat.splits simp: less_Suc_eq_0_disj add_increasing)

lemma tally_split: "(\<And>x. \<not> (P x \<and> Q x)) \<Longrightarrow> tally (\<lambda>x. P x \<or> Q x) xs = tally P xs + tally Q xs"
  by (induction xs) (auto simp: of_bool_def)

text \<open>A map of reference counts.\<close>

definition counts_of :: "('k, int) go_map \<Rightarrow> ('k \<Rightarrow> int) \<Rightarrow> bool" where
  "counts_of m f \<longleftrightarrow> (\<forall>k. map_of m k = (if f k = 0 then None else Some (f k)))"

lemma counts_of_add:
  "counts_of m f \<Longrightarrow> 0 \<le> f k \<Longrightarrow> counts_of (AList.update k (get_or 0 m k + 1) m) (\<lambda>j. f j + of_bool (j = k))"
  by (auto simp: counts_of_def get_or_def go_map)

lemma counts_of_drop:
  "counts_of m f \<Longrightarrow> 1 \<le> f k \<Longrightarrow> counts_of (drop_ip k m) (\<lambda>j. f j - of_bool (j = k))"
  by (auto simp: counts_of_def get_or_def go_map drop_ip_def Let_def)

lemma counts_of_Nil: "counts_of [] f \<longleftrightarrow> (\<forall>k. f k = 0)"
  by (auto simp: counts_of_def)

lemma counts_of_empty: "counts_of m f \<Longrightarrow> m = [] \<longleftrightarrow> (\<forall>k. f k = 0)"
proof (cases m)
  case (Cons e m')
  assume "counts_of m f"
  moreover have "map_of m (fst e) = Some (snd e)" by (simp add: Cons)
  ultimately have "f (fst e) \<noteq> 0" by (auto simp: counts_of_def split: if_splits)
  then show ?thesis using Cons by auto
qed (simp add: counts_of_Nil)

section \<open>What a connection contributes to\<close>

definition counts_on :: "tracked_conn \<Rightarrow> nat option" where
  "counts_on cn = (if cn_stage cn \<in> {Tracking, Mapping, Registering, Running} \<and> cn_closing cn \<in> {Opened, Uncount} then cn_load cn else None)"

definition waits_on :: "tracked_conn \<Rightarrow> nat option" where
  "waits_on cn = (if cn_stage cn \<in> {Acquiring, Settling True, Settling False} then cn_load cn else None)"

definition source_on :: "tracked_conn \<Rightarrow> (int \<times> int) option" where
  "source_on cn = (if cn_closing cn \<in> {Opened, Uncount, Unsource} then cn_key cn else None)"

definition load_ok :: "tracked_conn list \<Rightarrow> nat \<Rightarrow> user_load \<Rightarrow> bool" where
  "load_ok conns l u \<longleftrightarrow>
     ul_conns u = tally (\<lambda>cn. counts_on cn = Some l) conns \<and> ul_pending u = tally (\<lambda>cn. waits_on cn = Some l) conns \<and>
     counts_of (ul_ips u) (\<lambda>ip. tally (\<lambda>cn. counts_on cn = Some l \<and> cn_source cn = ip) conns)"

definition loads_ok :: "user_load list \<Rightarrow> tracked_conn list \<Rightarrow> bool" where
  "loads_ok loads conns \<longleftrightarrow> (\<forall>l < length loads. load_ok conns l (loads ! l))"

definition sources_ok :: "(int \<times> int, (string, int) go_map) go_map \<Rightarrow> tracked_conn list \<Rightarrow> bool" where
  "sources_ok sources conns \<longleftrightarrow>
     (\<forall>key. map_of sources key \<noteq> Some [] \<and>
        counts_of (get_or [] sources key) (\<lambda>ip. tally (\<lambda>cn. source_on cn = Some key \<and> cn_source cn = ip) conns))"

text \<open>Each connection is in one of its stages in a sensible way.\<close>

definition conn_ok :: "nat \<Rightarrow> nat \<Rightarrow> tracked_conn \<Rightarrow> bool" where
  "conn_ok n_loads counter cn \<longleftrightarrow>
     (\<forall>l. cn_load cn = Some l \<longrightarrow> l < n_loads) \<and>
     (cn_closing cn \<noteq> Opened \<longrightarrow> cn_stage cn \<in> {Registering, Running}) \<and>
     (cn_key cn \<noteq> None \<longrightarrow> cn_stage cn \<in> {Mapping, Registering, Running}) \<and>
     (cn_stage cn \<in> {Mapping, Registering, Running} \<longrightarrow> (\<exists>n \<le> counter. cn_id cn = conn_name n))"

definition named :: "tracked_conn \<Rightarrow> bool" where
  "named cn \<longleftrightarrow> cn_stage cn \<in> {Mapping, Registering, Running}"

definition names_distinct :: "tracked_conn list \<Rightarrow> bool" where
  "names_distinct conns \<longleftrightarrow>
     (\<forall>c < length conns. \<forall>d < length conns. named (conns ! c) \<and> named (conns ! d) \<and> cn_id (conns ! c) = cn_id (conns ! d) \<longrightarrow> c = d)"

definition access_ok :: "(string, string \<times> nat) go_map \<Rightarrow> tracked_conn list \<Rightarrow> bool" where
  "access_ok access conns \<longleftrightarrow>
     (\<forall>(i, name, c) \<in> set access. c < length conns \<and> cn_id (conns ! c) = i \<and> cn_user (conns ! c) = name \<and> cn_stage (conns ! c) = Running)"

definition map_ok :: "(string, nat) go_map \<Rightarrow> tracked_conn list \<Rightarrow> bool" where
  "map_ok conn_map conns \<longleftrightarrow>
     (\<forall>(i, c) \<in> set conn_map. c < length conns \<and> cn_id (conns ! c) = i \<and> cn_stage (conns ! c) \<in> {Registering, Running} \<and>
        cn_closing (conns ! c) \<noteq> Closed)"

fun replace_ok :: "replace_stage \<Rightarrow> tracked_conn list \<Rightarrow> bool" where
  "replace_ok (CloseRevoked cs) conns = (\<forall>c \<in> set cs. c < length conns \<and> cn_stage (conns ! c) = Running)"
| "replace_ok _ conns = True"

definition tracker_ok :: "conn_tracker \<Rightarrow> bool" where
  "tracker_ok w \<longleftrightarrow>
     loads_ok (ct_loads w) (ct_conns w) \<and> sources_ok (ct_sources w) (ct_conns w) \<and>
     (\<forall>cn \<in> set (ct_conns w). conn_ok (length (ct_loads w)) (ct_counter w) cn) \<and> names_distinct (ct_conns w) \<and>
     access_ok (ct_access w) (ct_conns w) \<and> map_ok (ct_conn_map w) (ct_conns w) \<and> replace_ok (ct_replacing w) (ct_conns w) \<and>
     distinct_keys (ct_access w) \<and> distinct_keys (ct_conn_map w) \<and>
     (\<forall>e \<in> set (ct_users w). snd e < length (ct_loads w))"

text \<open>A step of connection \<open>c\<close> that makes it \<open>x\<close>, and its record \<open>u\<close>.\<close>

lemma load_ok_other:
  assumes "load_ok conns l u" "c < length conns" "cn_source x = cn_source (conns ! c)"
    "(counts_on x = Some l) = (counts_on (conns ! c) = Some l)" "(waits_on x = Some l) = (waits_on (conns ! c) = Some l)"
  shows "load_ok (conns[c := x]) l u"
  using assms by (simp add: load_ok_def tally_update)

lemma loads_ok_change:
  assumes ok: "loads_ok loads conns" and c: "c < length conns" and l: "l < length loads" and src: "cn_source x = cn_source (conns ! c)"
    and others: "\<And>m. m \<noteq> l \<Longrightarrow> (counts_on x = Some m) = (counts_on (conns ! c) = Some m) \<and> (waits_on x = Some m) = (waits_on (conns ! c) = Some m)"
    and here: "load_ok (conns[c := x]) l u"
  shows "loads_ok (loads[l := u]) (conns[c := x])"
  unfolding loads_ok_def
proof (intro allI impI)
  fix m assume "m < length (loads[l := u])"
  then show "load_ok (conns[c := x]) m (loads[l := u] ! m)"
    using here others [of m] load_ok_other [OF _ c src] ok l by (cases "m = l") (auto simp: loads_ok_def)
qed

lemma loads_ok_same:
  assumes "loads_ok loads conns" "c < length conns" "cn_source x = cn_source (conns ! c)" "counts_on x = counts_on (conns ! c)" "waits_on x = waits_on (conns ! c)"
  shows "loads_ok loads (conns[c := x])"
  using assms load_ok_other by (simp add: loads_ok_def)

lemma load_ok_admit:
  assumes "load_ok conns l u" "c < length conns" "cn_source x = cn_source (conns ! c)" "counts_on (conns ! c) = None" "counts_on x = Some l"
    "(waits_on x = Some l) = (waits_on (conns ! c) = Some l)"
  shows "load_ok (conns[c := x]) l (add_conn (cn_source x) u)"
proof -
  have "counts_of (ul_ips (add_conn (cn_source x) u))
      (\<lambda>ip. tally (\<lambda>cn. counts_on cn = Some l \<and> cn_source cn = ip) conns + of_bool (ip = cn_source x))"
    using counts_of_add [of "ul_ips u" _ "cn_source x"] assms(1) by (simp add: load_ok_def add_conn_def)
  then show ?thesis using assms by (simp add: load_ok_def add_conn_def tally_update eq_commute [of "cn_source (conns ! c)"])
qed

lemma load_ok_uncount:
  assumes "load_ok conns l u" "c < length conns" "cn_source x = cn_source (conns ! c)" "counts_on (conns ! c) = Some l" "counts_on x = None"
    "(waits_on x = Some l) = (waits_on (conns ! c) = Some l)"
  shows "load_ok (conns[c := x]) l (remove_conn (cn_source x) u)"
proof -
  have "1 \<le> tally (\<lambda>cn. counts_on cn = Some l \<and> cn_source cn = cn_source x) conns"
    using assms by (intro tally_pos [of c]) simp_all
  then have "counts_of (ul_ips (remove_conn (cn_source x) u))
      (\<lambda>ip. tally (\<lambda>cn. counts_on cn = Some l \<and> cn_source cn = ip) conns - of_bool (ip = cn_source x))"
    using counts_of_drop [of "ul_ips u" _ "cn_source x"] assms(1) by (simp add: load_ok_def remove_conn_def)
  then show ?thesis using assms by (simp add: load_ok_def remove_conn_def tally_update eq_commute [of "cn_source (conns ! c)"])
qed

lemma sources_ok_same:
  assumes "sources_ok sources conns" "c < length conns" "cn_source x = cn_source (conns ! c)" "source_on x = source_on (conns ! c)"
  shows "sources_ok sources (conns[c := x])"
  using assms by (simp add: sources_ok_def tally_update)

lemma sources_okD:
  "sources_ok sources conns \<Longrightarrow> counts_of (get_or [] sources key) (\<lambda>ip. tally (\<lambda>cn. source_on cn = Some key \<and> cn_source cn = ip) conns)"
  unfolding sources_ok_def by blast

lemma sources_ok_add:
  assumes ok: "sources_ok sources conns" and c: "c < length conns" and src: "cn_source x = cn_source (conns ! c)"
    and on: "source_on (conns ! c) = None" "source_on x = Some key"
  shows "sources_ok (AList.update key (AList.update (cn_source x) (get_or 0 (get_or [] sources key) (cn_source x) + 1) (get_or [] sources key)) sources) (conns[c := x])"
proof -
  let ?ips = "get_or [] sources key"
  have "counts_of (AList.update (cn_source x) (get_or 0 ?ips (cn_source x) + 1) ?ips)
      (\<lambda>ip. tally (\<lambda>cn. source_on cn = Some key \<and> cn_source cn = ip) conns + of_bool (ip = cn_source x))"
    by (rule counts_of_add [OF sources_okD [OF ok]]) simp
  moreover have "AList.update (cn_source x) (get_or 0 ?ips (cn_source x) + 1) ?ips \<noteq> []" by (cases ?ips) auto
  ultimately show ?thesis using assms
    by (auto simp: sources_ok_def tally_update go_map eq_commute [of "cn_source (conns ! c)"])
qed

lemma sources_ok_drop:
  assumes ok: "sources_ok sources conns" and c: "c < length conns" and src: "cn_source x = cn_source (conns ! c)"
    and on: "source_on (conns ! c) = Some key" "source_on x = None" and ips: "map_of sources key = Some ips"
  defines "left \<equiv> drop_ip (cn_source x) ips"
  shows "sources_ok (if left = [] then AList.delete key sources else AList.update key left sources) (conns[c := x])"
proof -
  have "1 \<le> tally (\<lambda>cn. source_on cn = Some key \<and> cn_source cn = cn_source x) conns"
    using c on src by (intro tally_pos [of c]) simp_all
  moreover have "counts_of ips (\<lambda>ip. tally (\<lambda>cn. source_on cn = Some key \<and> cn_source cn = ip) conns)"
    using sources_okD [OF ok, of key] ips by (simp add: get_or_def)
  ultimately have left: "counts_of left
      (\<lambda>ip. tally (\<lambda>cn. source_on cn = Some key \<and> cn_source cn = ip) conns - of_bool (ip = cn_source x))"
    unfolding left_def by (intro counts_of_drop)
  show ?thesis
    using ok c src on left counts_of_empty [OF left]
    by (auto simp: sources_ok_def tally_update go_map counts_of_Nil eq_commute [of "cn_source (conns ! c)"])
qed

lemma source_tracked:
  assumes "sources_ok sources conns" "c < length conns" "source_on (conns ! c) = Some key"
  shows "\<exists>ips. map_of sources key = Some ips"
proof -
  have "counts_of (get_or [] sources key) (\<lambda>ip. tally (\<lambda>cn. source_on cn = Some key \<and> cn_source cn = ip) conns)"
    by (rule sources_okD [OF assms(1)])
  moreover have "1 \<le> tally (\<lambda>cn. source_on cn = Some key \<and> cn_source cn = cn_source (conns ! c)) conns"
    by (rule tally_pos [of c]) (use assms in simp_all)
  ultimately have "get_or [] sources key \<noteq> []" using counts_of_empty by force
  then show ?thesis by (auto simp: get_or_def split: option.splits)
qed

definition follows :: "tracked_conn list \<Rightarrow> tracked_conn \<Rightarrow> tracked_conn \<Rightarrow> bool" where
  "follows conns old x \<longleftrightarrow>
     cn_user x = cn_user old \<and> (named old \<longrightarrow> named x \<and> cn_id x = cn_id old) \<and>
     (named x \<and> \<not> named old \<longrightarrow> (\<forall>d < length conns. named (conns ! d) \<longrightarrow> cn_id (conns ! d) \<noteq> cn_id x)) \<and>
     (cn_stage old = Running \<longrightarrow> cn_stage x = Running) \<and> (cn_stage old = Registering \<longrightarrow> cn_stage x \<in> {Registering, Running})"

lemma names_distinctD:
  "names_distinct conns \<Longrightarrow> c < length conns \<Longrightarrow> d < length conns \<Longrightarrow> named (conns ! c) \<Longrightarrow> named (conns ! d) \<Longrightarrow>
   cn_id (conns ! c) = cn_id (conns ! d) \<Longrightarrow> c = d"
  unfolding names_distinct_def by blast

lemma names_follow:
  assumes nd: "names_distinct conns" and c: "c < length conns" and f: "follows conns (conns ! c) x"
  shows "names_distinct (conns[c := x])"
proof -
  have other: False if "d < length conns" "d \<noteq> c" "named x" "named (conns ! d)" "cn_id x = cn_id (conns ! d)" for d
  proof (cases "named (conns ! c)")
    case True
    then have "cn_id (conns ! c) = cn_id (conns ! d)" using f that by (simp add: follows_def)
    then show False using names_distinctD [OF nd c that(1) True that(4)] that(2) by simp
  next
    case False
    then have "cn_id (conns ! d) \<noteq> cn_id x" using f that(1,3,4) by (simp add: follows_def)
    then show False using that(5) by simp
  qed
  show ?thesis
    unfolding names_distinct_def
  proof (intro allI impI)
    fix i j
    assume "i < length (conns[c := x])" "j < length (conns[c := x])"
      and "named (conns[c := x] ! i) \<and> named (conns[c := x] ! j) \<and> cn_id (conns[c := x] ! i) = cn_id (conns[c := x] ! j)"
    then show "i = j"
      using names_distinctD [OF nd, of i j] other [of i] other [of j] c by (cases "i = c"; cases "j = c") simp_all
  qed
qed

lemma follows_running:
  "follows conns old x \<Longrightarrow> cn_stage old = Running \<Longrightarrow> cn_stage x = Running \<and> cn_id x = cn_id old \<and> cn_user x = cn_user old"
  by (simp add: follows_def named_def)

lemma follows_registering:
  "follows conns old x \<Longrightarrow> cn_stage old \<in> {Registering, Running} \<Longrightarrow> cn_stage x \<in> {Registering, Running} \<and> cn_id x = cn_id old"
  by (auto simp: follows_def named_def)

lemma access_follow:
  assumes "access_ok access conns" "c < length conns" "follows conns (conns ! c) x"
  shows "access_ok access (conns[c := x])"
  unfolding access_ok_def
proof
  fix e assume e: "e \<in> set access"
  obtain i name d where "e = (i, name, d)" by (cases e)
  then show "case e of (i, name, d) \<Rightarrow> d < length (conns[c := x]) \<and> cn_id (conns[c := x] ! d) = i \<and>
      cn_user (conns[c := x] ! d) = name \<and> cn_stage (conns[c := x] ! d) = Running"
    using assms(1) e follows_running [OF assms(3)] by (cases "d = c") (auto simp: access_ok_def dest!: bspec)
qed

lemma map_follow:
  assumes "map_ok conn_map conns" "c < length conns" "follows conns (conns ! c) x"
    "cn_closing x \<noteq> Closed \<or> cn_closing (conns ! c) = Closed \<or> (\<forall>e \<in> set conn_map. snd e \<noteq> c)"
  shows "map_ok conn_map (conns[c := x])"
  unfolding map_ok_def
proof
  fix e assume e: "e \<in> set conn_map"
  obtain i d where "e = (i, d)" by (cases e)
  then show "case e of (i, d) \<Rightarrow> d < length (conns[c := x]) \<and> cn_id (conns[c := x] ! d) = i \<and>
      cn_stage (conns[c := x] ! d) \<in> {Registering, Running} \<and> cn_closing (conns[c := x] ! d) \<noteq> Closed"
    using assms(1,4) e follows_registering [OF assms(3)] by (cases "d = c") (auto simp: map_ok_def dest!: bspec)
qed

lemma replace_follow:
  "replace_ok r conns \<Longrightarrow> c < length conns \<Longrightarrow> follows conns (conns ! c) x \<Longrightarrow> replace_ok r (conns[c := x])"
  by (cases r) (auto simp: nth_list_update follows_def)

lemma tracker_ok_change:
  assumes ok: "tracker_ok w" and c: "c < length (ct_conns w)" and x: "follows (ct_conns w) (ct_conns w ! c) x"
    and cn: "conn_ok (length (ct_loads w)) n x" "ct_counter w \<le> n"
    and closing: "cn_closing x \<noteq> Closed \<or> cn_closing (ct_conns w ! c) = Closed \<or> (\<forall>e \<in> set (ct_conn_map w). snd e \<noteq> c)"
    and w': "ct_conns w' = (ct_conns w)[c := x]" "length (ct_loads w') = length (ct_loads w)" "ct_counter w' = n" "ct_access w' = ct_access w"
      "ct_conn_map w' = ct_conn_map w" "ct_replacing w' = ct_replacing w" "ct_users w' = ct_users w"
    and loads: "loads_ok (ct_loads w') ((ct_conns w)[c := x])" and sources: "sources_ok (ct_sources w') ((ct_conns w)[c := x])"
  shows "tracker_ok w'"
proof -
  have others: "conn_ok (length (ct_loads w)) n y" if "y \<in> set (ct_conns w)" for y
    using ok that cn(2) unfolding tracker_ok_def conn_ok_def by (meson le_trans)
  then have "\<forall>y \<in> set ((ct_conns w)[c := x]). conn_ok (length (ct_loads w)) n y"
    using cn(1) by (auto dest: set_update_subset_insert [THEN subsetD])
  then show ?thesis
    using ok c x closing loads sources unfolding tracker_ok_def w'
    by (simp add: names_follow access_follow map_follow replace_follow)
qed

section \<open>Every step keeps the books\<close>

lemma set_simps [simp]:
  "ct_conns (set_conn c f w) = (ct_conns w)[c := f (ct_conns w ! c)]" "ct_conns (set_load l g w) = ct_conns w"
  "ct_loads (set_conn c f w) = ct_loads w" "ct_loads (set_load l g w) = (ct_loads w)[l := g (ct_loads w ! l)]"
  "ct_users (set_conn c f w) = ct_users w" "ct_users (set_load l g w) = ct_users w"
  "ct_counter (set_conn c f w) = ct_counter w" "ct_counter (set_load l g w) = ct_counter w"
  "ct_conn_map (set_conn c f w) = ct_conn_map w" "ct_conn_map (set_load l g w) = ct_conn_map w"
  "ct_access (set_conn c f w) = ct_access w" "ct_access (set_load l g w) = ct_access w"
  "ct_allowed (set_conn c f w) = ct_allowed w" "ct_allowed (set_load l g w) = ct_allowed w"
  "ct_sources (set_conn c f w) = ct_sources w" "ct_sources (set_load l g w) = ct_sources w"
  "ct_replacing (set_conn c f w) = ct_replacing w" "ct_replacing (set_load l g w) = ct_replacing w"
  "ct_gate (set_conn c f w) = ct_gate w" "ct_gate (set_load l g w) = ct_gate w"
  "ct_entry (set_conn c f w) = ct_entry w" "ct_entry (set_load l g w) = ct_entry w"
  "ct_uuid_map (set_conn c f w) = ct_uuid_map w" "ct_uuid_map (set_load l g w) = ct_uuid_map w"
  by (simp_all add: set_conn_def set_load_def)

lemma set_conn_twice: "c < length (ct_conns w) \<Longrightarrow> set_conn c f (set_conn c g w) = set_conn c (\<lambda>cn. f (g cn)) w"
  by (simp add: set_conn_def)

lemma conn_okI: "tracker_ok w \<Longrightarrow> c < length (ct_conns w) \<Longrightarrow> conn_ok (length (ct_loads w)) (ct_counter w) (ct_conns w ! c)"
  by (simp add: tracker_ok_def)

lemma silent_step:
  assumes "tracker_ok w" "c < length (ct_conns w)" "follows (ct_conns w) (ct_conns w ! c) (f (ct_conns w ! c))"
    "conn_ok (length (ct_loads w)) (ct_counter w) (f (ct_conns w ! c))"
    "cn_closing (f (ct_conns w ! c)) \<noteq> Closed \<or> cn_closing (ct_conns w ! c) = Closed \<or> (\<forall>e \<in> set (ct_conn_map w). snd e \<noteq> c)"
    "cn_source (f (ct_conns w ! c)) = cn_source (ct_conns w ! c)" "counts_on (f (ct_conns w ! c)) = counts_on (ct_conns w ! c)"
    "waits_on (f (ct_conns w ! c)) = waits_on (ct_conns w ! c)" "source_on (f (ct_conns w ! c)) = source_on (ct_conns w ! c)"
  shows "tracker_ok (set_conn c f w)"
  by (rule tracker_ok_change [OF assms(1-4) _ assms(5)]) (use assms in \<open>simp_all add: tracker_ok_def loads_ok_same sources_ok_same\<close>)

lemma admitting_step:
  assumes "tracker_ok w"
  shows "tracker_ok (set_load l (\<lambda>u. u\<lparr>ul_admitting := a\<rparr>) w)"
proof -
  have "ul_conns ((ct_loads w)[l := (ct_loads w ! l)\<lparr>ul_admitting := a\<rparr>] ! m) = ul_conns (ct_loads w ! m)"
    "ul_pending ((ct_loads w)[l := (ct_loads w ! l)\<lparr>ul_admitting := a\<rparr>] ! m) = ul_pending (ct_loads w ! m)"
    "ul_ips ((ct_loads w)[l := (ct_loads w ! l)\<lparr>ul_admitting := a\<rparr>] ! m) = ul_ips (ct_loads w ! m)" for m
    by (cases "l < length (ct_loads w)"; cases "m = l"; simp add: list_update_beyond)+
  then have "loads_ok ((ct_loads w)[l := (ct_loads w ! l)\<lparr>ul_admitting := a\<rparr>]) (ct_conns w)"
    using assms by (simp add: tracker_ok_def loads_ok_def load_ok_def)
  then show ?thesis using assms by (simp add: tracker_ok_def)
qed

lemma follows_unnamed: "\<not> named x \<Longrightarrow> \<not> named old \<Longrightarrow> cn_user x = cn_user old \<Longrightarrow> follows conns old x"
  by (auto simp: follows_def named_def)

text \<open>A step before the connection has its number.\<close>

lemma quiet_unnamed:
  assumes ok: "tracker_ok w" and c: "c < length (ct_conns w)" and old: "\<not> named (ct_conns w ! c)" and x: "\<not> named (f (ct_conns w ! c))"
    and same: "cn_user (f (ct_conns w ! c)) = cn_user (ct_conns w ! c)" "cn_source (f (ct_conns w ! c)) = cn_source (ct_conns w ! c)"
      "cn_closing (f (ct_conns w ! c)) = cn_closing (ct_conns w ! c)" "cn_key (f (ct_conns w ! c)) = cn_key (ct_conns w ! c)"
    and on: "counts_on (f (ct_conns w ! c)) = counts_on (ct_conns w ! c)" "waits_on (f (ct_conns w ! c)) = waits_on (ct_conns w ! c)"
    and load: "\<And>l. cn_load (f (ct_conns w ! c)) = Some l \<Longrightarrow> l < length (ct_loads w)"
  shows "tracker_ok (set_conn c f w)"
proof (rule silent_step [OF ok c])
  show "follows (ct_conns w) (ct_conns w ! c) (f (ct_conns w ! c))" by (rule follows_unnamed [OF x old same(1)])
  have closing: "cn_closing (ct_conns w ! c) = Opened" using conn_okI [OF ok c] old by (auto simp: conn_ok_def named_def)
  have key: "cn_key (ct_conns w ! c) = None"
    using conn_okI [OF ok c] old by (cases "cn_key (ct_conns w ! c)") (simp_all add: conn_ok_def named_def)
  show "conn_ok (length (ct_loads w)) (ct_counter w) (f (ct_conns w ! c))"
    using closing key same load x by (simp add: conn_ok_def named_def)
qed (use same on in \<open>simp_all add: source_on_def\<close>)

lemmas contribution_defs = follows_def conn_ok_def named_def counts_on_def waits_on_def source_on_def

lemma arrive_ok: "tracker_ok w \<Longrightarrow> tracker_ok (arrive name source outbound packet w)"
proof -
  assume ok: "tracker_ok w"
  let ?x = "\<lparr>cn_user = name, cn_source = source, cn_outbound = outbound, cn_packet = packet, cn_uuid = name, cn_uid = 0,
        cn_load = None, cn_id = '''', cn_key = None, cn_stage = Resolving, cn_closing = Opened\<rparr>"
  have none: "counts_on ?x = None" "waits_on ?x = None" "source_on ?x = None" "\<not> named ?x" by (simp_all add: contribution_defs)
  have "named ((ct_conns w @ [?x]) ! i) \<Longrightarrow> i < length (ct_conns w @ [?x]) \<Longrightarrow> i < length (ct_conns w)" for i
    using none(4) by (cases "i = length (ct_conns w)") (auto simp: nth_append)
  then have names: "names_distinct (ct_conns w @ [?x])"
    using names_distinctD [of "ct_conns w"] ok unfolding tracker_ok_def names_distinct_def
    by (metis nth_append)
  have replace: "replace_ok (ct_replacing w) (ct_conns w @ [?x])"
    using ok by (cases "ct_replacing w") (auto simp: tracker_ok_def nth_append)
  have tables: "access_ok (ct_access w) (ct_conns w @ [?x])" "map_ok (ct_conn_map w) (ct_conns w @ [?x])"
    using ok unfolding tracker_ok_def access_ok_def map_ok_def by (fastforce simp: nth_append)+
  have "loads_ok (ct_loads w) (ct_conns w @ [?x])" "sources_ok (ct_sources w) (ct_conns w @ [?x])"
    using ok none unfolding tracker_ok_def by (simp_all add: loads_ok_def load_ok_def sources_ok_def)
  then show ?thesis using ok names replace tables by (simp add: tracker_ok_def arrive_def conn_ok_def)
qed

lemma users_in_range:
  assumes "tracker_ok w" "map_of (ct_users w) uid = Some l"
  shows "l < length (ct_loads w)"
proof -
  have "\<forall>e \<in> set (ct_users w). snd e < length (ct_loads w)" using assms(1) by (simp add: tracker_ok_def)
  from bspec [OF this map_of_SomeD [OF assms(2)]] show ?thesis by simp
qed

lemma resolve_ok:
  assumes ok: "tracker_ok w" and c: "c < length (ct_conns w)" and st: "cn_stage (ct_conns w ! c) = Resolving"
  shows "tracker_ok (resolve_user c w)"
proof -
  note range = users_in_range [OF ok]
  have "tracker_ok (set_conn c (\<lambda>cn. cn\<lparr>cn_uuid := i, cn_uid := uid, cn_load := map_of (ct_users w) uid, cn_stage := st'\<rparr>) w)"
    if "st' \<in> {CheckingDevice, Refused}" for i uid st'
  proof (rule quiet_unnamed [OF ok c])
    show "l < length (ct_loads w)"
      if "cn_load ((ct_conns w ! c)\<lparr>cn_uuid := i, cn_uid := uid, cn_load := map_of (ct_users w) uid, cn_stage := st'\<rparr>) = Some l" for l
      using range [of uid l] that by simp
  qed (use that st in \<open>simp_all add: named_def counts_on_def waits_on_def, safe\<close>)
  then show ?thesis using c by (simp add: resolve_user_def Let_def set_conn_twice)
qed

lemma stage_ok:
  assumes ok: "tracker_ok w" and c: "c < length (ct_conns w)" and st: "cn_stage (ct_conns w ! c) \<in> {CheckingDevice, CheckingConn}"
    and st': "st' \<in> {CheckingConn, Refused}"
  shows "tracker_ok (go_to st' c w)"
proof (rule quiet_unnamed [OF ok c])
  show "l < length (ct_loads w)" if "cn_load ((ct_conns w ! c)\<lparr>cn_stage := st'\<rparr>) = Some l" for l
    using conn_okI [OF ok c] that by (simp add: conn_ok_def)
qed (use st st' in \<open>auto simp: named_def counts_on_def waits_on_def\<close>)

lemma check_device_ok:
  assumes ok: "tracker_ok w" and c: "c < length (ct_conns w)" and st: "cn_stage (ct_conns w ! c) = CheckingDevice"
  shows "tracker_ok (check_device device_limit count_key panel_key fresh c w)"
proof -
  have "tracker_ok (go_to st' c w)" if "st' \<in> {CheckingConn, Refused}" for st'
    by (rule stage_ok [OF ok c _ that]) (simp add: st)
  moreover have "tracker_ok (go_to CheckingConn c (set_load l (\<lambda>u. u\<lparr>ul_admitting := Some c\<rparr>) w))" for l
    by (rule stage_ok [OF admitting_step [OF ok]]) (use c st in simp_all)
  ultimately show ?thesis using ok by (simp add: check_device_def Let_def split: option.split)
qed

lemma load_ok_admitting [simp]: "load_ok conns l (u\<lparr>ul_admitting := a\<rparr>) = load_ok conns l u"
  by (simp add: load_ok_def)

lemma load_ok_wait:
  assumes "load_ok conns l u" "c < length conns" "cn_source x = cn_source (conns ! c)" "counts_on x = counts_on (conns ! c)"
    "waits_on (conns ! c) = None" "waits_on x = Some l"
  shows "load_ok (conns[c := x]) l (u\<lparr>ul_pending := ul_pending u + 1\<rparr>)"
  using assms by (simp add: load_ok_def tally_update)

lemma load_ok_unwait:
  assumes "load_ok conns l u" "c < length conns" "cn_source x = cn_source (conns ! c)" "counts_on x = counts_on (conns ! c)"
    "waits_on (conns ! c) = Some l" "waits_on x = None"
  shows "load_ok (conns[c := x]) l (u\<lparr>ul_pending := ul_pending u - 1\<rparr>)"
  using assms by (simp add: load_ok_def tally_update)

lemma load_ok_promote:
  assumes "load_ok conns l u" "c < length conns" "cn_source x = cn_source (conns ! c)" "counts_on (conns ! c) = None" "counts_on x = Some l"
    "waits_on (conns ! c) = Some l" "waits_on x = None"
  shows "load_ok (conns[c := x]) l (add_conn (cn_source x) (u\<lparr>ul_pending := ul_pending u - 1\<rparr>))"
proof -
  have "counts_of (AList.update (cn_source x) (get_or 0 (ul_ips u) (cn_source x) + 1) (ul_ips u))
      (\<lambda>ip. tally (\<lambda>cn. counts_on cn = Some l \<and> cn_source cn = ip) conns + of_bool (ip = cn_source x))"
    by (rule counts_of_add) (use assms(1) in \<open>simp_all add: load_ok_def\<close>)
  then show ?thesis using assms by (simp add: load_ok_def add_conn_def tally_update eq_commute [of "cn_source (conns ! c)"])
qed

text \<open>A step before the connection has its number that changes the record of its user.\<close>

lemma load_unnamed:
  assumes ok: "tracker_ok w" and c: "c < length (ct_conns w)" and old: "\<not> named (ct_conns w ! c)" and x: "\<not> named (f (ct_conns w ! c))"
    and same: "cn_user (f (ct_conns w ! c)) = cn_user (ct_conns w ! c)" "cn_source (f (ct_conns w ! c)) = cn_source (ct_conns w ! c)"
      "cn_closing (f (ct_conns w ! c)) = cn_closing (ct_conns w ! c)" "cn_key (f (ct_conns w ! c)) = cn_key (ct_conns w ! c)"
      "cn_load (f (ct_conns w ! c)) = cn_load (ct_conns w ! c)"
    and l: "cn_load (ct_conns w ! c) = Some l"
    and here: "load_ok (ct_conns w) l (ct_loads w ! l) \<Longrightarrow> load_ok ((ct_conns w)[c := f (ct_conns w ! c)]) l (g (ct_loads w ! l))"
  shows "tracker_ok (set_conn c f (set_load l g w))"
proof (rule tracker_ok_change [OF ok c])
  show "follows (ct_conns w) (ct_conns w ! c) (f (ct_conns w ! c))" by (rule follows_unnamed [OF x old same(1)])
  have closing: "cn_closing (ct_conns w ! c) = Opened" using conn_okI [OF ok c] old by (auto simp: conn_ok_def named_def)
  have key: "cn_key (ct_conns w ! c) = None"
    using conn_okI [OF ok c] old by (cases "cn_key (ct_conns w ! c)") (simp_all add: conn_ok_def named_def)
  have range: "l < length (ct_loads w)" using conn_okI [OF ok c] l by (simp add: conn_ok_def)
  show "conn_ok (length (ct_loads w)) (ct_counter w) (f (ct_conns w ! c))"
    using closing key same l range x by (simp add: conn_ok_def named_def)
  have loads: "loads_ok (ct_loads w) (ct_conns w)" using ok by (simp add: tracker_ok_def)
  have "(counts_on (f (ct_conns w ! c)) = Some m) = (counts_on (ct_conns w ! c) = Some m) \<and>
      (waits_on (f (ct_conns w ! c)) = Some m) = (waits_on (ct_conns w ! c) = Some m)" if "m \<noteq> l" for m
    using that l same(5) by (simp add: counts_on_def waits_on_def)
  then have "loads_ok ((ct_loads w)[l := g (ct_loads w ! l)]) ((ct_conns w)[c := f (ct_conns w ! c)])"
    using loads_ok_change [OF loads c range same(2)] here loads range by (simp add: loads_ok_def)
  then show "loads_ok (ct_loads (set_conn c f (set_load l g w))) ((ct_conns w)[c := f (ct_conns w ! c)])" by simp
  show "sources_ok (ct_sources (set_conn c f (set_load l g w))) ((ct_conns w)[c := f (ct_conns w ! c)])"
    using sources_ok_same [of _ "ct_conns w" c "f (ct_conns w ! c)"] ok c same by (simp add: tracker_ok_def source_on_def)
qed (use same in simp_all)

lemma unnamed_at: "tracker_ok w \<Longrightarrow> c < length (ct_conns w) \<Longrightarrow> \<not> named (ct_conns w ! c) \<Longrightarrow> cn_closing (ct_conns w ! c) = Opened"
  using conn_okI [of w c] by (auto simp: conn_ok_def named_def)

lemma check_conn_ok:
  assumes ok: "tracker_ok w" and c: "c < length (ct_conns w)" and st: "cn_stage (ct_conns w ! c) = CheckingConn"
  shows "tracker_ok (check_conn limiter c w)"
proof -
  let ?cn = "ct_conns w ! c"
  have old: "\<not> named ?cn" "counts_on ?cn = None" "waits_on ?cn = None" using st by (simp_all add: named_def counts_on_def waits_on_def)
  have opened: "cn_closing ?cn = Opened" by (rule unnamed_at [OF ok c old(1)])
  show ?thesis
  proof (cases "cn_load ?cn")
    case None
    have "tracker_ok (go_to st' c w)" if "st' \<in> {Refused, Acquiring, Tracking}" for st'
      by (rule quiet_unnamed [OF ok c]) (use that st None in \<open>auto simp: named_def counts_on_def waits_on_def\<close>)
    then show ?thesis using None by (simp add: check_conn_def Let_def)
  next
    case (Some l)
    have "tracker_ok (go_to Refused c (set_load l (\<lambda>u. u\<lparr>ul_admitting := None\<rparr>) w))"
      by (rule stage_ok [OF admitting_step [OF ok]]) (use c st in simp_all)
    moreover have "tracker_ok (go_to Acquiring c (set_load l (\<lambda>u. u\<lparr>ul_pending := ul_pending u + 1, ul_admitting := None\<rparr>) w))"
    proof (rule load_unnamed [OF ok c old(1)])
      show "load_ok ((ct_conns w)[c := ?cn\<lparr>cn_stage := Acquiring\<rparr>]) l ((ct_loads w ! l)\<lparr>ul_pending := ul_pending (ct_loads w ! l) + 1, ul_admitting := None\<rparr>)"
        if "load_ok (ct_conns w) l (ct_loads w ! l)"
        unfolding load_ok_admitting by (rule load_ok_wait [OF that c]) (use old Some in \<open>simp_all add: counts_on_def waits_on_def\<close>)
    qed (use Some in \<open>simp_all add: named_def\<close>)
    moreover have "tracker_ok (go_to Tracking c (set_load l (\<lambda>u. (add_conn (cn_source ?cn) u)\<lparr>ul_admitting := None\<rparr>) w))"
    proof (rule load_unnamed [OF ok c old(1)])
      show "load_ok ((ct_conns w)[c := ?cn\<lparr>cn_stage := Tracking\<rparr>]) l ((add_conn (cn_source ?cn) (ct_loads w ! l))\<lparr>ul_admitting := None\<rparr>)"
        if "load_ok (ct_conns w) l (ct_loads w ! l)"
        using load_ok_admit [OF that c, of "?cn\<lparr>cn_stage := Tracking\<rparr>"] old Some opened by (simp add: counts_on_def waits_on_def)
    qed (use Some in \<open>simp_all add: named_def\<close>)
    ultimately show ?thesis using Some by (simp add: check_conn_def Let_def)
  qed
qed

lemma acquire_ok:
  assumes ok: "tracker_ok w" and c: "c < length (ct_conns w)" and st: "cn_stage (ct_conns w ! c) = Acquiring"
  shows "tracker_ok (acquire_result granted c w)"
proof -
  have "tracker_ok (go_to (Settling b) c w)" for b
  proof (rule quiet_unnamed [OF ok c])
    show "l < length (ct_loads w)" if "cn_load ((ct_conns w ! c)\<lparr>cn_stage := Settling b\<rparr>) = Some l" for l
      using conn_okI [OF ok c] that by (simp add: conn_ok_def)
  qed (use st in \<open>cases b; simp add: named_def counts_on_def waits_on_def\<close>)+
  then show ?thesis by (simp add: acquire_result_def Let_def)
qed

lemma settle_ok:
  assumes ok: "tracker_ok w" and c: "c < length (ct_conns w)" and st: "cn_stage (ct_conns w ! c) = Settling b"
  shows "tracker_ok (settle_device b c w)"
proof -
  let ?cn = "ct_conns w ! c"
  have old: "\<not> named ?cn" "counts_on ?cn = None" "waits_on ?cn = cn_load ?cn"
    using st by (cases b; simp add: named_def counts_on_def waits_on_def)+
  have opened: "cn_closing ?cn = Opened" by (rule unnamed_at [OF ok c old(1)])
  show ?thesis
  proof (cases "cn_load ?cn")
    case None
    have "tracker_ok (go_to st' c w)" if "st' \<in> {Refused, Tracking}" for st'
      by (rule quiet_unnamed [OF ok c]) (use that old None in \<open>auto simp: named_def counts_on_def waits_on_def\<close>)
    then show ?thesis using None by (simp add: settle_device_def Let_def)
  next
    case (Some l)
    have "tracker_ok (go_to Refused c (set_load l (\<lambda>u. u\<lparr>ul_pending := ul_pending u - 1\<rparr>) w))"
    proof (rule load_unnamed [OF ok c old(1)])
      show "load_ok ((ct_conns w)[c := ?cn\<lparr>cn_stage := Refused\<rparr>]) l ((ct_loads w ! l)\<lparr>ul_pending := ul_pending (ct_loads w ! l) - 1\<rparr>)"
        if "load_ok (ct_conns w) l (ct_loads w ! l)"
        by (rule load_ok_unwait [OF that c]) (use old Some in \<open>simp_all add: counts_on_def waits_on_def\<close>)
    qed (use Some in \<open>simp_all add: named_def\<close>)
    moreover have "tracker_ok (go_to Tracking c (set_load l (\<lambda>u. add_conn (cn_source ?cn) (u\<lparr>ul_pending := ul_pending u - 1\<rparr>)) w))"
    proof (rule load_unnamed [OF ok c old(1)])
      show "load_ok ((ct_conns w)[c := ?cn\<lparr>cn_stage := Tracking\<rparr>]) l (add_conn (cn_source ?cn) ((ct_loads w ! l)\<lparr>ul_pending := ul_pending (ct_loads w ! l) - 1\<rparr>))"
        if "load_ok (ct_conns w) l (ct_loads w ! l)"
        using load_ok_promote [OF that c, of "?cn\<lparr>cn_stage := Tracking\<rparr>"] old Some opened by (simp add: counts_on_def waits_on_def)
    qed (use Some in \<open>simp_all add: named_def\<close>)
    ultimately show ?thesis using Some by (cases b) (simp_all add: settle_device_def Let_def)
  qed
qed

lemma fresh_name:
  assumes "tracker_ok w" "d < length (ct_conns w)" "named (ct_conns w ! d)"
  shows "cn_id (ct_conns w ! d) \<noteq> conn_name (Suc (ct_counter w))"
  using conn_okI [OF assms(1,2)] assms(3) by (auto simp: conn_ok_def named_def conn_name_inj)

lemma count_source_fields [simp]:
  "ct_conns (count_source key ip w) = ct_conns w" "ct_loads (count_source key ip w) = ct_loads w" "ct_users (count_source key ip w) = ct_users w"
  "ct_counter (count_source key ip w) = ct_counter w" "ct_conn_map (count_source key ip w) = ct_conn_map w" "ct_access (count_source key ip w) = ct_access w"
  "ct_allowed (count_source key ip w) = ct_allowed w" "ct_replacing (count_source key ip w) = ct_replacing w" "ct_uuid_map (count_source key ip w) = ct_uuid_map w"
  by (simp_all add: count_source_def Let_def)

lemma uncount_source_fields [simp]:
  "ct_conns (uncount_source key ip w) = ct_conns w" "ct_loads (uncount_source key ip w) = ct_loads w" "ct_users (uncount_source key ip w) = ct_users w"
  "ct_counter (uncount_source key ip w) = ct_counter w" "ct_conn_map (uncount_source key ip w) = ct_conn_map w" "ct_access (uncount_source key ip w) = ct_access w"
  "ct_allowed (uncount_source key ip w) = ct_allowed w" "ct_replacing (uncount_source key ip w) = ct_replacing w" "ct_uuid_map (uncount_source key ip w) = ct_uuid_map w"
  by (simp_all add: uncount_source_def Let_def split: option.split)

lemma track_ok:
  assumes ok: "tracker_ok w" and c: "c < length (ct_conns w)" and st: "cn_stage (ct_conns w ! c) = Tracking"
  shows "tracker_ok (track_source c w)"
proof -
  let ?cn = "ct_conns w ! c"
  let ?n = "Suc (ct_counter w)"
  let ?next = "if cn_packet ?cn then Registering else Mapping"
  have old: "\<not> named ?cn" using st by (simp add: named_def)
  have opened: "cn_closing ?cn = Opened" by (rule unnamed_at [OF ok c old])
  have key: "cn_key ?cn = None"
    using conn_okI [OF ok c] old by (cases "cn_key ?cn") (simp_all add: conn_ok_def named_def)
  have range: "l < length (ct_loads w)" if "cn_load ?cn = Some l" for l using conn_okI [OF ok c] that by (simp add: conn_ok_def)
  have goal: "tracker_ok w'" if w': "ct_conns w' = (ct_conns w)[c := x]" "ct_loads w' = ct_loads w" "ct_counter w' = ?n" "ct_access w' = ct_access w"
      "ct_conn_map w' = ct_conn_map w" "ct_replacing w' = ct_replacing w" "ct_users w' = ct_users w"
      and x: "x = ?cn\<lparr>cn_id := conn_name ?n, cn_key := k, cn_stage := ?next\<rparr>"
      and sources: "sources_ok (ct_sources w') ((ct_conns w)[c := x])" for w' x k
  proof (rule tracker_ok_change [OF ok c _ _ _ _ w'(1) _ w'(3-7) _ sources])
    show "follows (ct_conns w) ?cn x" using old fresh_name [OF ok] st unfolding x by (auto simp: follows_def named_def)
    show "conn_ok (length (ct_loads w)) ?n x" using opened range unfolding x by (auto simp: conn_ok_def)
    show "loads_ok (ct_loads w') ((ct_conns w)[c := x])"
      unfolding w'(2) by (rule loads_ok_same) (use ok c st opened in \<open>simp_all add: tracker_ok_def x counts_on_def waits_on_def\<close>)
  qed (use opened w' in \<open>simp_all add: x\<close>)
  have none: "sources_ok (ct_sources w) ((ct_conns w)[c := ?cn\<lparr>cn_id := conn_name ?n, cn_stage := ?next\<rparr>])"
    by (rule sources_ok_same) (use ok c key in \<open>simp_all add: tracker_ok_def source_on_def\<close>)
  have some: "sources_ok (ct_sources (count_source k (cn_source ?cn) w')) ((ct_conns w)[c := ?cn\<lparr>cn_id := conn_name ?n, cn_key := Some k, cn_stage := ?next\<rparr>])"
    if "ct_sources w' = ct_sources w" for k w'
    using sources_ok_add [of "ct_sources w" "ct_conns w" c "?cn\<lparr>cn_id := conn_name ?n, cn_key := Some k, cn_stage := ?next\<rparr>" k] ok c key opened that
    by (simp add: tracker_ok_def source_on_def count_source_def Let_def)
  let ?key = "(cn_uid ?cn, outbound_node w (cn_outbound ?cn))"
  show ?thesis
  proof (cases "cn_uid ?cn > 0 \<and> ct_entry w")
    case True
    show ?thesis unfolding track_source_def Let_def if_P [OF True]
      by (rule goal [where k = "Some ?key", OF _ _ _ _ _ _ _ refl]) (use some [of "set_conn c _ (w\<lparr>ct_counter := ?n\<rparr>)" ?key] in simp_all)
  next
    case False
    have "?cn\<lparr>cn_id := i, cn_key := None, cn_stage := s\<rparr> = ?cn\<lparr>cn_id := i, cn_stage := s\<rparr>" for i s
      using key by (cases ?cn) simp
    then show ?thesis unfolding track_source_def Let_def if_not_P [OF False]
      by (intro goal [where k = None, OF _ _ _ _ _ _ _ refl]) (use none in simp_all)
  qed
qed

lemma update_in_insert: "set (AList.update k v m) \<subseteq> insert (k, v) (set m)"
  by (induction m) auto

lemma set_delete_subset: "set (AList.delete k m) \<subseteq> {e \<in> set m. fst e \<noteq> k}"
  by (auto simp: AList.delete_eq)

lemma ball_subset: "A \<subseteq> B \<Longrightarrow> \<forall>x \<in> B. P x \<Longrightarrow> \<forall>x \<in> A. P x"
  by blast

lemma map_ok_put:
  assumes "map_ok m conns" "c < length conns" "cn_stage (conns ! c) \<in> {Registering, Running}" "cn_closing (conns ! c) \<noteq> Closed"
  shows "map_ok (AList.update (cn_id (conns ! c)) c m) conns"
proof -
  have "\<forall>(i, d) \<in> insert (cn_id (conns ! c), c) (set m). d < length conns \<and> cn_id (conns ! d) = i \<and>
      cn_stage (conns ! d) \<in> {Registering, Running} \<and> cn_closing (conns ! d) \<noteq> Closed"
    using assms by (simp add: map_ok_def)
  then show ?thesis unfolding map_ok_def by (rule ball_subset [OF update_in_insert])
qed

lemma access_ok_put:
  assumes "access_ok m conns" "c < length conns" "cn_stage (conns ! c) = Running"
  shows "access_ok (AList.update (cn_id (conns ! c)) (cn_user (conns ! c), c) m) conns"
proof -
  have "\<forall>(i, name, d) \<in> insert (cn_id (conns ! c), cn_user (conns ! c), c) (set m). d < length conns \<and> cn_id (conns ! d) = i \<and>
      cn_user (conns ! d) = name \<and> cn_stage (conns ! d) = Running"
    using assms by (simp add: access_ok_def)
  then show ?thesis unfolding access_ok_def by (rule ball_subset [OF update_in_insert])
qed

lemma map_conn_ok:
  assumes ok: "tracker_ok w" and c: "c < length (ct_conns w)" and st: "cn_stage (ct_conns w ! c) = Mapping"
  shows "tracker_ok (map_conn c w)"
proof -
  let ?cn = "ct_conns w ! c"
  have opened: "cn_closing ?cn = Opened" using conn_okI [OF ok c] st by (auto simp: conn_ok_def)
  have step: "tracker_ok (go_to Registering c w)"
    by (rule silent_step [OF ok c])
      (use conn_okI [OF ok c] st opened in \<open>simp_all add: follows_def named_def conn_ok_def counts_on_def waits_on_def source_on_def\<close>)
  have "map_ok (ct_conn_map w) (ct_conns (go_to Registering c w))" using step by (simp add: tracker_ok_def)
  then have "map_ok (AList.update (cn_id ?cn) c (ct_conn_map w)) (ct_conns (go_to Registering c w))"
    using map_ok_put [of "ct_conn_map w" "ct_conns (go_to Registering c w)" c] c opened by simp
  then show ?thesis using step by (simp add: tracker_ok_def map_conn_def)
qed

lemma follows_same: "cn_user x = cn_user old \<Longrightarrow> cn_id x = cn_id old \<Longrightarrow> cn_stage x = cn_stage old \<Longrightarrow> follows conns old x"
  by (auto simp: follows_def named_def)

lemma conn_ok_closing: "conn_ok n k cn \<Longrightarrow> cn_stage cn \<in> {Registering, Running} \<Longrightarrow> conn_ok n k (cn\<lparr>cn_closing := s\<rparr>)"
  by (auto simp: conn_ok_def)

lemma close_conn_ok:
  assumes ok: "tracker_ok w" and c: "c < length (ct_conns w)" and st: "cn_stage (ct_conns w ! c) \<in> {Registering, Running}"
  shows "tracker_ok (close_conn c w)"
proof (cases "cn_closing (ct_conns w ! c) = Opened")
  case True
  have "tracker_ok (set_conn c (\<lambda>cn. cn\<lparr>cn_closing := Uncount\<rparr>) w)"
    by (rule silent_step [OF ok c])
      (use conn_okI [OF ok c] st True in \<open>simp_all add: follows_same conn_ok_closing counts_on_def waits_on_def source_on_def\<close>)
  then show ?thesis using True by (simp add: close_conn_def)
qed (use ok in \<open>simp add: close_conn_def\<close>)

lemma tables_ok:
  "tracker_ok w \<Longrightarrow> access_ok access (ct_conns w) \<Longrightarrow> distinct_keys access \<Longrightarrow> tracker_ok (w\<lparr>ct_access := access\<rparr>)"
  "tracker_ok w \<Longrightarrow> map_ok conn_map (ct_conns w) \<Longrightarrow> distinct_keys conn_map \<Longrightarrow> tracker_ok (w\<lparr>ct_conn_map := conn_map\<rparr>)"
  by (simp_all add: tracker_ok_def)

lemma drop_entry_ok:
  assumes "tracker_ok w"
  shows "tracker_ok (w\<lparr>ct_access := AList.delete i (ct_access w)\<rparr>)" "tracker_ok (w\<lparr>ct_conn_map := AList.delete i (ct_conn_map w)\<rparr>)"
proof -
  have old: "access_ok (ct_access w) (ct_conns w)" "map_ok (ct_conn_map w) (ct_conns w)" "distinct_keys (ct_access w)" "distinct_keys (ct_conn_map w)"
    using assms by (simp_all add: tracker_ok_def)
  have sub: "set (AList.delete i m) \<subseteq> set m" for m :: "(string \<times> 'x) list" by (auto simp: AList.delete_eq)
  show "tracker_ok (w\<lparr>ct_access := AList.delete i (ct_access w)\<rparr>)"
    by (rule tables_ok(1) [OF assms]) (use old ball_subset [OF sub] in \<open>simp_all add: access_ok_def\<close>)
  show "tracker_ok (w\<lparr>ct_conn_map := AList.delete i (ct_conn_map w)\<rparr>)"
    by (rule tables_ok(2) [OF assms]) (use old ball_subset [OF sub] in \<open>simp_all add: map_ok_def\<close>)
qed

lemma close_step_ok:
  assumes ok: "tracker_ok w" and c: "c < length (ct_conns w)"
  shows "tracker_ok (close_step c w)"
proof -
  let ?cn = "ct_conns w ! c"
  have st: "cn_stage ?cn \<in> {Registering, Running}" if "cn_closing ?cn \<noteq> Opened" using conn_okI [OF ok c] that by (simp add: conn_ok_def)
  have quiet: "tracker_ok (set_conn c (\<lambda>cn. cn\<lparr>cn_closing := st'\<rparr>) w')"
    if ok': "tracker_ok w'" and w': "ct_conns w' = ct_conns w" and "cn_closing ?cn \<noteq> Opened"
      and "counts_on (?cn\<lparr>cn_closing := st'\<rparr>) = counts_on ?cn" "source_on (?cn\<lparr>cn_closing := st'\<rparr>) = source_on ?cn"
      and "st' \<noteq> Closed \<or> (\<forall>e \<in> set (ct_conn_map w'). snd e \<noteq> c)" for st' w'
    by (rule silent_step [OF ok']) (use that conn_okI [OF ok', of c] c st in \<open>simp_all add: follows_same conn_ok_closing waits_on_def\<close>)
  show ?thesis
  proof (cases "cn_closing ?cn")
    case Uncount
    let ?x = "?cn\<lparr>cn_closing := Unsource\<rparr>"
    show ?thesis
    proof (cases "cn_load ?cn")
      case None
      then show ?thesis using quiet [OF ok refl, of Unsource] Uncount by (simp add: close_step_def Let_def counts_on_def source_on_def)
    next
      case (Some l)
      have range: "l < length (ct_loads w)" using conn_okI [OF ok c] Some by (simp add: conn_ok_def)
      have loads: "loads_ok (ct_loads w) (ct_conns w)" using ok by (simp add: tracker_ok_def)
      have on: "counts_on ?cn = Some l" "counts_on ?x = None" using st Some Uncount by (auto simp: counts_on_def)
      have "load_ok ((ct_conns w)[c := ?x]) l (remove_conn (cn_source ?cn) (ct_loads w ! l))"
        using load_ok_uncount [of "ct_conns w" l "ct_loads w ! l" c ?x] loads range c on by (simp add: loads_ok_def waits_on_def)
      then have "loads_ok ((ct_loads w)[l := remove_conn (cn_source ?cn) (ct_loads w ! l)]) ((ct_conns w)[c := ?x])"
        by (intro loads_ok_change [OF loads c range]) (use on in \<open>auto simp: waits_on_def\<close>)
      moreover have "sources_ok (ct_sources w) ((ct_conns w)[c := ?x])"
        by (rule sources_ok_same) (use ok c Uncount in \<open>simp_all add: tracker_ok_def source_on_def\<close>)
      ultimately have "tracker_ok (set_conn c (\<lambda>cn. cn\<lparr>cn_closing := Unsource\<rparr>) (set_load l (remove_conn (cn_source ?cn)) w))"
        by (intro tracker_ok_change [OF ok c, where x = ?x and n = "ct_counter w"])
          (use conn_okI [OF ok c] st Uncount in \<open>simp_all add: follows_same conn_ok_closing\<close>)
      then show ?thesis using Some Uncount by (simp add: close_step_def Let_def)
    qed
  next
    case Unsource
    let ?x = "?cn\<lparr>cn_closing := Unregister\<rparr>"
    have counts: "counts_on ?x = counts_on ?cn" using Unsource by (simp add: counts_on_def)
    show ?thesis
    proof (cases "cn_key ?cn")
      case None
      then show ?thesis using quiet [OF ok refl, of Unregister] counts Unsource by (simp add: close_step_def Let_def source_on_def)
    next
      case (Some key)
      have on: "source_on ?cn = Some key" "source_on ?x = None" using Some Unsource by (simp_all add: source_on_def)
      have srcs: "sources_ok (ct_sources w) (ct_conns w)" using ok by (simp add: tracker_ok_def)
      obtain ips where ips: "map_of (ct_sources w) key = Some ips" using source_tracked [OF srcs c on(1)] by blast
      have "sources_ok (ct_sources (uncount_source key (cn_source ?cn) w)) ((ct_conns w)[c := ?x])"
        using sources_ok_drop [OF srcs c _ on ips] ips by (simp add: uncount_source_def Let_def cong: if_cong)
      moreover have "loads_ok (ct_loads w) ((ct_conns w)[c := ?x])"
        by (rule loads_ok_same) (use ok c counts in \<open>simp_all add: tracker_ok_def waits_on_def\<close>)
      ultimately have "tracker_ok (set_conn c (\<lambda>cn. cn\<lparr>cn_closing := Unregister\<rparr>) (uncount_source key (cn_source ?cn) w))"
        by (intro tracker_ok_change [OF ok c, where x = ?x and n = "ct_counter w"])
          (use conn_okI [OF ok c] st Unsource in \<open>simp_all add: follows_same conn_ok_closing\<close>)
      then show ?thesis using Some Unsource by (simp add: close_step_def Let_def)
    qed
  next
    case Unregister
    have "tracker_ok (set_conn c (\<lambda>cn. cn\<lparr>cn_closing := Unmap\<rparr>) (w\<lparr>ct_access := AList.delete (cn_id ?cn) (ct_access w)\<rparr>))"
      by (rule quiet [OF drop_entry_ok(1) [OF ok]]) (use Unregister in \<open>simp_all add: counts_on_def source_on_def\<close>)
    then show ?thesis using Unregister by (simp add: close_step_def Let_def)
  next
    case Unmap
    have "map_ok (ct_conn_map w) (ct_conns w)" using ok by (simp add: tracker_ok_def)
    then have "\<forall>e \<in> set (AList.delete (cn_id ?cn) (ct_conn_map w)). snd e \<noteq> c" by (auto simp: map_ok_def AList.delete_eq)
    then have "tracker_ok (set_conn c (\<lambda>cn. cn\<lparr>cn_closing := Closed\<rparr>) (w\<lparr>ct_conn_map := AList.delete (cn_id ?cn) (ct_conn_map w)\<rparr>))"
      by (intro quiet [OF drop_entry_ok(2) [OF ok]]) (use Unmap in \<open>simp_all add: counts_on_def source_on_def\<close>)
    then show ?thesis using Unmap by (simp add: close_step_def Let_def)
  qed (use ok in \<open>simp_all add: close_step_def Let_def\<close>)
qed

lemma register_ok:
  assumes ok: "tracker_ok w" and c: "c < length (ct_conns w)" and st: "cn_stage (ct_conns w ! c) = Registering"
  shows "tracker_ok (register_conn c w)"
proof -
  let ?cn = "ct_conns w ! c"
  have run: "tracker_ok (go_to Running c w')" if "tracker_ok w'" "c < length (ct_conns w')" "cn_stage (ct_conns w' ! c) = Registering" for w'
  proof (rule silent_step [OF that(1,2)])
    show "conn_ok (length (ct_loads w')) (ct_counter w') ((ct_conns w' ! c)\<lparr>cn_stage := Running\<rparr>)"
      using conn_okI [OF that(1,2)] that(3) by (auto simp: conn_ok_def)
  qed (use that(3) in \<open>auto simp: follows_def named_def counts_on_def waits_on_def source_on_def\<close>)
  have put: "tracker_ok (go_to Running c (w\<lparr>ct_access := AList.update (cn_id ?cn) (cn_user ?cn, c) (ct_access w)\<rparr>))"
  proof -
    have new: "tracker_ok (go_to Running c w)" by (rule run [OF ok c st])
    then have "access_ok (ct_access w) (ct_conns (go_to Running c w))" "distinct_keys (ct_access w)" by (simp_all add: tracker_ok_def)
    then have "access_ok (AList.update (cn_id ?cn) (cn_user ?cn, c) (ct_access w)) (ct_conns (go_to Running c w))"
      "distinct_keys (AList.update (cn_id ?cn) (cn_user ?cn, c) (ct_access w))"
      using access_ok_put [of "ct_access w" "ct_conns (go_to Running c w)" c] c by simp_all
    from tables_ok(1) [OF new this] show ?thesis by (simp add: tracker_ok_def)
  qed
  have close: "tracker_ok (go_to Running c (close_conn c w))"
    by (rule run [OF close_conn_ok [OF ok c]]) (use st c in \<open>simp_all add: close_conn_def\<close>)
  show ?thesis using run [OF ok c st] put close by (simp add: register_conn_def Let_def split: option.split)
qed

lemma proceed_ok: "tracker_ok w \<Longrightarrow> c < length (ct_conns w) \<Longrightarrow> tracker_ok (proceed c w)"
  by (cases "cn_stage (ct_conns w ! c)") (simp_all add: proceed_def settle_ok track_ok map_conn_ok register_ok)

lemma loads_grow: "loads_ok loads conns \<Longrightarrow> (\<And>cn. cn \<in> set conns \<Longrightarrow> conn_ok (length loads) n cn) \<Longrightarrow>
    loads_ok (loads @ [\<lparr>ul_conns = 0, ul_pending = 0, ul_ips = [], ul_admitting = None\<rparr>]) conns"
proof -
  assume ok: "loads_ok loads conns" and range: "\<And>cn. cn \<in> set conns \<Longrightarrow> conn_ok (length loads) n cn"
  have zero: "tally P conns = 0" if "\<And>cn. cn \<in> set conns \<Longrightarrow> \<not> P cn" for P using that by (induction conns) auto
  have away: "counts_on cn \<noteq> Some (length loads)" "waits_on cn \<noteq> Some (length loads)" if "cn \<in> set conns" for cn
    using range [OF that] by (auto simp: counts_on_def waits_on_def conn_ok_def)
  have "load_ok conns (length loads) \<lparr>ul_conns = 0, ul_pending = 0, ul_ips = [], ul_admitting = None\<rparr>"
    using away by (simp add: load_ok_def counts_of_Nil zero)
  then show ?thesis using ok by (auto simp: loads_ok_def nth_append less_Suc_eq)
qed

lemma ensure_user_ok: "tracker_ok w \<Longrightarrow> tracker_ok (ensure_user uid w)"
proof (cases "has_key (ct_users w) uid")
  case False
  assume ok: "tracker_ok w"
  have cns: "\<And>cn. cn \<in> set (ct_conns w) \<Longrightarrow> conn_ok (length (ct_loads w)) (ct_counter w) cn" using ok by (simp add: tracker_ok_def)
  then have "\<forall>cn \<in> set (ct_conns w). conn_ok (Suc (length (ct_loads w))) (ct_counter w) cn"
    by (auto simp: conn_ok_def intro: less_SucI)
  moreover have "\<forall>e \<in> set (ct_users w). snd e < length (ct_loads w)" using ok by (simp add: tracker_ok_def)
  then have "\<forall>e \<in> insert (uid, length (ct_loads w)) (set (ct_users w)). snd e < Suc (length (ct_loads w))" by (auto intro: less_SucI)
  then have "\<forall>e \<in> set (AList.update uid (length (ct_loads w)) (ct_users w)). snd e < Suc (length (ct_loads w))"
    by (rule ball_subset [OF update_in_insert])
  ultimately show ?thesis using ok False loads_grow [OF _ cns] by (simp add: ensure_user_def tracker_ok_def)
qed (simp add: ensure_user_def)

lemma fold_ensure_ok: "tracker_ok w \<Longrightarrow> tracker_ok (fold ensure_user uids w)"
  by (induction uids arbitrary: w) (simp_all add: ensure_user_ok)

lemma replace_users_ok: "tracker_ok w \<Longrightarrow> tracker_ok (replace_users name_of mode users w)"
proof -
  assume ok: "tracker_ok w"
  let ?w = "w\<lparr>ct_uuid_map := node_user_map name_of mode users, ct_identities := node_identities name_of mode users, ct_nodes := node_tags mode, ct_entry := is_entry mode\<rparr>"
  have "tracker_ok ?w" using ok by (simp add: tracker_ok_def)
  from fold_ensure_ok [OF this, of "map snd (node_user_map name_of mode users)"] show ?thesis
    by (simp add: replace_users_def Let_def tracker_ok_def)
qed

lemma revoked_subset: "set (revoked_access allowed access) \<subseteq> set access"
  by (auto simp: revoked_access_def split: option.split)

lemma replace_access_ok: "tracker_ok w \<Longrightarrow> tracker_ok (replace_access w)"
proof (cases "ct_replacing w")
  case (SwapAccess allowed)
  assume ok: "tracker_ok w"
  define gone where "gone = revoked_access allowed (ct_access w)"
  define access where "access = filter (\<lambda>e. e \<notin> set gone) (ct_access w)"
  have old: "access_ok (ct_access w) (ct_conns w)" "distinct_keys (ct_access w)" using ok by (simp_all add: tracker_ok_def)
  have "access_ok access (ct_conns w)" using old(1) unfolding access_ok_def access_def by simp
  moreover have "distinct_keys access" unfolding access_def using old(2) by (rule distinct_map_filter)
  moreover have "replace_ok (CloseRevoked (map (snd \<circ> snd) gone)) (ct_conns w)"
    using old(1) revoked_subset [of allowed "ct_access w"] unfolding access_ok_def gone_def by fastforce
  ultimately show ?thesis using ok SwapAccess by (simp add: replace_access_def Let_def tracker_ok_def gone_def [symmetric] access_def)
qed (simp_all add: replace_access_def)

lemma forget_user_ok: "tracker_ok w \<Longrightarrow> tracker_ok (forget_user uid w)"
proof -
  assume ok: "tracker_ok w"
  have sub: "set (AList.delete uid (ct_users w)) \<subseteq> set (ct_users w)" by (auto simp: AList.delete_eq)
  have "\<forall>e \<in> set (ct_users w). snd e < length (ct_loads w)" using ok by (simp add: tracker_ok_def)
  from ball_subset [OF sub this] show ?thesis using ok by (auto simp: forget_user_def tracker_ok_def split: option.split)
qed

lemma replacing_ok: "tracker_ok w \<Longrightarrow> replace_ok r (ct_conns w) \<Longrightarrow> tracker_ok (w\<lparr>ct_replacing := r\<rparr>)"
  by (simp add: tracker_ok_def)

lemma conn_step_ok: "tracker_ok w \<Longrightarrow> tracker_ok (conn_step p w)"
proof (cases p)
  case (CloseById name)
  assume ok: "tracker_ok w"
  have "tracker_ok (close_conn c w)" if "map_of (ct_conn_map w) name = Some c" for c
  proof -
    have "map_ok (ct_conn_map w) (ct_conns w)" using ok by (simp add: tracker_ok_def)
    from bspec [OF this [unfolded map_ok_def] map_of_SomeD [OF that]] show ?thesis by (intro close_conn_ok [OF ok]) auto
  qed
  then show ?thesis using ok by (simp add: CloseById split: option.split)
next
  case CloseNext
  assume ok: "tracker_ok w"
  have "tracker_ok ((close_conn c w)\<lparr>ct_replacing := CloseRevoked rest\<rparr>)" if "ct_replacing w = CloseRevoked (c # rest)" for c rest
  proof -
    have rp: "replace_ok (CloseRevoked (c # rest)) (ct_conns w)" using ok that by (simp add: tracker_ok_def)
    then have "tracker_ok (close_conn c w)" by (intro close_conn_ok [OF ok]) simp_all
    moreover have "replace_ok (CloseRevoked rest) (ct_conns (close_conn c w))" using rp by (auto simp: close_conn_def nth_list_update)
    ultimately show ?thesis by (rule replacing_ok)
  qed
  then show ?thesis using ok replacing_ok [OF ok, of NoReplace] by (simp add: CloseNext split: replace_stage.split list.split)
next
  case (GlobalDevices g)
  assume "tracker_ok w"
  then show ?thesis by (simp add: GlobalDevices tracker_ok_def)
qed (simp_all add: arrive_ok resolve_ok check_device_ok check_conn_ok acquire_ok proceed_ok close_conn_ok close_step_ok replace_users_ok
    replace_access_ok forget_user_ok)

interpretation conn_runs: invariant_machine conn_step tracker_ok
  by unfold_locales (rule conn_step_ok)

lemma new_tracker_ok: "tracker_ok (new_conn_tracker gate)"
  by (simp add: tracker_ok_def new_conn_tracker_def loads_ok_def sources_ok_def counts_of_Nil names_distinct_def access_ok_def map_ok_def)

lemma conn_run_ok: "tracker_ok (conn_run gate ops)"
  unfolding conn_run_def by (rule conn_runs.run_inv [OF new_tracker_ok])

section \<open>Revoked connections are closed\<close>

definition live_at :: "conn_tracker \<Rightarrow> nat \<Rightarrow> string \<Rightarrow> string \<Rightarrow> bool" where
  "live_at w d i n \<longleftrightarrow> d < length (ct_conns w) \<and> cn_stage (ct_conns w ! d) = Running \<and> cn_closing (ct_conns w ! d) = Opened \<and>
     cn_id (ct_conns w ! d) = i \<and> cn_user (ct_conns w ! d) = n"

definition to_close :: "replace_stage \<Rightarrow> nat set" where
  "to_close r = (case r of CloseRevoked cs \<Rightarrow> set cs | _ \<Rightarrow> {})"

definition access_current :: "conn_tracker \<Rightarrow> bool" where
  "access_current w \<longleftrightarrow>
     (case ct_replacing w of SwapAccess a \<Rightarrow> a = Some (map fst (ct_uuid_map w)) \<and> ct_allowed w \<noteq> None
      | _ \<Rightarrow> ct_allowed w = Some (map fst (ct_uuid_map w)))"

definition entry_ok :: "conn_tracker \<Rightarrow> bool" where
  "entry_ok w \<longleftrightarrow> access_current w \<and>
     (\<forall>e \<in> set (ct_access w). fst (snd e) \<in> set (the (ct_allowed w))) \<and>
     (\<forall>d i n. live_at w d i n \<longrightarrow> map_of (ct_access w) i = Some (n, d) \<or> d \<in> to_close (ct_replacing w))"

text \<open>An update of the users of an entry.\<close>

fun for_entry :: "conn_op \<Rightarrow> bool" where
  "for_entry (ReplaceUsers name_of mode users) = is_entry mode"
| "for_entry _ = True"

lemma live_named: "live_at w d i n \<Longrightarrow> d < length (ct_conns w) \<and> named (ct_conns w ! d) \<and> cn_id (ct_conns w ! d) = i"
  by (simp add: live_at_def named_def)

lemma live_set_conn:
  "live_at (set_conn c f w) d i n \<Longrightarrow> c < length (ct_conns w) \<Longrightarrow>
   (d = c \<and> cn_stage (f (ct_conns w ! c)) = Running \<and> cn_closing (f (ct_conns w ! c)) = Opened) \<or> (d \<noteq> c \<and> live_at w d i n)"
  by (auto simp: live_at_def nth_list_update split: if_splits)

lemma live_frame [simp]:
  "live_at (set_load l g w) d i n = live_at w d i n" "live_at (count_source k ip w) d i n = live_at w d i n" "live_at (uncount_source k ip w) d i n = live_at w d i n"
  "live_at (w\<lparr>ct_access := a\<rparr>) d i n = live_at w d i n" "live_at (w\<lparr>ct_conn_map := m\<rparr>) d i n = live_at w d i n"
  "live_at (w\<lparr>ct_counter := k'\<rparr>) d i n = live_at w d i n" "live_at (w\<lparr>ct_replacing := r\<rparr>) d i n = live_at w d i n"
  "live_at (w\<lparr>ct_global := g'\<rparr>) d i n = live_at w d i n" "live_at (w\<lparr>ct_users := us\<rparr>) d i n = live_at w d i n"
  by (simp_all add: live_at_def)

lemma entry_frame:
  assumes "entry_ok w" "\<And>d i n. live_at w' d i n \<Longrightarrow> live_at w d i n"
    "ct_access w' = ct_access w" "ct_allowed w' = ct_allowed w" "ct_replacing w' = ct_replacing w" "ct_uuid_map w' = ct_uuid_map w"
  shows "entry_ok w'"
proof -
  have "access_current w' = access_current w" using assms(3-6) by (cases "ct_replacing w") (simp_all add: access_current_def)
  then show ?thesis using assms unfolding entry_ok_def by simp
qed

lemma entry_conn:
  assumes "entry_ok w" "c < length (ct_conns w)" "cn_stage (f (ct_conns w ! c)) \<noteq> Running \<or> cn_closing (f (ct_conns w ! c)) \<noteq> Opened"
    "ct_conns w' = ct_conns w" "ct_access w' = ct_access w" "ct_allowed w' = ct_allowed w" "ct_replacing w' = ct_replacing w" "ct_uuid_map w' = ct_uuid_map w"
  shows "entry_ok (set_conn c f w')"
proof (rule entry_frame [OF assms(1)])
  fix d i n assume "live_at (set_conn c f w') d i n"
  from live_set_conn [OF this] assms show "live_at w d i n" by (auto simp: live_at_def)
qed (use assms in simp_all)

lemma entry_arrive: "entry_ok w \<Longrightarrow> entry_ok (arrive name source outbound packet w)"
  by (rule entry_frame) (auto simp: live_at_def arrive_def nth_append split: if_splits)

lemma entry_resolve: "entry_ok w \<Longrightarrow> c < length (ct_conns w) \<Longrightarrow> entry_ok (resolve_user c w)"
  by (simp add: resolve_user_def Let_def set_conn_twice entry_conn)

lemma entry_check_device: "entry_ok w \<Longrightarrow> c < length (ct_conns w) \<Longrightarrow> entry_ok (check_device dl ck pk fresh c w)"
  by (simp add: check_device_def Let_def entry_conn split: option.split)

lemma entry_check_conn: "entry_ok w \<Longrightarrow> c < length (ct_conns w) \<Longrightarrow> entry_ok (check_conn limiter c w)"
  by (simp add: check_conn_def Let_def entry_conn split: option.split)

lemma entry_acquire: "entry_ok w \<Longrightarrow> c < length (ct_conns w) \<Longrightarrow> entry_ok (acquire_result granted c w)"
  by (simp add: acquire_result_def Let_def entry_conn)

lemma entry_settle: "entry_ok w \<Longrightarrow> c < length (ct_conns w) \<Longrightarrow> entry_ok (settle_device b c w)"
  by (simp add: settle_device_def Let_def entry_conn split: option.split)

lemma entry_track: "entry_ok w \<Longrightarrow> c < length (ct_conns w) \<Longrightarrow> entry_ok (track_source c w)"
proof -
  assume ok: "entry_ok w" and c: "c < length (ct_conns w)"
  have "entry_ok (set_conn c f (w\<lparr>ct_counter := n\<rparr>))" if "cn_stage (f (ct_conns w ! c)) \<noteq> Running" for f n
    by (rule entry_conn [OF ok c]) (use that in simp_all)
  moreover have "entry_ok (count_source k ip w')" if "entry_ok w'" for k ip w'
    by (rule entry_frame [OF that]) simp_all
  ultimately show ?thesis by (simp add: track_source_def Let_def)
qed

lemma entry_map: "entry_ok w \<Longrightarrow> c < length (ct_conns w) \<Longrightarrow> entry_ok (map_conn c w)"
  by (simp add: map_conn_def entry_conn)

lemma entry_close: "entry_ok w \<Longrightarrow> c < length (ct_conns w) \<Longrightarrow> entry_ok (close_conn c w)"
  by (simp add: close_conn_def entry_conn)

lemma entry_close_step:
  assumes ok: "entry_ok w" and tok: "tracker_ok w" and c: "c < length (ct_conns w)"
  shows "entry_ok (close_step c w)"
proof (cases "cn_closing (ct_conns w ! c) = Unregister")
  case True
  let ?i = "cn_id (ct_conns w ! c)"
  let ?w = "w\<lparr>ct_access := AList.delete ?i (ct_access w)\<rparr>"
  have named: "named (ct_conns w ! c)" using conn_okI [OF tok c] True by (auto simp: conn_ok_def named_def)
  have nd: "names_distinct (ct_conns w)" using tok by (simp add: tracker_ok_def)
  have other: "map_of (AList.delete ?i (ct_access w)) i = map_of (ct_access w) i" if "live_at w d i n" for d i n
  proof -
    have "d \<noteq> c" using that True by (auto simp: live_at_def)
    then have "i \<noteq> ?i" using names_distinctD [OF nd, of d c] live_named [OF that] c named by auto
    then show ?thesis by (simp add: go_map)
  qed
  have "access_current ?w = access_current w" by (cases "ct_replacing w") (simp_all add: access_current_def)
  moreover have "\<forall>e \<in> set (AList.delete ?i (ct_access w)). fst (snd e) \<in> set (the (ct_allowed w))"
    using ok by (auto simp: entry_ok_def AList.delete_eq)
  moreover have "map_of (AList.delete ?i (ct_access w)) i = Some (n, d) \<or> d \<in> to_close (ct_replacing w)" if "live_at w d i n" for d i n
    using ok that other [OF that] by (simp add: entry_ok_def)
  ultimately have "entry_ok ?w" using ok by (simp add: entry_ok_def)
  then show ?thesis using True c by (simp add: close_step_def Let_def entry_conn)
next
  case False
  then show ?thesis using ok c by (cases "cn_closing (ct_conns w ! c)") (simp_all add: close_step_def Let_def entry_conn split: option.split)
qed

lemma entry_register:
  assumes ok: "entry_ok w" and tok: "tracker_ok w" and c: "c < length (ct_conns w)" and st: "cn_stage (ct_conns w ! c) = Registering"
  shows "entry_ok (register_conn c w)"
proof -
  let ?cn = "ct_conns w ! c"
  obtain names where names: "ct_allowed w = Some names"
    using ok by (cases "ct_replacing w") (auto simp: entry_ok_def access_current_def)
  show ?thesis
  proof (cases "cn_user ?cn \<in> set names")
    case False
    have "cn_closing (ct_conns (close_conn c w) ! c) \<noteq> Opened" using c by (simp add: close_conn_def)
    moreover have "entry_ok (close_conn c w)" by (rule entry_close [OF ok c])
    ultimately have "entry_ok (go_to Running c (close_conn c w))"
      by (intro entry_conn [where w = "close_conn c w"]) (use c in \<open>simp_all add: close_conn_def\<close>)
    then show ?thesis using False names by (simp add: register_conn_def Let_def)
  next
    case True
    let ?access = "AList.update (cn_id ?cn) (cn_user ?cn, c) (ct_access w)"
    let ?w = "go_to Running c (w\<lparr>ct_access := ?access\<rparr>)"
    have named: "named ?cn" using st by (simp add: named_def)
    have nd: "names_distinct (ct_conns w)" using tok by (simp add: tracker_ok_def)
    have "map_of ?access i = Some (n, d) \<or> d \<in> to_close (ct_replacing w)" if live: "live_at ?w d i n" for d i n
    proof (cases "d = c")
      case True
      then show ?thesis using live c by (simp add: live_at_def go_map)
    next
      case False
      then have old: "live_at w d i n" using live c by (auto simp: live_at_def)
      then have "i \<noteq> cn_id ?cn" using names_distinctD [OF nd, of d c] live_named [OF old] c named False by auto
      then show ?thesis using ok old by (auto simp: entry_ok_def go_map)
    qed
    moreover have "\<forall>e \<in> insert (cn_id ?cn, cn_user ?cn, c) (set (ct_access w)). fst (snd e) \<in> set names"
      using ok True names by (simp add: entry_ok_def)
    then have "\<forall>e \<in> set ?access. fst (snd e) \<in> set names" by (rule ball_subset [OF update_in_insert])
    moreover have "access_current ?w" using ok by (cases "ct_replacing w") (simp_all add: entry_ok_def access_current_def)
    ultimately have "entry_ok ?w" using names by (simp add: entry_ok_def)
    then show ?thesis using True names by (simp add: register_conn_def Let_def)
  qed
qed

lemma entry_proceed: "entry_ok w \<Longrightarrow> tracker_ok w \<Longrightarrow> c < length (ct_conns w) \<Longrightarrow> entry_ok (proceed c w)"
  by (cases "cn_stage (ct_conns w ! c)") (simp_all add: proceed_def entry_settle entry_track entry_map entry_register)

lemma entry_replace_access:
  assumes ok: "entry_ok w" and tok: "tracker_ok w"
  shows "entry_ok (replace_access w)"
proof (cases "ct_replacing w")
  case (SwapAccess allowed)
  define names where "names = map fst (ct_uuid_map w)"
  define gone where "gone = revoked_access allowed (ct_access w)"
  define access where "access = filter (\<lambda>e. e \<notin> set gone) (ct_access w)"
  have allowed: "allowed = Some names" using ok SwapAccess by (simp add: entry_ok_def access_current_def names_def)
  have gone: "set gone = {e \<in> set (ct_access w). fst (snd e) \<notin> set names}" by (auto simp: gone_def revoked_access_def allowed)
  have keys: "distinct_keys (ct_access w)" using tok by (simp add: tracker_ok_def)
  let ?w = "w\<lparr>ct_allowed := allowed, ct_access := access, ct_replacing := CloseRevoked (map (snd \<circ> snd) gone)\<rparr>"
  have "map_of access i = Some (n, d) \<or> d \<in> to_close (ct_replacing ?w)" if "live_at ?w d i n" for d i n
  proof -
    have "live_at w d i n" using that by (simp add: live_at_def)
    then have "map_of (ct_access w) i = Some (n, d)" using ok SwapAccess by (simp add: entry_ok_def to_close_def)
    then have e: "(i, n, d) \<in> set (ct_access w)" by (rule map_of_SomeD)
    have "distinct_keys access" unfolding access_def using keys by (rule distinct_map_filter)
    then show ?thesis using e by (cases "(i, n, d) \<in> set gone") (force simp: to_close_def access_def)+
  qed
  moreover have "\<forall>e \<in> set access. fst (snd e) \<in> set names" by (auto simp: access_def gone)
  ultimately have "entry_ok ?w" by (simp add: entry_ok_def access_current_def allowed names_def)
  then show ?thesis using SwapAccess by (simp add: replace_access_def Let_def gone_def access_def)
qed (use ok in \<open>simp_all add: replace_access_def\<close>)

lemma ensure_fields [simp]:
  "ct_conns (fold ensure_user us w) = ct_conns w" "ct_access (fold ensure_user us w) = ct_access w" "ct_allowed (fold ensure_user us w) = ct_allowed w"
  "ct_uuid_map (fold ensure_user us w) = ct_uuid_map w" "ct_replacing (fold ensure_user us w) = ct_replacing w"
  by (induction us arbitrary: w) (simp_all add: ensure_user_def)

lemma entry_replace_users:
  assumes "entry_ok w" "ct_replacing w = NoReplace" "is_entry mode"
  shows "entry_ok (replace_users name_of mode users w)"
  using assms by (auto simp: replace_users_def Let_def entry_ok_def access_current_def to_close_def live_at_def)

lemma entry_step: "entry_ok w \<Longrightarrow> tracker_ok w \<Longrightarrow> for_entry p \<Longrightarrow> entry_ok (conn_step p w)"
proof (cases p)
  case (CloseById name)
  assume ok: "entry_ok w" and tok: "tracker_ok w"
  have "c < length (ct_conns w)" if "map_of (ct_conn_map w) name = Some c" for c
  proof -
    have "map_ok (ct_conn_map w) (ct_conns w)" using tok by (simp add: tracker_ok_def)
    from bspec [OF this [unfolded map_ok_def] map_of_SomeD [OF that]] show ?thesis by simp
  qed
  then show ?thesis using ok entry_close by (simp add: CloseById split: option.split)
next
  case CloseNext
  assume ok: "entry_ok w" and tok: "tracker_ok w"
  have "entry_ok ((close_conn c w)\<lparr>ct_replacing := CloseRevoked rest\<rparr>)" if r: "ct_replacing w = CloseRevoked (c # rest)" for c rest
  proof -
    have c: "c < length (ct_conns w)" using tok r by (simp add: tracker_ok_def)
    have closed: "cn_closing (ct_conns (close_conn c w) ! c) \<noteq> Opened" using c by (simp add: close_conn_def)
    have fields: "ct_access (close_conn c w) = ct_access w" "ct_allowed (close_conn c w) = ct_allowed w" "ct_uuid_map (close_conn c w) = ct_uuid_map w"
      by (simp_all add: close_conn_def)
    have "map_of (ct_access w) i = Some (n, d) \<or> d \<in> set rest" if "live_at (close_conn c w) d i n" for d i n
    proof -
      have "d \<noteq> c" using that closed by (auto simp: live_at_def)
      then have "live_at w d i n" using that c by (auto simp: close_conn_def live_at_def split: if_splits)
      then show ?thesis using ok r \<open>d \<noteq> c\<close> by (auto simp: entry_ok_def to_close_def)
    qed
    then show ?thesis using ok r fields by (auto simp: entry_ok_def access_current_def to_close_def)
  qed
  moreover have "entry_ok (w\<lparr>ct_replacing := NoReplace\<rparr>)" if "ct_replacing w = CloseRevoked []"
    using ok that by (auto simp: entry_ok_def access_current_def to_close_def)
  ultimately show ?thesis using ok by (simp add: CloseNext split: replace_stage.split list.split)
next
  case (ForgetUser uid)
  assume "entry_ok w"
  then have "entry_ok (w\<lparr>ct_users := us\<rparr>)" for us by (rule entry_frame) simp_all
  then show ?thesis using \<open>entry_ok w\<close> by (simp add: ForgetUser forget_user_def split: option.split)
next
  case (GlobalDevices g)
  assume "entry_ok w"
  then have "entry_ok (w\<lparr>ct_global := g\<rparr>)" by (rule entry_frame) simp_all
  then show ?thesis by (simp add: GlobalDevices)
qed (simp_all add: entry_arrive entry_resolve entry_check_device entry_check_conn entry_acquire entry_proceed entry_close entry_close_step
    entry_replace_users entry_replace_access)

section \<open>The device limit\<close>

definition keys_with :: "(string \<Rightarrow> string) \<Rightarrow> (string, int) go_map \<Rightarrow> string \<Rightarrow> string set" where
  "keys_with ck ips source = local_keys ck ips \<union> ({ck source} - {''''})"

definition devices_ok :: "(string \<Rightarrow> string) \<Rightarrow> int \<Rightarrow> conn_tracker \<Rightarrow> bool" where
  "devices_ok ck limit w \<longleftrightarrow> \<not> ct_gate w \<and>
     (\<forall>cn \<in> set (ct_conns w). cn_stage cn \<notin> {Acquiring, Settling True, Settling False}) \<and>
     (\<forall>l < length (ct_loads w). int (card (local_keys ck (ul_ips (ct_loads w ! l)))) \<le> limit) \<and>
     (\<forall>c < length (ct_conns w). \<forall>l < length (ct_loads w). cn_stage (ct_conns w ! c) = CheckingConn \<and> cn_load (ct_conns w ! c) = Some l \<longrightarrow>
        ul_admitting (ct_loads w ! l) = Some c \<and> int (card (keys_with ck (ul_ips (ct_loads w ! l)) (cn_source (ct_conns w ! c)))) \<le> limit)"

text \<open>A step that asks for devices with these settings.\<close>

fun asks_limit :: "(string \<Rightarrow> string) \<Rightarrow> int \<Rightarrow> conn_op \<Rightarrow> bool" where
  "asks_limit ck limit (CheckDevice c device_limit count_key panel_key fresh) \<longleftrightarrow>
     count_key = ck \<and> device_limit = (\<lambda>_. Some limit) \<and> \<not> fresh"
| "asks_limit ck limit _ \<longleftrightarrow> True"

lemma finite_keys [simp]: "finite (local_keys ck ips)" "finite (keys_with ck ips s)"
  by (simp_all add: local_keys_def keys_with_def)

lemma local_keys_image: "local_keys ck ips = ck ` fst ` set ips - {''''}"
  by (auto simp: local_keys_def)

lemma keys_drop: "local_keys ck (drop_ip ip ips) \<subseteq> local_keys ck ips"
proof -
  have "fst ` set (AList.update ip n ips) \<subseteq> fst ` set ips" if "get_or 0 ips ip > 1" for n
  proof -
    have "ip \<in> fst ` set ips" using that by (force simp: get_or_def dest: map_of_SomeD split: option.splits)
    then show ?thesis by (auto simp: dom_update)
  qed
  moreover have "fst ` set (AList.delete ip ips) \<subseteq> fst ` set ips" by (auto simp: AList.delete_eq)
  ultimately have "fst ` set (drop_ip ip ips) \<subseteq> fst ` set ips" by (simp add: drop_ip_def Let_def)
  then show ?thesis unfolding local_keys_image by blast
qed

lemma keys_add: "local_keys ck (ul_ips (add_conn ip u)) = keys_with ck (ul_ips u) ip"
proof -
  have "fst ` set (AList.update ip n ips) = insert ip (fst ` set ips)" for n and ips :: "(string, int) go_map" by (simp add: dom_update)
  then show ?thesis by (auto simp: local_keys_image keys_with_def add_conn_def)
qed

lemma keys_with_mono: "local_keys ck a \<subseteq> local_keys ck b \<Longrightarrow> keys_with ck a s \<subseteq> keys_with ck b s"
  by (auto simp: keys_with_def)

lemma devices_frame:
  assumes ok: "devices_ok ck limit w" and gate: "ct_gate w' = ct_gate w" and limit: "0 \<le> limit"
    and stages: "\<And>cn. cn \<in> set (ct_conns w') \<Longrightarrow> cn_stage cn \<notin> {Acquiring, Settling True, Settling False}"
    and loads: "\<And>l. l < length (ct_loads w') \<Longrightarrow>
      (l < length (ct_loads w) \<and> local_keys ck (ul_ips (ct_loads w' ! l)) \<subseteq> local_keys ck (ul_ips (ct_loads w ! l))) \<or> ul_ips (ct_loads w' ! l) = []"
    and conns: "\<And>c l. c < length (ct_conns w') \<Longrightarrow> l < length (ct_loads w') \<Longrightarrow> cn_stage (ct_conns w' ! c) = CheckingConn \<Longrightarrow>
      cn_load (ct_conns w' ! c) = Some l \<Longrightarrow>
      c < length (ct_conns w) \<and> l < length (ct_loads w) \<and> ct_conns w' ! c = ct_conns w ! c \<and> ul_admitting (ct_loads w' ! l) = ul_admitting (ct_loads w ! l)"
  shows "devices_ok ck limit w'"
  unfolding devices_ok_def
proof (intro conjI allI impI ballI)
  show "\<not> ct_gate w'" using ok gate by (simp add: devices_ok_def)
next
  fix cn assume "cn \<in> set (ct_conns w')"
  then show "cn_stage cn \<notin> {Acquiring, Settling True, Settling False}" by (rule stages)
next
  fix l assume l: "l < length (ct_loads w')"
  show "int (card (local_keys ck (ul_ips (ct_loads w' ! l)))) \<le> limit"
  proof (cases "ul_ips (ct_loads w' ! l) = []")
    case True
    then show ?thesis using limit by (simp add: local_keys_def)
  next
    case False
    then have sub: "l < length (ct_loads w)" "local_keys ck (ul_ips (ct_loads w' ! l)) \<subseteq> local_keys ck (ul_ips (ct_loads w ! l))" using loads [OF l] by auto
    then show ?thesis using card_mono [OF finite_keys(1) sub(2)] ok by (force simp: devices_ok_def)
  qed
next
  fix c l
  assume c: "c < length (ct_conns w')" and l: "l < length (ct_loads w')" and at: "cn_stage (ct_conns w' ! c) = CheckingConn \<and> cn_load (ct_conns w' ! c) = Some l"
  have old: "c < length (ct_conns w)" "l < length (ct_loads w)" "ct_conns w' ! c = ct_conns w ! c" "ul_admitting (ct_loads w' ! l) = ul_admitting (ct_loads w ! l)"
    using conns [OF c l] at by simp_all
  then have was: "ul_admitting (ct_loads w ! l) = Some c" "int (card (keys_with ck (ul_ips (ct_loads w ! l)) (cn_source (ct_conns w ! c)))) \<le> limit"
    using ok at by (simp_all add: devices_ok_def)
  then show "ul_admitting (ct_loads w' ! l) = Some c" using old by simp
  have "keys_with ck (ul_ips (ct_loads w' ! l)) s \<subseteq> keys_with ck (ul_ips (ct_loads w ! l)) s" for s
    using loads [OF l] keys_with_mono by (cases "ul_ips (ct_loads w' ! l) = []") (auto simp: keys_with_def local_keys_def)
  from card_mono [OF finite_keys(2) this, of "cn_source (ct_conns w ! c)"]
  show "int (card (keys_with ck (ul_ips (ct_loads w' ! l)) (cn_source (ct_conns w' ! c)))) \<le> limit"
    unfolding old(3) using was(2) by linarith
qed

lemma devices_holder:
  "devices_ok ck limit w \<Longrightarrow> c < length (ct_conns w) \<Longrightarrow> l < length (ct_loads w) \<Longrightarrow> cn_stage (ct_conns w ! c) = CheckingConn \<Longrightarrow>
   cn_load (ct_conns w ! c) = Some l \<Longrightarrow>
   ul_admitting (ct_loads w ! l) = Some c \<and> int (card (keys_with ck (ul_ips (ct_loads w ! l)) (cn_source (ct_conns w ! c)))) \<le> limit"
  unfolding devices_ok_def by blast

lemma devices_stages:
  "devices_ok ck limit w \<Longrightarrow> cn \<in> set (ct_conns w) \<Longrightarrow> cn_stage cn \<notin> {Acquiring, Settling True, Settling False}"
  unfolding devices_ok_def by blast

lemma devices_stage:
  assumes ok: "devices_ok ck limit w" and c: "c < length (ct_conns w)" and x: "cn_stage (f (ct_conns w ! c)) \<notin> {Acquiring, Settling True, Settling False}"
      "cn_stage (f (ct_conns w ! c)) = CheckingConn \<Longrightarrow> cn_load (f (ct_conns w ! c)) = None"
    and limit: "0 < limit" and w': "ct_conns w' = ct_conns w" "ct_gate w' = ct_gate w"
      "\<And>l. l < length (ct_loads w') \<Longrightarrow> l < length (ct_loads w) \<and> ul_admitting (ct_loads w' ! l) = ul_admitting (ct_loads w ! l) \<and>
         local_keys ck (ul_ips (ct_loads w' ! l)) \<subseteq> local_keys ck (ul_ips (ct_loads w ! l))"
  shows "devices_ok ck limit (set_conn c f w')"
proof (rule devices_frame [OF ok])
  fix cn assume "cn \<in> set (ct_conns (set_conn c f w'))"
  then have "cn \<in> set ((ct_conns w)[c := f (ct_conns w ! c)])" by (simp add: w'(1))
  from subsetD [OF set_update_subset_insert this] have "cn = f (ct_conns w ! c) \<or> cn \<in> set (ct_conns w)" by simp
  moreover have "cn_stage cn \<notin> {Acquiring, Settling True, Settling False}" if "cn \<in> set (ct_conns w)" using devices_stages [OF ok that] .
  ultimately show "cn_stage cn \<notin> {Acquiring, Settling True, Settling False}" using x(1) by metis
next
  fix d l
  assume "d < length (ct_conns (set_conn c f w'))" "l < length (ct_loads (set_conn c f w'))"
    and at: "cn_stage (ct_conns (set_conn c f w') ! d) = CheckingConn" "cn_load (ct_conns (set_conn c f w') ! d) = Some l"
  moreover have "d \<noteq> c" using at x(2) c w'(1) by auto
  ultimately show "d < length (ct_conns w) \<and> l < length (ct_loads w) \<and> ct_conns (set_conn c f w') ! d = ct_conns w ! d \<and>
      ul_admitting (ct_loads (set_conn c f w') ! l) = ul_admitting (ct_loads w ! l)"
    using w' by simp
qed (use limit w' in simp_all)

lemma devices_check:
  assumes ok: "devices_ok ck limit w" and limit: "0 < limit" and c: "c < length (ct_conns w)" and st: "cn_stage (ct_conns w ! c) = CheckingDevice"
  shows "devices_ok ck limit (check_device (\<lambda>_. Some limit) ck pk False c w)"
proof -
  let ?cn = "ct_conns w ! c"
  have stages: "cn_stage cn \<notin> {Acquiring, Settling True, Settling False}" if "cn \<in> set ((ct_conns w)[c := ?cn\<lparr>cn_stage := st'\<rparr>])" "st' \<in> {Refused, CheckingConn}" for cn st'
  proof -
    have "cn = ?cn\<lparr>cn_stage := st'\<rparr> \<or> cn \<in> set (ct_conns w)"
      using subsetD [OF set_update_subset_insert that(1)] by simp
    moreover have "cn_stage cn \<notin> {Acquiring, Settling True, Settling False}" if "cn \<in> set (ct_conns w)" using devices_stages [OF ok that] .
    moreover have "cn_stage (?cn\<lparr>cn_stage := st'\<rparr>) \<notin> {Acquiring, Settling True, Settling False}" using that(2) by auto
    ultimately show ?thesis by metis
  qed
  have refuse: "devices_ok ck limit (go_to Refused c w)" by (rule devices_stage [OF ok c _ _ limit]) simp_all
  have gate: "\<not> ct_gate w" using ok by (simp add: devices_ok_def)
  show ?thesis
  proof (cases "cn_load ?cn")
    case None
    have "devices_ok ck limit (go_to CheckingConn c w)" by (rule devices_stage [OF ok c _ _ limit]) (simp_all add: None)
    then show ?thesis using None by (simp add: check_device_def Let_def)
  next
    case (Some l)
    let ?ips = "ul_ips (ct_loads w ! l)"
    let ?w = "go_to CheckingConn c (set_load l (\<lambda>u. u\<lparr>ul_admitting := Some c\<rparr>) w)"
    have "devices_ok ck limit ?w" if free: "ul_admitting (ct_loads w ! l) = None" and pass: "\<not> device_rejected ck pk False limit (cn_source ?cn) ?ips g" for g
      unfolding devices_ok_def
    proof (intro conjI allI impI ballI)
      show "\<not> ct_gate ?w" using gate by simp
    next
      fix cn assume "cn \<in> set (ct_conns ?w)"
      then show "cn_stage cn \<notin> {Acquiring, Settling True, Settling False}" using stages [of cn CheckingConn] by simp
    next
      fix m assume "m < length (ct_loads ?w)"
      then show "int (card (local_keys ck (ul_ips (ct_loads ?w ! m)))) \<le> limit" using ok by (cases "m = l") (simp_all add: devices_ok_def)
    next
      fix d m
      assume d: "d < length (ct_conns ?w)" and m: "m < length (ct_loads ?w)" and at: "cn_stage (ct_conns ?w ! d) = CheckingConn \<and> cn_load (ct_conns ?w ! d) = Some m"
      have old: "ul_admitting (ct_loads w ! m) = Some d \<and> int (card (keys_with ck (ul_ips (ct_loads w ! m)) (cn_source (ct_conns w ! d)))) \<le> limit" if "d \<noteq> c"
        using devices_holder [OF ok, of d m] d m at that by simp
      have here: "int (card (keys_with ck ?ips (cn_source ?cn))) \<le> limit" if "l < length (ct_loads w)"
      proof -
        have bound: "int (card (local_keys ck ?ips)) \<le> limit" using ok that by (simp add: devices_ok_def)
        show ?thesis
        proof (cases "ck (cn_source ?cn) = '''' \<or> ck (cn_source ?cn) \<in> local_keys ck ?ips")
          case True
          then have "keys_with ck ?ips (cn_source ?cn) = local_keys ck ?ips" by (auto simp: keys_with_def)
          then show ?thesis using bound by simp
        next
          case False
          then have "int (card (local_keys ck ?ips)) < limit" using pass limit by (simp add: device_rejected_def Let_def)
          moreover have "keys_with ck ?ips (cn_source ?cn) = insert (ck (cn_source ?cn)) (local_keys ck ?ips)"
            using False by (auto simp: keys_with_def)
          ultimately show ?thesis using False by simp
        qed
      qed
      show "ul_admitting (ct_loads ?w ! m) = Some d" using old d m at free Some c by (cases "d = c"; cases "m = l") auto
      show "int (card (keys_with ck (ul_ips (ct_loads ?w ! m)) (cn_source (ct_conns ?w ! d)))) \<le> limit"
        using old here m at Some c d by (cases "d = c"; cases "m = l") auto
    qed
    then show ?thesis using ok refuse Some gate by (simp add: check_device_def Let_def)
  qed
qed

lemma devices_same:
  assumes ok: "devices_ok ck limit w" and limit: "0 < limit" and w': "ct_conns w' = ct_conns w" "ct_gate w' = ct_gate w" "ct_loads w' = ct_loads w"
  shows "devices_ok ck limit w'"
  using ok by (simp add: devices_ok_def w')

lemma devices_conn:
  assumes ok: "devices_ok ck limit w" and limit: "0 < limit" and c: "c < length (ct_conns w)" and st: "cn_stage (ct_conns w ! c) = CheckingConn"
  shows "devices_ok ck limit (check_conn limiter c w)"
proof -
  let ?cn = "ct_conns w ! c"
  have gate: "\<not> ct_gate w" using ok by (simp add: devices_ok_def)
  show ?thesis
  proof (cases "cn_load ?cn")
    case None
    have "devices_ok ck limit (go_to st' c w)" if "st' \<in> {Refused, Tracking}" for st'
      by (rule devices_stage [OF ok c _ _ limit]) (use that in auto)
    then show ?thesis using None gate by (simp add: check_conn_def Let_def)
  next
    case (Some l)
    have sole: "d = c" if "d < length (ct_conns w)" "cn_stage (ct_conns w ! d) = CheckingConn" "cn_load (ct_conns w ! d) = Some l" "l < length (ct_loads w)" for d
      using devices_holder [OF ok that(1,4,2,3)] devices_holder [OF ok c that(4) st Some] by simp
    have go: "devices_ok ck limit (go_to st' c (set_load l g w))"
      if st': "st' \<in> {Refused, Tracking}" and keys: "l < length (ct_loads w) \<Longrightarrow> int (card (local_keys ck (ul_ips (g (ct_loads w ! l))))) \<le> limit" for st' g
      unfolding devices_ok_def
    proof (intro conjI allI impI ballI)
      show "\<not> ct_gate (go_to st' c (set_load l g w))" using gate by simp
    next
      fix cn assume "cn \<in> set (ct_conns (go_to st' c (set_load l g w)))"
      then have "cn \<in> set ((ct_conns w)[c := ?cn\<lparr>cn_stage := st'\<rparr>])" by simp
      from subsetD [OF set_update_subset_insert this] have "cn = ?cn\<lparr>cn_stage := st'\<rparr> \<or> cn \<in> set (ct_conns w)" by simp
      moreover have "cn_stage cn \<notin> {Acquiring, Settling True, Settling False}" if "cn \<in> set (ct_conns w)" using devices_stages [OF ok that] .
      ultimately show "cn_stage cn \<notin> {Acquiring, Settling True, Settling False}" using st' by auto
    next
      fix m assume "m < length (ct_loads (go_to st' c (set_load l g w)))"
      then show "int (card (local_keys ck (ul_ips (ct_loads (go_to st' c (set_load l g w)) ! m)))) \<le> limit"
        using ok keys by (cases "m = l") (simp_all add: devices_ok_def)
    next
      fix d m
      let ?w = "go_to st' c (set_load l g w)"
      assume d: "d < length (ct_conns ?w)" and m: "m < length (ct_loads ?w)" and at: "cn_stage (ct_conns ?w ! d) = CheckingConn \<and> cn_load (ct_conns ?w ! d) = Some m"
      have "d \<noteq> c" using at st' c by auto
      moreover have "m \<noteq> l" using sole [of d] at d m \<open>d \<noteq> c\<close> by auto
      ultimately have "ul_admitting (ct_loads w ! m) = Some d \<and> int (card (keys_with ck (ul_ips (ct_loads w ! m)) (cn_source (ct_conns w ! d)))) \<le> limit"
        using devices_holder [OF ok, of d m] d m at by simp
      then show "ul_admitting (ct_loads ?w ! m) = Some d"
        and "int (card (keys_with ck (ul_ips (ct_loads ?w ! m)) (cn_source (ct_conns ?w ! d)))) \<le> limit"
        using \<open>d \<noteq> c\<close> \<open>m \<noteq> l\<close> by simp_all
    qed
    have "devices_ok ck limit (go_to Refused c (set_load l (\<lambda>u. u\<lparr>ul_admitting := None\<rparr>) w))"
      by (rule go) (use ok in \<open>simp_all add: devices_ok_def\<close>)
    moreover have "devices_ok ck limit (go_to Tracking c (set_load l (\<lambda>u. (add_conn (cn_source ?cn) u)\<lparr>ul_admitting := None\<rparr>) w))"
    proof (rule go)
      assume "l < length (ct_loads w)"
      then have "int (card (keys_with ck (ul_ips (ct_loads w ! l)) (cn_source ?cn))) \<le> limit" using devices_holder [OF ok c _ st Some] by simp
      then show "int (card (local_keys ck (ul_ips ((add_conn (cn_source ?cn) (ct_loads w ! l))\<lparr>ul_admitting := None\<rparr>)))) \<le> limit"
        by (simp add: keys_add)
    qed simp
    ultimately show ?thesis using Some gate by (simp add: check_conn_def Let_def)
  qed
qed

lemma devices_loads:
  "l < length (ct_loads w) \<Longrightarrow> ul_ips (ct_loads (set_load m (remove_conn ip) w) ! l) = (if l = m then drop_ip ip (ul_ips (ct_loads w ! l)) else ul_ips (ct_loads w ! l))"
  "ul_admitting (ct_loads (set_load m (remove_conn ip) w) ! l) = ul_admitting (ct_loads w ! l)"
  by (simp add: remove_conn_def) (cases "m < length (ct_loads w)"; cases "l = m"; simp add: remove_conn_def list_update_beyond)

lemma devices_ensure: "devices_ok ck limit w \<Longrightarrow> 0 < limit \<Longrightarrow> tracker_ok w \<Longrightarrow> devices_ok ck limit (ensure_user uid w)"
proof (cases "has_key (ct_users w) uid")
  case False
  assume ok: "devices_ok ck limit w" and limit: "0 < limit" and tok: "tracker_ok w"
  have range: "l < length (ct_loads w)" if "c < length (ct_conns w)" "cn_load (ct_conns w ! c) = Some l" for c l
    using conn_okI [OF tok that(1)] that(2) by (simp add: conn_ok_def)
  show ?thesis
  proof (rule devices_frame [OF ok])
    show "cn_stage cn \<notin> {Acquiring, Settling True, Settling False}" if "cn \<in> set (ct_conns (ensure_user uid w))" for cn
      using devices_stages [OF ok, of cn] that by (simp add: ensure_user_def False)
    show "(l < length (ct_loads w) \<and> local_keys ck (ul_ips (ct_loads (ensure_user uid w) ! l)) \<subseteq> local_keys ck (ul_ips (ct_loads w ! l))) \<or>
        ul_ips (ct_loads (ensure_user uid w) ! l) = []" if "l < length (ct_loads (ensure_user uid w))" for l
      using that by (cases "l = length (ct_loads w)") (simp_all add: ensure_user_def False nth_append)
  qed (use limit range in \<open>simp_all add: ensure_user_def False nth_append\<close>)
qed (simp add: ensure_user_def)

lemma devices_fold_ensure: "devices_ok ck limit w \<Longrightarrow> 0 < limit \<Longrightarrow> tracker_ok w \<Longrightarrow> devices_ok ck limit (fold ensure_user us w)"
  by (induction us arbitrary: w) (simp_all add: devices_ensure ensure_user_ok)

lemma devices_step:
  assumes ok: "devices_ok ck limit w" and limit: "0 < limit" and tok: "tracker_ok w" and p: "asks_limit ck limit p"
  shows "devices_ok ck limit (conn_step p w)"
proof -
  have stage: "devices_ok ck limit (set_conn c f w')"
    if "c < length (ct_conns w)" "cn_stage (f (ct_conns w ! c)) \<notin> {CheckingConn, Acquiring, Settling True, Settling False}"
      "ct_conns w' = ct_conns w" "ct_gate w' = ct_gate w" "ct_loads w' = ct_loads w" for c f w'
    by (rule devices_stage [OF ok that(1) _ _ limit that(3,4)]) (use that in auto)
  have close: "devices_ok ck limit (close_conn c w)" if "c < length (ct_conns w)" "cn_stage (ct_conns w ! c) \<in> {Registering, Running}" for c
    using that ok stage [of c "\<lambda>cn. cn\<lparr>cn_closing := Uncount\<rparr>" w] by (auto simp: close_conn_def)
  have replace: "devices_ok ck limit (w'\<lparr>ct_replacing := r\<rparr>)" if "devices_ok ck limit w'" for w' r
    by (rule devices_same [OF that limit]) simp_all
  show ?thesis
  proof (cases p)
    case (Arrive n s ob pk)
    have "devices_ok ck limit (arrive n s ob pk w)"
    proof (rule devices_frame [OF ok])
      show "cn_stage cn \<notin> {Acquiring, Settling True, Settling False}" if "cn \<in> set (ct_conns (arrive n s ob pk w))" for cn
        using devices_stages [OF ok, of cn] that by (auto simp: arrive_def)
      show "c < length (ct_conns w) \<and> l < length (ct_loads w) \<and> ct_conns (arrive n s ob pk w) ! c = ct_conns w ! c \<and>
          ul_admitting (ct_loads (arrive n s ob pk w) ! l) = ul_admitting (ct_loads w ! l)"
        if "c < length (ct_conns (arrive n s ob pk w))" "l < length (ct_loads (arrive n s ob pk w))"
          "cn_stage (ct_conns (arrive n s ob pk w) ! c) = CheckingConn" for c l
        using that by (cases "c = length (ct_conns w)") (simp_all add: arrive_def nth_append)
    qed (use limit in \<open>simp_all add: arrive_def\<close>)
    then show ?thesis by (simp add: Arrive)
  next
    case (Resolve c)
    then show ?thesis using ok stage by (simp add: resolve_user_def Let_def set_conn_twice)
  next
    case (CheckDevice c dl ck' pk fresh)
    then show ?thesis using ok p devices_check [OF ok limit] by simp
  next
    case (CheckConn c limiter)
    then show ?thesis using ok devices_conn [OF ok limit] by simp
  next
    case (AcquireResult c granted)
    have "cn_stage (ct_conns w ! c) \<noteq> Acquiring" if "c < length (ct_conns w)" using devices_stages [OF ok, of "ct_conns w ! c"] that by simp
    then show ?thesis using ok by (auto simp: AcquireResult)
  next
    case (Proceed c)
    have "devices_ok ck limit (proceed c w)" if c: "c < length (ct_conns w)"
    proof (cases "cn_stage (ct_conns w ! c)")
      case (Settling b)
      then show ?thesis using devices_stages [OF ok, of "ct_conns w ! c"] c by (cases b) simp_all
    next
      case Tracking
      have "devices_ok ck limit (count_source k ip w')" if "devices_ok ck limit w'" for k ip w'
        by (rule devices_same [OF that limit]) (simp_all add: count_source_def Let_def)
      then show ?thesis using Tracking c stage by (simp add: proceed_def track_source_def Let_def)
    next
      case Registering
      have "devices_ok ck limit (go_to Running c (close_conn c w))"
        by (rule devices_stage [OF close _ _ _ limit]) (use c Registering in \<open>auto simp: close_conn_def split: if_splits\<close>)
      then show ?thesis using Registering c stage by (simp add: proceed_def register_conn_def Let_def split: option.split)
    qed (use ok c stage in \<open>simp_all add: proceed_def map_conn_def\<close>)
    then show ?thesis using ok by (simp add: Proceed)
  next
    case (CloseConn c)
    then show ?thesis using ok close by simp
  next
    case (CloseStep c)
    have "devices_ok ck limit (close_step c w)" if c: "c < length (ct_conns w)"
    proof (cases "cn_closing (ct_conns w ! c) = Opened")
      case False
      then have st: "cn_stage (ct_conns w ! c) \<in> {Registering, Running}" using conn_okI [OF tok c] by (simp add: conn_ok_def)
      have "devices_ok ck limit (set_conn c (\<lambda>cn. cn\<lparr>cn_closing := Unsource\<rparr>) (set_load l (remove_conn ip) w))" for l ip
      proof (rule devices_stage [OF ok c _ _ limit])
        show "k < length (ct_loads w) \<and> ul_admitting (ct_loads (set_load l (remove_conn ip) w) ! k) = ul_admitting (ct_loads w ! k) \<and>
            local_keys ck (ul_ips (ct_loads (set_load l (remove_conn ip) w) ! k)) \<subseteq> local_keys ck (ul_ips (ct_loads w ! k))"
          if "k < length (ct_loads (set_load l (remove_conn ip) w))" for k
          using that keys_drop by (cases "k = l") (simp_all add: remove_conn_def)
      qed (use st in auto)
      then show ?thesis using c st stage ok
        by (cases "cn_closing (ct_conns w ! c)") (auto simp: close_step_def Let_def uncount_source_def split: option.split)
    qed (use ok in \<open>simp add: close_step_def Let_def\<close>)
    then show ?thesis using ok by (simp add: CloseStep)
  next
    case (CloseById name)
    have "devices_ok ck limit (close_conn c w)" if "map_of (ct_conn_map w) name = Some c" for c
    proof -
      have "map_ok (ct_conn_map w) (ct_conns w)" using tok by (simp add: tracker_ok_def)
      from bspec [OF this [unfolded map_ok_def] map_of_SomeD [OF that]] show ?thesis by (intro close) simp_all
    qed
    then show ?thesis using ok by (simp add: CloseById split: option.split)
  next
    case (ReplaceUsers name_of m users)
    let ?w = "w\<lparr>ct_uuid_map := node_user_map name_of m users, ct_identities := node_identities name_of m users, ct_nodes := node_tags m, ct_entry := is_entry m\<rparr>"
    have "devices_ok ck limit ?w" by (rule devices_same [OF ok limit]) simp_all
    moreover have "tracker_ok ?w" using tok by (simp add: tracker_ok_def)
    ultimately show ?thesis using ok limit replace devices_fold_ensure by (simp add: ReplaceUsers replace_users_def Let_def)
  next
    case ReplaceAccess
    have "devices_ok ck limit (w\<lparr>ct_allowed := a, ct_access := b, ct_replacing := r\<rparr>)" for a b r
      by (rule devices_same [OF ok limit]) simp_all
    then show ?thesis using ok by (simp add: ReplaceAccess replace_access_def Let_def split: replace_stage.split)
  next
    case CloseNext
    have "devices_ok ck limit (close_conn c w)" if "ct_replacing w = CloseRevoked (c # rest)" for c rest
      using tok that by (intro close) (simp_all add: tracker_ok_def)
    then show ?thesis using ok replace by (simp add: CloseNext split: replace_stage.split list.split)
  next
    case (ForgetUser uid)
    have "devices_ok ck limit (w\<lparr>ct_users := us\<rparr>)" for us by (rule devices_same [OF ok limit]) simp_all
    then show ?thesis using ok by (simp add: ForgetUser forget_user_def split: option.split)
  next
    case (GlobalDevices g)
    have "devices_ok ck limit (w\<lparr>ct_global := g\<rparr>)" by (rule devices_same [OF ok limit]) simp_all
    then show ?thesis by (simp add: GlobalDevices)
  qed
qed

section \<open>Properties\<close>

text \<open>C19. In any interleaving of connections that arrive, are admitted, wait for the device gate, are handed out and are closed,
  of users that are replaced and forgotten, the record of a user counts exactly the connections it holds: admitted and not yet taken
  off by their close, waiting for the gate, and per source address; and the sources of a relay entry count those of each user and
  node. So nothing leaks: a record without connections is empty and a user and node without connections has no entry.\<close>

theorem records_match_connections:
  fixes gate :: bool and ops :: "conn_op list"
  defines "w \<equiv> conn_run gate ops"
  shows "(l < length (ct_loads w) \<longrightarrow>
      ul_conns (ct_loads w ! l) = tally (\<lambda>cn. counts_on cn = Some l) (ct_conns w) \<and>
      ul_pending (ct_loads w ! l) = tally (\<lambda>cn. waits_on cn = Some l) (ct_conns w) \<and>
      counts_of (ul_ips (ct_loads w ! l)) (\<lambda>ip. tally (\<lambda>cn. counts_on cn = Some l \<and> cn_source cn = ip) (ct_conns w))) \<and>
    counts_of (get_or [] (ct_sources w) key) (\<lambda>ip. tally (\<lambda>cn. source_on cn = Some key \<and> cn_source cn = ip) (ct_conns w)) \<and>
    (has_key (ct_sources w) key \<longleftrightarrow> 0 < tally (\<lambda>cn. source_on cn = Some key) (ct_conns w))"
proof -
  have ok: "loads_ok (ct_loads w) (ct_conns w)" "sources_ok (ct_sources w) (ct_conns w)"
    using conn_run_ok [of gate ops] by (simp_all add: tracker_ok_def w_def)
  have key: "has_key (ct_sources w) key \<longleftrightarrow> get_or [] (ct_sources w) key \<noteq> []"
  proof -
    have "map_of (ct_sources w) key \<noteq> Some []" using ok(2) unfolding sources_ok_def by blast
    then show ?thesis by (auto simp: has_key_def get_or_def split: option.split)
  qed
  have none: "(\<forall>ip. tally (\<lambda>cn. source_on cn = Some key \<and> cn_source cn = ip) xs = 0) \<longleftrightarrow> tally (\<lambda>cn. source_on cn = Some key) xs = 0" for xs
  proof (induction xs)
    case (Cons x xs)
    have "of_bool a + tally P xs = 0 \<longleftrightarrow> \<not> a \<and> tally P xs = 0" for a P
      using tally_nonneg [of P xs] by (cases a) (simp_all add: add_nonneg_eq_0_iff)
    then show ?case using Cons by auto
  qed simp
  have "0 < tally (\<lambda>cn. source_on cn = Some key) (ct_conns w) \<longleftrightarrow> tally (\<lambda>cn. source_on cn = Some key) (ct_conns w) \<noteq> 0"
    using tally_nonneg [of "\<lambda>cn. source_on cn = Some key" "ct_conns w"] by linarith
  then show ?thesis
    using ok(1) sources_okD [OF ok(2), of key] key counts_of_empty [OF sources_okD [OF ok(2), of key]] none [of "ct_conns w"]
    by (auto simp: loads_ok_def load_ok_def)
qed

definition user_total :: "nat \<Rightarrow> conn_tracker \<Rightarrow> int" where
  "user_total l w = tally (\<lambda>cn. counts_on cn = Some l \<or> waits_on cn = Some l) (ct_conns w)"

lemma user_total_record:
  assumes "tracker_ok w" "l < length (ct_loads w)"
  shows "user_total l w = ul_conns (ct_loads w ! l) + ul_pending (ct_loads w ! l)"
proof -
  have "\<not> (counts_on cn = Some l \<and> waits_on cn = Some l)" for cn by (auto simp: counts_on_def waits_on_def)
  then have "user_total l w = tally (\<lambda>cn. counts_on cn = Some l) (ct_conns w) + tally (\<lambda>cn. waits_on cn = Some l) (ct_conns w)"
    unfolding user_total_def by (rule tally_split)
  then show ?thesis using assms by (simp add: tracker_ok_def loads_ok_def load_ok_def)
qed

definition record_total :: "nat \<Rightarrow> conn_tracker \<Rightarrow> int" where
  "record_total l w = ul_conns (ct_loads w ! l) + ul_pending (ct_loads w ! l)"

lemma record_total_simps [simp]:
  "record_total l (set_conn c f w) = record_total l w" "record_total l (count_source k ip w) = record_total l w" "record_total l (uncount_source k ip w) = record_total l w"
  "record_total l (w\<lparr>ct_access := a\<rparr>) = record_total l w" "record_total l (w\<lparr>ct_conn_map := m\<rparr>) = record_total l w"
  "record_total l (w\<lparr>ct_counter := k'\<rparr>) = record_total l w" "record_total l (w\<lparr>ct_replacing := r\<rparr>) = record_total l w"
  "record_total l (w\<lparr>ct_users := us\<rparr>) = record_total l w" "record_total l (close_conn c w) = record_total l w"
  by (simp_all add: record_total_def close_conn_def)

lemma record_total_load:
  "l < length (ct_loads w) \<Longrightarrow>
   record_total l (set_load m g w) = (if m = l then ul_conns (g (ct_loads w ! l)) + ul_pending (g (ct_loads w ! l)) else record_total l w)"
  by (simp add: record_total_def)

lemma record_total_ensure: "l < length (ct_loads w) \<Longrightarrow> record_total l (fold ensure_user us w) = record_total l w"
proof (induction us arbitrary: w)
  case (Cons u us)
  have "l < length (ct_loads (ensure_user u w))" "record_total l (ensure_user u w) = record_total l w"
    using Cons.prems by (simp_all add: ensure_user_def record_total_def nth_append)
  then show ?case using Cons.IH [of "ensure_user u w"] by simp
qed simp

lemma totals_add [simp]: "ul_conns (add_conn ip u) = ul_conns u + 1" "ul_pending (add_conn ip u) = ul_pending u"
  "ul_conns (remove_conn ip u) = ul_conns u - 1" "ul_pending (remove_conn ip u) = ul_pending u"
  by (simp_all add: add_conn_def remove_conn_def)

lemma record_total_step:
  assumes l: "l < length (ct_loads w)"
  shows "record_total l (conn_step p w) \<le> record_total l w \<or>
    (\<exists>c limiter. p = CheckConn c limiter \<and> cn_load (ct_conns w ! c) = Some l \<and>
       \<not> conn_rejected limiter (cn_uid (ct_conns w ! c)) (Some (ct_loads w ! l)) \<and> record_total l (conn_step p w) = record_total l w + 1)"
proof (cases p)
  case (Resolve c)
  then show ?thesis by (simp add: resolve_user_def Let_def)
next
  case (CheckDevice c dl ck pk fresh)
  then show ?thesis using l by (auto simp: check_device_def Let_def record_total_load split: option.split) (auto simp: record_total_def)
next
  case (CheckConn c limiter)
  then show ?thesis using l by (auto simp: check_conn_def Let_def record_total_load split: option.split) (auto simp: record_total_def)
next
  case (AcquireResult c granted)
  then show ?thesis by (simp add: acquire_result_def Let_def)
next
  case (Proceed c)
  have "record_total l (proceed c w) \<le> record_total l w"
  proof (cases "cn_stage (ct_conns w ! c)")
    case (Settling b)
    then show ?thesis using l by (auto simp: proceed_def settle_device_def Let_def record_total_load split: option.split) (auto simp: record_total_def)
  qed (simp_all add: proceed_def track_source_def map_conn_def register_conn_def Let_def split: option.split)
  then show ?thesis by (simp add: Proceed)
next
  case (CloseStep c)
  have "record_total l (close_step c w) \<le> record_total l w"
    using l by (cases "cn_closing (ct_conns w ! c)")
      (auto simp: close_step_def Let_def record_total_load split: option.split, auto simp: record_total_def)
  then show ?thesis by (simp add: CloseStep)
next
  case (ReplaceUsers name_of mode users)
  have "record_total l (w\<lparr>ct_uuid_map := a, ct_identities := b, ct_nodes := n, ct_entry := e\<rparr>) = record_total l w" for a b n e
    by (simp add: record_total_def)
  then show ?thesis using l by (simp add: ReplaceUsers replace_users_def Let_def record_total_ensure)
next
  case ReplaceAccess
  have "record_total l (w\<lparr>ct_allowed := a, ct_access := b, ct_replacing := r\<rparr>) = record_total l w" for a b r
    by (simp add: record_total_def)
  then show ?thesis by (simp add: ReplaceAccess replace_access_def Let_def split: replace_stage.split)
next
  case (ForgetUser uid)
  then show ?thesis by (simp add: forget_user_def split: option.split)
next
  case (GlobalDevices g)
  then show ?thesis by (simp add: record_total_def)
next
  case (Arrive n s ob pk)
  then show ?thesis by (simp add: arrive_def record_total_def)
qed (simp_all split: option.split replace_stage.split list.split)

lemma loads_range_step: "l < length (ct_loads w) \<Longrightarrow> l < length (ct_loads (conn_step p w))"
proof -
  have ensure: "length (ct_loads w) \<le> length (ct_loads (fold ensure_user us w))" for us and w :: conn_tracker
  proof (induction us arbitrary: w)
    case (Cons u us)
    have "length (ct_loads w) \<le> length (ct_loads (ensure_user u w))" by (simp add: ensure_user_def)
    then show ?case using Cons [of "ensure_user u w"] by simp
  qed simp
  assume l: "l < length (ct_loads w)"
  show ?thesis
  proof (cases p)
    case (ReplaceUsers name_of mode users)
    then show ?thesis using l ensure [of "w\<lparr>ct_uuid_map := a, ct_identities := b, ct_nodes := n, ct_entry := e\<rparr>" for a b n e]
      by (simp add: replace_users_def Let_def) (meson less_le_trans)
  next
    case (Proceed c)
    then show ?thesis using l
      by (auto simp: proceed_def settle_device_def track_source_def map_conn_def register_conn_def close_conn_def Let_def split: conn_stage.split option.split)
  next
    case (CloseStep c)
    then show ?thesis using l by (auto simp: close_step_def Let_def split: close_stage.split option.split)
  qed (use l in \<open>auto simp: arrive_def resolve_user_def check_device_def check_conn_def acquire_result_def close_conn_def replace_access_def
      forget_user_def Let_def split: option.split replace_stage.split list.split\<close>)
qed


lemma tally_zero: "tally P xs = 0 \<longleftrightarrow> (\<forall>x \<in> set xs. \<not> P x)"
proof (induction xs)
  case (Cons x xs)
  then show ?case using tally_nonneg [of P xs] by (cases "P x") (simp_all add: add_nonneg_eq_0_iff)
qed simp

lemma record_sources:
  assumes "tracker_ok w" "l < length (ct_loads w)"
  shows "fst ` set (ul_ips (ct_loads w ! l)) = cn_source ` {cn \<in> set (ct_conns w). counts_on cn = Some l}"
proof -
  have counts: "counts_of (ul_ips (ct_loads w ! l)) (\<lambda>ip. tally (\<lambda>cn. counts_on cn = Some l \<and> cn_source cn = ip) (ct_conns w))"
    using assms by (simp add: tracker_ok_def loads_ok_def load_ok_def)
  have "ip \<in> fst ` set (ul_ips (ct_loads w ! l)) \<longleftrightarrow> tally (\<lambda>cn. counts_on cn = Some l \<and> cn_source cn = ip) (ct_conns w) \<noteq> 0" for ip
    using counts map_of_eq_None_iff [of "ul_ips (ct_loads w ! l)" ip] by (auto simp: counts_of_def split: if_splits)
  then have "ip \<in> fst ` set (ul_ips (ct_loads w ! l)) \<longleftrightarrow> (\<exists>cn \<in> set (ct_conns w). counts_on cn = Some l \<and> cn_source cn = ip)" for ip
    by (simp add: tally_zero)
  then show ?thesis by (intro set_eqI) (simp only: image_iff mem_Collect_eq, blast)
qed


text \<open>A new tracker is given the users of its node before it sees a connection.\<close>

definition started_entry :: "bool \<Rightarrow> (relay_user \<Rightarrow> int \<Rightarrow> string) \<Rightarrow> relay_mode \<Rightarrow> relay_user list \<Rightarrow> conn_tracker" where
  "started_entry gate name_of mode users = fold conn_step [ReplaceUsers name_of mode users, ReplaceAccess, CloseNext] (new_conn_tracker gate)"

lemma started_entry_ok: "is_entry mode \<Longrightarrow> entry_ok (started_entry gate name_of mode users)"
  by (auto simp: started_entry_def new_conn_tracker_def replace_users_def Let_def replace_access_def revoked_access_def entry_ok_def access_current_def
      to_close_def live_at_def)

lemma entry_run: "entry_ok w \<Longrightarrow> tracker_ok w \<Longrightarrow> (\<forall>p \<in> set ops. for_entry p) \<Longrightarrow> entry_ok (fold conn_step ops w) \<and> tracker_ok (fold conn_step ops w)"
  by (induction ops arbitrary: w) (simp_all add: entry_step conn_step_ok)

text \<open>C18. On a relay entry, whatever connections arrive, are under way or close while the users are replaced any number of
  times: a connection that was handed out and has not begun to close belongs to an identity that relay access allows or is
  one the replacement in progress is about to close; and once a replacement has ended every such connection has an identity of
  the latest users. A connection that was admitted under an older list is among them.\<close>

theorem revoked_connections_closed:
  fixes gate :: bool and name_of :: "relay_user \<Rightarrow> int \<Rightarrow> string" and mode :: relay_mode and users :: "relay_user list" and ops :: "conn_op list"
  defines "w \<equiv> fold conn_step ops (started_entry gate name_of mode users)"
  assumes "is_entry mode" "\<forall>p \<in> set ops. for_entry p"
    and live: "c < length (ct_conns w)" "cn_stage (ct_conns w ! c) = Running" "cn_closing (ct_conns w ! c) = Opened"
  shows "(\<exists>names. ct_allowed w = Some names \<and> (cn_user (ct_conns w ! c) \<in> set names \<or> c \<in> to_close (ct_replacing w))) \<and>
    (ct_replacing w = NoReplace \<longrightarrow> has_key (ct_uuid_map w) (cn_user (ct_conns w ! c)))"
proof -
  have "tracker_ok (started_entry gate name_of mode users)"
    unfolding started_entry_def by (rule conn_runs.run_inv [OF new_tracker_ok])
  then have ok: "entry_ok w" unfolding w_def using entry_run [OF started_entry_ok] assms(2,3) by blast
  obtain names where names: "ct_allowed w = Some names"
    using ok by (cases "ct_replacing w") (auto simp: entry_ok_def access_current_def)
  have "live_at w c (cn_id (ct_conns w ! c)) (cn_user (ct_conns w ! c))" using live by (simp add: live_at_def)
  then have "map_of (ct_access w) (cn_id (ct_conns w ! c)) = Some (cn_user (ct_conns w ! c), c) \<or> c \<in> to_close (ct_replacing w)"
    using ok by (simp add: entry_ok_def)
  moreover have "n \<in> set names" if "map_of (ct_access w) i = Some (n, d)" for i n d
    using ok map_of_SomeD [OF that] names by (force simp: entry_ok_def)
  moreover have "names = map fst (ct_uuid_map w)" "to_close (ct_replacing w) = {}" if "ct_replacing w = NoReplace"
    using ok that names by (auto simp: entry_ok_def access_current_def to_close_def)
  ultimately show ?thesis using names by (auto simp: has_key_iff)
qed

text \<open>Two users of an entry with one landing; the second leaves while a connection of each is open.\<close>

definition sample_name :: "relay_user \<Rightarrow> int \<Rightarrow> string" where
  "sample_name u route = ru_uuid u @ (if route = 1 then ''/1'' else ''/2'')"

definition sample_entry :: relay_mode where
  "sample_entry = Entry 1 [(2, ''land'', 9)]"

definition two_users :: "relay_user list" where
  "two_users = [\<lparr>ru_id = 7, ru_uuid = ''a'', ru_routes = None\<rparr>, \<lparr>ru_id = 8, ru_uuid = ''b'', ru_routes = Some [2]\<rparr>]"

definition second_leaves :: "conn_op list" where
  "second_leaves =
     [Arrive ''a/1'' ''198.51.100.1'' None False, Arrive ''b/2'' ''198.51.100.2'' (Some ''land'') True] @
     concat (map (\<lambda>c. [Resolve c, CheckDevice c Map.empty (\<lambda>x. x) (\<lambda>x. x) False, CheckConn c None] @ replicate 3 (Proceed c)) [0, 1]) @
     [ReplaceUsers sample_name sample_entry [hd two_users], ReplaceAccess, CloseNext, CloseNext]"

lemma second_leaves_state:
  "ct_replacing (fold conn_step second_leaves (started_entry False sample_name sample_entry two_users)) = NoReplace \<and>
   map (\<lambda>cn. (cn_user cn, cn_id cn, cn_stage cn, cn_closing cn)) (ct_conns (fold conn_step second_leaves (started_entry False sample_name sample_entry two_users))) =
     [(''a/1'', ''sb-1'', Running, Opened), (''b/2'', ''sb-2'', Running, Uncount)]"
  by code_simp

lemma revoked_connections_closed_witness:
  "has_key (ct_uuid_map (fold conn_step second_leaves (started_entry False sample_name sample_entry two_users))) ''a/1''"
proof -
  let ?w = "fold conn_step second_leaves (started_entry False sample_name sample_entry two_users)"
  note state = second_leaves_state
  have len: "0 < length (ct_conns ?w)" using arg_cong [OF conjunct2 [OF state], of length] by simp
  have "(cn_user (ct_conns ?w ! 0), cn_id (ct_conns ?w ! 0), cn_stage (ct_conns ?w ! 0), cn_closing (ct_conns ?w ! 0)) = (''a/1'', ''sb-1'', Running, Opened)"
    using nth_map [OF len, of "\<lambda>cn. (cn_user cn, cn_id cn, cn_stage cn, cn_closing cn)"] conjunct2 [OF state] by simp
  moreover have "is_entry sample_entry" "\<forall>p \<in> set second_leaves. for_entry p"
    by (simp_all add: sample_entry_def is_entry_def second_leaves_def)
  ultimately show ?thesis
    using revoked_connections_closed [OF _ _ len] conjunct1 [OF state] by simp
qed

definition one_user :: "conn_op list" where
  "one_user =
     [ReplaceUsers sample_name NoRelay [hd two_users], ReplaceAccess, CloseNext, Arrive ''a'' ''198.51.100.1'' None False, Resolve 0,
      CheckDevice 0 Map.empty (\<lambda>x. x) (\<lambda>x. x) False]"


text \<open>One connection of a user with one device; another source of that user is then refused.\<close>

definition second_device :: "conn_op list" where
  "second_device =
     [ReplaceUsers sample_name NoRelay [hd two_users], ReplaceAccess, CloseNext] @
     map (\<lambda>ip. Arrive (ru_uuid (hd two_users)) ip None False) [''198.51.100.1'', ''198.51.100.2''] @
     concat (map (\<lambda>c. [Resolve c, CheckDevice c (\<lambda>_. Some 1) (\<lambda>x. x) (\<lambda>x. x) False, CheckConn c None]) [0, 1])"


lemma records_match_connections_witness:
  "ul_conns (ct_loads (conn_run False second_device) ! 0) = 1 \<and>
   tally (\<lambda>cn. counts_on cn = Some 0) (ct_conns (conn_run False second_device)) = 1 \<and>
   tally (\<lambda>cn. waits_on cn = Some 0) (ct_conns (conn_run False second_device)) = ul_pending (ct_loads (conn_run False second_device) ! 0)"
proof -
  have "ul_conns (ct_loads (conn_run False second_device) ! 0) = 1" "0 < length (ct_loads (conn_run False second_device))"
    by code_simp+
  then show ?thesis using records_match_connections [of 0 False second_device] by simp
qed

text \<open>A call of \<open>CloseByID\<close> that falls between two steps of \<open>RoutedConnection\<close>.\<close>

definition closed_early :: "conn_op list" where
  "closed_early =
     [Arrive ''a/1'' ''198.51.100.1'' None False, Resolve 0, CheckDevice 0 Map.empty (\<lambda>x. x) (\<lambda>x. x) False, CheckConn 0 None, Proceed 0, Proceed 0,
      CloseById ''sb-1'', CloseStep 0, CloseStep 0, CloseStep 0, CloseStep 0, Proceed 0]"


end
