(* ===== verification/NetAddr.thy ===== *)
theory NetAddr
  imports Prelude "HOL-Library.List_Lexorder" "HOL-Library.Char_ord"
begin

unbundle bit_operations_syntax

text \<open>
  Addresses and what the program decides about them: \<open>internal/deviceip\<close> (which sources count as devices and the list of
  sources that do not) and the checks of \<open>internal/sourcepolicy/policy.go\<close>. Of the standard library's \<open>net/netip\<close> the
  classes of an address, prefixes and masks are written out on words; its parser and printer are arguments (\<open>net_lib\<close>).
\<close>

section \<open>Addresses and prefixes of \<open>net/netip\<close>\<close>

datatype ip_addr = IPv4 "32 word" | IPv6 "128 word" string

type_synonym ip_prefix = "ip_addr \<times> nat"

record net_lib =
  nl_parse :: "string \<Rightarrow> ip_addr option"
  nl_print :: "ip_addr \<Rightarrow> string"
  nl_parse_prefix :: "string \<Rightarrow> ip_prefix option"
  nl_print_prefix :: "ip_prefix \<Rightarrow> string"

fun ip_zone :: "ip_addr \<Rightarrow> string" where
  "ip_zone (IPv4 w) = []"
| "ip_zone (IPv6 w z) = z"

fun ip_is4 :: "ip_addr \<Rightarrow> bool" where
  "ip_is4 (IPv4 w) = True"
| "ip_is4 (IPv6 w z) = False"

fun ip_is4in6 :: "ip_addr \<Rightarrow> bool" where
  "ip_is4in6 (IPv4 w) = False"
| "ip_is4in6 (IPv6 w z) = (drop_bit 32 w = 0xffff)"

fun ip_unmap :: "ip_addr \<Rightarrow> ip_addr" where
  "ip_unmap (IPv4 w) = IPv4 w"
| "ip_unmap (IPv6 w z) = (if drop_bit 32 w = 0xffff then IPv4 (ucast w) else IPv6 w z)"

definition ip_bits :: "ip_addr \<Rightarrow> nat" where
  "ip_bits a = (if ip_is4 a then 32 else 128)"

definition ip_unspecified :: "ip_addr \<Rightarrow> bool" where
  "ip_unspecified a = (a = IPv4 0 \<or> a = IPv6 0 [])"

definition ip_loopback :: "ip_addr \<Rightarrow> bool" where
  "ip_loopback a = (case ip_unmap a of IPv4 w \<Rightarrow> drop_bit 24 w = 127 | IPv6 w z \<Rightarrow> w = 1)"

definition ip_multicast :: "ip_addr \<Rightarrow> bool" where
  "ip_multicast a = (case ip_unmap a of IPv4 w \<Rightarrow> drop_bit 28 w = 0xe | IPv6 w z \<Rightarrow> drop_bit 120 w = 0xff)"

definition ip_link_local :: "ip_addr \<Rightarrow> bool" where
  "ip_link_local a = (case ip_unmap a of IPv4 w \<Rightarrow> drop_bit 16 w = 0xa9fe | IPv6 w z \<Rightarrow> drop_bit 118 w = 0x3fa)"

definition ip_global_unicast :: "ip_addr \<Rightarrow> bool" where
  "ip_global_unicast a =
     (let a = ip_unmap a in
      a \<noteq> IPv4 0 \<and> a \<noteq> IPv4 0xffffffff \<and> a \<noteq> IPv6 0 [] \<and> \<not> ip_loopback a \<and> \<not> ip_multicast a \<and> \<not> ip_link_local a)"

definition ip_private :: "ip_addr \<Rightarrow> bool" where
  "ip_private a =
     (case ip_unmap a of
        IPv4 w \<Rightarrow> drop_bit 24 w = 10 \<or> drop_bit 20 w = 0xac1 \<or> drop_bit 16 w = 0xc0a8
      | IPv6 w z \<Rightarrow> drop_bit 121 w = 0x7e)"

fun prefix_contains :: "ip_prefix \<Rightarrow> ip_addr \<Rightarrow> bool" where
  "prefix_contains (IPv4 p, n) (IPv4 w) = (drop_bit (32 - n) p = drop_bit (32 - n) w)"
| "prefix_contains (IPv6 p zp, n) (IPv6 w z) = (z = [] \<and> drop_bit (128 - n) p = drop_bit (128 - n) w)"
| "prefix_contains _ _ = False"

fun prefix_masked :: "ip_prefix \<Rightarrow> ip_prefix" where
  "prefix_masked (IPv4 w, n) = (IPv4 (push_bit (32 - n) (drop_bit (32 - n) w)), n)"
| "prefix_masked (IPv6 w z, n) = (IPv6 (push_bit (128 - n) (drop_bit (128 - n) w)) [], n)"

section \<open>Sources that count as devices\<close>

definition non_public4 :: "ip_prefix list" where
  "non_public4 =
     [(IPv4 0, 8), (IPv4 0x64400000, 10), (IPv4 0xc0000000, 24), (IPv4 0xc0000200, 24), (IPv4 0xc0586300, 24),
      (IPv4 0xc6120000, 15), (IPv4 0xc6336400, 24), (IPv4 0xcb007100, 24), (IPv4 0xe0000000, 4), (IPv4 0xf0000000, 4)]"

definition non_public6 :: "ip_prefix list" where
  "non_public6 = [(IPv6 (push_bit 112 0x2001) [], 23), (IPv6 (push_bit 96 0x20010db8) [], 32)]"

definition public_addr :: "net_lib \<Rightarrow> string \<Rightarrow> ip_addr option" where
  "public_addr lib raw =
     (case nl_parse lib raw of
        None \<Rightarrow> None
      | Some a \<Rightarrow>
          let a = ip_unmap a in
          if \<not> ip_global_unicast a \<or> ip_private a then None
          else if ip_is4 a then (if list_ex (\<lambda>p. prefix_contains p a) non_public4 then None else Some a)
          else if \<not> prefix_contains (IPv6 (push_bit 112 0x2000) [], 3) a then None
          else if list_ex (\<lambda>p. prefix_contains p a) non_public6 then None
          else Some a)"

definition device_key :: "net_lib \<Rightarrow> ip_addr \<Rightarrow> string" where
  "device_key lib a = (if ip_is4 a then nl_print lib a else nl_print lib (fst (prefix_masked (a, 64))))"

definition normalize_source :: "net_lib \<Rightarrow> string \<Rightarrow> string" where
  "normalize_source lib raw = (case public_addr lib raw of None \<Rightarrow> [] | Some a \<Rightarrow> device_key lib a)"

text \<open>The list of sources that do not count: \<open>excludeList\<close>; the two maps of the code are a list of addresses and one of prefixes.\<close>

record exclude_list =
  ex_exact :: "ip_addr list"
  ex_prefixes :: "ip_prefix list"
  ex_source :: "string list"

definition exclude_prefix :: "ip_prefix \<Rightarrow> exclude_list \<Rightarrow> exclude_list" where
  "exclude_prefix p next =
     (let (a, n) = p;
          (a, n) = (if ip_is4in6 a \<and> n \<ge> 96 then (ip_unmap a, n - 96) else (a, n));
          m = prefix_masked (a, n) in
      if snd m = ip_bits a then next\<lparr>ex_exact := append_unique (ex_exact next) (fst m)\<rparr>
      else next\<lparr>ex_prefixes := append_unique (ex_prefixes next) m\<rparr>)"

fun exclude_entries :: "net_lib \<Rightarrow> string list \<Rightarrow> string list \<times> exclude_list \<Rightarrow> string list \<times> exclude_list" where
  "exclude_entries lib [] (invalid, next) = (invalid, next)"
| "exclude_entries lib (raw # entries) (invalid, next) =
     (let entry = trim_space raw in
      if entry = [] then exclude_entries lib entries (invalid, next)
      else if CHR ''/'' \<in> set entry then
        (case nl_parse_prefix lib entry of
           None \<Rightarrow> exclude_entries lib entries (invalid @ [entry], next)
         | Some p \<Rightarrow> exclude_entries lib entries (invalid, exclude_prefix p next))
      else
        (case nl_parse lib entry of
           None \<Rightarrow> exclude_entries lib entries (invalid @ [entry], next)
         | Some a \<Rightarrow>
             if ip_zone a \<noteq> [] then exclude_entries lib entries (invalid @ [entry], next)
             else exclude_entries lib entries (invalid, next\<lparr>ex_exact := append_unique (ex_exact next) (ip_unmap a)\<rparr>)))"

text \<open>\<open>SetExcluded\<close>: the entries that are invalid, whether anything changed, and the filter; none is a filter without a list.\<close>

definition set_excluded :: "net_lib \<Rightarrow> string list \<Rightarrow> exclude_list option \<Rightarrow> string list \<times> bool \<times> exclude_list option" where
  "set_excluded lib entries fil =
     (let (invalid, next) = exclude_entries lib entries ([], \<lparr>ex_exact = [], ex_prefixes = [], ex_source = []\<rparr>);
          source = sort (map (nl_print lib) (ex_exact next) @ map (nl_print_prefix lib) (ex_prefixes next));
          current = (case fil of None \<Rightarrow> [] | Some l \<Rightarrow> ex_source l) in
      if current = source then (invalid, False, fil)
      else (invalid, True, if source = [] then None else Some (next\<lparr>ex_source := source\<rparr>)))"

definition source_excluded :: "exclude_list option \<Rightarrow> ip_addr \<Rightarrow> bool" where
  "source_excluded fil a =
     (case fil of
        None \<Rightarrow> False
      | Some l \<Rightarrow> a \<in> set (ex_exact l) \<or> list_ex (\<lambda>p. prefix_contains p a) (ex_prefixes l))"

definition trusted_prefixes :: "exclude_list option \<Rightarrow> ip_prefix list" where
  "trusted_prefixes fil =
     (case fil of None \<Rightarrow> [] | Some l \<Rightarrow> map (\<lambda>a. (a, ip_bits a)) (ex_exact l) @ ex_prefixes l)"

definition count_key :: "net_lib \<Rightarrow> exclude_list option \<Rightarrow> string \<Rightarrow> string" where
  "count_key lib fil raw =
     (case public_addr lib raw of
        None \<Rightarrow> []
      | Some a \<Rightarrow> if source_excluded fil a then [] else device_key lib a)"

section \<open>Source lists of a node\<close>

text \<open>\<open>Policy\<close> of \<open>internal/sourcepolicy\<close>; a missing policy is none.\<close>

record source_lists =
  sp_mode :: string
  sp_block_cn :: bool
  sp_allow :: "string list"
  sp_block :: "string list"

datatype source_error = BadMode | EmptyWhitelist | TooManyEntries | BadEntry | RepeatedEntry | RegionNotReady

definition lists_enabled :: "source_lists option \<Rightarrow> bool" where
  "lists_enabled p =
     (case p of
        None \<Rightarrow> False
      | Some p \<Rightarrow> sp_mode p = ''blacklist'' \<or> sp_mode p = ''whitelist'' \<or> sp_mode p = [] \<and> sp_block_cn p)"

definition needs_region :: "source_lists option \<Rightarrow> bool" where
  "needs_region p = (lists_enabled p \<and> (case p of None \<Rightarrow> False | Some p \<Rightarrow> sp_mode p \<noteq> ''whitelist'' \<and> sp_block_cn p))"

fun check_entries :: "net_lib \<Rightarrow> string list \<Rightarrow> ip_addr list \<Rightarrow> source_error option" where
  "check_entries lib [] seen = None"
| "check_entries lib (raw # list) seen =
     (case nl_parse lib (trim_space raw) of
        None \<Rightarrow> Some BadEntry
      | Some a \<Rightarrow>
          if ip_zone a \<noteq> [] \<or> ip_unspecified (ip_unmap a) \<or> ip_multicast (ip_unmap a) then Some BadEntry
          else if ip_unmap a \<in> set seen then Some RepeatedEntry
          else check_entries lib list (ip_unmap a # seen))"

definition check_list :: "net_lib \<Rightarrow> string list \<Rightarrow> source_error option" where
  "check_list lib list = (if length list > 128 then Some TooManyEntries else check_entries lib list [])"

definition validate_policy :: "net_lib \<Rightarrow> source_lists option \<Rightarrow> source_error option" where
  "validate_policy lib p =
     (case p of
        None \<Rightarrow> None
      | Some p \<Rightarrow>
          if sp_mode p \<notin> {[], ''disabled'', ''blacklist'', ''whitelist''} then Some BadMode
          else if sp_mode p = ''whitelist'' \<and> sp_allow p = [] then Some EmptyWhitelist
          else (case check_list lib (sp_allow p) of Some e \<Rightarrow> Some e | None \<Rightarrow> check_list lib (sp_block p)))"

text \<open>\<open>Blocked\<close>: the sets of \<open>netipx.IPSetBuilder\<close> are predicates, changed in the order of the calls; none is the nil
  result of a policy that is off.\<close>

definition listed_addr :: "net_lib \<Rightarrow> string list \<Rightarrow> ip_addr \<Rightarrow> bool" where
  "listed_addr lib list a = list_ex (\<lambda>raw. case nl_parse lib (trim_space raw) of None \<Rightarrow> False | Some b \<Rightarrow> ip_unmap b = a) list"

definition blocked_sources :: "net_lib \<Rightarrow> source_lists option \<Rightarrow> (ip_addr \<Rightarrow> bool) option \<Rightarrow> source_error + (ip_addr \<Rightarrow> bool) option" where
  "blocked_sources lib policy region =
     (case validate_policy lib policy of
        Some e \<Rightarrow> Inl e
      | None \<Rightarrow>
          (case policy of
             None \<Rightarrow> Inr None
           | Some p \<Rightarrow>
               if \<not> lists_enabled policy then Inr None
               else if needs_region policy \<and> region = None then Inl RegionNotReady
               else
                 let start = (if sp_mode p = ''whitelist'' then (\<lambda>a. True)
                              else if needs_region policy then the region else (\<lambda>a. False));
                     allowed = (\<lambda>a. start a \<and> \<not> listed_addr lib (sp_allow p) a) in
                 Inr (Some (if sp_mode p = ''blacklist'' then (\<lambda>a. allowed a \<or> listed_addr lib (sp_block p) a) else allowed))))"

lemma check_entries_parsed:
  "check_entries lib list seen = None \<Longrightarrow> raw \<in> set list \<Longrightarrow> \<exists>a. nl_parse lib (trim_space raw) = Some a"
  by (induction list arbitrary: seen) (auto split: option.splits if_splits)

text \<open>A validated whitelist blocks every address but the listed ones and leaves at least one open.\<close>

lemma whitelist_blocks_rest:
  assumes "blocked_sources lib (Some p) region = Inr (Some f)" "sp_mode p = ''whitelist''"
  shows "\<not> f a \<longleftrightarrow> listed_addr lib (sp_allow p) a" "\<exists>a. \<not> f a"
proof -
  have valid: "validate_policy lib (Some p) = None" using assms(1) by (simp add: blocked_sources_def split: option.splits)
  show here: "\<not> f a \<longleftrightarrow> listed_addr lib (sp_allow p) a" for a
    using assms valid by (auto simp: blocked_sources_def Let_def split: if_splits)
  obtain raw where "raw \<in> set (sp_allow p)" using valid assms(2) by (cases "sp_allow p") (auto simp: validate_policy_def)
  moreover have "check_entries lib (sp_allow p) [] = None"
    using valid by (auto simp: validate_policy_def check_list_def split: if_splits option.splits)
  ultimately obtain b where "nl_parse lib (trim_space raw) = Some b" using check_entries_parsed by blast
  then have "listed_addr lib (sp_allow p) (ip_unmap b)" using \<open>raw \<in> set (sp_allow p)\<close> by (force simp: listed_addr_def list_ex_iff)
  then show "\<exists>a. \<not> f a" using here by blast
qed

section \<open>What the list of a filter means\<close>

text \<open>What is used of the library: texts of addresses and prefixes are distinct, only those of prefixes have a slash, and a parsed
  prefix has no zone and no more bits than its address.\<close>

definition lib_ok :: "net_lib \<Rightarrow> bool" where
  "lib_ok lib \<longleftrightarrow>
     inj_on (nl_print lib) {a. ip_zone a = []} \<and> inj_on (nl_print_prefix lib) {p. ip_zone (fst p) = []} \<and>
     (\<forall>a. ip_zone a = [] \<longrightarrow> CHR ''/'' \<notin> set (nl_print lib a)) \<and> (\<forall>p. CHR ''/'' \<in> set (nl_print_prefix lib p)) \<and>
     (\<forall>s a n. nl_parse_prefix lib s = Some (a, n) \<longrightarrow> n \<le> ip_bits a \<and> ip_zone a = [])"

definition entry_matches :: "net_lib \<Rightarrow> string \<Rightarrow> ip_addr \<Rightarrow> bool" where
  "entry_matches lib raw a =
     (let entry = trim_space raw in
      if entry = [] then False
      else if CHR ''/'' \<in> set entry then
        (case nl_parse_prefix lib entry of
           None \<Rightarrow> False
         | Some (b, n) \<Rightarrow> prefix_contains (if ip_is4in6 b \<and> n \<ge> 96 then (ip_unmap b, n - 96) else (b, n)) a)
      else (case nl_parse lib entry of None \<Rightarrow> False | Some b \<Rightarrow> ip_zone b = [] \<and> ip_unmap b = a))"

lemma drop_push_drop: "drop_bit k (push_bit k (drop_bit k w)) = drop_bit k (w :: 'a::len word)"
  by (rule bit_eqI) (auto simp: bit_simps dest: bit_imp_le_length)

lemma prefix_contains_masked: "prefix_contains (prefix_masked p) a = prefix_contains p a"
  by (cases "(p, a)" rule: prefix_contains.cases; cases p) (auto simp: drop_push_drop)

lemma prefix_masked_full:
  "snd p = ip_bits (fst p) \<Longrightarrow> a = fst (prefix_masked p) \<longleftrightarrow> prefix_contains p a"
  by (cases "(p, a)" rule: prefix_contains.cases) (auto simp: ip_bits_def)

lemma prefix_masked_facts [simp]:
  "ip_zone (fst (prefix_masked p)) = []" "snd (prefix_masked p) = snd p" "ip_bits (fst (prefix_masked p)) = ip_bits (fst p)"
  by (cases p rule: prefix_masked.cases; simp add: ip_bits_def)+

lemma ip_unmap_facts: "ip_is4in6 a \<Longrightarrow> ip_bits (ip_unmap a) = 32" "ip_zone a = [] \<Longrightarrow> ip_zone (ip_unmap a) = []"
  by (cases a; simp add: ip_bits_def)+

definition list_matches :: "exclude_list \<Rightarrow> ip_addr \<Rightarrow> bool" where
  "list_matches l a = (a \<in> set (ex_exact l) \<or> list_ex (\<lambda>p. prefix_contains p a) (ex_prefixes l))"

definition list_ok :: "exclude_list \<Rightarrow> bool" where
  "list_ok l \<longleftrightarrow> (\<forall>a \<in> set (ex_exact l). ip_zone a = []) \<and> (\<forall>p \<in> set (ex_prefixes l). ip_zone (fst p) = [])"

lemma exclude_prefix_matches:
  assumes "n \<le> ip_bits b" "ip_zone b = []"
  shows "list_matches (exclude_prefix (b, n) l) a \<longleftrightarrow>
     list_matches l a \<or> prefix_contains (if ip_is4in6 b \<and> n \<ge> 96 then (ip_unmap b, n - 96) else (b, n)) a"
    "list_ok l \<Longrightarrow> list_ok (exclude_prefix (b, n) l)"
proof -
  obtain c k where ck: "(if ip_is4in6 b \<and> n \<ge> 96 then (ip_unmap b, n - 96) else (b, n)) = (c, k)" by (cases "ip_is4in6 b \<and> n \<ge> 96") auto
  have "exclude_prefix (b, n) l =
      (if k = ip_bits c then l\<lparr>ex_exact := append_unique (ex_exact l) (fst (prefix_masked (c, k)))\<rparr>
       else l\<lparr>ex_prefixes := append_unique (ex_prefixes l) (prefix_masked (c, k))\<rparr>)"
    unfolding exclude_prefix_def Let_def split ck by simp
  note eq = this
  show "list_matches (exclude_prefix (b, n) l) a \<longleftrightarrow>
     list_matches l a \<or> prefix_contains (if ip_is4in6 b \<and> n \<ge> 96 then (ip_unmap b, n - 96) else (b, n)) a"
    unfolding ck using prefix_masked_full [of "(c, k)" a] prefix_contains_masked [of "(c, k)" a]
    by (auto simp: eq list_matches_def list_ex_iff)
  show "list_ok (exclude_prefix (b, n) l)" if "list_ok l"
    using that by (auto simp: eq list_ok_def)
qed

lemma list_matches_exact [simp]:
  "list_matches (l\<lparr>ex_exact := append_unique (ex_exact l) b\<rparr>) a \<longleftrightarrow> list_matches l a \<or> a = b"
  by (auto simp: list_matches_def)

lemma exclude_entries_matches:
  assumes "lib_ok lib"
  shows "(list_matches (snd (exclude_entries lib entries (invalid, l))) a \<longleftrightarrow> list_matches l a \<or> (\<exists>raw \<in> set entries. entry_matches lib raw a)) \<and>
    (list_ok l \<longrightarrow> list_ok (snd (exclude_entries lib entries (invalid, l))))"
proof (induction entries arbitrary: invalid l)
  case (Cons raw entries)
  let ?e = "trim_space raw"
  consider "?e = []" | "?e \<noteq> []" "CHR ''/'' \<notin> set ?e" | "CHR ''/'' \<in> set ?e" by blast
  then show ?case
  proof cases
    case 1
    then show ?thesis using Cons by (simp add: entry_matches_def)
  next
    case 2
    have "list_ok l \<Longrightarrow> ip_zone b = [] \<Longrightarrow> list_ok (l\<lparr>ex_exact := append_unique (ex_exact l) (ip_unmap b)\<rparr>)" for b
      by (auto simp: list_ok_def ip_unmap_facts)
    then show ?thesis using Cons 2 by (cases "nl_parse lib ?e") (simp_all add: entry_matches_def, blast)
  next
    case 3
    then have False: "?e \<noteq> []" "CHR ''/'' \<in> set ?e" by auto
    show ?thesis
    proof (cases "nl_parse_prefix lib ?e")
      case None
      then show ?thesis using Cons False by (simp add: entry_matches_def)
    next
      case (Some p)
      obtain b n where p: "p = (b, n)" by (cases p)
      then have "n \<le> ip_bits b" "ip_zone b = []" using assms Some by (auto simp: lib_ok_def)
      then show ?thesis using Cons False Some exclude_prefix_matches(1) [of n b l a] exclude_prefix_matches(2) [of n b l] by (simp add: entry_matches_def Let_def p)
    qed
  qed
qed simp

definition filter_ok :: "net_lib \<Rightarrow> exclude_list option \<Rightarrow> bool" where
  "filter_ok lib fil \<longleftrightarrow>
     (case fil of None \<Rightarrow> True
      | Some l \<Rightarrow> list_ok l \<and> ex_source l = sort (map (nl_print lib) (ex_exact l) @ map (nl_print_prefix lib) (ex_prefixes l)))"

lemma same_source_same_list:
  assumes lib: "lib_ok lib" and ok: "list_ok l" "list_ok k"
    and src: "sort (map (nl_print lib) (ex_exact l) @ map (nl_print_prefix lib) (ex_prefixes l)) =
      sort (map (nl_print lib) (ex_exact k) @ map (nl_print_prefix lib) (ex_prefixes k))"
  shows "set (ex_exact l) = set (ex_exact k) \<and> set (ex_prefixes l) = set (ex_prefixes k)"
proof -
  have sets: "nl_print lib ` set (ex_exact l) \<union> nl_print_prefix lib ` set (ex_prefixes l) =
      nl_print lib ` set (ex_exact k) \<union> nl_print_prefix lib ` set (ex_prefixes k)"
    using arg_cong [OF src, of set] by simp
  have exact: "nl_print lib ` set (ex_exact j) = {s \<in> nl_print lib ` set (ex_exact j) \<union> nl_print_prefix lib ` set (ex_prefixes j). CHR ''/'' \<notin> set s}"
    and prefixes: "nl_print_prefix lib ` set (ex_prefixes j) = {s \<in> nl_print lib ` set (ex_exact j) \<union> nl_print_prefix lib ` set (ex_prefixes j). CHR ''/'' \<in> set s}"
    if "list_ok j" for j
    using lib that by (auto simp: lib_ok_def list_ok_def)
  have "nl_print lib ` set (ex_exact l) = nl_print lib ` set (ex_exact k)"
    by (rule trans [OF exact [OF ok(1)] trans [OF _ exact [OF ok(2), symmetric]]]) (simp only: sets)
  moreover have "nl_print_prefix lib ` set (ex_prefixes l) = nl_print_prefix lib ` set (ex_prefixes k)"
    by (rule trans [OF prefixes [OF ok(1)] trans [OF _ prefixes [OF ok(2), symmetric]]]) (simp only: sets)
  moreover have "inj_on (nl_print lib) {a. ip_zone a = []}" "inj_on (nl_print_prefix lib) {p. ip_zone (fst p) = []}"
    using lib by (simp_all add: lib_ok_def)
  moreover have "set (ex_exact j) \<subseteq> {a. ip_zone a = []}" "set (ex_prefixes j) \<subseteq> {p. ip_zone (fst p) = []}" if "list_ok j" for j
    using that by (auto simp: list_ok_def)
  ultimately show ?thesis using ok by (simp add: inj_on_image_eq_iff)
qed

lemma set_excluded_facts:
  fixes lib :: net_lib and entries :: "string list" and fil :: "exclude_list option"
  assumes lib: "lib_ok lib" and ok: "filter_ok lib fil"
  defines "fil' \<equiv> snd (snd (set_excluded lib entries fil))"
  shows "source_excluded fil' a \<longleftrightarrow> (\<exists>raw \<in> set entries. entry_matches lib raw a)" "filter_ok lib fil'"
proof -
  let ?new = "snd (exclude_entries lib entries ([], \<lparr>ex_exact = [], ex_prefixes = [], ex_source = []\<rparr>))"
  let ?source = "\<lambda>l. sort (map (nl_print lib) (ex_exact l) @ map (nl_print_prefix lib) (ex_prefixes l))"
  have empty: "list_ok \<lparr>ex_exact = [], ex_prefixes = [], ex_source = []\<rparr>" "\<not> list_matches \<lparr>ex_exact = [], ex_prefixes = [], ex_source = []\<rparr> a"
    by (simp_all add: list_ok_def list_matches_def)
  have new: "list_ok ?new" "list_matches ?new a \<longleftrightarrow> (\<exists>raw \<in> set entries. entry_matches lib raw a)"
    using exclude_entries_matches [OF lib, of entries "[]" "\<lparr>ex_exact = [], ex_prefixes = [], ex_source = []\<rparr>" a] empty by simp_all
  have fil': "fil' = (if (case fil of None \<Rightarrow> [] | Some l \<Rightarrow> ex_source l) = ?source ?new then fil
      else if ?source ?new = [] then None else Some (?new\<lparr>ex_source := ?source ?new\<rparr>))"
    by (simp add: fil'_def set_excluded_def Let_def split: prod.split)
  have old: "source_excluded fil' a = list_matches ?new a"
  proof (cases "(case fil of None \<Rightarrow> [] | Some l \<Rightarrow> ex_source l) = ?source ?new")
    case True
    show ?thesis
    proof (cases fil)
      case None
      then have "length (?source ?new) = 0" using True by simp
      then have "ex_exact ?new = []" "ex_prefixes ?new = []" by simp_all
      then show ?thesis using None True fil' by (simp add: source_excluded_def list_matches_def)
    next
      case (Some l)
      then have "set (ex_exact l) = set (ex_exact ?new) \<and> set (ex_prefixes l) = set (ex_prefixes ?new)"
        using ok True new(1) by (intro same_source_same_list [OF lib]) (simp_all add: filter_ok_def)
      then show ?thesis using Some True fil' by (simp add: source_excluded_def list_matches_def list_ex_iff)
    qed
  next
    case False
    show ?thesis
    proof (cases "?source ?new = []")
      case True
      then have "length (?source ?new) = 0" by simp
      then have "ex_exact ?new = []" "ex_prefixes ?new = []" by simp_all
      then show ?thesis using True False fil' by (simp add: source_excluded_def list_matches_def)
    qed (use False fil' in \<open>simp add: source_excluded_def list_matches_def\<close>)
  qed
  show "source_excluded fil' a \<longleftrightarrow> (\<exists>raw \<in> set entries. entry_matches lib raw a)" using old new(2) by simp
  show "filter_ok lib fil'" using ok new(1) by (simp add: fil' filter_ok_def list_ok_def)
qed


section \<open>Properties\<close>

text \<open>Whatever lists a filter was given before, with entries that are invalid, repeated or the same as before, an address is
  excluded after \<open>SetExcluded\<close> exactly if an entry of the last list names it; a list that changes nothing keeps the old one.\<close>

theorem last_list_decides:
  assumes "lib_ok lib"
  shows "source_excluded (fold (\<lambda>entries fil. snd (snd (set_excluded lib entries fil))) (history @ [entries]) None) a \<longleftrightarrow>
    (\<exists>raw \<in> set entries. entry_matches lib raw a)"
proof -
  have "filter_ok lib (fold (\<lambda>entries fil. snd (snd (set_excluded lib entries fil))) history fil)" if "filter_ok lib fil" for fil
    using that by (induction history arbitrary: fil) (simp_all add: set_excluded_facts(2) [OF assms])
  moreover have "filter_ok lib None" by (simp add: filter_ok_def)
  ultimately show ?thesis using set_excluded_facts(1) [OF assms] by simp
qed

lemma device_key_eq:
  assumes "lib_ok lib" "ip_zone a = []" "ip_zone b = []"
  shows "device_key lib a = device_key lib b \<longleftrightarrow>
    (case (a, b) of (IPv4 v, IPv4 w) \<Rightarrow> v = w | (IPv6 v z, IPv6 w y) \<Rightarrow> drop_bit 64 v = drop_bit 64 w | _ \<Rightarrow> False)"
proof -
  have inj: "nl_print lib x = nl_print lib y \<longleftrightarrow> x = y" if "ip_zone x = []" "ip_zone y = []" for x y
    using assms(1) that by (auto simp: lib_ok_def inj_on_def)
  have "push_bit 64 (drop_bit 64 v) = push_bit 64 (drop_bit 64 w) \<longleftrightarrow> drop_bit 64 v = drop_bit 64 w" for v w :: "128 word"
    using drop_push_drop [of 64 v] drop_push_drop [of 64 w] by metis
  then show ?thesis using assms(2,3) by (cases a; cases b; simp add: device_key_def inj)
qed


lemma public_addr_zone: "public_addr lib raw = Some a \<Longrightarrow> ip_zone a = []"
  by (cases a) (auto simp: public_addr_def Let_def split: option.splits if_splits)

definition same_device :: "ip_addr \<Rightarrow> ip_addr \<Rightarrow> bool" where
  "same_device a b =
     (case (a, b) of
        (IPv4 v, IPv4 w) \<Rightarrow> v = w
      | (IPv6 v z, IPv6 w y) \<Rightarrow> drop_bit 64 v = drop_bit 64 w
      | _ \<Rightarrow> False)"

text \<open>Two sources that count have the same key exactly if they are the same IPv4 address or share the first 64 bits of an IPv6 one.\<close>

theorem devices_counted_once:
  assumes "lib_ok lib" "public_addr lib s = Some a" "public_addr lib t = Some b" "\<not> source_excluded fil a" "\<not> source_excluded fil b"
  shows "count_key lib fil s = count_key lib fil t \<longleftrightarrow> same_device a b"
  using assms device_key_eq [OF assms(1) public_addr_zone [OF assms(2)] public_addr_zone [OF assms(3)]]
  by (simp add: count_key_def same_device_def)


text \<open>A printer with distinct texts and a parser for a few addresses.\<close>

definition sample_print :: "ip_addr \<Rightarrow> string" where
  "sample_print a = (case a of IPv4 w \<Rightarrow> itoa_nat (unat w) | IPv6 w z \<Rightarrow> CHR '':'' # itoa_nat (unat w) @ z)"

definition sample_lib :: net_lib where
  "sample_lib =
     \<lparr>nl_parse = map_of [(''8.8.8.8'', IPv4 0x08080808), (''2400:cb00::1'', IPv6 0x2400cb00000000000000000000000001 []),
        (''2400:cb00::2'', IPv6 0x2400cb00000000000000000000000002 [])],
      nl_print = sample_print,
      nl_parse_prefix = map_of [(''8.8.8.0/24'', (IPv4 0x08080800, 24))],
      nl_print_prefix = (\<lambda>(a, n). itoa_nat n @ CHR ''/'' # sample_print a)\<rparr>"

lemma sample_print_inj: "ip_zone a = [] \<Longrightarrow> ip_zone b = [] \<Longrightarrow> sample_print a = sample_print b \<longleftrightarrow> a = b"
proof -
  have "itoa_nat m \<noteq> CHR '':'' # s" for m s using itoa_nat_no [of "CHR '':''" m] by (auto simp: is_digit_def)
  from this this [symmetric] show "ip_zone a = [] \<Longrightarrow> ip_zone b = [] \<Longrightarrow> sample_print a = sample_print b \<longleftrightarrow> a = b"
    by (cases a; cases b; simp add: sample_print_def itoa_nat_inj word_unat_eq_iff)
qed

lemma sample_lib_ok: "lib_ok sample_lib"
proof -
  have slash: "CHR ''/'' \<notin> set (itoa_nat n)" for n by (rule itoa_nat_no) (simp add: is_digit_def)
  have split: "itoa_nat m @ CHR ''/'' # s = itoa_nat n @ CHR ''/'' # t \<longleftrightarrow> m = n \<and> s = t" for m n s t
    using slash by (simp add: split_at_first itoa_nat_inj)
  have print: "inj_on sample_print {a. ip_zone a = []}" by (rule inj_onI) (simp add: sample_print_inj)
  have prefixes: "inj_on (\<lambda>(a, n). itoa_nat n @ CHR ''/'' # sample_print a) {p. ip_zone (fst p) = []}"
    by (rule inj_onI) (auto simp: split sample_print_inj)
  have "CHR ''/'' \<notin> set (sample_print a)" if "ip_zone a = []" for a
    using slash that by (cases a) (simp_all add: sample_print_def)
  then show ?thesis using print prefixes by (auto simp: lib_ok_def sample_lib_def ip_bits_def split: if_splits)
qed


lemma devices_counted_once_witness:
  "count_key sample_lib None ''2400:cb00::1'' = count_key sample_lib None ''2400:cb00::2'' \<and>
   count_key sample_lib None ''2400:cb00::1'' \<noteq> count_key sample_lib None ''8.8.8.8''"
proof -
  have "public_addr sample_lib ''2400:cb00::1'' = Some (IPv6 0x2400cb00000000000000000000000001 [])"
    "public_addr sample_lib ''2400:cb00::2'' = Some (IPv6 0x2400cb00000000000000000000000002 [])"
    "public_addr sample_lib ''8.8.8.8'' = Some (IPv4 0x08080808)"
    by code_simp+
  moreover have "same_device (IPv6 0x2400cb00000000000000000000000001 []) (IPv6 0x2400cb00000000000000000000000002 [])"
    "\<not> same_device (IPv6 0x2400cb00000000000000000000000001 []) (IPv4 0x08080808)"
    by code_simp+
  ultimately show ?thesis using devices_counted_once [OF sample_lib_ok] by (simp add: source_excluded_def)
qed

lemma last_list_decides_witness:
  "source_excluded (fold (\<lambda>entries fil. snd (snd (set_excluded sample_lib entries fil))) ([[''8.8.8.8'', ''nonsense'']] @ [['' 8.8.8.0/24 '', '' '']]) None) (IPv4 0x08080801)"
proof -
  have "entry_matches sample_lib '' 8.8.8.0/24 '' (IPv4 0x08080801)" by code_simp
  then show ?thesis using last_list_decides [OF sample_lib_ok, of "[[''8.8.8.8'', ''nonsense'']]" "['' 8.8.8.0/24 '', '' '']" "IPv4 0x08080801"] by simp
qed

end
