(* ===== verification/FirewallPlan.thy ===== *)
theory FirewallPlan
  imports PortSet NetAddr
begin

text \<open>
  Model of \<open>internal/firewall/plan.go\<close> with the pure parts of \<open>ufw_manual.go\<close> and \<open>ufw_comments.go\<close>: the ports that a node
  needs opened or redirected, the union of the plans of all nodes, the part of it that manual UFW rules leave to the agent, and
  the comments by which the agent knows its own rules. A plan map is an association list in the order of a \<open>range\<close> loop.
\<close>

section \<open>Rules\<close>

record fw_rule =
  fr_family :: int
  fr_address :: string
  fr_source :: string
  fr_protocol :: string
  fr_ports :: port_range
  fr_target :: int

definition fw_rule_valid :: "net_lib \<Rightarrow> fw_rule \<Rightarrow> bool" where
  "fw_rule_valid lib r =
     (if (fr_family r \<noteq> 4 \<and> fr_family r \<noteq> 6) \<or> \<not> range_valid (fr_ports r) \<or> (fr_protocol r \<noteq> ''tcp'' \<and> fr_protocol r \<noteq> ''udp'') \<or>
        fr_target r < 0 \<or> fr_target r > 65535 then False
      else if fr_target r \<noteq> 0 \<and> fr_protocol r \<noteq> ''udp'' then False
      else if fr_address r \<noteq> [] \<and>
        (case nl_parse lib (fr_address r) of None \<Rightarrow> True | Some a \<Rightarrow> ip_unspecified a \<or> ip_is4 a \<noteq> (fr_family r = 4)) then False
      else if fr_source r \<noteq> [] \<and>
        (case nl_parse lib (fr_source r) of
           None \<Rightarrow> True
         | Some a \<Rightarrow> ip_zone a \<noteq> [] \<or> \<not> ip_global_unicast a \<or> ip_is4 a \<noteq> (fr_family r = 4) \<or> fr_target r \<noteq> 0) then False
      else True)"

definition rule_key :: "fw_rule \<Rightarrow> string" where
  "rule_key r =
     itoa (fr_family r) @ ''/'' @ fr_address r @ ''/'' @ fr_protocol r @ ''/'' @ range_string (fr_ports r) @ ''/'' @ itoa (fr_target r) @
     (if fr_source r = [] then [] else ''/'' @ fr_source r)"

definition same_address :: "fw_rule \<Rightarrow> fw_rule \<Rightarrow> bool" where
  "same_address a b = (fr_address a = [] \<or> fr_address b = [] \<or> fr_address a = fr_address b)"

definition rules_overlap :: "fw_rule \<Rightarrow> fw_rule \<Rightarrow> bool" where
  "rules_overlap a b =
     (fr_family a = fr_family b \<and> fr_protocol a = fr_protocol b \<and> same_address a b \<and> range_overlaps (fr_ports a) (fr_ports b))"

record fw_plan =
  fp_ready :: bool
  fp_listeners :: "fw_rule list"
  fp_redirects :: "fw_rule list"
  fp_restricted :: bool
  fp_blocked :: "string list"

definition empty_plan :: fw_plan where
  "empty_plan = \<lparr>fp_ready = False, fp_listeners = [], fp_redirects = [], fp_restricted = False, fp_blocked = []\<rparr>"

datatype fw_error =
    NeedsConfirmation
  | TargetConflict
  | BadListenPort
  | BadListenAddress
  | NoBalancerNetwork
  | UnknownProtocol
  | BadPolicy source_error
  | SourcesNotReady
  | BadBlockedPrefix
  | HoppingUnsupported
  | BadHopping port_error

section \<open>The plan of a node\<close>

text \<open>What of a \<open>NodeSpec\<close> matters: a landing has the protocol and port of its relay, a balancer its network;
  \<open>nd_xhttp3\<close> is what \<open>UsesXHTTP3\<close> answers.\<close>

record fw_node =
  nd_protocol :: string
  nd_server_port :: int
  nd_listen_ip :: string
  nd_network :: string
  nd_transport :: string
  nd_version :: int
  nd_port_hopping :: string
  nd_landing :: "(string \<times> int) option"
  nd_balancer :: "string option"
  nd_xhttp3 :: bool
  nd_policy :: "source_lists option"
  nd_policy_ready :: bool
  nd_blocked :: "string list"

definition trim_brackets :: "string \<Rightarrow> string" where
  "trim_brackets s = (let cut = dropWhile (\<lambda>c. c = CHR ''['' \<or> c = CHR '']'') in rev (cut (rev (cut s))))"

definition any_rule :: fw_rule where
  "any_rule = \<lparr>fr_family = 0, fr_address = [], fr_source = [], fr_protocol = [], fr_ports = \<lparr>rg_from = 0, rg_to = 0\<rparr>, fr_target = 0\<rparr>"

definition listener_addresses :: "net_lib \<Rightarrow> string \<Rightarrow> fw_error + fw_rule list" where
  "listener_addresses lib raw =
     (let raw = trim_space raw in
      if raw = [] \<or> raw = ''::'' \<or> raw = ''[::]'' then Inr [any_rule\<lparr>fr_family := 4\<rparr>, any_rule\<lparr>fr_family := 6\<rparr>]
      else case nl_parse lib (trim_brackets raw) of
        None \<Rightarrow> Inl BadListenAddress
      | Some a \<Rightarrow>
          if ip_zone a \<noteq> [] then Inl BadListenAddress
          else let a = ip_unmap a in
            Inr [any_rule\<lparr>fr_family := (if ip_is4 a then 4 else 6), fr_address := (if ip_unspecified a then [] else nl_print lib a)\<rparr>])"

definition listener_protocols :: "fw_node \<Rightarrow> string \<Rightarrow> fw_error + string list" where
  "listener_protocols node kind =
     (if nd_xhttp3 node then Inr [''udp'']
      else if nd_protocol node = ''balancer'' then
        (if nd_balancer node = Some ''tcp'' then Inr [''tcp''] else Inl NoBalancerNetwork)
      else if nd_protocol node \<in> {''hysteria'', ''tuic'', ''wireguard''} then Inr [''udp'']
      else if nd_protocol node \<in> {''shadowsocks'', ''naive''} then Inr [''tcp'', ''udp'']
      else if nd_protocol node = ''socks'' then (if kind = ''xray'' then Inr [''tcp'', ''udp''] else Inr [''tcp''])
      else if nd_protocol node \<in> {''http'', ''anytls''} then Inr [''tcp'']
      else if nd_protocol node = ''mieru'' then
        (if map lower_byte (nd_transport node) = ''udp'' then Inr [''udp''] else Inr [''tcp''])
      else if nd_protocol node \<in> {''vmess'', ''vless'', ''trojan''} then
        (if to_lower (nd_network node) \<in> {''kcp'', ''mkcp'', ''quic'', ''hysteria''} then Inr [''udp''] else Inr [''tcp''])
      else Inl UnknownProtocol)"

fun blocked_prefixes :: "net_lib \<Rightarrow> string list \<Rightarrow> string list option" where
  "blocked_prefixes lib [] = Some []"
| "blocked_prefixes lib (raw # rest) =
     (case nl_parse_prefix lib raw of
        None \<Rightarrow> None
      | Some p \<Rightarrow>
          if ip_zone (fst p) \<noteq> [] \<or> ip_is4in6 (fst p) then None
          else map_option ((#) (nl_print_prefix lib (prefix_masked p))) (blocked_prefixes lib rest))"

definition restrict_plan :: "net_lib \<Rightarrow> fw_node \<Rightarrow> fw_plan \<Rightarrow> fw_error + fw_plan" where
  "restrict_plan lib node plan =
     (if \<not> lists_enabled (nd_policy node) then Inr plan
      else case validate_policy lib (nd_policy node) of
        Some e \<Rightarrow> Inl (BadPolicy e)
      | None \<Rightarrow>
          if \<not> nd_policy_ready node then Inl SourcesNotReady
          else (case blocked_prefixes lib (nd_blocked node) of
                  None \<Rightarrow> Inl BadBlockedPrefix
                | Some blocked \<Rightarrow> Inr (plan\<lparr>fp_restricted := True, fp_blocked := blocked\<rparr>)))"

definition relay_node :: "fw_node \<Rightarrow> fw_node" where
  "relay_node nc =
     (case nd_landing nc of
        None \<Rightarrow> nc
      | Some (protocol, port) \<Rightarrow> nc\<lparr>nd_protocol := protocol, nd_server_port := (if port \<noteq> 0 then port else nd_server_port nc)\<rparr>)"

definition listener_rules :: "fw_rule list \<Rightarrow> string list \<Rightarrow> int \<Rightarrow> fw_rule list" where
  "listener_rules addresses protocols port =
     concat (map (\<lambda>a. map (\<lambda>p. a\<lparr>fr_protocol := p, fr_ports := \<lparr>rg_from = port, rg_to = port\<rparr>\<rparr>) protocols) addresses)"

definition redirect_rules :: "fw_rule list \<Rightarrow> port_range list \<Rightarrow> int \<Rightarrow> fw_rule list" where
  "redirect_rules addresses hopping port =
     concat (map (\<lambda>a. map (\<lambda>r. a\<lparr>fr_protocol := ''udp'', fr_ports := r, fr_target := port\<rparr>) (without_ranges hopping port)) addresses)"

definition plan_for_node :: "net_lib \<Rightarrow> fw_node option \<Rightarrow> string \<Rightarrow> fw_error + fw_plan" where
  "plan_for_node lib nc kind =
     (case nc of
        None \<Rightarrow> Inr empty_plan
      | Some nc \<Rightarrow>
          let node = relay_node nc; port = nd_server_port node in
          if port < 1 \<or> port > 65535 then Inl BadListenPort
          else (case listener_addresses lib (nd_listen_ip node) of Inl e \<Rightarrow> Inl e | Inr addresses \<Rightarrow>
            (case listener_protocols node kind of Inl e \<Rightarrow> Inl e | Inr protocols \<Rightarrow>
              (case restrict_plan lib nc (empty_plan\<lparr>fp_ready := True\<rparr>) of Inl e \<Rightarrow> Inl e | Inr plan \<Rightarrow>
                let plan = plan\<lparr>fp_listeners := listener_rules addresses protocols port\<rparr> in
                if trim_space (nd_port_hopping node) = [] then Inr plan
                else if nd_protocol node \<noteq> ''hysteria'' \<or> nd_version node \<noteq> 2 \<or> nd_landing node \<noteq> None then Inl HoppingUnsupported
                else (case parse_ranges (nd_port_hopping node) of
                        Inl e \<Rightarrow> Inl (BadHopping e)
                      | Inr hopping \<Rightarrow> Inr (plan\<lparr>fp_redirects := redirect_rules addresses hopping port\<rparr>))))))"

section \<open>The union of all plans\<close>

definition group_key :: "fw_rule \<Rightarrow> string" where
  "group_key r =
     itoa (fr_family r) @ ''/'' @ fr_address r @ ''/'' @ fr_protocol r @ ''/'' @ itoa (fr_target r) @ ''/'' @ fr_source r"

fun group_rules :: "fw_rule list \<Rightarrow> (string, fw_rule \<times> port_range list) go_map \<Rightarrow> (string, fw_rule \<times> port_range list) go_map" where
  "group_rules [] groups = groups"
| "group_rules (r # rules) groups =
     (let (first, ports) = get_or (r, []) groups (group_key r) in
      group_rules rules (AList.update (group_key r) (first, ports @ [fr_ports r]) groups))"

definition merge_rules :: "fw_rule list \<Rightarrow> fw_rule list" where
  "merge_rules rules =
     sort_key rule_key
       (concat (map (\<lambda>(k, first, ports). map (\<lambda>p. first\<lparr>fr_ports := p\<rparr>) (merge_ranges ports)) (group_rules rules [])))"

definition plans_share_port :: "fw_plan \<Rightarrow> fw_plan \<Rightarrow> bool" where
  "plans_share_port left right =
     list_ex (\<lambda>a. list_ex (\<lambda>b.
        rules_overlap a b \<and> (fp_restricted left \<or> fp_restricted right \<or> fr_source a \<noteq> [] \<or> fr_source b \<noteq> []))
       (fp_listeners right @ fp_redirects right)) (fp_listeners left @ fp_redirects left)"

definition restricted_shared :: "(string, fw_plan) go_map \<Rightarrow> bool" where
  "restricted_shared plans =
     list_ex (\<lambda>(owner, left). list_ex (\<lambda>(other, right). owner < other \<and> plans_share_port left right) plans) plans"

definition plan_allows :: "fw_plan \<Rightarrow> fw_rule list" where
  "plan_allows plan = fp_listeners plan @ map (\<lambda>r. r\<lparr>fr_target := 0\<rparr>) (fp_redirects plan)"

definition plan_claims :: "fw_plan \<Rightarrow> fw_rule list" where
  "plan_claims plan =
     map (\<lambda>r. r\<lparr>fr_target := rg_from (fr_ports r)\<rparr>) (filter (\<lambda>r. fr_protocol r = ''udp'') (fp_listeners plan)) @ fp_redirects plan"

definition claims_clash :: "fw_rule \<Rightarrow> fw_rule \<Rightarrow> bool" where
  "claims_clash left right =
     (fr_family left = fr_family right \<and> same_address left right \<and> range_overlaps (fr_ports left) (fr_ports right) \<and>
      fr_target left \<noteq> fr_target right)"

fun any_clash :: "fw_rule list \<Rightarrow> bool" where
  "any_clash [] = False"
| "any_clash (left # claims) = (list_ex (claims_clash left) claims \<or> any_clash claims)"

definition combine_plans :: "(string, fw_plan) go_map \<Rightarrow> fw_error + (fw_rule list \<times> fw_rule list)" where
  "combine_plans plans =
     (if restricted_shared plans then Inl NeedsConfirmation
      else if any_clash (concat (map (plan_claims \<circ> snd) plans)) then Inl TargetConflict
      else Inr (merge_rules (concat (map (plan_allows \<circ> snd) plans)), merge_rules (concat (map (fp_redirects \<circ> snd) plans))))"

section \<open>Ports that manual UFW rules leave\<close>

record ufw_rule =
  uw_rule :: fw_rule
  uw_action :: string
  uw_comment :: string
  uw_scoped :: bool

definition ufw_exclusions :: "fw_rule \<Rightarrow> ufw_rule list \<Rightarrow> port_range list" where
  "ufw_exclusions rule existing =
     map (\<lambda>u. \<lparr>rg_from = max (rg_from (fr_ports rule)) (rg_from (fr_ports (uw_rule u))),
              rg_to = min (rg_to (fr_ports rule)) (rg_to (fr_ports (uw_rule u)))\<rparr>)
       (filter (\<lambda>u. uw_action u \<noteq> ''ALLOW'' \<and> rules_overlap rule (uw_rule u)) existing)"

fun split_ports :: "fw_rule \<Rightarrow> int \<Rightarrow> port_range list \<Rightarrow> fw_rule list \<times> fw_rule list" where
  "split_ports rule from [] =
     (if from \<le> rg_to (fr_ports rule) then [rule\<lparr>fr_ports := (fr_ports rule)\<lparr>rg_from := from\<rparr>\<rparr>] else [], [])"
| "split_ports rule from (excluded # rest) =
     (let (managed, manual) = split_ports rule (rg_to excluded + 1) rest in
      ((if from < rg_from excluded then [rule\<lparr>fr_ports := \<lparr>rg_from = from, rg_to = rg_from excluded - 1\<rparr>\<rparr>] else []) @ managed,
       rule\<lparr>fr_ports := excluded\<rparr> # manual))"

definition split_ufw_managed :: "fw_rule list \<Rightarrow> ufw_rule list \<Rightarrow> fw_rule list \<times> fw_rule list" where
  "split_ufw_managed allows existing =
     (let parts = map (\<lambda>r. split_ports r (rg_from (fr_ports r)) (merge_ranges (ufw_exclusions r existing))) allows in
      (concat (map fst parts), concat (map snd parts)))"

definition overlap_any :: "fw_rule \<Rightarrow> fw_rule list \<Rightarrow> bool" where
  "overlap_any rule others = list_ex (rules_overlap rule) others"

section \<open>Keys\<close>

lemma itoa_inj: "itoa m = itoa n \<longleftrightarrow> m = n"
proof -
  have "itoa_nat k \<noteq> CHR ''-'' # s" for k s using itoa_nat_no [of "CHR ''-''" k] by (auto simp: is_digit_def)
  from this this [symmetric] show ?thesis by (simp add: itoa_def itoa_nat_inj eq_nat_nat_iff)
qed

lemma itoa_no_slash: "CHR ''/'' \<notin> set (itoa n)"
  using itoa_nat_no [of "CHR ''/''"] by (simp add: itoa_def is_digit_def)

lemma range_string_no_slash: "range_valid r \<Longrightarrow> CHR ''/'' \<notin> set (range_string r)"
  using itoa_nat_no [of "CHR ''/''"] by (auto simp: range_string_def itoa_def is_digit_def)

lemma range_string_inj: "range_valid r \<Longrightarrow> range_valid q \<Longrightarrow> range_string r = range_string q \<longleftrightarrow> r = q"
  by (metis parse_item_range_string sum.inject(2))

definition rule_plain :: "fw_rule \<Rightarrow> bool" where
  "rule_plain r \<longleftrightarrow> CHR ''/'' \<notin> set (fr_address r) \<and> CHR ''/'' \<notin> set (fr_protocol r) \<and> range_valid (fr_ports r)"

definition same_group :: "fw_rule \<Rightarrow> fw_rule \<Rightarrow> bool" where
  "same_group r q \<longleftrightarrow> fr_family r = fr_family q \<and> fr_address r = fr_address q \<and> fr_protocol r = fr_protocol q \<and>
     fr_target r = fr_target q \<and> fr_source r = fr_source q"

lemma same_group_alt: "same_group r q \<longleftrightarrow> r\<lparr>fr_ports := p\<rparr> = q\<lparr>fr_ports := p\<rparr>"
  by (cases r; cases q) (auto simp: same_group_def)

lemma group_key_ports [simp]: "group_key (r\<lparr>fr_ports := p\<rparr>) = group_key r"
  by (simp add: group_key_def)

lemma group_key_inj: "rule_plain r \<Longrightarrow> rule_plain q \<Longrightarrow> group_key r = group_key q \<longleftrightarrow> same_group r q"
  by (auto simp: group_key_def rule_plain_def same_group_def split_at_first itoa_no_slash itoa_inj)

lemma rule_key_inj:
  assumes "rule_plain r" "rule_plain q" "rule_key r = rule_key q"
  shows "r = q"
proof -
  let ?tail = "\<lambda>r. if fr_source r = [] then [] else CHR ''/'' # fr_source r"
  have parts: "fr_family r = fr_family q" "fr_address r = fr_address q" "fr_protocol r = fr_protocol q" "fr_ports r = fr_ports q"
    and last: "itoa (fr_target r) @ ?tail r = itoa (fr_target q) @ ?tail q"
    using assms by (auto simp: rule_key_def rule_plain_def split_at_first itoa_no_slash itoa_inj range_string_no_slash range_string_inj)
  have "itoa m \<noteq> xs @ CHR ''/'' # s" for m xs s by (metis itoa_no_slash in_set_conv_decomp)
  from this this [symmetric] have "(fr_source r = []) = (fr_source q = [])" using last by (auto split: if_splits)
  then have "fr_target r = fr_target q \<and> fr_source r = fr_source q"
    using last by (auto simp: split_at_first itoa_no_slash itoa_inj split: if_splits)
  then show ?thesis using parts by (cases r; cases q) simp
qed

section \<open>What merging keeps\<close>

definition groups_ok :: "fw_rule list \<Rightarrow> (string, fw_rule \<times> port_range list) go_map \<Rightarrow> bool" where
  "groups_ok seen groups \<longleftrightarrow>
     distinct_keys groups \<and> fst ` set groups = group_key ` set seen \<and>
     (\<forall>(k, first, ports) \<in> set groups. first \<in> set seen \<and> group_key first = k \<and> ports = map fr_ports (filter (\<lambda>q. group_key q = k) seen))"

lemma groups_ok_step:
  fixes r :: fw_rule
  assumes "groups_ok seen groups"
  defines "v \<equiv> get_or (r, []) groups (group_key r)"
  shows "groups_ok (seen @ [r]) (AList.update (group_key r) (fst v, snd v @ [fr_ports r]) groups)"
proof -
  let ?g = "AList.update (group_key r) (fst v, snd v @ [fr_ports r]) groups"
  have v: "fst v \<in> insert r (set seen) \<and> group_key (fst v) = group_key r \<and> snd v = map fr_ports (filter (\<lambda>q. group_key q = group_key r) seen)"
  proof (cases "map_of groups (group_key r)")
    case None
    then have "group_key r \<notin> group_key ` set seen" using assms(1) by (auto simp: map_of_eq_None_iff groups_ok_def)
    then have "filter (\<lambda>q. group_key q = group_key r) seen = []" by (force simp: filter_empty_conv image_iff)
    then show ?thesis using None by (simp add: v_def get_or_def)
  next
    case (Some e)
    then show ?thesis using assms(1) map_of_SomeD [OF Some] by (auto simp: v_def get_or_def groups_ok_def)
  qed
  have keys: "distinct_keys ?g" "fst ` set ?g = group_key ` set (seen @ [r])"
    using assms(1) by (simp_all add: groups_ok_def distinct_update dom_update)
  have "first \<in> set (seen @ [r]) \<and> group_key first = k \<and> ports = map fr_ports (filter (\<lambda>q. group_key q = k) (seen @ [r]))"
    if "(k, first, ports) \<in> set ?g" for k first ports
  proof (cases "k = group_key r")
    case True
    then have "map_of ?g k = Some (first, ports)" using that keys(1) by simp
    then show ?thesis using True v by (auto simp: go_map)
  next
    case False
    then have "map_of groups k = Some (first, ports)" using that keys(1) by (simp add: go_map flip: map_of_eq_Some_iff)
    then show ?thesis using False assms(1) map_of_SomeD by (fastforce simp: groups_ok_def)
  qed
  then show ?thesis using keys by (auto simp: groups_ok_def)
qed

lemma group_rules_ok: "groups_ok seen groups \<Longrightarrow> groups_ok (seen @ rules) (group_rules rules groups)"
proof (induction rules arbitrary: seen groups)
  case (Cons r rules)
  show ?case using Cons.IH [OF groups_ok_step [OF Cons.prems, of r]] by (simp add: case_prod_beta)
qed simp

lemma canonical_distinct: "canonical rs \<Longrightarrow> all_valid rs \<Longrightarrow> distinct rs"
proof (induction rs)
  case (Cons r rs)
  have "r \<notin> set rs"
  proof
    assume "r \<in> set rs"
    then have "rg_to r \<in> covered rs" using Cons.prems(2) by (auto simp: covered_def ports_def range_valid_def)
    then show False using canonical_tail_above [OF Cons.prems(1)] by fastforce
  qed
  moreover have "canonical rs" using Cons.prems(1) by (cases rs) simp_all
  ultimately show ?case using Cons by simp
qed simp

definition group_ports :: "fw_rule list \<Rightarrow> fw_rule \<Rightarrow> port_range list" where
  "group_ports rules r = map fr_ports (filter (\<lambda>q. group_key q = group_key r) rules)"

lemma group_ports_valid: "\<forall>r \<in> set rules. rule_plain r \<Longrightarrow> all_valid (group_ports rules r)"
  by (auto simp: group_ports_def all_valid_def rule_plain_def)

lemma merge_rules_facts:
  assumes "\<forall>r \<in> set rules. rule_plain r"
  shows "set (merge_rules rules) = {r\<lparr>fr_ports := p\<rparr> |r p. r \<in> set rules \<and> p \<in> set (merge_ranges (group_ports rules r))}"
    "distinct (merge_rules rules)" "sorted (map rule_key (merge_rules rules))" "\<forall>r \<in> set (merge_rules rules). rule_plain r"
proof -
  let ?g = "group_rules rules []"
  have ok: "groups_ok rules ?g" using group_rules_ok [of "[]" "[]" rules] by (simp add: groups_ok_def)
  have member: "first \<in> set rules" "group_key first = k" "ports = group_ports rules first" if "(k, first, ports) \<in> set ?g" for k first ports
    using ok that by (auto simp: groups_ok_def group_ports_def)
  have some: "\<exists>first. (group_key r, first, group_ports rules r) \<in> set ?g \<and> same_group first r" if "r \<in> set rules" for r
  proof -
    have "group_key r \<in> fst ` set ?g" using ok that by (auto simp: groups_ok_def)
    then obtain first ports where e: "(group_key r, first, ports) \<in> set ?g" by force
    then have "group_key first = group_key r" "ports = group_ports rules r" "first \<in> set rules" using ok by (auto simp: groups_ok_def group_ports_def)
    then show ?thesis using e group_key_inj [of first r] assms that by auto
  qed
  show set: "set (merge_rules rules) = {r\<lparr>fr_ports := p\<rparr> |r p. r \<in> set rules \<and> p \<in> set (merge_ranges (group_ports rules r))}" (is "_ = ?S")
  proof (intro equalityI subsetI)
    fix q assume "q \<in> set (merge_rules rules)"
    then obtain k first ports p where "(k, first, ports) \<in> set ?g" "p \<in> set (merge_ranges ports)" "q = first\<lparr>fr_ports := p\<rparr>"
      by (auto simp: merge_rules_def)
    then show "q \<in> ?S" using member [of k first ports] by blast
  next
    fix q assume "q \<in> ?S"
    then obtain r p where rp: "r \<in> set rules" "p \<in> set (merge_ranges (group_ports rules r))" "q = r\<lparr>fr_ports := p\<rparr>" by blast
    obtain first where first: "(group_key r, first, group_ports rules r) \<in> set ?g" "same_group first r" using some [OF rp(1)] by blast
    have "q = first\<lparr>fr_ports := p\<rparr>" using rp(3) first(2) same_group_alt [of first r p] by simp
    then have "q \<in> (\<lambda>p. first\<lparr>fr_ports := p\<rparr>) ` set (merge_ranges (group_ports rules r))" using rp(2) by (rule image_eqI)
    then show "q \<in> set (merge_rules rules)" by (simp add: merge_rules_def) (rule bexI [OF _ first(1)], simp)
  qed
  let ?part = "\<lambda>(k, first, ports). map (\<lambda>p. first\<lparr>fr_ports := p\<rparr>) (merge_ranges ports) :: fw_rule list"
  have "distinct (concat (map ?part gs)) \<and> group_key ` set (concat (map ?part gs)) \<subseteq> fst ` set gs"
    if "distinct_keys gs" "\<forall>(k, first, ports) \<in> set gs. group_key first = k \<and> all_valid ports" for gs
    using that
  proof (induction gs)
    case (Cons e gs)
    obtain k first ports where e: "e = (k, first, ports)" by (cases e)
    have here: "distinct (?part e)"
      using canonical_distinct [OF merge_ranges_canonical merge_ranges_valid, of ports] Cons.prems(2) e
      by (auto simp: distinct_map inj_on_def dest: arg_cong [of _ _ fr_ports])
    have keys: "group_key q = k" if "q \<in> set (?part e)" for q using that Cons.prems(2) e by auto
    have IH: "distinct (concat (map ?part gs))" "group_key ` set (concat (map ?part gs)) \<subseteq> fst ` set gs" "k \<notin> fst ` set gs"
      using Cons e by simp_all
    have "set (?part e) \<inter> set (concat (map ?part gs)) = {}" using keys IH(2,3) by blast
    moreover have "group_key ` set (?part e) \<subseteq> {k}" using keys by blast
    ultimately show ?case using here IH(1,2) e by (simp only: list.map concat.simps distinct_append set_append image_Un list.set image_insert fst_conv) blast
  qed simp
  moreover have "\<forall>(k, first, ports) \<in> set ?g. group_key first = k \<and> all_valid ports"
    using member group_ports_valid [OF assms] by (auto dest: member)
  ultimately have "distinct (concat (map ?part ?g))" using ok by (simp only: groups_ok_def)
  then show "distinct (merge_rules rules)" by (simp add: merge_rules_def)
  show "sorted (map rule_key (merge_rules rules))" by (simp add: merge_rules_def)
  show "\<forall>r \<in> set (merge_rules rules). rule_plain r"
    using assms merge_ranges_valid [OF group_ports_valid [OF assms]] by (auto simp: set rule_plain_def all_valid_def)
qed

lemma merge_rules_cong:
  assumes plain: "\<forall>r \<in> set rules. rule_plain r" and same: "set rules = set rules'"
  shows "merge_rules rules = merge_rules rules'"
proof -
  have plain': "\<forall>r \<in> set rules'. rule_plain r" using plain same by simp
  have "covered (group_ports rules r) = covered (group_ports rules' r)" for r
    using same by (simp add: covered_def group_ports_def)
  then have "merge_ranges (group_ports rules r) = merge_ranges (group_ports rules' r)" for r
    by (intro merge_ranges_cong group_ports_valid plain plain')
  then have sets: "set (merge_rules rules) = set (merge_rules rules')"
    using merge_rules_facts(1) [OF plain] merge_rules_facts(1) [OF plain'] same by simp
  have inj: "inj_on rule_key (set (merge_rules rules))"
    using merge_rules_facts(4) [OF plain] rule_key_inj by (auto simp: inj_on_def)
  show ?thesis
    using merge_rules_facts(2,3) [OF plain] merge_rules_facts(2,3) [OF plain'] inj sets
    by (intro map_sorted_distinct_set_unique [of rule_key]) (simp_all add: distinct_map)
qed

lemma merge_rules_covers:
  assumes plain: "\<forall>r \<in> set rules. rule_plain r" and P: "\<And>r q. same_group r q \<Longrightarrow> P r = P q"
  shows "(\<exists>r \<in> set (merge_rules rules). P r \<and> port \<in> ports (fr_ports r)) \<longleftrightarrow> (\<exists>r \<in> set rules. P r \<and> port \<in> ports (fr_ports r))"
proof -
  have "P (r\<lparr>fr_ports := p\<rparr>) = P r" for r p by (rule P) (simp add: same_group_def)
  moreover have "(\<exists>x \<in> {r\<lparr>fr_ports := p\<rparr> |r p. r \<in> set rules \<and> p \<in> B r}. Q x) \<longleftrightarrow> (\<exists>r \<in> set rules. \<exists>p \<in> B r. Q (r\<lparr>fr_ports := p\<rparr>))" for B Q
    by blast
  ultimately have "(\<exists>r \<in> set (merge_rules rules). P r \<and> port \<in> ports (fr_ports r)) \<longleftrightarrow>
      (\<exists>r \<in> set rules. P r \<and> port \<in> covered (merge_ranges (group_ports rules r)))"
    unfolding merge_rules_facts(1) [OF plain] covered_def by simp
  also have "\<dots> \<longleftrightarrow> (\<exists>r \<in> set rules. P r \<and> (\<exists>q \<in> set rules. group_key q = group_key r \<and> port \<in> ports (fr_ports q)))"
    using merge_ranges_covered [OF group_ports_valid [OF plain]] by (auto simp: covered_def group_ports_def)
  also have "\<dots> \<longleftrightarrow> (\<exists>r \<in> set rules. P r \<and> port \<in> ports (fr_ports r))"
    using group_key_inj plain P by metis
  finally show ?thesis .
qed

definition opens :: "fw_rule list \<Rightarrow> int \<Rightarrow> string \<Rightarrow> string \<Rightarrow> string \<Rightarrow> int \<Rightarrow> bool" where
  "opens rules family dst src protocol port \<longleftrightarrow>
     (\<exists>r \<in> set rules. (fr_family r = family \<and> (fr_address r = [] \<or> fr_address r = dst) \<and> (fr_source r = [] \<or> fr_source r = src) \<and>
        fr_protocol r = protocol) \<and> port \<in> ports (fr_ports r))"

definition sends :: "fw_rule list \<Rightarrow> int \<Rightarrow> string \<Rightarrow> int \<Rightarrow> int \<Rightarrow> bool" where
  "sends rules family dst port target \<longleftrightarrow>
     (\<exists>r \<in> set rules. (fr_family r = family \<and> (fr_address r = [] \<or> fr_address r = dst) \<and> fr_target r = target) \<and> port \<in> ports (fr_ports r))"

lemma merge_opens: "\<forall>r \<in> set rules. rule_plain r \<Longrightarrow> opens (merge_rules rules) family dst src protocol port = opens rules family dst src protocol port"
  unfolding opens_def by (rule merge_rules_covers) (simp_all add: same_group_def)

lemma merge_sends: "\<forall>r \<in> set rules. rule_plain r \<Longrightarrow> sends (merge_rules rules) family dst port target = sends rules family dst port target"
  unfolding sends_def by (rule merge_rules_covers) (simp_all add: same_group_def)

section \<open>Plans of nodes\<close>

definition plan_ok :: "fw_plan \<Rightarrow> bool" where
  "plan_ok plan \<longleftrightarrow>
     (\<forall>r \<in> set (fp_listeners plan). rule_plain r \<and> rg_from (fr_ports r) = rg_to (fr_ports r) \<and> fr_target r = 0) \<and>
     (\<forall>r \<in> set (fp_redirects plan). rule_plain r \<and> fr_protocol r = ''udp'')"

lemma listener_addresses_plain:
  assumes "listener_addresses lib raw = Inr addresses" "lib_ok lib" "a \<in> set addresses"
  shows "CHR ''/'' \<notin> set (fr_address a)" "fr_source a = []" "fr_target a = 0" "fr_family a \<in> {4, 6}"
proof -
  have "ip_zone b = [] \<Longrightarrow> CHR ''/'' \<notin> set (nl_print lib (ip_unmap b))" for b
    using assms(2) ip_unmap_facts(2) by (simp add: lib_ok_def)
  then show "CHR ''/'' \<notin> set (fr_address a)" "fr_source a = []" "fr_target a = 0" "fr_family a \<in> {4, 6}"
    using assms(1,3) by (auto simp: listener_addresses_def Let_def any_rule_def split: if_splits option.splits)
qed

lemma listener_protocols_plain: "listener_protocols node kind = Inr ps \<Longrightarrow> set ps \<subseteq> {''tcp'', ''udp''}"
  by (auto simp: listener_protocols_def split: if_splits)

lemma plan_for_node_cases:
  assumes "plan_for_node lib nc kind = Inr plan"
  obtains "nc = None" "plan = empty_plan"
  | n addresses protocols hopping where "nc = Some n" "1 \<le> nd_server_port (relay_node n)" "nd_server_port (relay_node n) \<le> 65535"
      "listener_addresses lib (nd_listen_ip n) = Inr addresses" "listener_protocols (relay_node n) kind = Inr protocols"
      "fp_listeners plan = listener_rules addresses protocols (nd_server_port (relay_node n))"
      "fp_redirects plan = redirect_rules addresses hopping (nd_server_port (relay_node n))"
      "hopping = [] \<and> trim_space (nd_port_hopping n) = [] \<or> parse_ranges (nd_port_hopping n) = Inr hopping"
proof (cases nc)
  case None
  then show ?thesis using assms that(1) by (simp add: plan_for_node_def)
next
  case (Some n)
  have same: "nd_listen_ip (relay_node n) = nd_listen_ip n" "nd_port_hopping (relay_node n) = nd_port_hopping n" "nd_landing (relay_node n) = nd_landing n"
    by (simp_all add: relay_node_def split: option.splits)
  have empty: "redirect_rules addresses [] port = []" for addresses port by (simp add: redirect_rules_def)
  have clean: "fp_redirects p = []" if "restrict_plan lib n (empty_plan\<lparr>fp_ready := True\<rparr>) = Inr p" for p
    using that by (auto simp: restrict_plan_def empty_plan_def split: if_splits option.splits)
  show ?thesis
    using assms that(2) [OF Some, of _ _ "[]"] that(2) [OF Some] Some clean
    by (auto simp: plan_for_node_def Let_def same empty split: if_splits sum.splits)
qed

lemma plan_for_node_ok:
  assumes "plan_for_node lib nc kind = Inr plan" "lib_ok lib"
  shows "plan_ok plan"
  using assms(1)
proof (cases rule: plan_for_node_cases)
  case 1
  then show ?thesis by (simp add: plan_ok_def empty_plan_def)
next
  case (2 n addresses protocols hopping)
  let ?port = "nd_server_port (relay_node n)"
  have "all_valid hopping" using 2(8) parse_ranges_facts by auto
  then have "range_valid r" if "r \<in> set (without_ranges hopping ?port)" for r
    using without_ranges_valid [of hopping ?port] that by (auto simp: all_valid_def)
  moreover have "range_valid \<lparr>rg_from = ?port, rg_to = ?port\<rparr>" using 2(2,3) by (simp add: range_valid_def)
  ultimately show ?thesis
    using listener_addresses_plain [OF 2(4) assms(2)] listener_protocols_plain [OF 2(5)]
    by (fastforce simp: plan_ok_def 2(6,7) listener_rules_def redirect_rules_def rule_plain_def)
qed

lemma any_clash_iff: "any_clash claims \<longleftrightarrow> (\<exists>x \<in> set claims. \<exists>y \<in> set claims. claims_clash x y)"
proof (induction claims)
  case (Cons c claims)
  have "claims_clash x y = claims_clash y x" "\<not> claims_clash x x" for x y
    using range_overlaps_sym [of "fr_ports x" "fr_ports y"] by (auto simp: claims_clash_def same_address_def)
  then have "(\<exists>x \<in> set claims. claims_clash x c) \<longleftrightarrow> (\<exists>y \<in> set claims. claims_clash c y)" "\<not> claims_clash c c" by simp_all
  moreover have "(\<exists>x \<in> set claims. claims_clash x c \<or> (\<exists>y \<in> set claims. claims_clash x y)) \<longleftrightarrow>
      (\<exists>x \<in> set claims. claims_clash x c) \<or> (\<exists>x \<in> set claims. \<exists>y \<in> set claims. claims_clash x y)" by blast
  ultimately show ?case using Cons by (simp add: list_ex_iff)
qed simp

lemma ports_overlap: "port \<in> ports r \<Longrightarrow> port \<in> ports q \<Longrightarrow> range_overlaps r q"
  by (simp add: ports_def range_overlaps_def)

text \<open>The plans of a manager are those of \<open>PlanForNode\<close>, with its own mark whether the node listens.\<close>

definition made_by :: "net_lib \<Rightarrow> fw_plan \<Rightarrow> bool" where
  "made_by lib plan \<longleftrightarrow> (\<exists>nc kind q ready. plan_for_node lib nc kind = Inr q \<and> plan = q\<lparr>fp_ready := ready\<rparr>)"

lemma made_by_ok: "made_by lib plan \<Longrightarrow> lib_ok lib \<Longrightarrow> plan_ok plan"
  using plan_for_node_ok by (fastforce simp: made_by_def plan_ok_def)

lemma plan_rules_plain:
  assumes "\<forall>e \<in> set plans. plan_ok (snd e)"
  shows "\<forall>r \<in> set (concat (map (plan_allows \<circ> snd) plans)). rule_plain r"
    "\<forall>r \<in> set (concat (map (fp_redirects \<circ> snd) plans)). rule_plain r"
  using assms by (fastforce simp: plan_allows_def plan_ok_def rule_plain_def)+

lemma combine_plansD:
  assumes "combine_plans plans = Inr (allows, redirects)"
  shows "\<not> restricted_shared plans" "\<not> any_clash (concat (map (plan_claims \<circ> snd) plans))"
    "allows = merge_rules (concat (map (plan_allows \<circ> snd) plans))" "redirects = merge_rules (concat (map (fp_redirects \<circ> snd) plans))"
  using assms by (auto simp: combine_plans_def split: if_splits)

lemma union_sends:
  assumes "\<forall>e \<in> set plans. plan_ok (snd e)" "combine_plans plans = Inr (allows, redirects)"
  shows "sends redirects f d port t \<longleftrightarrow> (\<exists>e \<in> set plans. sends (fp_redirects (snd e)) f d port t)"
  unfolding combine_plansD(4) [OF assms(2)] merge_sends [OF plan_rules_plain(2) [OF assms(1)]] by (auto simp: sends_def)

section \<open>Properties of the union\<close>

lemma opens_append: "opens (xs @ ys) f d s pr port \<longleftrightarrow> opens xs f d s pr port \<or> opens ys f d s pr port"
  by (auto simp: opens_def)

lemma opens_allows: "opens (plan_allows plan) f d s pr port \<longleftrightarrow> opens (fp_listeners plan @ fp_redirects plan) f d s pr port"
  by (simp add: opens_def plan_allows_def bex_Un)

text \<open>C28. The rules that the backends are given open exactly the ports that some node listens on or forwards, for each address
  family, local address, protocol and source, and redirect exactly what some node asks for; the merged lists name each port once
  and depend on neither the order of the plans nor that of their rules.\<close>

theorem union_is_exact:
  assumes lib: "lib_ok lib" and made: "\<forall>e \<in> set plans. made_by lib (snd e)" and ok: "combine_plans plans = Inr (allows, redirects)"
  shows "(opens allows f d s pr port \<longleftrightarrow> (\<exists>e \<in> set plans. opens (fp_listeners (snd e) @ fp_redirects (snd e)) f d s pr port)) \<and>
    (sends redirects f d port t \<longleftrightarrow> (\<exists>e \<in> set plans. sends (fp_redirects (snd e)) f d port t)) \<and>
    distinct allows \<and> distinct redirects \<and>
    (\<forall>plans'. set plans' = set plans \<longrightarrow> combine_plans plans' = combine_plans plans)"
proof -
  have plans_ok: "\<forall>e \<in> set plans. plan_ok (snd e)" using made made_by_ok lib by blast
  note plain = plan_rules_plain [OF plans_ok] and c = combine_plansD [OF ok]
  have opened: "opens (concat (map g plans)) f d s pr port \<longleftrightarrow> (\<exists>e \<in> set plans. opens (g e) f d s pr port)" for g :: "string \<times> fw_plan \<Rightarrow> fw_rule list"
    by (auto simp: opens_def)
  have "combine_plans plans' = combine_plans plans" if same: "set plans' = set plans" for plans'
  proof -
    have "restricted_shared plans' = restricted_shared plans" by (simp add: restricted_shared_def list_ex_iff same)
    moreover have "any_clash (concat (map (plan_claims \<circ> snd) plans')) = any_clash (concat (map (plan_claims \<circ> snd) plans))"
      by (simp add: any_clash_iff same)
    moreover have "merge_rules (concat (map (plan_allows \<circ> snd) plans')) = merge_rules (concat (map (plan_allows \<circ> snd) plans))"
      "merge_rules (concat (map (fp_redirects \<circ> snd) plans')) = merge_rules (concat (map (fp_redirects \<circ> snd) plans))"
      by (rule merge_rules_cong; use plan_rules_plain [of plans'] plans_ok same in simp)+
    ultimately show ?thesis by (simp add: combine_plans_def)
  qed
  moreover have "opens allows f d s pr port \<longleftrightarrow> (\<exists>e \<in> set plans. opens (fp_listeners (snd e) @ fp_redirects (snd e)) f d s pr port)"
    unfolding c(3) merge_opens [OF plain(1)] opened by (simp add: opens_allows)
  moreover have "sends redirects f d port t \<longleftrightarrow> (\<exists>e \<in> set plans. sends (fp_redirects (snd e)) f d port t)"
    by (rule union_sends [OF plans_ok ok])
  moreover have "distinct allows" "distinct redirects"
    unfolding c(3,4) by (rule merge_rules_facts(2) [OF plain(1)], rule merge_rules_facts(2) [OF plain(2)])
  ultimately show ?thesis by blast
qed

lemma redirect_target:
  assumes "plan_for_node lib nc kind = Inr plan" "r \<in> set (fp_redirects plan)"
  shows "fr_target r \<notin> ports (fr_ports r)"
  using assms(1)
proof (cases rule: plan_for_node_cases)
  case (2 n addresses protocols hopping)
  let ?port = "nd_server_port (relay_node n)"
  have "?port \<notin> ports q" if "q \<in> set (without_ranges hopping ?port)" for q
    using without_ranges_covered [of hopping ?port] that by (auto simp: covered_def)
  then show ?thesis using assms(2) by (auto simp: 2(7) redirect_rules_def)
qed (use assms(2) in \<open>simp add: empty_plan_def\<close>)

text \<open>C29. A datagram to one local address is redirected to at most one port, and never if some node listens for datagrams on the
  port it was sent to: the ranges of two nodes and the listeners of all are kept apart before any rule is written.\<close>

theorem datagrams_reach_one_port:
  assumes lib: "lib_ok lib" and made: "\<forall>e \<in> set plans. made_by lib (snd e)" and ok: "combine_plans plans = Inr (allows, redirects)"
    and sent: "sends redirects f d port t"
  shows "(sends redirects f d port t' \<longrightarrow> t' = t) \<and> (\<forall>e \<in> set plans. \<not> opens (fp_listeners (snd e)) f d s ''udp'' port)"
proof -
  have plans_ok: "\<forall>e \<in> set plans. plan_ok (snd e)" using made made_by_ok lib by blast
  note c = combine_plansD [OF ok]
  have claim: "\<exists>r \<in> set (concat (map (fp_redirects \<circ> snd) plans)). fr_family r = f \<and> (fr_address r = [] \<or> fr_address r = d) \<and> fr_target r = t \<and> port \<in> ports (fr_ports r)"
    if "sends redirects f d port t" for t
    using that unfolding c(4) merge_sends [OF plan_rules_plain(2) [OF plans_ok]] by (simp add: sends_def)
  have apart: "fr_target x = fr_target y"
    if "x \<in> set (concat (map (plan_claims \<circ> snd) plans))" "y \<in> set (concat (map (plan_claims \<circ> snd) plans))" "fr_family x = fr_family y"
      "same_address x y" "port \<in> ports (fr_ports x)" "port \<in> ports (fr_ports y)" for x y
    using c(2) that ports_overlap [OF that(5,6)] unfolding any_clash_iff claims_clash_def by blast
  have redirects: "r \<in> set (concat (map (plan_claims \<circ> snd) plans))" if "r \<in> set (concat (map (fp_redirects \<circ> snd) plans))" for r
    using that by (auto simp: plan_claims_def)
  obtain r where r: "r \<in> set (concat (map (fp_redirects \<circ> snd) plans))" "fr_family r = f" "fr_address r = [] \<or> fr_address r = d" "fr_target r = t" "port \<in> ports (fr_ports r)"
    using claim [OF sent] by blast
  have "t' = t" if other: "sends redirects f d port t'"
  proof -
    obtain q where q: "q \<in> set (concat (map (fp_redirects \<circ> snd) plans))" "fr_family q = f" "fr_address q = [] \<or> fr_address q = d" "fr_target q = t'" "port \<in> ports (fr_ports q)"
      using claim [OF other] by blast
    have "same_address q r" using q(3) r(3) by (auto simp: same_address_def)
    then show ?thesis using apart [OF redirects [OF q(1)] redirects [OF r(1)]] q r by simp
  qed
  moreover have False if e: "e \<in> set plans" and listens: "opens (fp_listeners (snd e)) f d s ''udp'' port" for e
  proof -
    obtain l where l: "l \<in> set (fp_listeners (snd e))" "fr_family l = f" "fr_address l = [] \<or> fr_address l = d" "fr_protocol l = ''udp''" "port \<in> ports (fr_ports l)"
      using listens by (auto simp: opens_def)
    have one: "rg_from (fr_ports l) = port" using plans_ok e l by (auto simp: plan_ok_def ports_def)
    have "l\<lparr>fr_target := port\<rparr> \<in> set (concat (map (plan_claims \<circ> snd) plans))" using e l one using l(1,4) by (auto simp: plan_claims_def)
    then have "port = t" using apart [OF _ redirects [OF r(1)], of "l\<lparr>fr_target := port\<rparr>"] r l by (auto simp: same_address_def)
    moreover have "fr_target r \<notin> ports (fr_ports r)" using r(1) made redirect_target by (fastforce simp: made_by_def)
    ultimately show False using r by simp
  qed
  ultimately show ?thesis by blast
qed

text \<open>A node whose sources are restricted shares no port with another node: no packet is let in by the plans of both, so
  neither widens what the other allows.\<close>

theorem restricted_ports_not_shared:
  assumes ok: "combine_plans plans = Inr (allows, redirects)" and nodes: "(owner, left) \<in> set plans" "(other, right) \<in> set plans" "owner \<noteq> other"
    and restricted: "fp_restricted left"
  shows "\<not> (opens (fp_listeners left @ fp_redirects left) f d s pr port \<and> opens (fp_listeners right @ fp_redirects right) f d s' pr port)"
proof
  assume "opens (fp_listeners left @ fp_redirects left) f d s pr port \<and> opens (fp_listeners right @ fp_redirects right) f d s' pr port"
  then obtain a b where ab: "a \<in> set (fp_listeners left @ fp_redirects left)" "b \<in> set (fp_listeners right @ fp_redirects right)" "fr_family a = fr_family b"
      "fr_protocol a = fr_protocol b" "same_address a b" "port \<in> ports (fr_ports a)" "port \<in> ports (fr_ports b)"
    unfolding opens_def same_address_def by (metis (no_types, lifting))
  then have "rules_overlap a b" "rules_overlap b a" using ports_overlap by (auto simp: rules_overlap_def same_address_def)
  then have "plans_share_port left right" "plans_share_port right left" using ab restricted unfolding plans_share_port_def list_ex_iff by blast+
  then have "restricted_shared plans" using nodes linorder_less_linear [of owner other] unfolding restricted_shared_def list_ex_iff by fastforce
  then show False using combine_plansD(1) [OF ok] by simp
qed

section \<open>Splitting by manual rules\<close>

lemma split_ports_facts:
  assumes "canonical excl" "all_valid excl" "\<forall>e \<in> set excl. start \<le> rg_from e \<and> rg_to e \<le> rg_to (fr_ports r)" "1 \<le> start" "rg_to (fr_ports r) \<le> 65535"
  shows "covered (map fr_ports (fst (split_ports r start excl))) = {start..rg_to (fr_ports r)} - covered excl \<and>
    map fr_ports (snd (split_ports r start excl)) = excl \<and>
    (\<forall>q \<in> set (fst (split_ports r start excl)) \<union> set (snd (split_ports r start excl)). same_group q r) \<and>
    all_valid (map fr_ports (fst (split_ports r start excl)))"
  using assms
proof (induction excl arbitrary: start)
  case (Cons e excl)
  have above: "\<forall>x \<in> set excl. rg_to e + 1 \<le> rg_from x"
    using canonical_tail_above [OF Cons.prems(1)] Cons.prems(2) by (fastforce simp: covered_def ports_def range_valid_def all_valid_def)
  have e: "range_valid e" "start \<le> rg_from e" "rg_to e \<le> rg_to (fr_ports r)" using Cons.prems(2,3) by simp_all
  have "canonical excl" using Cons.prems(1) by (cases excl) simp_all
  then have IH: "covered (map fr_ports (fst (split_ports r (rg_to e + 1) excl))) = {rg_to e + 1..rg_to (fr_ports r)} - covered excl"
      "map fr_ports (snd (split_ports r (rg_to e + 1) excl)) = excl"
      "\<forall>q \<in> set (fst (split_ports r (rg_to e + 1) excl)) \<union> set (snd (split_ports r (rg_to e + 1) excl)). same_group q r"
      "all_valid (map fr_ports (fst (split_ports r (rg_to e + 1) excl)))"
    using Cons.IH [of "rg_to e + 1"] Cons.prems above e by (simp_all add: range_valid_def)
  have "port \<notin> covered excl" if "port \<le> rg_to e" for port
    using canonical_tail_above [OF Cons.prems(1), of port] that by force
  then have "{start..rg_to (fr_ports r)} - covered (e # excl) = {start..rg_from e - 1} \<union> ({rg_to e + 1..rg_to (fr_ports r)} - covered excl)"
    using e by (auto simp: ports_def range_valid_def)
  then have "covered (map fr_ports (fst (split_ports r start (e # excl)))) = {start..rg_to (fr_ports r)} - covered (e # excl)"
    using IH(1) by (auto simp: case_prod_beta ports_def)
  moreover have "map fr_ports (snd (split_ports r start (e # excl))) = e # excl" using IH(2) by (simp add: case_prod_beta)
  moreover have "\<forall>q \<in> set (fst (split_ports r start (e # excl))) \<union> set (snd (split_ports r start (e # excl))). same_group q r"
    using IH(3) by (auto simp: case_prod_beta same_group_def)
  moreover have "all_valid (map fr_ports (fst (split_ports r start (e # excl))))"
    using IH(4) e Cons.prems(4) by (auto simp: case_prod_beta range_valid_def)
  ultimately show ?case by blast
qed (auto simp: ports_def same_group_def range_valid_def)

lemma exclusions_facts:
  assumes r: "range_valid (fr_ports r)" and ex: "\<forall>u \<in> set existing. range_valid (fr_ports (uw_rule u))"
  shows "all_valid (ufw_exclusions r existing)"
    "covered (ufw_exclusions r existing) = {p \<in> ports (fr_ports r). \<exists>u \<in> set existing. uw_action u \<noteq> ''ALLOW'' \<and> rules_overlap r (uw_rule u) \<and> p \<in> ports (fr_ports (uw_rule u))}"
  using assms by (auto simp: ufw_exclusions_def all_valid_def range_valid_def rules_overlap_def range_overlaps_def covered_def ports_def)

lemma split_one:
  assumes r: "range_valid (fr_ports r)" and ex: "\<forall>u \<in> set existing. range_valid (fr_ports (uw_rule u))"
  defines "parts \<equiv> split_ports r (rg_from (fr_ports r)) (merge_ranges (ufw_exclusions r existing))"
    and "taken \<equiv> {p. \<exists>u \<in> set existing. uw_action u \<noteq> ''ALLOW'' \<and> rules_overlap r (uw_rule u) \<and> p \<in> ports (fr_ports (uw_rule u))}"
  shows "covered (map fr_ports (fst parts)) = ports (fr_ports r) - taken" "covered (map fr_ports (snd parts)) = ports (fr_ports r) \<inter> taken"
    "\<forall>q \<in> set (fst parts) \<union> set (snd parts). same_group q r" "all_valid (map fr_ports (fst parts))"
proof -
  let ?excl = "merge_ranges (ufw_exclusions r existing)"
  note ok = exclusions_facts [OF r ex]
  have covered: "covered ?excl = ports (fr_ports r) \<inter> taken" using merge_ranges_covered [OF ok(1)] ok(2) by (auto simp: taken_def)
  have "rg_from (fr_ports r) \<le> rg_from e \<and> rg_to e \<le> rg_to (fr_ports r)" if "e \<in> set ?excl" for e
  proof -
    have "range_valid e" using merge_ranges_valid [OF ok(1)] that by (simp add: all_valid_def)
    then have "rg_from e \<in> covered ?excl" "rg_to e \<in> covered ?excl" using that by (auto simp: covered_def ports_def range_valid_def)
    then show ?thesis unfolding covered by (simp add: ports_def)
  qed
  then have "covered (map fr_ports (fst parts)) = {rg_from (fr_ports r)..rg_to (fr_ports r)} - covered ?excl \<and> map fr_ports (snd parts) = ?excl \<and>
      (\<forall>q \<in> set (fst parts) \<union> set (snd parts). same_group q r) \<and> all_valid (map fr_ports (fst parts))"
    unfolding parts_def using r merge_ranges_canonical [OF ok(1)] merge_ranges_valid [OF ok(1)]
    by (intro split_ports_facts) (simp_all add: range_valid_def)
  then show "covered (map fr_ports (fst parts)) = ports (fr_ports r) - taken" "covered (map fr_ports (snd parts)) = ports (fr_ports r) \<inter> taken"
    "\<forall>q \<in> set (fst parts) \<union> set (snd parts). same_group q r" "all_valid (map fr_ports (fst parts))"
    using covered by (auto simp: ports_def)
qed

text \<open>C30. Manual UFW rules that deny, reject or limit keep the ports they cover: the rules the agent adds overlap none of them,
  together with the parts left to them they are exactly what was to be opened, and each port left is covered by a manual rule.\<close>

theorem manual_rules_keep_ports:
  assumes allows: "\<forall>r \<in> set allows. range_valid (fr_ports r)" and existing: "\<forall>u \<in> set existing. range_valid (fr_ports (uw_rule u))"
    and split: "split_ufw_managed allows existing = (managed, manual)"
  shows "(opens managed f d s pr port \<or> opens manual f d s pr port \<longleftrightarrow> opens allows f d s pr port) \<and>
    (\<forall>r \<in> set managed. \<forall>u \<in> set existing. uw_action u \<noteq> ''ALLOW'' \<longrightarrow> \<not> rules_overlap r (uw_rule u)) \<and>
    (\<forall>r \<in> set manual. \<forall>p \<in> ports (fr_ports r). \<exists>u \<in> set existing. uw_action u \<noteq> ''ALLOW'' \<and> rules_overlap r (uw_rule u) \<and> p \<in> ports (fr_ports (uw_rule u)))"
proof -
  let ?parts = "\<lambda>r. split_ports r (rg_from (fr_ports r)) (merge_ranges (ufw_exclusions r existing))"
  let ?taken = "\<lambda>r. {p. \<exists>u \<in> set existing. uw_action u \<noteq> ''ALLOW'' \<and> rules_overlap r (uw_rule u) \<and> p \<in> ports (fr_ports (uw_rule u))}"
  have sets: "managed = concat (map (fst \<circ> ?parts) allows)" "manual = concat (map (snd \<circ> ?parts) allows)"
    using split by (auto simp: split_ufw_managed_def Let_def comp_def)
  have part: "covered (map fr_ports (fst (?parts r))) = ports (fr_ports r) - ?taken r" "covered (map fr_ports (snd (?parts r))) = ports (fr_ports r) \<inter> ?taken r"
    "\<forall>q \<in> set (fst (?parts r)) \<union> set (snd (?parts r)). same_group q r" "all_valid (map fr_ports (fst (?parts r)))" if "r \<in> set allows" for r
    using split_one [OF bspec [OF allows that] existing] by simp_all
  have in_part: "\<exists>r \<in> set allows. q \<in> set (fst (?parts r))" if "q \<in> set managed" for q using that by (auto simp: sets(1))
  have in_manual: "\<exists>r \<in> set allows. q \<in> set (snd (?parts r))" if "q \<in> set manual" for q using that by (auto simp: sets(2))
  have one: "opens (fst (?parts r) @ snd (?parts r)) f d s pr port = opens [r] f d s pr port" if r: "r \<in> set allows" for r
  proof -
    have "(\<exists>q \<in> set (fst (?parts r) @ snd (?parts r)). port \<in> ports (fr_ports q)) \<longleftrightarrow>
        port \<in> covered (map fr_ports (fst (?parts r))) \<union> covered (map fr_ports (snd (?parts r)))" by (auto simp: covered_def)
    also have "\<dots> \<longleftrightarrow> port \<in> ports (fr_ports r)" unfolding part(1,2) [OF r] by blast
    finally have covers: "(\<exists>q \<in> set (fst (?parts r) @ snd (?parts r)). port \<in> ports (fr_ports q)) \<longleftrightarrow> port \<in> ports (fr_ports r)" .
    have "fr_family q = fr_family r" "fr_address q = fr_address r" "fr_source q = fr_source r" "fr_protocol q = fr_protocol r"
      if "q \<in> set (fst (?parts r) @ snd (?parts r))" for q
      using part(3) [OF r] that by (auto simp: same_group_def)
    then show ?thesis using covers unfolding opens_def by auto
  qed
  have "opens managed f d s pr port \<or> opens manual f d s pr port \<longleftrightarrow> (\<exists>r \<in> set allows. opens (fst (?parts r) @ snd (?parts r)) f d s pr port)"
    unfolding sets opens_append by (auto simp: opens_def)
  also have "\<dots> \<longleftrightarrow> opens allows f d s pr port" using one by (auto simp: opens_def)
  finally have "opens managed f d s pr port \<or> opens manual f d s pr port \<longleftrightarrow> opens allows f d s pr port" .
  moreover have "\<not> rules_overlap q (uw_rule u)" if q: "q \<in> set managed" and u: "u \<in> set existing" "uw_action u \<noteq> ''ALLOW''" for q u
  proof
    assume o: "rules_overlap q (uw_rule u)"
    obtain r where r: "r \<in> set allows" "q \<in> set (fst (?parts r))" using in_part [OF q] by blast
    have "range_valid (fr_ports q)" using part(4) [OF r(1)] r(2) by (simp add: all_valid_def)
    then obtain p where p: "p \<in> ports (fr_ports q)" "p \<in> ports (fr_ports (uw_rule u))"
      using o existing u(1) range_overlaps_ports [of "fr_ports q" "fr_ports (uw_rule u)"] by (auto simp: rules_overlap_def range_valid_def)
    then have pr: "p \<in> ports (fr_ports r) - ?taken r" using part(1) [OF r(1)] r(2) by (auto simp: covered_def)
    moreover have "same_group q r" using part(3) [OF r(1)] r(2) by simp
    then have "rules_overlap r (uw_rule u)" using o p pr ports_overlap by (auto simp: rules_overlap_def same_group_def same_address_def)
    ultimately show False using u p by blast
  qed
  moreover have "\<exists>u \<in> set existing. uw_action u \<noteq> ''ALLOW'' \<and> rules_overlap q (uw_rule u) \<and> p \<in> ports (fr_ports (uw_rule u))"
    if q: "q \<in> set manual" and p: "p \<in> ports (fr_ports q)" for q p
  proof -
    obtain r where r: "r \<in> set allows" "q \<in> set (snd (?parts r))" using in_manual [OF q] by blast
    then have "p \<in> ?taken r" using part(2) [OF r(1)] p by (auto simp: covered_def)
    then obtain u where u: "u \<in> set existing" "uw_action u \<noteq> ''ALLOW''" "rules_overlap r (uw_rule u)" "p \<in> ports (fr_ports (uw_rule u))" by blast
    have "same_group q r" using part(3) [OF r(1)] r(2) by simp
    then have "rules_overlap q (uw_rule u)" using u(3) ports_overlap [OF p u(4)] by (auto simp: rules_overlap_def same_group_def same_address_def)
    then show ?thesis using u by blast
  qed
  ultimately show ?thesis by blast
qed

section \<open>Comments that mark the agent's rules\<close>

text \<open>\<open>strings.Cut\<close> at one character, \<open>strings.Join\<close>, \<open>strings.CutPrefix\<close>, and what follows the last occurrence of a text.\<close>

definition str_cut :: "char \<Rightarrow> string \<Rightarrow> string \<times> string \<times> bool" where
  "str_cut c s = (takeWhile (\<lambda>x. x \<noteq> c) s, drop (Suc (length (takeWhile (\<lambda>x. x \<noteq> c) s))) s, c \<in> set s)"

fun join_comma :: "string list \<Rightarrow> string" where
  "join_comma [] = []"
| "join_comma [s] = s"
| "join_comma (s # t # rest) = s @ CHR '','' # join_comma (t # rest)"

definition cut_prefix :: "string \<Rightarrow> string \<Rightarrow> string option" where
  "cut_prefix p s = (if prefix p s then Some (drop (length p) s) else None)"

fun after_last :: "string \<Rightarrow> string \<Rightarrow> string option" where
  "after_last pat [] = None"
| "after_last pat (c # s) = (case after_last pat s of Some r \<Rightarrow> Some r | None \<Rightarrow> cut_prefix pat (c # s))"

text \<open>\<open>nftOwner\<close> and the 12 hexadecimal digits of the digest of a rule's key are arguments.\<close>

definition nft_owner :: "string \<Rightarrow> string \<Rightarrow> string" where
  "nft_owner namespace scope = (if namespace = [] then ''yzboard-node:'' @ scope else ''yz-agent:'' @ scope)"

definition legacy_comment :: "(string \<Rightarrow> string) \<Rightarrow> string \<Rightarrow> fw_rule \<Rightarrow> string" where
  "legacy_comment digest owner r = owner @ '':'' @ digest (rule_key r)"

definition claims_rule :: "fw_plan \<Rightarrow> fw_rule \<Rightarrow> bool" where
  "claims_rule plan r =
     list_ex (\<lambda>c. fr_family c = fr_family r \<and> fr_address c = fr_address r \<and> fr_protocol c = fr_protocol r \<and>
        fr_source c = fr_source r \<and> range_overlaps (fr_ports c) (fr_ports r)) (fp_listeners plan @ fp_redirects plan)"

definition owner_id :: "string \<Rightarrow> int option" where
  "owner_id owner =
     (case after_last ''/node/'' owner of
        None \<Rightarrow> None
      | Some rest \<Rightarrow> (case atoi rest of None \<Rightarrow> None | Some id' \<Rightarrow> if id' \<le> 0 then None else Some id'))"

definition ufw_node_ids :: "(string, fw_plan) go_map \<Rightarrow> fw_rule \<Rightarrow> string list" where
  "ufw_node_ids plans r =
     map itoa (sort (remdups (map (the \<circ> owner_id \<circ> fst) (filter (\<lambda>(owner, plan). owner_id owner \<noteq> None \<and> claims_rule plan r) plans))))"

definition ufw_comment :: "(string \<Rightarrow> string) \<Rightarrow> string \<Rightarrow> (string, fw_plan) go_map \<Rightarrow> fw_rule \<Rightarrow> string" where
  "ufw_comment digest owner plans r =
     (let legacy = legacy_comment digest owner r; ids = ufw_node_ids plans r in
      if ids = [] then legacy
      else let label = (if length ids > 1 then ''nodes='' else ''node=''); (namespace, suffix, found) = str_cut (CHR '':'') legacy in
        namespace @ '':'' @ label @ join_comma ids @ '':'' @ suffix)"

fun ids_ascend :: "int \<Rightarrow> string list \<Rightarrow> bool" where
  "ids_ascend previous [] = True"
| "ids_ascend previous (v # rest) =
     (case atoi v of None \<Rightarrow> False | Some i \<Rightarrow> if i \<le> previous \<or> itoa i \<noteq> v then False else ids_ascend i rest)"

definition owns_comment :: "(string \<Rightarrow> string) \<Rightarrow> string \<Rightarrow> fw_rule \<Rightarrow> string \<Rightarrow> bool" where
  "owns_comment digest owner r comment =
     (let legacy = legacy_comment digest owner r in
      if comment = legacy then True
      else let (namespace, rest, found) = str_cut (CHR '':'') comment; (label, suffix, labelled) = str_cut (CHR '':'') rest in
        if \<not> found \<or> \<not> labelled \<or> namespace @ '':'' @ suffix \<noteq> legacy then False
        else case cut_prefix ''node='' label of
          Some raw \<Rightarrow> let ids = split_on (CHR '','') raw in length ids = 1 \<and> ids_ascend 0 ids
        | None \<Rightarrow>
            (case cut_prefix ''nodes='' label of
               None \<Rightarrow> False
             | Some raw \<Rightarrow> let ids = split_on (CHR '','') raw in \<not> length ids < 2 \<and> ids_ascend 0 ids))"

lemma str_cut_at [simp]: "c \<notin> set s \<Longrightarrow> str_cut c (s @ c # t) = (s, t, True)"
proof -
  assume "c \<notin> set s"
  then have "takeWhile (\<lambda>x. x \<noteq> c) (s @ c # t) = s" by (induction s) auto
  then show ?thesis by (simp add: str_cut_def)
qed

lemma atoi_itoa: "0 < i \<Longrightarrow> i < 2 ^ 63 \<Longrightarrow> atoi (itoa i) = Some i"
proof -
  assume i: "0 < i" "i < 2 ^ 63"
  have digits: "\<forall>c \<in> set (itoa_nat (nat i)). is_digit c" by (rule itoa_nat_digits)
  then have "is_digit (hd (itoa_nat (nat i)))" using hd_in_set [OF itoa_nat_nonempty] by blast
  then have "hd (itoa_nat (nat i)) \<noteq> CHR ''-''" "hd (itoa_nat (nat i)) \<noteq> CHR ''+''" by (auto simp: is_digit_def)
  then show ?thesis using i digits by (simp add: atoi_def itoa_def digits_value_itoa_nat list_all_iff)
qed

lemma atoi_bound: "atoi s = Some i \<Longrightarrow> i < 2 ^ 63"
  by (auto simp: atoi_def Let_def split: if_splits)

lemma ids_ascend_itoa: "sorted_wrt (<) (p # is) \<Longrightarrow> 0 \<le> p \<Longrightarrow> \<forall>i \<in> set is. i < 2 ^ 63 \<Longrightarrow> ids_ascend p (map itoa is)"
  by (induction "is" arbitrary: p) (auto simp: atoi_itoa)

lemma split_join_comma: "ids \<noteq> [] \<Longrightarrow> \<forall>s \<in> set ids. CHR '','' \<notin> set s \<Longrightarrow> split_on (CHR '','') (join_comma ids) = ids"
  by (induction ids rule: join_comma.induct) (simp_all add: split_on_absent split_on_append)

lemma join_comma_no: "\<forall>s \<in> set ids. c \<notin> set s \<Longrightarrow> c \<noteq> CHR '','' \<Longrightarrow> c \<notin> set (join_comma ids)"
  by (induction ids rule: join_comma.induct) auto

lemma itoa_plain: "\<not> is_digit c \<Longrightarrow> c \<noteq> CHR ''-'' \<Longrightarrow> c \<notin> set (itoa i)"
  using itoa_nat_no by (simp add: itoa_def)

lemma ufw_node_ids_ok:
  "\<exists>is. ufw_node_ids plans r = map itoa is \<and> sorted_wrt (<) is \<and> (\<forall>i \<in> set is. 0 < i \<and> i < 2 ^ 63)"
proof -
  let ?is = "sort (remdups (map (the \<circ> owner_id \<circ> fst) (filter (\<lambda>(owner, plan). owner_id owner \<noteq> None \<and> claims_rule plan r) plans)))"
  have "owner_id owner = Some i \<Longrightarrow> 0 < i \<and> i < 2 ^ 63" for owner i
    using atoi_bound by (auto simp: owner_id_def split: option.splits if_splits)
  then have "\<forall>i \<in> set ?is. 0 < i \<and> i < 2 ^ 63" by fastforce
  moreover have "sorted_wrt (<) ?is" by (simp add: strict_sorted_iff)
  ultimately show ?thesis unfolding ufw_node_ids_def by blast
qed


section \<open>Two nodes and a manual rule\<close>

definition hop_node :: fw_node where
  "hop_node =
     \<lparr>nd_protocol = ''hysteria'', nd_server_port = 443, nd_listen_ip = '''', nd_network = '''', nd_transport = '''', nd_version = 2,
      nd_port_hopping = ''440-445'', nd_landing = None, nd_balancer = None, nd_xhttp3 = False, nd_policy = None, nd_policy_ready = False,
      nd_blocked = []\<rparr>"

definition sample_landing :: fw_node where
  "sample_landing =
     hop_node\<lparr>nd_protocol := ''balancer'', nd_port_hopping := '''', nd_landing := Some (''vless'', 8443),
       nd_policy := Some \<lparr>sp_mode = ''whitelist'', sp_block_cn = False, sp_allow = [''8.8.8.8''], sp_block = []\<rparr>, nd_policy_ready := True,
       nd_blocked := []\<rparr>"

definition sample_plan :: "fw_node \<Rightarrow> fw_plan" where
  "sample_plan node = (case plan_for_node sample_lib (Some node) ''sing-box'' of Inr plan \<Rightarrow> plan | Inl e \<Rightarrow> empty_plan)"

definition sample_plans :: "(string, fw_plan) go_map" where
  "sample_plans = [(''m/node/1'', sample_plan hop_node), (''m/node/2'', sample_plan sample_landing)]"

abbreviation sample_rule :: "int \<Rightarrow> string \<Rightarrow> int \<Rightarrow> int \<Rightarrow> int \<Rightarrow> fw_rule" where
  "sample_rule f pr a b t \<equiv>
     \<lparr>fr_family = f, fr_address = [], fr_source = [], fr_protocol = pr, fr_ports = \<lparr>rg_from = a, rg_to = b\<rparr>, fr_target = t\<rparr>"

lemma sample_rules:
  "fp_listeners (sample_plan hop_node) = [sample_rule 4 ''udp'' 443 443 0, sample_rule 6 ''udp'' 443 443 0]"
  "fp_redirects (sample_plan hop_node) =
     [sample_rule 4 ''udp'' 440 442 443, sample_rule 4 ''udp'' 444 445 443, sample_rule 6 ''udp'' 440 442 443, sample_rule 6 ''udp'' 444 445 443]"
  "fp_listeners (sample_plan sample_landing) = [sample_rule 4 ''tcp'' 8443 8443 0, sample_rule 6 ''tcp'' 8443 8443 0]"
  "fp_redirects (sample_plan sample_landing) = []" "fp_restricted (sample_plan sample_landing)"
  by code_simp+

lemmas sample_eval = sample_plans_def sample_rules opens_def sends_def ports_def

lemma sample_plans_made: "\<forall>e \<in> set sample_plans. made_by sample_lib (snd e)"
proof -
  have "plan_for_node sample_lib (Some n) ''sing-box'' = Inr (sample_plan n)" if "n \<in> {hop_node, sample_landing}" for n
  proof -
    have "case plan_for_node sample_lib (Some hop_node) ''sing-box'' of Inl e \<Rightarrow> False | Inr p \<Rightarrow> True"
      "case plan_for_node sample_lib (Some sample_landing) ''sing-box'' of Inl e \<Rightarrow> False | Inr p \<Rightarrow> True" by code_simp+
    then show ?thesis using that by (auto simp: sample_plan_def split: sum.splits)
  qed
  moreover have "p = p\<lparr>fp_ready := fp_ready p\<rparr>" for p by simp
  ultimately have "made_by sample_lib (sample_plan n)" if "n \<in> {hop_node, sample_landing}" for n
    using that unfolding made_by_def by metis
  then show ?thesis by (simp add: sample_plans_def)
qed

definition sample_union :: "fw_rule list \<times> fw_rule list" where
  "sample_union = (case combine_plans sample_plans of Inr u \<Rightarrow> u | Inl e \<Rightarrow> ([], []))"

lemma sample_union_ok: "combine_plans sample_plans = Inr (fst sample_union, snd sample_union)"
proof -
  have "\<not> restricted_shared sample_plans" "\<not> any_clash (concat (map (\<lambda>e. plan_claims (snd e)) sample_plans))" by code_simp+
  then show ?thesis by (simp add: sample_union_def combine_plans_def comp_def)
qed

lemma union_is_exact_witness:
  "opens (fst sample_union) 4 ''198.51.100.7'' ''203.0.113.9'' ''udp'' 441 \<and> \<not> opens (fst sample_union) 4 ''198.51.100.7'' ''203.0.113.9'' ''tcp'' 441 \<and>
   sends (snd sample_union) 6 ''2001:db8::7'' 445 443 \<and> combine_plans (rev sample_plans) = combine_plans sample_plans"
proof -
  note exact = union_is_exact [OF sample_lib_ok sample_plans_made sample_union_ok]
  have udp: "\<exists>e \<in> set sample_plans. opens (fp_listeners (snd e) @ fp_redirects (snd e)) 4 ''198.51.100.7'' ''203.0.113.9'' ''udp'' 441"
    and tcp: "\<not> (\<exists>e \<in> set sample_plans. opens (fp_listeners (snd e) @ fp_redirects (snd e)) 4 ''198.51.100.7'' ''203.0.113.9'' ''tcp'' 441)"
    and hop: "\<exists>e \<in> set sample_plans. sends (fp_redirects (snd e)) 6 ''2001:db8::7'' 445 443"
    by (simp_all add: sample_eval)
  have "set (rev sample_plans) = set sample_plans" by simp
  then show ?thesis
    using udp tcp hop exact [of 4 "''198.51.100.7''" "''203.0.113.9''" "''udp''" 441] exact [of 4 "''198.51.100.7''" "''203.0.113.9''" "''tcp''" 441]
      exact [of 6 "''2001:db8::7''" "''203.0.113.9''" "''tcp''" 445 443] by blast
qed

lemma datagrams_reach_one_port_witness:
  "sends (snd sample_union) 6 ''2001:db8::7'' 445 443 \<and> \<not> sends (snd sample_union) 6 ''2001:db8::7'' 445 444"
proof -
  have "\<forall>e \<in> set sample_plans. plan_ok (snd e)" using sample_plans_made made_by_ok sample_lib_ok by blast
  moreover have "\<exists>e \<in> set sample_plans. sends (fp_redirects (snd e)) 6 ''2001:db8::7'' 445 443" by (simp add: sample_eval)
  ultimately have "sends (snd sample_union) 6 ''2001:db8::7'' 445 443" by (simp only: union_sends [OF _ sample_union_ok])
  then show ?thesis using datagrams_reach_one_port [OF sample_lib_ok sample_plans_made sample_union_ok, of 6 "''2001:db8::7''" 445 443 444] by simp
qed

lemma restricted_ports_not_shared_witness:
  "opens (fp_listeners (sample_plan sample_landing)) 4 ''198.51.100.7'' ''1'' ''tcp'' 8443 \<and>
   \<not> opens (fp_listeners (sample_plan hop_node) @ fp_redirects (sample_plan hop_node)) 4 ''198.51.100.7'' ''1'' ''tcp'' 8443"
  using restricted_ports_not_shared [OF sample_union_ok, of "''m/node/2''" "sample_plan sample_landing" "''m/node/1''" "sample_plan hop_node"
      4 "''198.51.100.7''" "''1''" "''tcp''" 8443 "''1''"]
  by (simp add: sample_eval)

text \<open>A manual rule that limits two of the ports to be opened.\<close>

definition wanted_rule :: fw_rule where
  "wanted_rule = any_rule\<lparr>fr_family := 4, fr_protocol := ''udp'', fr_ports := \<lparr>rg_from = 440, rg_to = 445\<rparr>\<rparr>"

definition limit_rule :: ufw_rule where
  "limit_rule = \<lparr>uw_rule = wanted_rule\<lparr>fr_ports := \<lparr>rg_from = 442, rg_to = 443\<rparr>\<rparr>, uw_action = ''LIMIT'', uw_comment = '''', uw_scoped = False\<rparr>"

lemma manual_rules_keep_ports_witness:
  "split_ufw_managed [wanted_rule] [limit_rule] =
     (map (\<lambda>p. wanted_rule\<lparr>fr_ports := p\<rparr>) [\<lparr>rg_from = 440, rg_to = 441\<rparr>, \<lparr>rg_from = 444, rg_to = 445\<rparr>],
      [wanted_rule\<lparr>fr_ports := \<lparr>rg_from = 442, rg_to = 443\<rparr>\<rparr>]) \<and>
   \<not> rules_overlap (wanted_rule\<lparr>fr_ports := \<lparr>rg_from = 440, rg_to = 441\<rparr>\<rparr>) (uw_rule limit_rule)"
proof -
  have split: "split_ufw_managed [wanted_rule] [limit_rule] =
     (map (\<lambda>p. wanted_rule\<lparr>fr_ports := p\<rparr>) [\<lparr>rg_from = 440, rg_to = 441\<rparr>, \<lparr>rg_from = 444, rg_to = 445\<rparr>],
      [wanted_rule\<lparr>fr_ports := \<lparr>rg_from = 442, rg_to = 443\<rparr>\<rparr>])" by code_simp
  have "\<forall>r \<in> set [wanted_rule]. range_valid (fr_ports r)" "\<forall>u \<in> set [limit_rule]. range_valid (fr_ports (uw_rule u))" by code_simp+
  from manual_rules_keep_ports [OF this split] have "\<not> rules_overlap (wanted_rule\<lparr>fr_ports := \<lparr>rg_from = 440, rg_to = 441\<rparr>\<rparr>) (uw_rule limit_rule)"
    by (simp add: limit_rule_def)
  with split show ?thesis by blast
qed

text \<open>A digest for the sample: the length of the key in decimal.\<close>

definition sample_digest :: "string \<Rightarrow> string" where
  "sample_digest key = itoa_nat (length key)"


end
