(* ===== verification/Firewall.thy ===== *)
theory Firewall
  imports FirewallPlan "HOL-Library.Code_Target_Nat"
begin

text \<open>
  Model of the backend of \<open>internal/firewall\<close>: its saved state (\<open>state.go\<close>), the reconciliation of port rules with firewalld
  and UFW (\<open>system.go\<close>, \<open>firewalld.go\<close>, \<open>ufw.go\<close>, \<open>ufw_managed.go\<close>), the choice of the forwarding driver (\<open>redirect.go\<close>) and
  of the source filter (\<open>source_filter.go\<close>). Each command and each save happens at a time of its own; what it answers, whether it
  fails before or after it took effect, and what others do to the firewall in between are functions of that time (\<open>fw_env\<close>).
  Listings are given parsed; the scripts of nftables and iptables are commands without a meaning here. The log records each
  command that changes the firewall with the records on disk at that moment.
\<close>

section \<open>Saved state and environment\<close>

datatype fw_backend = Ufw | Firewalld

record owned_rule =
  ow_backend :: fw_backend
  ow_zone :: string
  ow_rule :: fw_rule
  ow_priority :: int

record source_plan =
  so_owner :: string
  so_listeners :: "fw_rule list"
  so_blocked :: "string list"

record saved_state =
  sv_version :: int
  sv_namespace :: string
  sv_owned :: "owned_rule list"
  sv_redirect :: string
  sv_families :: "int list"
  sv_source_driver :: string
  sv_source_plans :: "source_plan list"

datatype fw_fail =
    CommandFailed | SaveFailed | InvalidRule | PendingCheck | Unrecognised | ToolMissing | ForeignRule | NotVerified | BackendDown

datatype fw_cmd =
    AddRich owned_rule
  | RemoveRich owned_rule
  | UfwAllow owned_rule string
  | UfwPrepend owned_rule string
  | UfwDelete owned_rule string
  | SyncRedirect string "fw_rule list"
  | SyncSources string "source_plan list"

text \<open>What UFW says of itself: its numbered rules, or when it is off the rules of \<open>show added\<close> with their comments.\<close>

datatype ufw_status = UfwActive "ufw_rule list" | UfwInactive "(fw_rule \<times> string) list" | UfwUnclear

datatype fault = NoFault | FailBefore | FailAfter

record fw_env =
  ev_available :: "string \<Rightarrow> bool"
  ev_fault :: "nat \<Rightarrow> fault"
  ev_save :: "nat \<Rightarrow> fault"
  ev_others :: "nat \<Rightarrow> (string \<times> string) list \<Rightarrow> (string \<times> string) list"
  ev_ufw :: "nat \<Rightarrow> ufw_status"
  ev_ufw_denies :: "nat \<Rightarrow> bool"
  ev_firewalld :: "nat \<Rightarrow> bool option"
  ev_active_zones :: "nat \<Rightarrow> string list"
  ev_default_zone :: "nat \<Rightarrow> string"
  ev_zone_open :: "nat \<Rightarrow> string \<Rightarrow> bool"
  ev_install :: "nat \<Rightarrow> string \<Rightarrow> bool"

record fw_world =
  fw_mem :: saved_state
  fw_disk :: saved_state
  fw_live :: "(string \<times> string) list"
  fw_time :: nat
  fw_log :: "(fw_cmd \<times> owned_rule list) list"

text \<open>Configuration and what the manager sets before each run; \<open>cx_priority\<close> is the priority that \<open>richRule\<close> derives from the scope.\<close>

record fw_ctx =
  cx_enabled :: bool
  cx_backend :: string
  cx_zone :: string
  cx_redirect_backend :: string
  cx_source_backend :: string
  cx_priority :: int
  cx_scope :: string
  cx_digest :: "string \<Rightarrow> string"
  cx_lib :: net_lib
  cx_plans :: "(string, fw_plan) go_map"
  cx_recovering :: bool
  cx_protected :: "fw_rule list"

section \<open>Actions\<close>

type_synonym 'a act = "fw_world \<Rightarrow> (fw_fail + 'a) \<times> fw_world"

definition ret :: "'a \<Rightarrow> 'a act" where
  "ret x w = (Inr x, w)"

definition stop :: "fw_fail \<Rightarrow> 'a act" where
  "stop e w = (Inl e, w)"

definition bnd :: "'a act \<Rightarrow> ('a \<Rightarrow> 'b act) \<Rightarrow> 'b act" where
  "bnd m f w = (case m w of (Inl e, w') \<Rightarrow> (Inl e, w') | (Inr x, w') \<Rightarrow> f x w')"

definition seen :: "(fw_world \<Rightarrow> 'a) \<Rightarrow> 'a act" where
  "seen g w = (Inr (g w), w)"

fun each :: "('a \<Rightarrow> unit act) \<Rightarrow> 'a list \<Rightarrow> unit act" where
  "each f [] = ret ()"
| "each f (x # xs) = bnd (f x) (\<lambda>_. each f xs)"

fun scan :: "('s \<Rightarrow> 'a \<Rightarrow> 's act) \<Rightarrow> 's \<Rightarrow> 'a list \<Rightarrow> 's act" where
  "scan f s [] = ret s"
| "scan f s (x # xs) = bnd (f s x) (\<lambda>s'. scan f s' xs)"

definition turn :: "fw_env \<Rightarrow> fw_world \<Rightarrow> fw_world" where
  "turn env w = w\<lparr>fw_live := ev_others env (fw_time w) (fw_live w), fw_time := Suc (fw_time w)\<rparr>"

text \<open>A command that reads, one that changes, and a save of the state.\<close>

definition asks :: "fw_env \<Rightarrow> (nat \<Rightarrow> fw_world \<Rightarrow> 'a) \<Rightarrow> 'a act" where
  "asks env g w = (if ev_fault env (fw_time w) = NoFault then (Inr (g (fw_time w) (turn env w)), turn env w) else (Inl CommandFailed, turn env w))"

definition runs :: "fw_env \<Rightarrow> fw_cmd \<Rightarrow> (fw_world \<Rightarrow> fw_world) \<Rightarrow> unit act" where
  "runs env cmd effect w =
     (let w' = (turn env w)\<lparr>fw_log := fw_log w @ [(cmd, sv_owned (fw_disk w))]\<rparr> in
      case ev_fault env (fw_time w) of
        NoFault \<Rightarrow> (Inr (), effect w')
      | FailBefore \<Rightarrow> (Inl CommandFailed, w')
      | FailAfter \<Rightarrow> (Inl CommandFailed, effect w'))"

definition file_version :: "saved_state \<Rightarrow> int" where
  "file_version s =
     (if list_ex (\<lambda>ow. ow_priority ow \<noteq> 0) (sv_owned s) then 4
      else if sv_source_driver s \<noteq> [] \<or> sv_source_plans s \<noteq> [] then 3
      else if list_ex (\<lambda>ow. fr_source (ow_rule ow) \<noteq> []) (sv_owned s) then 2
      else 1)"

definition save_firewall :: "fw_env \<Rightarrow> unit act" where
  "save_firewall env w =
     (let w' = (turn env w)\<lparr>fw_mem := (fw_mem w)\<lparr>sv_version := file_version (fw_mem w)\<rparr>\<rparr> in
      case ev_save env (fw_time w) of
        NoFault \<Rightarrow> (Inr (), w'\<lparr>fw_disk := fw_mem w'\<rparr>)
      | FailBefore \<Rightarrow> (Inl SaveFailed, w')
      | FailAfter \<Rightarrow> (Inl SaveFailed, w'\<lparr>fw_disk := fw_mem w'\<rparr>))"

section \<open>Records of rules\<close>

definition set_owned :: "owned_rule list \<Rightarrow> fw_world \<Rightarrow> fw_world" where
  "set_owned ows w = w\<lparr>fw_mem := (fw_mem w)\<lparr>sv_owned := ows\<rparr>\<rparr>"

text \<open>Saves with the given list of records; a failed save restores the old one in memory.\<close>

definition save_owned :: "fw_env \<Rightarrow> owned_rule list \<Rightarrow> unit act" where
  "save_owned env ows w =
     (case save_firewall env (set_owned ows w) of
        (Inr u, w') \<Rightarrow> (Inr (), w')
      | (Inl e, w') \<Rightarrow> (Inl e, set_owned (sv_owned (fw_mem w)) w'))"

definition same_record :: "owned_rule \<Rightarrow> owned_rule \<Rightarrow> bool" where
  "same_record old ow = (ow_backend old = Ufw \<and> ow_backend ow = Ufw \<and> ow_rule old = ow_rule ow)"

fun replace_first :: "('a \<Rightarrow> bool) \<Rightarrow> 'a list \<Rightarrow> 'a list \<Rightarrow> 'a list" where
  "replace_first P ys [] = []"
| "replace_first P ys (x # xs) = (if P x then ys @ xs else x # replace_first P ys xs)"

definition remember :: "fw_env \<Rightarrow> owned_rule \<Rightarrow> unit act" where
  "remember env ow w =
     (let ows = sv_owned (fw_mem w) in
      if ow \<in> set ows then (Inr (), w)
      else if list_ex (\<lambda>old. same_record old ow) ows then save_owned env (replace_first (\<lambda>old. same_record old ow) [ow] ows) w
      else save_owned env (ows @ [ow]) w)"

definition forget :: "fw_env \<Rightarrow> owned_rule \<Rightarrow> unit act" where
  "forget env ow w =
     (let ows = sv_owned (fw_mem w); hit = (\<lambda>old. old = ow \<or> same_record old ow) in
      if list_ex hit ows then save_owned env (replace_first hit [] ows) w else (Inr (), w))"

definition keep_owned :: "fw_ctx \<Rightarrow> fw_rule \<Rightarrow> bool" where
  "keep_owned cx r = (cx_recovering cx \<or> list_ex (\<lambda>scope. rules_overlap scope r) (cx_protected cx))"

section \<open>firewalld\<close>

definition quoted :: "string \<Rightarrow> string" where
  "quoted s = CHR 0x22 # s @ [CHR 0x22]"

definition rich_rule_at :: "fw_rule \<Rightarrow> int \<Rightarrow> string" where
  "rich_rule_at r priority =
     ''rule priority='' @ quoted (itoa priority) @ '' family='' @ quoted (''ipv'' @ itoa (fr_family r)) @
     (if fr_source r = [] then [] else '' source address='' @ quoted (fr_source r)) @
     (if fr_address r = [] then [] else '' destination address='' @ quoted (fr_address r)) @
     '' port port='' @ quoted (range_string (fr_ports r)) @ '' protocol='' @ quoted (fr_protocol r) @ '' accept''"

definition owned_rich :: "fw_ctx \<Rightarrow> owned_rule \<Rightarrow> string" where
  "owned_rich cx ow = rich_rule_at (ow_rule ow) (if ow_priority ow = 0 then cx_priority cx else ow_priority ow)"

fun cut_at :: "string \<Rightarrow> string \<Rightarrow> (string \<times> string) option" where
  "cut_at pat [] = (if pat = [] then Some ([], []) else None)"
| "cut_at pat (c # s) =
     (if prefix pat (c # s) then Some ([], drop (length pat) (c # s)) else map_option (\<lambda>(a, b). (c # a, b)) (cut_at pat s))"

definition has_text :: "string \<Rightarrow> string \<Rightarrow> bool" where
  "has_text s pat = (cut_at pat s \<noteq> None)"

definition rich_may_overlap :: "string \<Rightarrow> fw_rule \<Rightarrow> bool" where
  "rich_may_overlap text wanted =
     (if has_text text (''family='' @ quoted (''ipv'' @ itoa (if fr_family wanted = 6 then 4 else 6))) then False
      else case cut_at (''port port='' @ [CHR 0x22]) text of
        None \<Rightarrow> True
      | Some (_, tail) \<Rightarrow>
          (case cut_at [CHR 0x22] tail of
             None \<Rightarrow> True
           | Some (pts, _) \<Rightarrow>
               let protocol = (if has_text tail (''protocol='' @ quoted ''udp'') then ''udp'' else ''tcp'') in
               (case parse_ranges pts of
                  Inl e \<Rightarrow> True
                | Inr ranges \<Rightarrow> list_ex (\<lambda>p. fr_protocol wanted = protocol \<and> range_overlaps (fr_ports wanted) p) ranges)))"

definition zone_rules :: "string \<Rightarrow> fw_world \<Rightarrow> string list" where
  "zone_rules zone w = map snd (filter (\<lambda>(z, text). z = zone) (fw_live w))"

definition firewalld_rules :: "fw_env \<Rightarrow> string \<Rightarrow> string list act" where
  "firewalld_rules env zone = asks env (\<lambda>t. zone_rules zone)"

text \<open>\<open>--add-rich-rule\<close>: the answer is whether the rule was there already.\<close>

definition add_rich :: "fw_env \<Rightarrow> fw_ctx \<Rightarrow> owned_rule \<Rightarrow> bool act" where
  "add_rich env cx ow w =
     (let entry = (ow_zone ow, owned_rich cx ow); already = entry \<in> set (fw_live (turn env w)) in
      bnd (runs env (AddRich ow) (\<lambda>w. if already then w else w\<lparr>fw_live := entry # fw_live w\<rparr>)) (\<lambda>_. ret already) w)"

definition remove_rich :: "fw_env \<Rightarrow> fw_ctx \<Rightarrow> owned_rule \<Rightarrow> unit act" where
  "remove_rich env cx ow = runs env (RemoveRich ow) (\<lambda>w. w\<lparr>fw_live := removeAll (ow_zone ow, owned_rich cx ow) (fw_live w)\<rparr>)"

definition top_restriction :: "string \<Rightarrow> bool" where
  "top_restriction text =
     (has_text text (''priority='' @ quoted ''-32768'') \<and> (has_text text '' drop'' \<or> has_text text '' reject'' \<or> has_text text '' limit''))"

definition ensure_firewalld :: "fw_env \<Rightarrow> fw_ctx \<Rightarrow> owned_rule \<Rightarrow> string list \<Rightarrow> string list act" where
  "ensure_firewalld env cx ow existing =
     (let text = owned_rich cx ow in
      if ow_priority ow \<noteq> 0 \<and> list_ex (\<lambda>x. top_restriction x \<and> rich_may_overlap x (ow_rule ow)) existing then stop ForeignRule
      else if text \<in> set existing then
        bnd (seen (\<lambda>w. ow \<in> set (sv_owned (fw_mem w)))) (\<lambda>has. if ow_priority ow \<noteq> 0 \<and> \<not> has then stop ForeignRule else ret existing)
      else
        bnd (remember env ow) (\<lambda>_. bnd (add_rich env cx ow) (\<lambda>already.
          if already then bnd (forget env ow) (\<lambda>_. if ow_priority ow \<noteq> 0 then stop ForeignRule else ret existing)
          else if ow_priority ow \<noteq> 0 then
            bnd (firewalld_rules env (ow_zone ow)) (\<lambda>actual. if text \<in> set actual then ret (text # existing) else stop NotVerified)
          else ret (text # existing))))"

definition firewalld_zones :: "fw_env \<Rightarrow> fw_ctx \<Rightarrow> string list act" where
  "firewalld_zones env cx =
     (if cx_zone cx \<noteq> [] then ret [cx_zone cx]
      else bnd (asks env (\<lambda>t w. ev_active_zones env t)) (\<lambda>active. bnd (asks env (\<lambda>t w. ev_default_zone env t)) (\<lambda>dflt.
        let zones = sort (remdups (active @ [dflt])) in if [] \<in> set zones then stop Unrecognised else ret zones)))"

definition has_sources :: "fw_rule list \<Rightarrow> bool" where
  "has_sources rules = list_ex (\<lambda>r. fr_source r \<noteq> []) rules"

text \<open>Rules with a source are of older versions; what the zone's own settings open for them is asked of the environment.\<close>

definition check_zone_sources :: "fw_env \<Rightarrow> fw_ctx \<Rightarrow> string \<Rightarrow> fw_rule list \<Rightarrow> string list \<Rightarrow> unit act" where
  "check_zone_sources env cx zone allows existing =
     (if \<not> has_sources allows then ret ()
      else bnd (seen (\<lambda>w. sv_owned (fw_mem w))) (\<lambda>ows.
        if list_ex (\<lambda>text. \<not> list_ex (\<lambda>ow. ow_backend ow = Firewalld \<and> ow_zone ow = zone \<and> owned_rich cx ow = text) ows \<and>
             list_ex (\<lambda>r. fr_source r \<noteq> [] \<and> rich_may_overlap text r) allows) existing then stop PendingCheck
        else bnd (asks env (\<lambda>t w. ev_zone_open env t zone)) (\<lambda>opened. if opened then stop PendingCheck else ret ())))"

text \<open>\<open>--state\<close>: running, certainly not running, or an error.\<close>

definition ask_firewalld :: "fw_env \<Rightarrow> bool act" where
  "ask_firewalld env w =
     (case ev_firewalld env (fw_time w) of None \<Rightarrow> stop Unrecognised (turn env w) | Some running \<Rightarrow> ret running (turn env w))"

section \<open>UFW\<close>

definition comment_of :: "fw_ctx \<Rightarrow> fw_world \<Rightarrow> fw_rule \<Rightarrow> string" where
  "comment_of cx w r = ufw_comment (cx_digest cx) (nft_owner (sv_namespace (fw_mem w)) (cx_scope cx)) (cx_plans cx) r"

definition own_comment :: "fw_ctx \<Rightarrow> fw_world \<Rightarrow> fw_rule \<Rightarrow> string \<Rightarrow> bool" where
  "own_comment cx w r c = owns_comment (cx_digest cx) (nft_owner (sv_namespace (fw_mem w)) (cx_scope cx)) r c"

definition agent_comment :: "string \<Rightarrow> bool" where
  "agent_comment c = (prefix ''yz-agent:'' c \<or> prefix ''yzboard-node:'' c)"

definition blocked_by :: "fw_rule list \<Rightarrow> ufw_rule list \<Rightarrow> bool" where
  "blocked_by wanted existing = list_ex (\<lambda>r. list_ex (\<lambda>u. uw_action u \<noteq> ''ALLOW'' \<and> rules_overlap r (uw_rule u)) existing) wanted"

definition allow_ufw :: "fw_env \<Rightarrow> fw_ctx \<Rightarrow> (owned_rule \<Rightarrow> string \<Rightarrow> fw_cmd) \<Rightarrow> owned_rule \<Rightarrow> unit act" where
  "allow_ufw env cx cmd ow w = runs env (cmd ow (comment_of cx w (ow_rule ow))) (\<lambda>w. w) w"

definition remove_ufw :: "fw_env \<Rightarrow> fw_ctx \<Rightarrow> owned_rule \<Rightarrow> ufw_rule list \<Rightarrow> (fw_rule \<times> string) list \<Rightarrow> unit act" where
  "remove_ufw env cx ow existing added =
     bnd (seen (\<lambda>w. remdups
         (map uw_comment (filter (\<lambda>u. \<not> uw_scoped u \<and> uw_rule u = ow_rule ow \<and> uw_action u = ''ALLOW'' \<and> own_comment cx w (ow_rule ow) (uw_comment u)) existing) @
          map snd (filter (\<lambda>(r, c). r = ow_rule ow \<and> own_comment cx w (ow_rule ow) c) added))))
       (\<lambda>comments. bnd (each (\<lambda>c. runs env (UfwDelete ow c) (\<lambda>w. w)) comments) (\<lambda>_. forget env ow))"

record ufw_position =
  up_own :: "nat option"
  up_manual :: "nat option"
  up_blocker :: "nat option"

fun position_loop :: "(fw_rule \<Rightarrow> string \<Rightarrow> bool) \<Rightarrow> fw_rule \<Rightarrow> nat \<Rightarrow> ufw_rule list \<Rightarrow> ufw_position \<Rightarrow> fw_fail + ufw_position" where
  "position_loop owns r i [] pos = Inr pos"
| "position_loop owns r i (u # existing) pos =
     (if \<not> rules_overlap r (uw_rule u) then position_loop owns r (Suc i) existing pos
      else if agent_comment (uw_comment u) \<and> \<not> owns (uw_rule u) (uw_comment u) then Inl ForeignRule
      else
        let pos = (if uw_action u \<noteq> ''ALLOW'' \<and> up_blocker pos = None then pos\<lparr>up_blocker := Some i\<rparr> else pos) in
        position_loop owns r (Suc i) existing
          (if uw_scoped u \<or> uw_rule u \<noteq> r \<or> uw_action u \<noteq> ''ALLOW'' then pos
           else if owns r (uw_comment u) then pos\<lparr>up_own := Some i\<rparr>
           else pos\<lparr>up_manual := Some i\<rparr>))"

definition ufw_managed_position :: "fw_ctx \<Rightarrow> fw_rule \<Rightarrow> ufw_rule list \<Rightarrow> ufw_position act" where
  "ufw_managed_position cx r existing w =
     (position_loop (own_comment cx w) r 0 existing \<lparr>up_own = None, up_manual = None, up_blocker = None\<rparr>, w)"

definition after_blocker :: "nat option \<Rightarrow> nat option \<Rightarrow> bool" where
  "after_blocker i blocker = (case (i, blocker) of (Some i, Some b) \<Rightarrow> b < i | _ \<Rightarrow> False)"

definition verify_ufw :: "fw_env \<Rightarrow> fw_ctx \<Rightarrow> fw_rule \<Rightarrow> unit act" where
  "verify_ufw env cx r =
     bnd (asks env (\<lambda>t w. case ev_ufw env t of UfwActive rules \<Rightarrow> rules | _ \<Rightarrow> [])) (\<lambda>rules w.
       case ufw_managed_position cx r rules w of
         (Inr pos, w') \<Rightarrow> (if up_own pos = None \<or> after_blocker (up_own pos) (up_blocker pos) then stop NotVerified w' else ret () w')
       | (Inl e, w') \<Rightarrow> stop NotVerified w')"

definition ensure_ufw_managed :: "fw_env \<Rightarrow> fw_ctx \<Rightarrow> owned_rule \<Rightarrow> ufw_rule list \<Rightarrow> unit act" where
  "ensure_ufw_managed env cx ow existing =
     bnd (ufw_managed_position cx (ow_rule ow) existing) (\<lambda>pos.
       if up_manual pos \<noteq> None then
         (if after_blocker (up_manual pos) (up_blocker pos) then stop ForeignRule else forget env ow)
       else if up_own pos \<noteq> None \<and> (up_blocker pos = None \<or> \<not> after_blocker (up_own pos) (up_blocker pos) \<and> up_own pos \<noteq> up_blocker pos) then
         bnd (remember env ow) (\<lambda>_. bnd (seen (\<lambda>w. uw_comment (existing ! the (up_own pos)) = comment_of cx w (ow_rule ow))) (\<lambda>same.
           if same then ret () else bnd (allow_ufw env cx UfwAllow ow) (\<lambda>_. verify_ufw env cx (ow_rule ow))))
       else
         bnd (if up_own pos \<noteq> None then remove_ufw env cx ow existing [] else ret ()) (\<lambda>_.
           bnd (remember env ow) (\<lambda>_. bnd (allow_ufw env cx UfwPrepend ow) (\<lambda>_. verify_ufw env cx (ow_rule ow)))))"

definition ensure_ufw :: "fw_env \<Rightarrow> fw_ctx \<Rightarrow> owned_rule \<Rightarrow> ufw_rule list \<Rightarrow> unit act" where
  "ensure_ufw env cx ow existing =
     (if ow_priority ow = -1 then ensure_ufw_managed env cx ow existing
      else if blocked_by [ow_rule ow] existing then stop ForeignRule
      else case find (\<lambda>u. \<not> uw_scoped u \<and> uw_rule u = ow_rule ow) existing of
        None \<Rightarrow> bnd (remember env ow) (\<lambda>_. allow_ufw env cx UfwAllow ow)
      | Some u \<Rightarrow>
          bnd (seen (\<lambda>w. own_comment cx w (ow_rule ow) (uw_comment u))) (\<lambda>own.
            if own then
              bnd (remember env ow) (\<lambda>_. bnd (seen (\<lambda>w. uw_comment u = comment_of cx w (ow_rule ow))) (\<lambda>same.
                if same then ret () else allow_ufw env cx UfwAllow ow))
            else if agent_comment (uw_comment u) then stop ForeignRule
            else forget env ow))"

definition ufw_source_conflict :: "fw_ctx \<Rightarrow> fw_rule list \<Rightarrow> ufw_rule list \<Rightarrow> fw_world \<Rightarrow> bool" where
  "ufw_source_conflict cx allows existing w =
     list_ex (\<lambda>r. fr_source r \<noteq> [] \<and>
       list_ex (\<lambda>u. rules_overlap r (uw_rule u) \<and>
         \<not> (\<not> uw_scoped u \<and> uw_action u = ''ALLOW'' \<and> own_comment cx w (uw_rule u) (uw_comment u) \<and>
            \<lparr>ow_backend = Ufw, ow_zone = [], ow_rule = uw_rule u, ow_priority = 0\<rparr> \<in> set (sv_owned (fw_mem w)))) existing) allows"

definition redirects_blocked :: "fw_rule list \<Rightarrow> ufw_rule list \<Rightarrow> bool" where
  "redirects_blocked redirects existing =
     list_ex (\<lambda>r. blocked_by [r\<lparr>fr_target := 0\<rparr>, r\<lparr>fr_target := 0, fr_ports := \<lparr>rg_from = fr_target r, rg_to = fr_target r\<rparr>\<rparr>] existing) redirects"

section \<open>Redirects and sources\<close>

definition sync_redirect :: "fw_env \<Rightarrow> string \<Rightarrow> fw_rule list \<Rightarrow> unit act" where
  "sync_redirect env driver rules =
     (if driver = ''nftables'' \<or> driver = ''iptables'' then runs env (SyncRedirect driver rules) (\<lambda>w. w) else stop Unrecognised)"

definition set_redirect :: "string \<Rightarrow> int list \<Rightarrow> unit act" where
  "set_redirect driver families w = (Inr (), w\<lparr>fw_mem := (fw_mem w)\<lparr>sv_redirect := driver, sv_families := families\<rparr>\<rparr>)"

definition redirect_driver :: "fw_env \<Rightarrow> fw_ctx \<Rightarrow> fw_rule list \<Rightarrow> string act" where
  "redirect_driver env cx rules =
     (if rules = [] then seen (\<lambda>w. sv_redirect (fw_mem w))
      else if cx_redirect_backend cx = [] \<or> cx_redirect_backend cx = ''auto'' then
        (if ev_available env ''nft'' then ret ''nftables'' else if ev_available env ''iptables'' then ret ''iptables'' else stop ToolMissing)
      else ret (cx_redirect_backend cx))"

definition apply_redirects :: "fw_env \<Rightarrow> fw_ctx \<Rightarrow> fw_rule list \<Rightarrow> unit act" where
  "apply_redirects env cx rules =
     bnd (redirect_driver env cx rules) (\<lambda>driver. bnd (seen fw_mem) (\<lambda>st.
       if driver = [] then ret ()
       else
         let families = (if driver = ''iptables'' then sort (remdups (sv_families st @ map fr_family rules)) else sv_families st) in
         bnd (if sv_redirect st \<noteq> [] \<and> sv_redirect st \<noteq> driver then sync_redirect env (sv_redirect st) [] else ret ()) (\<lambda>_.
           bnd (set_redirect driver families) (\<lambda>_. bnd (save_firewall env) (\<lambda>_. bnd (sync_redirect env driver rules) (\<lambda>_.
             if rules = [] then bnd (set_redirect [] []) (\<lambda>_. save_firewall env) else ret ()))))))"

definition wanted_sources :: "fw_ctx \<Rightarrow> (string, fw_plan) go_map \<Rightarrow> source_plan list \<Rightarrow> source_plan list" where
  "wanted_sources cx plans old =
     (if \<not> cx_enabled cx then []
      else
        sort_key so_owner
          (map (\<lambda>(owner, plan). \<lparr>so_owner = owner, so_listeners = fp_listeners plan, so_blocked = fp_blocked plan\<rparr>) (filter (\<lambda>(owner, plan). fp_restricted plan) plans) @
           filter (\<lambda>so. \<not> has_key plans (so_owner so) \<and> cx_recovering cx) old))"

definition set_sources :: "string \<Rightarrow> source_plan list \<Rightarrow> unit act" where
  "set_sources driver sos w = (Inr (), w\<lparr>fw_mem := (fw_mem w)\<lparr>sv_source_driver := driver, sv_source_plans := sos\<rparr>\<rparr>)"

definition source_tools :: "fw_env \<Rightarrow> string \<Rightarrow> bool" where
  "source_tools env driver =
     (if driver = ''nftables'' then ev_available env ''nft''
      else if driver \<noteq> ''iptables'' then False
      else list_all (ev_available env) [''iptables'', ''ip6tables'', ''iptables-restore'', ''ip6tables-restore'', ''ipset''])"

definition check_source_environment :: "fw_env \<Rightarrow> unit act" where
  "check_source_environment env =
     bnd (if ev_available env ''ufw'' then bnd (asks env (\<lambda>t w. ev_ufw env t)) (\<lambda>status.
            case status of UfwActive rules \<Rightarrow> ret True | UfwInactive added \<Rightarrow> ret False | UfwUnclear \<Rightarrow> stop Unrecognised)
          else ret False) (\<lambda>ufw.
       bnd (if ev_available env ''firewall-cmd'' then ask_firewalld env else ret False) (\<lambda>fd.
         if ufw \<and> fd then stop ForeignRule else ret ()))"

definition select_source_driver :: "fw_env \<Rightarrow> fw_ctx \<Rightarrow> string act" where
  "select_source_driver env cx =
     (if \<not> cx_enabled cx then stop ToolMissing
      else if cx_source_backend cx \<noteq> [] \<and> cx_source_backend cx \<noteq> ''auto'' then
        (if source_tools env (cx_source_backend cx) then ret (cx_source_backend cx) else stop ToolMissing)
      else bnd (check_source_environment env) (\<lambda>_.
        if ev_available env ''nft'' then ret ''nftables'' else if source_tools env ''iptables'' then ret ''iptables'' else stop ToolMissing))"

text \<open>
  Before the sources are applied: missing tools are installed. Of an installation only the outcome is modelled: whether the tools are there
  and complete afterwards.
\<close>

definition prepare_source_tools :: "fw_env \<Rightarrow> fw_ctx \<Rightarrow> (string, fw_plan) go_map \<Rightarrow> unit act" where
  "prepare_source_tools env cx plans =
     (if \<not> cx_enabled cx \<or> \<not> list_ex (\<lambda>(owner, plan). fp_restricted plan) plans then ret ()
      else bnd (seen (\<lambda>w. if sv_source_driver (fw_mem w) = [] then cx_source_backend cx else sv_source_driver (fw_mem w))) (\<lambda>driver.
        let automatic = (driver = [] \<or> driver = ''auto'') in
        bnd (if automatic then bnd (check_source_environment env) (\<lambda>_. ret ''nftables'') else ret driver) (\<lambda>driver.
          if source_tools env driver then ret ()
          else bnd (asks env (\<lambda>t w. ev_install env t driver)) (\<lambda>installed.
            if installed \<or> automatic \<and> source_tools env ''iptables'' then ret () else stop ToolMissing))))"

definition apply_sources :: "fw_env \<Rightarrow> fw_ctx \<Rightarrow> (string, fw_plan) go_map \<Rightarrow> unit act" where
  "apply_sources env cx plans =
     bnd (seen fw_mem) (\<lambda>st.
       let ordered = wanted_sources cx plans (sv_source_plans st) in
       bnd (if ordered \<noteq> [] \<and> sv_source_driver st = [] then
              bnd (select_source_driver env cx) (\<lambda>driver.
                bnd (set_sources driver (sv_source_plans st)) (\<lambda>_. bnd (save_firewall env) (\<lambda>_. ret driver)))
            else ret (sv_source_driver st)) (\<lambda>driver.
         if driver = [] then ret ()
         else
           bnd (runs env (SyncSources driver ordered) (\<lambda>w. w)) (\<lambda>_.
             if ordered \<noteq> [] \<and> sv_source_plans st = ordered then ret ()
             else bnd (set_sources (if ordered = [] then [] else driver) ordered) (\<lambda>_. save_firewall env))))"

section \<open>One reconciliation\<close>

definition backend_wanted :: "fw_ctx \<Rightarrow> string \<Rightarrow> bool" where
  "backend_wanted cx name = (cx_backend cx = [] \<or> cx_backend cx = ''auto'' \<or> cx_backend cx = name)"

definition owns_backend :: "fw_backend \<Rightarrow> owned_rule list \<Rightarrow> bool" where
  "owns_backend b ows = list_ex (\<lambda>ow. ow_backend ow = b) ows"

definition retained_source_allowed :: "fw_rule \<Rightarrow> fw_rule \<Rightarrow> fw_rule list \<Rightarrow> bool" where
  "retained_source_allowed ow wanted allows =
     (if fr_source ow = [] then False
      else
        let low = max (rg_from (fr_ports ow)) (rg_from (fr_ports wanted)); high = min (rg_to (fr_ports ow)) (rg_to (fr_ports wanted)) in
        list_ex (\<lambda>r. fr_source r = fr_source ow \<and> fr_family r = fr_family ow \<and> fr_protocol r = fr_protocol ow \<and>
          (fr_address r = [] \<or> fr_address r = fr_address ow) \<and> rg_from (fr_ports r) \<le> low \<and> rg_to (fr_ports r) \<ge> high) allows)"

definition unfinished_check :: "fw_ctx \<Rightarrow> fw_rule list \<Rightarrow> owned_rule list \<Rightarrow> bool" where
  "unfinished_check cx allows ows =
     list_ex (\<lambda>ow. keep_owned cx (ow_rule ow) \<and>
       list_ex (\<lambda>wanted. fr_source wanted \<noteq> [] \<and> (fr_protocol (ow_rule ow) = fr_protocol wanted \<and> range_overlaps (fr_ports (ow_rule ow)) (fr_ports wanted)) \<and>
         (fr_family (ow_rule ow) \<noteq> fr_family wanted \<or> rules_overlap (ow_rule ow) wanted) \<and>
         \<not> retained_source_allowed (ow_rule ow) wanted allows) allows) ows"

text \<open>Whether UFW is active, its rules, and when it is off what it would add.\<close>

definition read_ufw :: "fw_env \<Rightarrow> fw_ctx \<Rightarrow> owned_rule list \<Rightarrow> (ufw_rule list option \<times> (fw_rule \<times> string) list) act" where
  "read_ufw env cx ows =
     (if \<not> backend_wanted cx ''ufw'' \<and> \<not> owns_backend Ufw ows then ret (None, [])
      else if ev_available env ''ufw'' then
        bnd (asks env (\<lambda>t w. ev_ufw env t)) (\<lambda>status.
          case status of
            UfwActive rules \<Rightarrow> ret (Some rules, [])
          | UfwInactive added \<Rightarrow> if owns_backend Ufw ows then bnd (asks env (\<lambda>t w. ())) (\<lambda>_. ret (None, added)) else ret (None, [])
          | UfwUnclear \<Rightarrow> stop Unrecognised)
      else if cx_backend cx = ''ufw'' \<or> owns_backend Ufw ows then stop ToolMissing
      else ret (None, []))"

definition read_firewalld :: "fw_env \<Rightarrow> fw_ctx \<Rightarrow> owned_rule list \<Rightarrow> bool act" where
  "read_firewalld env cx ows =
     (if \<not> backend_wanted cx ''firewalld'' \<and> \<not> owns_backend Firewalld ows then ret False
      else if ev_available env ''firewall-cmd'' then ask_firewalld env
      else if cx_backend cx = ''firewalld'' \<or> owns_backend Firewalld ows then stop ToolMissing
      else ret False)"

definition plan_ufw :: "fw_env \<Rightarrow> fw_ctx \<Rightarrow> fw_rule list \<Rightarrow> fw_rule list \<Rightarrow> ufw_rule list \<Rightarrow> (fw_rule list \<times> fw_rule list) act" where
  "plan_ufw env cx allows redirects rules =
     (if cx_plans cx = [] \<and> redirects_blocked redirects rules then stop ForeignRule
      else bnd (seen (\<lambda>w. sv_owned (fw_mem w))) (\<lambda>ows.
        let (managed, manual) = (if cx_plans cx \<noteq> [] then (allows, []) else split_ufw_managed allows rules);
            kept = concat (map (\<lambda>ow. fst (split_ufw_managed [ow_rule ow] rules))
              (filter (\<lambda>ow. ow_backend ow = Ufw \<and> keep_owned cx (ow_rule ow) \<and> overlap_any (ow_rule ow) manual) ows));
            wanted = merge_rules (managed @ kept) in
        bnd (if has_sources wanted then bnd (asks env (\<lambda>t w. ev_ufw_denies env t)) (\<lambda>denies. if denies then ret () else stop PendingCheck) else ret ()) (\<lambda>_.
          bnd (seen (ufw_source_conflict cx wanted rules)) (\<lambda>conflict. if conflict then stop PendingCheck else ret (wanted, manual)))))"

definition plan_zone :: "fw_env \<Rightarrow> fw_ctx \<Rightarrow> fw_rule list \<Rightarrow> (string \<times> string list) list \<Rightarrow> string \<Rightarrow> (string \<times> string list) list act" where
  "plan_zone env cx allows zones zone =
     bnd (firewalld_rules env zone) (\<lambda>rules. bnd (check_zone_sources env cx zone allows rules) (\<lambda>_. ret (zones @ [(zone, rules)])))"

definition ufw_record :: "fw_ctx \<Rightarrow> fw_rule \<Rightarrow> owned_rule" where
  "ufw_record cx r = \<lparr>ow_backend = Ufw, ow_zone = [], ow_rule = r, ow_priority = (if cx_plans cx \<noteq> [] then -1 else 0)\<rparr>"

definition rich_record :: "fw_ctx \<Rightarrow> string \<Rightarrow> fw_rule \<Rightarrow> owned_rule" where
  "rich_record cx zone r = \<lparr>ow_backend = Firewalld, ow_zone = zone, ow_rule = r, ow_priority = (if cx_plans cx \<noteq> [] then -32768 else 0)\<rparr>"

definition ensure_zone :: "fw_env \<Rightarrow> fw_ctx \<Rightarrow> fw_rule list \<Rightarrow> (string \<times> string list) list \<Rightarrow> string \<times> string list \<Rightarrow> (string \<times> string list) list act" where
  "ensure_zone env cx allows done z =
     bnd (scan (\<lambda>rules r. ensure_firewalld env cx (rich_record cx (fst z) r) rules) (snd z) allows) (\<lambda>rules. ret (done @ [(fst z, rules)]))"

text \<open>The last loop: records that are neither wanted nor kept, with the zones' rules read so far.\<close>

definition remove_record ::
  "fw_env \<Rightarrow> fw_ctx \<Rightarrow> owned_rule list \<Rightarrow> fw_rule list \<Rightarrow> ufw_rule list \<Rightarrow> (fw_rule \<times> string) list \<Rightarrow> bool \<Rightarrow>
   (string, string list) go_map \<Rightarrow> owned_rule \<Rightarrow> (string, string list) go_map act" where
  "remove_record env cx wanted manual ufw_rules added fd_active zones ow =
     (if ow \<in> set wanted \<or> keep_owned cx (ow_rule ow) \<and> \<not> (ow_backend ow = Ufw \<and> overlap_any (ow_rule ow) manual) then ret zones
      else case ow_backend ow of
        Ufw \<Rightarrow> bnd (remove_ufw env cx ow ufw_rules added) (\<lambda>_. ret zones)
      | Firewalld \<Rightarrow>
          if \<not> fd_active then stop BackendDown
          else
            bnd (case map_of zones (ow_zone ow) of None \<Rightarrow> firewalld_rules env (ow_zone ow) | Some rules \<Rightarrow> ret rules) (\<lambda>rules.
              bnd (if owned_rich cx ow \<in> set rules then
                     bnd (remove_rich env cx ow) (\<lambda>_. ret (removeAll (owned_rich cx ow) rules)) else ret rules) (\<lambda>rules'.
                bnd (forget env ow) (\<lambda>_. ret (AList.update (ow_zone ow) rules' zones)))))"

definition apply_once :: "fw_env \<Rightarrow> fw_ctx \<Rightarrow> fw_rule list \<Rightarrow> fw_rule list \<Rightarrow> unit act" where
  "apply_once env cx allows redirects =
     bnd (seen fw_mem) (\<lambda>st.
       if \<not> cx_enabled cx \<and> sv_owned st = [] \<and> sv_redirect st = [] then ret ()
       else
         let allows = (if cx_enabled cx then allows else []); redirects = (if cx_enabled cx then redirects else []) in
         if unfinished_check cx allows (sv_owned st) then stop PendingCheck
         else
           bnd (read_ufw env cx (sv_owned st)) (\<lambda>(ufw, added). bnd (read_firewalld env cx (sv_owned st)) (\<lambda>fd_active.
             let ufw_rules = (case ufw of None \<Rightarrow> [] | Some rules \<Rightarrow> rules); ufw_on = (ufw \<noteq> None \<and> backend_wanted cx ''ufw'');
                 fd_on = (fd_active \<and> backend_wanted cx ''firewalld'' \<and> allows \<noteq> []) in
             bnd (if ufw_on then plan_ufw env cx allows redirects ufw_rules else ret ([], [])) (\<lambda>(ufw_allows, manual).
             bnd (if fd_on then bnd (firewalld_zones env cx) (scan (plan_zone env cx allows) []) else ret []) (\<lambda>zones.
             bnd (if ufw_on then each (\<lambda>r. ensure_ufw env cx (ufw_record cx r) ufw_rules) ufw_allows else ret ()) (\<lambda>_.
             bnd (if fd_on then scan (ensure_zone env cx allows) [] zones else ret []) (\<lambda>zones'.
             bnd (apply_redirects env cx redirects) (\<lambda>_.
             bnd (seen (\<lambda>w. sv_owned (fw_mem w))) (\<lambda>ows.
             bnd (scan (remove_record env cx
                    ((if ufw_on then map (ufw_record cx) ufw_allows else []) @ concat (map (\<lambda>z. map (rich_record cx (fst z)) allows) zones))
                    manual ufw_rules added fd_active) zones' ows) (\<lambda>_. ret ()))))))))))"

definition apply_rules :: "fw_env \<Rightarrow> fw_ctx \<Rightarrow> fw_rule list \<Rightarrow> fw_rule list \<Rightarrow> unit act" where
  "apply_rules env cx allows redirects =
     (if list_ex (\<lambda>r. \<not> fw_rule_valid (cx_lib cx) r) (allows @ redirects) then stop InvalidRule
      else
        bnd (seen (\<lambda>w. sv_namespace (fw_mem w))) (\<lambda>namespace.
          bnd (if namespace = [] \<and> \<not> cx_recovering cx \<and> cx_protected cx = [] \<and> \<not> has_sources allows then
                 bnd (apply_once env cx [] []) (\<lambda>_ w.
                   case save_firewall env (w\<lparr>fw_mem := (fw_mem w)\<lparr>sv_namespace := ''yz-agent''\<rparr>\<rparr>) of
                     (Inr u, w') \<Rightarrow> (Inr (), w')
                   | (Inl e, w') \<Rightarrow> (Inl e, w'\<lparr>fw_mem := (fw_mem w')\<lparr>sv_namespace := []\<rparr>\<rparr>))
               else ret ()) (\<lambda>_. apply_once env cx allows redirects)))"

section \<open>Reasoning about actions\<close>

definition triple :: "(fw_world \<Rightarrow> bool) \<Rightarrow> 'a act \<Rightarrow> ('a \<Rightarrow> fw_world \<Rightarrow> bool) \<Rightarrow> (fw_world \<Rightarrow> bool) \<Rightarrow> bool" where
  "triple P m Q E \<longleftrightarrow> (\<forall>w. P w \<longrightarrow> (case m w of (Inr x, w') \<Rightarrow> Q x w' | (Inl e, w') \<Rightarrow> E w'))"

lemma tripleI: "(\<And>w. P w \<Longrightarrow> case m w of (Inr x, w') \<Rightarrow> Q x w' | (Inl e, w') \<Rightarrow> E w') \<Longrightarrow> triple P m Q E"
  by (simp add: triple_def)

lemma tripleD: "triple P m Q E \<Longrightarrow> P w \<Longrightarrow> m w = (Inr x, w') \<Longrightarrow> Q x w'" "triple P m Q E \<Longrightarrow> P w \<Longrightarrow> m w = (Inl e, w') \<Longrightarrow> E w'"
  by (auto simp: triple_def dest!: spec [of _ w])

lemma triple_mono:
  assumes "triple P m Q E" "\<And>w. P' w \<Longrightarrow> P w" "\<And>x w. Q x w \<Longrightarrow> Q' x w" "\<And>w. E w \<Longrightarrow> E' w"
  shows "triple P' m Q' E'"
proof (rule tripleI)
  fix w assume "P' w"
  then have "P w" by (rule assms(2))
  then show "case m w of (Inr x, w') \<Rightarrow> Q' x w' | (Inl e, w') \<Rightarrow> E' w'"
    using assms(3,4) tripleD [OF assms(1)] by (cases "m w"; cases "fst (m w)") auto
qed

lemma triple_ret: "(\<And>w. P w \<Longrightarrow> Q x w) \<Longrightarrow> triple P (ret x) Q E"
  by (simp add: triple_def ret_def)

lemma triple_stop: "(\<And>w. P w \<Longrightarrow> E w) \<Longrightarrow> triple P (stop e) Q E"
  by (simp add: triple_def stop_def)

lemma triple_seen: "(\<And>w. P w \<Longrightarrow> Q (g w) w) \<Longrightarrow> triple P (seen g) Q E"
  by (simp add: triple_def seen_def)

lemma triple_bnd:
  assumes "triple P m R E" "\<And>x. triple (R x) (f x) Q E"
  shows "triple P (bnd m f) Q E"
proof (rule tripleI)
  fix w assume w: "P w"
  show "case bnd m f w of (Inr x, w') \<Rightarrow> Q x w' | (Inl e, w') \<Rightarrow> E w'"
  proof (cases "m w")
    case (Pair r w')
    show ?thesis
    proof (cases r)
      case (Inl e)
      then show ?thesis using tripleD(2) [OF assms(1) w] Pair by (simp add: bnd_def)
    next
      case (Inr x)
      then have "R x w'" using tripleD(1) [OF assms(1) w] Pair by simp
      then show ?thesis using assms(2) [of x] Inr Pair by (simp add: bnd_def triple_def)
    qed
  qed
qed

lemma triple_seen_bnd: "(\<And>x. triple (\<lambda>w. P w \<and> g w = x) (f x) Q E) \<Longrightarrow> triple P (bnd (seen g) f) Q E"
  unfolding triple_def bnd_def seen_def by auto

lemma triple_if: "(b \<Longrightarrow> triple P m Q E) \<Longrightarrow> (\<not> b \<Longrightarrow> triple P m' Q E) \<Longrightarrow> triple P (if b then m else m') Q E"
  by simp

lemma triple_each: "(\<And>x. x \<in> set xs \<Longrightarrow> triple P (f x) (\<lambda>_. P) E) \<Longrightarrow> triple P (each f xs) (\<lambda>_. P) E"
  by (induction xs) (auto intro: triple_ret triple_bnd)

lemma triple_scan:
  "(\<And>s x. x \<in> set xs \<Longrightarrow> triple (P s) (f s x) P E) \<Longrightarrow> triple (P s) (scan f s xs) P E"
  by (induction xs arbitrary: s) (auto intro: triple_ret triple_bnd)

section \<open>Records precede changes\<close>

text \<open>What a logged command must have had on disk when it was issued.\<close>

definition recorded :: "fw_ctx \<Rightarrow> fw_cmd \<Rightarrow> owned_rule list \<Rightarrow> bool" where
  "recorded cx cmd ows =
     (case cmd of
        AddRich ow \<Rightarrow> ow \<in> set ows
      | RemoveRich ow \<Rightarrow> ow \<in> set ows \<and> \<not> keep_owned cx (ow_rule ow)
      | UfwAllow ow c \<Rightarrow> ow \<in> set ows
      | UfwPrepend ow c \<Rightarrow> ow \<in> set ows
      | UfwDelete ow c \<Rightarrow> (\<exists>namespace. owns_comment (cx_digest cx) (nft_owner namespace (cx_scope cx)) (ow_rule ow) c)
      | _ \<Rightarrow> True)"

definition records_ok :: "fw_ctx \<Rightarrow> fw_world \<Rightarrow> bool" where
  "records_ok cx w \<longleftrightarrow>
     sv_owned (fw_disk w) = sv_owned (fw_mem w) \<and> distinct (sv_owned (fw_mem w)) \<and> (\<forall>(cmd, ows) \<in> set (fw_log w). recorded cx cmd ows)"

abbreviation keeps_books :: "fw_ctx \<Rightarrow> 'a act \<Rightarrow> bool" where
  "keeps_books cx m \<equiv> triple (records_ok cx) m (\<lambda>_. records_ok cx) (records_ok cx)"

lemma books_turn [simp]: "records_ok cx (turn env w) = records_ok cx w"
  by (simp add: records_ok_def turn_def)

lemma turn_fields [simp]: "fw_mem (turn env w) = fw_mem w" "fw_disk (turn env w) = fw_disk w" "fw_log (turn env w) = fw_log w"
  by (simp_all add: turn_def)

lemma books_asks: "(\<And>w. P (turn env w) = P w) \<Longrightarrow> triple P (asks env g) (\<lambda>_. P) P"
  by (simp add: triple_def asks_def)

lemma triple_runs_with:
  assumes "\<And>w. P w \<Longrightarrow> recorded cx cmd (sv_owned (fw_disk w))" "\<And>w. P w \<Longrightarrow> records_ok cx w \<and> A \<subseteq> set (sv_owned (fw_mem w))"
    "\<And>w. fw_mem (effect w) = fw_mem w \<and> fw_disk (effect w) = fw_disk w \<and> fw_log (effect w) = fw_log w"
  shows "triple P (runs env cmd effect) (\<lambda>_ w. records_ok cx w \<and> A \<subseteq> set (sv_owned (fw_mem w))) (records_ok cx)"
  unfolding triple_def
proof (intro allI impI)
  fix w assume "P w"
  then have "records_ok cx (effect ((turn env w)\<lparr>fw_log := fw_log w @ [(cmd, sv_owned (fw_disk w))]\<rparr>))"
    "records_ok cx ((turn env w)\<lparr>fw_log := fw_log w @ [(cmd, sv_owned (fw_disk w))]\<rparr>)"
    "A \<subseteq> set (sv_owned (fw_mem w))"
    using assms by (simp_all add: records_ok_def)
  then show "case runs env cmd effect w of (Inr x, w') \<Rightarrow> records_ok cx w' \<and> A \<subseteq> set (sv_owned (fw_mem w')) | (Inl e, w') \<Rightarrow> records_ok cx w'"
    using assms(3) by (simp add: runs_def Let_def split: fault.split)
qed

lemma triple_runs:
  assumes "\<And>w. P w \<Longrightarrow> recorded cx cmd (sv_owned (fw_disk w))" "\<And>w. P w \<Longrightarrow> records_ok cx w"
    "\<And>w. fw_mem (effect w) = fw_mem w \<and> fw_disk (effect w) = fw_disk w \<and> fw_log (effect w) = fw_log w"
  shows "triple P (runs env cmd effect) (\<lambda>_. records_ok cx) (records_ok cx)"
  using triple_runs_with [of P cx cmd "{}" effect env] assms by simp

definition on_time :: "fw_env \<Rightarrow> bool" where
  "on_time env \<longleftrightarrow> (\<forall>t. ev_save env t \<noteq> FailAfter)"

lemma save_owned_books:
  assumes "on_time env" "records_ok cx w" "distinct ows"
  shows "case save_owned env ows w of (Inr x, w') \<Rightarrow> records_ok cx w' \<and> sv_owned (fw_mem w') = ows \<and> fw_live w' = ev_others env (fw_time w) (fw_live w)
    | (Inl e, w') \<Rightarrow> records_ok cx w' \<and> sv_owned (fw_mem w') = sv_owned (fw_mem w) \<and> fw_live w' = ev_others env (fw_time w) (fw_live w)"
  using assms by (cases "ev_save env (fw_time w)") (auto simp: save_owned_def save_firewall_def Let_def set_owned_def records_ok_def on_time_def turn_def)

lemma save_books: "on_time env \<Longrightarrow> keeps_books cx (save_firewall env)"
  by (rule tripleI) (auto simp: save_firewall_def Let_def records_ok_def on_time_def split: fault.split)

lemma replace_first_distinct: "distinct xs \<Longrightarrow> distinct ys \<Longrightarrow> set ys \<inter> set xs = {} \<Longrightarrow> distinct (replace_first P ys xs)"
proof (induction xs)
  case (Cons x xs)
  have "set (replace_first P ys xs) \<subseteq> set ys \<union> set xs" by (induction xs) auto
  then show ?case using Cons by auto
qed simp

lemma replace_first_keeps: "x \<in> set xs \<Longrightarrow> \<not> P x \<Longrightarrow> x \<in> set (replace_first P ys xs)"
  by (induction xs) auto

lemma replace_first_puts: "list_ex P xs \<Longrightarrow> set ys \<subseteq> set (replace_first P ys xs)"
  by (induction xs) auto

lemma save_owned_triple:
  assumes "on_time env" "\<And>w. P w \<Longrightarrow> records_ok cx w \<and> distinct ows"
  shows "triple P (save_owned env ows) (\<lambda>_ w. records_ok cx w \<and> sv_owned (fw_mem w) = ows) (records_ok cx)"
proof (rule tripleI)
  fix w assume "P w"
  then show "case save_owned env ows w of (Inr x, w') \<Rightarrow> records_ok cx w' \<and> sv_owned (fw_mem w') = ows | (Inl e, w') \<Rightarrow> records_ok cx w'"
    using save_owned_books [OF assms(1), of cx w ows] assms(2) [of w] by (auto split: prod.splits sum.splits)
qed

lemma remember_books:
  assumes "on_time env"
  shows "triple (records_ok cx) (remember env ow) (\<lambda>_ w. records_ok cx w \<and> ow \<in> set (sv_owned (fw_mem w))) (records_ok cx)"
proof (rule tripleI)
  fix w assume w: "records_ok cx w"
  let ?ows = "sv_owned (fw_mem w)" and ?same = "\<lambda>old. same_record old ow"
  have d: "distinct ?ows" using w by (simp add: records_ok_def)
  show "case remember env ow w of (Inr x, w') \<Rightarrow> records_ok cx w' \<and> ow \<in> set (sv_owned (fw_mem w')) | (Inl e, w') \<Rightarrow> records_ok cx w'"
  proof (cases "ow \<in> set ?ows")
    case True
    then show ?thesis using w by (simp add: remember_def)
  next
    case False
    define new where "new = (if list_ex ?same ?ows then replace_first ?same [ow] ?ows else ?ows @ [ow])"
    have "distinct new" "ow \<in> set new"
      using d False replace_first_puts [of ?same ?ows "[ow]"] by (auto simp: new_def intro: replace_first_distinct)
    moreover have "remember env ow w = save_owned env new w"
      using False by (simp add: remember_def new_def)
    ultimately show ?thesis using save_owned_books [OF assms w, of new] by (auto split: prod.splits sum.splits)
  qed
qed

lemma forget_books:
  assumes "on_time env" "\<And>x. x \<in> A \<Longrightarrow> x \<noteq> ow \<and> ow_backend x = Firewalld"
  shows "triple (\<lambda>w. records_ok cx w \<and> A \<subseteq> set (sv_owned (fw_mem w))) (forget env ow)
    (\<lambda>_ w. records_ok cx w \<and> A \<subseteq> set (sv_owned (fw_mem w))) (records_ok cx)"
proof (rule tripleI, elim conjE)
  fix w assume w: "records_ok cx w" and A: "A \<subseteq> set (sv_owned (fw_mem w))"
  let ?ows = "sv_owned (fw_mem w)" and ?hit = "\<lambda>old. old = ow \<or> same_record old ow"
  define new where "new = replace_first ?hit [] ?ows"
  have "distinct new" using w by (auto simp: new_def records_ok_def intro: replace_first_distinct)
  moreover have "A \<subseteq> set new"
    using A assms(2) by (force simp: new_def same_record_def intro: replace_first_keeps)
  ultimately show "case forget env ow w of (Inr x, w') \<Rightarrow> records_ok cx w' \<and> A \<subseteq> set (sv_owned (fw_mem w')) | (Inl e, w') \<Rightarrow> records_ok cx w'"
    using save_owned_books [OF assms(1) w, of new] w A
    by (auto simp: forget_def Let_def new_def split: prod.splits sum.splits)
qed

lemma triple_pre: "triple P m Q E \<Longrightarrow> (\<And>w. P' w \<Longrightarrow> P w) \<Longrightarrow> triple P' m Q E"
  by (erule triple_mono)

lemma triple_post: "triple P m Q E \<Longrightarrow> (\<And>x w. Q x w \<Longrightarrow> Q' x w) \<Longrightarrow> triple P m Q' E"
  by (erule triple_mono)

lemma triple_seen_any: "(\<And>x. triple P (f x) Q E) \<Longrightarrow> triple P (bnd (seen g) f) Q E"
  unfolding triple_def bnd_def seen_def by auto

lemma triple_then: "triple P m (\<lambda>_. P) E \<Longrightarrow> (\<And>x. triple P (f x) Q E) \<Longrightarrow> triple P (bnd m f) Q E"
  by (rule triple_bnd)

lemma triple_scan_rest:
  assumes "\<And>s x rest. triple (P (x # rest)) (f s x) (\<lambda>_. P rest) E"
  shows "triple (P xs) (scan f s xs) (\<lambda>_. P []) E"
proof (induction xs arbitrary: s)
  case (Cons x xs)
  show ?case unfolding scan.simps by (rule triple_bnd [OF assms Cons.IH])
qed (auto intro: triple_ret)

lemma triple_remove_ufw:
  assumes "\<And>namespace c. owns_comment (cx_digest cx) (nft_owner namespace (cx_scope cx)) (ow_rule ow) c \<Longrightarrow> triple P (runs env (UfwDelete ow c) (\<lambda>w. w)) (\<lambda>_. P) E"
    and "triple P (forget env ow) (\<lambda>_. P) E"
  shows "triple P (remove_ufw env cx ow existing added) (\<lambda>_. P) E"
  unfolding remove_ufw_def
proof (rule triple_seen_bnd, rule triple_bnd)
  fix comments
  show "triple (\<lambda>w. P w \<and> remdups
         (map uw_comment (filter (\<lambda>u. \<not> uw_scoped u \<and> uw_rule u = ow_rule ow \<and> uw_action u = ''ALLOW'' \<and> own_comment cx w (ow_rule ow) (uw_comment u)) existing) @
          map snd (filter (\<lambda>(r, c). r = ow_rule ow \<and> own_comment cx w (ow_rule ow) c) added)) = comments)
        (each (\<lambda>c. runs env (UfwDelete ow c) (\<lambda>w. w)) comments) (\<lambda>_. P) E"
  proof (cases "\<forall>c \<in> set comments. \<exists>namespace. owns_comment (cx_digest cx) (nft_owner namespace (cx_scope cx)) (ow_rule ow) c")
    case True
    then have "triple P (each (\<lambda>c. runs env (UfwDelete ow c) (\<lambda>w. w)) comments) (\<lambda>_. P) E"
      using assms(1) by (blast intro: triple_each)
    then show ?thesis by (rule triple_pre) simp
  next
    case False
    then show ?thesis by (auto simp: triple_def own_comment_def)
  qed
qed (rule assms(2))

section \<open>What every run keeps\<close>

text \<open>
  A predicate on worlds that each elementary action keeps is kept by whole runs. \<open>after_failure\<close> is what is left of it when an
  action fails, \<open>noted\<close> what the record of a rule gives its command.
\<close>

locale kept_by_steps =
  fixes env :: fw_env and cx :: fw_ctx and wants :: "fw_rule \<Rightarrow> bool" and keeps after_failure :: "fw_world \<Rightarrow> bool" and noted :: "owned_rule \<Rightarrow> fw_world \<Rightarrow> bool"
  assumes weaken: "keeps w \<Longrightarrow> after_failure w"
    and time_passes: "keeps w \<Longrightarrow> keeps (turn env w)"
    and other_fields: "sv_owned m = sv_owned (fw_mem w) \<Longrightarrow> keeps w \<Longrightarrow> keeps (w\<lparr>fw_mem := m\<rparr>)"
    and failed_fields: "sv_owned m = sv_owned (fw_mem w) \<Longrightarrow> after_failure w \<Longrightarrow> after_failure (w\<lparr>fw_mem := m\<rparr>)"
    and saves: "triple keeps (save_firewall env) (\<lambda>_. keeps) after_failure"
    and redirects: "triple keeps (runs env (SyncRedirect driver rules) (\<lambda>w. w)) (\<lambda>_. keeps) after_failure"
    and sources: "triple keeps (runs env (SyncSources driver sos) (\<lambda>w. w)) (\<lambda>_. keeps) after_failure"
    and remembers: "ow_backend ow = Ufw \<Longrightarrow> triple keeps (remember env ow) (\<lambda>_ w. keeps w \<and> noted ow w) after_failure"
    and forgets: "ow_backend ow = Ufw \<Longrightarrow> triple keeps (forget env ow) (\<lambda>_. keeps) after_failure"
    and allows: "triple (\<lambda>w. keeps w \<and> noted ow w) (runs env (UfwAllow ow c) (\<lambda>w. w)) (\<lambda>_. keeps) after_failure"
    and prepends: "triple (\<lambda>w. keeps w \<and> noted ow w) (runs env (UfwPrepend ow c) (\<lambda>w. w)) (\<lambda>_. keeps) after_failure"
    and deletes: "owns_comment (cx_digest cx) (nft_owner namespace (cx_scope cx)) (ow_rule ow) c \<Longrightarrow>
      triple keeps (runs env (UfwDelete ow c) (\<lambda>w. w)) (\<lambda>_. keeps) after_failure"
    and zone_opens: "ow_backend ow = Firewalld \<Longrightarrow> wants (ow_rule ow) \<Longrightarrow> triple keeps (ensure_firewalld env cx ow existing) (\<lambda>_. keeps) after_failure"
    and removals: "triple (\<lambda>w. keeps w \<and> sv_owned (fw_mem w) = ows) (scan (remove_record env cx wanted manual ufw_rules added fd_active) zones ows)
      (\<lambda>_. keeps) after_failure"
begin

abbreviation safe :: "'a act \<Rightarrow> bool" where
  "safe m \<equiv> triple keeps m (\<lambda>_. keeps) after_failure"

lemma safe_ret: "safe (ret x)"
  by (rule triple_ret)

lemma safe_stop: "safe (stop e)"
  by (rule triple_stop) (rule weaken)

lemma safe_asks: "safe (asks env g)"
  by (rule tripleI) (auto simp: asks_def intro: weaken time_passes)

lemma safe_seen: "safe (seen g)"
  by (rule triple_seen)

lemmas safe_rules = safe_ret safe_stop safe_asks safe_seen saves triple_if triple_seen_any triple_then triple_each triple_scan

lemma safe_set: "safe (set_redirect driver families)" "safe (set_sources driver sos)"
  by (auto simp: triple_def set_redirect_def set_sources_def intro: other_fields)

lemma safe_sync_redirect: "safe (sync_redirect env driver rules)"
  unfolding sync_redirect_def by (intro safe_rules redirects)

lemma safe_apply_redirects: "safe (apply_redirects env cx rules)"
  unfolding apply_redirects_def redirect_driver_def Let_def by (intro safe_rules safe_set safe_sync_redirect)

lemma safe_ask_firewalld: "safe (ask_firewalld env)"
  by (rule tripleI) (auto simp: ask_firewalld_def stop_def ret_def split: option.split intro: weaken time_passes)

lemma safe_check_source_environment: "safe (check_source_environment env)"
  unfolding check_source_environment_def
  by (intro safe_rules safe_ask_firewalld) (auto split: ufw_status.split intro!: safe_rules)

lemma safe_select_source_driver: "safe (select_source_driver env cx)"
  unfolding select_source_driver_def by (intro safe_rules safe_check_source_environment)

lemma safe_prepare_source_tools: "safe (prepare_source_tools env cx plans)"
  unfolding prepare_source_tools_def Let_def by (intro safe_rules safe_check_source_environment)

lemma safe_apply_sources: "safe (apply_sources env cx plans)"
  unfolding apply_sources_def Let_def by (intro safe_rules safe_set sources safe_select_source_driver)

lemma safe_read_ufw: "safe (read_ufw env cx ows)"
  unfolding read_ufw_def by (intro safe_rules) (auto split: ufw_status.split intro!: safe_rules)

lemma safe_read_firewalld: "safe (read_firewalld env cx ows)"
  unfolding read_firewalld_def by (intro safe_rules safe_ask_firewalld)

lemma safe_plan_ufw: "safe (plan_ufw env cx allows redirects rules)"
  unfolding plan_ufw_def Let_def by (auto split: prod.split intro!: safe_rules)

lemma safe_zones: "safe (firewalld_zones env cx)" "safe (plan_zone env cx allows zones zone)"
  unfolding firewalld_zones_def plan_zone_def firewalld_rules_def check_zone_sources_def Let_def by (intro safe_rules)+

lemma safe_ensure_zone: "\<forall>r \<in> set allows. wants r \<Longrightarrow> safe (ensure_zone env cx allows done z)"
  unfolding ensure_zone_def by (intro safe_rules zone_opens) (simp_all add: rich_record_def)

lemma safe_allow_ufw:
  "triple (\<lambda>w. keeps w \<and> noted ow w) (allow_ufw env cx UfwAllow ow) (\<lambda>_. keeps) after_failure"
  "triple (\<lambda>w. keeps w \<and> noted ow w) (allow_ufw env cx UfwPrepend ow) (\<lambda>_. keeps) after_failure"
  using allows [of ow] prepends [of ow] by (simp_all add: triple_def allow_ufw_def)

lemma noted_allow:
  assumes "ow_backend ow = Ufw" "triple (\<lambda>w. keeps w \<and> noted ow w) m (\<lambda>_. keeps) after_failure"
  shows "safe (bnd (remember env ow) (\<lambda>_. m))"
  using remembers [OF assms(1)] assms(2) by (rule triple_bnd)

end

context kept_by_steps
begin

lemma safe_remove_ufw: "ow_backend ow = Ufw \<Longrightarrow> safe (remove_ufw env cx ow existing added)"
  by (rule triple_remove_ufw [OF deletes forgets])

lemma safe_ufw_managed_position: "safe (ufw_managed_position cx r existing)"
  by (auto simp: triple_def ufw_managed_position_def split: sum.split intro: weaken)

lemma safe_verify_ufw: "safe (verify_ufw env cx r)"
proof -
  have "safe (\<lambda>w. case ufw_managed_position cx r rules w of
      (Inr pos, w') \<Rightarrow> (if up_own pos = None \<or> after_blocker (up_own pos) (up_blocker pos) then stop NotVerified w' else ret () w')
    | (Inl e, w') \<Rightarrow> stop NotVerified w')" for rules
    by (rule tripleI) (auto simp: ufw_managed_position_def stop_def ret_def split: sum.split intro: weaken)
  then show ?thesis unfolding verify_ufw_def by (intro safe_rules)
qed

lemma noted_allow_verify:
  assumes "ow_backend ow = Ufw"
  shows "safe (bnd (remember env ow) (\<lambda>_. bnd (seen g) (\<lambda>same. if same then ret () else bnd (allow_ufw env cx UfwAllow ow) (\<lambda>_. verify_ufw env cx (ow_rule ow)))))"
    and "safe (bnd (remember env ow) (\<lambda>_. bnd (allow_ufw env cx UfwPrepend ow) (\<lambda>_. verify_ufw env cx (ow_rule ow))))"
    and "safe (bnd (remember env ow) (\<lambda>_. bnd (seen g) (\<lambda>same. if same then ret () else allow_ufw env cx UfwAllow ow)))"
    and "safe (bnd (remember env ow) (\<lambda>_. allow_ufw env cx UfwAllow ow))"
  by (intro noted_allow assms triple_seen_any triple_if triple_bnd [OF safe_allow_ufw(1)] triple_bnd [OF safe_allow_ufw(2)] safe_verify_ufw
        safe_allow_ufw triple_ret; simp)+

lemma safe_ensure_ufw_managed: "ow_backend ow = Ufw \<Longrightarrow> safe (ensure_ufw_managed env cx ow existing)"
  unfolding ensure_ufw_managed_def
  by (intro triple_then safe_ufw_managed_position triple_if safe_stop safe_ret forgets noted_allow_verify safe_remove_ufw)

lemma safe_ensure_ufw: "ow_backend ow = Ufw \<Longrightarrow> safe (ensure_ufw env cx ow existing)"
  unfolding ensure_ufw_def
  by (auto split: option.split intro!: triple_seen_any safe_ensure_ufw_managed safe_stop forgets noted_allow_verify)

lemma safe_apply_once:
  assumes "\<forall>r \<in> set allows. wants r"
  shows "safe (apply_once env cx allows redirects)"
proof -
  have removal: "safe (bnd (seen (\<lambda>w. sv_owned (fw_mem w))) (\<lambda>ows.
      bnd (scan (remove_record env cx wanted manual ufw_rules added fd_active) zones ows) (\<lambda>_. ret ())))" for wanted manual ufw_rules added fd_active zones
    by (rule triple_seen_bnd, rule triple_bnd [OF removals]) (rule safe_ret)
  show ?thesis
    unfolding apply_once_def Let_def
    by (auto intro!: triple_seen_any triple_then safe_ret safe_stop safe_read_ufw safe_read_firewalld safe_plan_ufw safe_zones triple_scan
        triple_each safe_ensure_ufw safe_ensure_zone safe_apply_redirects removal simp: assms ufw_record_def)
qed

lemma safe_apply_rules: "\<forall>r \<in> set allows. wants r \<Longrightarrow> safe (apply_rules env cx allows redirects)"
proof -
  let ?save = "\<lambda>w. case save_firewall env (w\<lparr>fw_mem := (fw_mem w)\<lparr>sv_namespace := ''yz-agent''\<rparr>\<rparr>) of
      (Inr u, w') \<Rightarrow> (Inr (), w') | (Inl e, w') \<Rightarrow> (Inl e, w'\<lparr>fw_mem := (fw_mem w')\<lparr>sv_namespace := []\<rparr>\<rparr>)"
  have "safe ?save"
  proof (rule tripleI)
    fix w assume "keeps w"
    then have k: "keeps (w\<lparr>fw_mem := (fw_mem w)\<lparr>sv_namespace := ''yz-agent''\<rparr>\<rparr>)" by (auto intro: other_fields)
    show "case ?save w of (Inr x, w') \<Rightarrow> keeps w' | (Inl e, w') \<Rightarrow> after_failure w'"
      using tripleD(1) [OF saves k] tripleD(2) [OF saves k] by (auto split: prod.split sum.split intro: failed_fields)
  qed
  then show "safe (apply_rules env cx allows redirects)" if "\<forall>r \<in> set allows. wants r"
    unfolding apply_rules_def using that by (intro triple_if safe_stop triple_seen_any triple_then safe_ret safe_apply_once) simp_all
qed

end

section \<open>The records as an interface\<close>

lemma add_rich_triple:
  assumes "triple P (runs env (AddRich ow) (\<lambda>w. w)) (\<lambda>_. Q) E"
    "triple P (runs env (AddRich ow) (\<lambda>w. w\<lparr>fw_live := (ow_zone ow, owned_rich cx ow) # fw_live w\<rparr>)) (\<lambda>_. Q) E"
  shows "triple P (add_rich env cx ow) (\<lambda>_. Q) E"
proof (rule tripleI)
  fix w assume w: "P w"
  show "case add_rich env cx ow w of (Inr x, w') \<Rightarrow> Q w' | (Inl e, w') \<Rightarrow> E w'"
    using tripleD(1) [OF assms(1) w] tripleD(2) [OF assms(1) w] tripleD(1) [OF assms(2) w] tripleD(2) [OF assms(2) w]
    by (cases "(ow_zone ow, owned_rich cx ow) \<in> set (fw_live (turn env w))")
      (auto simp: add_rich_def Let_def bnd_def ret_def split: prod.split sum.split)
qed

lemma books_asks_all: "triple (records_ok cx) (asks env g) (\<lambda>_. records_ok cx) (records_ok cx)"
  by (rule books_asks) simp

lemma books_forget: "on_time env \<Longrightarrow> keeps_books cx (forget env ow)"
  using forget_books [of env "{}" ow cx] by simp

lemma books_add_rich: "triple (\<lambda>w. records_ok cx w \<and> ow \<in> set (sv_owned (fw_mem w))) (add_rich env cx ow) (\<lambda>_. records_ok cx) (records_ok cx)"
  by (rule add_rich_triple; rule triple_runs) (auto simp: recorded_def records_ok_def)

lemma books_ensure_firewalld: "on_time env \<Longrightarrow> keeps_books cx (ensure_firewalld env cx ow existing)"
  unfolding ensure_firewalld_def Let_def firewalld_rules_def
  by (intro triple_if triple_stop triple_ret triple_seen_any triple_bnd [OF remember_books] triple_bnd [OF books_add_rich]
      triple_then [OF books_forget] triple_then [OF books_asks_all]) simp_all

definition remaining_owned :: "owned_rule list \<Rightarrow> fw_world \<Rightarrow> bool" where
  "remaining_owned ows w \<longleftrightarrow> distinct ows \<and> {ow \<in> set ows. ow_backend ow = Firewalld} \<subseteq> set (sv_owned (fw_mem w))"

lemma triple_remove_record:
  assumes weaken: "\<And>w. R w \<Longrightarrow> P w \<and> E w"
    and ufw: "ow_backend ow = Ufw \<Longrightarrow> triple P (remove_ufw env cx ow ufw_rules added) (\<lambda>_. P) E"
    and reads: "triple R (firewalld_rules env (ow_zone ow)) (\<lambda>_. R) E"
    and removes: "ow_backend ow = Firewalld \<Longrightarrow> \<not> keep_owned cx (ow_rule ow) \<Longrightarrow> triple R (remove_rich env cx ow) (\<lambda>_. P) E"
    and forgets: "ow_backend ow = Firewalld \<Longrightarrow> triple P (forget env ow) (\<lambda>_. P) E"
  shows "triple R (remove_record env cx wanted manual ufw_rules added fd_active zones ow) (\<lambda>_. P) E"
proof (cases "ow \<in> set wanted \<or> keep_owned cx (ow_rule ow) \<and> \<not> (ow_backend ow = Ufw \<and> overlap_any (ow_rule ow) manual)")
  case True
  then show ?thesis unfolding remove_record_def by (simp add: triple_ret weaken)
next
  case change: False
  show ?thesis
  proof (cases "ow_backend ow")
    case Ufw
    have "triple P (bnd (remove_ufw env cx ow ufw_rules added) (\<lambda>_. ret zones)) (\<lambda>_. P) E"
      by (rule triple_bnd [OF ufw [OF Ufw]]) (rule triple_ret)
    then have "triple R (bnd (remove_ufw env cx ow ufw_rules added) (\<lambda>_. ret zones)) (\<lambda>_. P) E"
      by (rule triple_pre) (simp add: weaken)
    then show ?thesis using change Ufw unfolding remove_record_def by auto
  next
    case fd: Firewalld
    have "\<not> keep_owned cx (ow_rule ow)" using change fd by simp
    then have after_read: "triple R (bnd (if line \<in> set rules then bnd (remove_rich env cx ow) (\<lambda>_. ret (removeAll line rules)) else ret rules)
        (\<lambda>rules'. bnd (forget env ow) (\<lambda>_. ret (AList.update (ow_zone ow) rules' zones)))) (\<lambda>_. P) E" for line rules
      by (intro triple_bnd [where R = "\<lambda>_. P"] triple_if triple_bnd [OF removes] triple_bnd [OF forgets] triple_ret fd) (simp_all add: weaken)
    have "triple R (case map_of zones (ow_zone ow) of None \<Rightarrow> firewalld_rules env (ow_zone ow) | Some rules \<Rightarrow> ret rules) (\<lambda>_. R) E"
      by (cases "map_of zones (ow_zone ow)") (simp_all add: reads triple_ret)
    then have "triple R (bnd (case map_of zones (ow_zone ow) of None \<Rightarrow> firewalld_rules env (ow_zone ow) | Some rules \<Rightarrow> ret rules) (\<lambda>rules.
        bnd (if owned_rich cx ow \<in> set rules then bnd (remove_rich env cx ow) (\<lambda>_. ret (removeAll (owned_rich cx ow) rules)) else ret rules)
        (\<lambda>rules'. bnd (forget env ow) (\<lambda>_. ret (AList.update (ow_zone ow) rules' zones))))) (\<lambda>_. P) E"
      by (rule triple_bnd) (rule after_read)
    moreover have "triple R (stop BackendDown) (\<lambda>_. P) E" by (rule triple_stop) (simp add: weaken)
    ultimately show ?thesis using change fd unfolding remove_record_def by auto
  qed
qed

lemma books_remove_record:
  assumes "on_time env"
  shows "triple (\<lambda>w. records_ok cx w \<and> remaining_owned (ow # rest) w) (remove_record env cx wanted manual ufw_rules added fd_active zones ow)
    (\<lambda>_ w. records_ok cx w \<and> remaining_owned rest w) (records_ok cx)"
proof (cases "ow \<notin> set rest \<and> distinct rest")
  case False
  then show ?thesis by (auto simp: triple_def remaining_owned_def)
next
  case True
  define A where "A = {ow \<in> set rest. ow_backend ow = Firewalld}"
  let ?P = "\<lambda>w. records_ok cx w \<and> A \<subseteq> set (sv_owned (fw_mem w))"
  let ?R = "\<lambda>w. ?P w \<and> (ow_backend ow = Firewalld \<longrightarrow> ow \<in> set (sv_owned (fw_mem w)))"
  have A: "remaining_owned rest w \<longleftrightarrow> A \<subseteq> set (sv_owned (fw_mem w))" for w
    using True by (simp add: remaining_owned_def A_def)
  have forgets: "triple ?P (forget env ow) (\<lambda>_. ?P) (records_ok cx)"
    using True by (intro forget_books assms) (auto simp: A_def)
  have "triple ?R (remove_record env cx wanted manual ufw_rules added fd_active zones ow) (\<lambda>_. ?P) (records_ok cx)"
  proof (rule triple_remove_record)
    show "triple ?P (remove_ufw env cx ow ufw_rules added) (\<lambda>_. ?P) (records_ok cx)"
      by (intro triple_remove_ufw triple_runs_with forgets) (auto simp: recorded_def)
    show "triple ?R (firewalld_rules env (ow_zone ow)) (\<lambda>_. ?R) (records_ok cx)"
      unfolding firewalld_rules_def by (rule triple_mono [OF books_asks [where P = ?R]]) auto
    show "triple ?R (remove_rich env cx ow) (\<lambda>_. ?P) (records_ok cx)" if "ow_backend ow = Firewalld" "\<not> keep_owned cx (ow_rule ow)"
      unfolding remove_rich_def using that by (intro triple_runs_with) (auto simp: recorded_def records_ok_def)
  qed (simp_all add: forgets)
  then show ?thesis
    unfolding A by (rule triple_pre) (auto simp: remaining_owned_def A_def)
qed

lemma books_removals:
  assumes "on_time env"
  shows "triple (\<lambda>w. records_ok cx w \<and> sv_owned (fw_mem w) = ows) (scan (remove_record env cx wanted manual ufw_rules added fd_active) zones ows)
    (\<lambda>_. records_ok cx) (records_ok cx)"
  by (rule triple_mono [OF triple_scan_rest [where P = "\<lambda>rest w. records_ok cx w \<and> remaining_owned rest w", OF books_remove_record [OF assms]]])
    (auto simp: remaining_owned_def records_ok_def)

lemma triple_assume:
  assumes "b \<Longrightarrow> triple P m Q E" "\<And>w. P' w \<Longrightarrow> b \<and> P w" "\<And>x w. b \<Longrightarrow> Q x w \<Longrightarrow> Q' x w"
  shows "triple P' m Q' E"
proof (cases b)
  case True
  show ?thesis by (rule triple_mono [OF assms(1) [OF True]]) (use assms True in auto)
next
  case False
  then show ?thesis using assms(2) by (auto simp: triple_def)
qed

lemma books_runs: "(\<And>ows. recorded cx cmd ows) \<Longrightarrow> keeps_books cx (runs env cmd (\<lambda>w. w))"
  by (rule triple_runs) auto

lemma books_runs_noted:
  "(\<And>ows. ow \<in> set ows \<Longrightarrow> recorded cx cmd ows) \<Longrightarrow>
   triple (\<lambda>w. records_ok cx w \<and> ow \<in> set (sv_owned (fw_mem w))) (runs env cmd (\<lambda>w. w)) (\<lambda>_. records_ok cx) (records_ok cx)"
  by (rule triple_runs) (auto simp: records_ok_def)

interpretation books: kept_by_steps env cx "\<lambda>_. True" "\<lambda>w. on_time env \<and> records_ok cx w" "records_ok cx" "\<lambda>ow w. ow \<in> set (sv_owned (fw_mem w))"
  for env cx
proof (unfold_locales, goal_cases)
  case 5 then show ?case by (rule triple_assume [OF save_books]) auto
next
  case 6 then show ?case by (rule triple_assume [OF books_runs]) (auto simp: recorded_def)
next
  case 7 then show ?case by (rule triple_assume [OF books_runs]) (auto simp: recorded_def)
next
  case 8 then show ?case by (intro triple_assume [OF remember_books]) auto
next
  case 9 then show ?case by (intro triple_assume [OF books_forget]) auto
next
  case 10 then show ?case by (rule triple_assume [OF books_runs_noted]) (auto simp: recorded_def)
next
  case 11 then show ?case by (rule triple_assume [OF books_runs_noted]) (auto simp: recorded_def)
next
  case 12 then show ?case by (intro triple_assume [OF books_runs]) (auto simp: recorded_def)
next
  case 13 then show ?case by (intro triple_assume [OF books_ensure_firewalld]) auto
next
  case 14 then show ?case by (rule triple_assume [OF books_removals]) auto
qed (auto simp: records_ok_def)

section \<open>Foreign rules\<close>

text \<open>A rule of the live firewall that others leave alone and no record of this instance names.\<close>

definition rich_key :: "fw_ctx \<Rightarrow> owned_rule \<Rightarrow> string \<times> string" where
  "rich_key cx ow = (ow_zone ow, owned_rich cx ow)"

definition names_entry :: "fw_ctx \<Rightarrow> string \<times> string \<Rightarrow> owned_rule \<Rightarrow> bool" where
  "names_entry cx e ow = (ow_backend ow = Firewalld \<and> rich_key cx ow = e)"

definition left_alone :: "fw_env \<Rightarrow> string \<times> string \<Rightarrow> bool" where
  "left_alone env e \<longleftrightarrow> (\<forall>t live. e \<in> set live \<longrightarrow> e \<in> set (ev_others env t live))"

definition present :: "fw_env \<Rightarrow> string \<times> string \<Rightarrow> fw_world \<Rightarrow> bool" where
  "present env e w \<longleftrightarrow> left_alone env e \<and> e \<in> set (fw_live w)"

definition foreign :: "fw_env \<Rightarrow> fw_ctx \<Rightarrow> string \<times> string \<Rightarrow> fw_world \<Rightarrow> bool" where
  "foreign env cx e w \<longleftrightarrow> present env e w \<and> \<not> list_ex (names_entry cx e) (sv_owned (fw_mem w))"

lemma present_turn [simp]: "present env e w \<Longrightarrow> present env e (turn env w)"
  by (auto simp: present_def left_alone_def turn_def)

lemma foreign_turn: "foreign env cx e w \<Longrightarrow> foreign env cx e (turn env w)"
  by (simp add: foreign_def)

lemma save_presence:
  assumes "present env e w"
  shows "present env e (snd (save_firewall env w))" "sv_owned (fw_mem (snd (save_firewall env w))) = sv_owned (fw_mem w)"
  using assms by (auto simp: save_firewall_def Let_def present_def left_alone_def turn_def split: fault.split)

lemma save_owned_presence:
  assumes "present env e w"
  shows "case save_owned env ows w of (Inr x, w') \<Rightarrow> present env e w' \<and> sv_owned (fw_mem w') = ows | (Inl f, w') \<Rightarrow> present env e w'"
proof -
  have "present env e (set_owned ows w)" using assms by (simp add: present_def set_owned_def)
  from save_presence [OF this] show ?thesis
    by (auto simp: save_owned_def present_def set_owned_def split: prod.split sum.split)
qed

lemma foreign_remember:
  assumes "\<not> names_entry cx e ow"
  shows "triple (foreign env cx e) (remember env ow) (\<lambda>_. foreign env cx e) (present env e)"
proof (rule tripleI)
  fix w assume w: "foreign env cx e w"
  let ?ows = "sv_owned (fw_mem w)" and ?same = "\<lambda>old. same_record old ow"
  define new where "new = (if list_ex ?same ?ows then replace_first ?same [ow] ?ows else ?ows @ [ow])"
  have sub: "set (replace_first P ys xs) \<subseteq> set ys \<union> set xs" for P :: "owned_rule \<Rightarrow> bool" and ys xs
    by (induction xs) auto
  have "\<not> list_ex (names_entry cx e) new"
    using w assms sub [of ?same "[ow]" ?ows] by (auto simp: foreign_def list_ex_iff new_def split: if_splits)
  moreover have "remember env ow w = (if ow \<in> set ?ows then (Inr (), w) else save_owned env new w)"
    by (simp add: remember_def new_def)
  ultimately show "case remember env ow w of (Inr x, w') \<Rightarrow> foreign env cx e w' | (Inl f, w') \<Rightarrow> present env e w'"
    using w save_owned_presence [of env e w new] by (auto simp: foreign_def split: prod.splits sum.splits)
qed

lemma foreign_forget: "triple (foreign env cx e) (forget env ow) (\<lambda>_. foreign env cx e) (present env e)"
proof (rule tripleI)
  fix w assume w: "foreign env cx e w"
  let ?ows = "sv_owned (fw_mem w)" and ?hit = "\<lambda>old. old = ow \<or> same_record old ow"
  have "set (replace_first ?hit [] xs) \<subseteq> set xs" for xs by (induction xs) auto
  then have "\<not> list_ex (names_entry cx e) (replace_first ?hit [] ?ows)"
    using w by (auto simp: foreign_def list_ex_iff)
  then show "case forget env ow w of (Inr x, w') \<Rightarrow> foreign env cx e w' | (Inl f, w') \<Rightarrow> present env e w'"
    using w save_owned_presence [of env e w "replace_first ?hit [] ?ows"]
    by (auto simp: foreign_def forget_def Let_def split: prod.splits sum.splits)
qed

lemma foreign_runs:
  assumes "\<And>w. fw_mem (effect w) = fw_mem w" "\<And>w. e \<in> set (fw_live w) \<Longrightarrow> e \<in> set (fw_live (effect w))"
  shows "triple (foreign env cx e) (runs env cmd effect) (\<lambda>_. foreign env cx e) (present env e)"
  using assms
  by (intro tripleI) (auto simp: runs_def Let_def foreign_def present_def left_alone_def turn_def split: fault.split)

text \<open>The moment in which a record of the foreign rule has just been written, before firewalld says the rule was there.\<close>

definition just_noted :: "fw_env \<Rightarrow> fw_ctx \<Rightarrow> string \<times> string \<Rightarrow> owned_rule \<Rightarrow> fw_world \<Rightarrow> bool" where
  "just_noted env cx e ow w \<longleftrightarrow> present env e w \<and> (\<exists>ows. sv_owned (fw_mem w) = ows @ [ow] \<and> \<not> list_ex (names_entry cx e) ows)"

lemma noted_remember:
  assumes "names_entry cx e ow"
  shows "triple (foreign env cx e) (remember env ow) (\<lambda>_. just_noted env cx e ow) (present env e)"
proof (rule tripleI)
  fix w assume w: "foreign env cx e w"
  let ?ows = "sv_owned (fw_mem w)"
  have "ow \<notin> set ?ows" using w assms by (auto simp: foreign_def list_ex_iff)
  moreover have "\<not> list_ex (\<lambda>old. same_record old ow) ?ows" using assms by (auto simp: list_ex_iff same_record_def names_entry_def)
  ultimately have "remember env ow w = save_owned env (?ows @ [ow]) w" by (simp add: remember_def)
  then show "case remember env ow w of (Inr x, w') \<Rightarrow> just_noted env cx e ow w' | (Inl f, w') \<Rightarrow> present env e w'"
    using w save_owned_presence [of env e w "?ows @ [ow]"] by (auto simp: foreign_def just_noted_def split: prod.splits sum.splits)
qed

lemma noted_add_rich:
  assumes "names_entry cx e ow"
  shows "triple (just_noted env cx e ow) (add_rich env cx ow) (\<lambda>already w. already \<and> just_noted env cx e ow w) (present env e)"
proof (rule tripleI)
  fix w assume w: "just_noted env cx e ow w"
  then have "present env e (turn env w)" by (simp add: just_noted_def)
  then have "e \<in> set (fw_live (turn env w))" by (simp add: present_def)
  moreover have "(ow_zone ow, owned_rich cx ow) = e" using assms by (simp add: names_entry_def rich_key_def)
  ultimately show "case add_rich env cx ow w of (Inr already, w') \<Rightarrow> already \<and> just_noted env cx e ow w' | (Inl f, w') \<Rightarrow> present env e w'"
    using w by (auto simp: add_rich_def Let_def bnd_def ret_def runs_def just_noted_def present_def turn_def split: fault.split)
qed

lemma noted_forget: "names_entry cx e ow \<Longrightarrow> triple (just_noted env cx e ow) (forget env ow) (\<lambda>_. foreign env cx e) (present env e)"
proof (rule tripleI)
  fix w assume ow: "names_entry cx e ow" and w: "just_noted env cx e ow w"
  let ?hit = "\<lambda>old. old = ow \<or> same_record old ow"
  obtain ows where ows: "sv_owned (fw_mem w) = ows @ [ow]" "\<not> list_ex (names_entry cx e) ows" using w by (auto simp: just_noted_def)
  have miss: "\<not> ?hit x" if "x \<in> set ows" for x using ows(2) ow that by (auto simp: list_ex_iff same_record_def names_entry_def)
  have "\<forall>x \<in> set xs. \<not> ?hit x \<Longrightarrow> replace_first ?hit [] (xs @ [ow]) = xs" for xs by (induction xs) auto
  then have "replace_first ?hit [] (ows @ [ow]) = ows" using miss by blast
  then have "forget env ow w = save_owned env ows w" using ows(1) by (simp add: forget_def)
  then show "case forget env ow w of (Inr x, w') \<Rightarrow> foreign env cx e w' | (Inl f, w') \<Rightarrow> present env e w'"
    using w ows save_owned_presence [of env e w ows] by (auto simp: foreign_def just_noted_def split: prod.splits sum.splits)
qed

lemma foreign_present: "foreign env cx e w \<Longrightarrow> present env e w"
  by (simp add: foreign_def)

lemma foreign_asks: "triple (foreign env cx e) (asks env g) (\<lambda>_. foreign env cx e) (present env e)"
  by (rule tripleI) (auto simp: asks_def intro: foreign_turn foreign_present)

lemma foreign_ensure_firewalld: "triple (foreign env cx e) (ensure_firewalld env cx ow existing) (\<lambda>_. foreign env cx e) (present env e)"
proof (cases "names_entry cx e ow")
  case False
  have add: "triple (foreign env cx e) (add_rich env cx ow) (\<lambda>_. foreign env cx e) (present env e)"
    by (rule add_rich_triple; rule foreign_runs) auto
  show ?thesis
    unfolding ensure_firewalld_def Let_def firewalld_rules_def
    by (intro triple_if triple_stop triple_ret triple_seen_any triple_then [OF foreign_remember [OF False]] triple_then [OF add]
        triple_then [OF foreign_forget] triple_then [OF foreign_asks]) (simp_all add: foreign_present)
next
  case True
  have "triple (\<lambda>w. already \<and> just_noted env cx e ow w)
      (if already then bnd (forget env ow) (\<lambda>_. if ow_priority ow \<noteq> 0 then stop ForeignRule else ret existing) else m)
      (\<lambda>_. foreign env cx e) (present env e)" for already m
  proof (cases already)
    case True
    have "triple (just_noted env cx e ow) (bnd (forget env ow) (\<lambda>_. if ow_priority ow \<noteq> 0 then stop ForeignRule else ret existing))
        (\<lambda>_. foreign env cx e) (present env e)"
      by (intro triple_bnd [OF noted_forget] triple_if triple_stop triple_ret \<open>names_entry cx e ow\<close>) (simp_all add: foreign_present)
    then show ?thesis using True by simp
  qed (simp add: triple_def)
  then have "triple (foreign env cx e) (bnd (remember env ow) (\<lambda>_. bnd (add_rich env cx ow) (\<lambda>already.
      if already then bnd (forget env ow) (\<lambda>_. if ow_priority ow \<noteq> 0 then stop ForeignRule else ret existing) else m)))
      (\<lambda>_. foreign env cx e) (present env e)" for m
    by (rule triple_bnd [OF noted_remember [OF True] triple_bnd [OF noted_add_rich [OF True]]])
  then show ?thesis
    unfolding ensure_firewalld_def Let_def
    by (intro triple_if triple_seen_any) (auto intro!: triple_stop triple_ret foreign_present)
qed

definition none_names :: "fw_ctx \<Rightarrow> string \<times> string \<Rightarrow> owned_rule list \<Rightarrow> bool" where
  "none_names cx e ows = (\<not> list_ex (names_entry cx e) ows)"

lemma foreign_remove_record:
  "triple (\<lambda>w. foreign env cx e w \<and> none_names cx e (ow # rest)) (remove_record env cx wanted manual ufw_rules added fd_active zones ow)
     (\<lambda>_ w. foreign env cx e w \<and> none_names cx e rest) (present env e)"
proof (cases "none_names cx e (ow # rest)")
  case False
  then show ?thesis by (simp add: triple_def)
next
  case True
  have "triple (foreign env cx e) (remove_record env cx wanted manual ufw_rules added fd_active zones ow) (\<lambda>_. foreign env cx e) (present env e)"
  proof (rule triple_remove_record)
    show "triple (foreign env cx e) (remove_ufw env cx ow ufw_rules added) (\<lambda>_. foreign env cx e) (present env e)"
      by (intro triple_remove_ufw foreign_runs foreign_forget) simp_all
    show "triple (foreign env cx e) (firewalld_rules env (ow_zone ow)) (\<lambda>_. foreign env cx e) (present env e)"
      unfolding firewalld_rules_def by (rule foreign_asks)
    show "triple (foreign env cx e) (remove_rich env cx ow) (\<lambda>_. foreign env cx e) (present env e)" if "ow_backend ow = Firewalld"
      unfolding remove_rich_def using True that by (intro foreign_runs) (auto simp: none_names_def names_entry_def rich_key_def)
  qed (simp_all add: foreign_forget foreign_present)
  then show ?thesis using True by (auto simp: none_names_def intro: triple_mono)
qed

interpretation strangers: kept_by_steps env cx "\<lambda>_. True" "foreign env cx e" "present env e" "\<lambda>_ _. True" for env cx e
proof (unfold_locales, goal_cases)
  case 5
  show ?case
  proof (rule tripleI)
    fix w assume "foreign env cx e w"
    then show "case save_firewall env w of (Inr x, w') \<Rightarrow> foreign env cx e w' | (Inl f, w') \<Rightarrow> present env e w'"
      using save_presence [of env e w] by (cases "save_firewall env w"; cases "fst (save_firewall env w)") (auto simp: foreign_def)
  qed
next
  case 14
  show ?case
    by (rule triple_mono [OF triple_scan_rest [where P = "\<lambda>rest w. foreign env cx e w \<and> none_names cx e rest", OF foreign_remove_record]])
      (auto simp: none_names_def foreign_def)
next
  case 8 then show ?case by (simp add: foreign_remember names_entry_def)
next
  case 3 then show ?case by (simp add: foreign_def present_def)
next
  case 4 then show ?case by (simp add: present_def)
qed (simp_all add: foreign_present foreign_turn foreign_forget foreign_runs foreign_ensure_firewalld)

section \<open>Commands of a run\<close>

text \<open>The commands logged after a given log; those that open a port of firewalld open one of the given rules,
  those that close one close none to keep.\<close>

definition within :: "fw_ctx \<Rightarrow> (fw_rule \<Rightarrow> bool) \<Rightarrow> fw_cmd \<Rightarrow> bool" where
  "within cx wants cmd = (case cmd of AddRich ow \<Rightarrow> wants (ow_rule ow) | RemoveRich ow \<Rightarrow> \<not> keep_owned cx (ow_rule ow) | _ \<Rightarrow> True)"

definition within_since :: "fw_ctx \<Rightarrow> (fw_cmd \<times> owned_rule list) list \<Rightarrow> (fw_rule \<Rightarrow> bool) \<Rightarrow> fw_world \<Rightarrow> bool" where
  "within_since cx old wants w \<longleftrightarrow> (\<exists>new. fw_log w = old @ new \<and> (\<forall>(cmd, ows) \<in> set new. within cx wants cmd))"

lemma within_quiet:
  assumes "\<And>w. fw_log (snd (m w)) = fw_log w"
  shows "triple (within_since cx old wants) m (\<lambda>_. within_since cx old wants) (within_since cx old wants)"
proof (rule tripleI)
  fix w assume "within_since cx old wants w"
  then have "within_since cx old wants (snd (m w))" by (simp add: within_since_def assms)
  then show "case m w of (Inr x, w') \<Rightarrow> within_since cx old wants w' | (Inl e, w') \<Rightarrow> within_since cx old wants w'"
    by (auto split: prod.split sum.split)
qed

lemma within_runs:
  assumes "within cx wants cmd" "\<And>w. fw_log (effect w) = fw_log w"
  shows "triple (within_since cx old wants) (runs env cmd effect) (\<lambda>_. within_since cx old wants) (within_since cx old wants)"
proof (rule tripleI)
  fix w assume w: "within_since cx old wants w"
  define w' where "w' = (turn env w)\<lparr>fw_log := fw_log w @ [(cmd, sv_owned (fw_disk w))]\<rparr>"
  obtain new where "fw_log w = old @ new" "\<forall>(cmd, ows) \<in> set new. within cx wants cmd" using w by (auto simp: within_since_def)
  then have "fw_log w' = old @ (new @ [(cmd, sv_owned (fw_disk w))]) \<and> (\<forall>(cmd, ows) \<in> set (new @ [(cmd, sv_owned (fw_disk w))]). within cx wants cmd)"
    using assms(1) by (auto simp: w'_def)
  then have "within_since cx old wants w'" "within_since cx old wants (effect w')"
    unfolding within_since_def assms(2) by blast+
  then show "case runs env cmd effect w of (Inr x, w') \<Rightarrow> within_since cx old wants w' | (Inl e, w') \<Rightarrow> within_since cx old wants w'"
    by (simp add: runs_def Let_def w'_def split: fault.split)
qed

lemma quiet_save [simp]: "fw_log (snd (save_firewall env w)) = fw_log w"
  by (simp add: save_firewall_def Let_def split: fault.split)

lemma quiet_save_owned [simp]: "fw_log (snd (save_owned env ows w)) = fw_log w"
proof -
  have "fw_log (set_owned rs w') = fw_log w'" for rs w' by (simp add: set_owned_def)
  then show ?thesis
    using quiet_save [of env "set_owned ows w"]
    by (cases "save_firewall env (set_owned ows w)"; cases "fst (save_firewall env (set_owned ows w))") (simp_all add: save_owned_def)
qed

lemma quiet_records [simp]: "fw_log (snd (remember env ow w)) = fw_log w" "fw_log (snd (forget env ow w)) = fw_log w"
  by (simp_all add: remember_def forget_def Let_def)

lemma quiet_asks [simp]: "fw_log (snd (asks env g w)) = fw_log w"
  by (simp add: asks_def)

lemma within_ensure_firewalld:
  assumes "wants (ow_rule ow)"
  shows "triple (within_since cx old wants) (ensure_firewalld env cx ow existing) (\<lambda>_. within_since cx old wants) (within_since cx old wants)"
proof -
  let ?safe = "\<lambda>m. triple (within_since cx old wants) m (\<lambda>_. within_since cx old wants) (within_since cx old wants)"
  have "?safe (add_rich env cx ow)"
    by (rule add_rich_triple; rule within_runs) (simp_all add: within_def assms)
  moreover have "?safe (remember env ow)" "?safe (forget env ow)" "?safe (firewalld_rules env (ow_zone ow))"
    by (auto intro: within_quiet simp: firewalld_rules_def)
  ultimately show ?thesis
    unfolding ensure_firewalld_def Let_def by (intro triple_if triple_stop triple_ret triple_seen_any triple_then; blast)
qed

lemma within_remove_record:
  "triple (within_since cx old wants) (remove_record env cx wanted manual ufw_rules added fd_active zones ow) (\<lambda>_. within_since cx old wants) (within_since cx old wants)"
proof (rule triple_remove_record)
  show "triple (within_since cx old wants) (remove_ufw env cx ow ufw_rules added) (\<lambda>_. within_since cx old wants) (within_since cx old wants)"
    by (intro triple_remove_ufw within_runs within_quiet) (simp_all add: within_def)
  show "triple (within_since cx old wants) (remove_rich env cx ow) (\<lambda>_. within_since cx old wants) (within_since cx old wants)"
    if "\<not> keep_owned cx (ow_rule ow)"
    unfolding remove_rich_def by (rule within_runs) (simp_all add: within_def that)
qed (simp_all add: within_quiet firewalld_rules_def)

interpretation withins: kept_by_steps env cx wants "within_since cx old wants" "within_since cx old wants" "\<lambda>_ _. True" for env cx old wants
proof (unfold_locales, goal_cases)
  case (13 ows wanted manual ufw_rules added fd_active zones)
  show ?case by (rule triple_pre [OF triple_scan [OF within_remove_record]]) simp
qed (simp_all add: within_quiet within_runs within_ensure_firewalld within_def, simp_all add: within_since_def)

section \<open>Runs\<close>

definition calm_env :: fw_env where
  "calm_env =
     \<lparr>ev_available = (\<lambda>name. name = ''firewall-cmd''), ev_fault = (\<lambda>t. NoFault), ev_save = (\<lambda>t. NoFault), ev_others = (\<lambda>t live. live),
      ev_ufw = (\<lambda>t. UfwUnclear), ev_ufw_denies = (\<lambda>t. False), ev_firewalld = (\<lambda>t. Some True), ev_active_zones = (\<lambda>t. []),
      ev_default_zone = (\<lambda>t. ''public''), ev_zone_open = (\<lambda>t zone. False), ev_install = (\<lambda>t driver. False)\<rparr>"

definition sample_ctx :: fw_ctx where
  "sample_ctx =
     \<lparr>cx_enabled = True, cx_backend = ''auto'', cx_zone = ''public'', cx_redirect_backend = ''auto'', cx_source_backend = ''auto'', cx_priority = 7, cx_scope = ''scope'',
      cx_digest = id, cx_lib = sample_lib, cx_plans = [(''node'', empty_plan)], cx_recovering = False, cx_protected = []\<rparr>"

definition lone_rule :: fw_rule where
  "lone_rule = \<lparr>fr_family = 4, fr_address = [], fr_source = [], fr_protocol = ''tcp'', fr_ports = \<lparr>rg_from = 5, rg_to = 5\<rparr>, fr_target = 0\<rparr>"

definition lone_state :: "owned_rule list \<Rightarrow> saved_state" where
  "lone_state ows = \<lparr>sv_version = 1, sv_namespace = ''yz-agent'', sv_owned = ows, sv_redirect = [], sv_families = [], sv_source_driver = [], sv_source_plans = []\<rparr>"

definition lone_world :: "owned_rule list \<Rightarrow> (string \<times> string) list \<Rightarrow> fw_world" where
  "lone_world ows live = \<lparr>fw_mem = lone_state ows, fw_disk = lone_state ows, fw_live = live, fw_time = 0, fw_log = []\<rparr>"

definition lone_record :: owned_rule where
  "lone_record = rich_record sample_ctx ''public'' lone_rule"


text \<open>C26. Foreign rules survive. A rich rule that is in a zone before a run, that others leave alone and that no record of this instance names,
  is there after the run, whether it succeeds or stops at any failed command or save. This holds as well when a wanted rule has the
  same text, which the run then finds already present and forgets.
\<close>

theorem foreign_rules_survive:
  assumes "left_alone env e" "e \<in> set (fw_live w)" "\<forall>ow \<in> set (sv_owned (fw_mem w)). ow_backend ow = Firewalld \<longrightarrow> rich_key cx ow \<noteq> e"
    "apply_rules env cx allows redirects w = (r, w')"
  shows "e \<in> set (fw_live w')"
proof -
  have "foreign env cx e w" using assms(1-3) by (auto simp: foreign_def present_def list_ex_iff names_entry_def)
  then have "present env e w'"
    using tripleD [OF strangers.safe_apply_rules [of allows env cx e redirects], of w] assms(4)
    by (cases r) (auto simp: foreign_def)
  then show ?thesis by (simp add: present_def)
qed


lemma foreign_rules_survive_witness:
  "let w = lone_world [lone_record] [(''public'', ''accept''), rich_key sample_ctx lone_record]; (r, w') = apply_rules calm_env sample_ctx [] [] w
   in left_alone calm_env (''public'', ''accept'') \<and> (\<forall>ow \<in> set [lone_record]. ow_backend ow = Firewalld \<longrightarrow> rich_key sample_ctx ow \<noteq> (''public'', ''accept'')) \<and>
      (''public'', ''accept'') \<in> set (fw_live w') \<and> fw_live w' = [(''public'', ''accept'')]"
proof -
  define w where "w = lone_world [lone_record] [(''public'', ''accept''), rich_key sample_ctx lone_record]"
  have l: "left_alone calm_env (''public'', ''accept'')" by (simp add: left_alone_def calm_env_def)
  have e: "(''public'', ''accept'') \<in> set (fw_live w)" by (simp add: w_def lone_world_def)
  have n: "\<forall>ow \<in> set [lone_record]. ow_backend ow = Firewalld \<longrightarrow> rich_key sample_ctx ow \<noteq> (''public'', ''accept'')" by code_simp
  then have "\<forall>ow \<in> set (sv_owned (fw_mem w)). ow_backend ow = Firewalld \<longrightarrow> rich_key sample_ctx ow \<noteq> (''public'', ''accept'')"
    by (simp add: w_def lone_world_def lone_state_def)
  from foreign_rules_survive [OF l e this prod.collapse [symmetric]]
  have "(''public'', ''accept'') \<in> set (fw_live (snd (apply_rules calm_env sample_ctx [] [] w)))" .
  moreover have "fw_live (snd (apply_rules calm_env sample_ctx [] [] w)) = [(''public'', ''accept'')]" unfolding w_def by code_simp
  ultimately show ?thesis using l n by (simp add: w_def case_prod_beta)
qed


end
