(* ===== verification/FirewallManager.thy ===== *)
theory FirewallManager
  imports Firewall "HOL-Library.Sublist"
begin

text \<open>
  Model of the firewall manager shared by all nodes (\<open>internal/firewall/manager.go\<close>, \<open>recovery.go\<close>): the accepted plan of each node, the
  plans that await confirmation, the nodes still to report after a start, and the runs over the backend of theory \<open>Firewall\<close>.
  Operations hold the manager's mutex and so happen one after another; each is a function of the manager and of the world, with the
  error it returns. Shown: accepted plans always combine; a rejected plan changes nothing; ports open for ready nodes only and behind
  their source filter; nothing is closed that a node still to report, or a held plan, may need.
\<close>

section \<open>State\<close>

datatype mg_error =
    ManagerClosed | ManagerDisabled | NeedsLinux | RedirectsNeedLinux | PlanRejected fw_error | AwaitingNodes | BackendFailed fw_fail

text \<open>\<open>mg_backend\<close> is whether there is a backend, \<open>mg_ctx\<close> holds its configuration with what the manager sets in it.\<close>

record fw_manager =
  mg_plans :: "(string, fw_plan) go_map"
  mg_backend :: bool
  mg_enabled :: bool
  mg_linux :: bool
  mg_closed :: bool
  mg_error :: "mg_error option"
  mg_confirm :: "(string, fw_plan) go_map"
  mg_discovery :: "string list"
  mg_expected :: "(string, bool) go_map option"
  mg_ctx :: fw_ctx

type_synonym mg_result = "mg_error option \<times> fw_manager \<times> fw_world"

section \<open>Operations\<close>

definition new_fw_manager :: "fw_env \<Rightarrow> fw_ctx \<Rightarrow> bool \<Rightarrow> fw_world \<Rightarrow> (fw_fail + fw_manager) \<times> fw_world" where
  "new_fw_manager env cx linux w =
     (let m = \<lparr>mg_plans = [], mg_backend = linux, mg_enabled = cx_enabled cx, mg_linux = linux, mg_closed = False, mg_error = None,
               mg_confirm = [], mg_discovery = [], mg_expected = None,
               mg_ctx = cx\<lparr>cx_plans := [], cx_recovering := linux \<and> cx_enabled cx, cx_protected := []\<rparr>\<rparr> in
      if \<not> linux \<or> cx_enabled cx then (Inr m, w)
      else bnd (apply_rules env (mg_ctx m) [] []) (\<lambda>_. bnd (apply_sources env (mg_ctx m) []) (\<lambda>_. ret m)) w)"

definition awaiting_nodes :: "fw_manager \<Rightarrow> bool" where
  "awaiting_nodes m =
     (mg_discovery m \<noteq> [] \<or> (case mg_expected m of None \<Rightarrow> False | Some expected \<Rightarrow> list_ex (\<lambda>(owner, done). \<not> done) expected))"

definition update_protection :: "fw_manager \<Rightarrow> fw_manager" where
  "update_protection m =
     (if \<not> mg_backend m then m
      else m\<lparr>mg_ctx := (mg_ctx m)\<lparr>cx_recovering := awaiting_nodes m, cx_protected := concat (map (fp_listeners \<circ> snd) (mg_confirm m))\<rparr>\<rparr>)"

definition confirm_plan :: "string \<Rightarrow> fw_plan \<Rightarrow> fw_manager \<Rightarrow> fw_manager" where
  "confirm_plan owner plan m = m\<lparr>mg_confirm := AList.update owner plan (mg_confirm m)\<rparr>"

definition begin_discovery :: "string list \<Rightarrow> fw_manager \<Rightarrow> fw_manager" where
  "begin_discovery instances m = update_protection (m\<lparr>mg_discovery := remdups instances, mg_expected := Some []\<rparr>)"

definition node_owner :: "string \<Rightarrow> int \<Rightarrow> string" where
  "node_owner inst n = inst @ ''/node/'' @ itoa n"

definition expect_nodes :: "string \<Rightarrow> int list \<Rightarrow> fw_manager \<Rightarrow> fw_manager" where
  "expect_nodes inst ids m =
     (let expected = (case mg_expected m of None \<Rightarrow> [] | Some expected \<Rightarrow> expected) in
      update_protection
        (m\<lparr>mg_expected := Some (fold (\<lambda>n e. if has_key e (node_owner inst n) then e else AList.update (node_owner inst n) False e) ids expected),
           mg_discovery := removeAll inst (mg_discovery m)\<rparr>))"

definition ready_plans :: "(string, fw_plan) go_map \<Rightarrow> (string, fw_plan) go_map" where
  "ready_plans plans = filter (\<lambda>(owner, plan). fp_ready plan) plans"

definition combined :: "(string, fw_plan) go_map \<Rightarrow> fw_rule list \<times> fw_rule list" where
  "combined plans = (case combine_plans plans of Inl e \<Rightarrow> ([], []) | Inr rules \<Rightarrow> rules)"

text \<open>The run of the backend: tools, then source filters of all plans, then the ports of the ready ones.\<close>

definition backend_run :: "fw_env \<Rightarrow> fw_ctx \<Rightarrow> (string, fw_plan) go_map \<Rightarrow> unit act" where
  "backend_run env cx plans =
     bnd (prepare_source_tools env cx plans) (\<lambda>_. bnd (apply_sources env cx plans) (\<lambda>_.
       apply_rules env cx (fst (combined (ready_plans plans))) (snd (combined (ready_plans plans)))))"

definition reconcile :: "fw_env \<Rightarrow> fw_manager \<Rightarrow> fw_world \<Rightarrow> mg_result" where
  "reconcile env m w =
     (if \<not> mg_backend m then (None, m, w)
      else
        let m = update_protection m in
        case combine_plans (mg_plans m) of
          Inl e \<Rightarrow> (Some (PlanRejected e), m\<lparr>mg_error := Some (PlanRejected e)\<rparr>, w)
        | Inr rules \<Rightarrow>
            let m = m\<lparr>mg_ctx := (mg_ctx m)\<lparr>cx_plans := ready_plans (mg_plans m)\<rparr>\<rparr> in
            (case backend_run env (mg_ctx m) (mg_plans m) w of
               (Inr u, w') \<Rightarrow> (None, m\<lparr>mg_error := None\<rparr>, w')
             | (Inl e, w') \<Rightarrow> (Some (BackendFailed e), m\<lparr>mg_error := Some (BackendFailed e)\<rparr>, w')))"

definition node_reported :: "string \<Rightarrow> fw_manager \<Rightarrow> fw_manager" where
  "node_reported owner m = m\<lparr>mg_expected := map_option (AList.update owner True) (mg_expected m)\<rparr>"

definition release :: "fw_env \<Rightarrow> fw_manager \<Rightarrow> string \<Rightarrow> fw_world \<Rightarrow> mg_result" where
  "release env m owner w =
     (if mg_closed m then (None, m, w)
      else
        let pending = has_key (mg_confirm m) owner; planned = has_key (mg_plans m) owner;
            m = node_reported owner (m\<lparr>mg_confirm := AList.delete owner (mg_confirm m)\<rparr>);
            m = update_protection (m\<lparr>mg_plans := AList.delete owner (mg_plans m)\<rparr>); st = fw_mem w in
        if mg_backend m \<and> (sv_owned st \<noteq> [] \<or> sv_source_driver st \<noteq> [] \<or> sv_redirect st \<noteq> []) then
          (if cx_recovering (mg_ctx m) then (Some AwaitingNodes, m, w) else reconcile env m w)
        else if \<not> planned \<and> mg_error m = None \<and> \<not> pending then (None, m, w)
        else reconcile env m w)"

definition node_manages_firewall :: "fw_node option \<Rightarrow> bool option \<Rightarrow> bool" where
  "node_manages_firewall node auto = (node = None \<or> auto \<noteq> Some False)"

definition pending_key :: "string \<Rightarrow> string" where
  "pending_key owner = ''pending:'' @ owner"

definition candidate_plans :: "fw_manager \<Rightarrow> string \<Rightarrow> fw_plan \<Rightarrow> (string, fw_plan) go_map" where
  "candidate_plans m owner plan =
     fold (\<lambda>(key, held) plans. if key = owner then plans else AList.update (pending_key key) held plans)
       (mg_confirm m) (AList.update owner plan (mg_plans m))"

definition without_pending :: "fw_manager \<Rightarrow> (string, fw_plan) go_map \<Rightarrow> (string, fw_plan) go_map" where
  "without_pending m plans = fold (\<lambda>(key, held). AList.delete (pending_key key)) (mg_confirm m) plans"

text \<open>\<open>Apply\<close> and \<open>Prepare\<close>, which differ in \<open>ready\<close>; \<open>auto\<close> is the node's own switch.\<close>

definition apply_node ::
  "fw_env \<Rightarrow> fw_manager \<Rightarrow> string \<Rightarrow> fw_node option \<Rightarrow> bool option \<Rightarrow> string \<Rightarrow> bool \<Rightarrow> fw_world \<Rightarrow> mg_result" where
  "apply_node env m owner node auto kind ready w =
     (if \<not> node_manages_firewall node auto then release env m owner w
      else if mg_closed m then (Some ManagerClosed, m, w)
      else if \<not> mg_enabled m then
        (if node \<noteq> None \<and> lists_enabled (nd_policy (the node)) then Some ManagerDisabled else None, m, w)
      else
        let planned = plan_for_node (cx_lib (mg_ctx m)) node kind;
            plan = (case planned of Inl e \<Rightarrow> empty_plan | Inr plan \<Rightarrow> plan)\<lparr>fp_ready := ready\<rparr> in
        if fp_restricted plan \<and> (\<not> mg_linux m \<or> \<not> mg_backend m) then (Some NeedsLinux, m, w)
        else
          let m = node_reported owner m in
          case planned of
            Inl e \<Rightarrow> (Some (PlanRejected e), if e = NeedsConfirmation then update_protection (confirm_plan owner plan m) else m, w)
          | Inr _ \<Rightarrow>
              if \<not> mg_linux m \<and> fp_redirects plan \<noteq> [] then (Some RedirectsNeedLinux, m, w)
              else
                let candidate = candidate_plans m owner plan in
                (case combine_plans candidate of
                   Inl e \<Rightarrow> (Some (PlanRejected e), update_protection (confirm_plan owner plan m), w)
                 | Inr rules \<Rightarrow>
                     reconcile env (m\<lparr>mg_plans := without_pending m candidate, mg_confirm := AList.delete owner (mg_confirm m)\<rparr>) w))"

definition close_manager :: "fw_env \<Rightarrow> fw_manager \<Rightarrow> fw_world \<Rightarrow> mg_result" where
  "close_manager env m w =
     (if mg_closed m then (None, m, w)
      else case reconcile env (m\<lparr>mg_plans := [], mg_confirm := [], mg_discovery := [], mg_expected := None\<rparr>) w of
        (err, m', w') \<Rightarrow> (err, m'\<lparr>mg_closed := True\<rparr>, w'))"

section \<open>Reachable managers\<close>

datatype mg_op =
    OpApply string "fw_node option" "bool option" string bool
  | OpRelease string
  | OpTick
  | OpDiscover "string list"
  | OpExpect string "int list"
  | OpClose

text \<open>The timer runs until the manager is closed.\<close>

fun mg_step :: "fw_env \<Rightarrow> mg_op \<Rightarrow> fw_manager \<Rightarrow> fw_world \<Rightarrow> mg_result" where
  "mg_step env (OpApply owner node auto kind ready) m w = apply_node env m owner node auto kind ready w"
| "mg_step env (OpRelease owner) m w = release env m owner w"
| "mg_step env OpTick m w = (if mg_closed m then (None, m, w) else reconcile env m w)"
| "mg_step env (OpDiscover instances) m w = (None, begin_discovery instances m, w)"
| "mg_step env (OpExpect inst ids) m w = (None, expect_nodes inst ids m, w)"
| "mg_step env OpClose m w = close_manager env m w"

inductive mg_reachable :: "fw_env \<Rightarrow> fw_manager \<Rightarrow> fw_world \<Rightarrow> bool" for env where
  start: "new_fw_manager env cx linux w = (Inr m, w') \<Longrightarrow> mg_reachable env m w'"
| step: "mg_reachable env m w \<Longrightarrow> mg_step env op m w = (err, m', w') \<Longrightarrow> mg_reachable env m' w'"

inductive_cases mg_reachableE: "mg_reachable env m w"

section \<open>Accepted plans\<close>

lemma any_clash_subseq: "subseq xs ys \<Longrightarrow> any_clash xs \<Longrightarrow> any_clash ys"
proof (induction rule: list_emb.induct)
  case (list_emb_Cons2 x y xs ys)
  then have "set xs \<subseteq> set ys" by (auto dest: list_emb_set)
  then show ?case using list_emb_Cons2 by (auto simp: list_ex_iff)
qed auto

lemma subseq_concat_map: "subseq xs ys \<Longrightarrow> subseq (concat (map f xs)) (concat (map f ys))"
  by (induction rule: list_emb.induct) (auto intro: list_emb_append_mono subseq_drop_many)

lemma restricted_shared_subset: "set ps \<subseteq> set qs \<Longrightarrow> restricted_shared ps \<Longrightarrow> restricted_shared qs"
  by (fastforce simp: restricted_shared_def list_ex_iff)

lemma combine_subseq:
  assumes "subseq ps qs" "combine_plans qs = Inr r"
  shows "\<exists>r'. combine_plans ps = Inr r'"
proof -
  have "set ps \<subseteq> set qs" using assms(1) by (auto dest: list_emb_set)
  then have "\<not> restricted_shared ps" using assms(2) restricted_shared_subset by (force simp: combine_plans_def split: if_splits)
  moreover have "\<not> any_clash (concat (map (plan_claims \<circ> snd) ps))"
    using any_clash_subseq [OF subseq_concat_map [OF assms(1)], of "plan_claims \<circ> snd"] assms(2) by (auto simp: combine_plans_def split: if_splits)
  ultimately show ?thesis by (simp add: combine_plans_def)
qed

lemma subseq_delete: "subseq (AList.delete k m) m"
  by (simp add: AList.delete_eq)

lemma subseq_without_pending: "subseq (without_pending m plans) plans"
proof -
  have "subseq (fold (\<lambda>(key, held). AList.delete (pending_key key)) xs plans) plans" for xs :: "(string, fw_plan) go_map"
    by (induction xs arbitrary: plans) (auto intro: subseq_order.trans subseq_delete)
  then show ?thesis by (simp add: without_pending_def)
qed

definition agree :: "(string, fw_plan) go_map \<Rightarrow> bool" where
  "agree plans \<longleftrightarrow> (\<exists>rules. combine_plans plans = Inr rules)"

lemma agree_subseq: "agree qs \<Longrightarrow> subseq ps qs \<Longrightarrow> agree ps"
  unfolding agree_def using combine_subseq by blast

lemma agree_parts [intro]:
  "agree plans \<Longrightarrow> agree (ready_plans plans)" "agree plans \<Longrightarrow> agree (AList.delete k plans)" "agree plans \<Longrightarrow> agree (without_pending m plans)"
  by (auto intro: agree_subseq subseq_delete subseq_without_pending simp: ready_plans_def)

lemma agree_Inr [intro]: "combine_plans plans = Inr rules \<Longrightarrow> agree plans"
  by (simp add: agree_def)

lemma agree_Nil [simp]: "agree []"
  by (simp add: agree_def combine_plans_def restricted_shared_def)

lemma protection_fields [simp]:
  "mg_plans (update_protection m) = mg_plans m" "mg_confirm (update_protection m) = mg_confirm m" "mg_closed (update_protection m) = mg_closed m"
  "mg_backend (update_protection m) = mg_backend m" "mg_discovery (update_protection m) = mg_discovery m" "mg_expected (update_protection m) = mg_expected m"
  "mg_enabled (update_protection m) = mg_enabled m" "mg_linux (update_protection m) = mg_linux m"
  by (simp_all add: update_protection_def)

lemma reconcile_fields:
  assumes "reconcile env m w = (err, m', w')"
  shows "mg_plans m' = mg_plans m" "mg_confirm m' = mg_confirm m" "mg_closed m' = mg_closed m" "mg_backend m' = mg_backend m"
    "mg_discovery m' = mg_discovery m" "mg_expected m' = mg_expected m"
  using assms by (auto simp: reconcile_def Let_def split: if_splits sum.splits prod.splits)

lemma reported_fields [simp]:
  "mg_plans (node_reported owner m) = mg_plans m" "mg_confirm (node_reported owner m) = mg_confirm m" "mg_closed (node_reported owner m) = mg_closed m"
  "mg_backend (node_reported owner m) = mg_backend m" "mg_discovery (node_reported owner m) = mg_discovery m"
  "mg_enabled (node_reported owner m) = mg_enabled m" "mg_linux (node_reported owner m) = mg_linux m" "mg_ctx (node_reported owner m) = mg_ctx m"
  by (simp_all add: node_reported_def)

lemma confirm_fields [simp]:
  "mg_plans (confirm_plan owner plan m) = mg_plans m" "mg_backend (confirm_plan owner plan m) = mg_backend m"
  "mg_confirm (confirm_plan owner plan m) = AList.update owner plan (mg_confirm m)"
  by (simp_all add: confirm_plan_def)

definition dropped :: "string \<Rightarrow> fw_manager \<Rightarrow> fw_manager" where
  "dropped owner m =
     update_protection ((node_reported owner (m\<lparr>mg_confirm := AList.delete owner (mg_confirm m)\<rparr>))\<lparr>mg_plans := AList.delete owner (mg_plans m)\<rparr>)"

lemma release_result:
  assumes "release env m owner w = (err, m', w')"
  shows "err \<in> {None, Some AwaitingNodes} \<and> (m' = m \<or> m' = dropped owner m) \<and> w' = w \<or> reconcile env (dropped owner m) w = (err, m', w')"
  using assms unfolding release_def Let_def dropped_def [symmetric] by (auto simp: dropped_def split: if_splits)

lemma dropped_fields [simp]:
  "mg_plans (dropped owner m) = AList.delete owner (mg_plans m)" "mg_enabled (dropped owner m) = mg_enabled m"
  "mg_closed (dropped owner m) = mg_closed m" "mg_confirm (dropped owner m) = AList.delete owner (mg_confirm m)"
  by (simp_all add: dropped_def)

lemma release_agrees: "agree (mg_plans m) \<Longrightarrow> release env m owner w = (err, m', w') \<Longrightarrow> agree (mg_plans m')"
  using release_result [of env m owner w err m' w'] reconcile_fields(1) [of env "dropped owner m" w err m' w'] by auto

text \<open>Either nothing is planned anew and no command runs, or the combined candidate is reconciled.\<close>

definition adopt :: "string \<Rightarrow> fw_plan \<Rightarrow> fw_manager \<Rightarrow> fw_manager" where
  "adopt owner plan m =
     (node_reported owner m)\<lparr>mg_plans := without_pending m (candidate_plans m owner plan), mg_confirm := AList.delete owner (mg_confirm m)\<rparr>"

lemma pending_reported [simp]: "without_pending (node_reported owner m) = without_pending m" "candidate_plans (node_reported owner m) = candidate_plans m"
  by (simp_all add: fun_eq_iff without_pending_def candidate_plans_def)

lemma apply_node_result:
  assumes "node_manages_firewall node auto" "apply_node env m owner node auto kind ready w = (err, m', w')"
  shows "mg_plans m' = mg_plans m \<and> w' = w \<or>
    (\<exists>plan rules. plan_for_node (cx_lib (mg_ctx m)) node kind = Inr plan \<and>
      combine_plans (candidate_plans m owner (plan\<lparr>fp_ready := ready\<rparr>)) = Inr rules \<and>
      reconcile env (adopt owner (plan\<lparr>fp_ready := ready\<rparr>) m) w = (err, m', w'))"
  using assms by (auto simp: apply_node_def adopt_def Let_def split: if_splits sum.splits)

lemma apply_agrees:
  assumes "agree (mg_plans m)" "apply_node env m owner node auto kind ready w = (err, m', w')"
  shows "agree (mg_plans m')"
proof (cases "node_manages_firewall node auto")
  case False
  then show ?thesis using assms release_agrees by (simp add: apply_node_def)
next
  case True
  from apply_node_result [OF this assms(2)] show ?thesis
  proof
    assume "\<exists>plan rules. plan_for_node (cx_lib (mg_ctx m)) node kind = Inr plan \<and>
      combine_plans (candidate_plans m owner (plan\<lparr>fp_ready := ready\<rparr>)) = Inr rules \<and>
      reconcile env (adopt owner (plan\<lparr>fp_ready := ready\<rparr>) m) w = (err, m', w')"
    then obtain plan rules where "combine_plans (candidate_plans m owner plan) = Inr rules" "reconcile env (adopt owner plan m) w = (err, m', w')"
      by blast
    then have "agree (candidate_plans m owner plan)" "mg_plans m' = without_pending m (candidate_plans m owner plan)"
      by (auto simp: adopt_def dest: reconcile_fields(1))
    then show ?thesis by auto
  qed (use assms(1) in simp)
qed

lemma step_agrees:
  assumes "agree (mg_plans m)" "mg_step env op m w = (err, m', w')"
  shows "agree (mg_plans m')"
proof (cases op)
  case OpClose
  then show ?thesis
    using assms by (auto simp: close_manager_def split: if_splits prod.splits dest!: reconcile_fields(1))
qed (use assms in \<open>auto simp: begin_discovery_def expect_nodes_def Let_def split: if_splits intro: apply_agrees release_agrees dest: reconcile_fields(1)\<close>)

lemma new_plans: "new_fw_manager env cx linux w = (Inr m, w') \<Longrightarrow> mg_plans m = [] \<and> mg_confirm m = []"
  by (auto simp: new_fw_manager_def Let_def bnd_def ret_def split: if_splits prod.splits sum.splits)

lemma reachable_agrees: "mg_reachable env m w \<Longrightarrow> agree (mg_plans m)"
  by (induction rule: mg_reachable.induct) (auto intro: step_agrees dest: new_plans)

section \<open>What a run may do\<close>

text \<open>A port is opened for a ready plan only; none is closed while nodes are still to report, nor one a held plan needs.\<close>

definition justified :: "fw_manager \<Rightarrow> fw_cmd \<Rightarrow> bool" where
  "justified m cmd =
     (case cmd of
        AddRich ow \<Rightarrow> ow_rule ow \<in> set (fst (combined (ready_plans (mg_plans m))))
      | RemoveRich ow \<Rightarrow> \<not> awaiting_nodes m \<and> list_all (\<lambda>(owner, held). \<not> overlap_any (ow_rule ow) (fp_listeners held)) (mg_confirm m)
      | _ \<Rightarrow> True)"

definition justified_since :: "(fw_cmd \<times> owned_rule list) list \<Rightarrow> fw_manager \<Rightarrow> fw_world \<Rightarrow> bool" where
  "justified_since old m w \<longleftrightarrow> (\<exists>new. fw_log w = old @ new \<and> (\<forall>(cmd, ows) \<in> set new. justified m cmd))"

lemma rules_overlap_sym: "rules_overlap a b = rules_overlap b a"
  by (auto simp: rules_overlap_def same_address_def range_overlaps_def)

definition run_ctx :: "fw_manager \<Rightarrow> fw_ctx" where
  "run_ctx m = (mg_ctx (update_protection m))\<lparr>cx_plans := ready_plans (mg_plans m)\<rparr>"

lemma reconcile_runs:
  assumes "reconcile env m w = (err, m', w')" "mg_backend m" "agree (mg_plans m)"
  shows "\<exists>r. backend_run env (run_ctx m) (mg_plans m) w = (r, w')"
proof -
  obtain rules where "combine_plans (mg_plans m) = Inr rules" using assms(3) by (auto simp: agree_def)
  then have "snd (snd (reconcile env m w)) = snd (backend_run env (run_ctx m) (mg_plans m) w)"
    using assms(2) by (simp add: reconcile_def Let_def run_ctx_def split: sum.split prod.split)
  then show ?thesis using assms(1) by (cases "backend_run env (run_ctx m) (mg_plans m) w") simp
qed

lemma reconcile_idle:
  assumes "reconcile env m w = (err, m', w')" "\<not> (mg_backend m \<and> agree (mg_plans m))"
  shows "w' = w"
  using assms by (auto simp: reconcile_def Let_def agree_def split: if_splits sum.splits)

lemma triple_after:
  assumes "triple P m (\<lambda>_. S) S" "P w" "m w = (r, w')"
  shows "S w'"
  using tripleD [OF assms(1,2)] assms(3) by (cases r) auto

lemma within_backend_run:
  "triple (within_since cx old (\<lambda>r. r \<in> set (fst (combined (ready_plans plans))))) (backend_run env cx plans)
     (\<lambda>_. within_since cx old (\<lambda>r. r \<in> set (fst (combined (ready_plans plans)))))
     (within_since cx old (\<lambda>r. r \<in> set (fst (combined (ready_plans plans)))))"
  unfolding backend_run_def
  by (intro triple_then withins.safe_prepare_source_tools withins.safe_apply_sources withins.safe_apply_rules) simp

lemma within_justified:
  assumes "within (mg_ctx m) (\<lambda>r. r \<in> set (fst (combined (ready_plans (mg_plans m))))) cmd"
    "cx_recovering (mg_ctx m) = awaiting_nodes m" "cx_protected (mg_ctx m) = concat (map (fp_listeners \<circ> snd) (mg_confirm m))"
  shows "justified m cmd"
  using assms
  by (fastforce simp: within_def justified_def keep_owned_def list_ex_iff list_all_iff overlap_any_def rules_overlap_sym split: fw_cmd.splits)

lemma justified_cong:
  "mg_plans m' = mg_plans m \<Longrightarrow> mg_confirm m' = mg_confirm m \<Longrightarrow> mg_discovery m' = mg_discovery m \<Longrightarrow> mg_expected m' = mg_expected m \<Longrightarrow>
   justified m' = justified m"
  by (simp add: fun_eq_iff justified_def awaiting_nodes_def split: fw_cmd.split)

lemma reconcile_justified:
  assumes "reconcile env m w = (err, m', w')"
  shows "justified_since (fw_log w) m' w'"
proof (cases "mg_backend m \<and> agree (mg_plans m)")
  case False
  then show ?thesis using reconcile_idle [OF assms] by (simp add: justified_since_def)
next
  case True
  define m1 where "m1 = (update_protection m)\<lparr>mg_ctx := run_ctx m\<rparr>"
  let ?wants = "\<lambda>r. r \<in> set (fst (combined (ready_plans (mg_plans m))))"
  obtain r where r: "backend_run env (run_ctx m) (mg_plans m) w = (r, w')" using reconcile_runs [OF assms] True by blast
  have start: "within_since (run_ctx m) (fw_log w) ?wants w" by (simp add: within_since_def)
  have "within_since (run_ctx m) (fw_log w) ?wants w'" by (rule triple_after [OF within_backend_run start r])
  then obtain new where new: "fw_log w' = fw_log w @ new" "\<forall>(cmd, ows) \<in> set new. within (run_ctx m) ?wants cmd"
    by (auto simp: within_since_def)
  have "justified m1 cmd" if "within (run_ctx m) ?wants cmd" for cmd
    using that True by (intro within_justified) (simp_all add: m1_def run_ctx_def update_protection_def awaiting_nodes_def)
  moreover have "justified m' = justified m1"
    using reconcile_fields [OF assms] by (intro justified_cong) (simp_all add: m1_def)
  ultimately show ?thesis using new unfolding justified_since_def by (metis (no_types, lifting) case_prod_beta)
qed

lemma justified_since_refl [simp]: "justified_since (fw_log w) m w"
  by (simp add: justified_since_def)

lemma justified_closed [simp]: "justified_since old (m\<lparr>mg_closed := b\<rparr>) w = justified_since old m w"
  by (simp add: justified_since_def justified_cong [of "m\<lparr>mg_closed := b\<rparr>" m])

lemma release_justified: "release env m owner w = (err, m', w') \<Longrightarrow> justified_since (fw_log w) m' w'"
  using release_result [of env m owner w err m' w'] by (auto dest: reconcile_justified)

lemma apply_justified:
  assumes "apply_node env m owner node auto kind ready w = (err, m', w')"
  shows "justified_since (fw_log w) m' w'"
proof (cases "node_manages_firewall node auto")
  case False
  then show ?thesis using assms release_justified by (simp add: apply_node_def)
next
  case True
  from apply_node_result [OF this assms] show ?thesis by (auto dest: reconcile_justified)
qed

lemma step_justified:
  assumes "mg_step env op m w = (err, m', w')"
  shows "justified_since (fw_log w) m' w'"
proof (cases op)
  case OpClose
  then show ?thesis
    using assms by (auto simp: close_manager_def split: if_splits prod.splits dest: reconcile_justified)
qed (use assms in \<open>auto split: if_splits dest: apply_justified release_justified reconcile_justified\<close>)

section \<open>Filters come first\<close>

text \<open>The commands since a given log open nothing, but set the source filters of all restricted plans.\<close>

definition filters :: "(string, fw_plan) go_map \<Rightarrow> source_plan list \<Rightarrow> bool" where
  "filters plans sos =
     list_all (\<lambda>(owner, plan). fp_restricted plan \<longrightarrow> \<lparr>so_owner = owner, so_listeners = fp_listeners plan, so_blocked = fp_blocked plan\<rparr> \<in> set sos) plans"

definition filtered_since :: "fw_ctx \<Rightarrow> (fw_cmd \<times> owned_rule list) list \<Rightarrow> (string, fw_plan) go_map \<Rightarrow> fw_world \<Rightarrow> bool" where
  "filtered_since cx old plans w \<longleftrightarrow> within_since cx old (\<lambda>_. False) w \<and>
     (list_ex (\<lambda>(owner, plan). fp_restricted plan) plans \<longrightarrow>
       (\<exists>driver sos ows. (SyncSources driver sos, ows) \<in> set (drop (length old) (fw_log w)) \<and> filters plans sos))"

lemma select_gives_name:
  assumes "\<And>w. I w \<Longrightarrow> I (turn env w)"
  shows "triple I (select_source_driver env cx) (\<lambda>driver w. I w \<and> driver \<noteq> []) I"
proof -
  have asks: "triple I (asks env g) (\<lambda>_. I) I" for g :: "nat \<Rightarrow> fw_world \<Rightarrow> ufw_status"
    by (rule tripleI) (simp add: asks_def assms)
  have "triple I (ask_firewalld env) (\<lambda>_. I) I"
    by (rule tripleI) (auto simp: ask_firewalld_def stop_def ret_def assms split: option.split)
  then have "triple I (check_source_environment env) (\<lambda>_. I) I"
    unfolding check_source_environment_def
    by (intro triple_then triple_if triple_ret triple_stop asks) (auto split: ufw_status.split intro!: triple_ret triple_stop)
  then show ?thesis
    unfolding select_source_driver_def by (intro triple_if triple_stop triple_ret triple_then) auto
qed

lemma wanted_filters:
  assumes "cx_enabled cx"
  shows "filters plans (wanted_sources cx plans old)"
    and "list_ex (\<lambda>(owner, plan). fp_restricted plan) plans \<Longrightarrow> wanted_sources cx plans old \<noteq> []"
proof -
  have mem: "\<lparr>so_owner = owner, so_listeners = fp_listeners plan, so_blocked = fp_blocked plan\<rparr> \<in> set (wanted_sources cx plans old)"
    if "(owner, plan) \<in> set plans" "fp_restricted plan" for owner plan
    using that assms by (force simp: wanted_sources_def image_iff)
  then show "filters plans (wanted_sources cx plans old)" by (auto simp: filters_def list_all_iff)
  show "list_ex (\<lambda>(owner, plan). fp_restricted plan) plans \<Longrightarrow> wanted_sources cx plans old \<noteq> []"
    using mem by (fastforce simp: list_ex_iff)
qed

lemma sync_filters:
  assumes "filters plans sos"
  shows "triple (within_since cx old (\<lambda>_. False)) (runs env (SyncSources driver sos) (\<lambda>w. w)) (\<lambda>_. filtered_since cx old plans) (\<lambda>_. True)"
proof (rule tripleI)
  fix w assume w: "within_since cx old (\<lambda>_. False) w"
  define w' where "w' = (turn env w)\<lparr>fw_log := fw_log w @ [(SyncSources driver sos, sv_owned (fw_disk w))]\<rparr>"
  have "filtered_since cx old plans w'"
    using w assms unfolding filtered_since_def within_since_def w'_def by (fastforce simp: within_def)
  then show "case runs env (SyncSources driver sos) (\<lambda>w. w) w of (Inr x, w') \<Rightarrow> filtered_since cx old plans w' | (Inl e, w') \<Rightarrow> True"
    by (simp add: runs_def Let_def w'_def split: fault.split)
qed

lemma filtered_quiet:
  assumes "\<And>w. fw_log (snd (m w)) = fw_log w"
  shows "triple (filtered_since cx old plans) m (\<lambda>_. filtered_since cx old plans) (\<lambda>_. True)"
proof (rule tripleI)
  fix w assume "filtered_since cx old plans w"
  then have "filtered_since cx old plans (snd (m w))" by (simp add: filtered_since_def within_since_def assms)
  then show "case m w of (Inr x, w') \<Rightarrow> filtered_since cx old plans w' | (Inl e, w') \<Rightarrow> True"
    by (auto split: prod.split sum.split)
qed

lemma triple_any_error: "triple P m Q E \<Longrightarrow> triple P m Q (\<lambda>_. True)"
  by (erule triple_mono) simp_all

lemma apply_sources_filters:
  assumes "cx_enabled cx"
  shows "triple (within_since cx old (\<lambda>_. False)) (apply_sources env cx plans) (\<lambda>_. filtered_since cx old plans) (\<lambda>_. True)"
  unfolding apply_sources_def Let_def
proof (rule triple_seen_any)
  fix st
  let ?W = "within_since cx old (\<lambda>_. False)" and ?sos = "wanted_sources cx plans (sv_source_plans st)"
  let ?named = "\<lambda>driver w. ?W w \<and> (driver = [] \<longrightarrow> ?sos = [])"
  have quiet: "fw_log (snd (set_sources driver sos w)) = fw_log w" for driver sos w by (simp add: set_sources_def)
  have saved: "triple (\<lambda>w. ?W w \<and> driver \<noteq> []) (bnd (set_sources driver sos) (\<lambda>_. bnd (save_firewall env) (\<lambda>_. ret driver))) ?named (\<lambda>_. True)"
    for driver sos
    by (cases "driver = []")
      (auto simp: triple_def [of "\<lambda>_. False"] intro!: triple_any_error [OF triple_bnd [OF within_quiet [OF quiet] triple_bnd [OF within_quiet [OF quiet_save] triple_ret]]])
  have turn: "?W w \<Longrightarrow> ?W (turn env w)" for w by (simp add: within_since_def)
  show "triple ?W
      (bnd (if ?sos \<noteq> [] \<and> sv_source_driver st = []
            then bnd (select_source_driver env cx) (\<lambda>driver. bnd (set_sources driver (sv_source_plans st)) (\<lambda>_. bnd (save_firewall env) (\<lambda>_. ret driver)))
            else ret (sv_source_driver st))
        (\<lambda>driver. if driver = [] then ret ()
           else bnd (runs env (SyncSources driver ?sos) (\<lambda>w. w)) (\<lambda>_.
             if ?sos \<noteq> [] \<and> sv_source_plans st = ?sos then ret ()
             else bnd (set_sources (if ?sos = [] then [] else driver) ?sos) (\<lambda>_. save_firewall env))))
      (\<lambda>_. filtered_since cx old plans) (\<lambda>_. True)"
  proof (rule triple_bnd [where R = ?named], rule triple_if)
    show "triple ?W (bnd (select_source_driver env cx) (\<lambda>driver. bnd (set_sources driver (sv_source_plans st)) (\<lambda>_. bnd (save_firewall env) (\<lambda>_. ret driver))))
        ?named (\<lambda>_. True)"
      by (rule triple_bnd [OF triple_any_error [OF select_gives_name [where I = ?W, OF turn]] saved])
    show "triple ?W (ret (sv_source_driver st)) ?named (\<lambda>_. True)" if "\<not> (?sos \<noteq> [] \<and> sv_source_driver st = [])"
      using that by (intro triple_ret) auto
    fix driver
    have none: "\<not> list_ex (\<lambda>(owner, plan). fp_restricted plan) plans" if "?sos = []" using wanted_filters(2) [OF assms] that by blast
    show "triple (?named driver) (if driver = [] then ret ()
           else bnd (runs env (SyncSources driver ?sos) (\<lambda>w. w)) (\<lambda>_.
             if ?sos \<noteq> [] \<and> sv_source_plans st = ?sos then ret ()
             else bnd (set_sources (if ?sos = [] then [] else driver) ?sos) (\<lambda>_. save_firewall env))) (\<lambda>_. filtered_since cx old plans) (\<lambda>_. True)"
    proof (rule triple_if)
      show "triple (?named driver) (ret ()) (\<lambda>_. filtered_since cx old plans) (\<lambda>_. True)" if "driver = []"
        using that none by (intro triple_ret) (auto simp: filtered_since_def)
      have "triple ?W (bnd (runs env (SyncSources driver ?sos) (\<lambda>w. w)) (\<lambda>_.
             if ?sos \<noteq> [] \<and> sv_source_plans st = ?sos then ret ()
             else bnd (set_sources (if ?sos = [] then [] else driver) ?sos) (\<lambda>_. save_firewall env))) (\<lambda>_. filtered_since cx old plans) (\<lambda>_. True)"
        by (intro triple_bnd [OF sync_filters [OF wanted_filters(1) [OF assms]]] triple_if triple_ret triple_bnd [OF filtered_quiet [OF quiet]] filtered_quiet) simp_all
      then show "triple (?named driver) (bnd (runs env (SyncSources driver ?sos) (\<lambda>w. w)) (\<lambda>_.
             if ?sos \<noteq> [] \<and> sv_source_plans st = ?sos then ret ()
             else bnd (set_sources (if ?sos = [] then [] else driver) ?sos) (\<lambda>_. save_firewall env))) (\<lambda>_. filtered_since cx old plans) (\<lambda>_. True)"
        by (rule triple_pre) simp
    qed
  qed
qed

lemma sources_triple:
  "triple (within_since cx old (\<lambda>_. False)) (bnd (prepare_source_tools env cx plans) (\<lambda>_. apply_sources env cx plans))
     (\<lambda>_. within_since cx old (\<lambda>_. False)) (within_since cx old (\<lambda>_. False))"
  "cx_enabled cx \<Longrightarrow> triple (within_since cx old (\<lambda>_. False)) (bnd (prepare_source_tools env cx plans) (\<lambda>_. apply_sources env cx plans))
     (\<lambda>_. filtered_since cx old plans) (\<lambda>_. True)"
  by (intro triple_then withins.safe_prepare_source_tools withins.safe_apply_sources)
    (intro triple_bnd [OF triple_any_error [OF withins.safe_prepare_source_tools]] apply_sources_filters)

lemma bnd_assoc: "bnd m (\<lambda>x. bnd (f x) g) = bnd (bnd m f) g"
  by (rule ext) (simp add: bnd_def split: prod.split sum.split)

lemma no_opening:
  assumes "\<forall>(cmd, ows) \<in> set new. within cx (\<lambda>_. False) cmd" "new @ rest = a @ (AddRich ow, ows) # b"
  shows "\<exists>a'. a = new @ a'"
proof -
  have "(AddRich ow, ows) \<notin> set new" using assms(1) by (auto simp: within_def)
  moreover from assms(2) have "(\<exists>us. new = a @ us \<and> us @ rest = (AddRich ow, ows) # b) \<or> (\<exists>us. a = new @ us)"
    by (auto simp: append_eq_append_conv2)
  ultimately show ?thesis by (auto simp: append_eq_Cons_conv)
qed

text \<open>In a run of the backend, whatever comes of it, the filters of all restricted plans are set before a port opens.\<close>

lemma backend_run_filters:
  assumes run: "backend_run env cx plans w = (r, w')" and on: "cx_enabled cx"
    and log: "fw_log w' = fw_log w @ a @ (AddRich ow, ows) # b" and plan: "(owner, plan) \<in> set plans" "fp_restricted plan"
  shows "\<exists>driver sos ows'. (SyncSources driver sos, ows') \<in> set a \<and> \<lparr>so_owner = owner, so_listeners = fp_listeners plan, so_blocked = fp_blocked plan\<rparr> \<in> set sos"
proof -
  let ?first = "bnd (prepare_source_tools env cx plans) (\<lambda>_. apply_sources env cx plans)"
  let ?rest = "apply_rules env cx (fst (combined (ready_plans plans))) (snd (combined (ready_plans plans)))"
  have start: "within_since cx (fw_log w) (\<lambda>_. False) w" by (simp add: within_since_def)
  have all: "backend_run env cx plans = bnd ?first (\<lambda>_. ?rest)" unfolding backend_run_def by (simp add: bnd_assoc)
  obtain r1 w1 where first: "?first w = (r1, w1)" by (cases "?first w")
  have "within_since cx (fw_log w) (\<lambda>_. False) w1" by (rule triple_after [OF sources_triple(1) start first])
  then obtain new where new: "fw_log w1 = fw_log w @ new" "\<forall>(cmd, ows) \<in> set new. within cx (\<lambda>_. False) cmd"
    by (auto simp: within_since_def)
  show ?thesis
  proof (cases r1)
    case (Inl e)
    then have "w' = w1" using run first by (simp add: all bnd_def)
    then have "new @ [] = a @ (AddRich ow, ows) # b" using log new(1) by simp
    from no_opening [OF new(2) this] show ?thesis using \<open>new @ [] = _\<close> by auto
  next
    case (Inr u)
    have rest: "?rest w1 = (r, w')" using run first Inr by (simp add: all bnd_def)
    have "within_since cx (fw_log w1) (\<lambda>_. True) w1" by (simp add: within_since_def)
    from triple_after [OF withins.safe_apply_rules this rest] obtain new2 where "fw_log w' = fw_log w1 @ new2" by (auto simp: within_since_def)
    then have "new @ new2 = a @ (AddRich ow, ows) # b" using log new(1) by simp
    from no_opening [OF new(2) this] obtain a' where a: "a = new @ a'" by blast
    have "filtered_since cx (fw_log w) plans w1" by (rule tripleD(1) [OF sources_triple(2) [OF on] start first [unfolded Inr]])
    moreover have "list_ex (\<lambda>(owner, plan). fp_restricted plan) plans" using plan by (force simp: list_ex_iff)
    ultimately obtain driver sos ows' where "(SyncSources driver sos, ows') \<in> set new" "filters plans sos"
      by (auto simp: filtered_since_def new(1))
    then show ?thesis using plan a by (fastforce simp: filters_def list_all_iff)
  qed
qed

definition switch_ok :: "fw_manager \<Rightarrow> bool" where
  "switch_ok m \<longleftrightarrow> mg_enabled m = cx_enabled (mg_ctx m) \<and> (\<not> mg_enabled m \<longrightarrow> mg_plans m = [])"

lemma reconcile_filters:
  assumes "reconcile env m w = (err, m', w')" "switch_ok m" "fw_log w' = fw_log w @ a @ (AddRich ow, ows) # b"
    "(owner, plan) \<in> set (mg_plans m')" "fp_restricted plan"
  shows "\<exists>driver sos ows'. (SyncSources driver sos, ows') \<in> set a \<and> \<lparr>so_owner = owner, so_listeners = fp_listeners plan, so_blocked = fp_blocked plan\<rparr> \<in> set sos"
proof (cases "mg_backend m \<and> agree (mg_plans m)")
  case False
  then show ?thesis using reconcile_idle [OF assms(1)] assms(3) by simp
next
  case True
  then obtain r where r: "backend_run env (run_ctx m) (mg_plans m) w = (r, w')" using reconcile_runs [OF assms(1)] by blast
  have plans: "(owner, plan) \<in> set (mg_plans m)" using assms(4) reconcile_fields(1) [OF assms(1)] by simp
  then have "cx_enabled (run_ctx m)" using assms(2) by (auto simp: switch_ok_def run_ctx_def update_protection_def)
  from backend_run_filters [OF r this assms(3) plans assms(5)] show ?thesis .
qed

lemma switch_protection [simp]: "cx_enabled (mg_ctx (update_protection m)) = cx_enabled (mg_ctx m)"
  by (simp add: update_protection_def)

lemma reconcile_switch: "reconcile env m w = (err, m', w') \<Longrightarrow> mg_enabled m' = mg_enabled m \<and> cx_enabled (mg_ctx m') = cx_enabled (mg_ctx m)"
  by (auto simp: reconcile_def Let_def split: if_splits sum.splits prod.splits)

lemma switch_reconcile: "switch_ok m \<Longrightarrow> reconcile env m w = (err, m', w') \<Longrightarrow> switch_ok m'"
  using reconcile_switch [of env m w err m' w'] reconcile_fields(1) [of env m w err m' w'] by (auto simp: switch_ok_def)

lemma switch_dropped: "switch_ok m \<Longrightarrow> switch_ok (dropped owner m)"
  by (auto simp: switch_ok_def dropped_def)

lemma release_switch: "switch_ok m \<Longrightarrow> release env m owner w = (err, m', w') \<Longrightarrow> switch_ok m'"
  using release_result [of env m owner w err m' w'] switch_dropped [of m owner] by (auto intro: switch_reconcile)

lemma apply_switch:
  assumes "switch_ok m" "apply_node env m owner node auto kind ready w = (err, m', w')"
  shows "switch_ok m'"
proof (cases "node_manages_firewall node auto \<and> mg_enabled m")
  case False
  then show ?thesis using assms release_switch by (auto simp: apply_node_def split: if_splits)
next
  case True
  then have "switch_ok (adopt owner plan m)" for plan using assms(1) by (simp add: switch_ok_def adopt_def)
  then have "reconcile env (adopt owner plan m) w = (err, m', w') \<Longrightarrow> switch_ok m'" for plan using switch_reconcile by blast
  then show ?thesis
    using assms True by (auto simp: apply_node_def adopt_def Let_def switch_ok_def confirm_plan_def split: if_splits sum.splits)
qed

lemma step_switch:
  assumes "switch_ok m" "mg_step env op m w = (err, m', w')"
  shows "switch_ok m'"
proof (cases op)
  case OpClose
  have "switch_ok (m\<lparr>mg_plans := [], mg_confirm := [], mg_discovery := [], mg_expected := None\<rparr>)" using assms(1) by (simp add: switch_ok_def)
  from switch_reconcile [OF this] show ?thesis
    using OpClose assms by (auto simp: close_manager_def switch_ok_def split: if_splits prod.splits)
next
  case OpTick
  then show ?thesis using assms by (auto split: if_splits intro: switch_reconcile)
next
  case (OpDiscover instances)
  then show ?thesis using assms by (auto simp: switch_ok_def begin_discovery_def)
next
  case (OpExpect inst ids)
  then show ?thesis using assms by (auto simp: switch_ok_def expect_nodes_def Let_def)
qed (use assms in \<open>auto intro: apply_switch release_switch\<close>)

lemma new_switch: "new_fw_manager env cx linux w = (Inr m, w') \<Longrightarrow> switch_ok m"
  by (auto simp: new_fw_manager_def Let_def bnd_def ret_def switch_ok_def split: if_splits prod.splits sum.splits)

lemma reachable_switch: "mg_reachable env m w \<Longrightarrow> switch_ok m"
  by (induction rule: mg_reachable.induct) (auto intro: step_switch dest: new_switch)

lemma step_runs:
  assumes "switch_ok m" "mg_step env op m w = (err, m', w')" "w' \<noteq> w"
  shows "\<exists>m1 m2. switch_ok m1 \<and> reconcile env m1 w = (err, m2, w') \<and> mg_plans m' = mg_plans m2"
proof -
  have rel: "\<exists>m1 m2. switch_ok m1 \<and> reconcile env m1 w = (err, m2, w') \<and> mg_plans m' = mg_plans m2"
    if "release env m owner w = (err, m', w')" for owner
    using release_result [OF that] switch_dropped [OF assms(1)] assms(3) by auto
  show ?thesis
  proof (cases op)
    case (OpApply owner node auto kind ready)
    then have run: "apply_node env m owner node auto kind ready w = (err, m', w')" using assms(2) by simp
    show ?thesis
    proof (cases "node_manages_firewall node auto \<and> mg_enabled m")
      case True
      from apply_node_result [OF conjunct1 [OF True] run] assms(3) obtain plan where "reconcile env (adopt owner plan m) w = (err, m', w')" by auto
      moreover have "switch_ok (adopt owner plan m)" using assms(1) True by (simp add: switch_ok_def adopt_def)
      ultimately show ?thesis by blast
    next
      case False
      then show ?thesis using run rel assms(3) by (auto simp: apply_node_def split: if_splits)
    qed
  next
    case OpTick
    then show ?thesis using assms by (auto split: if_splits)
  next
    case OpClose
    have "switch_ok (m\<lparr>mg_plans := [], mg_confirm := [], mg_discovery := [], mg_expected := None\<rparr>)" using assms(1) by (simp add: switch_ok_def)
    then show ?thesis using OpClose assms by (fastforce simp: close_manager_def split: if_splits prod.splits)
  qed (use assms rel in auto)
qed

section \<open>Properties\<close>

text \<open>C21. Accepted plans agree. In every state the manager can reach, the plans it has accepted combine without a conflict, and so do those of
  the nodes that listen, whose combination the code takes without looking at its error.
\<close>

theorem accepted_plans_agree:
  assumes "mg_reachable env m w"
  shows "(\<exists>rules. combine_plans (mg_plans m) = Inr rules) \<and> combine_plans (ready_plans (mg_plans m)) = Inr (combined (ready_plans (mg_plans m)))"
  using reachable_agrees [OF assms] agree_parts(1) [OF reachable_agrees [OF assms]] by (auto simp: agree_def combined_def)

lemma reconcile_not_rejected:
  assumes "agree (mg_plans m)" "reconcile env m w = (Some (PlanRejected e), m', w')"
  shows False
  using assms by (auto simp: reconcile_def Let_def agree_def split: if_splits sum.splits prod.splits)

lemma release_not_rejected: "agree (mg_plans m) \<Longrightarrow> release env m owner w \<noteq> (Some (PlanRejected e), m', w')"
  using release_result [of env m owner w "Some (PlanRejected e)" m' w'] reconcile_not_rejected [of "dropped owner m" env w e m' w']
    agree_parts(2) [of "mg_plans m" owner] by auto

text \<open>C22. A rejected node changes nothing. When \<open>Apply\<close> or \<open>Prepare\<close> returns that a plan cannot be made or conflicts with others, no command has
  run, nothing was saved and the accepted plans are the old ones; if the plan itself could be made, it is held for confirmation
  and its listeners are protected from cleaning.
\<close>

theorem rejected_node_changes_nothing:
  assumes "mg_reachable env m w" "apply_node env m owner node auto kind ready w = (Some (PlanRejected e), m', w')"
  shows "w' = w \<and> mg_plans m' = mg_plans m \<and>
    (\<forall>plan. plan_for_node (cx_lib (mg_ctx m)) node kind = Inr plan \<longrightarrow>
       map_of (mg_confirm m') owner = Some (plan\<lparr>fp_ready := ready\<rparr>) \<and> (mg_backend m \<longrightarrow> set (fp_listeners plan) \<subseteq> set (cx_protected (mg_ctx m'))))"
proof -
  note agrees = reachable_agrees [OF assms(1)]
  let ?held = "\<lambda>plan. update_protection (confirm_plan owner (plan\<lparr>fp_ready := ready\<rparr>) (node_reported owner m))"
  have manages: "node_manages_firewall node auto" "\<not> mg_closed m" "mg_enabled m"
    using assms(2) release_not_rejected [OF agrees] by (auto simp: apply_node_def split: if_splits)
  have held: "map_of (mg_confirm (?held plan)) owner = Some (plan\<lparr>fp_ready := ready\<rparr>) \<and>
      (mg_backend m \<longrightarrow> set (fp_listeners plan) \<subseteq> set (cx_protected (mg_ctx (?held plan))))" for plan
    using map_of_SomeD [of "mg_confirm (?held plan)" owner "plan\<lparr>fp_ready := ready\<rparr>"]
    by (force simp: update_protection_def update_conv')
  show ?thesis
  proof (cases "plan_for_node (cx_lib (mg_ctx m)) node kind")
    case (Inl f)
    then show ?thesis using assms(2) manages by (auto simp: apply_node_def Let_def split: if_splits)
  next
    case (Inr plan)
    let ?plan = "plan\<lparr>fp_ready := ready\<rparr>"
    have "combine_plans (candidate_plans m owner ?plan) \<noteq> Inr rules" for rules
    proof
      assume ok: "combine_plans (candidate_plans m owner ?plan) = Inr rules"
      have "agree (mg_plans (adopt owner ?plan m))" using agree_parts(3) [OF agree_Inr [OF ok]] by (simp add: adopt_def)
      moreover have "reconcile env (adopt owner ?plan m) w = (Some (PlanRejected e), m', w')"
        using assms(2) manages Inr ok by (simp add: apply_node_def Let_def adopt_def split: if_splits)
      ultimately show False by (rule reconcile_not_rejected)
    qed
    then have "w' = w \<and> m' = ?held plan"
      using assms(2) manages Inr by (cases "combine_plans (candidate_plans m owner ?plan)") (auto simp: apply_node_def Let_def split: if_splits)
    then show ?thesis using held [of plan] Inr by simp
  qed
qed



section \<open>Examples\<close>

text \<open>A machine with firewalld and nftables, an open node, a node with a source policy, and one with a policy on the first node's port.\<close>

definition filter_env :: fw_env where
  "filter_env = calm_env\<lparr>ev_available := (\<lambda>name. name \<in> {''firewall-cmd'', ''nft''})\<rparr>"

definition open_node :: fw_node where
  "open_node = hop_node\<lparr>nd_protocol := ''vless'', nd_server_port := 5, nd_port_hopping := ''''\<rparr>"

definition guarded_node :: fw_node where
  "guarded_node = open_node\<lparr>nd_server_port := 6, nd_policy_ready := True,
     nd_policy := Some \<lparr>sp_mode = ''blacklist'', sp_block_cn = False, sp_allow = [], sp_block = [''8.8.8.8'']\<rparr>\<rparr>"

definition start_op :: "string \<Rightarrow> fw_node \<Rightarrow> mg_op" where
  "start_op owner node = OpApply owner (Some node) None ''sing-box'' True"

definition fw_start :: fw_manager where
  "fw_start =
     \<lparr>mg_plans = [], mg_backend = True, mg_enabled = True, mg_linux = True, mg_closed = False, mg_error = None, mg_confirm = [],
      mg_discovery = [], mg_expected = None, mg_ctx = sample_ctx\<lparr>cx_plans := [], cx_recovering := True\<rparr>\<rparr>"

definition fw_run :: "mg_op list \<Rightarrow> fw_manager \<times> fw_world" where
  "fw_run ops = fold (\<lambda>op (m, w). snd (mg_step filter_env op m w)) ops (fw_start, lone_world [] [])"

lemma fw_start: "new_fw_manager filter_env sample_ctx True (lone_world [] []) = (Inr fw_start, lone_world [] [])"
  by (simp add: fw_start_def new_fw_manager_def Let_def sample_ctx_def)

lemma sample_reachable: "mg_reachable filter_env (fst (fw_run ops)) (snd (fw_run ops))"
proof (induction ops rule: rev_induct)
  case Nil
  then show ?case using mg_reachable.start [OF fw_start] by (simp add: fw_run_def)
next
  case (snoc op ops)
  obtain err m w where "mg_step filter_env op (fst (fw_run ops)) (snd (fw_run ops)) = (err, m, w)" by (rule prod_cases3)
  from this mg_reachable.step [OF snoc this] show ?case by (simp add: fw_run_def case_prod_beta)
qed

abbreviation one_node :: "mg_op list" where
  "one_node \<equiv> [start_op ''m/node/1'' open_node]"

lemma accepted_plans_agree_witness:
  "map fst (mg_plans (fst (fw_run one_node))) = [''m/node/1''] \<and> (\<exists>rules. combine_plans (mg_plans (fst (fw_run one_node))) = Inr rules)"
proof -
  have "map fst (mg_plans (fst (fw_run one_node))) = [''m/node/1'']" by code_simp
  then show ?thesis using accepted_plans_agree [OF sample_reachable, of one_node] by blast
qed

lemma rejected_node_changes_nothing_witness:
  "let (m, w) = fw_run one_node; (err, m', w') = apply_node filter_env m ''m/node/2'' (Some (guarded_node\<lparr>nd_server_port := 5\<rparr>)) None ''sing-box'' True w
   in err = Some (PlanRejected NeedsConfirmation) \<and> w' = w \<and> mg_plans m' = mg_plans m"
proof -
  let ?apply = "\<lambda>(m, w). apply_node filter_env m ''m/node/2'' (Some (guarded_node\<lparr>nd_server_port := 5\<rparr>)) None ''sing-box'' True w"
  have "fst (?apply (fw_run one_node)) = Some (PlanRejected NeedsConfirmation)" by code_simp
  then obtain m' w' where run: "?apply (fw_run one_node) = (Some (PlanRejected NeedsConfirmation), m', w')" by (cases "?apply (fw_run one_node)") auto
  then show ?thesis
    using rejected_node_changes_nothing [OF sample_reachable [of one_node]] by (simp add: case_prod_beta)
qed



end
