(* ===== verification/Spec2Isabelle.thy ===== *)
theory Spec2Isabelle
  imports PortSet TrafficTracker PendingStore ReportPipeline Limiter AutoSpeed Balancer Mailbox Runtime DeviceGate MachineTraffic Orchestrator KernelTraffic KernelBilling ConnTracker NetAddr FirewallPlan Firewall FirewallManager
begin

text \<open>
  Verification library for the YZ-Agent node agent (Go module \<open>github.com/P0me1oo/YZ-Agent\<close>; paths below are
  relative to its root).

  \<^bold>\<open>The program.\<close> The agent runs a proxy kernel for each node a panel assigns to the machine. The service of a node
  (\<open>internal/service\<close>) receives configuration, users and policies from the panel, by pushes and by pulled
  snapshots, and keeps the kernel in line; connections pass the limiter (\<open>internal/limiter\<close>), the device gate
  (\<open>internal/devicegate\<close>) and, on balancing nodes, the TCP balancer (\<open>internal/balancer\<close>); the tracker
  (\<open>internal/tracker\<close>) turns the counters of the kernel into traffic to report, which the service persists until the
  panel has confirmed it; the machine meter (\<open>internal/machinetraffic\<close>) guards the quota of the whole machine, and the
  orchestrator (\<open>internal/machine\<close>) starts and stops the services of a machine. Inside the sing-box kernel
  (\<open>internal/kernel/singbox\<close>) a tracker admits, counts and closes connections. One firewall manager (\<open>internal/firewall\<close>) opens
  the ports of all nodes in firewalld or UFW and sets their source filters.

  \<^bold>\<open>Theories.\<close> Each models the files named, one definition per function or per section of a function that runs under
  one lock; the manifest maps every definition to its lines.
  \<^item> \<open>Prelude\<close>: Go's maps (association lists; a range loop visits them in list order, and theorems hold for every
    order), integers, strings and string functions; the locales \<open>invariant_machine\<close> and \<open>monotone_machine\<close>,
    interpreted by every component with a run of steps.
  \<^item> \<open>Traffic\<close>, \<open>Float64\<close>: \<open>internal/model/traffic.go\<close> and the rounding of float64.
  \<^item> \<open>PortSet\<close>: \<open>internal/portset\<close>; merging, removing, parsing and printing port ranges.
  \<^item> \<open>TrafficTracker\<close>: \<open>internal/tracker\<close>; counters of users and relays, the buffers of a report, restoring.
  \<^item> \<open>PendingJournal\<close>, \<open>PendingStore\<close>: the store of unconfirmed traffic in \<open>internal/service\<close>, its differences, journal,
    checkpoints and loading; every file operation may fail.
  \<^item> \<open>ReportPipeline\<close>: sampling, taking, saving, sending and confirming batches over tracker and store.
  \<^item> \<open>Limiter\<close>, \<open>AutoSpeed\<close>: \<open>internal/limiter\<close>, \<open>internal/autospeed\<close>; limits of users, shared rate buckets, statistics of
    rejections, temporary speed limits and their persistence.
  \<^item> \<open>Balancer\<close>: \<open>internal/balancer\<close>, \<open>internal/balancerkernel\<close>; choice of targets, the connection loop, the PROXY header,
    reloading.
  \<^item> \<open>Mailbox\<close>: \<open>internal/panel/version.go\<close>, \<open>internal/controlplane/mailbox.go\<close>; order and coalescing of pushed messages.
  \<^item> \<open>Runtime\<close>: the control loop of \<open>internal/service\<close>; starting, reloading and stopping the kernel, users, firewall,
    source policy, back-off. The kernel is a parameter; the locale \<open>runtime_kernel\<close> states what its operations promise
    and is interpreted on the balancer's gateway and on a kernel that keeps a table of users.
  \<^item> \<open>DeviceGate\<close>: \<open>internal/devicegate\<close>; sources, leases, permits, revocation and the exchange with the panel. Objects
    shared by pointer are indices into lists of the manager; a call to the panel is two steps with others in between.
  \<^item> \<open>MachineTraffic\<close>: \<open>internal/machinetraffic\<close>; calendar of periods, metering, quota, choice of interfaces.
  \<^item> \<open>Orchestrator\<close>: \<open>internal/machine\<close>; nodes of a machine, their states, traffic protection, choice of kernels.
  \<^item> \<open>KernelTraffic\<close>, \<open>KernelBilling\<close>: \<open>internal/kernel/singbox/traffic.go\<close> and \<open>traffic_retire.go\<close>; counters of connections, cut
    at every lock and atomic access, and their composition with \<open>TrafficTracker\<close>.
  \<^item> \<open>ConnTracker\<close>: \<open>internal/kernel/singbox/conntracker.go\<close>, \<open>relay.go\<close>, \<open>internal/kernel/relay_access.go\<close>; admission,
    registration and closing of connections, replacement of users, cut at every lock.
  \<^item> \<open>NetAddr\<close>: the classes of \<open>net/netip\<close> that the code uses, \<open>internal/deviceip\<close>, \<open>internal/sourcepolicy/policy.go\<close>; parsing and
    printing of addresses is a parameter (\<open>net_lib\<close>).
  \<^item> \<open>FirewallPlan\<close>: \<open>plan.go\<close>, \<open>ufw_manual.go\<close>, \<open>ufw_comments.go\<close> of \<open>internal/firewall\<close>; plans of nodes and their union, ports left
    to manual rules, comments of rules.
  \<^item> \<open>Firewall\<close>: the backend of \<open>internal/firewall\<close>; records of rules, one reconciliation, under failures of any command or save
    and with others at work (\<open>fw_env\<close>). Actions are functions from a world to a result or an error and a world; triples
    state what they keep. The locale \<open>kept_by_steps\<close> lifts what every elementary action keeps to whole runs and is
    interpreted three times.
  \<^item> \<open>FirewallManager\<close>: \<open>manager.go\<close>, \<open>recovery.go\<close>; accepting, holding and releasing plans, discovery after a start, the order
    of filters and ports.

  \<^bold>\<open>What is shown.\<close> Billing: over any interleaving of samples and reports, with any failures, no byte is lost or billed
  twice, across restarts too (\<open>ReportPipeline\<close>, \<open>PendingStore\<close>, \<open>TrafficTracker\<close>). Control: messages are accepted in order and
  coalescing loses none; a running kernel serves the latest configuration and users, with one exception that is proved
  (\<open>Runtime\<close>, \<open>Mailbox\<close>). Admission: a valid permit always belongs to a listed user and a live lease, users that leave are
  disconnected, late answers revive nothing, confirmations clear only what was reported (\<open>DeviceGate\<close>). Limits: they are
  the last configured ones, reach connections that hold their bucket, and every rejection is reported once (\<open>Limiter\<close>);
  temporary limits are justified by samples (\<open>AutoSpeed\<close>). Quota: a machine runs unblocked only below its quota with its
  state on disk, measuring is exact and never goes back (\<open>MachineTraffic\<close>). Balancing: best priority, fair rotation, at most
  one attempt per target (\<open>Balancer\<close>). Machine: one live service per node, a machine over its quota runs no
  node, stopping ends (\<open>Orchestrator\<close>). Connections: their bytes reach the bill once, under any interleaving
  (\<open>KernelTraffic\<close>, \<open>KernelBilling\<close>); limits hold although check and registration are apart, revoked users lose their
  connections, records match connections, with one exception that is proved (\<open>ConnTracker\<close>). Firewall: the union of plans lets in
  exactly what a plan lets in and sends each datagram to one port (\<open>FirewallPlan\<close>); rules are recorded before they are
  made, rules of others are never removed, with one exception in the records that is proved (\<open>Firewall\<close>); plans in force never
  conflict, ports open only for nodes that are ready and behind their filters, and nothing a node may still need is
  closed (\<open>FirewallManager\<close>). Port sets are canonical and survive printing and parsing (\<open>PortSet\<close>).

  \<^bold>\<open>Bounds.\<close> Byte counters are 64-bit words where wrap-around matters. The connection loop of the balancer has as fuel
  one more than the number of targets, and it is proved that it ends by itself within it. All other recursion is
  structural or proved to terminate. Numbers that only count events are natural numbers.

  \<^bold>\<open>Not modelled.\<close> Network and file system calls themselves (their outcomes are arguments of the steps); the Xray
  kernel, the configuration of both kernels and the libraries they wrap, the copied protocol libraries under \<open>compat\<close>;
  the firewall's scripts for nftables and iptables, the parsing of its listings, the check of its loaded file and the installation of
  tools; configuration files, the command line, the panel client, certificates, logging, health checks, time
  synchronisation, WireGuard and REALITY helpers; validation of relays and routes in \<open>internal/model\<close>. These are calls of
  the system, of third-party code, or text in formats of theirs. Goroutines are modelled as steps that may come in any
  order; waiting and timeouts appear as steps that happen or not.
\<close>

end
